(* ===== verification/Ul_Prelude.thy ===== *)
theory Ul_Prelude
  imports Main "HOL-Library.Signed_Division" "HOL-Library.Sublist" "HOL-Library.Char_ord" "HOL-Library.Monad_Syntax"
begin

text \<open>
  Shared vocabulary of the development: the C strings and buffers of the library,
  the functions of the C standard library that the sources call, and the generic
  lemmas on them that the component theories use.

  A C string is the list of the bytes before its terminating NUL; a function that
  reads \<open>*p\<close> and finds the terminator meets the empty list. A pointer into a string is
  the suffix it points to, or an index when the source compares pointers. A \<open>char\<close> is
  one byte; \<open>T[(unsigned char)c]\<close> is \<open>T ! of_char c\<close>. A computation of type
  \<open>'a option\<close> whose \<open>None\<close> is described as undefined behaviour or abort has no value
  in the program at that point.
\<close>

named_theorems table_specs \<open>what a 256-entry character table contains\<close>
named_theorems clib_simps \<open>rewriting of the C library functions on structured strings\<close>

type_synonym cstr = string
type_synonym table = "nat list"
type_synonym fsys = "cstr \<rightharpoonup> cstr"
  \<comment> \<open>the contents of the regular files that can be read, by path name\<close>

abbreviation NUL :: char where "NUL \<equiv> CHR 0x00"
abbreviation TAB :: char where "TAB \<equiv> CHR 0x09"
abbreviation LF :: char where "LF \<equiv> CHR 0x0A"
abbreviation CR :: char where "CR \<equiv> CHR 0x0D"

definition cstr_ok :: "cstr \<Rightarrow> bool" where
  "cstr_ok s \<longleftrightarrow> NUL \<notin> set s"

definition tab :: "table \<Rightarrow> char \<Rightarrow> bool" where
  \<comment> \<open>\<open>if (T[(unsigned char)c])\<close>\<close>
  "tab t c \<longleftrightarrow> t ! of_char c \<noteq> 0"

section \<open>The C library functions the sources call\<close>

fun strchr :: "cstr \<Rightarrow> char \<Rightarrow> nat option" where
  \<comment> \<open>the offset of the first occurrence; \<open>None\<close> is the null pointer\<close>
  "strchr [] c = None"
| "strchr (x # xs) c = (if x = c then Some 0 else map_option Suc (strchr xs c))"

fun strstr :: "cstr \<Rightarrow> cstr \<Rightarrow> nat option" where
  "strstr [] t = (if t = [] then Some 0 else None)"
| "strstr (x # xs) t = (if prefix t (x # xs) then Some 0 else map_option Suc (strstr xs t))"

definition tolower :: "char \<Rightarrow> char" where
  "tolower c = (if 65 \<le> (of_char c :: nat) \<and> (of_char c :: nat) \<le> 90 then char_of (of_char c + 32 :: nat) else c)"

definition strncmp_eq :: "cstr \<Rightarrow> cstr \<Rightarrow> nat \<Rightarrow> bool" where
  \<comment> \<open>\<open>strncmp(s, t, n) == 0\<close>\<close>
  "strncmp_eq s t n \<longleftrightarrow> take n s = take n t"

definition strncasecmp_eq :: "cstr \<Rightarrow> cstr \<Rightarrow> nat \<Rightarrow> bool" where
  \<comment> \<open>\<open>strncasecmp(s, t, n) == 0\<close>\<close>
  "strncasecmp_eq s t n \<longleftrightarrow> map tolower (take n s) = map tolower (take n t)"

definition isspace :: "char \<Rightarrow> bool" where
  "isspace c \<longleftrightarrow> c = CHR '' '' \<or> (9 \<le> (of_char c :: nat) \<and> (of_char c :: nat) \<le> 13)"

definition isdigit :: "char \<Rightarrow> bool" where
  "isdigit c \<longleftrightarrow> 48 \<le> (of_char c :: nat) \<and> (of_char c :: nat) \<le> 57"

definition digit_val :: "char \<Rightarrow> nat" where
  "digit_val c = of_char c - 48"

fun digits_val :: "nat \<Rightarrow> cstr \<Rightarrow> nat" where
  "digits_val n [] = n"
| "digits_val n (c # cs) = (if isdigit c then digits_val (10 * n + digit_val c) cs else n)"

definition strtol10 :: "cstr \<Rightarrow> int" where
  \<comment> \<open>\<open>strtol(s, NULL, 10)\<close>, saturating at the 64-bit limits of \<open>long\<close>\<close>
  "strtol10 s =
     (let t = dropWhile isspace s;
          v = (case t of
                 [] \<Rightarrow> 0
               | c # cs \<Rightarrow> if c = CHR ''-'' then - int (digits_val 0 cs)
                           else if c = CHR ''+'' then int (digits_val 0 cs)
                           else int (digits_val 0 t))
      in max (- (2 ^ 63)) (min (2 ^ 63 - 1) v))"

definition atoi :: "cstr \<Rightarrow> int" where
  \<comment> \<open>\<open>(int) strtol(s, NULL, 10)\<close>: the conversion to \<open>int\<close> keeps the low 32 bits\<close>
  "atoi s = (strtol10 s + 2 ^ 31) mod 2 ^ 32 - 2 ^ 31"

fun dec_nat :: "nat \<Rightarrow> cstr" where
  "dec_nat n = (if n < 10 then [char_of (48 + n)]
                else dec_nat (n div 10) @ [char_of (48 + n mod 10)])"

declare dec_nat.simps [simp del]

definition dec_int :: "int \<Rightarrow> cstr" where
  \<comment> \<open>the conversion \<open>%d\<close> of printf\<close>
  "dec_int i = (if i < 0 then CHR ''-'' # dec_nat (nat (- i)) else dec_nat (nat i))"

definition snprintf_buf :: "nat \<Rightarrow> cstr \<Rightarrow> cstr" where
  \<comment> \<open>what \<open>snprintf(buf, size, ...)\<close> leaves in \<open>buf\<close> when the formatted text is \<open>s\<close>
      and \<open>n = size > 0\<close>; it returns \<open>length s\<close>\<close>
  "snprintf_buf n s = take (n - 1) s"

definition snprintf_block :: "char list \<Rightarrow> nat \<Rightarrow> cstr \<Rightarrow> char list option" where
  \<comment> \<open>\<open>snprintf(blk, size, "%s", s)\<close>\<close>
  "snprintf_block blk siz s =
     (if siz = 0 then Some blk
      else let t = snprintf_buf siz s in
        if length t < length blk then Some (t @ NUL # drop (Suc (length t)) blk) else None)"

definition put_at :: "nat \<Rightarrow> char list \<Rightarrow> char list \<Rightarrow> char list option" where
  \<comment> \<open>\<open>memcpy(blk + k, bs, n)\<close>\<close>
  "put_at k bs blk = (if k + length bs \<le> length blk then Some (take k blk @ bs @ drop (k + length bs) blk) else None)"

definition str_at :: "char list \<Rightarrow> nat \<Rightarrow> cstr option" where
  \<comment> \<open>the string at an offset; \<open>None\<close>: it does not end within the block\<close>
  "str_at mem k = (let t = drop k mem in if NUL \<in> set t then Some (takeWhile (\<lambda>c. c \<noteq> NUL) t) else None)"

definition scan_word :: "cstr \<Rightarrow> cstr \<times> cstr" where
  \<comment> \<open>the conversion \<open>%s\<close> of sscanf: the word, empty when there is none, and the rest of the input\<close>
  "scan_word s =
     (let t = dropWhile isspace s in (takeWhile (\<lambda>c. \<not> isspace c) t, dropWhile (\<lambda>c. \<not> isspace c) t))"

definition scan_int :: "cstr \<Rightarrow> (int \<times> cstr) option" where
  \<comment> \<open>the conversion \<open>%d\<close> of sscanf; \<open>None\<close> when it does not match\<close>
  "scan_int s =
     (let t = dropWhile isspace s;
          neg = (t \<noteq> [] \<and> hd t = CHR ''-'');
          u = (if t \<noteq> [] \<and> (hd t = CHR ''-'' \<or> hd t = CHR ''+'') then tl t else t);
          ds = takeWhile isdigit u;
          v = int (digits_val 0 ds)
      in if ds = [] then None else Some (if neg then - v else v, dropWhile isdigit u))"

definition int_ok :: "int \<Rightarrow> bool" where
  "int_ok v \<longleftrightarrow> - (2 ^ 31) \<le> v \<and> v < 2 ^ 31"

definition to_int32 :: "int \<Rightarrow> int" where
  \<comment> \<open>the conversion of a wider integer to \<open>int\<close>\<close>
  "to_int32 x = (x + 2 ^ 31) mod 2 ^ 32 - 2 ^ 31"

section \<open>Lemmas on the C library functions\<close>

lemma of_char_less_256 [simp]: "of_char c < (256 :: nat)"
  by simp

lemma char_eq_nat: "c = d \<longleftrightarrow> (of_char c :: nat) = of_char d"
  by simp

lemma cstr_ok_Nil [simp]: "cstr_ok []"
  by (simp add: cstr_ok_def)

lemma cstr_ok_Cons [simp]: "cstr_ok (c # s) \<longleftrightarrow> c \<noteq> NUL \<and> cstr_ok s"
  by (auto simp: cstr_ok_def)

lemma cstr_ok_append [simp]: "cstr_ok (s @ t) \<longleftrightarrow> cstr_ok s \<and> cstr_ok t"
  by (auto simp: cstr_ok_def)

lemma cstr_ok_rev [simp]: "cstr_ok (rev s) \<longleftrightarrow> cstr_ok s"
  by (simp add: cstr_ok_def)

lemma cstr_ok_take [intro]: "cstr_ok s \<Longrightarrow> cstr_ok (take n s)"
  by (meson cstr_ok_def in_set_takeD)

lemma cstr_ok_drop [intro]: "cstr_ok s \<Longrightarrow> cstr_ok (drop n s)"
  by (meson cstr_ok_def in_set_dropD)

lemma strchr_None_iff [clib_simps]: "strchr s c = None \<longleftrightarrow> c \<notin> set s"
  by (induction s) auto

lemma strchr_Some:
  assumes "strchr s c = Some i"
  shows "i < length s \<and> s ! i = c \<and> c \<notin> set (take i s) \<and> i = length (takeWhile (\<lambda>x. x \<noteq> c) s)"
  using assms
proof (induction s arbitrary: i)
  case Nil
  then show ?case by simp
next
  case (Cons x xs)
  show ?case
  proof (cases "x = c")
    case True
    with Cons.prems show ?thesis by simp
  next
    case False
    with Cons.prems obtain j where "strchr xs c = Some j" and "i = Suc j" by auto
    with Cons.IH[of j] False show ?thesis by auto
  qed
qed

lemma strchr_Some_iff:
  "strchr s c = Some i \<longleftrightarrow> i < length s \<and> s ! i = c \<and> c \<notin> set (take i s)"
proof
  show "strchr s c = Some i \<Longrightarrow> i < length s \<and> s ! i = c \<and> c \<notin> set (take i s)"
    by (simp add: strchr_Some)
next
  assume a: "i < length s \<and> s ! i = c \<and> c \<notin> set (take i s)"
  then have "c \<in> set s" by (metis nth_mem)
  then obtain j where j: "strchr s c = Some j" by (metis strchr_None_iff not_None_eq)
  then have b: "j < length s" "s ! j = c" "c \<notin> set (take j s)" by (simp_all add: strchr_Some)
  have "\<not> i < j" using a b by (metis in_set_conv_nth length_take min_less_iff_conj nth_take)
  moreover have "\<not> j < i" using a b by (metis in_set_conv_nth length_take min_less_iff_conj nth_take)
  ultimately show "strchr s c = Some i" using j by simp
qed

lemma strchr_append [clib_simps]: "c \<notin> set s \<Longrightarrow> strchr (s @ t) c = map_option (\<lambda>i. length s + i) (strchr t c)"
  by (cases "strchr t c"; induction s) auto

lemma suffix_tl: "suffix (tl s) s"
  by (cases s) (auto simp: suffix_Cons)

lemma strchr_split: "strchr s c = Some i \<Longrightarrow> s = take i s @ c # drop (Suc i) s"
  by (metis id_take_nth_drop strchr_Some)

lemma strncmp_eq_prefix: "strncmp_eq s t (length t) \<longleftrightarrow> prefix t s"
  by (auto simp: strncmp_eq_def prefix_def) (metis append_take_drop_id)

lemma length_snprintf_buf [simp]: "0 < n \<Longrightarrow> length (snprintf_buf n s) < n"
  by (auto simp: snprintf_buf_def min_def)

lemma snprintf_buf_fits [simp]: "length s < n \<Longrightarrow> snprintf_buf n s = s"
  by (simp add: snprintf_buf_def)

lemma isdigit_char_of: "n < 10 \<Longrightarrow> isdigit (char_of (48 + n :: nat))"
  by (simp add: isdigit_def of_char_of)

lemma digit_val_char_of: "n < 10 \<Longrightarrow> digit_val (char_of (48 + n :: nat)) = n"
  by (simp add: digit_val_def of_char_of)

lemma digits_val_append: "\<forall>c \<in> set s. isdigit c \<Longrightarrow> digits_val n (s @ t) = digits_val (digits_val n s) t"
  by (induction s arbitrary: n) auto

lemma dec_nat_isdigit: "\<forall>c \<in> set (dec_nat n). isdigit c"
proof (induction n rule: dec_nat.induct)
  case (1 n)
  show ?case
  proof (cases "n < 10")
    case True
    then show ?thesis by (subst dec_nat.simps) (simp add: isdigit_char_of)
  next
    case False
    with 1 have "\<forall>c \<in> set (dec_nat (n div 10)). isdigit c" by simp
    with False show ?thesis by (subst dec_nat.simps) (auto simp: isdigit_char_of)
  qed
qed

lemma dec_nat_nonempty [simp]: "dec_nat n \<noteq> []"
  by (subst dec_nat.simps) simp

lemma digits_val_dec_nat [simp]: "digits_val 0 (dec_nat n) = n"
proof (induction n rule: dec_nat.induct)
  case (1 n)
  show ?case
  proof (cases "n < 10")
    case True
    then show ?thesis by (subst dec_nat.simps) (simp add: isdigit_char_of digit_val_char_of)
  next
    case False
    have "digits_val 0 (dec_nat n) = digits_val (digits_val 0 (dec_nat (n div 10))) [char_of (48 + n mod 10)]"
      using False by (subst dec_nat.simps) (simp add: digits_val_append dec_nat_isdigit)
    also have "\<dots> = 10 * (n div 10) + n mod 10"
      using 1 False by (simp add: isdigit_char_of digit_val_char_of)
    finally show ?thesis by simp
  qed
qed

lemma isdigit_not_special:
  assumes "isdigit c"
  shows "\<not> isspace c" "c \<noteq> CHR ''-''" "c \<noteq> CHR ''+''" "c \<noteq> NUL" "c \<noteq> CHR '' ''"
  using assms by (auto simp: isdigit_def isspace_def)

lemma digits_val_bound: "digits_val n s < (n + 1) * 10 ^ length s"
proof (induction s arbitrary: n)
  case Nil
  then show ?case by simp
next
  case (Cons c s)
  show ?case
  proof (cases "isdigit c")
    case True
    then have "digit_val c \<le> 9" by (auto simp: isdigit_def digit_val_def)
    then have "(10 * n + digit_val c + 1) * 10 ^ length s \<le> (10 * n + 10) * 10 ^ length s"
      by (intro mult_le_mono1) simp
    with Cons[of "10 * n + digit_val c"]
    have "digits_val (10 * n + digit_val c) s < (10 * n + 10) * 10 ^ length s" by linarith
    also have "(10 * n + 10) * 10 ^ length s = (n + 1) * 10 ^ length (c # s)" by (simp add: algebra_simps)
    finally show ?thesis using True by simp
  next
    case False
    have "n < (n + 1) * 1" by simp
    also have "\<dots> \<le> (n + 1) * 10 ^ length (c # s)" by (intro mult_le_mono2) simp
    finally show ?thesis using False by simp
  qed
qed

lemma strtol10_digits:
  assumes "\<forall>c \<in> set s. isdigit c" "length s \<le> 9"
  shows "strtol10 s = int (digits_val 0 s)"
proof -
  have "digits_val 0 s < 10 ^ length s" using digits_val_bound[of 0 s] by simp
  also have "(10::nat) ^ length s \<le> 10 ^ 9" using assms(2) by (intro power_increasing) auto
  finally have b: "digits_val 0 s < 10 ^ 9" .
  have "dropWhile isspace s = s"
    using assms(1) by (cases s) (auto dest: isdigit_not_special)
  moreover have "s = c # cs \<Longrightarrow> c \<noteq> CHR ''-'' \<and> c \<noteq> CHR ''+''" for c cs
    using assms(1) by (auto dest: isdigit_not_special)
  ultimately show ?thesis
    using b by (cases s) (auto simp: strtol10_def Let_def)
qed

lemma atoi_digits:
  assumes "\<forall>c \<in> set s. isdigit c" "length s \<le> 9"
  shows "atoi s = int (digits_val 0 s)"
proof -
  have "digits_val 0 s < 10 ^ length s" using digits_val_bound[of 0 s] by simp
  also have "(10::nat) ^ length s \<le> 10 ^ 9" using assms(2) by (intro power_increasing) auto
  finally have "digits_val 0 s < 10 ^ 9" .
  then show ?thesis using strtol10_digits[OF assms] by (simp add: atoi_def)
qed

lemma length_dec_nat_le: "n < 10 ^ k \<Longrightarrow> 0 < k \<Longrightarrow> length (dec_nat n) \<le> k"
proof (induction k arbitrary: n)
  case 0
  then show ?case by simp
next
  case (Suc k)
  show ?case
  proof (cases "n < 10")
    case True
    then show ?thesis by (subst dec_nat.simps) simp
  next
    case False
    with Suc.prems have "0 < k" by (cases k) auto
    moreover have "n div 10 < 10 ^ k"
      using Suc.prems by (simp add: less_mult_imp_div_less mult.commute)
    ultimately have "length (dec_nat (n div 10)) \<le> k" by (rule Suc.IH[rotated])
    with False show ?thesis by (subst dec_nat.simps) simp
  qed
qed

lemma isspace_sep [simp]: "isspace CHR '' ''" "\<not> isspace CHR '':''" "isspace CHR 0x0D"
  by (simp_all add: isspace_def)

lemma scan_int_dec:
  assumes "r = [] \<or> \<not> isdigit (hd r)"
  shows "scan_int (CHR '' '' # dec_nat k @ r) = Some (int k, r)"
proof -
  obtain c cs where c: "dec_nat k = c # cs" using dec_nat_nonempty by (cases "dec_nat k") auto
  then have sp: "\<not> isspace c" "c \<noteq> CHR ''-''" "c \<noteq> CHR ''+''"
    using dec_nat_isdigit[of k] by (auto dest: isdigit_not_special)
  have tw: "takeWhile isdigit (dec_nat k @ r) = dec_nat k" "dropWhile isdigit (dec_nat k @ r) = r"
    using assms dec_nat_isdigit[of k] by (cases r; simp add: takeWhile_append2 dropWhile_append2)+
  have "dropWhile isspace (CHR '' '' # dec_nat k @ r) = dec_nat k @ r" using sp by (simp add: c)
  moreover have "dec_nat k @ r \<noteq> []" "hd (dec_nat k @ r) = c" by (simp_all add: c)
  ultimately show ?thesis using sp tw by (simp add: scan_int_def Let_def del: takeWhile_append dropWhile_append)
qed

lemma put_at_facts:
  assumes "k + length bs \<le> length blk"
  obtains blk' where "put_at k bs blk = Some blk'" "length blk' = length blk" "take k blk' = take k blk"
    "take (length bs) (drop k blk') = bs" "drop (k + length bs) blk' = drop (k + length bs) blk"
  using assms that[of "take k blk @ bs @ drop (k + length bs) blk"] by (simp add: put_at_def)

lemma put_at_0: "length bs \<le> length blk \<Longrightarrow> put_at 0 bs blk = Some (bs @ drop (length bs) blk)"
  by (simp add: put_at_def)

lemma to_int32_id: "0 \<le> x \<Longrightarrow> x < 2 ^ 31 \<Longrightarrow> to_int32 x = x"
  by (simp add: to_int32_def)

end
