(* ===== verification/Ul_Com_Layout.thy ===== *)
theory Ul_Com_Layout
  imports Ul_Prelude
begin

text \<open>
  How a log line is made, \<^verbatim>\<open>ullib/src/comlog/event.cpp\<close>, \<^verbatim>\<open>layout.cpp\<close> and the time and copying functions of
  \<^verbatim>\<open>xutils.cpp\<close>: the event that collects the message and its pairs of key and value, and the layout whose pattern
  says what is printed where.

  The buffers of an event are lists of bytes, a write outside of one has no result. Of the array of pairs only the
  ones in use are kept. The local time, the expansion of \<open>strftime\<close> and the name of the host are arguments.
\<close>

section \<open>Events\<close>

definition MAXMSGSIZE :: int where "MAXMSGSIZE = 2048"
definition MAXTYPESIZE :: nat where "MAXTYPESIZE = 64"
definition NDCSIZE :: nat where "NDCSIZE = 64"
definition NDCNUM :: nat where "NDCNUM = 32"

record Event =
  log_level :: nat
  log_version :: int
  log_type :: "char list"
  print_sec :: int
  print_usec :: int
  proc_name :: cstr
  thread_id :: nat
  ndcs :: "(cstr \<times> cstr) list"
  msgbuf :: "char list"
  msgbuf_len :: int
  render_msgbuf :: "char list"
  render_msgbuf_len :: int

definition push :: "cstr \<Rightarrow> cstr \<Rightarrow> Event \<Rightarrow> int \<times> Event" where
  \<comment> \<open>\<open>_ndc_num\<close> is the length of the list\<close>
  "push key val evt =
     (if NDCNUM \<le> length (ndcs evt) then (-1, evt)
      else (0, evt\<lparr>ndcs := ndcs evt @ [(take (NDCSIZE - 1) key, take (NDCSIZE - 1) val)]\<rparr>))"

definition setMaxLogLength :: "int \<Rightarrow> int" where
  \<comment> \<open>the size of both buffers of an event that is made afterwards\<close>
  "setMaxLogLength n = (if n \<le> 8 then MAXMSGSIZE else n)"

definition setLogVersion :: "int \<Rightarrow> Event \<Rightarrow> Event" where
  "setLogVersion version evt = evt\<lparr>log_version := version\<rparr>"

definition setLogType :: "cstr \<Rightarrow> Event \<Rightarrow> Event" where
  \<comment> \<open>\<open>strncpy(_log_type, type, MAXTYPESIZE)\<close>\<close>
  "setLogType typ evt =
     evt\<lparr>log_type := take MAXTYPESIZE typ @ replicate (MAXTYPESIZE - length typ) NUL @ drop MAXTYPESIZE (log_type evt)\<rparr>"

definition reset :: "Event \<Rightarrow> Event" where
  "reset evt = evt\<lparr>ndcs := [], msgbuf := (msgbuf evt)[0 := NUL], msgbuf_len := 0,
     render_msgbuf := (render_msgbuf evt)[0 := NUL], render_msgbuf_len := 0, log_version := -1, log_type := (log_type evt)[0 := NUL]\<rparr>"

definition new_Event :: "int \<Rightarrow> Event \<Rightarrow> Event" where
  \<comment> \<open>the constructor: buffers of \<open>n\<close> bytes, which hold what they held\<close>
  "new_Event n evt = reset (evt\<lparr>msgbuf := take (nat n) (msgbuf evt), render_msgbuf := take (nat n) (render_msgbuf evt)\<rparr>)"

section \<open>Layouts\<close>

record tm = tm_mon :: nat tm_mday :: nat tm_hour :: nat tm_min :: nat tm_sec :: nat

record world =
  localtime :: "int \<Rightarrow> tm"
  strftime :: "cstr \<Rightarrow> tm \<Rightarrow> cstr"
  junk :: "nat \<Rightarrow> char list"
  hostname :: cstr
  levelName :: "cstr list"
  time_format :: cstr

definition COM_LEVELNUM :: nat where "COM_LEVELNUM = 64"
definition MAXPATTERNSIZE :: nat where "MAXPATTERNSIZE = 1024"

record Layout =
  pattern :: cstr
  ndc_pattern :: cstr

definition setPattern :: "cstr \<Rightarrow> Layout \<Rightarrow> Layout" where
  "setPattern p la = la\<lparr>pattern := snprintf_buf MAXPATTERNSIZE p\<rparr>"

definition setNdcPattern :: "cstr \<Rightarrow> Layout \<Rightarrow> Layout" where
  "setNdcPattern p la = la\<lparr>ndc_pattern := snprintf_buf MAXPATTERNSIZE p\<rparr>"

definition setTimeFormat :: "cstr \<Rightarrow> world \<Rightarrow> world" where
  "setTimeFormat fmt w = w\<lparr>time_format := snprintf_buf 128 fmt\<rparr>"

definition default_layout :: Layout where
  "default_layout = setNdcPattern ''%K:%V,'' (setPattern ''%L: %D:  %P * %T %R'' \<lparr>pattern = [], ndc_pattern = []\<rparr>)"

definition getLogName :: "world \<Rightarrow> nat \<Rightarrow> cstr" where
  "getLogName w logid = levelName w ! (logid mod COM_LEVELNUM)"

definition print_at :: "nat \<Rightarrow> nat \<Rightarrow> cstr \<Rightarrow> char list \<Rightarrow> (nat \<times> char list) option" where
  \<comment> \<open>\<open>snprintf(buf + k, siz, "%s", s)\<close>: the result and the buffer\<close>
  "print_at k siz s buf =
     (if siz = 0 then Some (length s, buf) else map_option (\<lambda>b. (length s, b)) (put_at k (take (siz - 1) s @ [NUL]) buf))"

definition xstrcpy :: "nat \<Rightarrow> nat \<Rightarrow> char list \<Rightarrow> nat \<Rightarrow> char list \<Rightarrow> (nat \<times> char list) option" where
  \<comment> \<open>to \<open>buf + k\<close>, where \<open>destsiz\<close> bytes are free; \<open>None\<close> also if \<open>src\<close> has fewer than \<open>len\<close> bytes\<close>
  "xstrcpy k destsiz src srcsiz buf =
     (let len = (if destsiz \<le> srcsiz then destsiz - 1 else srcsiz) in
      if length src < len then None else map_option (\<lambda>b. (len, b)) (put_at k (take len src @ [NUL]) buf))"

definition digits :: "nat \<Rightarrow> nat \<Rightarrow> cstr" where
  \<comment> \<open>the conversion \<open>%02d\<close>, for three digits \<open>%03d\<close>\<close>
  "digits width n = (let s = dec_nat n in replicate (width - length s) CHR ''0'' @ s)"

definition fmtime :: "tm \<Rightarrow> cstr" where
  "fmtime t = digits 2 (tm_mon t + 1) @ ''-'' @ digits 2 (tm_mday t) @ '' '' @ digits 2 (tm_hour t) @ '':''
     @ digits 2 (tm_min t) @ '':'' @ digits 2 (tm_sec t)"

definition xfmtime :: "world \<Rightarrow> int \<Rightarrow> cstr" where
  "xfmtime w now = fmtime (localtime w now)"

definition xfmtime_tv :: "world \<Rightarrow> int \<Rightarrow> int \<Rightarrow> cstr" where
  "xfmtime_tv w sec usec = fmtime (localtime w sec) @ '':'' @ digits 3 (nat (usec div 1000))"

definition strftime_at :: "world \<Rightarrow> nat \<Rightarrow> nat \<Rightarrow> int \<Rightarrow> char list \<Rightarrow> (nat \<times> char list) option" where
  \<comment> \<open>a text that does not fit gives 0, and the buffer holds anything then\<close>
  "strftime_at w k siz sec buf =
     (let s = strftime w (time_format w) (localtime w sec) in
      if length s < siz then map_option (\<lambda>b. (length s, b)) (put_at k (s @ [NUL]) buf)
      else map_option (\<lambda>b. (0, b)) (put_at k (take siz (junk w siz)) buf))"

datatype flow = Done | Full | Tail

fun ndc_chars :: "cstr \<times> cstr \<Rightarrow> nat \<Rightarrow> cstr \<Rightarrow> nat \<Rightarrow> char list \<Rightarrow> (flow \<times> nat \<times> char list) option" where
  \<comment> \<open>the loop over \<open>_ndc_pattern\<close> for one pair: \<open>Full\<close> is \<open>return 0\<close>, \<open>Tail\<close> the jump of \<open>CHECKTAIL\<close>\<close>
  "ndc_chars kv bufsiz [] ptr buf = Some (Done, ptr, buf)"
| "ndc_chars kv bufsiz (c # p) ptr buf =
     (if bufsiz \<le> ptr then Some (Full, ptr, buf)
      else if c \<noteq> CHR ''%'' then
        (case put_at ptr [c] buf of None \<Rightarrow> None | Some b \<Rightarrow> ndc_chars kv bufsiz p (ptr + 1) b)
      else case p of
        [] \<Rightarrow> Some (Done, ptr, buf)
      | d # p' \<Rightarrow>
          (if d = CHR ''K'' \<or> d = CHR ''V'' then
             (case print_at ptr (bufsiz - ptr) (if d = CHR ''K'' then fst kv else snd kv) buf of
                None \<Rightarrow> None
              | Some (ret, b) \<Rightarrow> if bufsiz < ret + ptr then Some (Tail, bufsiz, b) else ndc_chars kv bufsiz p' (ptr + ret) b)
           else if d = CHR ''%'' then
             (case put_at ptr [CHR ''%''] buf of None \<Rightarrow> None | Some b \<Rightarrow> ndc_chars kv bufsiz p' (ptr + 1) b)
           else ndc_chars kv bufsiz p' ptr buf))"

fun ndc_loop :: "cstr \<Rightarrow> nat \<Rightarrow> (cstr \<times> cstr) list \<Rightarrow> nat \<Rightarrow> char list \<Rightarrow> (flow \<times> nat \<times> char list) option" where
  "ndc_loop p bufsiz [] ptr buf = Some (Done, ptr, buf)"
| "ndc_loop p bufsiz (kv # kvs) ptr buf =
     (case ndc_chars kv bufsiz p ptr buf of
        Some (Done, ptr', b) \<Rightarrow> ndc_loop p bufsiz kvs ptr' b
      | res \<Rightarrow> res)"

definition fmtpattern :: "Layout \<Rightarrow> Event \<Rightarrow> nat \<Rightarrow> char list \<Rightarrow> (nat \<times> char list) option" where
  "fmtpattern la evt bufsiz buf =
     (case ndc_loop (ndc_pattern la) bufsiz (ndcs evt) 0 buf of
        None \<Rightarrow> None
      | Some (Full, ptr, b) \<Rightarrow> Some (0, b)
      | Some (_, ptr, b) \<Rightarrow>
          (let ptr' = (if bufsiz \<le> ptr then ptr - 1 else ptr) in map_option (\<lambda>b'. (ptr', b')) (put_at ptr' [NUL] b)))"

definition field :: "world \<Rightarrow> Layout \<Rightarrow> Event \<Rightarrow> nat \<Rightarrow> char \<Rightarrow> nat \<Rightarrow> char list \<Rightarrow> (nat \<times> char list) option" where
  \<comment> \<open>the \<open>switch\<close>: \<open>ret\<close> and the buffer; a character without a meaning adds nothing\<close>
  "field w la evt bufsiz d ptr buf =
     (let siz = bufsiz - ptr in
      if d = CHR ''L'' then print_at ptr siz (getLogName w (log_level evt)) buf
      else if d = CHR ''A'' then print_at ptr siz (xfmtime_tv w (print_sec evt) (print_usec evt)) buf
      else if d = CHR ''T'' then print_at ptr siz (dec_nat (thread_id evt mod 2 ^ 32)) buf
      else if d = CHR ''D'' then print_at ptr siz (xfmtime w (print_sec evt)) buf
      else if d = CHR ''Y'' then strftime_at w ptr siz (print_sec evt) buf
      else if d = CHR ''U'' then print_at ptr siz (dec_int (print_usec evt div 1000)) buf
      else if d = CHR ''P'' then print_at ptr siz (proc_name evt) buf
      else if d = CHR ''N'' then map_option (\<lambda>(ret, b). (ret, take ptr buf @ b)) (fmtpattern la evt siz (drop ptr buf))
      else if d = CHR ''H'' then xstrcpy ptr siz (hostname w) (length (hostname w)) buf
      else if d = CHR ''R'' then xstrcpy ptr siz (msgbuf evt) (nat (msgbuf_len evt)) buf
      else Some (0, buf))"

fun pattern_loop :: "world \<Rightarrow> Layout \<Rightarrow> Event \<Rightarrow> nat \<Rightarrow> cstr \<Rightarrow> nat \<Rightarrow> char list \<Rightarrow> (nat \<times> char list) option" where
  \<comment> \<open>the loop over \<open>_pattern\<close>, to the label \<open>end\<close>\<close>
  "pattern_loop w la evt bufsiz [] ptr buf = Some (ptr, buf)"
| "pattern_loop w la evt bufsiz (c # p) ptr buf =
     (if bufsiz \<le> ptr then Some (ptr, buf)
      else if c \<noteq> CHR ''%'' then
        (case put_at ptr [c] buf of None \<Rightarrow> None | Some b \<Rightarrow> pattern_loop w la evt bufsiz p (ptr + 1) b)
      else case p of
        [] \<Rightarrow> Some (ptr, buf)
      | d # p' \<Rightarrow>
          (case field w la evt bufsiz d ptr buf of
             None \<Rightarrow> None
           | Some (ret, b) \<Rightarrow> if bufsiz < ret + ptr then Some (bufsiz, b) else pattern_loop w la evt bufsiz p' (ptr + ret) b))"

definition start_line :: "Event \<Rightarrow> nat \<Rightarrow> char list \<Rightarrow> (bool \<times> nat \<times> char list) option" where
  \<comment> \<open>the version and the type; \<open>False\<close>: on to the label \<open>end\<close>\<close>
  "start_line evt bufsiz buf =
     (if 0 \<le> log_version evt \<and> hd (log_type evt) \<noteq> NUL then
        (case print_at 0 bufsiz (dec_int (log_version evt)) buf of
           None \<Rightarrow> None
         | Some (ret, b) \<Rightarrow>
             if bufsiz < ret then Some (False, bufsiz, b)
             else (case put_at ret '' '' b of
                None \<Rightarrow> None
              | Some b1 \<Rightarrow>
                  (let ptr = ret + 1 in
                   case str_at (log_type evt) 0 of
                     None \<Rightarrow> None
                   | Some typ \<Rightarrow>
                       (case print_at ptr (bufsiz - ptr) typ b1 of
                          None \<Rightarrow> None
                        | Some (ret2, b2) \<Rightarrow>
                            if bufsiz < ret2 + ptr then Some (False, bufsiz, b2)
                            else map_option (\<lambda>b3. (True, ptr + ret2 + 1, b3)) (put_at (ptr + ret2) '' '' b2)))))
      else Some (True, 0, buf))"

definition format :: "world \<Rightarrow> Layout \<Rightarrow> Event \<Rightarrow> (int \<times> Event) option" where
  \<comment> \<open>\<open>_render_msgbuf_size\<close> is the length of the buffer\<close>
  "format w la evt =
     (let bufsiz = length (render_msgbuf evt) in
      if bufsiz < 2 then Some (-1, evt)
      else case start_line evt bufsiz (render_msgbuf evt) of
        None \<Rightarrow> None
      | Some (go, ptr, buf) \<Rightarrow>
          (case (if go then pattern_loop w la evt bufsiz (pattern la) ptr buf else Some (ptr, buf)) of
             None \<Rightarrow> None
           | Some (ptr1, buf1) \<Rightarrow>
               (let ptr2 = (if bufsiz - 1 \<le> ptr1 then bufsiz - 2 else ptr1) in
                map_option (\<lambda>b. (0, evt\<lparr>render_msgbuf := b, render_msgbuf_len := int ptr2 + 1\<rparr>)) (put_at ptr2 [LF, NUL] buf1))))"

section \<open>The text of a line\<close>

fun ndc_text :: "cstr \<times> cstr \<Rightarrow> cstr \<Rightarrow> cstr" where
  "ndc_text kv [] = []"
| "ndc_text kv (c # p) =
     (if c \<noteq> CHR ''%'' then c # ndc_text kv p
      else case p of
        [] \<Rightarrow> []
      | d # p' \<Rightarrow> (if d = CHR ''K'' then fst kv else if d = CHR ''V'' then snd kv else if d = CHR ''%'' then ''%'' else []) @ ndc_text kv p')"

definition message :: "Event \<Rightarrow> char list" where
  "message evt = take (nat (msgbuf_len evt)) (msgbuf evt)"

definition field_text :: "world \<Rightarrow> Layout \<Rightarrow> Event \<Rightarrow> char \<Rightarrow> cstr" where
  "field_text w la evt d =
     (if d = CHR ''L'' then getLogName w (log_level evt)
      else if d = CHR ''A'' then xfmtime_tv w (print_sec evt) (print_usec evt)
      else if d = CHR ''T'' then dec_nat (thread_id evt mod 2 ^ 32)
      else if d = CHR ''D'' then xfmtime w (print_sec evt)
      else if d = CHR ''Y'' then strftime w (time_format w) (localtime w (print_sec evt))
      else if d = CHR ''U'' then dec_int (print_usec evt div 1000)
      else if d = CHR ''P'' then proc_name evt
      else if d = CHR ''N'' then concat (map (\<lambda>kv. ndc_text kv (ndc_pattern la)) (ndcs evt))
      else if d = CHR ''H'' then hostname w
      else if d = CHR ''R'' then message evt
      else [])"

fun pattern_text :: "world \<Rightarrow> Layout \<Rightarrow> Event \<Rightarrow> cstr \<Rightarrow> cstr" where
  "pattern_text w la evt [] = []"
| "pattern_text w la evt (c # p) =
     (if c \<noteq> CHR ''%'' then c # pattern_text w la evt p
      else case p of [] \<Rightarrow> [] | d # p' \<Rightarrow> field_text w la evt d @ pattern_text w la evt p')"

definition start_text :: "Event \<Rightarrow> cstr" where
  "start_text evt =
     (if 0 \<le> log_version evt \<and> hd (log_type evt) \<noteq> NUL
      then dec_int (log_version evt) @ '' '' @ takeWhile (\<lambda>c. c \<noteq> NUL) (log_type evt) @ '' '' else [])"

definition line_text :: "world \<Rightarrow> Layout \<Rightarrow> Event \<Rightarrow> cstr" where
  "line_text w la evt = start_text evt @ pattern_text w la evt (pattern la)"

fun plain_pattern :: "cstr \<Rightarrow> bool" where
  \<comment> \<open>without the pairs and the time in a format of the user, whose results say nothing when the buffer is full\<close>
  "plain_pattern (c # d # p) =
     (if c = CHR ''%'' then d \<noteq> CHR ''N'' \<and> d \<noteq> CHR ''Y'' \<and> plain_pattern p else plain_pattern (d # p))"
| "plain_pattern p = True"

section \<open>Writing into a buffer\<close>

definition holds :: "nat \<Rightarrow> cstr \<Rightarrow> nat \<Rightarrow> char list \<Rightarrow> bool" where
  \<comment> \<open>the buffer of \<open>siz\<close> bytes holds the text as far as it fits, and \<open>ptr\<close> is behind it\<close>
  "holds siz t ptr buf \<longleftrightarrow> length buf = siz \<and> ptr \<le> siz \<and> min ptr (siz - 1) = min (length t) (siz - 1)
     \<and> take (min ptr (siz - 1)) buf = take (siz - 1) t"

lemma put_at_Some: "k + length bs \<le> length blk \<Longrightarrow> put_at k bs blk = Some (take k blk @ bs @ drop (k + length bs) blk)"
  by (simp add: put_at_def)

lemma put_at_length: "put_at k bs blk = Some b \<Longrightarrow> length b = length blk"
  by (auto simp: put_at_def split: if_splits)

lemma put_at_total: "k + length bs \<le> length blk \<Longrightarrow> \<exists>b. put_at k bs blk = Some b \<and> length b = length blk"
  by (simp add: put_at_def)

lemma print_at_total:
  assumes "length buf = siz" and "ptr < siz"
  shows "\<exists>b. print_at ptr (siz - ptr) s buf = Some (length s, b) \<and> length b = siz"
proof -
  have "ptr + length (take (siz - ptr - 1) s @ [NUL]) \<le> length buf" using assms by (auto simp: min_def)
  from put_at_total[OF this] show ?thesis using assms by (auto simp: print_at_def)
qed

lemma xstrcpy_total:
  assumes "length buf = siz" and "ptr < siz" and "n \<le> length s"
  shows "\<exists>r b. xstrcpy ptr (siz - ptr) s n buf = Some (r, b) \<and> length b = siz"
proof -
  let ?l = "if siz - ptr \<le> n then siz - ptr - 1 else n"
  have "ptr + length (take ?l s @ [NUL]) \<le> length buf" using assms by (auto simp: min_def)
  from put_at_total[OF this] show ?thesis using assms unfolding xstrcpy_def Let_def by auto
qed

lemma holds_full: "holds siz t siz buf \<Longrightarrow> holds siz (t @ s) siz buf"
  by (auto simp: holds_def)

lemma holds_write:
  assumes "holds siz t ptr buf" and "ptr < siz" and "ptr + length bs \<le> siz" and "take (min (length s) (siz - 1 - ptr)) bs = take (siz - 1 - ptr) s"
    and "ptr \<le> ptr'" "ptr' \<le> siz" "min ptr' (siz - 1) = min (ptr + length s) (siz - 1)" "min (ptr + length s) (siz - 1) \<le> ptr + length bs"
  shows "\<exists>b. put_at ptr bs buf = Some b \<and> holds siz (t @ s) ptr' b"
proof -
  have l: "length buf = siz" using assms(1) by (simp add: holds_def)
  let ?b = "take ptr buf @ bs @ drop (ptr + length bs) buf"
  have "put_at ptr bs buf = Some ?b" using assms(3) l by (simp add: put_at_Some)
  moreover have "holds siz (t @ s) ptr' ?b"
  proof (cases "ptr < siz - 1")
    case True
    then have t: "length t = ptr" "take ptr buf = t" using assms(1) by (auto simp: holds_def min_def split: if_splits)
    define n where "n = min ptr' (siz - 1)"
    have n1: "n = min (ptr + length s) (siz - 1)" using assms(7) by (simp add: n_def)
    have "ptr \<le> n" "n - ptr \<le> length bs" using assms(8) True unfolding n1 by linarith+
    moreover have "n - ptr = min (length s) (siz - 1 - ptr)" unfolding n1 min_def using True by auto
    ultimately have n: "n = min (ptr + length s) (siz - 1)" "ptr \<le> n" "n - ptr \<le> length bs" "n - ptr = min (length s) (siz - 1 - ptr)"
      using n1 by simp_all
    have "take n ?b = t @ take (n - ptr) bs" using n(2,3) t l True by (simp add: take_append)
    also have "take (n - ptr) bs = take (siz - 1 - ptr) s" unfolding n(4) by (rule assms(4))
    also have "t @ take (siz - 1 - ptr) s = take (siz - 1) (t @ s)" using t True by (simp add: take_append)
    finally show ?thesis using assms(3,6,7) l t n(1) True by (simp add: holds_def n_def)
  next
    case False
    then have p: "ptr = siz - 1" "siz - 1 \<le> length t" "take (siz - 1) buf = take (siz - 1) t"
      using assms(1,2) by (auto simp: holds_def min_def split: if_splits)
    have "siz - 1 \<le> ptr'" using assms(5) p(1) by simp
    then show ?thesis using assms(3,6) l p by (simp add: holds_def min_def)
  qed
  ultimately show ?thesis by blast
qed

lemma holds_char: "holds siz t ptr buf \<Longrightarrow> ptr < siz \<Longrightarrow> \<exists>b. put_at ptr [c] buf = Some b \<and> holds siz (t @ [c]) (ptr + 1) b"
  by (rule holds_write) (auto simp: min_def)

lemma holds_print:
  assumes "holds siz t ptr buf" and "ptr < siz"
  shows "\<exists>b. print_at ptr (siz - ptr) s buf = Some (length s, b) \<and> holds siz (t @ s) (if siz < length s + ptr then siz else ptr + length s) b"
proof -
  have "\<exists>b. put_at ptr (take (siz - ptr - 1) s @ [NUL]) buf = Some b
      \<and> holds siz (t @ s) (if siz < length s + ptr then siz else ptr + length s) b"
    using assms(2) by (intro holds_write[OF assms]) (auto simp: min_def)
  then show ?thesis using assms(2) by (auto simp: print_at_def)
qed

lemma holds_xstrcpy:
  assumes "holds siz t ptr buf" and "ptr < siz" and "n \<le> length s"
  shows "\<exists>b. xstrcpy ptr (siz - ptr) s n buf = Some (min n (siz - ptr - 1), b) \<and> holds siz (t @ take n s) (ptr + min n (siz - ptr - 1)) b"
proof -
  let ?l = "min n (siz - ptr - 1)"
  have l: "(if siz - ptr \<le> n then siz - ptr - 1 else n) = ?l" using assms(2) by auto
  have "\<exists>b. put_at ptr (take ?l s @ [NUL]) buf = Some b \<and> holds siz (t @ take n s) (ptr + ?l) b"
    using assms(2,3) by (intro holds_write[OF assms(1,2)]) (auto simp: min_def)
  then show ?thesis using assms(2,3) unfolding xstrcpy_def Let_def l by auto
qed

section \<open>The line of an event\<close>

lemma start_holds: "length buf = siz \<Longrightarrow> holds siz [] 0 buf"
  by (simp add: holds_def)

lemma ndc_chars_safe:
  "length buf = siz \<Longrightarrow> ptr \<le> siz \<Longrightarrow>
   \<exists>fl ptr' b. ndc_chars kv siz p ptr buf = Some (fl, ptr', b) \<and> length b = siz \<and> ptr' \<le> siz"
proof (induction kv siz p ptr buf rule: ndc_chars.induct)
  case (2 kv siz c p ptr buf)
  show ?case
  proof (cases "siz \<le> ptr")
    case False
    then have r: "\<exists>b. put_at ptr [x] buf = Some b \<and> length b = siz" for x using 2(5) by (simp add: put_at_Some)
    have pr: "\<exists>b. print_at ptr (siz - ptr) s buf = Some (length s, b) \<and> length b = siz" for s
      using print_at_total[OF 2(5)] False by simp
    show ?thesis
    proof (cases "c = CHR ''%''")
      case True
      show ?thesis
      proof (cases p)
        case (Cons d p')
        obtain b where b: "put_at ptr [CHR ''%''] buf = Some b" "length b = siz" using r by blast
        obtain b1 where b1: "print_at ptr (siz - ptr) (if d = CHR ''K'' then fst kv else snd kv) buf
            = Some (length (if d = CHR ''K'' then fst kv else snd kv), b1)" "length b1 = siz"
          using pr[of "if d = CHR ''K'' then fst kv else snd kv"] by blast
        have i3: "\<exists>fl ptr' b'. ndc_chars kv siz p' (ptr + 1) b = Some (fl, ptr', b') \<and> length b' = siz \<and> ptr' \<le> siz"
          if "d \<noteq> CHR ''K''" "d \<noteq> CHR ''V''" "d = CHR ''%''"
          using 2(3)[OF False _ Cons _ that(3) b(1) b(2)] that False True by simp
        have i4: "\<exists>fl ptr' b'. ndc_chars kv siz p' ptr buf = Some (fl, ptr', b') \<and> length b' = siz \<and> ptr' \<le> siz"
          if "d \<noteq> CHR ''K''" "d \<noteq> CHR ''V''" "d \<noteq> CHR ''%''"
          using 2(4)[OF False _ Cons _ that(3) 2(5,6)] that True by simp
        have i2: "\<exists>fl ptr' b'. ndc_chars kv siz p' (ptr + length (if d = CHR ''K'' then fst kv else snd kv)) b1 = Some (fl, ptr', b')
            \<and> length b' = siz \<and> ptr' \<le> siz"
          if "d = CHR ''K'' \<or> d = CHR ''V''" "\<not> siz < length (if d = CHR ''K'' then fst kv else snd kv) + ptr"
          using 2(2)[OF False _ Cons that(1) b1(1) refl that(2) b1(2)] that(2) True by simp
        show ?thesis using i2 i3 i4 b b1 False True Cons by auto
      qed (use 2 True in auto)
    next
      case neq: False
      obtain b where b: "put_at ptr [c] buf = Some b" "length b = siz" using r by blast
      show ?thesis using 2(1)[OF False neq b(1) b(2)] False neq b by simp
    qed
  qed (use 2 in auto)
qed simp

lemma ndc_loop_safe:
  "length buf = siz \<Longrightarrow> ptr \<le> siz \<Longrightarrow>
   \<exists>fl ptr' b. ndc_loop p siz kvs ptr buf = Some (fl, ptr', b) \<and> length b = siz \<and> ptr' \<le> siz"
proof (induction kvs arbitrary: ptr buf)
  case (Cons kv kvs)
  obtain fl ptr' b where b: "ndc_chars kv siz p ptr buf = Some (fl, ptr', b)" "length b = siz" "ptr' \<le> siz"
    using ndc_chars_safe[OF Cons(2,3)] by blast
  show ?case using Cons.IH[OF b(2,3)] b by (cases fl) simp_all
qed simp

lemma fmtpattern_safe:
  assumes "length buf = siz" and "0 < siz"
  shows "\<exists>ret b. fmtpattern la evt siz buf = Some (ret, b) \<and> length b = siz"
proof -
  obtain fl ptr b where b: "ndc_loop (ndc_pattern la) siz (ndcs evt) 0 buf = Some (fl, ptr, b)" "length b = siz" "ptr \<le> siz"
    using ndc_loop_safe[OF assms(1), of 0 "ndc_pattern la" "ndcs evt"] by auto
  then show ?thesis using assms(2) by (cases fl) (auto simp: fmtpattern_def put_at_Some Let_def)
qed

lemma field_safe:
  assumes "length buf = siz" and "ptr < siz" and "nat (msgbuf_len evt) \<le> length (msgbuf evt)"
  shows "\<exists>ret b. field w la evt siz d ptr buf = Some (ret, b) \<and> length b = siz"
proof -
  note pr = print_at_total[OF assms(1,2)] and cp = xstrcpy_total[OF assms(1,2)]
  have st: "\<exists>r b. strftime_at w ptr (siz - ptr) (print_sec evt) buf = Some (r, b) \<and> length b = siz"
  proof -
    have "ptr + length (take (siz - ptr) (junk w (siz - ptr))) \<le> length buf" using assms(1,2) by (auto simp: min_def)
    from put_at_total[OF this] put_at_total[of ptr "strftime w (time_format w) (localtime w (print_sec evt)) @ [NUL]" buf]
    show ?thesis using assms(1,2) by (auto simp: strftime_at_def Let_def)
  qed
  have nd: "\<exists>r b. fmtpattern la evt (siz - ptr) (drop ptr buf) = Some (r, b) \<and> length b = siz - ptr"
    using fmtpattern_safe[of "drop ptr buf"] assms(1,2) by simp
  define P :: "(nat \<times> char list) option \<Rightarrow> bool" where "P r \<longleftrightarrow> (\<exists>ret b. r = Some (ret, b) \<and> length b = siz)" for r
  have "P (print_at ptr (siz - ptr) s buf)" for s using pr[of s] unfolding P_def by blast
  moreover have "P (map_option (\<lambda>(ret, b). (ret, take ptr buf @ b)) (fmtpattern la evt (siz - ptr) (drop ptr buf)))"
    using nd assms(1,2) by (auto simp: P_def)
  moreover have "P (strftime_at w ptr (siz - ptr) (print_sec evt) buf)" using st by (simp add: P_def)
  moreover have "P (xstrcpy ptr (siz - ptr) (hostname w) (length (hostname w)) buf)"
    "P (xstrcpy ptr (siz - ptr) (msgbuf evt) (nat (msgbuf_len evt)) buf)" using cp assms(3) by (simp_all add: P_def)
  moreover have "P (Some (0, buf))" using assms(1) by (simp add: P_def)
  ultimately show ?thesis unfolding field_def Let_def P_def[symmetric] by simp
qed

lemma pattern_loop_safe:
  "length buf = siz \<Longrightarrow> ptr \<le> siz \<Longrightarrow> nat (msgbuf_len evt) \<le> length (msgbuf evt) \<Longrightarrow>
   \<exists>ptr' b. pattern_loop w la evt siz p ptr buf = Some (ptr', b) \<and> length b = siz \<and> ptr' \<le> siz"
proof (induction w la evt siz p ptr buf rule: pattern_loop.induct)
  case (2 w la evt siz c p ptr buf)
  show ?case
  proof (cases "siz \<le> ptr")
    case False
    show ?thesis
    proof (cases "c = CHR ''%''")
      case True
      show ?thesis
      proof (cases p)
        case (Cons d p')
        obtain ret b where f: "field w la evt siz d ptr buf = Some (ret, b)" "length b = siz"
          using field_safe[OF 2(3) _ 2(5), of ptr w la d] False by auto
        show ?thesis
        proof (cases "siz < ret + ptr")
          case g: False
          then show ?thesis using 2(2)[OF False _ Cons f(1) refl g f(2) _ 2(5)] False True Cons f by simp
        qed (use False True Cons f in simp)
      qed (use 2 True in auto)
    next
      case neq: False
      obtain b where b: "put_at ptr [c] buf = Some b" "length b = siz" using False 2(3) by (simp add: put_at_Some)
      show ?thesis using 2(1)[OF False neq b(1) b(2) _ 2(5)] False neq b by simp
    qed
  qed (use 2 in auto)
qed simp

lemma ndc_chars_text:
  "holds siz t ptr buf \<Longrightarrow> length (t @ ndc_text kv p) < siz - 1 \<Longrightarrow>
   \<exists>b. ndc_chars kv siz p ptr buf = Some (Done, length (t @ ndc_text kv p), b) \<and> holds siz (t @ ndc_text kv p) (length (t @ ndc_text kv p)) b"
proof (induction kv siz p ptr buf arbitrary: t rule: ndc_chars.induct)
  case (1 kv siz ptr buf)
  then show ?case by (auto simp: holds_def min_def split: if_splits)
next
  case (2 kv siz c p ptr buf)
  have ptr: "ptr = length t" "ptr < siz" using 2(5,6) by (auto simp: holds_def min_def split: if_splits)
  then have n: "\<not> siz \<le> ptr" by simp
  show ?case
  proof (cases "c = CHR ''%''")
    case c: True
    show ?thesis
    proof (cases p)
      case Nil
      then show ?thesis using 2(5) c ptr by simp
    next
      case (Cons d p')
      consider (pair) "d = CHR ''K'' \<or> d = CHR ''V''" | (percent) "d = CHR ''%''" | (other) "d \<notin> {CHR ''K'', CHR ''V'', CHR ''%''}" by blast
      then show ?thesis
      proof cases
        case pair
        let ?s = "if d = CHR ''K'' then fst kv else snd kv"
        have l: "length ?s + ptr < siz - 1" using 2(6) pair c Cons ptr by auto
        then have g: "\<not> siz < length ?s + ptr" by linarith
        obtain b where b: "print_at ptr (siz - ptr) ?s buf = Some (length ?s, b)"
          "holds siz (t @ ?s) (if siz < length ?s + ptr then siz else ptr + length ?s) b"
          using holds_print[OF 2(5) ptr(2)] by blast
        note b2 = b(2)[unfolded if_not_P[OF g]]
        show ?thesis using 2(2)[OF n _ Cons pair b(1) refl g b2] 2(6) g c Cons pair b(1) n by (auto split: if_splits)
      next
        case percent
        obtain b where b: "put_at ptr [CHR ''%''] buf = Some b" "holds siz (t @ ''%'') (ptr + 1) b" using holds_char[OF 2(5) ptr(2)] by blast
        show ?thesis using 2(3)[OF n _ Cons _ _ b(1) b(2)] 2(6) c Cons percent b(1) n by simp
      next
        case other
        then show ?thesis using 2(4)[OF n _ Cons _ _ 2(5)] 2(6) c Cons n by simp
      qed
    qed
  next
    case neq: False
    obtain b where b: "put_at ptr [c] buf = Some b" "holds siz (t @ [c]) (ptr + 1) b" using holds_char[OF 2(5) ptr(2)] by blast
    show ?thesis using 2(1)[OF n neq b(1) b(2)] 2(6) neq b(1) n by simp
  qed
qed

lemma ndc_loop_text:
  "holds siz t ptr buf \<Longrightarrow> length (t @ concat (map (\<lambda>kv. ndc_text kv p) kvs)) < siz - 1 \<Longrightarrow>
   \<exists>b. ndc_loop p siz kvs ptr buf = Some (Done, length (t @ concat (map (\<lambda>kv. ndc_text kv p) kvs)), b)
     \<and> holds siz (t @ concat (map (\<lambda>kv. ndc_text kv p) kvs)) (length (t @ concat (map (\<lambda>kv. ndc_text kv p) kvs))) b"
proof (induction kvs arbitrary: t ptr buf)
  case Nil
  then show ?case by (auto simp: holds_def min_def split: if_splits)
next
  case (Cons kv kvs)
  have "length (t @ ndc_text kv p) < siz - 1" using Cons(3) by simp
  from ndc_chars_text[OF Cons(2) this] obtain b where b: "ndc_chars kv siz p ptr buf = Some (Done, length (t @ ndc_text kv p), b)"
    "holds siz (t @ ndc_text kv p) (length (t @ ndc_text kv p)) b" by blast
  show ?case using Cons.IH[OF b(2)] Cons(3) b(1) by simp
qed

lemma fmtpattern_text:
  assumes t: "t = concat (map (\<lambda>kv. ndc_text kv (ndc_pattern la)) (ndcs evt))" and siz: "length buf = siz" and less: "length t < siz - 1"
  shows "\<exists>b. fmtpattern la evt siz buf = Some (length t, b) \<and> length b = siz \<and> take (length t) b = t"
proof -
  obtain b where b: "ndc_loop (ndc_pattern la) siz (ndcs evt) 0 buf = Some (Done, length t, b)" "holds siz t (length t) b"
    using ndc_loop_text[OF start_holds[OF siz], of "ndc_pattern la" "ndcs evt"] less by (auto simp: t[symmetric])
  have "length b = siz" "take (length t) b = t" "\<not> siz \<le> length t" using b(2) less by (auto simp: holds_def min_def split: if_splits)
  then show ?thesis by (simp add: fmtpattern_def b(1) put_at_Some Let_def)
qed

lemma field_holds:
  assumes "holds siz t ptr buf" and "ptr < siz" and "nat (msgbuf_len evt) \<le> length (msgbuf evt)"
    and "d \<noteq> CHR ''N'' \<and> d \<noteq> CHR ''Y'' \<or> length (t @ field_text w la evt d) < siz - 1"
  shows "\<exists>ret b. field w la evt siz d ptr buf = Some (ret, b)
    \<and> holds siz (t @ field_text w la evt d) (if siz < ret + ptr then siz else ptr + ret) b"
proof -
  have pr: "\<exists>ret b. print_at ptr (siz - ptr) s buf = Some (ret, b) \<and> holds siz (t @ s) (if siz < ret + ptr then siz else ptr + ret) b" for s
    using holds_print[OF assms(1,2), of s] by blast
  have cp: "\<exists>ret b. xstrcpy ptr (siz - ptr) s n buf = Some (ret, b) \<and> holds siz (t @ take n s) (if siz < ret + ptr then siz else ptr + ret) b"
    if "n \<le> length s" for s n
    using holds_xstrcpy[OF assms(1,2) that] assms(2) by fastforce
  consider (Y) "d = CHR ''Y''" | (N) "d = CHR ''N''" | (other) "d \<noteq> CHR ''N''" "d \<noteq> CHR ''Y''" by blast
  then show ?thesis
  proof cases
    case Y
    let ?s = "strftime w (time_format w) (localtime w (print_sec evt))"
    have l: "length (t @ ?s) < siz - 1" using assms(4) Y by (simp add: field_text_def)
    then have p: "ptr = length t" using assms(1) by (auto simp: holds_def min_def split: if_splits)
    then have "print_at ptr (siz - ptr) ?s buf = strftime_at w ptr (siz - ptr) (print_sec evt) buf"
    proof -
      have "length ?s < siz - ptr" "siz - ptr \<noteq> 0" "take (siz - ptr - 1) ?s = ?s" using l p by auto
      then show ?thesis by (simp add: print_at_def strftime_at_def Let_def del: diff_is_0_eq take_all_iff)
    qed
    then show ?thesis using pr[of ?s] Y by (simp add: field_def field_text_def Let_def)
  next
    case N
    let ?s = "concat (map (\<lambda>kv. ndc_text kv (ndc_pattern la)) (ndcs evt))"
    have l: "length (t @ ?s) < siz - 1" using assms(4) N by (simp add: field_text_def)
    then have p: "ptr = length t" "take ptr buf = t" "length buf = siz" using assms(1) by (auto simp: holds_def min_def split: if_splits)
    have l2: "length ?s < siz - ptr - 1" using l p(1) unfolding length_append by linarith
    obtain b where b: "fmtpattern la evt (siz - ptr) (drop ptr buf) = Some (length ?s, b)" "length b = siz - ptr" "take (length ?s) b = ?s"
      using fmtpattern_text[OF refl _ l2, of "drop ptr buf"] p(3) by auto
    have "holds siz (t @ ?s) (ptr + length ?s) (take ptr buf @ b)" using l b(2,3) p assms(2) by (simp add: holds_def min_def)
    moreover have "\<not> siz < length ?s + ptr" using l2 by linarith
    ultimately show ?thesis using b(1) p N by (simp add: field_def field_text_def Let_def)
  next
    case other
    then show ?thesis
      using pr cp[of "length (hostname w)" "hostname w"] cp[OF assms(3)] assms(1,2)
      by (simp add: field_def field_text_def message_def Let_def)
  qed
qed

lemma pattern_loop_text:
  "holds siz t ptr buf \<Longrightarrow> nat (msgbuf_len evt) \<le> length (msgbuf evt) \<Longrightarrow>
   plain_pattern p \<or> length (t @ pattern_text w la evt p) < siz - 1 \<Longrightarrow>
   \<exists>ptr' b. pattern_loop w la evt siz p ptr buf = Some (ptr', b) \<and> holds siz (t @ pattern_text w la evt p) ptr' b"
proof (induction w la evt siz p ptr buf arbitrary: t rule: pattern_loop.induct)
  case (2 w la evt siz c p ptr buf)
  show ?case
  proof (cases "siz \<le> ptr")
    case True
    then have "ptr = siz" using 2(3) by (simp add: holds_def)
    then show ?thesis using holds_full[of siz t buf] 2(3) True by simp
  next
    case False
    then have ptr: "ptr < siz" by simp
    show ?thesis
    proof (cases "c = CHR ''%''")
      case c: True
      show ?thesis
      proof (cases p)
        case (Cons d p')
        have pl: "plain_pattern p' \<or> length ((t @ field_text w la evt d) @ pattern_text w la evt p') < siz - 1"
          "d \<noteq> CHR ''N'' \<and> d \<noteq> CHR ''Y'' \<or> length (t @ field_text w la evt d) < siz - 1"
          using 2(5) c Cons by auto
        obtain ret b where f: "field w la evt siz d ptr buf = Some (ret, b)"
          "holds siz (t @ field_text w la evt d) (if siz < ret + ptr then siz else ptr + ret) b"
          using field_holds[OF 2(3) ptr 2(4) pl(2)] by blast
        show ?thesis
        proof (cases "siz < ret + ptr")
          case True
          then show ?thesis using f holds_full[of siz "t @ field_text w la evt d" b] False c Cons by simp
        next
          case g: False
          then show ?thesis using 2(2)[OF False _ Cons f(1) refl g _ 2(4) pl(1)] f False c Cons by simp
        qed
      qed (use 2 ptr c in simp)
    next
      case neq: False
      obtain b where b: "put_at ptr [c] buf = Some b" "holds siz (t @ [c]) (ptr + 1) b" using holds_char[OF 2(3) ptr] by blast
      have "plain_pattern p \<or> length ((t @ [c]) @ pattern_text w la evt p) < siz - 1" using 2(5) neq by (cases p) auto
      then show ?thesis using 2(1)[OF False neq b(1) b(2) 2(4)] False neq b by simp
    qed
  qed
qed simp

definition start_fits :: "Event \<Rightarrow> nat \<Rightarrow> bool" where
  \<comment> \<open>neither of the two blanks behind version and type is the first byte behind the buffer, and the type has a terminator\<close>
  "start_fits evt siz \<longleftrightarrow> (0 \<le> log_version evt \<and> hd (log_type evt) \<noteq> NUL \<longrightarrow>
     NUL \<in> set (log_type evt) \<and> length (dec_int (log_version evt)) \<noteq> siz
     \<and> length (dec_int (log_version evt)) + 1 + length (takeWhile (\<lambda>c. c \<noteq> NUL) (log_type evt)) \<noteq> siz)"

lemma start_line_text:
  assumes "start_fits evt siz" and "length buf = siz" and "0 < siz"
  shows "\<exists>go ptr b. start_line evt siz buf = Some (go, ptr, b) \<and> holds siz (start_text evt) ptr b \<and> (go \<or> ptr = siz)"
proof (cases "0 \<le> log_version evt \<and> hd (log_type evt) \<noteq> NUL")
  case False
  then show ?thesis using start_holds[OF assms(2)] by (auto simp: start_line_def start_text_def)
next
  case True
  let ?v = "dec_int (log_version evt)" and ?t = "takeWhile (\<lambda>c. c \<noteq> NUL) (log_type evt)"
  have fits: "NUL \<in> set (log_type evt)" "length ?v \<noteq> siz" "length ?v + 1 + length ?t \<noteq> siz"
    using assms(1) True by (simp_all add: start_fits_def)
  have tx: "start_text evt = ?v @ '' '' @ ?t @ '' ''" and str: "str_at (log_type evt) 0 = Some ?t"
    using True fits(1) by (simp_all add: start_text_def str_at_def)
  obtain b where b: "print_at 0 siz ?v buf = Some (length ?v, b)" "holds siz ?v (if siz < length ?v + 0 then siz else 0 + length ?v) b"
    using holds_print[OF start_holds[OF assms(2)] assms(3), of ?v] by auto
  show ?thesis
  proof (cases "siz < length ?v")
    case cut: True
    then have "holds siz ?v siz b" using b(2) by simp
    then have "holds siz (start_text evt) siz b" unfolding tx by (rule holds_full)
    then show ?thesis using True cut b(1) by (intro exI[of _ False]) (simp add: start_line_def)
  next
    case False
    then have v: "length ?v < siz" using fits(2) by simp
    have "holds siz ?v (length ?v) b" using b(2) False by simp
    then obtain b1 where b1: "put_at (length ?v) '' '' b = Some b1" "holds siz (?v @ '' '') (length ?v + 1) b1" using holds_char[OF _ v] by blast
    show ?thesis
    proof (cases "length ?v + 1 = siz")
      case full: True
      then have "holds siz (start_text evt) siz b1" using holds_full[of siz "?v @ '' ''" b1 "?t @ '' ''"] b1(2) by (simp add: tx)
      moreover have "?t \<noteq> []" using True fits(1) by (cases "log_type evt") auto
      ultimately show ?thesis using True False b(1) b1(1) full str by (auto simp: start_line_def print_at_def)
    next
      case no: False
      then have p: "length ?v + 1 < siz" using v by simp
      obtain b2 where b2: "print_at (length ?v + 1) (siz - (length ?v + 1)) ?t b1 = Some (length ?t, b2)"
        "holds siz ((?v @ '' '') @ ?t) (if siz < length ?t + (length ?v + 1) then siz else length ?v + 1 + length ?t) b2"
        using holds_print[OF b1(2) p] by blast
      show ?thesis
      proof (cases "siz < length ?t + (length ?v + 1)")
        case cut: True
        then have "holds siz (start_text evt) siz b2" using holds_full[of siz "(?v @ '' '') @ ?t" b2 "'' ''"] b2(2) by (simp add: tx)
        then show ?thesis using True False b(1) b1(1) b2(1) cut str by (auto simp: start_line_def)
      next
        case in_buf: False
        then have q: "length ?v + 1 + length ?t < siz" using fits(3) by simp
        have "holds siz ((?v @ '' '') @ ?t) (length ?v + 1 + length ?t) b2" using b2(2) in_buf by simp
        then obtain b3 where "put_at (length ?v + 1 + length ?t) '' '' b2 = Some b3"
          "holds siz (((?v @ '' '') @ ?t) @ '' '') (length ?v + 1 + length ?t + 1) b3" using holds_char[OF _ q] by blast
        then show ?thesis using True False b(1) b1(1) b2(1) in_buf str by (auto simp: start_line_def tx)
      qed
    qed
  qed
qed

definition line_event_ok :: "Event \<Rightarrow> bool" where
  "line_event_ok evt \<longleftrightarrow> 2 \<le> length (render_msgbuf evt) \<and> nat (msgbuf_len evt) \<le> length (msgbuf evt)
     \<and> start_fits evt (length (render_msgbuf evt))"

lemma holds_end:
  assumes "holds siz t ptr buf" and "2 \<le> siz"
  shows "\<exists>b. put_at (if siz - 1 \<le> ptr then siz - 2 else ptr) [LF, NUL] buf = Some b \<and> length b = siz
    \<and> (if siz - 1 \<le> ptr then siz - 2 else ptr) = length (take (siz - 2) t)
    \<and> take (length (take (siz - 2) t) + 2) b = take (siz - 2) t @ [LF, NUL]"
proof (cases "siz - 1 \<le> ptr")
  case True
  then have t: "length buf = siz" "siz - 1 \<le> length t" "take (siz - 1) buf = take (siz - 1) t"
    using assms(1) by (auto simp: holds_def min_def split: if_splits)
  have "take (siz - 2) buf = take (siz - 2) t" using arg_cong[OF t(3), of "take (siz - 2)"] by (simp add: min_def split: if_splits)
  then show ?thesis using True t(1,2) assms(2) by (auto simp: put_at_Some)
next
  case False
  then have t: "length buf = siz" "ptr = length t" "take ptr buf = t" using assms(1) by (auto simp: holds_def min_def split: if_splits)
  moreover have "take (siz - 2) t = t" using False t(2) by simp
  ultimately show ?thesis using False assms(2) by (simp add: put_at_Some)
qed

lemma format_end:
  assumes "start_line evt siz (render_msgbuf evt) = Some (go, ptr, b)" and "siz = length (render_msgbuf evt)" and "2 \<le> siz"
    and "(if go then pattern_loop w la evt siz (pattern la) ptr b else Some (ptr, b)) = Some (ptr1, b1)"
    and "put_at (if siz - 1 \<le> ptr1 then siz - 2 else ptr1) [LF, NUL] b1 = Some b2"
    and "(if siz - 1 \<le> ptr1 then siz - 2 else ptr1) = n"
  shows "format w la evt = Some (0, evt\<lparr>render_msgbuf := b2, render_msgbuf_len := int n + 1\<rparr>)"
proof -
  have "\<not> siz < 2" using assms(3) by simp
  then show ?thesis unfolding format_def assms(2)[symmetric] Let_def
    by (simp only: assms(1,4) option.case prod.case if_False assms(6)) (use assms(5) in \<open>simp only: assms(6) option.map\<close>)
qed

lemma format_made:
  assumes "line_event_ok evt"
  shows "\<exists>evt'. format w la evt = Some (0, evt') \<and> length (render_msgbuf evt') = length (render_msgbuf evt)
    \<and> (\<exists>n. render_msgbuf_len evt' = int n + 1 \<and> n + 2 \<le> length (render_msgbuf evt) \<and> render_msgbuf evt' ! n = LF \<and> render_msgbuf evt' ! Suc n = NUL)"
proof -
  let ?siz = "length (render_msgbuf evt)"
  have ok: "2 \<le> ?siz" "nat (msgbuf_len evt) \<le> length (msgbuf evt)" "start_fits evt ?siz" using assms by (simp_all add: line_event_ok_def)
  obtain go ptr b where s: "start_line evt ?siz (render_msgbuf evt) = Some (go, ptr, b)" "holds ?siz (start_text evt) ptr b"
    using start_line_text[OF ok(3) refl] ok(1) by (cases "render_msgbuf evt") auto
  then have "length b = ?siz" "ptr \<le> ?siz" by (simp_all add: holds_def)
  then obtain ptr1 b1 where p: "(if go then pattern_loop w la evt ?siz (pattern la) ptr b else Some (ptr, b)) = Some (ptr1, b1)"
    "length b1 = ?siz" "ptr1 \<le> ?siz" using pattern_loop_safe[of b ?siz ptr evt w la "pattern la"] ok(2) by (cases go) auto
  define n where "n = (if ?siz - 1 \<le> ptr1 then ?siz - 2 else ptr1)"
  have n: "n + 2 \<le> ?siz" using ok(1) by (auto simp: n_def)
  define b2 where "b2 = take n b1 @ [LF, NUL] @ drop (n + 2) b1"
  have "put_at n [LF, NUL] b1 = Some b2" using n p(2) by (simp add: put_at_Some b2_def)
  then have "put_at (if ?siz - 1 \<le> ptr1 then ?siz - 2 else ptr1) [LF, NUL] b1 = Some b2" by (simp only: n_def[symmetric])
  note made = format_end[OF s(1) refl ok(1) p(1) this n_def[symmetric]]
  have "length b2 = ?siz" "b2 ! n = LF" "b2 ! Suc n = NUL" using n p(2) by (simp_all add: b2_def nth_append)
  then show ?thesis using made n by simp
qed

lemma format_line:
  assumes "line_event_ok evt" and "plain_pattern (pattern la) \<or> length (line_text w la evt) < length (render_msgbuf evt) - 1"
  shows "\<exists>evt'. format w la evt = Some (0, evt') \<and> length (render_msgbuf evt') = length (render_msgbuf evt)
    \<and> render_msgbuf_len evt' = int (length (take (length (render_msgbuf evt) - 2) (line_text w la evt))) + 1
    \<and> take (nat (render_msgbuf_len evt') + 1) (render_msgbuf evt') = take (length (render_msgbuf evt) - 2) (line_text w la evt) @ [LF, NUL]"
proof -
  let ?siz = "length (render_msgbuf evt)"
  have ok: "2 \<le> ?siz" "nat (msgbuf_len evt) \<le> length (msgbuf evt)" "start_fits evt ?siz" using assms(1) by (simp_all add: line_event_ok_def)
  obtain go ptr b where s: "start_line evt ?siz (render_msgbuf evt) = Some (go, ptr, b)" "holds ?siz (start_text evt) ptr b" "go \<or> ptr = ?siz"
    using start_line_text[OF ok(3) refl] ok(1) by (cases "render_msgbuf evt") auto
  have "\<exists>ptr1 b1. (if go then pattern_loop w la evt ?siz (pattern la) ptr b else Some (ptr, b)) = Some (ptr1, b1)
      \<and> holds ?siz (line_text w la evt) ptr1 b1"
  proof (cases go)
    case True
    then show ?thesis using pattern_loop_text[OF s(2) ok(2), of "pattern la" w la] assms(2) by (simp add: line_text_def)
  next
    case False
    then show ?thesis using s(2,3) holds_full[of ?siz "start_text evt" b] by (simp add: line_text_def)
  qed
  then obtain ptr1 b1 where p: "(if go then pattern_loop w la evt ?siz (pattern la) ptr b else Some (ptr, b)) = Some (ptr1, b1)"
    "holds ?siz (line_text w la evt) ptr1 b1" by blast
  let ?n = "length (take (?siz - 2) (line_text w la evt))"
  obtain b2 where b2: "put_at (if ?siz - 1 \<le> ptr1 then ?siz - 2 else ptr1) [LF, NUL] b1 = Some b2" "length b2 = ?siz"
    "(if ?siz - 1 \<le> ptr1 then ?siz - 2 else ptr1) = ?n" "take (?n + 2) b2 = take (?siz - 2) (line_text w la evt) @ [LF, NUL]"
    using holds_end[OF p(2) ok(1)] by blast
  have "nat (int ?n + 1) + 1 = ?n + 2" by simp
  with b2(2,4) format_end[OF s(1) refl ok(1) p(1) b2(1,3)] show ?thesis by (simp del: length_take)
qed


definition some_world :: world where
  "some_world = \<lparr>localtime = (\<lambda>_. \<lparr>tm_mon = 6, tm_mday = 4, tm_hour = 9, tm_min = 30, tm_sec = 5\<rparr>), strftime = (\<lambda>_ _. []),
     junk = (\<lambda>n. replicate n CHR ''z''), hostname = ''host'', levelName = replicate 16 [] @ ''DEBUG'' # replicate 47 [], time_format = []\<rparr>"

definition some_event :: "nat \<Rightarrow> Event" where
  "some_event n = \<lparr>log_level = 16, log_version = 2, log_type = ''ab'' @ replicate 62 NUL, print_sec = 0, print_usec = 0, proc_name = ''p'', thread_id = 7,
     ndcs = [(''k'', ''v'')], msgbuf = ''hello'' @ [NUL], msgbuf_len = 5, render_msgbuf = replicate n CHR ''z'', render_msgbuf_len = 0\<rparr>"

lemma some_event_ok: "line_event_ok (some_event 64)" and some_plain: "plain_pattern (pattern default_layout)"
proof -
  have "dec_int 2 = ''2''" by code_simp
  then show "line_event_ok (some_event 64)" by (simp add: line_event_ok_def start_fits_def some_event_def)
  show "plain_pattern (pattern default_layout)"
    by (simp add: default_layout_def setPattern_def setNdcPattern_def snprintf_buf_def MAXPATTERNSIZE_def)
qed

lemma some_line: "line_text some_world default_layout (some_event 64) = ''2 ab DEBUG: 07-04 09:30:05:  p * 7 hello''"
proof -
  have v: "dec_int 2 = ''2''" by code_simp
  have n: "dec_nat 4 = ''4''" "dec_nat 5 = ''5''" "dec_nat 7 = ''7''" "dec_nat 9 = ''9''" "dec_nat 30 = ''30''" by code_simp+
  let ?field = "field_text some_world default_layout (some_event 64)"
  have f: "?field CHR ''L'' = ''DEBUG''" "?field CHR ''D'' = ''07-04 09:30:05''" "?field CHR ''P'' = ''p''" "?field CHR ''T'' = ''7''"
    "?field CHR ''R'' = ''hello''"
    by (simp_all add: field_text_def getLogName_def COM_LEVELNUM_def some_world_def some_event_def xfmtime_def fmtime_def digits_def n
        message_def nth_append)
  have p: "pattern default_layout = ''%L: %D:  %P * %T %R''"
    by (simp add: default_layout_def setPattern_def setNdcPattern_def snprintf_buf_def MAXPATTERNSIZE_def)
  show ?thesis by (simp add: line_text_def p f start_text_def) (simp add: some_event_def v)
qed


section \<open>Lines that are not made\<close>

text \<open>A version with as many digits as the buffer has bytes writes the blank behind the buffer; \<open>setMaxLogLength\<close> accepts 9.\<close>

theorem version_overruns:
  "format w la ((some_event 9)\<lparr>log_version := 123456789\<rparr>) = None"
  by (simp add: format_def start_line_def some_event_def print_at_def put_at_def dec_int_def dec_nat.simps)

text \<open>A type of 64 or more characters fills its array, so that there is no terminator to stop at.\<close>

theorem long_type_not_terminated:
  assumes "MAXTYPESIZE \<le> length typ" and "NUL \<notin> set typ" and "length (log_type evt) = MAXTYPESIZE"
  shows "str_at (log_type (setLogType typ evt)) 0 = None"
  using assms by (auto simp: setLogType_def str_at_def Let_def dest: in_set_takeD)

text \<open>When the pairs fill the buffer to its end, nothing of them is kept.\<close>

theorem full_pairs_lost: "fmtpattern \<lparr>pattern = [], ndc_pattern = ''abcd''\<rparr> (some_event 9) 3 ''zzz'' = Some (0, ''abc'')"
  by (simp add: fmtpattern_def some_event_def put_at_def)

text \<open>Two percent signs print nothing in a pattern, in the pattern of the pairs they print one.\<close>

theorem percent_not_printed: "pattern_text w la evt ''%%'' = []" "ndc_text kv ''%%'' = ''%''"
  by (simp_all add: field_text_def)

end
