(* ===== verification/Ul_Pack.thy ===== *)
theory Ul_Pack
  imports Ul_Prelude
begin

text \<open>
  The packages of \<^verbatim>\<open>ullib/src/ul_pack.cpp\<close>: a bounded table of name and value strings with one buffer,
  its operations, and the format in which a package is written to memory and read back.

  The two arrays of strings are lists of \<open>MAX_PACK_ITEM_NUM\<close> C strings; the slots from \<open>pairnum\<close> on keep what
  was left in them. \<open>pairnum\<close> is an \<open>int\<close> that the functions keep at 0 or above and is a \<open>nat\<close> here. A null
  pointer is \<open>None\<close>; a result \<open>None\<close> of a function is an access outside a block, an integer
  overflow or another behaviour that C leaves undefined. Whether an allocation succeeds is an argument.
  Log messages are left out.
\<close>

section \<open>The package\<close>

definition MAX_PACK_ITEM_NUM :: nat where "MAX_PACK_ITEM_NUM = 200"
definition MAX_ITEM_SIZE :: nat where "MAX_ITEM_SIZE = 2048"
definition SIZE_NUM :: nat where "SIZE_NUM = 20"
definition MAX_HEAD_SIZE :: nat where "MAX_HEAD_SIZE = 26000"
definition BUF_START :: cstr where "BUF_START = ''~BUF! ''"
definition BUF_EOF :: cstr where "BUF_EOF = ''~EOF!''"

lemmas pack_consts = MAX_PACK_ITEM_NUM_def MAX_ITEM_SIZE_def SIZE_NUM_def MAX_HEAD_SIZE_def

abbreviation CRLF :: cstr where "CRLF \<equiv> [CHR 0x0D, CHR 0x0A]"

record ul_package_t =
  pk_name :: "cstr list"
  pk_value :: "cstr list"
  pairnum :: nat
  bufsize :: int
  pk_buf :: "char list option"

definition ul_pack_init :: "bool \<Rightarrow> ul_package_t option" where
  \<comment> \<open>the argument: the allocation succeeds\<close>
  "ul_pack_init calloc_ok =
     (if calloc_ok
      then Some \<lparr>pk_name = replicate MAX_PACK_ITEM_NUM [], pk_value = replicate MAX_PACK_ITEM_NUM [],
                 pairnum = 0, bufsize = 0, pk_buf = None\<rparr>
      else None)"

definition ul_pack_putbuf :: "ul_package_t option \<Rightarrow> char list option \<Rightarrow> int \<Rightarrow> int \<times> ul_package_t option" where
  "ul_pack_putbuf ppack buffer siz =
     (case ppack of None \<Rightarrow> (0, None) | Some p \<Rightarrow> (0, Some (p\<lparr>pk_buf := buffer, bufsize := siz\<rparr>)))"

definition ul_pack_getbuf :: "ul_package_t option \<Rightarrow> char list option" where
  "ul_pack_getbuf ppack = (case ppack of None \<Rightarrow> None | Some p \<Rightarrow> pk_buf p)"

fun find_pair :: "cstr list \<Rightarrow> nat \<Rightarrow> cstr \<Rightarrow> nat option" where
  \<comment> \<open>\<open>for (i = 0; i < pairnum; i++) if (strcmp(name[i], pname) == 0)\<close>\<close>
  "find_pair names 0 pname = None"
| "find_pair [] (Suc n) pname = None"
| "find_pair (x # names) (Suc n) pname =
     (if x = pname then Some 0 else map_option Suc (find_pair names n pname))"

definition ul_pack_getvalue_ex ::
  "ul_package_t option \<Rightarrow> cstr option \<Rightarrow> char list option \<Rightarrow> nat \<Rightarrow> (int \<times> char list option) option" where
  "ul_pack_getvalue_ex ppack pname pvalue siz =
     (case (ppack, pname, pvalue) of
        (Some p, Some nm, Some blk) \<Rightarrow>
          if blk = [] then None
          else (case find_pair (pk_name p) (pairnum p) nm of
                  None \<Rightarrow> Some (0, Some (blk[0 := NUL]))
                | Some i \<Rightarrow> map_option (\<lambda>b. (1, Some b)) (snprintf_block (blk[0 := NUL]) siz (pk_value p ! i)))
      | _ \<Rightarrow> Some (0, pvalue))"

fun shift_down :: "cstr list \<Rightarrow> nat \<Rightarrow> nat \<Rightarrow> cstr list" where
  \<comment> \<open>\<open>for (; j < pairnum; j++) snprintf(a[j-1], sizeof(a[j-1]), "%s", a[j]);\<close> with \<open>k = pairnum - j\<close>\<close>
  "shift_down a j 0 = a"
| "shift_down a j (Suc k) = shift_down (a[j - 1 := snprintf_buf MAX_ITEM_SIZE (a ! j)]) (Suc j) k"

definition ul_pack_delvalue :: "ul_package_t option \<Rightarrow> cstr option \<Rightarrow> int \<times> ul_package_t option" where
  "ul_pack_delvalue ppack pname =
     (case (ppack, pname) of
        (Some p, Some nm) \<Rightarrow>
          (case find_pair (pk_name p) (pairnum p) nm of
             None \<Rightarrow> (-1, Some p)
           | Some i \<Rightarrow>
               (0, Some (p\<lparr>pk_name := shift_down (pk_name p) (i + 1) (pairnum p - (i + 1)),
                           pk_value := shift_down (pk_value p) (i + 1) (pairnum p - (i + 1)),
                           pairnum := pairnum p - 1\<rparr>)))
      | _ \<Rightarrow> (-1, ppack))"

definition ul_pack_putvalue :: "ul_package_t option \<Rightarrow> cstr option \<Rightarrow> cstr option \<Rightarrow> int \<times> ul_package_t option" where
  "ul_pack_putvalue ppack pname pvalue =
     (case (ppack, pname, pvalue) of
        (Some p, Some nm, Some v) \<Rightarrow>
          if MAX_ITEM_SIZE \<le> length v \<or> MAX_ITEM_SIZE \<le> length nm then (-1, Some p)
          else if strstr nm CRLF \<noteq> None \<or> strstr nm '' : '' \<noteq> None \<or> strstr v CRLF \<noteq> None \<or> strstr v '' : '' \<noteq> None
          then (-1, Some p)
          else (case find_pair (pk_name p) (pairnum p) nm of
                  Some i \<Rightarrow> (1, Some (p\<lparr>pk_value := (pk_value p)[i := snprintf_buf MAX_ITEM_SIZE v]\<rparr>))
                | None \<Rightarrow>
                    if pairnum p < MAX_PACK_ITEM_NUM
                    then (0, Some (p\<lparr>pk_name := (pk_name p)[pairnum p := snprintf_buf MAX_ITEM_SIZE nm],
                                     pk_value := (pk_value p)[pairnum p := snprintf_buf MAX_ITEM_SIZE v],
                                     pairnum := pairnum p + 1\<rparr>))
                    else (-2, Some p))
      | _ \<Rightarrow> (-1, ppack))"

definition ul_pack_cleanhead :: "ul_package_t option \<Rightarrow> int \<times> ul_package_t option" where
  "ul_pack_cleanhead ppack = (case ppack of None \<Rightarrow> (-1, None) | Some p \<Rightarrow> (1, Some (p\<lparr>pairnum := 0\<rparr>)))"

definition ul_pack_cleanall :: "ul_package_t option \<Rightarrow> int \<times> ul_package_t option" where
  "ul_pack_cleanall ppack =
     (case ppack of None \<Rightarrow> (-1, None) | Some p \<Rightarrow> (1, Some (p\<lparr>pairnum := 0, bufsize := 0, pk_buf := None\<rparr>)))"

section \<open>Writing a package to memory\<close>

definition head_line :: "cstr \<times> cstr \<Rightarrow> cstr" where
  \<comment> \<open>the format \<open>"%s : %s\r\n"\<close>\<close>
  "head_line nv = fst nv @ '' : '' @ snd nv @ CRLF"

definition pairs :: "ul_package_t \<Rightarrow> (cstr \<times> cstr) list" where
  "pairs p = take (pairnum p) (zip (pk_name p) (pk_value p))"

fun ser_head :: "int \<Rightarrow> (cstr \<times> cstr) list \<Rightarrow> cstr \<Rightarrow> (int + cstr) option" where
  \<comment> \<open>the loop over the pairs; \<open>acc\<close> is what was written behind the size field, \<open>Inl\<close> is \<open>goto end\<close> with that \<open>ret\<close>\<close>
  "ser_head maxlen [] acc = Some (Inr acc)"
| "ser_head maxlen (nv # nvs) acc =
     (if fst nv = [] then ser_head maxlen nvs acc
      else let room = maxlen - int (SIZE_NUM + length acc) in
        if room < 0 then None
        else if room \<le> int (length (head_line nv)) then Some (Inl (-1))
        else if MAX_HEAD_SIZE < length (acc @ head_line nv) then Some (Inl (-1))
        else ser_head maxlen nvs (acc @ head_line nv))"

definition size_text :: "int \<Rightarrow> int \<Rightarrow> cstr" where
  \<comment> \<open>the format \<open>"%s%d %d"\<close>\<close>
  "size_text headsize bodysize = BUF_START @ dec_int headsize @ '' '' @ dec_int bodysize"

definition size_field :: "cstr \<Rightarrow> char list" where
  \<comment> \<open>the size text filled up to \<open>SIZE_NUM\<close> bytes, when it has less than \<open>SIZE_NUM - 1\<close>\<close>
  "size_field t = t @ '' '' @ replicate (SIZE_NUM - 2 - length t) CHR ''@'' @ [NUL]"

definition pack_finish :: "ul_package_t \<Rightarrow> int \<Rightarrow> cstr \<Rightarrow> (int + char list) option" where
  \<comment> \<open>from the empty line behind the pairs on; \<open>acc\<close> holds the lines of the pairs\<close>
  "pack_finish p maxlen acc =
     (if maxlen - int (SIZE_NUM + length acc) < 0 then None
      else let head = acc @ CRLF; curpos = SIZE_NUM + length head; bodysize = bufsize p;
               sz = size_text (int (length head)) bodysize in
        if MAX_HEAD_SIZE < length head then Some (Inl (-1))
        else if SIZE_NUM \<le> length sz then Some (Inl (-1))
        else if \<not> length sz < SIZE_NUM - 1 then Some (Inl (-1))
        else if SIZE_NUM + MAX_HEAD_SIZE < curpos then Some (Inl (-1))
        else if bodysize \<noteq> 0 then
          (case pk_buf p of
             None \<Rightarrow> Some (Inl (-1))
           | Some b \<Rightarrow>
               if bodysize < 0 \<or> int (length b) < bodysize
                 \<or> maxlen < int curpos + bodysize + int (length BUF_EOF) then None
               else Some (Inr (size_field sz @ head @ take (nat bodysize) b @ BUF_EOF)))
        else if maxlen < int curpos + int (length BUF_EOF) then None
        else Some (Inr (size_field sz @ head @ BUF_EOF)))"

definition pack_image :: "ul_package_t \<Rightarrow> int \<Rightarrow> (int + char list) option" where
  \<comment> \<open>the part that \<open>ul_pack_serialization\<close> and \<open>ul_pack_write_mo_ms\<close> share: what \<open>tmpbuf\<close> holds up to \<open>curpos\<close>\<close>
  "pack_image p maxlen =
     (case ser_head maxlen (pairs p) [] of
        None \<Rightarrow> None
      | Some (Inl r) \<Rightarrow> Some (Inl r)
      | Some (Inr acc) \<Rightarrow> pack_finish p maxlen acc)"

definition pack_maxlen :: "ul_package_t \<Rightarrow> int" where
  \<comment> \<open>\<open>maxlen = SIZE_NUM + MAX_HEAD_SIZE + ppack->bufsize + 20UL\<close>, in two's complement\<close>
  "pack_maxlen p = to_int32 (int (SIZE_NUM + MAX_HEAD_SIZE) + bufsize p + 20)"

definition ul_pack_serialization ::
  "(int \<Rightarrow> bool) \<Rightarrow> char list option \<Rightarrow> int \<Rightarrow> ul_package_t option \<Rightarrow> (int \<times> char list option) option" where
  \<comment> \<open>the first argument: \<open>malloc\<close> of that many bytes succeeds\<close>
  "ul_pack_serialization malloc_ok buf siz ppack =
     (case (buf, ppack) of
        (Some blk, Some p) \<Rightarrow>
          if siz \<le> 0 then Some (-1, buf)
          else if \<not> malloc_ok (pack_maxlen p) then Some (-1, buf)
          else (case pack_image p (pack_maxlen p) of
                  None \<Rightarrow> None
                | Some (Inl r) \<Rightarrow> Some (r, buf)
                | Some (Inr img) \<Rightarrow>
                    if siz \<le> int (length img) then Some (-1, buf)
                    else if length blk < length img then None
                    else Some (int (length img), Some (img @ drop (length img) blk)))
      | _ \<Rightarrow> Some (-1, buf))"

section \<open>Reading a package from memory\<close>

definition scan_sizes :: "char list \<Rightarrow> (cstr \<times> int \<times> int) option" where
  \<comment> \<open>\<open>sscanf(sizebuf, "%s%d%d", tmp, &headsize, &bodysize)\<close> on the bytes of \<open>sizebuf\<close>, \<open>headsize\<close> and \<open>bodysize\<close>
      being -1 before; \<open>None\<close>: no terminator, a word that does not fit in \<open>tmp\<close>, or a number that is no \<open>int\<close>\<close>
  "scan_sizes sizebuf =
     (if NUL \<notin> set sizebuf then None
      else case scan_word (takeWhile (\<lambda>c. c \<noteq> NUL) sizebuf) of (tmp, r) \<Rightarrow>
        if tmp = [] \<or> 10 \<le> length tmp then None
        else case scan_int r of
          None \<Rightarrow> Some (tmp, -1, -1)
        | Some (headsize, r') \<Rightarrow>
            if \<not> int_ok headsize then None
            else case scan_int r' of
              None \<Rightarrow> Some (tmp, headsize, -1)
            | Some (bodysize, _) \<Rightarrow> if \<not> int_ok bodysize then None else Some (tmp, headsize, bodysize))"

function head_loop ::
  "nat \<Rightarrow> cstr \<Rightarrow> cstr \<Rightarrow> cstr list \<Rightarrow> cstr list \<Rightarrow> (bool \<times> nat \<times> cstr list \<times> cstr list) option" where
  \<comment> \<open>\<open>while (*ph != '\0' && i < MAX_PACK_ITEM_NUM)\<close>; \<open>False\<close>: a line without separator or with a part too long\<close>
  "head_loop i ph tmp name val =
     (if ph = [] \<or> MAX_PACK_ITEM_NUM \<le> i then Some (True, i, name, val)
      else case strstr ph CRLF of
        None \<Rightarrow> Some (True, i, name, val)
      | Some q \<Rightarrow>
          if q = 0 then Some (True, i, name, val)
          else (case strstr (take q ph) '' : '' of
                  None \<Rightarrow> Some (False, i, name[i := []], val[i := []])
                | Some p \<Rightarrow>
                    if MAX_ITEM_SIZE \<le> p \<or> MAX_ITEM_SIZE \<le> q - (p + 3)
                    then Some (False, i, name[i := []], val[i := []])
                    else (case scan_word (take q ph) of (w, r) \<Rightarrow>
                      (case scan_word r of (w', _) \<Rightarrow>
                        if MAX_ITEM_SIZE \<le> length w \<or> 10 \<le> length w' then None
                        else (let tmp' = (if w' = [] then tmp else w') in
                          head_loop (if tmp' \<noteq> [] \<and> hd tmp' = CHR '':'' then Suc i else i) (drop (q + 2) ph) tmp'
                            (name[i := w]) (val[i := snprintf_buf MAX_ITEM_SIZE (drop (p + 3) (take q ph))]))))))"
  by pat_completeness auto
termination
  by (relation "measure (\<lambda>(i, ph, tmp, name, val). length ph)") auto

declare head_loop.simps [simp del]

definition ul_pack_deserialization ::
  "char list option \<Rightarrow> int \<Rightarrow> ul_package_t option \<Rightarrow> (int \<times> ul_package_t option) option" where
  "ul_pack_deserialization buf siz ppack =
     (case (buf, ppack) of
        (Some blk, Some p) \<Rightarrow>
          if siz \<le> 0 then Some (-1, ppack)
          else if length blk < SIZE_NUM then None
          else if \<not> strncmp_eq (take SIZE_NUM blk) BUF_START (length BUF_START) then Some (-1, ppack)
          else (case scan_sizes (take SIZE_NUM blk) of
            None \<Rightarrow> None
          | Some (tmp, headsize, bodysize) \<Rightarrow>
              if headsize < 0 \<or> bodysize < 0 then Some (-1, ppack)
              else if bufsize p < bodysize \<or> int MAX_HEAD_SIZE \<le> headsize then Some (-1, ppack)
              else if \<not> int_ok (int SIZE_NUM + headsize + bodysize) then None
              else (let packsize = to_int32 (int SIZE_NUM + headsize + bodysize + int (length BUF_EOF));
                        h = nat headsize; b = nat bodysize;
                        headbuf = take h (drop SIZE_NUM blk);
                        body = take b (drop (SIZE_NUM + h) blk);
                        eofstr = take (length BUF_EOF) (drop (SIZE_NUM + h + b) blk) in
                if siz < packsize then Some (-1, ppack)
                else if length blk < SIZE_NUM + h + b + length BUF_EOF then None
                else (case (case pk_buf p of
                              None \<Rightarrow> if b = 0 then Some None else None
                            | Some d \<Rightarrow> if length d < b then None else Some (Some (body @ drop b d))) of
                  None \<Rightarrow> None
                | Some d' \<Rightarrow>
                    (let p1 = p\<lparr>pk_buf := d', bufsize := bodysize\<rparr> in
                     if \<not> strncmp_eq eofstr BUF_EOF (length BUF_EOF) then Some (-1, Some p1)
                     else (case head_loop 0 (takeWhile (\<lambda>c. c \<noteq> NUL) headbuf) tmp (pk_name p1) (pk_value p1) of
                       None \<Rightarrow> None
                     | Some (ok, i, name, val) \<Rightarrow>
                         (let p2 = p1\<lparr>pk_name := name, pk_value := val\<rparr> in
                          if ok then Some (packsize, Some (p2\<lparr>pairnum := i\<rparr>)) else Some (-1, Some p2)))))))
      | _ \<Rightarrow> Some (-1, ppack))"

section \<open>The table of pairs as a map\<close>

definition pack_inv :: "ul_package_t \<Rightarrow> bool" where
  "pack_inv p \<longleftrightarrow>
     length (pk_name p) = MAX_PACK_ITEM_NUM \<and> length (pk_value p) = MAX_PACK_ITEM_NUM
     \<and> pairnum p \<le> MAX_PACK_ITEM_NUM
     \<and> list_all (\<lambda>s. length s < MAX_ITEM_SIZE) (pk_name p) \<and> list_all (\<lambda>s. length s < MAX_ITEM_SIZE) (pk_value p)
     \<and> distinct (take (pairnum p) (pk_name p))"

definition item_ok :: "cstr \<Rightarrow> bool" where
  \<comment> \<open>what \<open>ul_pack_putvalue\<close> accepts as a name or a value\<close>
  "item_ok s \<longleftrightarrow> length s < MAX_ITEM_SIZE \<and> strstr s CRLF = None \<and> strstr s '' : '' = None"

lemma find_pair_Some:
  "find_pair names n nm = Some i \<Longrightarrow> i < n \<and> i < length names \<and> names ! i = nm \<and> nm \<notin> set (take i names)"
  by (induction names n nm arbitrary: i rule: find_pair.induct) (auto split: if_splits)

lemma find_pair_None: "n \<le> length names \<Longrightarrow> find_pair names n nm = None \<longleftrightarrow> nm \<notin> set (take n names)"
  by (induction names n nm rule: find_pair.induct) auto

lemma pairs_zip: "pairs p = zip (take (pairnum p) (pk_name p)) (take (pairnum p) (pk_value p))"
  by (simp add: pairs_def take_zip)

lemma map_of_pairs_None:
  "pack_inv p \<Longrightarrow> map_of (pairs p) nm = None \<longleftrightarrow> find_pair (pk_name p) (pairnum p) nm = None"
proof -
  assume "pack_inv p"
  then have "map fst (pairs p) = take (pairnum p) (pk_name p)" and "pairnum p \<le> length (pk_name p)"
    by (simp_all add: pack_inv_def pairs_zip)
  then show ?thesis by (simp add: find_pair_None map_of_eq_None_iff flip: set_map)
qed

lemma map_of_pairs_Some:
  assumes "pack_inv p" and "find_pair (pk_name p) (pairnum p) nm = Some i"
  shows "map_of (pairs p) nm = Some (pk_value p ! i)"
proof -
  let ?n = "pairnum p"
  have i: "i < ?n" "pk_name p ! i = nm" using find_pair_Some[OF assms(2)] by auto
  have "map_of (zip (take ?n (pk_name p)) (take ?n (pk_value p))) (take ?n (pk_name p) ! i)
      = Some (take ?n (pk_value p) ! i)"
    using assms(1) i(1) by (intro map_of_zip_nth) (auto simp: pack_inv_def)
  with i show ?thesis by (simp add: pairs_zip)
qed

lemma shift_down_eq:
  "list_all (\<lambda>s. length s < MAX_ITEM_SIZE) b \<Longrightarrow>
   shift_down (a @ x # b @ c) (Suc (length a)) (length b) = a @ b @ last (x # b) # c"
proof (induction b arbitrary: a x)
  case (Cons y b)
  have "shift_down (a @ x # (y # b) @ c) (Suc (length a)) (length (y # b))
      = shift_down ((a @ [y]) @ y # b @ c) (Suc (length (a @ [y]))) (length b)"
    using Cons.prems by (simp add: nth_append)
  also have "\<dots> = (a @ [y]) @ b @ last (y # b) # c" using Cons.prems by (intro Cons.IH) simp
  finally show ?case by simp
qed simp

lemma shift_down_at:
  assumes "list_all (\<lambda>s. length s < MAX_ITEM_SIZE) a" and "i < n" and "n \<le> length a"
  shows "take (n - 1) (shift_down a (i + 1) (n - (i + 1))) = take i a @ drop (Suc i) (take n a)"
    and "length (shift_down a (i + 1) (n - (i + 1))) = length a"
    and "list_all (\<lambda>s. length s < MAX_ITEM_SIZE) (shift_down a (i + 1) (n - (i + 1)))"
proof -
  let ?b = "drop (Suc i) (take n a)"
  have s: "a = take i a @ a ! i # ?b @ drop n a"
  proof -
    have "drop (Suc i) a = ?b @ drop n a"
      using append_take_drop_id[of "n - Suc i" "drop (Suc i) a"] assms(2,3) by (simp add: drop_take)
    then show ?thesis using id_take_nth_drop[of i a] assms(2,3) by simp
  qed
  have l: "list_all (\<lambda>s. length s < MAX_ITEM_SIZE) ?b"
    using assms(1) by (auto simp: list_all_iff dest: in_set_takeD in_set_dropD)
  have e: "shift_down a (i + 1) (n - (i + 1)) = take i a @ ?b @ last (a ! i # ?b) # drop n a"
  proof -
    have "length (take i a) = i" and "length ?b = n - (i + 1)" using assms(2,3) by simp_all
    then show ?thesis using shift_down_eq[OF l, of "take i a" "a ! i" "drop n a"] s[symmetric] by (simp only: Suc_eq_plus1)
  qed
  show "take (n - 1) (shift_down a (i + 1) (n - (i + 1))) = take i a @ ?b"
    unfolding e using assms(2,3) by simp
  show "length (shift_down a (i + 1) (n - (i + 1))) = length a"
    unfolding e using assms(2,3) by simp
  have "last (a ! i # ?b) \<in> set a"
  proof (cases "?b = []")
    case True
    then show ?thesis using assms(2,3) by simp
  next
    case False
    then have "last ?b \<in> set ?b" by (rule last_in_set)
    then show ?thesis using False by (simp only: last.simps if_False) (blast dest: in_set_takeD in_set_dropD)
  qed
  then show "list_all (\<lambda>s. length s < MAX_ITEM_SIZE) (shift_down a (i + 1) (n - (i + 1)))"
    unfolding e using assms(1) l by (auto simp: list_all_iff dest: in_set_takeD in_set_dropD)
qed

lemma pack_inv_init: "ul_pack_init True = Some p \<Longrightarrow> pack_inv p \<and> map_of (pairs p) = Map.empty"
  by (auto simp: ul_pack_init_def pack_inv_def pairs_def list_all_iff MAX_ITEM_SIZE_def)

lemma putvalue_refuses:
  "\<not> (item_ok nm \<and> item_ok v) \<Longrightarrow> ul_pack_putvalue (Some p) (Some nm) (Some v) = (-1, Some p)"
  by (auto simp: ul_pack_putvalue_def item_ok_def)

lemma putvalue_full:
  "\<lbrakk>item_ok nm; item_ok v; find_pair (pk_name p) (pairnum p) nm = None; \<not> pairnum p < MAX_PACK_ITEM_NUM\<rbrakk>
   \<Longrightarrow> ul_pack_putvalue (Some p) (Some nm) (Some v) = (-2, Some p)"
  by (simp add: ul_pack_putvalue_def item_ok_def)

lemma list_all_update: "list_all P xs \<Longrightarrow> P x \<Longrightarrow> list_all P (xs[i := x])"
  by (auto simp: list_all_iff dest: set_update_subset_insert[THEN subsetD])

lemma map_of_zip_update:
  "\<lbrakk>distinct xs; length ys = length xs; i < length xs\<rbrakk>
   \<Longrightarrow> map_of (zip xs (ys[i := v])) = (map_of (zip xs ys))(xs ! i \<mapsto> v)"
proof (induction xs arbitrary: ys i)
  case (Cons x xs)
  then obtain y ys' where y: "ys = y # ys'" by (cases ys) auto
  show ?case
  proof (cases i)
    case (Suc j)
    then have "xs ! j \<noteq> x" using Cons.prems by (auto simp: in_set_conv_nth)
    then show ?thesis using Cons.IH[of ys' j] Cons.prems Suc y by (auto simp: fun_eq_iff)
  qed (auto simp: y fun_eq_iff)
qed simp

lemma putvalue_replaces:
  assumes "pack_inv p" "item_ok nm" "item_ok v" "find_pair (pk_name p) (pairnum p) nm = Some i"
  shows "\<exists>p'. ul_pack_putvalue (Some p) (Some nm) (Some v) = (1, Some p') \<and> pack_inv p'
    \<and> map_of (pairs p') = (map_of (pairs p))(nm \<mapsto> v) \<and> pk_buf p' = pk_buf p \<and> bufsize p' = bufsize p"
proof -
  let ?n = "pairnum p" and ?p' = "p\<lparr>pk_value := (pk_value p)[i := v]\<rparr>"
  have i: "i < ?n" "pk_name p ! i = nm" using find_pair_Some[OF assms(4)] by auto
  have put: "ul_pack_putvalue (Some p) (Some nm) (Some v) = (1, Some ?p')"
    using assms by (simp add: ul_pack_putvalue_def item_ok_def)
  have inv: "pack_inv ?p'" using assms(1,3) by (simp add: pack_inv_def item_ok_def list_all_update)
  have "map_of (zip (take ?n (pk_name p)) ((take ?n (pk_value p))[i := v]))
      = (map_of (zip (take ?n (pk_name p)) (take ?n (pk_value p))))(take ?n (pk_name p) ! i \<mapsto> v)"
    using assms(1) i(1) by (intro map_of_zip_update) (auto simp: pack_inv_def)
  then have "map_of (pairs ?p') = (map_of (pairs p))(nm \<mapsto> v)"
    using i by (simp add: pairs_zip take_update_swap)
  with put inv show ?thesis by auto
qed

lemma putvalue_adds:
  assumes "pack_inv p" "item_ok nm" "item_ok v" "find_pair (pk_name p) (pairnum p) nm = None"
    "pairnum p < MAX_PACK_ITEM_NUM"
  shows "\<exists>p'. ul_pack_putvalue (Some p) (Some nm) (Some v) = (0, Some p') \<and> pack_inv p'
    \<and> map_of (pairs p') = (map_of (pairs p))(nm \<mapsto> v) \<and> pk_buf p' = pk_buf p \<and> bufsize p' = bufsize p"
proof -
  let ?n = "pairnum p"
  let ?p' = "p\<lparr>pk_name := (pk_name p)[?n := nm], pk_value := (pk_value p)[?n := v], pairnum := ?n + 1\<rparr>"
  have l: "?n < length (pk_name p)" "?n < length (pk_value p)" using assms(1,5) by (auto simp: pack_inv_def)
  have put: "ul_pack_putvalue (Some p) (Some nm) (Some v) = (0, Some ?p')"
    using assms by (simp add: ul_pack_putvalue_def item_ok_def)
  have take1: "take (?n + 1) ((pk_name p)[?n := nm]) = take ?n (pk_name p) @ [nm]"
    "take (?n + 1) ((pk_value p)[?n := v]) = take ?n (pk_value p) @ [v]"
    using l by (simp_all add: take_Suc_conv_app_nth)
  have new: "nm \<notin> set (take ?n (pk_name p))" using assms(4) l by (simp add: find_pair_None)
  then have inv: "pack_inv ?p'"
    using assms(1,2,3,5) take1 by (simp add: pack_inv_def item_ok_def list_all_update)
  have "map_of (pairs p) nm = None" using map_of_pairs_None[OF assms(1), of nm] assms(4) by simp
  moreover have "pairs ?p' = pairs p @ [(nm, v)]" using take1 l by (simp add: pairs_zip)
  ultimately have "map_of (pairs ?p') = (map_of (pairs p))(nm \<mapsto> v)"
    by (auto simp: fun_eq_iff map_add_def split: option.split)
  with put inv show ?thesis by auto
qed

lemma map_of_remove:
  assumes "nm \<notin> fst ` set a" and "nm \<notin> fst ` set b"
  shows "map_of (a @ b) = (map_of (a @ (nm, v) # b))(nm := None)"
proof -
  have "map_of a nm = None" and "map_of b nm = None" using assms by (simp_all add: map_of_eq_None_iff)
  then show ?thesis by (auto simp: fun_eq_iff map_add_def split: option.split)
qed

lemma delvalue_removes:
  assumes "pack_inv p" "find_pair (pk_name p) (pairnum p) nm = Some i"
  shows "\<exists>p'. ul_pack_delvalue (Some p) (Some nm) = (0, Some p') \<and> pack_inv p'
    \<and> map_of (pairs p') = (map_of (pairs p))(nm := None) \<and> pk_buf p' = pk_buf p \<and> bufsize p' = bufsize p"
proof -
  let ?n = "pairnum p" and ?N = "pk_name p" and ?V = "pk_value p"
  let ?p' = "p\<lparr>pk_name := shift_down ?N (i + 1) (?n - (i + 1)), pk_value := shift_down ?V (i + 1) (?n - (i + 1)),
    pairnum := ?n - 1\<rparr>"
  have i: "i < ?n" "?N ! i = nm" "nm \<notin> set (take i ?N)" using find_pair_Some[OF assms(2)] by auto
  have n: "?n \<le> length ?N" "?n \<le> length ?V" "length ?N = length ?V"
    and s: "list_all (\<lambda>s. length s < MAX_ITEM_SIZE) ?N" "list_all (\<lambda>s. length s < MAX_ITEM_SIZE) ?V"
    and d: "distinct (take ?n ?N)"
    using assms(1) by (auto simp: pack_inv_def)
  note N = shift_down_at[OF s(1) i(1) n(1)] and V = shift_down_at[OF s(2) i(1) n(2)]
  have split: "take ?n ?N = take i ?N @ nm # drop (Suc i) (take ?n ?N)"
    "take ?n ?V = take i ?V @ ?V ! i # drop (Suc i) (take ?n ?V)"
    using id_take_nth_drop[of i "take ?n ?N"] id_take_nth_drop[of i "take ?n ?V"] i n by (simp_all add: min_def)
  have dd: "distinct (take i ?N @ nm # drop (Suc i) (take ?n ?N))" using d split(1) by simp
  have "?n - 1 \<le> MAX_PACK_ITEM_NUM" using assms(1) by (auto simp: pack_inv_def)
  with dd have inv: "pack_inv ?p'" using assms(1) N V by (simp add: pack_inv_def)
  let ?a = "zip (take i ?N) (take i ?V)" and ?b = "zip (drop (Suc i) (take ?n ?N)) (drop (Suc i) (take ?n ?V))"
  have "pairs ?p' = ?a @ ?b" using N(1) V(1) i n by (simp add: pairs_zip)
  moreover have "pairs p = ?a @ (nm, ?V ! i) # ?b"
    using i n arg_cong2[where f = zip, OF split] by (simp add: pairs_zip)
  moreover have "nm \<notin> fst ` set ?a" "nm \<notin> fst ` set ?b"
    using dd by (auto dest!: set_zip_leftD)
  ultimately have "map_of (pairs ?p') = (map_of (pairs p))(nm := None)"
    using map_of_remove[of nm ?a ?b "?V ! i"] by simp
  moreover have "ul_pack_delvalue (Some p) (Some nm) = (0, Some ?p')"
    using assms(2) by (simp add: ul_pack_delvalue_def)
  ultimately show ?thesis using inv by auto
qed

lemma delvalue_missing:
  "find_pair (pk_name p) (pairnum p) nm = None \<Longrightarrow> ul_pack_delvalue (Some p) (Some nm) = (-1, Some p)"
  by (simp add: ul_pack_delvalue_def)

section \<open>Key-value stores\<close>

datatype ('k, 'v) kv_op = Put 'k 'v | Del 'k

fun kv_run :: "('s \<Rightarrow> 'k \<Rightarrow> 'v \<Rightarrow> 's option) \<Rightarrow> ('s \<Rightarrow> 'k \<Rightarrow> 's option) \<Rightarrow> ('k, 'v) kv_op list \<Rightarrow> 's \<Rightarrow> bool list \<times> 's" where
  \<comment> \<open>a sequence of operations on a store: which of them it accepts, and the store after them\<close>
  "kv_run put del [] s = ([], s)"
| "kv_run put del (x # xs) s =
     (case (case x of Put k v \<Rightarrow> put s k v | Del k \<Rightarrow> del s k) of
        None \<Rightarrow> (case kv_run put del xs s of (bs, s') \<Rightarrow> (False # bs, s'))
      | Some t \<Rightarrow> (case kv_run put del xs t of (bs, s') \<Rightarrow> (True # bs, s')))"

fun map_run :: "(('k, 'v) kv_op \<times> bool) list \<Rightarrow> ('k \<rightharpoonup> 'v) \<Rightarrow> ('k \<rightharpoonup> 'v)" where
  \<comment> \<open>the accepted operations on a map\<close>
  "map_run [] m = m"
| "map_run ((x, b) # xs) m =
     map_run xs (if b then (case x of Put k v \<Rightarrow> m(k \<mapsto> v) | Del k \<Rightarrow> m(k := None)) else m)"

locale kv_store =
  fixes put :: "'s \<Rightarrow> 'k \<Rightarrow> 'v \<Rightarrow> 's option"
    and del :: "'s \<Rightarrow> 'k \<Rightarrow> 's option"
    and content :: "'s \<Rightarrow> ('k \<rightharpoonup> 'v)"
    and inv :: "'s \<Rightarrow> bool"
  assumes put_stores: "inv s \<Longrightarrow> put s k v = Some s' \<Longrightarrow> inv s' \<and> content s' = (content s)(k \<mapsto> v)"
    and del_forgets: "inv s \<Longrightarrow> del s k = Some s' \<Longrightarrow> inv s' \<and> content s' = (content s)(k := None)"
    and del_refused: "inv s \<Longrightarrow> del s k = None \<longleftrightarrow> content s k = None"
begin

lemma run_refines:
  "inv s \<Longrightarrow> kv_run put del xs s = (bs, s') \<Longrightarrow> inv s' \<and> content s' = map_run (zip xs bs) (content s)"
proof (induction xs arbitrary: s bs)
  case (Cons x xs)
  show ?case
  proof (cases "case x of Put k v \<Rightarrow> put s k v | Del k \<Rightarrow> del s k")
    case None
    with Cons.prems Cons.IH[of s] show ?thesis by (auto split: prod.splits)
  next
    case (Some t)
    have t: "inv t \<and> content t = (case x of Put k v \<Rightarrow> (content s)(k \<mapsto> v) | Del k \<Rightarrow> (content s)(k := None))"
    proof (cases x)
      case (Put k v)
      then show ?thesis using put_stores[OF Cons.prems(1), of k v t] Some by simp
    next
      case (Del k)
      then show ?thesis using del_forgets[OF Cons.prems(1), of k t] Some by simp
    qed
    obtain bs' where "kv_run put del xs t = (bs', s')" and "bs = True # bs'"
      using Cons.prems(2) Some by (auto split: prod.splits)
    then show ?thesis using Cons.IH[of t bs'] t by simp
  qed
qed simp

end

definition pack_put :: "ul_package_t \<Rightarrow> cstr \<Rightarrow> cstr \<Rightarrow> ul_package_t option" where
  "pack_put p nm v =
     (case ul_pack_putvalue (Some p) (Some nm) (Some v) of (r, q) \<Rightarrow> if 0 \<le> r then q else None)"

definition pack_del :: "ul_package_t \<Rightarrow> cstr \<Rightarrow> ul_package_t option" where
  "pack_del p nm = (case ul_pack_delvalue (Some p) (Some nm) of (r, q) \<Rightarrow> if 0 \<le> r then q else None)"

lemma pack_put_stores:
  assumes "pack_inv p" and "pack_put p nm v = Some q"
  shows "pack_inv q \<and> map_of (pairs q) = (map_of (pairs p))(nm \<mapsto> v)"
proof -
  have "item_ok nm \<and> item_ok v"
    using assms(2) putvalue_refuses[of nm v p] by (rule_tac ccontr) (simp add: pack_put_def)
  then have ok: "item_ok nm" "item_ok v" by simp_all
  show ?thesis
  proof (cases "find_pair (pk_name p) (pairnum p) nm")
    case None
    then have "pairnum p < MAX_PACK_ITEM_NUM"
      using assms(2) putvalue_full[OF ok None] by (rule_tac ccontr) (simp add: pack_put_def)
    from putvalue_adds[OF assms(1) ok None this] assms(2) show ?thesis by (auto simp: pack_put_def)
  next
    case (Some i)
    from putvalue_replaces[OF assms(1) ok Some] assms(2) show ?thesis by (auto simp: pack_put_def)
  qed
qed

interpretation pack: kv_store pack_put pack_del "\<lambda>p. map_of (pairs p)" pack_inv
proof
  fix p nm v q
  show "pack_inv p \<Longrightarrow> pack_put p nm v = Some q \<Longrightarrow>
    pack_inv q \<and> map_of (pairs q) = (map_of (pairs p))(nm \<mapsto> v)" by (rule pack_put_stores)
next
  fix p nm q
  assume p: "pack_inv p"
  show "pack_del p nm = None \<longleftrightarrow> map_of (pairs p) nm = None"
    using map_of_pairs_None[OF p, of nm] delvalue_removes[OF p, of nm] delvalue_missing[of p nm]
    by (cases "find_pair (pk_name p) (pairnum p) nm") (auto simp: pack_del_def)
  assume "pack_del p nm = Some q"
  then show "pack_inv q \<and> map_of (pairs q) = (map_of (pairs p))(nm := None)"
    using delvalue_removes[OF p, of nm] delvalue_missing[of p nm]
    by (cases "find_pair (pk_name p) (pairnum p) nm") (auto simp: pack_del_def)
qed

lemma getvalue_eq:
  assumes "pack_inv p" and "0 < siz" and "siz \<le> length blk"
  shows "ul_pack_getvalue_ex (Some p) (Some nm) (Some blk) siz =
    (case map_of (pairs p) nm of
       None \<Rightarrow> Some (0, Some (NUL # tl blk))
     | Some v \<Rightarrow> Some (1, Some (take (siz - 1) v @ NUL # drop (Suc (min (siz - 1) (length v))) blk)))"
proof -
  obtain y ys where b: "blk = y # ys" using assms(2,3) by (cases blk) auto
  show ?thesis
  proof (cases "find_pair (pk_name p) (pairnum p) nm")
    case None
    then show ?thesis using map_of_pairs_None[OF assms(1), of nm] by (simp add: ul_pack_getvalue_ex_def b)
  next
    case (Some i)
    have "min (siz - 1) (length (pk_value p ! i)) < length blk" using assms(2,3) by linarith
    then show ?thesis
      using Some map_of_pairs_Some[OF assms(1) Some] assms(2)
      by (simp add: ul_pack_getvalue_ex_def snprintf_block_def snprintf_buf_def Let_def b min.commute)
  qed
qed

section \<open>Properties\<close>

text \<open>C11: from a fresh package, any sequence of \<open>ul_pack_putvalue\<close> and \<open>ul_pack_delvalue\<close> leaves the package
  representing the map that the accepted operations describe, and \<open>ul_pack_getvalue_ex\<close> with room for the
  value returns what that map holds.\<close>

theorem pack_is_map:
  assumes "ul_pack_init True = Some p" and "kv_run pack_put pack_del ops p = (accepted, q)"
    and "0 < siz" and "siz \<le> length blk"
  shows "ul_pack_getvalue_ex (Some q) (Some nm) (Some blk) siz =
    (case map_run (zip ops accepted) Map.empty nm of
       None \<Rightarrow> Some (0, Some (NUL # tl blk))
     | Some v \<Rightarrow> Some (1, Some (take (siz - 1) v @ NUL # drop (Suc (min (siz - 1) (length v))) blk)))"
  using pack.run_refines[OF _ assms(2)] pack_inv_init[OF assms(1)] getvalue_eq[OF _ assms(3,4), of q nm] by simp

theorem pack_is_map_witness:
  "\<exists>p q. ul_pack_init True = Some p
     \<and> kv_run pack_put pack_del [Put ''a'' ''x'', Put ''b'' ''yz'', Del ''a''] p = ([True, True, True], q)
     \<and> ul_pack_getvalue_ex (Some q) (Some ''b'') (Some ''----'') 4 = Some (1, Some [CHR ''y'', CHR ''z'', NUL, CHR ''-''])"
proof -
  let ?ops = "[Put ''a'' ''x'', Put ''b'' ''yz'', Del ''a''] :: (cstr, cstr) kv_op list"
  obtain p where p: "ul_pack_init True = Some p" by (simp add: ul_pack_init_def)
  have "fst (kv_run pack_put pack_del ?ops (the (ul_pack_init True))) = [True, True, True]" by code_simp
  then obtain q where q: "kv_run pack_put pack_del ?ops p = ([True, True, True], q)"
    using p by (cases "kv_run pack_put pack_del ?ops p") auto
  have "ul_pack_getvalue_ex (Some q) (Some ''b'') (Some ''----'') 4 = Some (1, Some [CHR ''y'', CHR ''z'', NUL, CHR ''-''])"
    using pack_is_map[OF p q, of 4 "''----''" "''b''"] by simp
  with p q show ?thesis by blast
qed

text \<open>The return value of \<open>ul_pack_putvalue\<close> on a package in use: -1 with the package unchanged for a name or
  value that is too long or holds a separator, 1 when the name was there, 0 when it was added, -2 with the
  package unchanged when the table is full; when it stores, the invariant is kept, the map is updated at that
  name alone, and the buffer stays.\<close>

theorem putvalue_spec:
  assumes "pack_inv p" and "ul_pack_putvalue (Some p) (Some nm) (Some v) = (r, q)"
  shows "r = (if \<not> (item_ok nm \<and> item_ok v) then -1
              else if map_of (pairs p) nm \<noteq> None then 1
              else if pairnum p < MAX_PACK_ITEM_NUM then 0 else -2)
    \<and> (if r < 0 then q = Some p
       else \<exists>p'. q = Some p' \<and> pack_inv p' \<and> map_of (pairs p') = (map_of (pairs p))(nm \<mapsto> v)
              \<and> pk_buf p' = pk_buf p \<and> bufsize p' = bufsize p)"
proof (cases "item_ok nm \<and> item_ok v")
  case False
  then show ?thesis using putvalue_refuses[OF False, of p] assms(2) by simp
next
  case True
  then have ok: "item_ok nm" "item_ok v" by simp_all
  show ?thesis
  proof (cases "find_pair (pk_name p) (pairnum p) nm")
    case None
    with True show ?thesis
      using map_of_pairs_None[OF assms(1), of nm] putvalue_adds[OF assms(1) ok None] putvalue_full[OF ok None] assms(2)
      by (cases "pairnum p < MAX_PACK_ITEM_NUM") auto
  next
    case (Some i)
    with True show ?thesis
      using map_of_pairs_Some[OF assms(1) Some] putvalue_replaces[OF assms(1) ok Some] assms(2) by auto
  qed
qed

theorem putvalue_spec_witness:
  "\<exists>p q. ul_pack_init True = Some p \<and> ul_pack_putvalue (Some p) (Some ''a'') (Some ''x'') = (0, Some q)
     \<and> map_of (pairs q) = [''a'' \<mapsto> ''x'']"
proof -
  obtain p where p: "ul_pack_init True = Some p" by (simp add: ul_pack_init_def)
  obtain r q where q: "ul_pack_putvalue (Some p) (Some ''a'') (Some ''x'') = (r, q)"
    by (cases "ul_pack_putvalue (Some p) (Some ''a'') (Some ''x'')")
  have "item_ok ''a''" "item_ok ''x''" by code_simp+
  moreover have "pairnum p < MAX_PACK_ITEM_NUM" using p by (auto simp: ul_pack_init_def MAX_PACK_ITEM_NUM_def)
  ultimately show ?thesis using putvalue_spec[OF _ q] pack_inv_init[OF p] p q by auto
qed

text \<open>\<open>ul_pack_delvalue\<close> returns -1 and changes nothing when the name is not in the table; otherwise it
  returns 0, keeps the invariant and removes that name alone.\<close>

theorem delvalue_spec:
  assumes "pack_inv p" and "ul_pack_delvalue (Some p) (Some nm) = (r, q)"
  shows "if map_of (pairs p) nm = None then r = -1 \<and> q = Some p
    else r = 0 \<and> (\<exists>p'. q = Some p' \<and> pack_inv p' \<and> map_of (pairs p') = (map_of (pairs p))(nm := None)
                  \<and> pk_buf p' = pk_buf p \<and> bufsize p' = bufsize p)"
proof (cases "find_pair (pk_name p) (pairnum p) nm")
  case None
  then show ?thesis using map_of_pairs_None[OF assms(1), of nm] delvalue_missing[OF None] assms(2) by auto
next
  case (Some i)
  then show ?thesis
    using map_of_pairs_Some[OF assms(1) Some] delvalue_removes[OF assms(1) Some] assms(2) by auto
qed

theorem delvalue_spec_witness:
  "\<exists>p. ul_pack_init True = Some p \<and> ul_pack_delvalue (Some p) (Some ''a'') = (-1, Some p)"
proof -
  obtain p where p: "ul_pack_init True = Some p" by (simp add: ul_pack_init_def)
  obtain r q where q: "ul_pack_delvalue (Some p) (Some ''a'') = (r, q)"
    by (cases "ul_pack_delvalue (Some p) (Some ''a'')")
  then show ?thesis using delvalue_spec[OF _ q] pack_inv_init[OF p] p by simp
qed

section \<open>A written package reads back\<close>

definition word_ok :: "cstr \<Rightarrow> bool" where
  \<comment> \<open>a name that \<open>sscanf\<close> reads back as one word\<close>
  "word_ok s \<longleftrightarrow> s \<noteq> [] \<and> length s < MAX_ITEM_SIZE \<and> list_all (\<lambda>c. \<not> isspace c \<and> c \<noteq> NUL) s"

definition text_ok :: "cstr \<Rightarrow> bool" where
  "text_ok s \<longleftrightarrow> length s < MAX_ITEM_SIZE \<and> strstr s CRLF = None \<and> cstr_ok s"

definition pack_body :: "ul_package_t \<Rightarrow> char list" where
  "pack_body p = (case pk_buf p of None \<Rightarrow> [] | Some b \<Rightarrow> take (nat (bufsize p)) b)"

definition pack_head :: "ul_package_t \<Rightarrow> cstr" where
  "pack_head p = concat (map head_line (pairs p)) @ CRLF"

lemma strstr_append:
  "t \<noteq> [] \<Longrightarrow> hd t \<notin> set a \<Longrightarrow> strstr (a @ s) t = map_option (\<lambda>i. length a + i) (strstr s t)"
proof (induction a)
  case Nil
  then show ?case by (simp add: option.map_ident)
next
  case (Cons c a)
  then have "\<not> prefix t (c # a @ s)" by (cases t) auto
  with Cons show ?case by (simp add: option.map_comp comp_def)
qed

lemma strstr_crlf_end: "strstr s CRLF = None \<Longrightarrow> strstr (s @ CRLF @ r) CRLF = Some (length s)"
proof (induction s)
  case (Cons c s)
  then have "\<not> prefix CRLF (c # s)" and "strstr s CRLF = None" by (auto split: if_splits)
  moreover from this have "\<not> prefix CRLF (c # s @ CRLF @ r)" by (cases s) auto
  ultimately show ?case using Cons.IH by simp
qed simp

lemma word_ok_not_in:
  assumes "word_ok n"
  shows "CHR '' '' \<notin> set n" "CHR 0x0D \<notin> set n" "NUL \<notin> set n" "n \<noteq> []" "length n < MAX_ITEM_SIZE"
proof -
  have all: "\<forall>c \<in> set n. \<not> isspace c \<and> c \<noteq> NUL" and n: "n \<noteq> []" "length n < MAX_ITEM_SIZE"
    using assms by (simp_all add: word_ok_def list_all_iff)
  show "CHR '' '' \<notin> set n" using all isspace_sep(1) by blast
  show "CHR 0x0D \<notin> set n" using all isspace_sep(3) by blast
  show "NUL \<notin> set n" using all by blast
qed (use assms in \<open>simp_all add: word_ok_def\<close>)

lemma strstr_sep: "word_ok n \<Longrightarrow> strstr (n @ '' : '' @ v) '' : '' = Some (length n)"
  using strstr_append[of "'' : ''" n "'' : '' @ v"] by (simp add: word_ok_not_in)

lemma strstr_line: "word_ok n \<Longrightarrow> text_ok v \<Longrightarrow> strstr (head_line (n, v) @ r) CRLF = Some (length n + 3 + length v)"
proof -
  assume n: "word_ok n" and v: "text_ok v"
  have "strstr ((n @ '' : '') @ v) CRLF = None"
    using strstr_append[of CRLF "n @ '' : ''" v] n v by (simp add: word_ok_not_in text_ok_def)
  from strstr_crlf_end[OF this, of r] show ?thesis by (simp add: head_line_def)
qed

lemma scan_word_name: "word_ok n \<Longrightarrow> scan_word (n @ '' : '' @ v) = (n, '' : '' @ v)"
proof -
  assume n: "word_ok n"
  then obtain c m where c: "n = c # m" "\<not> isspace c" by (cases n) (auto simp: word_ok_def)
  have all: "\<forall>x \<in> set n. \<not> isspace x" using n by (simp add: word_ok_def list_all_iff)
  have "dropWhile isspace (n @ '' : '' @ v) = n @ '' : '' @ v" using c by simp
  then show ?thesis using all by (simp add: scan_word_def takeWhile_append2 dropWhile_append2)
qed

lemma scan_word_sep: "scan_word ('' : '' @ v) = ('':'', CHR '' '' # v)"
  by (simp add: scan_word_def)

lemma head_loop_step:
  assumes "word_ok n" and "text_ok v" and "i < MAX_PACK_ITEM_NUM"
  shows "head_loop i (head_line (n, v) @ r) tmp name val = head_loop (Suc i) r '':'' (name[i := n]) (val[i := v])"
proof -
  let ?q = "length n + 3 + length v"
  define ph where "ph = head_line (n, v) @ r"
  have q: "strstr ph CRLF = Some ?q" unfolding ph_def using assms by (intro strstr_line)
  have ph: "ph = (n @ '' : '' @ v) @ CRLF @ r" and q': "?q = length (n @ '' : '' @ v)"
    by (simp_all add: ph_def head_line_def)
  have gen: "take (length x) (x @ y) = x" for x y :: cstr by simp
  have t: "take ?q ph = n @ '' : '' @ v" unfolding ph q' by (rule gen)
  have d: "drop (?q + 2) ph = r" unfolding ph q' by (simp del: append.simps(2) append_assoc)
  have "length n < MAX_ITEM_SIZE" "length v < MAX_ITEM_SIZE" using assms by (auto simp: word_ok_def text_ok_def)
  moreover have "ph \<noteq> []" by (simp add: ph)
  ultimately have "head_loop i ph tmp name val = head_loop (Suc i) r '':'' (name[i := n]) (val[i := v])"
    using assms(3) q t d
    by (subst head_loop.simps)
      (simp add: strstr_sep[OF assms(1), simplified] scan_word_name[OF assms(1), simplified] scan_word_sep[simplified])
  then show ?thesis unfolding ph_def .
qed

lemma head_loop_lines:
  "\<lbrakk>list_all (\<lambda>(n, v). word_ok n \<and> text_ok v) nvs; length a + length nvs \<le> MAX_PACK_ITEM_NUM;
    length b = length a; length nvs \<le> length c; length nvs \<le> length d\<rbrakk>
   \<Longrightarrow> head_loop (length a) (concat (map head_line nvs) @ CRLF) tmp (a @ c) (b @ d)
     = Some (True, length a + length nvs,
         a @ map fst nvs @ drop (length nvs) c, b @ map snd nvs @ drop (length nvs) d)"
proof (induction nvs arbitrary: a b c d tmp)
  case Nil
  then show ?case by (subst head_loop.simps) simp
next
  case (Cons nv nvs)
  obtain n v where nv: "nv = (n, v)" by (cases nv)
  obtain x c' where c: "c = x # c'" using Cons.prems(4) by (cases c) auto
  obtain y d' where d: "d = y # d'" using Cons.prems(5) by (cases d) auto
  have "head_loop (length a) (concat (map head_line (nv # nvs)) @ CRLF) tmp (a @ c) (b @ d)
      = head_loop (length (a @ [n])) (concat (map head_line nvs) @ CRLF) '':'' ((a @ [n]) @ c') ((b @ [v]) @ d')"
    using head_loop_step[of n v "length a" "concat (map head_line nvs) @ CRLF" tmp "a @ c" "b @ d"] Cons.prems
      list_update_length[of b y d' v]
    by (simp add: nv c d)
  also have "\<dots> = Some (True, length (a @ [n]) + length nvs,
      (a @ [n]) @ map fst nvs @ drop (length nvs) c', (b @ [v]) @ map snd nvs @ drop (length nvs) d')"
    using Cons.prems by (intro Cons.IH) (simp_all add: c d)
  finally show ?case by (simp add: nv c d)
qed

lemma size_text_dec: "0 \<le> b \<Longrightarrow> size_text (int h) b = BUF_START @ dec_nat h @ '' '' @ dec_nat (nat b)"
  by (simp add: size_text_def dec_int_def)

lemma scan_sizes_field:
  assumes "0 \<le> b" and "int_ok (int h)" and "int_ok b" and "length (size_text (int h) b) < SIZE_NUM - 1"
  shows "scan_sizes (size_field (size_text (int h) b)) = Some (''~BUF!'', int h, b)"
proof -
  define ats where "ats = replicate (SIZE_NUM - 2 - length (size_text (int h) b)) CHR ''@''"
  let ?tail = "CHR '' '' # ats"
  have f: "size_field (size_text (int h) b) =
    (''~BUF!'' @ CHR '' '' # dec_nat h @ CHR '' '' # dec_nat (nat b) @ ?tail) @ [NUL]"
    using assms(1) by (simp add: size_field_def size_text_dec BUF_START_def ats_def)
  have nul: "NUL \<notin> set (dec_nat k)" for k using dec_nat_isdigit[of k] isdigit_not_special(4) by blast
  have "NUL \<notin> set (''~BUF!'' @ CHR '' '' # dec_nat h @ CHR '' '' # dec_nat (nat b) @ ?tail)"
    using nul by (simp add: ats_def)
  then have tw: "takeWhile (\<lambda>c. c \<noteq> NUL) (size_field (size_text (int h) b)) =
    ''~BUF!'' @ CHR '' '' # dec_nat h @ CHR '' '' # dec_nat (nat b) @ ?tail"
    unfolding f by (subst takeWhile_append2) auto
  have w: "scan_word (''~BUF!'' @ CHR '' '' # r) = (''~BUF!'', CHR '' '' # r)" for r
    by (simp add: scan_word_def isspace_def)
  have nd: "\<not> isdigit CHR '' ''" by (simp add: isdigit_def)
  have i1: "scan_int (CHR '' '' # dec_nat h @ CHR '' '' # dec_nat (nat b) @ ?tail) = Some (int h, CHR '' '' # dec_nat (nat b) @ ?tail)"
    by (rule scan_int_dec) (simp add: nd)
  have i2: "scan_int (CHR '' '' # dec_nat (nat b) @ ?tail) = Some (b, ?tail)"
    using scan_int_dec[of ?tail "nat b"] nd assms(1) by simp
  have "NUL \<in> set (size_field (size_text (int h) b))" unfolding f by simp
  then show ?thesis unfolding scan_sizes_def tw w by (simp add: i1 i2 assms(2,3))
qed

lemma ser_head_text:
  "ser_head maxlen nvs acc = Some (Inr t) \<Longrightarrow> t = acc @ concat (map head_line (filter (\<lambda>nv. fst nv \<noteq> []) nvs))"
  by (induction maxlen nvs acc rule: ser_head.induct) (auto simp: Let_def split: if_splits)

definition well_framed :: "ul_package_t \<Rightarrow> bool" where
  \<comment> \<open>the sizes fit in the size field, and the buffer has the size announced\<close>
  "well_framed p \<longleftrightarrow>
     0 \<le> bufsize p \<and> length (pack_body p) = nat (bufsize p) \<and> length (pack_head p) \<le> MAX_HEAD_SIZE
     \<and> length (size_text (int (length (pack_head p))) (bufsize p)) < SIZE_NUM - 1"

definition pack_bytes :: "ul_package_t \<Rightarrow> char list" where
  \<comment> \<open>a package on the wire\<close>
  "pack_bytes p =
     size_field (size_text (int (length (pack_head p))) (bufsize p)) @ pack_head p @ pack_body p @ BUF_EOF"

lemma pack_finish_Inr:
  assumes "pack_finish p maxlen acc = Some (Inr img)" and "acc @ CRLF = pack_head p"
  shows "img = pack_bytes p \<and> well_framed p
    \<and> int (SIZE_NUM + length (pack_head p)) + bufsize p + int (length BUF_EOF) \<le> maxlen"
proof (cases "bufsize p = 0")
  case True
  then show ?thesis
    using assms by (auto simp: pack_finish_def Let_def pack_bytes_def well_framed_def pack_body_def
        split: if_splits option.split)
next
  case False
  then obtain b where b: "pk_buf p = Some b"
    using assms(1) by (cases "pk_buf p") (auto simp: pack_finish_def Let_def split: if_splits)
  show ?thesis
    using assms False by (auto simp: b pack_finish_def Let_def pack_bytes_def well_framed_def pack_body_def
        split: if_splits)
qed

lemma pack_image_Inr:
  assumes "pack_image p maxlen = Some (Inr img)" and "list_all (\<lambda>nv. fst nv \<noteq> []) (pairs p)"
  shows "img = pack_bytes p \<and> well_framed p
    \<and> int (SIZE_NUM + length (pack_head p)) + bufsize p + int (length BUF_EOF) \<le> maxlen"
proof -
  have f: "filter (\<lambda>nv. fst nv \<noteq> []) (pairs p) = pairs p" using assms(2) by (simp add: list_all_iff)
  obtain r where r: "ser_head maxlen (pairs p) [] = Some r"
    using assms(1) by (cases "ser_head maxlen (pairs p) []") (simp_all add: pack_image_def)
  obtain acc where acc: "r = Inr acc" using assms(1) r by (cases r) (simp_all add: pack_image_def)
  then have "acc @ CRLF = pack_head p"
    using ser_head_text[of maxlen "pairs p" "[]" acc] r f by (simp add: pack_head_def)
  then show ?thesis using assms(1) r acc by (intro pack_finish_Inr) (simp_all add: pack_image_def)
qed

lemma ser_head_Inl: "ser_head maxlen nvs acc = Some (Inl r) \<Longrightarrow> r = -1"
  by (induction maxlen nvs acc rule: ser_head.induct) (auto simp: Let_def split: if_splits)

lemma pack_image_Inl: "pack_image p maxlen = Some (Inl r) \<Longrightarrow> r = -1"
  by (auto simp: pack_image_def pack_finish_def Let_def dest: ser_head_Inl split: option.splits sum.splits if_splits)

lemma length_size_field: "length t < SIZE_NUM - 1 \<Longrightarrow> length (size_field t) = SIZE_NUM"
  by (simp add: size_field_def SIZE_NUM_def)

lemma length_pack_bytes:
  "well_framed p \<Longrightarrow> length (pack_bytes p) = SIZE_NUM + length (pack_head p) + nat (bufsize p) + length BUF_EOF"
  by (simp add: pack_bytes_def length_size_field well_framed_def)

definition sendable :: "ul_package_t \<Rightarrow> bool" where
  \<comment> \<open>a package that can be read back\<close>
  "sendable p \<longleftrightarrow> well_framed p \<and> length (pack_head p) < MAX_HEAD_SIZE
     \<and> list_all (\<lambda>(n, v). word_ok n \<and> text_ok v) (pairs p) \<and> length (pairs p) \<le> MAX_PACK_ITEM_NUM
     \<and> int (length (pack_bytes p)) < 2 ^ 31"

definition receivable :: "ul_package_t \<Rightarrow> ul_package_t \<Rightarrow> bool" where
  \<comment> \<open>\<open>q\<close> has room for what \<open>p\<close> holds\<close>
  "receivable p q \<longleftrightarrow> length (pk_name q) = MAX_PACK_ITEM_NUM \<and> length (pk_value q) = MAX_PACK_ITEM_NUM
     \<and> bufsize p \<le> bufsize q
     \<and> (case pk_buf q of None \<Rightarrow> False | Some d \<Rightarrow> bufsize p \<le> int (length d))"

definition received :: "ul_package_t \<Rightarrow> ul_package_t \<Rightarrow> ul_package_t" where
  "received p q =
     q\<lparr>pk_name := map fst (pairs p) @ drop (length (pairs p)) (pk_name q),
       pk_value := map snd (pairs p) @ drop (length (pairs p)) (pk_value q),
       pairnum := length (pairs p), bufsize := bufsize p,
       pk_buf := map_option (\<lambda>d. pack_body p @ drop (nat (bufsize p)) d) (pk_buf q)\<rparr>"

lemma received_same:
  assumes "receivable p q" and "length (pack_body p) = nat (bufsize p)" and "length (pairs p) \<le> MAX_PACK_ITEM_NUM"
  shows "pairs (received p q) = pairs p" and "pack_body (received p q) = pack_body p"
    and "bufsize (received p q) = bufsize p"
proof -
  show "pairs (received p q) = pairs p" using assms(1,3)
    unfolding pairs_zip[of "received p q"] by (simp add: received_def receivable_def zip_map_fst_snd)
  show "pack_body (received p q) = pack_body p" "bufsize (received p q) = bufsize p"
    using assms(1,2) by (auto simp: received_def pack_body_def[of "_\<lparr>pk_buf := _\<rparr>"] receivable_def split: option.splits)
qed

lemma head_line_no_nul: "word_ok n \<Longrightarrow> text_ok v \<Longrightarrow> NUL \<notin> set (head_line (n, v))"
  using word_ok_not_in(3)[of n] by (simp add: head_line_def text_ok_def cstr_ok_def)

lemma pack_head_no_nul:
  "list_all (\<lambda>(n, v). word_ok n \<and> text_ok v) (pairs p) \<Longrightarrow> takeWhile (\<lambda>c. c \<noteq> NUL) (pack_head p) = pack_head p"
proof -
  assume a: "list_all (\<lambda>(n, v). word_ok n \<and> text_ok v) (pairs p)"
  have "NUL \<notin> set (head_line nv)" if "nv \<in> set (pairs p)" for nv
    using that a head_line_no_nul[of "fst nv" "snd nv"] by (cases nv) (auto simp: list_all_iff)
  then have "\<forall>c \<in> set (pack_head p). c \<noteq> NUL" by (auto simp: pack_head_def)
  then show ?thesis by (simp add: takeWhile_eq_all_conv)
qed

lemma head_loop_received:
  assumes "sendable p" and "receivable p q"
  shows "head_loop 0 (pack_head p) tmp (pk_name q) (pk_value q) =
    Some (True, length (pairs p), pk_name (received p q), pk_value (received p q))"
  using head_loop_lines[of "pairs p" "[]" "[]" "pk_name q" "pk_value q" tmp] assms
  by (simp add: sendable_def receivable_def received_def pack_head_def)

lemma pack_bytes_parts:
  assumes "well_framed p"
  shows "take SIZE_NUM (pack_bytes p @ rest) = size_field (size_text (int (length (pack_head p))) (bufsize p))"
    and "take (length (pack_head p)) (drop SIZE_NUM (pack_bytes p @ rest)) = pack_head p"
    and "take (nat (bufsize p)) (drop (SIZE_NUM + length (pack_head p)) (pack_bytes p @ rest)) = pack_body p"
    and "take (length BUF_EOF) (drop (SIZE_NUM + length (pack_head p) + nat (bufsize p)) (pack_bytes p @ rest)) = BUF_EOF"
proof -
  let ?f = "size_field (size_text (int (length (pack_head p))) (bufsize p))"
  have f: "length ?f = SIZE_NUM" using assms by (simp add: well_framed_def length_size_field)
  have b: "length (pack_body p) = nat (bufsize p)" using assms by (simp add: well_framed_def)
  have e: "pack_bytes p @ rest = ?f @ pack_head p @ pack_body p @ BUF_EOF @ rest" by (simp add: pack_bytes_def)
  show "take SIZE_NUM (pack_bytes p @ rest) = ?f" unfolding e f[symmetric] by simp
  show "take (length (pack_head p)) (drop SIZE_NUM (pack_bytes p @ rest)) = pack_head p"
    unfolding e f[symmetric] by simp
  show "take (nat (bufsize p)) (drop (SIZE_NUM + length (pack_head p)) (pack_bytes p @ rest)) = pack_body p"
    unfolding e f[symmetric] b[symmetric] by simp
  show "take (length BUF_EOF) (drop (SIZE_NUM + length (pack_head p) + nat (bufsize p)) (pack_bytes p @ rest)) = BUF_EOF"
    unfolding e f[symmetric] b[symmetric] by simp
qed

lemma size_field_start: "strncmp_eq (size_field (size_text h b)) BUF_START (length BUF_START)"
  by (simp add: strncmp_eq_def size_field_def size_text_def)

lemma scan_sizes_bytes:
  assumes "sendable p"
  shows "scan_sizes (size_field (size_text (int (length (pack_head p))) (bufsize p)))
    = Some (''~BUF!'', int (length (pack_head p)), bufsize p)"
proof (rule scan_sizes_field)
  have l: "int (length (pack_bytes p)) < 2 ^ 31" and w: "well_framed p" using assms by (auto simp: sendable_def)
  from l have s: "int SIZE_NUM + int (length (pack_head p)) + int (nat (bufsize p)) + int (length BUF_EOF) < 2 ^ 31"
    by (simp add: length_pack_bytes[OF w])
  then show "int_ok (int (length (pack_head p)))" "int_ok (bufsize p)"
    using w by (auto simp: int_ok_def well_framed_def)
qed (use assms in \<open>auto simp: sendable_def well_framed_def\<close>)

lemma deserialization_bytes:
  assumes "sendable p" and "receivable p q" and "int (length (pack_bytes p)) \<le> m"
  shows "ul_pack_deserialization (Some (pack_bytes p @ rest)) m (Some q)
    = Some (int (length (pack_bytes p)), Some (received p q))"
proof -
  let ?h = "length (pack_head p)" and ?b = "nat (bufsize p)" and ?blk = "pack_bytes p @ rest"
  have w: "well_framed p" and hs: "?h < MAX_HEAD_SIZE" and l: "int (length (pack_bytes p)) < 2 ^ 31"
    and nv: "list_all (\<lambda>(n, v). word_ok n \<and> text_ok v) (pairs p)"
    using assms(1) by (auto simp: sendable_def)
  obtain d where d: "pk_buf q = Some d" "bufsize p \<le> int (length d)" "bufsize p \<le> bufsize q"
    using assms(2) by (auto simp: receivable_def split: option.splits)
  have b0: "0 \<le> bufsize p" using w by (simp add: well_framed_def)
  have len: "length (pack_bytes p) = SIZE_NUM + ?h + ?b + length BUF_EOF" by (rule length_pack_bytes[OF w])
  have total: "int SIZE_NUM + int ?h + bufsize p + int (length BUF_EOF) = int (length (pack_bytes p))"
    using b0 by (simp add: len)
  have pos: "0 < m" using assms(3) by (simp add: len SIZE_NUM_def split: if_splits)
  have ok: "int_ok (int SIZE_NUM + int ?h + bufsize p)" using l b0 total by (simp add: int_ok_def)
  have ps: "to_int32 (int SIZE_NUM + int ?h + bufsize p + int (length BUF_EOF)) = int (length (pack_bytes p))"
    unfolding total using l by (intro to_int32_id) simp_all
  have q1: "head_loop 0 (pack_head p) tmp (pk_name q) (pk_value q)
      = Some (True, length (pairs p), pk_name (received p q), pk_value (received p q))" for tmp
    by (rule head_loop_received[OF assms(1,2)])
  have blk: "\<not> length ?blk < SIZE_NUM" "\<not> length ?blk < SIZE_NUM + ?h + ?b + length BUF_EOF" by (simp_all add: len)
  have dl: "\<not> length d < ?b" using d(2) by linarith
  have eof: "strncmp_eq BUF_EOF BUF_EOF (length BUF_EOF)" by (simp add: strncmp_eq_def)
  have nh: "nat (int ?h) = ?h" "\<not> int MAX_HEAD_SIZE \<le> int ?h" using hs by simp_all
  show ?thesis
    using pos blk d dl b0 nh assms(3)
    by (simp add: ul_pack_deserialization_def Let_def pack_bytes_parts[OF w] size_field_start eof
        scan_sizes_bytes[OF assms(1)] ok ps q1 pack_head_no_nul[OF nv] received_def
        del: take_append drop_append length_append)
qed

lemma ser_head_fits:
  "\<lbrakk>list_all (\<lambda>nv. fst nv \<noteq> []) nvs; length (acc @ concat (map head_line nvs)) \<le> MAX_HEAD_SIZE;
    int (SIZE_NUM + MAX_HEAD_SIZE) < maxlen\<rbrakk>
   \<Longrightarrow> ser_head maxlen nvs acc = Some (Inr (acc @ concat (map head_line nvs)))"
proof (induction nvs arbitrary: acc)
  case (Cons nv nvs)
  then have "ser_head maxlen nvs (acc @ head_line nv) = Some (Inr ((acc @ head_line nv) @ concat (map head_line nvs)))"
    by (intro Cons.IH) simp_all
  then show ?case using Cons.prems by (simp add: Let_def)
qed simp

lemma pack_image_sendable:
  assumes "sendable p" and "bufsize p < 2 ^ 31 - int (SIZE_NUM + MAX_HEAD_SIZE + 20)"
  shows "pack_image p (pack_maxlen p) = Some (Inr (pack_bytes p))"
proof -
  have w: "well_framed p" and ne: "list_all (\<lambda>nv. fst nv \<noteq> []) (pairs p)"
    using assms(1) by (auto simp: sendable_def list_all_iff word_ok_def)
  have b: "0 \<le> bufsize p" "length (pack_body p) = nat (bufsize p)" "length (pack_head p) \<le> MAX_HEAD_SIZE"
    and z: "length (size_text (int (length (pack_head p))) (bufsize p)) < SIZE_NUM - 1"
    using w by (auto simp: well_framed_def)
  have m: "pack_maxlen p = int (SIZE_NUM + MAX_HEAD_SIZE) + bufsize p + 20"
    unfolding pack_maxlen_def using b(1) assms(2) by (intro to_int32_id) simp_all
  define acc where "acc = concat (map head_line (pairs p))"
  have h: "pack_head p = acc @ CRLF" by (simp add: pack_head_def acc_def)
  have "ser_head (pack_maxlen p) (pairs p) [] = Some (Inr acc)"
    using ser_head_fits[OF ne, of "[]" "pack_maxlen p"] b m h by (simp add: acc_def)
  moreover have "pack_finish p (pack_maxlen p) acc = Some (Inr (pack_bytes p))"
  proof -
    have r: "\<not> pack_maxlen p - int (SIZE_NUM + length acc) < 0"
      "\<not> pack_maxlen p < int (SIZE_NUM + length (pack_head p)) + bufsize p + int (length BUF_EOF)"
      using b m h by (simp_all add: BUF_EOF_def)
    have z': "\<not> SIZE_NUM \<le> length (size_text (int (length (pack_head p))) (bufsize p))" using z by linarith
    have c: "\<not> SIZE_NUM + MAX_HEAD_SIZE < SIZE_NUM + length (pack_head p)" "\<not> MAX_HEAD_SIZE < length (pack_head p)"
      using b(3) by simp_all
    show ?thesis
    proof (cases "bufsize p = 0")
      case True
      then have "pack_body p = []" using b(2) by simp
      then show ?thesis using r c z z' True by (simp add: pack_finish_def Let_def pack_bytes_def flip: h)
    next
      case False
      with b(1,2) obtain d where d: "pk_buf p = Some d" by (cases "pk_buf p") (simp_all add: pack_body_def)
      then have t: "pack_body p = take (nat (bufsize p)) d" "\<not> int (length d) < bufsize p"
        using b(1,2) by (auto simp: pack_body_def)
      show ?thesis using r c z z' t False b(1) by (simp add: pack_finish_def Let_def pack_bytes_def d flip: h)
    qed
  qed
  ultimately show ?thesis by (simp add: pack_image_def)
qed

lemma serialization_bytes:
  assumes "sendable p" and "bufsize p < 2 ^ 31 - int (SIZE_NUM + MAX_HEAD_SIZE + 20)"
    and "malloc_ok (pack_maxlen p)" and "int (length (pack_bytes p)) < siz" and "siz \<le> int (length blk)"
  shows "ul_pack_serialization malloc_ok (Some blk) siz (Some p) =
    Some (int (length (pack_bytes p)), Some (pack_bytes p @ drop (length (pack_bytes p)) blk))"
proof -
  have "0 < siz" "\<not> length blk < length (pack_bytes p)" using assms(4,5) by linarith+
  then show ?thesis
    using assms(3,4) pack_image_sendable[OF assms(1,2)] by (simp add: ul_pack_serialization_def)
qed

definition sample_pack :: ul_package_t where
  "sample_pack = \<lparr>pk_name = ''k'' # replicate 199 [], pk_value = ''v w'' # replicate 199 [], pairnum = 1,
     bufsize = 2, pk_buf = Some ''ab''\<rparr>"

definition empty_pack :: ul_package_t where
  "empty_pack = \<lparr>pk_name = replicate 200 [], pk_value = replicate 200 [], pairnum = 0,
     bufsize = 4, pk_buf = Some ''----''\<rparr>"

lemma sample_pack_facts:
  "pack_inv sample_pack" "receivable sample_pack empty_pack"
  "list_all (\<lambda>(n, v). word_ok n \<and> text_ok v) (pairs sample_pack)"
  "length (pack_head sample_pack) < MAX_HEAD_SIZE" "well_framed sample_pack"
  "length (pack_bytes sample_pack) = 38" "bufsize sample_pack = 2" "pack_body sample_pack = ''ab''"
  "pairs sample_pack = [(''k'', ''v w'')]"
proof -
  show "pack_inv sample_pack" by code_simp
  show "receivable sample_pack empty_pack" by code_simp
  show "list_all (\<lambda>(n, v). word_ok n \<and> text_ok v) (pairs sample_pack)" by code_simp
  have h: "length (pack_head sample_pack) = 11" by code_simp
  then show "length (pack_head sample_pack) < MAX_HEAD_SIZE" by (simp add: MAX_HEAD_SIZE_def)
  have sz: "length (size_text 11 2) = 10" by code_simp
  show b: "bufsize sample_pack = 2" by code_simp
  show c: "pack_body sample_pack = ''ab''" by code_simp
  show "well_framed sample_pack"
    by (simp add: well_framed_def h b c sz MAX_HEAD_SIZE_def SIZE_NUM_def)
  show "length (pack_bytes sample_pack) = 38" by code_simp
  show "pairs sample_pack = [(''k'', ''v w'')]" by code_simp
qed

lemma sample_pack_sendable: "sendable sample_pack"
  using sample_pack_facts by (simp add: sendable_def MAX_PACK_ITEM_NUM_def)

lemma sample_pack_written:
  "ul_pack_serialization (\<lambda>_. True) (Some (replicate 60 CHR ''.'')) 60 (Some sample_pack) =
    Some (38, Some (pack_bytes sample_pack @ replicate 22 CHR ''.''))"
  using serialization_bytes[OF sample_pack_sendable, of "\<lambda>_. True" 60 "replicate 60 CHR ''.''"] sample_pack_facts
  by (simp add: SIZE_NUM_def MAX_HEAD_SIZE_def)

text \<open>C10: a package that \<open>ul_pack_serialization\<close> writes to memory is read back by \<open>ul_pack_deserialization\<close>: when
  its names are words, its values hold no line end, its head stays below \<open>MAX_HEAD_SIZE\<close> and the receiving
  package has room, both functions return the same length, and the receiver has the sender's pairs in their
  order, its buffer size and its buffer contents.\<close>

theorem serialization_roundtrip:
  assumes "pack_inv p" and "list_all (\<lambda>(n, v). word_ok n \<and> text_ok v) (pairs p)"
    and "length (pack_head p) < MAX_HEAD_SIZE" and "receivable p q"
    and "ul_pack_serialization malloc_ok (Some blk) siz (Some p) = Some (n, Some out)" and "0 \<le> n"
  shows "\<exists>q'. ul_pack_deserialization (Some out) n (Some q) = Some (n, Some q')
    \<and> pairs q' = pairs p \<and> bufsize q' = bufsize p \<and> pack_body q' = pack_body p"
proof -
  let ?m = "pack_maxlen p"
  obtain img where img: "pack_image p ?m = Some (Inr img)" "n = int (length img)" "out = img @ drop (length img) blk"
    using assms(5,6)
    by (auto simp: ul_pack_serialization_def dest: pack_image_Inl split: if_splits option.splits sum.splits)
  have ne: "list_all (\<lambda>nv. fst nv \<noteq> []) (pairs p)"
    using assms(2) by (auto simp: list_all_iff word_ok_def)
  note fin = pack_image_Inr[OF img(1) ne]
  have "int (length (pack_bytes p)) \<le> ?m" using fin by (auto simp: length_pack_bytes well_framed_def)
  moreover have "?m < 2 ^ 31" by (simp add: pack_maxlen_def to_int32_def)
  moreover have np: "length (pairs p) \<le> MAX_PACK_ITEM_NUM" using assms(1) by (simp add: pack_inv_def pairs_def)
  ultimately have s: "sendable p" using assms(2,3) fin by (simp add: sendable_def)
  have "ul_pack_deserialization (Some out) n (Some q) = Some (n, Some (received p q))"
    using deserialization_bytes[OF s assms(4), of n "drop (length img) blk"] img fin by simp
  moreover have "length (pack_body p) = nat (bufsize p)" using fin by (simp add: well_framed_def)
  ultimately show ?thesis using received_same[OF assms(4) _ np] by simp
qed

theorem serialization_roundtrip_witness:
  "\<exists>out. ul_pack_serialization (\<lambda>_. True) (Some (replicate 60 CHR ''.'')) 60 (Some sample_pack) = Some (38, Some out)
     \<and> (\<exists>q'. ul_pack_deserialization (Some out) 38 (Some empty_pack) = Some (38, Some q')
          \<and> pairs q' = [(''k'', ''v w'')] \<and> bufsize q' = 2 \<and> pack_body q' = ''ab'')"
  using serialization_roundtrip[OF sample_pack_facts(1,3,4,2) sample_pack_written] sample_pack_written
    sample_pack_facts by auto

text \<open>\<open>ul_pack_serialization\<close> returns a package that can be read back whenever the allocation succeeds, no
  size overflows an \<open>int\<close> and the destination is longer than the package: it writes the size field, the head, the
  buffer and the end mark, leaves the rest of the destination and returns the number of bytes written.\<close>

theorem serialization_succeeds:
  assumes "sendable p" and "bufsize p < 2 ^ 31 - int (SIZE_NUM + MAX_HEAD_SIZE + 20)"
    and "malloc_ok (pack_maxlen p)" and "int (length (pack_bytes p)) < siz" and "siz \<le> int (length blk)"
  shows "ul_pack_serialization malloc_ok (Some blk) siz (Some p) =
    Some (int (length (pack_bytes p)), Some (pack_bytes p @ drop (length (pack_bytes p)) blk))"
  using assms by (rule serialization_bytes)

theorem serialization_succeeds_witness:
  "ul_pack_serialization (\<lambda>_. True) (Some (replicate 60 CHR ''.'')) 60 (Some sample_pack) =
    Some (38, Some (pack_bytes sample_pack @ replicate 22 CHR ''.''))"
  using serialization_succeeds[OF sample_pack_sendable, of "\<lambda>_. True" 60 "replicate 60 CHR ''.''"] sample_pack_facts
  by (simp add: SIZE_NUM_def MAX_HEAD_SIZE_def)

text \<open>A name with a space in it, which \<open>ul_pack_putvalue\<close> accepts, does not come back: the pair is dropped, and
  when the second word of the name has ten characters or more it overruns \<open>tmp\<close>.\<close>

lemma name_with_space_lost:
  "item_ok ''a b'' \<and> head_loop 0 (head_line (''a b'', ''v'') @ CRLF) ''~BUF!'' [''''] [''''] = Some (True, 0, [''a''], [''v''])"
  by code_simp

lemma name_with_space_overrun:
  "item_ok ''a 0123456789'' \<and> head_loop 0 (head_line (''a 0123456789'', ''v'') @ CRLF) ''~BUF!'' [''''] [''''] = None"
  by code_simp

end
