(* ===== verification/Ul_Com_Names.thy ===== *)
theory Ul_Com_Names
  imports Ul_Pack "HOL-Library.Word"
begin

text \<open>
  The registry of names of the log library: the hash table of \<^verbatim>\<open>ullib/include/comlog/xhash.h\<close>, the signature of a name in
  \<^verbatim>\<open>ullib/src/comlog/xutils.cpp\<close>, and the class \<open>NameMg\<close> of \<^verbatim>\<open>namemg.cpp\<close>, which finds appenders, categories and others by the
  signature of their name alone.

  A bucket is the list of its nodes. The table is not created while it has no buckets. Whether a new block of nodes can
  be allocated is an argument. A pointer that is stored under a name is a number. The locks are left out.
\<close>

section \<open>The hash table\<close>

definition HASH_VAL_EXIST :: int where "HASH_VAL_EXIST = 1"
definition HASH_VAL_NO_EXIST :: int where "HASH_VAL_NO_EXIST = 2"
definition HASH_ACLLOMEM_ERROR :: int where "HASH_ACLLOMEM_ERROR = 3"
definition BLOCK_SIZE :: nat where "BLOCK_SIZE = 1024"

lemmas hash_consts = HASH_VAL_EXIST_def HASH_VAL_NO_EXIST_def HASH_ACLLOMEM_ERROR_def

record ('k, 'v) hash_map =
  m_fcn :: "'k \<Rightarrow> nat"
  m_bucket :: "('k \<times> 'v) list list"
  m_node_num :: nat
  m_free_num :: nat

definition hash_create :: "int \<Rightarrow> ('k \<Rightarrow> nat) \<Rightarrow> bool \<Rightarrow> ('k, 'v) hash_map \<Rightarrow> int \<times> ('k, 'v) hash_map" where
  \<comment> \<open>\<open>mem\<close>: both allocations succeed; what was there before is cleared unless \<open>hn\<close> is refused\<close>
  "hash_create hn fcn mem h =
     (if hn \<le> 0 then (-1, h)
      else if \<not> mem then (-1, \<lparr>m_fcn = fcn, m_bucket = [], m_node_num = 0, m_free_num = 0\<rparr>)
      else (0, \<lparr>m_fcn = fcn, m_bucket = replicate (nat hn) [], m_node_num = 0, m_free_num = BLOCK_SIZE\<rparr>))"

definition getHashKey :: "('k, 'v) hash_map \<Rightarrow> 'k \<Rightarrow> nat" where
  "getHashKey h k = m_fcn h k mod length (m_bucket h)"

fun chain_get :: "'k \<Rightarrow> ('k \<times> 'v) list \<Rightarrow> 'v option" where
  "chain_get k [] = None"
| "chain_get k (n # ns) = (if fst n = k then Some (snd n) else chain_get k ns)"

definition hash_get :: "('k, 'v) hash_map \<Rightarrow> 'k \<Rightarrow> int \<times> 'v option" where
  "hash_get h k =
     (if m_bucket h = [] then (-1, None)
      else case chain_get k (m_bucket h ! getHashKey h k) of
        Some v \<Rightarrow> (0, Some v)
      | None \<Rightarrow> (HASH_VAL_NO_EXIST, None))"

definition getNodeSpace :: "bool \<Rightarrow> ('k, 'v) hash_map \<Rightarrow> ('k, 'v) hash_map option" where
  "getNodeSpace mem h =
     (if m_free_num h = 0 then (if mem then Some (h\<lparr>m_free_num := BLOCK_SIZE - 1\<rparr>) else None)
      else Some (h\<lparr>m_free_num := m_free_num h - 1\<rparr>))"

fun chain_replace :: "'k \<Rightarrow> 'v \<Rightarrow> ('k \<times> 'v) list \<Rightarrow> ('k \<times> 'v) list" where
  "chain_replace k v [] = []"
| "chain_replace k v (n # ns) = (if fst n = k then (fst n, v) # ns else n # chain_replace k v ns)"

definition hash_set :: "bool \<Rightarrow> ('k, 'v) hash_map \<Rightarrow> 'k \<Rightarrow> 'v \<Rightarrow> bool \<Rightarrow> int \<times> ('k, 'v) hash_map" where
  \<comment> \<open>\<open>flag\<close>: a value that is there is replaced\<close>
  "hash_set mem h k v flag =
     (if m_bucket h = [] then (-1, h)
      else let key = getHashKey h k; ns = m_bucket h ! key in
        if chain_get k ns \<noteq> None then
          (if flag then (0, h\<lparr>m_bucket := (m_bucket h)[key := chain_replace k v ns]\<rparr>) else (HASH_VAL_EXIST, h))
        else case getNodeSpace mem h of
          None \<Rightarrow> (HASH_ACLLOMEM_ERROR, h)
        | Some h1 \<Rightarrow> (0, h1\<lparr>m_bucket := (m_bucket h)[key := ns @ [(k, v)]], m_node_num := m_node_num h + 1\<rparr>))"

fun chain_erase :: "'k \<Rightarrow> ('k \<times> 'v) list \<Rightarrow> ('k \<times> 'v) list" where
  "chain_erase k [] = []"
| "chain_erase k (n # ns) = (if fst n = k then ns else n # chain_erase k ns)"

definition hash_erase :: "('k, 'v) hash_map \<Rightarrow> 'k \<Rightarrow> int \<times> ('k, 'v) hash_map" where
  "hash_erase h k =
     (if m_bucket h = [] then (-1, h)
      else let key = getHashKey h k; ns = m_bucket h ! key in
        if chain_get k ns = None then (HASH_VAL_NO_EXIST, h)
        else (0, h\<lparr>m_bucket := (m_bucket h)[key := chain_erase k ns], m_node_num := m_node_num h - 1\<rparr>))"

definition hash_list :: "('v \<Rightarrow> 's \<Rightarrow> 's) \<Rightarrow> ('k, 'v) hash_map \<Rightarrow> 's \<Rightarrow> 's" where
  \<comment> \<open>\<open>list\<close>: the function on every value, bucket by bucket\<close>
  "hash_list f h s = fold f (map snd (concat (m_bucket h))) s"

definition hash_clear :: "('k, 'v) hash_map \<Rightarrow> ('k, 'v) hash_map" where
  "hash_clear h = h\<lparr>m_bucket := [], m_node_num := 0, m_free_num := 0\<rparr>"

section \<open>The signature of a name\<close>

definition x_Mod_Prime_List_1 :: "nat list" where
  "x_Mod_Prime_List_1 = [
    256, 65536, 3, 768, 196608, 9, 2304, 589824, 27, 6912, 1769472, 81, 20736, 5308416, 243, 62208, 15925248, 729, 186624,
    14221318, 2187, 559872, 9109528, 6561, 1679616, 10551371, 19683, 5038848, 14876900, 59049, 15116544, 11076274, 177147,
    11795206, 16451609, 531441, 1831192, 15800401, 1594323, 5493576, 13846777, 4782969, 16480728, 7985905, 14348907, 15887758,
    7180502, 9492295, 14108848, 4764293, 11699672, 8772118, 14292879, 1544590, 9539141, 9324211, 4633770, 11840210, 11195420,
    13901310, 1966204, 31834, 8149504, 5898612, 95502, 7671299, 918623, 286506, 6236684, 2755869, 859518, 1932839, 8267607,
    2578554, 5798517, 8025608, 7735662, 618338, 7299611, 6429773, 1855014, 5121620, 2512106, 5565042, 15364860, 7536318, 16695126,
    12540154, 5831741, 16530952, 4066036, 718010, 16038430, 12198108, 2154030, 14560864, 3039898, 6462090, 10128166, 9119694,
    2609057, 13607285, 10581869, 7827171, 7267429, 14968394, 6704300, 5025074, 11350756, 3335687, 15075222, 497842, 10007061,
    11671240, 1493526, 13243970, 1459294, 4480578, 6177484, 4377882, 13441734, 1755239, 13133646, 6770776, 5265717, 5846512,
    3535115, 15797151, 762323, 10605345, 13837027, 2286969, 15038822, 7956655, 6860907, 11562040, 7092752, 3805508, 1131694,
    4501043, 11416524, 3395082, 13503129, 695146, 10185246, 6954961, 2085438, 13778525, 4087670, 6256314, 7781149, 12263010,
    1991729, 6566234, 3234604, 5975187, 2921489, 9703812, 1148348, 8764467, 12334223, 3445044, 9516188, 3448243, 10335132,
    11771351, 10344729, 14228183, 1759627, 14256974, 9130123, 5278881, 9216496, 10613156, 15836643, 10872275, 15062255, 13955503,
    15839612, 11632339, 8312083, 13964410, 1342591, 8159036, 8338804, 4027773, 7699895, 8239199, 12083319, 6322472, 7940384,
    2695531, 2190203, 7043939, 8086593, 6570609, 4354604, 7482566, 2934614, 13063812, 5670485, 8803842, 5637010, 234242, 9634313,
    133817, 702726, 12125726, 401451, 2108178, 2822752, 1204353, 6324534, 8468256, 3613059, 2196389, 8627555, 10839177, 6589167,
    9105452, 15740318, 2990288, 10539143, 13666528, 8970864, 14840216, 7445158, 10135379, 10966222, 5558261, 13628924, 16121453,
    16674783, 7332346, 14809933, 16469923, 5219825, 10875373, 15855343, 15659475, 15848906, 14011603, 13423999, 13992292, 8480383,
    6717571, 8422450, 8663936, 3375500, 8490137, 9214595, 10126500, 8693198, 10866572, 13602287, 9302381]"

definition x_Mod_Prime_List_2 :: "nat list" where
  "x_Mod_Prime_List_2 = [
    15824477, 7761153, 7145686, 580925, 14499208, 4036269, 9875725, 11605750, 1507777, 115335, 12748561, 8855010, 1960695,
    15399149, 16317578, 16554616, 10127548, 8963642, 12993288, 4396326, 1387123, 2782309, 7628746, 6803892, 13744855, 12248289,
    15002970, 15558948, 6894525, 3392505, 12844131, 16543731, 7340988, 246640, 12808243, 7356403, 4192880, 16413743, 7618458,
    4170164, 10598447, 12073393, 3783992, 12401609, 3921293, 13996267, 9500965, 16330384, 3055753, 10521614, 9181344, 1616204,
    11095448, 5088057, 10698269, 4073427, 2610974, 14098583, 2139463, 10832160, 4795125, 2816473, 16374730, 14408329, 14325643,
    9935226, 10060807, 8655145, 1126852, 3261729, 12919873, 2379285, 5117796, 1534254, 6893447, 3116537, 9305119, 16525405,
    2649532, 7192232, 12496701, 11487646, 4827551, 11117529, 10740793, 14959571, 4448804, 14821491, 2654722, 8520872, 307362,
    11575876, 10637232, 5225154, 12240703, 13060954, 4941623, 6765563, 3932631, 121596, 14351377, 16523130, 2067132, 9092623,
    12458026, 1586846, 3579800, 10460054, 10199183, 10525003, 10048928, 5614121, 11153061, 3059786, 11554062, 5052848, 1684765,
    11869865, 2012421, 11863806, 461317, 656759, 358314, 7842389, 11164903, 6091338, 15880220, 5254162, 2889552, 1528556, 5434759,
    15567986, 9208253, 8504908, 12997777, 5545510, 10365844, 2858622, 10387675, 8447358, 15042176, 8818485, 9387494, 4059007,
    15696653, 8592607, 1894323, 15185116, 11856727, 15426292, 6488987, 237971, 10588979, 9649585, 4045507, 12240653, 13048154,
    1664823, 6764713, 3715031, 11524792, 14336927, 12823930, 11372275, 8846973, 16680422, 8779486, 16180949, 15131990, 15033670,
    6640949, 5585845, 3914405, 12232939, 11073370, 16213288, 6633575, 3698101, 7190712, 12107581, 12536120, 4801711, 4502489,
    11787652, 14520291, 9433517, 15840895, 11964161, 9374998, 860031, 2064349, 8380175, 14620527, 1539535, 8245383, 13668173,
    9394896, 5953919, 14255354, 8718441, 553429, 7460232, 13995905, 9408293, 9383551, 3049599, 8946190, 8525576, 1511586, 1090439,
    10717200, 8919763, 1760264, 14420410, 641180, 13147289, 10266184, 10900060, 5400326, 6753138, 751831, 7919547, 14140152,
    12781127, 414707, 5501798, 15952771, 7050019, 9644571, 2761923, 2409930, 12962916, 13398293, 7414412, 2265985, 9667394,
    8604611, 4967347, 13350907, 12060795, 558904, 8861832, 3707127, 9501368, 16433552, 12689562, 10528465, 10935200, 14396166,
    11211915, 1349211, 9854036, 6053366, 6159388, 16523821, 2244028]"

fun sign_loop :: "nat list \<Rightarrow> nat \<Rightarrow> 32 word \<Rightarrow> cstr \<Rightarrow> 32 word" where
  "sign_loop t i itemp [] = itemp"
| "sign_loop t i itemp (c # s) = sign_loop t (Suc i) (of_char c * of_nat (t ! (i mod 256)) + itemp) s"

definition x_getsign_24_1 :: "cstr \<Rightarrow> 32 word" where
  "x_getsign_24_1 s = sign_loop x_Mod_Prime_List_1 0 0 s"

definition x_getsign_24_2 :: "cstr \<Rightarrow> 32 word" where
  "x_getsign_24_2 s = sign_loop x_Mod_Prime_List_2 0 0 s"

definition sign_bytes :: "cstr \<Rightarrow> 32 word" where
  \<comment> \<open>\<open>memcpy\<close> of up to four bytes to a number that is 0, least significant byte first\<close>
  "sign_bytes s = fold (\<lambda>c w. w * 256 + of_char c) (rev s) 0"

definition x_creat_sign_f64 :: "cstr \<Rightarrow> 32 word \<times> 32 word" where
  "x_creat_sign_f64 s =
     (if length s \<le> 4 then (sign_bytes s, 0)
      else if length s \<le> 8 then (sign_bytes (take 4 s), sign_bytes (drop 4 s))
      else (x_getsign_24_1 s, x_getsign_24_2 s))"

section \<open>The registry\<close>

type_synonym sign = "32 word \<times> 32 word"
type_synonym registry = "(sign, int \<times> nat) hash_map"

definition type_category :: int where "type_category = 1"
definition type_appender :: int where "type_appender = 2"

definition getKey :: "int \<Rightarrow> cstr \<Rightarrow> sign" where
  "getKey tag name = x_creat_sign_f64 (snprintf_buf 2048 (dec_int tag @ '':'' @ name))"

definition nkeyhash :: "sign \<Rightarrow> nat" where
  "nkeyhash key = unat (fst key + snd key)"

definition names_create :: "bool \<Rightarrow> registry \<Rightarrow> int \<times> registry" where
  "names_create mem reg = hash_create 10241 nkeyhash mem reg"

definition names_get :: "registry \<Rightarrow> int \<Rightarrow> cstr \<Rightarrow> nat option" where
  \<comment> \<open>\<open>None\<close> is the null pointer\<close>
  "names_get reg tag name =
     (case hash_get reg (getKey tag name) of (r, node) \<Rightarrow> if r \<noteq> 0 then None else map_option snd node)"

definition names_set :: "bool \<Rightarrow> registry \<Rightarrow> int \<Rightarrow> cstr \<Rightarrow> nat \<Rightarrow> int \<times> registry" where
  "names_set mem reg tag name val = hash_set mem reg (getKey tag name) (tag, val) False"

definition names_destroy :: "registry \<Rightarrow> nat list \<times> registry" where
  \<comment> \<open>the pointers in the order in which they are deleted, the servers first; 4 is \<open>type_sendsvr\<close>, other types stay\<close>
  "names_destroy reg =
     (let servers = hash_list (\<lambda>(t, p) ps. if t = 4 then ps @ [p] else ps) reg [];
          all = hash_list (\<lambda>(t, p) ps. if t \<in> {1, 2, 3, 5} then ps @ [p] else ps) reg servers
      in (all, hash_clear reg))"

section \<open>The table as a map\<close>

definition hash_content :: "('k, 'v) hash_map \<Rightarrow> 'k \<rightharpoonup> 'v" where
  "hash_content h k = chain_get k (m_bucket h ! getHashKey h k)"

definition hash_inv :: "('k, 'v) hash_map \<Rightarrow> bool" where
  "hash_inv h \<longleftrightarrow> m_bucket h \<noteq> [] \<and> m_node_num h = length (concat (m_bucket h))
     \<and> (\<forall>i < length (m_bucket h). distinct (map fst (m_bucket h ! i)) \<and> (\<forall>k \<in> fst ` set (m_bucket h ! i). getHashKey h k = i))"

lemma chain_get_None: "chain_get k ns = None \<longleftrightarrow> k \<notin> fst ` set ns"
  by (induction ns) auto

lemma chain_get_append: "chain_get k (xs @ ys) = (case chain_get k xs of None \<Rightarrow> chain_get k ys | r \<Rightarrow> r)"
  by (induction xs) auto

lemma chain_get_replace: "chain_get k' (chain_replace k v ns) = (if k' = k \<and> chain_get k ns \<noteq> None then Some v else chain_get k' ns)"
  by (induction ns) auto

lemma chain_replace_keys [simp]: "map fst (chain_replace k v ns) = map fst ns" "length (chain_replace k v ns) = length ns"
  by (induction ns) auto

lemma chain_erase_set: "set (chain_erase k ns) \<subseteq> set ns"
  by (induction ns) auto

lemma chain_get_erase: "distinct (map fst ns) \<Longrightarrow> chain_get k' (chain_erase k ns) = (if k' = k then None else chain_get k' ns)"
proof (induction ns)
  case (Cons n ns)
  then show ?case using chain_get_None[of k ns] by auto
qed simp

lemma chain_erase_distinct: "distinct (map fst ns) \<Longrightarrow> distinct (map fst (chain_erase k ns))"
proof (induction ns)
  case (Cons n ns)
  then show ?case using chain_erase_set[of k ns] by auto
qed simp

lemma chain_erase_length: "chain_get k ns \<noteq> None \<Longrightarrow> Suc (length (chain_erase k ns)) = length ns"
  by (induction ns) auto

lemma key_in_range: "m_bucket h \<noteq> [] \<Longrightarrow> getHashKey h k < length (m_bucket h)"
  by (simp add: getHashKey_def)

lemma concat_length_update:
  "i < length bs \<Longrightarrow> length (concat (bs[i := ns])) + length (bs ! i) = length (concat bs) + length ns"
proof (induction bs arbitrary: i)
  case (Cons b bs)
  then show ?case by (cases i) auto
qed simp

lemma hash_update:
  assumes "hash_inv h" and "h' = h\<lparr>m_bucket := (m_bucket h)[getHashKey h k := ns], m_node_num := n, m_free_num := fr\<rparr>"
    and "distinct (map fst ns)" and "\<forall>x \<in> fst ` set ns. x = k \<or> x \<in> fst ` set (m_bucket h ! getHashKey h k)"
    and "n + length (m_bucket h ! getHashKey h k) = m_node_num h + length ns"
    and "\<And>k'. chain_get k' ns = (if k' = k then r else chain_get k' (m_bucket h ! getHashKey h k))"
  shows "hash_inv h' \<and> hash_content h' = (hash_content h)(k := r)"
proof
  let ?i = "getHashKey h k"
  have i: "?i < length (m_bucket h)" using assms(1) key_in_range[of h k] by (simp add: hash_inv_def)
  have key: "getHashKey h' x = getHashKey h x" for x by (simp add: getHashKey_def assms(2))
  have "m_node_num h' = length (concat (m_bucket h'))"
    using assms(1,5) concat_length_update[OF i, of ns] by (simp add: hash_inv_def) (simp add: assms(2))
  moreover have "distinct (map fst (m_bucket h' ! j)) \<and> (\<forall>x \<in> fst ` set (m_bucket h' ! j). getHashKey h' x = j)"
    if "j < length (m_bucket h')" for j
  proof (cases "j = ?i")
    case True
    then have "m_bucket h' ! j = ns" using i by (simp add: assms(2))
    moreover have "getHashKey h x = j" if x: "x \<in> fst ` set ns" for x
    proof -
      consider "x = k" | "x \<in> fst ` set (m_bucket h ! ?i)" using assms(4) x by blast
      then show ?thesis using assms(1) i True by cases (simp, fastforce simp: hash_inv_def)
    qed
    ultimately show ?thesis using assms(3) by (simp add: key)
  next
    case False
    then have "m_bucket h' ! j = m_bucket h ! j" by (simp add: assms(2))
    moreover have "j < length (m_bucket h)" using that by (simp add: assms(2))
    ultimately show ?thesis using assms(1) by (simp add: hash_inv_def key)
  qed
  ultimately show "hash_inv h'" using i by (simp add: hash_inv_def) (auto simp: assms(2))
  show "hash_content h' = (hash_content h)(k := r)"
  proof
    fix k'
    show "hash_content h' k' = ((hash_content h)(k := r)) k'"
    proof (cases "getHashKey h k' = ?i")
      case True
      have "m_bucket h' ! ?i = ns" using i by (simp add: assms(2))
      then show ?thesis using assms(6)[of k'] assms(6)[of k] True by (auto simp: hash_content_def key)
    next
      case False
      then show ?thesis using i by (auto simp: hash_content_def key) (auto simp: assms(2))
    qed
  qed
qed

lemma hash_create_inv: "hash_create hn fcn True h = (0, h') \<Longrightarrow> hash_inv h' \<and> hash_content h' = Map.empty"
  by (auto simp: hash_create_def hash_inv_def hash_content_def getHashKey_def fun_eq_iff split: if_splits)

lemma hash_get_content: "hash_inv h \<Longrightarrow> hash_get h k = (case hash_content h k of None \<Rightarrow> (HASH_VAL_NO_EXIST, None) | Some v \<Rightarrow> (0, Some v))"
  by (simp add: hash_get_def hash_content_def hash_inv_def)

lemma hash_set_spec:
  assumes "hash_inv h" and "hash_set mem h k v flag = (r, h')"
  shows "if hash_content h k \<noteq> None \<and> \<not> flag then r = HASH_VAL_EXIST \<and> h' = h
    else if hash_content h k = None \<and> m_free_num h = 0 \<and> \<not> mem then r = HASH_ACLLOMEM_ERROR \<and> h' = h
    else r = 0 \<and> hash_inv h' \<and> hash_content h' = (hash_content h)(k \<mapsto> v)"
proof -
  let ?ns = "m_bucket h ! getHashKey h k"
  have ne: "m_bucket h \<noteq> []" and i: "getHashKey h k < length (m_bucket h)" using assms(1) key_in_range[of h k] by (simp_all add: hash_inv_def)
  have d: "distinct (map fst ?ns)" using assms(1) i by (simp add: hash_inv_def)
  show ?thesis
  proof (cases "chain_get k ?ns")
    case (Some w)
    show ?thesis
    proof (cases flag)
      case True
      let ?h = "h\<lparr>m_bucket := (m_bucket h)[getHashKey h k := chain_replace k v ?ns], m_node_num := m_node_num h, m_free_num := m_free_num h\<rparr>"
      have ks: "fst ` set (chain_replace k v ?ns) = fst ` set ?ns" by (metis chain_replace_keys(1) image_set)
      have "hash_inv ?h \<and> hash_content ?h = (hash_content h)(k \<mapsto> v)"
        by (rule hash_update[OF assms(1) refl]) (use d Some ks in \<open>auto simp: chain_get_replace\<close>)
      then show ?thesis using assms(2) Some True ne by (auto simp: hash_set_def hash_content_def Let_def)
    next
      case False
      then show ?thesis using assms(2) Some ne by (auto simp: hash_set_def hash_content_def Let_def)
    qed
  next
    case None
    then have new: "k \<notin> fst ` set ?ns" by (simp add: chain_get_None)
    have up: "hash_inv g \<and> hash_content g = (hash_content h)(k \<mapsto> v)"
      if "g = h\<lparr>m_bucket := (m_bucket h)[getHashKey h k := ?ns @ [(k, v)]], m_node_num := m_node_num h + 1, m_free_num := fr\<rparr>" for fr g
      by (rule hash_update[OF assms(1) that]) (use d new None in \<open>auto simp: chain_get_append split: option.splits\<close>)
    show ?thesis
    proof (cases "getNodeSpace mem h")
      case none: None
      then show ?thesis using assms(2) None ne by (auto simp: hash_set_def hash_content_def Let_def getNodeSpace_def split: if_splits)
    next
      case (Some h1)
      then obtain fr where h1: "h1 = h\<lparr>m_free_num := fr\<rparr>" by (auto simp: getNodeSpace_def split: if_splits)
      have "r = 0 \<and> h' = h\<lparr>m_bucket := (m_bucket h)[getHashKey h k := ?ns @ [(k, v)]], m_node_num := m_node_num h + 1, m_free_num := fr\<rparr>"
        using assms(2) None ne Some by (auto simp: hash_set_def Let_def h1)
      then show ?thesis using up[of h' fr] None Some by (auto simp: hash_content_def getNodeSpace_def split: if_splits)
    qed
  qed
qed

lemma hash_erase_spec:
  assumes "hash_inv h" and "hash_erase h k = (r, h')"
  shows "if hash_content h k = None then r = HASH_VAL_NO_EXIST \<and> h' = h
    else r = 0 \<and> hash_inv h' \<and> hash_content h' = (hash_content h)(k := None)"
proof -
  let ?ns = "m_bucket h ! getHashKey h k"
  have ne: "m_bucket h \<noteq> []" and i: "getHashKey h k < length (m_bucket h)" using assms(1) key_in_range[of h k] by (simp_all add: hash_inv_def)
  have d: "distinct (map fst ?ns)" using assms(1) i by (simp add: hash_inv_def)
  show ?thesis
  proof (cases "chain_get k ?ns")
    case None
    then show ?thesis using assms(2) ne by (auto simp: hash_erase_def hash_content_def Let_def)
  next
    case (Some w)
    let ?h = "h\<lparr>m_bucket := (m_bucket h)[getHashKey h k := chain_erase k ?ns], m_node_num := m_node_num h - 1, m_free_num := m_free_num h\<rparr>"
    have l: "Suc (length (chain_erase k ?ns)) = length ?ns" using chain_erase_length[of k ?ns] Some by simp
    have "length ?ns \<le> m_node_num h" using assms(1) concat_length_update[OF i, of "[]"] by (simp add: hash_inv_def)
    then have "hash_inv ?h \<and> hash_content ?h = (hash_content h)(k := None)"
      by (intro hash_update[OF assms(1) refl] chain_erase_distinct[OF d])
        (use l chain_erase_set[of k ?ns] in \<open>auto simp: chain_get_erase[OF d]\<close>)
    then show ?thesis using assms(2) Some ne by (auto simp: hash_erase_def hash_content_def Let_def)
  qed
qed

definition hash_put :: "('k, 'v) hash_map \<Rightarrow> 'k \<Rightarrow> 'v \<Rightarrow> ('k, 'v) hash_map option" where
  "hash_put h k v = (case hash_set True h k v True of (r, h') \<Rightarrow> if r = 0 then Some h' else None)"

definition hash_del :: "('k, 'v) hash_map \<Rightarrow> 'k \<Rightarrow> ('k, 'v) hash_map option" where
  "hash_del h k = (case hash_erase h k of (r, h') \<Rightarrow> if r = 0 then Some h' else None)"

interpretation table: kv_store hash_put hash_del hash_content hash_inv
proof
  fix h k v h'
  assume "hash_inv h" and "hash_put h k v = Some h'"
  then show "hash_inv h' \<and> hash_content h' = (hash_content h)(k \<mapsto> v)"
    using hash_set_spec[of h True k v True] by (auto simp: hash_put_def hash_consts split: prod.splits if_splits)
next
  fix h k h'
  assume h: "hash_inv h"
  obtain r g where e: "hash_erase h k = (r, g)" by (cases "hash_erase h k")
  show "hash_del h k = None \<longleftrightarrow> hash_content h k = None"
    using hash_erase_spec[OF h e] e by (auto simp: hash_del_def hash_consts split: if_splits)
  assume "hash_del h k = Some h'"
  then show "hash_inv h' \<and> hash_content h' = (hash_content h)(k := None)"
    using hash_erase_spec[OF h e] e by (auto simp: hash_del_def hash_consts split: if_splits)
qed

lemma hash_keys:
  assumes "hash_inv h"
  shows "card (dom (hash_content h)) = m_node_num h"
proof -
  let ?all = "concat (m_bucket h)"
  have nth: "ns \<in> set (m_bucket h) \<Longrightarrow> \<exists>i < length (m_bucket h). ns = m_bucket h ! i" for ns by (metis in_set_conv_nth)
  have dom: "dom (hash_content h) = fst ` set ?all"
  proof
    show "dom (hash_content h) \<subseteq> fst ` set ?all"
    proof
      fix k assume "k \<in> dom (hash_content h)"
      then have "k \<in> fst ` set (m_bucket h ! getHashKey h k)"
        using chain_get_None[of k "m_bucket h ! getHashKey h k"] by (auto simp: hash_content_def dom_def)
      moreover have "m_bucket h ! getHashKey h k \<in> set (m_bucket h)" using assms key_in_range[of h k] by (simp add: hash_inv_def)
      ultimately show "k \<in> fst ` set ?all" by fastforce
    qed
    show "fst ` set ?all \<subseteq> dom (hash_content h)"
    proof
      fix k assume "k \<in> fst ` set ?all"
      then obtain ns where "ns \<in> set (m_bucket h)" "k \<in> fst ` set ns" by auto
      then obtain i where "i < length (m_bucket h)" "k \<in> fst ` set (m_bucket h ! i)" using nth by blast
      moreover from this have "getHashKey h k = i" using assms by (auto simp: hash_inv_def)
      ultimately show "k \<in> dom (hash_content h)"
        using chain_get_None[of k "m_bucket h ! i"] by (auto simp: hash_content_def dom_def)
    qed
  qed
  have "distinct (map fst (concat bs))"
    if "\<forall>i < length bs. distinct (map fst (bs ! i)) \<and> (\<forall>k \<in> fst ` set (bs ! i). f k = n + i)" for bs :: "('a \<times> 'b) list list" and f n
    using that
  proof (induction bs arbitrary: n)
    case (Cons b bs)
    have "distinct (map fst b)" "\<forall>k \<in> fst ` set b. f k = n" using Cons.prems by force+
    moreover have tail: "\<forall>i < length bs. distinct (map fst (bs ! i)) \<and> (\<forall>k \<in> fst ` set (bs ! i). f k = Suc n + i)"
      using Cons.prems by force
    moreover have "f k \<noteq> n" if "k \<in> fst ` set (concat bs)" for k
    proof -
      from that obtain c where "c \<in> set bs" "k \<in> fst ` set c" by auto
      then obtain i where "i < length bs" "k \<in> fst ` set (bs ! i)" by (metis in_set_conv_nth)
      with tail show ?thesis by fastforce
    qed
    ultimately show ?case using Cons.IH[OF tail] by fastforce
  qed simp
  from this[of "m_bucket h" "getHashKey h" 0] have "distinct (map fst ?all)" using assms by (simp add: hash_inv_def)
  then have "card (fst ` set ?all) = length ?all" using distinct_card[of "map fst ?all"] by simp
  then show ?thesis using assms dom by (simp add: hash_inv_def)
qed

text \<open>C37: from a table of any number of buckets and with any hash function, any sequence of replacing \<open>set\<close> and \<open>erase\<close>
  leaves a table in which \<open>get\<close> finds exactly what a map holds after the accepted operations, and which counts its keys.\<close>

theorem table_is_map:
  assumes "hash_create hn fcn True h0 = (0, h)" and "kv_run hash_put hash_del ops h = (accepted, h')"
  shows "hash_get h' k = (case map_run (zip ops accepted) Map.empty k of None \<Rightarrow> (HASH_VAL_NO_EXIST, None) | Some v \<Rightarrow> (0, Some v))
    \<and> m_node_num h' = card (dom (map_run (zip ops accepted) Map.empty))"
proof -
  have h: "hash_inv h" "hash_content h = Map.empty" using hash_create_inv[OF assms(1)] by simp_all
  have "hash_inv h'" "hash_content h' = map_run (zip ops accepted) Map.empty" using table.run_refines[OF h(1) assms(2)] h(2) by simp_all
  then show ?thesis using hash_get_content[of h' k] hash_keys[of h'] by simp
qed

theorem table_is_map_witness:
  "\<exists>h h'. hash_create 2 id True \<lparr>m_fcn = id, m_bucket = [], m_node_num = 0, m_free_num = 0\<rparr> = (0, h)
     \<and> kv_run hash_put hash_del [Put 1 ''x'', Put 3 ''y'', Put 1 ''z'', Del 3, Del 5] h = ([True, True, True, True, False], h')
     \<and> hash_get h' 1 = (0, Some ''z'') \<and> m_node_num h' = 1"
proof -
  let ?ops = "[Put 1 ''x'', Put 3 ''y'', Put 1 ''z'', Del 3, Del 5] :: (nat, cstr) kv_op list"
  let ?h0 = "\<lparr>m_fcn = id, m_bucket = [], m_node_num = 0, m_free_num = 0\<rparr> :: (nat, cstr) hash_map"
  obtain h where h: "hash_create 2 id True ?h0 = (0, h)" by (simp add: hash_create_def)
  have "fst (kv_run hash_put hash_del ?ops (snd (hash_create 2 id True ?h0))) = [True, True, True, True, False]" by code_simp
  then obtain h' where h': "kv_run hash_put hash_del ?ops h = ([True, True, True, True, False], h')"
    using h by (cases "kv_run hash_put hash_del ?ops h") auto
  have "map_run (zip ?ops [True, True, True, True, False]) Map.empty = [1 \<mapsto> ''z'']" by auto
  then have "hash_get h' 1 = (0, Some ''z'')" "m_node_num h' = 1" using table_is_map[OF h h', of 1] by simp_all
  then show ?thesis using h h' by blast
qed

section \<open>Keys of names\<close>

definition bytes_val :: "cstr \<Rightarrow> nat" where
  "bytes_val s = foldr (\<lambda>c n. of_char c + 256 * n) s 0"

lemma bytes_val_simps [simp]: "bytes_val [] = 0" "bytes_val (c # s) = of_char c + 256 * bytes_val s"
  by (simp_all add: bytes_val_def)

lemma bytes_val_bound: "bytes_val s < 256 ^ length s"
proof (induction s)
  case (Cons c s)
  have "of_char c + 256 * bytes_val s < 256 + 256 * (256 ^ length s - 1)"
    using Cons by (intro add_less_le_mono mult_le_mono) auto
  then show ?case by (simp add: algebra_simps)
qed simp

lemma bytes_val_inj: "cstr_ok s \<Longrightarrow> cstr_ok t \<Longrightarrow> bytes_val s = bytes_val t \<Longrightarrow> s = t"
proof (induction s arbitrary: t)
  case Nil
  then show ?case using char_eq_nat[of _ NUL] by (cases t) auto
next
  case (Cons c s)
  have "c \<noteq> NUL" using Cons.prems(1) by simp
  then have "bytes_val (c # s) \<noteq> 0" using char_eq_nat[of c NUL] by auto
  then obtain d t' where t: "t = d # t'" using Cons.prems(3) by (cases t) auto
  have less: "(of_char c :: nat) < 256" "(of_char d :: nat) < 256" by simp_all
  have e: "of_char c + 256 * bytes_val s = of_char d + 256 * bytes_val t'" using Cons.prems(3) by (simp add: t)
  have "(of_char c :: nat) = of_char d" using arg_cong[OF e, of "\<lambda>n. n mod 256"] less by simp
  then have "c = d" by (simp only: char_eq_nat[of c d])
  with e Cons t show ?case by simp
qed

lemma sign_bytes_val: "sign_bytes s = word_of_nat (bytes_val s)"
proof -
  have "sign_bytes s = foldr (\<lambda>c w. w * 256 + of_char c) s 0" by (simp add: sign_bytes_def foldr_conv_fold)
  also have "\<dots> = word_of_nat (bytes_val s)"
    by (induction s) (simp_all add: algebra_simps of_nat_of_char)
  finally show ?thesis .
qed

lemma sign_bytes_inj:
  assumes "cstr_ok s" and "cstr_ok t" and "length s \<le> 4" and "length t \<le> 4" and "sign_bytes s = sign_bytes t"
  shows "s = t"
proof -
  have "bytes_val u < 2 ^ 32" if "length u \<le> 4" for u
  proof -
    have "(256 :: nat) ^ length u \<le> 256 ^ 4" using that by (intro power_increasing) auto
    then show ?thesis using bytes_val_bound[of u] by simp
  qed
  then have "unat (sign_bytes u) = bytes_val u" if "length u \<le> 4" for u using that by (simp add: sign_bytes_val unat_of_nat take_bit_nat_eq_self)
  then show ?thesis using bytes_val_inj[OF assms(1,2)] assms(3-5) by metis
qed

lemma sign_inj:
  assumes "cstr_ok s" and "cstr_ok t" and "length s \<le> 8" and "length t \<le> 8" and "x_creat_sign_f64 s = x_creat_sign_f64 t"
  shows "s = t"
proof -
  have sign: "x_creat_sign_f64 u = (sign_bytes (take 4 u), sign_bytes (drop 4 u))" if "length u \<le> 8" for u
    using that by (simp add: x_creat_sign_f64_def sign_bytes_def)
  have "sign_bytes (take 4 s) = sign_bytes (take 4 t)" "sign_bytes (drop 4 s) = sign_bytes (drop 4 t)"
    using assms(5) sign[OF assms(3)] sign[OF assms(4)] by simp_all
  then have "take 4 s = take 4 t" "drop 4 s = drop 4 t"
    using assms(1-4) by (auto intro!: sign_bytes_inj cstr_ok_take cstr_ok_drop)
  then show ?thesis by (metis append_take_drop_id)
qed

definition short_name :: "int \<times> cstr \<Rightarrow> bool" where
  "short_name = (\<lambda>(tag, name). tag \<in> {1, 2, 3, 4, 5} \<and> length name \<le> 6 \<and> cstr_ok name)"

lemma dec_tag: "dec_int 1 = ''1''" "dec_int 2 = ''2''" "dec_int 3 = ''3''" "dec_int 4 = ''4''" "dec_int 5 = ''5''"
  by code_simp+

lemma short_keys:
  assumes "short_name (t, n)" and "short_name (t', n')" and "getKey t n = getKey t' n'"
  shows "t = t' \<and> n = n'"
proof -
  have key: "getKey u m = x_creat_sign_f64 (dec_int u @ '':'' @ m) \<and> cstr_ok (dec_int u @ '':'' @ m) \<and> length (dec_int u @ '':'' @ m) \<le> 8
      \<and> length (dec_int u) = 1" if "short_name (u, m)" for u m
    using that by (auto simp: short_name_def getKey_def dec_tag)
  have "dec_int t @ '':'' @ n = dec_int t' @ '':'' @ n'" using key[OF assms(1)] key[OF assms(2)] assms(3) by (intro sign_inj) auto
  then have "dec_int t = dec_int t' \<and> n = n'" using key[OF assms(1)] key[OF assms(2)] by (simp add: append_eq_append_conv)
  then show ?thesis using assms(1,2) by (auto simp: short_name_def dec_tag)
qed

definition names_run :: "((int \<times> cstr) \<times> nat) list \<Rightarrow> registry \<Rightarrow> registry" where
  "names_run regs reg = fold (\<lambda>((t, n), p) reg. snd (names_set True reg t n p)) regs reg"

lemma names_get_content: "hash_inv reg \<Longrightarrow> names_get reg t n = map_option snd (hash_content reg (getKey t n))"
  using hash_get_content[of reg "getKey t n"] by (simp add: names_get_def hash_consts split: option.splits)

lemma names_set_content:
  assumes "hash_inv reg"
  shows "hash_inv (snd (names_set True reg t n p)) \<and> hash_content (snd (names_set True reg t n p))
    = (if hash_content reg (getKey t n) = None then (hash_content reg)(getKey t n \<mapsto> (t, p)) else hash_content reg)"
proof -
  obtain r h where e: "names_set True reg t n p = (r, h)" by (cases "names_set True reg t n p")
  show ?thesis using hash_set_spec[OF assms e[unfolded names_set_def]] assms by (auto simp: e hash_consts split: if_splits)
qed

theorem short_names_found:
  assumes "names_create True reg0 = (0, reg)" and "list_all (short_name \<circ> fst) regs" and "short_name (tag, name)"
  shows "names_get (names_run regs reg) tag name = map_of regs (tag, name)"
proof -
  have "hash_inv reg \<Longrightarrow> list_all (short_name \<circ> fst) regs \<Longrightarrow> hash_inv (names_run regs reg) \<and> names_get (names_run regs reg) tag name
      = (case names_get reg tag name of None \<Rightarrow> map_of regs (tag, name) | r \<Rightarrow> r)" for reg
  proof (induction regs arbitrary: reg)
    case Nil
    then show ?case by (simp add: names_run_def split: option.split)
  next
    case (Cons x regs)
    obtain t n p where x: "x = ((t, n), p)" by (metis prod_cases3 surj_pair)
    let ?reg = "snd (names_set True reg t n p)"
    have set: "hash_inv ?reg" "hash_content ?reg
        = (if hash_content reg (getKey t n) = None then (hash_content reg)(getKey t n \<mapsto> (t, p)) else hash_content reg)"
      using names_set_content[OF Cons.prems(1), of t n p] by simp_all
    have "names_get ?reg tag name = (case names_get reg tag name of None \<Rightarrow> (if (t, n) = (tag, name) then Some p else None) | r \<Rightarrow> r)"
      using short_keys[of t n tag name] Cons.prems(2) assms(3) Cons.prems(1) set
      by (auto simp: names_get_content x split: option.splits if_splits)
    moreover have "names_run (x # regs) reg = names_run regs ?reg" by (simp add: names_run_def x)
    ultimately show ?case using Cons.IH[OF set(1)] Cons.prems(2) by (auto simp: x split: option.splits)
  qed
  moreover have "hash_inv reg" "names_get reg tag name = None"
    using hash_create_inv[OF assms(1)[unfolded names_create_def]] by (simp_all add: names_get_content)
  ultimately show ?thesis using assms(2) by simp
qed

text \<open>Two longer names have the same key, so that the second finds what was registered under the first.\<close>

theorem two_names_one_key: "getKey 1 ''lomonmnmmkmmnm'' = getKey 1 ''olmklmlnmommmm''"
  by (simp add: getKey_def dec_tag snprintf_buf_def x_creat_sign_f64_def x_getsign_24_1_def x_getsign_24_2_def
      x_Mod_Prime_List_1_def x_Mod_Prime_List_2_def of_char_def)

end
