(* ===== verification/Ul_Com_Category.thy ===== *)
theory Ul_Com_Category
  imports Ul_Com_Layout Ul_Com_Names
begin

unbundle bit_operations_syntax

text \<open>
  Levels, states and categories of the log library: \<^verbatim>\<open>ullib/src/comlog/logcore.cpp\<close>, \<^verbatim>\<open>logstat.cpp\<close>, \<^verbatim>\<open>category.cpp\<close>, the class \<open>Appender\<close>
  and the one that writes to the terminal, \<^verbatim>\<open>appender/appender.cpp\<close> and \<^verbatim>\<open>appender/ttyappender.cpp\<close>, and \<open>xparserSelfLog\<close> of \<^verbatim>\<open>xutils.cpp\<close>.

  The objects of each class are a list, a pointer is an index. A category of the source shares its state of levels with the
  category it is made from. A shift by 64 or more has no result. The thread has one event. A callback is not set.
\<close>

section \<open>Levels\<close>

definition COM_USRLEVELSTART :: nat where "COM_USRLEVELSTART = 32"
definition COM_SELFLEVELNUM :: nat where "COM_SELFLEVELNUM = 32"
definition COM_MAXLEVELNAMESIZE :: nat where "COM_MAXLEVELNAMESIZE = 1024"
definition COM_MAXDEVICENUM :: nat where "COM_MAXDEVICENUM = 1024"
definition COM_MAXCATEGORYNAMESIZE :: nat where "COM_MAXCATEGORYNAMESIZE = 64"

definition system_levels :: "cstr list" where
  \<comment> \<open>what \<open>g_levelName\<close> holds at the start\<close>
  "system_levels = (replicate COM_LEVELNUM [])[1 := ''FATAL'', 2 := ''WARNING'', 4 := ''NOTICE'', 8 := ''TRACE'', 16 := ''DEBUG'']"

record Appender =
  ap_type :: cstr
  ap_open :: bool
  ap_layout :: Layout
  ap_mask :: "64 word"
  ap_backup :: "nat option"
  ap_out :: cstr

record Category =
  cat_parent :: "nat option"
  cat_stat :: "nat option"
  cat_apps :: "nat list"
  cat_mask :: "bool list"
  cat_mask_flag :: bool

record logs =
  lg_world :: world
  lg_next :: nat
  lg_stats :: "64 word list"
  lg_def_stat :: "nat option"
  lg_apps :: "Appender list"
  lg_cats :: "Category list"
  lg_names :: registry
  lg_event :: Event

fun level_index :: "cstr \<Rightarrow> cstr list \<Rightarrow> nat \<Rightarrow> nat option" where
  "level_index name [] i = None"
| "level_index name (l # ls) i = (if name = l then Some i else level_index name ls (Suc i))"

definition getLogId :: "logs \<Rightarrow> cstr \<Rightarrow> nat" where
  "getLogId st name = (case level_index name (take (lg_next st) (levelName (lg_world st))) 0 of None \<Rightarrow> 0 | Some i \<Rightarrow> i)"

definition createSelfLog :: "cstr \<Rightarrow> logs \<Rightarrow> nat \<times> logs" where
  "createSelfLog name st =
     (if getLogId st name \<noteq> 0 then (getLogId st name, st)
      else if COM_LEVELNUM \<le> lg_next st then (0, st)
      else (lg_next st,
        st\<lparr>lg_world := (lg_world st)\<lparr>levelName := (levelName (lg_world st))[lg_next st := snprintf_buf COM_MAXLEVELNAMESIZE name]\<rparr>,
           lg_next := lg_next st + 1\<rparr>))"

definition level_sep :: "char \<Rightarrow> bool" where
  "level_sep c \<longleftrightarrow> c = CHR '' '' \<or> c = CHR '',''"

function xparserSelfLog :: "cstr \<Rightarrow> nat \<Rightarrow> cstr list" where
  \<comment> \<open>the names that are stored in \<open>res\<close>. A name that fills its array is cut off, and the character behind it is skipped\<close>
  "xparserSelfLog s items =
     (if s = [] \<or> items = 0 then []
      else let t = dropWhile level_sep s in
        if t = [] then []
        else let w = takeWhile (\<lambda>c. \<not> level_sep c) t; n = min (length w) COM_MAXLEVELNAMESIZE
          in take (COM_MAXLEVELNAMESIZE - 1) w # xparserSelfLog (drop (Suc n) t) (items - 1))"
  by pat_completeness auto
termination
  by (relation "measure (\<lambda>(s, items). items)") auto

declare xparserSelfLog.simps [simp del]

section \<open>States of levels and masks\<close>

definition bit_of :: "nat \<Rightarrow> 64 word" where
  "bit_of level = push_bit level 1"

definition unAccept :: "64 word \<Rightarrow> nat \<Rightarrow> bool option" where
  "unAccept w level = (if level < 64 then Some (bit_of level AND w = 0) else None)"

definition setLevel :: "nat \<Rightarrow> 32 word \<Rightarrow> cstr option \<Rightarrow> logs \<Rightarrow> logs" where
  "setLevel i sysmask userlevel st =
     (let names = (case userlevel of None \<Rightarrow> [] | Some s \<Rightarrow> xparserSelfLog s COM_SELFLEVELNUM);
          (level, st1) = fold (\<lambda>name (level, s). case createSelfLog name s of (lid, s') \<Rightarrow>
              (if COM_USRLEVELSTART \<le> lid then level OR bit_of lid else level, s')) names (ucast sysmask, st);
          level1 = (if names = [] then fold (\<lambda>j level. level OR bit_of j) [COM_USRLEVELSTART..<COM_LEVELNUM] level else level)
      in st1\<lparr>lg_stats := (lg_stats st1)[i := level1]\<rparr>)"

definition emptyMask :: "Appender \<Rightarrow> Appender" where
  "emptyMask a = a\<lparr>ap_mask := 0\<rparr>"

definition addMask :: "nat \<Rightarrow> Appender \<Rightarrow> Appender" where
  "addMask lid a = a\<lparr>ap_mask := ap_mask a OR bit_of lid\<rparr>"

definition delMask :: "nat \<Rightarrow> Appender \<Rightarrow> Appender" where
  "delMask lid a = a\<lparr>ap_mask := ap_mask a AND NOT (bit_of lid)\<rparr>"

definition resetMask :: "Appender \<Rightarrow> Appender" where
  "resetMask a = addMask 16 (addMask 8 (addMask 4 (addMask 2 (addMask 1 (emptyMask a)))))"

definition unInMask :: "Appender \<Rightarrow> nat \<Rightarrow> bool option" where
  "unInMask a level = unAccept (ap_mask a) level"

definition setLayout :: "Layout option \<Rightarrow> Appender \<Rightarrow> Appender" where
  \<comment> \<open>for the null pointer only the argument is set\<close>
  "setLayout layout a = (case layout of None \<Rightarrow> a | Some la \<Rightarrow> a\<lparr>ap_layout := la\<rparr>)"

definition tty_print :: "nat \<Rightarrow> logs \<Rightarrow> logs option" where
  \<comment> \<open>\<open>TtyAppender::print\<close>: \<open>fprintf(stderr, "%s", ...)\<close>\<close>
  "tty_print i st =
     (let a = lg_apps st ! i; evt = lg_event st in
      case unInMask a (log_level evt) of
        None \<Rightarrow> None
      | Some True \<Rightarrow> Some st
      | Some False \<Rightarrow>
          (case format (lg_world st) (ap_layout a) evt of
             None \<Rightarrow> None
           | Some (_, evt') \<Rightarrow>
               (case str_at (render_msgbuf evt') 0 of
                  None \<Rightarrow> None
                | Some line \<Rightarrow> Some (st\<lparr>lg_event := evt', lg_apps := (lg_apps st)[i := a\<lparr>ap_out := ap_out a @ line\<rparr>]\<rparr>))))"

section \<open>Categories\<close>

definition new_Category :: "nat option \<Rightarrow> logs \<Rightarrow> Category" where
  "new_Category parent st =
     (case parent of
        None \<Rightarrow> \<lparr>cat_parent = None, cat_stat = lg_def_stat st, cat_apps = [], cat_mask = replicate COM_MAXDEVICENUM False, cat_mask_flag = False\<rparr>
      | Some p \<Rightarrow> \<lparr>cat_parent = Some p, cat_stat = cat_stat (lg_cats st ! p), cat_apps = cat_apps (lg_cats st ! p),
          cat_mask = replicate COM_MAXDEVICENUM False, cat_mask_flag = False\<rparr>)"

definition setLogStat :: "nat option \<Rightarrow> logs \<Rightarrow> Category \<Rightarrow> Category" where
  "setLogStat stat st c = c\<lparr>cat_stat := (case stat of None \<Rightarrow> lg_def_stat st | Some i \<Rightarrow> Some i)\<rparr>"

definition addAppender :: "nat option \<Rightarrow> Category \<Rightarrow> int \<times> Category" where
  "addAppender app c =
     (if COM_MAXDEVICENUM \<le> length (cat_apps c) then (-1, c)
      else case app of
        None \<Rightarrow> (-1, c)
      | Some a \<Rightarrow> if a \<in> set (cat_apps c) then (0, c) else (0, c\<lparr>cat_apps := cat_apps c @ [a]\<rparr>))"

definition removeAppender :: "nat option \<Rightarrow> Category \<Rightarrow> Category" where
  "removeAppender app c = c\<lparr>cat_apps := filter (\<lambda>a. Some a \<noteq> app) (cat_apps c)\<rparr>"

definition clearAppender :: "Category \<Rightarrow> Category" where
  "clearAppender c = c\<lparr>cat_apps := []\<rparr>"

definition addAppenderMask :: "cstr \<Rightarrow> logs \<Rightarrow> Category \<Rightarrow> Category" where
  "addAppenderMask typ st c =
     (if cat_mask_flag c then c
      else c\<lparr>cat_mask := map (\<lambda>i. if i < length (cat_apps c) \<and> typ = ap_type (lg_apps st ! (cat_apps c ! i)) then True else cat_mask c ! i)
               [0..<length (cat_mask c)], cat_mask_flag := True\<rparr>)"

definition to_print :: "logs \<Rightarrow> Category \<Rightarrow> nat \<Rightarrow> nat option" where
  \<comment> \<open>the appender that prints for the \<open>i\<close>th one of the category\<close>
  "to_print st c i =
     (let a = cat_apps c ! i in
      if ap_open (lg_apps st ! a) then (if \<not> cat_mask c ! i then Some a else ap_backup (lg_apps st ! a)) else None)"

fun print_loop :: "Category \<Rightarrow> nat list \<Rightarrow> logs \<Rightarrow> logs option" where
  "print_loop c [] st = Some st"
| "print_loop c (i # is) st =
     (case (case to_print st c i of None \<Rightarrow> Some st | Some a \<Rightarrow> tty_print a st) of
        None \<Rightarrow> None
      | Some st' \<Rightarrow> print_loop c is st')"

definition lost_message :: cstr where
  "lost_message = ''comlog: one message was lost because vsnprintf failed''"

definition fill_event :: "nat \<Rightarrow> cstr option \<Rightarrow> int \<Rightarrow> int \<Rightarrow> Event \<Rightarrow> Event option" where
  \<comment> \<open>the text that \<open>vsnprintf\<close> makes, \<open>None\<close> if it fails, and the time of day; the size of the buffer is not 0\<close>
  "fill_event level arg sec usec evt =
     (let s = (case arg of None \<Rightarrow> lost_message | Some s \<Rightarrow> s); siz = length (msgbuf evt) in
      map_option (\<lambda>b. evt\<lparr>print_sec := sec, print_usec := usec, log_level := level, msgbuf := b,
          msgbuf_len := (if int siz \<le> int (length s) then int siz - 1 else int (length s))\<rparr>)
        (put_at 0 (take (siz - 1) s @ [NUL]) (msgbuf evt)))"

definition category_print :: "nat \<Rightarrow> nat \<Rightarrow> cstr option \<Rightarrow> int \<Rightarrow> int \<Rightarrow> logs \<Rightarrow> (int \<times> logs) option" where
  \<comment> \<open>\<open>None\<close> also where there is no default state of levels\<close>
  "category_print ci level arg sec usec st0 =
     (let c0 = lg_cats st0 ! ci;
          c = (case cat_stat c0 of None \<Rightarrow> c0\<lparr>cat_stat := lg_def_stat st0\<rparr> | Some i \<Rightarrow> c0);
          st = st0\<lparr>lg_cats := (lg_cats st0)[ci := c]\<rparr>
      in case cat_stat c of
           None \<Rightarrow> None
         | Some s \<Rightarrow>
             (case unAccept (lg_stats st ! s) level of
                None \<Rightarrow> None
              | Some True \<Rightarrow> Some (0, st)
              | Some False \<Rightarrow>
                  (case fill_event level arg sec usec (lg_event st) of
                     None \<Rightarrow> None
                   | Some evt \<Rightarrow>
                       (case print_loop c [0..<length (cat_apps c)] (st\<lparr>lg_event := evt\<rparr>) of
                          None \<Rightarrow> None
                        | Some st' \<Rightarrow> Some (0, st'\<lparr>lg_event := reset (lg_event st')\<rparr>)))))"

section \<open>Finding a category\<close>

definition getFather :: "cstr \<Rightarrow> cstr option" where
  \<comment> \<open>the part in front of the last dot of the name, as far as it fits; \<open>None\<close> for \<open>false\<close>\<close>
  "getFather name =
     (let father = snprintf_buf COM_MAXCATEGORYNAMESIZE name;
          start = length father - length (takeWhile (\<lambda>c. c \<noteq> CHR ''.'') (rev father)) - 1
      in if 0 < start then Some (take start father) else None)"

lemma getFather_shorter: "getFather name = Some fat \<Longrightarrow> length fat < length name"
  by (auto simp: getFather_def snprintf_buf_def Let_def split: if_splits)

definition make_Category :: "bool \<Rightarrow> cstr \<Rightarrow> nat option \<Rightarrow> logs \<Rightarrow> nat option \<times> logs" where
  "make_Category mem name pnt st =
     (let ptr = length (lg_cats st) in
      case names_set mem (lg_names st) type_category name ptr of (ret, reg) \<Rightarrow>
        if ret \<noteq> 0 then (names_get (lg_names st) type_category name, st)
        else (Some ptr, st\<lparr>lg_cats := lg_cats st @ [new_Category pnt st], lg_names := reg\<rparr>))"

function getInstance :: "bool \<Rightarrow> cstr \<Rightarrow> logs \<Rightarrow> nat option \<times> logs" where
  \<comment> \<open>\<open>mem\<close>: a new block of nodes can be allocated\<close>
  "getInstance mem name st =
     (if name \<noteq> [] \<and> hd name = CHR ''.'' then (None, st)
      else case names_get (lg_names st) type_category name of
        Some ptr \<Rightarrow> (Some ptr, st)
      | None \<Rightarrow>
          (case getFather name of
             None \<Rightarrow> make_Category mem name None st
           | Some fat \<Rightarrow>
               (case getInstance mem fat st of
                  (None, st1) \<Rightarrow> (None, st1)
                | (Some pnt, st1) \<Rightarrow> make_Category mem name (Some pnt) st1)))"
  by pat_completeness auto
termination
  by (relation "measure (\<lambda>(mem, name, st). length name)") (auto dest: getFather_shorter)

declare getInstance.simps [simp del]

definition category_push :: "cstr \<Rightarrow> cstr \<Rightarrow> logs \<Rightarrow> logs" where
  \<comment> \<open>\<open>Push::operator()\<close> with a key; \<open>val\<close> has 64 bytes\<close>
  "category_push key val st = st\<lparr>lg_event := snd (push key (snprintf_buf 64 val) (lg_event st))\<rparr>"

section \<open>Levels and their names\<close>

lemma bit_of_bit: "l < 64 \<Longrightarrow> i < 64 \<Longrightarrow> bit (bit_of i) l \<longleftrightarrow> l = i"
  by (auto simp: bit_of_def bit_simps)

lemma unAccept_bit: "l < 64 \<Longrightarrow> unAccept w l = Some (\<not> bit w l)"
proof -
  assume l: "l < 64"
  have "bit_of l AND w = 0 \<longleftrightarrow> \<not> bit w l"
  proof
    assume "bit_of l AND w = 0"
    from arg_cong[OF this, of "\<lambda>x. bit x l"] show "\<not> bit w l" using l by (simp add: bit_simps bit_of_bit)
  next
    assume n: "\<not> bit w l"
    show "bit_of l AND w = 0"
    proof (rule bit_word_eqI)
      fix j assume "j < LENGTH(64)"
      then show "bit (bit_of l AND w) j = bit (0 :: 64 word) j" using n l by (simp add: bit_simps bit_of_bit)
    qed
  qed
  then show ?thesis using l by (simp add: unAccept_def)
qed

definition levels_ok :: "logs \<Rightarrow> bool" where
  "levels_ok st \<longleftrightarrow> length (levelName (lg_world st)) = 64 \<and> levelName (lg_world st) ! 0 = [] \<and> 32 \<le> lg_next st \<and> lg_next st \<le> 64"

lemma level_index_append:
  "level_index name (xs @ ys) i = (case level_index name xs i of None \<Rightarrow> level_index name ys (i + length xs) | r \<Rightarrow> r)"
  by (induction xs arbitrary: i) (auto split: option.split)

lemma level_index_range: "level_index name xs i = Some j \<Longrightarrow> i \<le> j \<and> j < i + length xs"
  by (induction xs arbitrary: i) (auto split: if_splits dest: Suc_leD, force+)

lemma getLogId_range: "levels_ok st \<Longrightarrow> getLogId st name < 64"
  by (auto simp: getLogId_def levels_ok_def split: option.split dest!: level_index_range)

lemma createSelfLog_spec:
  assumes "levels_ok st" and "name \<noteq> []" and "length name < COM_MAXLEVELNAMESIZE" and "createSelfLog name st = (lid, st')"
  shows "levels_ok st' \<and> lid = getLogId st' name \<and> (\<forall>m. getLogId st m \<noteq> 0 \<or> lg_next st = 64 \<longrightarrow> getLogId st' m = getLogId st m)
    \<and> lg_next st \<le> lg_next st' \<and> lg_stats st' = lg_stats st"
proof -
  consider (known) "getLogId st name \<noteq> 0" | (full) "getLogId st name = 0" "lg_next st = 64" | (new) "getLogId st name = 0" "lg_next st < 64"
    using assms(1) by (fastforce simp: levels_ok_def)
  then show ?thesis
  proof cases
    case known
    then show ?thesis using assms by (auto simp: createSelfLog_def)
  next
    case full
    then show ?thesis using assms by (auto simp: createSelfLog_def COM_LEVELNUM_def)
  next
    case new
    let ?n = "lg_next st" and ?ls = "levelName (lg_world st)"
    have st': "lid = ?n" "st' = st\<lparr>lg_world := (lg_world st)\<lparr>levelName := ?ls[?n := name]\<rparr>, lg_next := ?n + 1\<rparr>"
      using assms(3,4) new by (auto simp: createSelfLog_def COM_LEVELNUM_def)
    have l: "length ?ls = 64" "?ls ! 0 = []" "32 \<le> ?n" using assms(1) by (simp_all add: levels_ok_def)
    have app: "take (?n + 1) (?ls[?n := name]) = take ?n ?ls @ [name]" using new(2) l(1) by (simp add: take_Suc_conv_app_nth)
    have old: "level_index name (take ?n ?ls) 0 = None"
    proof (rule ccontr)
      assume "\<not> ?thesis"
      then have "level_index name (take ?n ?ls) 0 = Some 0" using new(1) by (auto simp: getLogId_def)
      moreover obtain x xs where "take ?n ?ls = x # xs" "x = []" using l by (cases ?ls; cases ?n) auto
      ultimately show False using assms(2) by (auto split: if_splits dest: level_index_range)
    qed
    have log: "getLogId st' m = (case level_index m (take ?n ?ls) 0 of None \<Rightarrow> if m = name then ?n else 0 | Some i \<Rightarrow> i)" for m
    proof -
      have "take (lg_next st') (levelName (lg_world st')) = take ?n ?ls @ [name]" using app by (simp add: st'(2))
      moreover have "length (take ?n ?ls) = ?n" using l(1) new(2) by simp
      ultimately show ?thesis unfolding getLogId_def by (simp add: level_index_append split: option.split)
    qed
    have "levels_ok st'" using l new(2) by (simp add: levels_ok_def st'(2))
    moreover have "getLogId st' m = getLogId st m" if "getLogId st m \<noteq> 0" for m
      using that log[of m] by (auto simp: getLogId_def split: option.splits)
    ultimately show ?thesis using log[of name] old st' new(2) by simp
  qed
qed

lemma levels_fold:
  assumes "levels_ok st" and "\<forall>n \<in> set names. n \<noteq> [] \<and> length n < COM_MAXLEVELNAMESIZE"
    and "fold (\<lambda>name (level, s). case createSelfLog name s of (lid, s') \<Rightarrow> (if COM_USRLEVELSTART \<le> lid then level OR bit_of lid else level, s'))
      names (level, st) = (level', st')"
  shows "levels_ok st' \<and> lg_stats st' = lg_stats st \<and> (\<forall>m. getLogId st m \<noteq> 0 \<or> lg_next st = 64 \<longrightarrow> getLogId st' m = getLogId st m)
    \<and> (\<forall>l < 64. bit level' l \<longleftrightarrow> bit level l \<or> 32 \<le> l \<and> (\<exists>n \<in> set names. getLogId st' n = l))"
  using assms
proof (induction names arbitrary: level st)
  case (Cons name names)
  obtain lid st1 where c: "createSelfLog name st = (lid, st1)" by (cases "createSelfLog name st")
  have s: "levels_ok st1" "lid = getLogId st1 name" "\<forall>m. getLogId st m \<noteq> 0 \<or> lg_next st = 64 \<longrightarrow> getLogId st1 m = getLogId st m"
    "lg_next st \<le> lg_next st1" "lg_stats st1 = lg_stats st"
    using createSelfLog_spec[OF Cons.prems(1) _ _ c] Cons.prems(2) by auto
  define level1 where "level1 = (if COM_USRLEVELSTART \<le> lid then level OR bit_of lid else level)"
  have IH: "levels_ok st' \<and> lg_stats st' = lg_stats st1 \<and> (\<forall>m. getLogId st1 m \<noteq> 0 \<or> lg_next st1 = 64 \<longrightarrow> getLogId st' m = getLogId st1 m)
      \<and> (\<forall>l < 64. bit level' l \<longleftrightarrow> bit level1 l \<or> 32 \<le> l \<and> (\<exists>n \<in> set names. getLogId st' n = l))"
    using Cons.IH[of st1 level1] s(1) Cons.prems(2,3) c by (simp add: level1_def)
  have lid: "lid < 64" using getLogId_range[OF s(1)] s(2) by simp
  have this_name: "getLogId st' name = lid"
  proof (cases "lid = 0")
    case False
    then show ?thesis using IH s(2) by simp
  next
    case True
    then have "lg_next st1 = 64" using c Cons.prems(1) s(1) by (auto simp: createSelfLog_def levels_ok_def COM_LEVELNUM_def split: if_splits)
    then show ?thesis using IH s(2) by simp
  qed
  have "bit level1 l \<longleftrightarrow> bit level l \<or> 32 \<le> l \<and> l = lid" if "l < 64" for l
    using bit_of_bit[OF that lid] by (auto simp: level1_def COM_USRLEVELSTART_def bit_simps)
  moreover have "getLogId st' m = getLogId st m" if "getLogId st m \<noteq> 0 \<or> lg_next st = 64" for m
  proof -
    have "lg_next st = 64 \<Longrightarrow> lg_next st1 = 64" using s(1,4) by (simp add: levels_ok_def)
    then show ?thesis using that IH s(3) by metis
  qed
  ultimately show ?case using IH s(5) this_name by auto
qed auto

definition level_text :: "cstr list \<Rightarrow> cstr" where
  \<comment> \<open>the names with a comma behind each\<close>
  "level_text names = concat (map (\<lambda>n. n @ '','') names)"

definition level_name :: "cstr \<Rightarrow> bool" where
  "level_name n \<longleftrightarrow> n \<noteq> [] \<and> length n < COM_MAXLEVELNAMESIZE \<and> (\<forall>c \<in> set n. \<not> level_sep c)"

lemma parse_levels: "list_all level_name names \<Longrightarrow> length names \<le> items \<Longrightarrow> xparserSelfLog (level_text names) items = names"
proof (induction names arbitrary: items)
  case Nil
  then show ?case by (simp add: level_text_def xparserSelfLog.simps)
next
  case (Cons n names)
  have n: "n \<noteq> []" "length n < COM_MAXLEVELNAMESIZE" "\<forall>c \<in> set n. \<not> level_sep c" using Cons.prems(1) by (simp_all add: level_name_def)
  have t: "level_text (n # names) = n @ CHR '','' # level_text names" by (simp add: level_text_def)
  have "dropWhile level_sep (n @ CHR '','' # level_text names) = n @ CHR '','' # level_text names" using n(1,3) by (cases n) auto
  moreover have "level_sep CHR '',''" by (simp add: level_sep_def)
  then have "takeWhile (\<lambda>c. \<not> level_sep c) (n @ CHR '','' # level_text names) = n"
    using n(3) by (subst takeWhile_append2) auto
  moreover have "take (COM_MAXLEVELNAMESIZE - 1) n = n" using n(2) by (simp add: COM_MAXLEVELNAMESIZE_def)
  moreover obtain k where "items = Suc k" using Cons.prems(2) by (cases items) auto
  ultimately have "xparserSelfLog (level_text (n # names)) items = n # xparserSelfLog (level_text names) k"
    using n(1,2) by (subst xparserSelfLog.simps) (simp add: t Let_def min_def)
  then show ?case using Cons.IH[of k] Cons.prems \<open>items = Suc k\<close> by simp
qed

text \<open>C38: after \<open>setLevel\<close> with a mask of the system and names of levels, the state accepts a level below 32 exactly when its bit is set
  in the mask, and a level from 32 on exactly when it is the number of one of the names, or when no name was given.\<close>

theorem levels_accepted:
  assumes "levels_ok st" and "i < length (lg_stats st)" and "list_all level_name names" and "length names \<le> COM_SELFLEVELNUM"
    and "st' = setLevel i sysmask (Some (level_text names)) st" and "level < 64"
  shows "unAccept (lg_stats st' ! i) level
    = Some (\<not> (if level < 32 then bit sysmask level else names = [] \<or> (\<exists>n \<in> set names. getLogId st' n = level)))"
proof -
  obtain w st1 where f: "fold (\<lambda>name (level, s). case createSelfLog name s of (lid, s') \<Rightarrow>
      (if COM_USRLEVELSTART \<le> lid then level OR bit_of lid else level, s')) names (ucast sysmask, st) = (w, st1)" by fastforce
  have s: "levels_ok st1" "lg_stats st1 = lg_stats st"
    "\<forall>l < 64. bit w l \<longleftrightarrow> bit (ucast sysmask :: 64 word) l \<or> 32 \<le> l \<and> (\<exists>n \<in> set names. getLogId st1 n = l)"
    using levels_fold[OF assms(1) _ f] assms(3) by (auto simp: list_all_iff level_name_def)
  have sys: "bit (ucast sysmask :: 64 word) level \<longleftrightarrow> level < 32 \<and> bit sysmask level"
    using bit_imp_le_length[of sysmask level] assms(6) by (auto simp: bit_simps)
  define w1 where "w1 = (if names = [] then fold (\<lambda>j level. level OR bit_of j) [COM_USRLEVELSTART..<COM_LEVELNUM] w else w)"
  have st': "st' = st1\<lparr>lg_stats := (lg_stats st1)[i := w1]\<rparr>"
    using f parse_levels[OF assms(3,4)] by (simp add: assms(5) setLevel_def w1_def)
  have log: "getLogId st' n = getLogId st1 n" for n by (simp add: st' getLogId_def)
  have all: "bit (fold (\<lambda>j level. level OR bit_of j) js x) level \<longleftrightarrow> bit x level \<or> level \<in> set js" if "\<forall>j \<in> set js. j < 64" for js and x :: "64 word"
    using that by (induction js arbitrary: x) (auto simp: bit_simps bit_of_bit[OF assms(6)])
  have "bit w1 level \<longleftrightarrow> (if level < 32 then bit sysmask level else names = [] \<or> (\<exists>n \<in> set names. getLogId st' n = level))"
  proof (cases "names = []")
    case True
    have "bit w1 level \<longleftrightarrow> bit w level \<or> level \<in> {COM_USRLEVELSTART..<COM_LEVELNUM}"
      using True all[of "[COM_USRLEVELSTART..<COM_LEVELNUM]" w] by (simp only: w1_def if_True set_upt) (simp add: COM_LEVELNUM_def)
    then show ?thesis using True s(3) sys assms(6) by (auto simp: COM_USRLEVELSTART_def COM_LEVELNUM_def)
  next
    case False
    then show ?thesis using s(3) sys assms(6) by (auto simp: w1_def log)
  qed
  moreover have "lg_stats st' ! i = w1" using assms(2) s(2) by (simp add: st')
  ultimately show ?thesis using unAccept_bit[OF assms(6)] by simp
qed

theorem levels_accepted_witness:
  "\<exists>st. levels_ok st \<and> (let st' = setLevel 0 3 (Some ''mine,'') st in
     unAccept (lg_stats st' ! 0) 1 = Some False \<and> unAccept (lg_stats st' ! 0) 4 = Some True \<and> unAccept (lg_stats st' ! 0) 32 = Some False
     \<and> unAccept (lg_stats st' ! 0) 33 = Some True)"
proof -
  let ?w = "\<lparr>localtime = (\<lambda>_. undefined), strftime = (\<lambda>_ _. []), junk = (\<lambda>_. []), hostname = [], levelName = system_levels, time_format = []\<rparr>"
  let ?st = "\<lparr>lg_world = ?w, lg_next = 32, lg_stats = [0], lg_def_stat = Some 0, lg_apps = [], lg_cats = [],
    lg_names = \<lparr>m_fcn = nkeyhash, m_bucket = [], m_node_num = 0, m_free_num = 0\<rparr>, lg_event = undefined\<rparr>"
  have ok: "levels_ok ?st" by (simp add: levels_ok_def system_levels_def COM_LEVELNUM_def)
  have n: "list_all level_name [''mine'']" "length [''mine''] \<le> COM_SELFLEVELNUM" "level_text [''mine''] = ''mine,''" "0 < length (lg_stats ?st)"
    by (simp_all add: level_name_def level_sep_def COM_MAXLEVELNAMESIZE_def COM_SELFLEVELNUM_def level_text_def)
  have lev: "getLogId ?st ''mine'' = 0"
    by (simp add: getLogId_def system_levels_def COM_LEVELNUM_def numeral_eq_Suc split: option.split)
  let ?w' = "?w\<lparr>levelName := system_levels[32 := ''mine'']\<rparr>"
  have "createSelfLog ''mine'' ?st = (32, ?st\<lparr>lg_world := ?w', lg_next := 33\<rparr>)"
    using lev by (simp add: createSelfLog_def COM_LEVELNUM_def snprintf_buf_def COM_MAXLEVELNAMESIZE_def)
  moreover have "xparserSelfLog ''mine,'' COM_SELFLEVELNUM = [''mine'']" using parse_levels[OF n(1,2)] n(3) by simp
  moreover have "level_index ''mine'' (take 33 (system_levels[32 := ''mine''])) 0 = Some 32"
    by (simp add: system_levels_def COM_LEVELNUM_def numeral_eq_Suc)
  ultimately have new: "getLogId (setLevel 0 3 (Some ''mine,'') ?st) ''mine'' = 32" by (simp add: setLevel_def getLogId_def)
  note acc = levels_accepted[OF ok n(4,1,2) refl, of _ 3, unfolded n(3)]
  show ?thesis using ok acc[of 1] acc[of 4] acc[of 32] acc[of 33] new by (intro exI[of _ ?st]) (simp add: Let_def)
qed

section \<open>What is printed\<close>

lemma level_ids_kept: "pattern_text w la (evt\<lparr>render_msgbuf := b, render_msgbuf_len := n\<rparr>) p = pattern_text w la evt p"
  by (induction w la evt p rule: pattern_text.induct) (auto simp: field_text_def message_def split: list.split)

lemma line_text_render: "line_text w la (evt\<lparr>render_msgbuf := b, render_msgbuf_len := n\<rparr>) = line_text w la evt"
  by (simp add: line_text_def start_text_def level_ids_kept)

lemma format_changes:
  "format w la evt = Some (r, evt') \<Longrightarrow> \<exists>b n. evt' = evt\<lparr>render_msgbuf := b, render_msgbuf_len := n\<rparr>"
  by (cases evt) (auto simp: format_def Let_def split: if_splits option.splits prod.splits)

definition tty_line :: "logs \<Rightarrow> nat \<Rightarrow> cstr" where
  \<comment> \<open>what the appender prints of the event of the thread: a string, up to its first terminator\<close>
  "tty_line st a = (let evt = lg_event st in
     takeWhile (\<lambda>c. c \<noteq> NUL) (take (length (render_msgbuf evt) - 2) (line_text (lg_world st) (ap_layout (lg_apps st ! a)) evt) @ [LF]))"

definition printed :: "nat \<Rightarrow> logs \<Rightarrow> nat \<Rightarrow> cstr" where
  "printed level st a = (if bit (ap_mask (lg_apps st ! a)) level then tty_line st a else [])"

definition similar :: "logs \<Rightarrow> logs \<Rightarrow> bool" where
  \<comment> \<open>the same but for what was printed and the rendered line\<close>
  "similar st st' \<longleftrightarrow> (\<exists>b n apps. st' = st\<lparr>lg_event := (lg_event st)\<lparr>render_msgbuf := b, render_msgbuf_len := n\<rparr>, lg_apps := apps\<rparr>
     \<and> length b = length (render_msgbuf (lg_event st)) \<and> length apps = length (lg_apps st)
     \<and> (\<forall>a < length apps. \<exists>s. apps ! a = (lg_apps st ! a)\<lparr>ap_out := s\<rparr>))"

lemma only_output: "\<exists>s. a = a\<lparr>ap_out := s\<rparr>"
  by (intro exI[of _ "ap_out a"]) simp

lemma similar_refl: "similar st st"
  unfolding similar_def
  by (intro exI[of _ "render_msgbuf (lg_event st)"] exI[of _ "render_msgbuf_len (lg_event st)"] exI[of _ "lg_apps st"])
    (simp add: only_output)

lemma similar_trans:
  assumes "similar st st1" and "similar st1 st2"
  shows "similar st st2"
proof -
  obtain b n apps where a: "st1 = st\<lparr>lg_event := (lg_event st)\<lparr>render_msgbuf := b, render_msgbuf_len := n\<rparr>, lg_apps := apps\<rparr>"
    "length b = length (render_msgbuf (lg_event st))" "length apps = length (lg_apps st)"
    "\<forall>a < length apps. \<exists>s. apps ! a = (lg_apps st ! a)\<lparr>ap_out := s\<rparr>" using assms(1) unfolding similar_def by blast
  obtain b' n' apps' where b: "st2 = st1\<lparr>lg_event := (lg_event st1)\<lparr>render_msgbuf := b', render_msgbuf_len := n'\<rparr>, lg_apps := apps'\<rparr>"
    "length b' = length (render_msgbuf (lg_event st1))" "length apps' = length (lg_apps st1)"
    "\<forall>a < length apps'. \<exists>s. apps' ! a = (lg_apps st1 ! a)\<lparr>ap_out := s\<rparr>" using assms(2) unfolding similar_def by blast
  have "\<exists>s. apps' ! i = (lg_apps st ! i)\<lparr>ap_out := s\<rparr>" if h: "i < length apps'" for i
  proof -
    have i: "i < length apps" using h b(3) by (simp add: a(1))
    obtain s where "apps ! i = (lg_apps st ! i)\<lparr>ap_out := s\<rparr>" using a(4) i by blast
    moreover obtain s' where "apps' ! i = (lg_apps st1 ! i)\<lparr>ap_out := s'\<rparr>" using b(4) h by blast
    ultimately show ?thesis by (auto simp: a(1))
  qed
  then show ?thesis unfolding similar_def
    by (intro exI[of _ b'] exI[of _ n'] exI[of _ apps']) (use a b in \<open>auto simp: a(1)\<close>)
qed

lemma similar_same:
  assumes "similar st st'" and "a < length (lg_apps st)"
  shows "printed level st' a = printed level st a" and "ap_backup (lg_apps st' ! a) = ap_backup (lg_apps st ! a)"
    and "ap_open (lg_apps st' ! a) = ap_open (lg_apps st ! a)" and "pattern (ap_layout (lg_apps st' ! a)) = pattern (ap_layout (lg_apps st ! a))"
    and "length (lg_apps st') = length (lg_apps st)" and "log_level (lg_event st') = log_level (lg_event st)"
    and "line_event_ok (lg_event st') = line_event_ok (lg_event st)"
  using assms by (auto simp: similar_def printed_def tty_line_def line_text_render line_event_ok_def start_fits_def Let_def)

lemma tty_print_spec:
  assumes "line_event_ok (lg_event st)" and "plain_pattern (pattern (ap_layout (lg_apps st ! a)))" and "a < length (lg_apps st)"
    and "log_level (lg_event st) < 64"
  shows "\<exists>st'. tty_print a st = Some st' \<and> similar st st'
    \<and> (\<forall>x < length (lg_apps st). ap_out (lg_apps st' ! x)
        = ap_out (lg_apps st ! x) @ (if x = a then printed (log_level (lg_event st)) st a else []))"
proof (cases "bit (ap_mask (lg_apps st ! a)) (log_level (lg_event st))")
  case False
  then show ?thesis using unAccept_bit[OF assms(4)] similar_refl by (simp add: tty_print_def unInMask_def printed_def Let_def)
next
  case True
  let ?evt = "lg_event st" and ?la = "ap_layout (lg_apps st ! a)"
  let ?t = "take (length (render_msgbuf ?evt) - 2) (line_text (lg_world st) ?la ?evt)"
  obtain evt' where f: "format (lg_world st) ?la ?evt = Some (0, evt')" "length (render_msgbuf evt') = length (render_msgbuf ?evt)"
    "render_msgbuf_len evt' = int (length ?t) + 1" "take (nat (render_msgbuf_len evt') + 1) (render_msgbuf evt') = ?t @ [LF, NUL]"
    using format_line[OF assms(1), of ?la "lg_world st"] assms(2) by blast
  obtain b n where b: "evt' = ?evt\<lparr>render_msgbuf := b, render_msgbuf_len := n\<rparr>" using format_changes[OF f(1)] by blast
  have split: "render_msgbuf evt' = ?t @ [LF, NUL] @ drop (nat (render_msgbuf_len evt') + 1) (render_msgbuf evt')"
    using f(4) by (metis append_take_drop_id append_assoc)
  then have "NUL \<in> set (render_msgbuf evt')" by (metis in_set_conv_decomp append_Cons append_Nil append_assoc)
  moreover have "takeWhile (\<lambda>c. c \<noteq> NUL) (render_msgbuf evt') = takeWhile (\<lambda>c. c \<noteq> NUL) (?t @ [LF])"
    by (subst split) (cases "NUL \<in> set ?t"; auto simp: takeWhile_append)
  ultimately have line: "str_at (render_msgbuf evt') 0 = Some (tty_line st a)" by (simp add: str_at_def tty_line_def Let_def)
  let ?st = "st\<lparr>lg_event := evt', lg_apps := (lg_apps st)[a := (lg_apps st ! a)\<lparr>ap_out := ap_out (lg_apps st ! a) @ tty_line st a\<rparr>]\<rparr>"
  have "tty_print a st = Some ?st" using unAccept_bit[OF assms(4)] True f(1) line by (simp add: tty_print_def unInMask_def Let_def)
  moreover have "similar st ?st" unfolding similar_def
    by (intro exI[of _ b] exI[of _ n] exI[of _ "lg_apps ?st"])
      (use b f(2) assms(3) in \<open>auto simp: nth_list_update only_output\<close>)
  moreover have "printed (log_level ?evt) st a = tty_line st a" using True by (simp add: printed_def)
  ultimately show ?thesis using assms(3) by (intro exI[of _ ?st]) (simp add: nth_list_update)
qed

definition cat_ok :: "logs \<Rightarrow> Category \<Rightarrow> bool" where
  "cat_ok st c \<longleftrightarrow> length (cat_apps c) \<le> length (cat_mask c) \<and> (\<forall>a \<in> set (cat_apps c). a < length (lg_apps st))
     \<and> (\<forall>a < length (lg_apps st). plain_pattern (pattern (ap_layout (lg_apps st ! a))))
     \<and> (\<forall>a b. a < length (lg_apps st) \<longrightarrow> ap_backup (lg_apps st ! a) = Some b \<longrightarrow> b < length (lg_apps st))"

lemma print_loop_spec:
  assumes "cat_ok st c" and "line_event_ok (lg_event st)" and "log_level (lg_event st) = level" and "level < 64"
    and "\<forall>i \<in> set is. i < length (cat_apps c)"
  shows "\<exists>st'. print_loop c is st = Some st' \<and> similar st st' \<and> (\<forall>x < length (lg_apps st). ap_out (lg_apps st' ! x)
    = ap_out (lg_apps st ! x) @ concat (map (\<lambda>i. if to_print st c i = Some x then printed level st x else []) is))"
  using assms
proof (induction "is" arbitrary: st)
  case Nil
  then show ?case using similar_refl by simp
next
  case (Cons i "is")
  have i: "cat_apps c ! i < length (lg_apps st)" using Cons.prems(1,5) by (simp add: cat_ok_def)
  have "\<exists>st1. (case to_print st c i of None \<Rightarrow> Some st | Some a \<Rightarrow> tty_print a st) = Some st1 \<and> similar st st1
      \<and> (\<forall>x < length (lg_apps st). ap_out (lg_apps st1 ! x)
          = ap_out (lg_apps st ! x) @ (if to_print st c i = Some x then printed level st x else []))"
  proof (cases "to_print st c i")
    case None
    then show ?thesis using similar_refl by simp
  next
    case (Some a)
    then have "a < length (lg_apps st)" using i Cons.prems(1) by (auto simp: to_print_def cat_ok_def Let_def split: if_splits)
    moreover from this have "plain_pattern (pattern (ap_layout (lg_apps st ! a)))" using Cons.prems(1) by (simp add: cat_ok_def)
    ultimately obtain st1 where "tty_print a st = Some st1" "similar st st1" "\<forall>x < length (lg_apps st). ap_out (lg_apps st1 ! x)
        = ap_out (lg_apps st ! x) @ (if x = a then printed (log_level (lg_event st)) st a else [])"
      using tty_print_spec[OF Cons.prems(2), of a] Cons.prems(3,4) by auto
    then show ?thesis using Some Cons.prems(3) by auto
  qed
  then obtain st1 where s1: "(case to_print st c i of None \<Rightarrow> Some st | Some a \<Rightarrow> tty_print a st) = Some st1" "similar st st1"
    "\<forall>x < length (lg_apps st). ap_out (lg_apps st1 ! x) = ap_out (lg_apps st ! x) @ (if to_print st c i = Some x then printed level st x else [])" by blast
  note same = similar_same[OF s1(2)]
  have "0 < length (lg_apps st)" using i by linarith
  note same0 = same(5-7)[OF this]
  have target: "to_print st1 c j = to_print st c j" if "j \<in> set is" for j
    using same(2,3)[of "cat_apps c ! j"] that Cons.prems(1,5) by (simp add: to_print_def cat_ok_def Let_def)
  have "cat_ok st1 c" using Cons.prems(1) same(2,4) same0(1) unfolding cat_ok_def by simp
  then obtain st' where s': "print_loop c is st1 = Some st'" "similar st1 st'" "\<forall>x < length (lg_apps st1). ap_out (lg_apps st' ! x)
      = ap_out (lg_apps st1 ! x) @ concat (map (\<lambda>i. if to_print st1 c i = Some x then printed level st1 x else []) is)"
    using Cons.IH[of st1] Cons.prems same0 by auto
  have maps: "map (\<lambda>i. if to_print st1 c i = Some x then printed level st1 x else []) is
      = map (\<lambda>i. if to_print st c i = Some x then printed level st x else []) is" if "x < length (lg_apps st)" for x
    using target same(1)[OF that] by simp
  have "ap_out (lg_apps st' ! x) = ap_out (lg_apps st ! x)
      @ concat (map (\<lambda>i. if to_print st c i = Some x then printed level st x else []) (i # is))" if "x < length (lg_apps st)" for x
    using s1(3) s'(3) that same0(1) maps[OF that] by (simp del: map_eq_conv)
  moreover have "print_loop c (i # is) st = Some st'" using s1(1) s'(1) by simp
  ultimately show ?case using similar_trans[OF s1(2) s'(2)] by blast
qed

lemma fill_event_made:
  assumes "line_event_ok evt" and "msgbuf evt \<noteq> []"
  obtains evt' where "fill_event level arg sec usec evt = Some evt'" and "line_event_ok evt'" and "log_level evt' = level"
    and "message evt' = take (length (msgbuf evt) - 1) (case arg of None \<Rightarrow> lost_message | Some s \<Rightarrow> s)"
proof -
  define s where "s = (case arg of None \<Rightarrow> lost_message | Some s \<Rightarrow> s)"
  let ?siz = "length (msgbuf evt)"
  let ?n = "if int ?siz \<le> int (length s) then int ?siz - 1 else int (length s)"
  have l: "length (take (?siz - 1) s @ [NUL]) \<le> ?siz" using assms(2) by (cases "msgbuf evt") auto
  let ?b = "(take (?siz - 1) s @ [NUL]) @ drop (length (take (?siz - 1) s @ [NUL])) (msgbuf evt)"
  let ?evt = "evt\<lparr>print_sec := sec, print_usec := usec, log_level := level, msgbuf := ?b, msgbuf_len := ?n\<rparr>"
  have n: "nat ?n = length (take (?siz - 1) s)" using assms(2) by (cases "msgbuf evt") (auto simp: nat_diff_distrib)
  have "length ?b = ?siz" using l by simp
  moreover have "nat ?n \<le> ?siz" unfolding n by simp
  ultimately have ok: "line_event_ok ?evt" using assms(1) by (simp add: line_event_ok_def start_fits_def)
  have "message ?evt = take (nat ?n) ?b" by (simp add: message_def)
  also have "\<dots> = take (?siz - 1) s" unfolding n by (simp add: min_def)
  finally have "message ?evt = take (?siz - 1) s" .
  moreover have "fill_event level arg sec usec evt = Some ?evt"
    using put_at_0[OF l] by (simp add: fill_event_def s_def[symmetric] Let_def)
  ultimately show thesis using that ok by (simp add: s_def)
qed


definition some_logs :: logs where
  \<comment> \<open>one appender for every level, and a category that prints to it twice, the second place masked\<close>
  "some_logs = \<lparr>lg_world = some_world, lg_next = 32, lg_stats = [mask 32], lg_def_stat = Some 0,
     lg_apps = [\<lparr>ap_type = ''TTY'', ap_open = True, ap_layout = default_layout, ap_mask = mask 64, ap_backup = None, ap_out = ''old ''\<rparr>],
     lg_cats = [\<lparr>cat_parent = None, cat_stat = Some 0, cat_apps = [0, 0], cat_mask = [False, True], cat_mask_flag = True\<rparr>],
     lg_names = \<lparr>m_fcn = nkeyhash, m_bucket = [], m_node_num = 0, m_free_num = 0\<rparr>, lg_event = some_event 64\<rparr>"


section \<open>Categories and their fathers\<close>

lemma names_set_ret:
  assumes "hash_inv reg" and "names_set mem reg t n p = (ret, reg')"
  shows "if ret = 0 then hash_inv reg' \<and> hash_content reg (getKey t n) = None \<and> hash_content reg' = (hash_content reg)(getKey t n \<mapsto> (t, p))
    else reg' = reg \<and> (mem \<longrightarrow> hash_content reg (getKey t n) \<noteq> None)"
  using hash_set_spec[OF assms(1) assms(2)[unfolded names_set_def]] by (cases "hash_content reg (getKey t n)") (auto simp: hash_consts split: if_splits)

abbreviation cat_named :: "logs \<Rightarrow> cstr \<Rightarrow> nat option" where
  "cat_named st \<equiv> names_get (lg_names st) type_category"

definition cats_ok :: "logs \<Rightarrow> bool" where
  \<comment> \<open>what is found under the name of a category is one\<close>
  "cats_ok st \<longleftrightarrow> hash_inv (lg_names st) \<and> (\<forall>n p. cat_named st n = Some p \<longrightarrow> p < length (lg_cats st))"

definition same_key :: "cstr \<Rightarrow> cstr \<Rightarrow> bool" where
  "same_key n m \<longleftrightarrow> getKey type_category n = getKey type_category m"

definition logs_extend :: "logs \<Rightarrow> logs \<Rightarrow> bool" where
  "logs_extend st st' \<longleftrightarrow> (\<forall>n p. cat_named st n = Some p \<longrightarrow> cat_named st' n = Some p) \<and> (\<exists>new. lg_cats st' = lg_cats st @ new)
     \<and> lg_def_stat st' = lg_def_stat st \<and> lg_stats st' = lg_stats st \<and> lg_apps st' = lg_apps st"

definition grown :: "cstr \<Rightarrow> logs \<Rightarrow> logs \<Rightarrow> bool" where
  \<comment> \<open>the names that were added are \<open>k\<close> and what it starts with, and new categories\<close>
  "grown k st st' \<longleftrightarrow> logs_extend st st' \<and> (\<forall>n p. cat_named st' n = Some p \<longrightarrow>
     cat_named st n = Some p \<or> length (lg_cats st) \<le> p \<and> (\<exists>m. prefix m k \<and> same_key m n))"

lemma grown_refl: "grown k st st"
  by (simp add: grown_def logs_extend_def)

lemma grown_trans:
  assumes "grown k st st1" and "grown k' st1 st2" and "prefix k k'"
  shows "grown k' st st2"
proof -
  have "length (lg_cats st) \<le> length (lg_cats st1)" using assms(1) by (auto simp: grown_def logs_extend_def)
  moreover have "logs_extend st st2" using assms(1,2) by (auto simp: grown_def logs_extend_def)
  ultimately show ?thesis using assms unfolding grown_def by (meson le_trans prefix_order.trans)
qed

lemma named_key: "same_key n m \<Longrightarrow> cat_named st n = cat_named st m"
  by (simp add: same_key_def names_get_def)

lemma make_Category_spec:
  assumes "cats_ok st" and "make_Category mem name pnt st = (r, st')"
  shows "cats_ok st' \<and> grown name st st' \<and> cat_named st' name = r \<and> (mem \<longrightarrow> r \<noteq> None)
    \<and> (cat_named st name = None \<longrightarrow> (\<forall>p. r = Some p \<longrightarrow> p = length (lg_cats st) \<and> lg_cats st' = lg_cats st @ [new_Category pnt st]))"
proof -
  have inv: "hash_inv (lg_names st)" using assms(1) by (simp add: cats_ok_def)
  obtain ret reg where s: "names_set mem (lg_names st) type_category name (length (lg_cats st)) = (ret, reg)" by fastforce
  show ?thesis
  proof (cases "ret = 0")
    case False
    then have "r = cat_named st name" "st' = st" using assms(2) s by (auto simp: make_Category_def Let_def)
    moreover have "mem \<longrightarrow> cat_named st name \<noteq> None" using names_set_ret[OF inv s] False by (simp add: names_get_content inv)
    ultimately show ?thesis using assms(1) grown_refl by simp
  next
    case True
    with names_set_ret[OF inv s] have reg: "hash_inv reg" "hash_content (lg_names st) (getKey type_category name) = None"
      "hash_content reg = (hash_content (lg_names st))(getKey type_category name \<mapsto> (type_category, length (lg_cats st)))" by simp_all
    have st': "r = Some (length (lg_cats st))" "st' = st\<lparr>lg_cats := lg_cats st @ [new_Category pnt st], lg_names := reg\<rparr>"
      using assms(2) s True by (simp_all add: make_Category_def Let_def)
    have named: "cat_named st' n = (if same_key name n then Some (length (lg_cats st)) else cat_named st n)" for n
      using reg by (simp add: st'(2) names_get_content inv same_key_def)
    have none: "same_key name n \<Longrightarrow> cat_named st n = None" for n
      using reg(2) by (simp add: names_get_content inv same_key_def)
    have "cats_ok st'" unfolding cats_ok_def
    proof (intro conjI allI impI)
      show "hash_inv (lg_names st')" using reg(1) by (simp add: st'(2))
      have "length (lg_cats st') = Suc (length (lg_cats st))" by (simp add: st'(2))
      then show "p < length (lg_cats st')" if "cat_named st' n = Some p" for n p
        using that[unfolded named] assms(1) by (auto simp: cats_ok_def less_Suc_eq split: if_splits)
    qed
    moreover have "logs_extend st st'" using named none unfolding logs_extend_def by (auto simp: st'(2))
    moreover have "cat_named st' n = Some p \<Longrightarrow> cat_named st n = Some p \<or> length (lg_cats st) \<le> p \<and> (\<exists>m. prefix m name \<and> same_key m n)" for n p
      using prefix_order.refl[of name] by (auto simp: named split: if_splits)
    ultimately show ?thesis using st' named[of name] by (auto simp: grown_def same_key_def)
  qed
qed

lemma new_Category_extends:
  assumes "logs_extend st st'" and "\<forall>p. pnt = Some p \<longrightarrow> p < length (lg_cats st)"
  shows "new_Category pnt st' = new_Category pnt st"
  using assms by (auto simp: logs_extend_def new_Category_def nth_append split: option.split)

definition made_from :: "logs \<Rightarrow> cstr \<Rightarrow> nat \<Rightarrow> bool" where
  \<comment> \<open>the category was made for the name, without a father or from the one of its father's name\<close>
  "made_from st name p \<longleftrightarrow> p < length (lg_cats st) \<and> (let c = lg_cats st ! p in
     (\<forall>i < COM_MAXDEVICENUM. \<not> cat_mask c ! i) \<and> (case getFather name of
       None \<Rightarrow> cat_parent c = None \<and> cat_stat c = lg_def_stat st \<and> cat_apps c = []
     | Some fat \<Rightarrow> (\<exists>f < p. cat_named st fat = Some f \<and> cat_parent c = Some f \<and> cat_stat c = cat_stat (lg_cats st ! f)
         \<and> cat_apps c = cat_apps (lg_cats st ! f))))"

lemma made_from_new:
  assumes "lg_cats st ! p = new_Category pnt st" and "p < length (lg_cats st)"
    and "case getFather name of None \<Rightarrow> pnt = None | Some fat \<Rightarrow> (\<exists>f < p. cat_named st fat = Some f \<and> pnt = Some f)"
  shows "made_from st name p"
  using assms by (auto simp: made_from_def new_Category_def Let_def split: option.splits)

definition found_or_made :: "bool \<Rightarrow> cstr \<Rightarrow> logs \<Rightarrow> nat option \<Rightarrow> logs \<Rightarrow> bool" where
  "found_or_made mem name st r st' \<longleftrightarrow> cats_ok st' \<and> grown name st st'
     \<and> (mem \<longrightarrow> (r = None \<longleftrightarrow> name \<noteq> [] \<and> hd name = CHR ''.'')) \<and> (\<forall>p. r = Some p \<longrightarrow> cat_named st' name = Some p
        \<and> (cat_named st name = Some p \<and> st' = st
           \<or> length (lg_cats st) \<le> p \<and> ((\<forall>m. strict_prefix m name \<longrightarrow> \<not> same_key m name) \<longrightarrow> made_from st' name p)))"

lemma father_start: "getFather name = Some fat \<Longrightarrow> fat \<noteq> [] \<and> hd fat = hd name"
proof -
  assume a: "getFather name = Some fat"
  let ?f = "snprintf_buf COM_MAXCATEGORYNAMESIZE name"
  let ?n = "length ?f - length (takeWhile (\<lambda>c. c \<noteq> CHR ''.'') (rev ?f)) - 1"
  have n: "0 < ?n" "fat = take ?n ?f" using a by (auto simp: getFather_def Let_def split: if_splits)
  have f: "?f \<noteq> []" using n(1) by force
  moreover have "?f = take 63 name" by (simp add: snprintf_buf_def COM_MAXCATEGORYNAMESIZE_def)
  ultimately have "hd ?f = hd name" by (simp add: hd_take)
  then show ?thesis using n f by (simp add: hd_take)
qed

lemma father_prefix:
  assumes "getFather name = Some fat"
  shows "strict_prefix fat name"
proof -
  have "prefix fat name" using assms by (auto simp: getFather_def snprintf_buf_def Let_def take_is_prefix split: if_splits)
  then show ?thesis using getFather_shorter[OF assms] by (auto simp: strict_prefix_def)
qed

lemma getInstance_spec: "cats_ok st \<Longrightarrow> getInstance mem name st = (r, st') \<Longrightarrow> \<not> (name \<noteq> [] \<and> hd name = CHR ''.'') \<Longrightarrow> found_or_made mem name st r st'"
proof (induction mem name st arbitrary: r st' rule: getInstance.induct)
  case (1 mem name st)
  show ?case
  proof (cases "cat_named st name")
    case (Some p)
    then have "r = Some p" "st' = st" using 1(3,4) by (simp_all add: getInstance.simps[of mem name st])
    then show ?thesis using Some 1(2,4) grown_refl by (simp add: found_or_made_def)
  next
    case none: None
    show ?thesis
    proof (cases "getFather name")
      case None
      have "make_Category mem name None st = (r, st')" using 1(3,4) none None by (simp add: getInstance.simps[of mem name st])
      note m = make_Category_spec[OF 1(2) this]
      then have "made_from st' name p" if "r = Some p" for p
        using that none None new_Category_extends[of st st' None] m by (intro made_from_new[of _ _ None]) (auto simp: grown_def)
      then show ?thesis using m none 1(4) by (auto simp: found_or_made_def)
    next
      case (Some fat)
      obtain r1 st1 where rec: "getInstance mem fat st = (r1, st1)" by fastforce
      have fat: "strict_prefix fat name" "\<not> (fat \<noteq> [] \<and> hd fat = CHR ''.'')"
        using father_prefix[OF Some] father_start[OF Some] 1(4) by auto
      have f: "found_or_made mem fat st r1 st1" using 1(1)[OF 1(4) none Some 1(2) rec fat(2)] .
      then have g1: "cats_ok st1" "grown fat st st1" by (simp_all add: found_or_made_def)
      show ?thesis
      proof (cases r1)
        case None
        then have "r = None" "st' = st1" using 1(3,4) none Some rec by (simp_all add: getInstance.simps[of mem name st])
        then show ?thesis using None f fat 1(4) grown_trans[OF g1(2) grown_refl, of name] by (auto simp: found_or_made_def)
      next
        case pnt: (Some pnt)
        have mk: "make_Category mem name (Some pnt) st1 = (r, st')" using 1(3,4) none Some rec pnt by (simp add: getInstance.simps[of mem name st])
        note m = make_Category_spec[OF g1(1) mk]
        have g: "grown name st st'" using grown_trans[OF g1(2)] m fat(1) by auto
        have n1: "cat_named st1 fat = Some pnt" "pnt < length (lg_cats st1)" using f pnt g1(1) by (auto simp: found_or_made_def cats_ok_def)
        have "made_from st' name p" if p: "r = Some p" and u: "\<forall>m. strict_prefix m name \<longrightarrow> \<not> same_key m name" for p
        proof -
          have "cat_named st1 name = None" using g1(2) none u fat(1) unfolding grown_def by (metis not_None_eq prefix_order.le_less_trans)
          then have p': "p = length (lg_cats st1)" "lg_cats st' = lg_cats st1 @ [new_Category (Some pnt) st1]" using m p by auto
          moreover have e: "logs_extend st1 st'" using m by (simp add: grown_def)
          moreover have "cat_named st' fat = Some pnt" using e n1(1) by (simp add: logs_extend_def)
          ultimately show ?thesis using n1(2) new_Category_extends[OF e, of "Some pnt"] by (intro made_from_new[of _ _ "Some pnt"]) (auto simp: Some)
        qed
        moreover have "length (lg_cats st) \<le> p" if "r = Some p" for p
          using g m none that unfolding grown_def by (metis option.distinct(1))
        ultimately show ?thesis using m g 1(4) by (auto simp: found_or_made_def)
      qed
    qed
  qed
qed

text \<open>C40: \<open>getInstance\<close> keeps all categories and all names and makes what is missing. What it returns is found under
  the name, so that it is returned again. If it was not there before, it is new, and was made from the category of the father's name, whose
  levels and appenders it has, unless a name that it starts with has the same key. It fails only for a leading dot or where no node can be allocated.\<close>

theorem getInstance_found:
  assumes "cats_ok st" and "getInstance mem name st = (r, st')"
  shows "found_or_made mem name st r st' \<and> (\<forall>p. r = Some p \<longrightarrow> getInstance mem' name st' = (Some p, st'))"
proof (cases "name \<noteq> [] \<and> hd name = CHR ''.''")
  case True
  then have "r = None" "st' = st" using assms(2) by (simp_all add: getInstance.simps[of mem name st])
  then show ?thesis using True assms(1) grown_refl by (simp add: found_or_made_def)
next
  case False
  then have "found_or_made mem name st r st'" using getInstance_spec assms by blast
  then show ?thesis using False by (auto simp: found_or_made_def getInstance.simps[of mem' name st'])
qed

theorem getInstance_found_witness:
  "\<exists>st p st'. cats_ok st \<and> getInstance True ''a.b'' st = (Some p, st') \<and> getInstance False ''a.b'' st' = (Some p, st') \<and> made_from st' ''a.b'' p
     \<and> getFather ''a.b'' = Some ''a''"
proof -
  let ?reg = "snd (names_create True (lg_names some_logs))"
  let ?st = "some_logs\<lparr>lg_names := ?reg, lg_cats := []\<rparr>"
  have "names_create True (lg_names some_logs) = (0, ?reg)" by (simp add: names_create_def hash_create_def)
  then have reg: "hash_inv ?reg" "hash_content ?reg = Map.empty"
    using hash_create_inv[OF \<open>names_create True (lg_names some_logs) = (0, ?reg)\<close>[unfolded names_create_def]] by (simp_all add: names_create_def)
  have none: "cat_named ?st n = None" for n using reg by (simp add: names_get_content)
  have ok: "cats_ok ?st" unfolding cats_ok_def none using reg(1) by simp
  obtain r st' where g: "getInstance True ''a.b'' ?st = (r, st')" by fastforce
  note f = getInstance_found[OF ok g, of False]
  obtain p where p: "r = Some p" using f by (auto simp: found_or_made_def)
  have "\<not> same_key m ''a.b''" if "strict_prefix m ''a.b''" for m
    using short_keys[of type_category m type_category "''a.b''"] that prefix_length_less[OF that] set_mono_prefix[OF strict_prefix_def[THEN iffD1, OF that, THEN conjunct1]]
    by (auto simp: same_key_def short_name_def type_category_def cstr_ok_def)
  then have "made_from st' ''a.b'' p" using f p none by (simp add: found_or_made_def)
  moreover have "getFather ''a.b'' = Some ''a''" by (simp add: getFather_def snprintf_buf_def COM_MAXCATEGORYNAMESIZE_def)
  ultimately show ?thesis using ok g f p by blast
qed

section \<open>A mask that stays behind\<close>

text \<open>\<open>removeAppender\<close> moves the later appenders down, but not their masks: the second is no longer masked, and the
  third is.\<close>

theorem mask_stays:
  "let c = \<lparr>cat_parent = None, cat_stat = None, cat_apps = [5, 6, 7], cat_mask = [False, True, False], cat_mask_flag = True\<rparr>; c' = removeAppender (Some 5) c
   in cat_apps c' = [6, 7] \<and> cat_mask c' = [False, True, False]"
  by (simp add: removeAppender_def)

end
