(* ===== verification/Ul_String.thy ===== *)
theory Ul_String
  imports Url_Tables
begin

text \<open>
  The string helpers of \<^verbatim>\<open>ullib/src/ul_string.cpp\<close>: the character sets and case tables, the word readers
  \<open>ul_sgetw\<close> and \<open>ul_sgetw_ana\<close>, the case-insensitive comparison, lower-casing, and the bounded
  \<open>ul_strlcpy\<close> and \<open>ul_strlcat\<close>.

  The destination of a copy is the block of memory it lies in, a list of bytes with the terminator among
  them; a source is a C string. \<open>None\<close> is an access outside a block or outside a table.
\<close>

section \<open>The tables\<close>

definition legal_char_set :: table where
  "legal_char_set = [
    1, 1, 1, 1, 1, 1, 1, 1, 1, 0, 0, 1, 1, 0, 1, 1,
    1, 1, 1, 1, 1, 1, 1, 1, 1, 1, 1, 1, 1, 1, 1, 1,
    0, 1, 1, 1, 1, 1, 1, 1, 1, 1, 1, 1, 1, 1, 1, 1,
    1, 1, 1, 1, 1, 1, 1, 1, 1, 1, 1, 1, 1, 1, 1, 1,
    1, 1, 1, 1, 1, 1, 1, 1, 1, 1, 1, 1, 1, 1, 1, 1,
    1, 1, 1, 1, 1, 1, 1, 1, 1, 1, 1, 1, 1, 1, 1, 1,
    1, 1, 1, 1, 1, 1, 1, 1, 1, 1, 1, 1, 1, 1, 1, 1,
    1, 1, 1, 1, 1, 1, 1, 1, 1, 1, 1, 1, 1, 1, 1, 1,
    1, 1, 1, 1, 1, 1, 1, 1, 1, 1, 1, 1, 1, 1, 1, 1,
    1, 1, 1, 1, 1, 1, 1, 1, 1, 1, 1, 1, 1, 1, 1, 1,
    1, 1, 1, 1, 1, 1, 1, 1, 1, 1, 1, 1, 1, 1, 1, 1,
    1, 1, 1, 1, 1, 1, 1, 1, 1, 1, 1, 1, 1, 1, 1, 1,
    1, 1, 1, 1, 1, 1, 1, 1, 1, 1, 1, 1, 1, 1, 1, 1,
    1, 1, 1, 1, 1, 1, 1, 1, 1, 1, 1, 1, 1, 1, 1, 1,
    1, 1, 1, 1, 1, 1, 1, 1, 1, 1, 1, 1, 1, 1, 1, 1,
    1, 1, 1, 1, 1, 1, 1, 1, 1, 1, 1, 1, 1, 1, 1, 1]"

definition url_eng_set :: table where
  "url_eng_set = [
    0, 0, 0, 0, 0, 0, 0, 0, 0, 0, 0, 0, 0, 0, 0, 0,
    0, 0, 0, 0, 0, 0, 0, 0, 0, 0, 0, 0, 0, 0, 0, 0,
    0, 0, 0, 0, 0, 0, 0, 0, 0, 0, 0, 0, 0, 0, 0, 0,
    1, 1, 1, 1, 1, 1, 1, 1, 1, 1, 0, 0, 0, 0, 0, 0,
    0, 1, 1, 1, 1, 1, 1, 1, 1, 1, 1, 1, 1, 1, 1, 1,
    1, 1, 1, 1, 1, 1, 1, 1, 1, 1, 1, 0, 0, 0, 0, 0,
    0, 1, 1, 1, 1, 1, 1, 1, 1, 1, 1, 1, 1, 1, 1, 1,
    1, 1, 1, 1, 1, 1, 1, 1, 1, 1, 1, 0, 0, 0, 0, 0,
    0, 0, 0, 0, 0, 0, 0, 0, 0, 0, 0, 0, 0, 0, 0, 0,
    0, 0, 0, 0, 0, 0, 0, 0, 0, 0, 0, 0, 0, 0, 0, 0,
    0, 0, 0, 0, 0, 0, 0, 0, 0, 0, 0, 0, 0, 0, 0, 0,
    0, 0, 0, 0, 0, 0, 0, 0, 0, 0, 0, 0, 0, 0, 0, 0,
    0, 0, 0, 0, 0, 0, 0, 0, 0, 0, 0, 0, 0, 0, 0, 0,
    0, 0, 0, 0, 0, 0, 0, 0, 0, 0, 0, 0, 0, 0, 0, 0,
    0, 0, 0, 0, 0, 0, 0, 0, 0, 0, 0, 0, 0, 0, 0, 0,
    0, 0, 0, 0, 0, 0, 0, 0, 0, 0, 0, 0, 0, 0, 0, 0]"

definition legal_word_set :: table where
  "legal_word_set = [
    0, 0, 0, 0, 0, 0, 0, 0, 0, 0, 0, 0, 0, 0, 0, 0,
    0, 0, 0, 0, 0, 0, 0, 0, 0, 0, 0, 0, 0, 0, 0, 0,
    0, 0, 0, 0, 0, 0, 0, 0, 0, 0, 0, 0, 0, 0, 0, 0,
    1, 1, 1, 1, 1, 1, 1, 1, 1, 1, 0, 0, 0, 0, 0, 0,
    0, 1, 1, 1, 1, 1, 1, 1, 1, 1, 1, 1, 1, 1, 1, 1,
    1, 1, 1, 1, 1, 1, 1, 1, 1, 1, 1, 0, 0, 0, 0, 0,
    0, 1, 1, 1, 1, 1, 1, 1, 1, 1, 1, 1, 1, 1, 1, 1,
    1, 1, 1, 1, 1, 1, 1, 1, 1, 1, 1, 0, 0, 0, 0, 0,
    0, 0, 0, 0, 0, 0, 0, 0, 0, 0, 0, 0, 0, 0, 0, 0,
    0, 0, 0, 0, 0, 0, 0, 0, 0, 0, 0, 0, 0, 0, 0, 0,
    0, 1, 1, 1, 1, 1, 1, 1, 1, 1, 1, 1, 1, 1, 1, 1,
    1, 1, 1, 1, 1, 1, 1, 1, 1, 1, 1, 1, 1, 1, 1, 1,
    1, 1, 1, 1, 1, 1, 1, 1, 1, 1, 1, 1, 1, 1, 1, 1,
    1, 1, 1, 1, 1, 1, 1, 1, 1, 1, 1, 1, 1, 1, 1, 1,
    1, 1, 1, 1, 1, 1, 1, 1, 1, 1, 1, 1, 1, 1, 1, 1,
    1, 1, 1, 1, 1, 1, 1, 1, 1, 1, 1, 1, 1, 1, 1, 0]"

definition UL_CHAR_SPACE :: table where
  "UL_CHAR_SPACE = [
    1, 0, 0, 0, 0, 0, 0, 0, 0, 1, 1, 1, 1, 1, 0, 0,
    0, 0, 0, 0, 0, 0, 0, 0, 0, 0, 0, 0, 0, 0, 0, 0,
    1, 0, 0, 0, 0, 0, 0, 0, 0, 0, 0, 0, 0, 0, 0, 0,
    0, 0, 0, 0, 0, 0, 0, 0, 0, 0, 0, 0, 0, 0, 0, 0,
    0, 0, 0, 0, 0, 0, 0, 0, 0, 0, 0, 0, 0, 0, 0, 0,
    0, 0, 0, 0, 0, 0, 0, 0, 0, 0, 0, 0, 0, 0, 0, 0,
    0, 0, 0, 0, 0, 0, 0, 0, 0, 0, 0, 0, 0, 0, 0, 0,
    0, 0, 0, 0, 0, 0, 0, 0, 0, 0, 0, 0, 0, 0, 0, 0,
    0, 0, 0, 0, 0, 0, 0, 0, 0, 0, 0, 0, 0, 0, 0, 0,
    0, 0, 0, 0, 0, 0, 0, 0, 0, 0, 0, 0, 0, 0, 0, 0,
    0, 0, 0, 0, 0, 0, 0, 0, 0, 0, 0, 0, 0, 0, 0, 0,
    0, 0, 0, 0, 0, 0, 0, 0, 0, 0, 0, 0, 0, 0, 0, 0,
    0, 0, 0, 0, 0, 0, 0, 0, 0, 0, 0, 0, 0, 0, 0, 0,
    0, 0, 0, 0, 0, 0, 0, 0, 0, 0, 0, 0, 0, 0, 0, 0,
    0, 0, 0, 0, 0, 0, 0, 0, 0, 0, 0, 0, 0, 0, 0, 0,
    0, 0, 0, 0, 0, 0, 0, 0, 0, 0, 0, 0, 0, 0, 0, 0]"

definition G_MAP :: table where
  "G_MAP = [
    0, 1, 2, 3, 4, 5, 6, 7, 8, 9, 10, 11, 12, 13, 14, 15,
    16, 17, 18, 19, 20, 21, 22, 23, 24, 25, 26, 27, 28, 29, 30, 31,
    32, 33, 34, 35, 36, 37, 38, 39, 40, 41, 42, 43, 44, 45, 46, 47,
    48, 49, 50, 51, 52, 53, 54, 55, 56, 57, 58, 59, 60, 61, 62, 63,
    64, 97, 98, 99, 100, 101, 102, 103, 104, 105, 106, 107, 108, 109, 110, 111,
    112, 113, 114, 115, 116, 117, 118, 119, 120, 121, 122, 91, 92, 93, 94, 95,
    96, 97, 98, 99, 100, 101, 102, 103, 104, 105, 106, 107, 108, 109, 110, 111,
    112, 113, 114, 115, 116, 117, 118, 119, 120, 121, 122, 123, 124, 125, 126, 127,
    128, 129, 130, 131, 132, 133, 134, 135, 136, 137, 138, 139, 140, 141, 142, 143,
    144, 145, 146, 147, 148, 149, 150, 151, 152, 153, 154, 155, 156, 157, 158, 159,
    160, 161, 162, 163, 164, 165, 166, 167, 168, 169, 170, 171, 172, 173, 174, 175,
    176, 177, 178, 179, 180, 181, 182, 183, 184, 185, 186, 187, 188, 189, 190, 191,
    192, 193, 194, 195, 196, 197, 198, 199, 200, 201, 202, 203, 204, 205, 206, 207,
    208, 209, 210, 211, 212, 213, 214, 215, 216, 217, 218, 219, 220, 221, 222, 223,
    224, 225, 226, 227, 228, 229, 230, 231, 232, 233, 234, 235, 236, 237, 238, 239,
    240, 241, 242, 243, 244, 245, 246, 247, 248, 249, 250, 251, 252, 253, 254, 255]"

definition UL_CHAR_ALPHA_LOW :: table where
  "UL_CHAR_ALPHA_LOW = [
    0, 1, 2, 3, 4, 5, 6, 7, 8, 9, 10, 11, 12, 13, 14, 15,
    16, 17, 18, 19, 20, 21, 22, 23, 24, 25, 26, 27, 28, 29, 30, 31,
    32, 33, 34, 35, 36, 37, 38, 39, 40, 41, 42, 43, 44, 45, 46, 47,
    48, 49, 50, 51, 52, 53, 54, 55, 56, 57, 58, 59, 60, 61, 62, 63,
    64, 97, 98, 99, 100, 101, 102, 103, 104, 105, 106, 107, 108, 109, 110, 111,
    112, 113, 114, 115, 116, 117, 118, 119, 120, 121, 122, 91, 92, 93, 94, 95,
    96, 97, 98, 99, 100, 101, 102, 103, 104, 105, 106, 107, 108, 109, 110, 111,
    112, 113, 114, 115, 116, 117, 118, 119, 120, 121, 122, 123, 124, 125, 126, 127,
    128, 129, 130, 131, 132, 133, 134, 135, 136, 137, 138, 139, 140, 141, 142, 143,
    144, 145, 146, 147, 148, 149, 150, 151, 152, 153, 154, 155, 156, 157, 158, 159,
    160, 161, 162, 163, 164, 165, 166, 167, 168, 169, 170, 171, 172, 173, 174, 175,
    176, 177, 178, 179, 180, 181, 182, 183, 184, 185, 186, 187, 188, 189, 190, 191,
    192, 193, 194, 195, 196, 197, 198, 199, 200, 201, 202, 203, 204, 205, 206, 207,
    208, 209, 210, 211, 212, 213, 214, 215, 216, 217, 218, 219, 220, 221, 222, 223,
    224, 225, 226, 227, 228, 229, 230, 231, 232, 233, 234, 235, 236, 237, 238, 239,
    240, 241, 242, 243, 244, 245, 246, 247, 248, 249, 250, 251, 252, 253, 254, 255]"

section \<open>Reading words\<close>

fun skip_outside :: "table \<Rightarrow> cstr \<Rightarrow> cstr" where
  \<comment> \<open>\<open>while (!(charset[*ps]) && (*ps != 0)) ps++;\<close>\<close>
  "skip_outside charset [] = []"
| "skip_outside charset (c # s) = (if \<not> tab charset c then skip_outside charset s else c # s)"

fun copy_inside :: "table \<Rightarrow> cstr \<Rightarrow> cstr \<times> cstr" where
  \<comment> \<open>\<open>while (charset[*ps] && (*ps != 0)) *(pr++) = *(ps++);\<close>: what is copied and the text at \<open>ps\<close>\<close>
  "copy_inside charset [] = ([], [])"
| "copy_inside charset (c # s) =
     (if tab charset c then (case copy_inside charset s of (w, r) \<Rightarrow> (c # w, r)) else ([], c # s))"

definition ul_sgetw :: "cstr \<Rightarrow> table \<Rightarrow> cstr \<times> cstr" where
  \<comment> \<open>the text at the returned pointer and the word in \<open>ps_result\<close>\<close>
  "ul_sgetw ps_src charset =
     (case copy_inside charset (skip_outside charset ps_src) of (w, r) \<Rightarrow> (skip_outside charset r, w))"

definition IS_GB_CODE :: "cstr \<Rightarrow> bool" where
  \<comment> \<open>the two bytes at the pointer are a GB character; the terminator is no second byte\<close>
  "IS_GB_CODE cst \<longleftrightarrow>
     2 \<le> length cst \<and> 0xB0 \<le> (of_char (cst ! 0) :: nat) \<and> (of_char (cst ! 0) :: nat) \<le> 0xF7
     \<and> 0xA1 \<le> (of_char (cst ! 1) :: nat) \<and> (of_char (cst ! 1) :: nat) \<le> 0xFE"

fun skip_outside_gb :: "table \<Rightarrow> cstr \<Rightarrow> cstr" where
  "skip_outside_gb charset [] = []"
| "skip_outside_gb charset (c # s) =
     (if \<not> tab charset c \<and> \<not> IS_GB_CODE (c # s) then skip_outside_gb charset s else c # s)"

definition ul_sgetw_ana :: "cstr \<Rightarrow> table \<Rightarrow> (cstr \<times> cstr) option" where
  \<comment> \<open>\<open>None\<close>: the terminator is copied as a second byte and passed\<close>
  "ul_sgetw_ana ps_src charset =
     (case skip_outside_gb charset ps_src of
        [] \<Rightarrow> Some ([], [])
      | c # s \<Rightarrow>
          if (of_char c :: nat) < 128
          then (case copy_inside charset (c # s) of (w, r) \<Rightarrow> Some (skip_outside_gb charset r, w))
          else (case s of
                  [] \<Rightarrow> None
                | d # r \<Rightarrow> Some (skip_outside_gb charset r, [c, d])))"

section \<open>Case\<close>

fun ul_strncasecmp :: "char list \<Rightarrow> char list \<Rightarrow> nat \<Rightarrow> nat option" where
  \<comment> \<open>the blocks from \<open>s1\<close> and \<open>s2\<close> on. The bytes are compared before \<open>n\<close> is looked at, and a \<open>char\<close> from 128
      on is a negative index; \<open>n\<close> is assumed to be an \<open>int\<close>\<close>
  "ul_strncasecmp (a # s1) (b # s2) n =
     (if 128 \<le> (of_char a :: nat) \<or> 128 \<le> (of_char b :: nat) then None
      else if G_MAP ! of_char a = G_MAP ! of_char b \<and> 0 < n then ul_strncasecmp s1 s2 (n - 1) else Some n)"
| "ul_strncasecmp _ _ n = None"

definition ul_tolower :: "char \<Rightarrow> nat" where
  "ul_tolower srcchar = UL_CHAR_ALPHA_LOW ! of_char srcchar"

fun tolower_loop :: "cstr \<Rightarrow> cstr" where
  "tolower_loop [] = []"
| "tolower_loop (c # s) = char_of (UL_CHAR_ALPHA_LOW ! of_char c) # tolower_loop s"

definition ul_tolowerstr_singlebuf :: "cstr option \<Rightarrow> int \<times> cstr option" where
  "ul_tolowerstr_singlebuf pstr = (case pstr of None \<Rightarrow> (0, None) | Some s \<Rightarrow> (1, Some (tolower_loop s)))"

fun tolowerstr_loop :: "char list \<Rightarrow> nat \<Rightarrow> cstr \<Rightarrow> char list option" where
  \<comment> \<open>the loop and the final terminator; \<open>d\<close> is the offset of \<open>dststr\<close>\<close>
  "tolowerstr_loop dst d [] = (if d < length dst then Some (dst[d := NUL]) else None)"
| "tolowerstr_loop dst d (c # s) =
     (if d < length dst then tolowerstr_loop (dst[d := char_of (UL_CHAR_ALPHA_LOW ! of_char c)]) (Suc d) s else None)"

definition ul_tolowerstr :: "char list option \<Rightarrow> cstr option \<Rightarrow> (int \<times> char list option) option" where
  "ul_tolowerstr dststr srcstr =
     (case (srcstr, dststr) of
        (Some s, Some dst) \<Rightarrow> map_option (\<lambda>d. (1, Some d)) (tolowerstr_loop dst 0 s)
      | _ \<Rightarrow> Some (0, dststr))"

section \<open>Bounded copying\<close>

fun strlcpy_loop :: "char list \<Rightarrow> nat \<Rightarrow> cstr \<Rightarrow> nat \<Rightarrow> (char list \<times> nat \<times> nat \<times> nat) option" where
  \<comment> \<open>\<open>do { if ((*d++ = *s++) == 0) break; } while (--n != 0);\<close> for \<open>n > 0\<close>: the block, the offset of \<open>d\<close>, what
      \<open>s\<close> has left to pass, its terminator included, and \<open>n\<close>\<close>
  "strlcpy_loop dst d s 0 = Some (dst, d, Suc (length s), 0)"
| "strlcpy_loop dst d s (Suc n) =
     (if length dst \<le> d then None
      else case s of
        [] \<Rightarrow> Some (dst[d := NUL], Suc d, 0, Suc n)
      | c # s' \<Rightarrow> strlcpy_loop (dst[d := c]) (Suc d) s' n)"

definition ul_strlcpy :: "char list \<Rightarrow> cstr \<Rightarrow> nat \<Rightarrow> (nat \<times> char list) option" where
  \<comment> \<open>the copied part and the part that is only traversed make up the returned count\<close>
  "ul_strlcpy dst src siz =
     (case (if siz \<noteq> 0 \<and> siz - 1 \<noteq> 0 then strlcpy_loop dst 0 src (siz - 1)
            else Some (dst, 0, Suc (length src), 0)) of
        None \<Rightarrow> None
      | Some (dst', d, left, n) \<Rightarrow>
          (let s = Suc (length src) - left in
           if n = 0 then
             (if siz \<noteq> 0 then
                (if length dst' \<le> d then None else Some (s + left - 1, dst'[d := NUL]))
              else Some (s + left - 1, dst'))
           else Some (s - 1, dst')))"

fun strlcat_end :: "char list \<Rightarrow> nat \<Rightarrow> nat \<Rightarrow> nat option" where
  \<comment> \<open>\<open>while (n-- != 0 && *d != '\0') d++;\<close>: the offset of \<open>d\<close>\<close>
  "strlcat_end dst d 0 = Some d"
| "strlcat_end dst d (Suc n) =
     (if length dst \<le> d then None else if dst ! d \<noteq> NUL then strlcat_end dst (Suc d) n else Some d)"

fun strlcat_loop :: "char list \<Rightarrow> nat \<Rightarrow> cstr \<Rightarrow> nat \<Rightarrow> char list option" where
  \<comment> \<open>\<open>while (*s != '\0')\<close> and the terminator\<close>
  "strlcat_loop dst d [] n = (if length dst \<le> d then None else Some (dst[d := NUL]))"
| "strlcat_loop dst d (c # s) n =
     (if n \<noteq> 1 then (if length dst \<le> d then None else strlcat_loop (dst[d := c]) (Suc d) s (n - 1))
      else strlcat_loop dst d s n)"

definition ul_strlcat :: "char list \<Rightarrow> cstr \<Rightarrow> nat \<Rightarrow> (nat \<times> char list) option" where
  "ul_strlcat dst src siz =
     (case strlcat_end dst 0 siz of
        None \<Rightarrow> None
      | Some dlen \<Rightarrow>
          (let n = siz - dlen in
           if n = 0 then Some (dlen + length src, dst)
           else map_option (\<lambda>dst'. (dlen + length src, dst')) (strlcat_loop dst dlen src n)))"

section \<open>Facts about the tables and loops\<close>

lemma tolower_table: "UL_CHAR_ALPHA_LOW = map (\<lambda>n. if 65 \<le> n \<and> n \<le> 90 then n + 32 else n) [0..<256]"
  by code_simp

lemma G_MAP_eq: "G_MAP = UL_CHAR_ALPHA_LOW"
  by code_simp

lemma alpha_low_nth: "UL_CHAR_ALPHA_LOW ! of_char c = of_char (tolower c)"
proof (cases "65 \<le> (of_char c :: nat) \<and> (of_char c :: nat) \<le> 90")
  case True
  then have "of_char c + 32 < (256::nat)" by simp
  then have "of_char (char_of (of_char c + 32 :: nat) :: char) = (of_char c + 32 :: nat)" by simp
  with True show ?thesis by (simp add: tolower_table tolower_def)
next
  case False
  then have "of_char c < (65::nat) \<or> 90 < (of_char c :: nat)" by linarith
  then show ?thesis by (auto simp: tolower_table tolower_def)
qed

lemma tolower_loop_map: "tolower_loop s = map tolower s"
  by (induction s) (simp_all add: alpha_low_nth)

lemma skip_outside_dropWhile: "skip_outside cs s = dropWhile (\<lambda>c. \<not> tab cs c) s"
  by (induction s) auto

lemma copy_inside_split: "copy_inside cs s = (takeWhile (tab cs) s, dropWhile (tab cs) s)"
  by (induction s) auto

lemma tolowerstr_loop_eq:
  "tolowerstr_loop (a @ b) (length a) s =
     (if length s < length b then Some (a @ map tolower s @ NUL # drop (Suc (length s)) b) else None)"
proof (induction s arbitrary: a b)
  case Nil
  then show ?case by (cases b) auto
next
  case (Cons c s)
  show ?case
  proof (cases b)
    case (Cons y b')
    then show ?thesis using Cons.IH[of "a @ [tolower c]" b'] by (simp add: alpha_low_nth)
  qed simp
qed

lemma strlcpy_loop_eq:
  "n < length b \<Longrightarrow> strlcpy_loop (a @ b) (length a) s n =
     (if length s < n then Some (a @ s @ NUL # drop (Suc (length s)) b, Suc (length a + length s), 0, n - length s)
      else Some (a @ take n s @ drop n b, length a + n, Suc (length s - n), 0))"
proof (induction n arbitrary: a b s)
  case (Suc n)
  then obtain y b' where b: "b = y # b'" by (cases b) auto
  show ?case
  proof (cases s)
    case Nil
    then show ?thesis by (simp add: b)
  next
    case (Cons c s')
    then show ?thesis using Suc.IH[of b' "a @ [c]" s'] Suc.prems by (simp add: b)
  qed
qed simp

lemma strlcat_end_eq:
  "siz \<le> length b \<Longrightarrow> strlcat_end (a @ b) (length a) siz = Some (length a + length (takeWhile (\<lambda>c. c \<noteq> NUL) (take siz b)))"
proof (induction siz arbitrary: a b)
  case (Suc n)
  then obtain y b' where b: "b = y # b'" by (cases b) auto
  show ?case using Suc.IH[of b' "a @ [y]"] Suc.prems by (simp add: b nth_append)
qed simp

lemma strlcat_loop_eq:
  "0 < n \<Longrightarrow> n \<le> length b \<Longrightarrow> strlcat_loop (a @ b) (length a) s n =
     Some (a @ take (n - 1) s @ NUL # drop (Suc (min (n - 1) (length s))) b)"
proof (induction s arbitrary: a b n)
  case Nil
  then show ?case by (cases b) auto
next
  case (Cons c s)
  then obtain y b' where b: "b = y # b'" by (cases b) auto
  show ?case
  proof (cases "n = 1")
    case True
    then show ?thesis using Cons.IH[of 1 b a] Cons.prems by simp
  next
    case False
    then obtain m where n: "n = Suc (Suc m)" using Cons.prems(1) by (cases n; cases "n - 1") auto
    then show ?thesis using Cons.IH[of "Suc m" b' "a @ [c]"] Cons.prems by (simp add: b)
  qed
qed

section \<open>Properties\<close>

text \<open>\<open>ul_strlcpy\<close> stays within a buffer of \<open>siz\<close> bytes, leaves in it as much of the source as fits
  with a terminator behind it, touches nothing after that and returns the length of the source.\<close>

theorem strlcpy_spec:
  assumes "siz \<le> length dst"
  shows "ul_strlcpy dst src siz = Some (length src,
    if siz = 0 then dst else take (siz - 1) src @ NUL # drop (Suc (min (siz - 1) (length src))) dst)"
proof (cases "siz \<le> 1")
  case True
  then show ?thesis using assms by (cases siz; cases dst) (auto simp: ul_strlcpy_def)
next
  case False
  have "strlcpy_loop dst 0 src (siz - 1) =
     (if length src < siz - 1 then Some (src @ NUL # drop (Suc (length src)) dst, Suc (length src), 0, siz - 1 - length src)
      else Some (take (siz - 1) src @ drop (siz - 1) dst, siz - 1, Suc (length src - (siz - 1)), 0))"
    using strlcpy_loop_eq[of "siz - 1" dst "[]" src] False assms by simp
  moreover have "(take (siz - 1) src @ drop (siz - 1) dst)[siz - 1 := NUL] = take (siz - 1) src @ NUL # drop siz dst"
    if "\<not> length src < siz - 1"
  proof -
    have "drop (siz - 1) dst = dst ! (siz - 1) # drop siz dst"
      using Cons_nth_drop_Suc[of "siz - 1" dst] False assms by simp
    then show ?thesis using that by (simp add: list_update_append)
  qed
  ultimately show ?thesis using False assms by (auto simp: ul_strlcpy_def Let_def min_def)
qed

theorem strlcpy_spec_witness:
  "ul_strlcpy (replicate 4 CHR ''x'') ''hello'' 3 = Some (5, [CHR ''h'', CHR ''e'', NUL, CHR ''x''])"
  using strlcpy_spec[of 3 "replicate 4 CHR ''x''" "''hello''"] by (simp add: eval_nat_numeral)

text \<open>\<open>ul_strlcat\<close> appends to the text in the first \<open>siz\<close> bytes of the buffer what fits before a
  terminator, writes nothing when those bytes hold no terminator, and returns the length it tried to create.\<close>

theorem strlcat_spec:
  assumes "siz \<le> length dst"
  shows "ul_strlcat dst src siz =
    (let text = takeWhile (\<lambda>c. c \<noteq> NUL) (take siz dst); room = siz - length text in
     Some (length text + length src,
       if room = 0 then dst
       else text @ take (room - 1) src @ NUL # drop (length text + Suc (min (room - 1) (length src))) dst))"
proof -
  let ?text = "takeWhile (\<lambda>c. c \<noteq> NUL) (take siz dst)"
  have "length ?text \<le> length (take siz dst)" by (rule length_takeWhile_le)
  then have l: "length ?text \<le> siz" using assms by simp
  have t: "take (length ?text) dst = ?text" using l
    by (metis min.absorb1 take_take takeWhile_eq_take)
  have e: "strlcat_end dst 0 siz = Some (length ?text)" using strlcat_end_eq[OF assms, of "[]"] by simp
  show ?thesis
  proof (cases "siz - length ?text = 0")
    case True
    then show ?thesis by (simp add: ul_strlcat_def e Let_def)
  next
    case False
    have "dst = ?text @ drop (length ?text) dst" by (metis append_take_drop_id t)
    then have "strlcat_loop dst (length ?text) src (siz - length ?text) =
       Some (?text @ take (siz - length ?text - 1) src @
         NUL # drop (Suc (min (siz - length ?text - 1) (length src))) (drop (length ?text) dst))"
      using strlcat_loop_eq[of "siz - length ?text" "drop (length ?text) dst" ?text src] False assms by simp
    then show ?thesis using False by (simp add: ul_strlcat_def e Let_def add.commute)
  qed
qed

theorem strlcat_spec_witness:
  "ul_strlcat [CHR ''a'', NUL, CHR ''x'', CHR ''y''] ''bcd'' 3 = Some (4, [CHR ''a'', CHR ''b'', NUL, CHR ''y''])"
  using strlcat_spec[of 3 "[CHR ''a'', NUL, CHR ''x'', CHR ''y'']" "''bcd''"] by (simp add: eval_nat_numeral)

text \<open>\<open>ul_sgetw\<close> splits the text into what is skipped, the word, the separators behind it and the
  text it returns: the word is a longest run of characters of the set, the skipped text holds none of them,
  and it is empty only when the text has no character of the set left.\<close>

theorem sgetw_splits:
  assumes "ul_sgetw s cs = (r, w)"
  shows "\<exists>gap sep. s = gap @ w @ sep @ r \<and> list_all (tab cs) w
    \<and> list_all (\<lambda>c. \<not> tab cs c) (gap @ sep)
    \<and> (if r = [] then True else tab cs (hd r) \<and> sep \<noteq> [])
    \<and> (w = [] \<longleftrightarrow> list_all (\<lambda>c. \<not> tab cs c) s)"
proof -
  let ?t = "dropWhile (\<lambda>c. \<not> tab cs c) s"
  let ?u = "dropWhile (tab cs) ?t"
  have w: "w = takeWhile (tab cs) ?t" and r: "r = dropWhile (\<lambda>c. \<not> tab cs c) ?u"
    using assms by (simp_all add: ul_sgetw_def skip_outside_dropWhile copy_inside_split)
  let ?gap = "takeWhile (\<lambda>c. \<not> tab cs c) s" and ?sep = "takeWhile (\<lambda>c. \<not> tab cs c) ?u"
  have split: "s = ?gap @ w @ ?sep @ r" unfolding w r by simp
  have inside: "list_all (tab cs) w" unfolding w list_all_iff by (blast dest: set_takeWhileD)
  have outside: "list_all (\<lambda>c. \<not> tab cs c) (?gap @ ?sep)"
    unfolding list_all_iff set_append by (blast dest: set_takeWhileD)
  have next_word: "if r = [] then True else tab cs (hd r) \<and> ?sep \<noteq> []"
  proof (cases "r = []")
    case False
    then have "tab cs (hd r)" unfolding r using hd_dropWhile by blast
    moreover have "?sep \<noteq> []"
    proof
      assume none: "?sep = []"
      then have "r = ?u" unfolding r by (metis append_Nil takeWhile_dropWhile_id)
      with False have "\<not> tab cs (hd r)" using hd_dropWhile by metis
      with \<open>tab cs (hd r)\<close> show False by simp
    qed
    ultimately show ?thesis by simp
  qed simp
  have none_left: "w = [] \<longleftrightarrow> list_all (\<lambda>c. \<not> tab cs c) s"
  proof
    assume "w = []"
    have "?t = []"
    proof (rule ccontr)
      assume "?t \<noteq> []"
      then obtain c t where t: "?t = c # t" by (cases ?t) auto
      then have "tab cs c" using hd_dropWhile[of "\<lambda>c. \<not> tab cs c" s] by auto
      then show False using \<open>w = []\<close> unfolding w t by simp
    qed
    then show "list_all (\<lambda>c. \<not> tab cs c) s" by (simp add: list_all_iff dropWhile_eq_Nil_conv)
  next
    assume "list_all (\<lambda>c. \<not> tab cs c) s"
    then have "?t = []" by (simp add: list_all_iff dropWhile_eq_Nil_conv)
    then show "w = []" by (simp only: w takeWhile.simps)
  qed
  show ?thesis using split inside outside next_word none_left by blast
qed

theorem sgetw_splits_witness:
  "ul_sgetw '', ab, c'' url_eng_set = (''c'', ''ab'')
   \<and> (\<exists>gap sep. '', ab, c'' = gap @ ''ab'' @ sep @ ''c'' \<and> list_all (\<lambda>c. \<not> tab url_eng_set c) (gap @ sep))"
proof -
  have s: "ul_sgetw '', ab, c'' url_eng_set = (''c'', ''ab'')" by code_simp
  show ?thesis using sgetw_splits[OF s] s by blast
qed

text \<open>\<open>ul_tolowerstr\<close> writes the lower-case form of the source and a terminator to a destination that
  has room for it, and nothing behind it; \<open>ul_tolowerstr_singlebuf\<close> leaves the same text in place.\<close>

theorem tolowerstr_lowers:
  assumes "length s < length dst"
  shows "ul_tolowerstr (Some dst) (Some s) = Some (1, Some (map tolower s @ NUL # drop (Suc (length s)) dst))
    \<and> ul_tolowerstr_singlebuf (Some s) = (1, Some (map tolower s))"
  using tolowerstr_loop_eq[of "[]" dst s] assms
  by (simp add: ul_tolowerstr_def ul_tolowerstr_singlebuf_def tolower_loop_map)

theorem tolowerstr_lowers_witness:
  "ul_tolowerstr (Some ''xxx'') (Some ''A-'') = Some (1, Some [CHR ''a'', CHR ''-'', NUL])"
proof -
  have "map tolower ''A-'' = ''a-''" by code_simp
  then show ?thesis using tolowerstr_lowers[of "''A-''" "''xxx''"] by simp
qed

text \<open>On blocks of ASCII bytes longer than \<open>n\<close>, \<open>ul_strncasecmp\<close> returns, and it returns 0 exactly when the
  first \<open>n\<close> bytes agree up to case.\<close>

theorem strncasecmp_ascii:
  assumes "n < length s1" and "n < length s2"
    and "list_all (\<lambda>c. (of_char c :: nat) < 128) s1" and "list_all (\<lambda>c. (of_char c :: nat) < 128) s2"
  shows "\<exists>m. ul_strncasecmp s1 s2 n = Some m \<and> (m = 0 \<longleftrightarrow> map tolower (take n s1) = map tolower (take n s2))"
  using assms
proof (induction n arbitrary: s1 s2)
  case 0
  then obtain a t b u where "s1 = a # t" "s2 = b # u" by (cases s1; cases s2) auto
  with 0 show ?case by simp
next
  case (Suc n)
  then obtain a t b u where s: "s1 = a # t" "s2 = b # u" by (cases s1; cases s2) auto
  have "\<exists>m. ul_strncasecmp t u n = Some m \<and> (m = 0 \<longleftrightarrow> map tolower (take n t) = map tolower (take n u))"
    using Suc.IH[of t u] Suc.prems by (simp add: s)
  then show ?case using Suc.prems by (auto simp: s G_MAP_eq alpha_low_nth)
qed

theorem strncasecmp_ascii_witness:
  "ul_strncasecmp ''Http:'' ''hTTp/'' 4 = Some 0"
proof -
  have "map tolower (take 4 ''Http:'') = map tolower (take 4 ''hTTp/'')" by code_simp
  then show ?thesis using strncasecmp_ascii[of 4 "''Http:''" "''hTTp/''"] by simp
qed

lemma skip_outside_gb_ascii:
  "list_all (\<lambda>c. (of_char c :: nat) < 128) s \<Longrightarrow> skip_outside_gb cs s = skip_outside cs s"
  by (induction s) (auto simp: IS_GB_CODE_def)

lemma list_all_dropWhile: "list_all P s \<Longrightarrow> list_all P (dropWhile Q s)"
  unfolding list_all_iff by (blast dest: set_dropWhileD)

text \<open>On a text of ASCII bytes \<open>ul_sgetw_ana\<close> reads the word that \<open>ul_sgetw\<close> reads.\<close>

theorem sgetw_ana_ascii:
  assumes "list_all (\<lambda>c. (of_char c :: nat) < 128) s"
  shows "ul_sgetw_ana s cs = Some (ul_sgetw s cs)"
proof -
  let ?t = "skip_outside cs s"
  have t: "list_all (\<lambda>c. (of_char c :: nat) < 128) ?t"
    using assms by (simp add: skip_outside_dropWhile list_all_dropWhile)
  then have r: "list_all (\<lambda>c. (of_char c :: nat) < 128) (dropWhile (tab cs) ?t)"
    by (rule list_all_dropWhile)
  show ?thesis
  proof (cases ?t)
    case Nil
    then show ?thesis by (simp add: ul_sgetw_ana_def ul_sgetw_def skip_outside_gb_ascii[OF assms])
  next
    case (Cons c u)
    then have "(of_char c :: nat) < 128" using t by simp
    then show ?thesis
      using skip_outside_gb_ascii[OF r] Cons
      by (simp only: ul_sgetw_ana_def ul_sgetw_def skip_outside_gb_ascii[OF assms] copy_inside_split
          list.case if_True prod.case)
  qed
qed

theorem sgetw_ana_ascii_witness:
  "ul_sgetw_ana '', ab, c'' url_eng_set = Some (ul_sgetw '', ab, c'' url_eng_set)"
  by (rule sgetw_ana_ascii) simp

end
