(* ===== verification/Ul_Htmltag.thy ===== *)
theory Ul_Htmltag
  imports Ul_String
begin

text \<open>
  The tags of a page, from \<^verbatim>\<open>ullib/src/dep/dep_htmltag.cpp\<close>: \<open>ul_get_tagname\<close>, \<open>ul_get_nvpair\<close> and \<open>ul_get_taginfo\<close>, which
  take the name and the attributes of a tag from the text behind its opening bracket.

  A pointer into the page is the text from it on. The parameters that return something are options, where \<open>None\<close> is
  the null pointer; what \<open>*pend\<close> points to is again an option, where \<open>None\<close> is a pointer that was not set. The name and
  value in a structure are the texts in its arrays.
\<close>

unbundle bit_operations_syntax

section \<open>Structures\<close>

definition MAX_NVNAME_LEN :: nat where "MAX_NVNAME_LEN = 256"
definition MAX_NVVALUE_LEN :: nat where "MAX_NVVALUE_LEN = 1024"
definition MAX_TAG_LEN :: nat where "MAX_TAG_LEN = 256"
definition MAX_NVCOUNT_IN_TAG :: nat where "MAX_NVCOUNT_IN_TAG = 64"
definition TAG_NVSTATUS_OK :: nat where "TAG_NVSTATUS_OK = 0"
definition TAG_NVSTATUS_ONLYNAME :: nat where "TAG_NVSTATUS_ONLYNAME = 1"
definition TAG_NVSTATUS_LONGVALUE :: nat where "TAG_NVSTATUS_LONGVALUE = 2"
definition TAG_NVSTATUS_TRUNCATEDNAME :: nat where "TAG_NVSTATUS_TRUNCATEDNAME = 4"

lemmas tag_consts = MAX_NVNAME_LEN_def MAX_NVVALUE_LEN_def MAX_TAG_LEN_def MAX_NVCOUNT_IN_TAG_def
  TAG_NVSTATUS_OK_def TAG_NVSTATUS_ONLYNAME_def TAG_NVSTATUS_LONGVALUE_def TAG_NVSTATUS_TRUNCATEDNAME_def

record ul_nvpair_t =
  m_status :: nat
  m_name :: cstr
  m_value :: cstr

record ul_taginfo_t =
  m_tagname :: cstr
  m_nvcount :: nat
  m_nvlist :: "ul_nvpair_t list"

definition ul_isspace :: "char \<Rightarrow> bool" where
  \<comment> \<open>the terminator counts as a blank\<close>
  "ul_isspace c \<longleftrightarrow> tab UL_CHAR_SPACE c"

section \<open>The end of a tag\<close>

fun tagend_loop :: "cstr \<Rightarrow> cstr" where
  "tagend_loop [] = []"
| "tagend_loop (c # s) = (if c = CHR ''>'' then s else tagend_loop s)"

definition ul_jumpto_tagend :: "cstr option \<Rightarrow> cstr option" where
  "ul_jumpto_tagend remainder = map_option tagend_loop remainder"

section \<open>The name of a tag\<close>

definition ul_get_tagname ::
  "cstr option \<Rightarrow> cstr option \<Rightarrow> int \<Rightarrow> cstr option option \<Rightarrow> int \<times> cstr option \<times> cstr option option" where
  \<comment> \<open>the result, \<open>tagbuf\<close> and \<open>pend\<close>\<close>
  "ul_get_tagname piece tagbuf siz pend =
     (case (piece, tagbuf, pend) of
        (Some p, Some _, Some _) \<Rightarrow>
          if siz \<le> 0 then (-1, tagbuf, pend)
          else let t0 = dropWhile ul_isspace p in
            if t0 = [] then (-1, tagbuf, pend)
            else let t = dropWhile (\<lambda>c. \<not> ul_isspace c \<and> c \<noteq> CHR ''>'') t0 in
              if t = [] then (-1, tagbuf, pend)
              else let tagsize = length p - length t in
                if tagsize = 0 then (-2, tagbuf, pend)
                else if siz - 1 < int tagsize then (-3, tagbuf, pend)
                else (1, snd (ul_tolowerstr_singlebuf (Some (take tagsize p))), Some (Some t))
      | _ \<Rightarrow> (-1, tagbuf, pend))"

section \<open>An attribute\<close>

fun quoted_loop :: "char \<Rightarrow> cstr \<Rightarrow> cstr" where
  \<comment> \<open>\<open>while ((*tmp != *valuehead) && (*tmp != '\0'))\<close>\<close>
  "quoted_loop q [] = []"
| "quoted_loop q (c # s) =
     (if c = q then c # s
      else if c = CHR 0x5C \<and> s \<noteq> [] \<and> hd s = q then quoted_loop q (tl s)
      else quoted_loop q s)"

definition get_value_text :: "cstr \<Rightarrow> cstr \<times> cstr" where
  \<comment> \<open>from \<open>valuehead\<close>: \<open>tmp\<close> and \<open>valueend\<close>\<close>
  "get_value_text vh =
     (if vh = [] \<or> hd vh \<noteq> CHR 0x27 \<and> hd vh \<noteq> CHR 0x22
      then (let t = dropWhile (\<lambda>c. \<not> ul_isspace c \<and> c \<noteq> CHR ''>'') vh in (t, t))
      else let t = quoted_loop (hd vh) (tl vh) in (t, if t \<noteq> [] then tl t else t))"

definition nv_value :: "ul_nvpair_t \<Rightarrow> cstr \<Rightarrow> int \<times> ul_nvpair_t \<times> cstr" where
  \<comment> \<open>from the end of the name on: \<open>tmp\<close>\<close>
  "nv_value nv tmp0 =
     (let tmp = dropWhile ul_isspace tmp0 in
      if tmp = [] \<or> hd tmp \<noteq> CHR ''='' then
        (1, nv\<lparr>m_value := [], m_status := m_status nv OR TAG_NVSTATUS_ONLYNAME\<rparr>, tmp)
      else if tl tmp = [] \<or> ul_isspace (hd (tl tmp)) then
        (1, nv\<lparr>m_value := [], m_status := m_status nv OR TAG_NVSTATUS_ONLYNAME\<rparr>,
         dropWhile ul_isspace (if tl tmp \<noteq> [] then tl (tl tmp) else []))
      else case get_value_text (tl tmp) of (t, valueend) \<Rightarrow>
        let vsize = length (tl tmp) - length valueend in
        if MAX_NVVALUE_LEN - 1 < vsize then
          (1, nv\<lparr>m_value := [], m_status := m_status nv OR TAG_NVSTATUS_LONGVALUE\<rparr>, t)
        else (1, nv\<lparr>m_value := take vsize (tl tmp)\<rparr>, valueend))"

definition ul_get_nvpair ::
  "cstr option \<Rightarrow> ul_nvpair_t option \<Rightarrow> cstr option option \<Rightarrow> int \<times> ul_nvpair_t option \<times> cstr option option" where
  "ul_get_nvpair piece pnvpair pend =
     (case (piece, pnvpair, pend) of
        (Some p, Some nv0, Some _) \<Rightarrow>
          (let nv = nv0\<lparr>m_status := 0\<rparr>; namehead = dropWhile ul_isspace p in
           if namehead = [] then (-1, Some nv, pend)
           else let tmp = dropWhile (\<lambda>c. \<not> ul_isspace c \<and> c \<noteq> CHR ''>'' \<and> c \<noteq> CHR ''='') namehead in
             if tmp = [] then (-1, Some nv, pend)
             else let nsize = length namehead - length tmp in
               if MAX_NVNAME_LEN - 1 < nsize then
                 (case nv_value (nv\<lparr>m_name := take (MAX_NVNAME_LEN - 1) namehead,
                                    m_status := m_status nv OR TAG_NVSTATUS_TRUNCATEDNAME\<rparr>) tmp of
                    (r, nv', e) \<Rightarrow> (r, Some nv', Some (Some e)))
               else if nsize = 0 then
                 (if hd tmp = CHR ''>'' then (0, Some nv, Some (Some tmp)) else (-2, Some nv, Some (Some tmp)))
               else (case nv_value (nv\<lparr>m_name := take nsize namehead\<rparr>) tmp of
                       (r, nv', e) \<Rightarrow> (r, Some nv', Some (Some e))))
      | _ \<Rightarrow> (-1, pnvpair, pend))"

section \<open>A tag\<close>

function nv_loop :: "nat \<Rightarrow> cstr \<Rightarrow> cstr option \<Rightarrow> ul_taginfo_t \<Rightarrow> cstr option \<Rightarrow> int \<times> ul_taginfo_t \<times> cstr option" where
  \<comment> \<open>\<open>for (i = 0; i < MAX_NVCOUNT_IN_TAG; i++)\<close>: \<open>i\<close>, \<open>nvbegin\<close>, \<open>nextnv\<close>, \<open>*ptaginfo\<close>, \<open>*pend\<close>\<close>
  "nv_loop i nvbegin nextnv info pend =
     (if MAX_NVCOUNT_IN_TAG \<le> i then
        (2, info\<lparr>m_nvcount := MAX_NVCOUNT_IN_TAG\<rparr>, ul_jumpto_tagend nextnv)
      else case ul_get_nvpair (Some nvbegin) (Some (m_nvlist info ! i)) (Some nextnv) of (ret, nv, nextnv') \<Rightarrow>
        let info' = info\<lparr>m_nvlist := (m_nvlist info)[i := the nv]\<rparr>; next = the nextnv' in
        if ret = 0 then (1, info'\<lparr>m_nvcount := i\<rparr>, ul_jumpto_tagend next)
        else if ret = 1 then nv_loop (Suc i) (the next) next info' pend
        else if ret = -1 then (-1, info', pend)
        else if ret = -2 then (-4, info', ul_jumpto_tagend (Some nvbegin))
        else (-1, info', pend))"
  by pat_completeness auto
termination
  by (relation "measure (\<lambda>(i, _). MAX_NVCOUNT_IN_TAG - i)") auto

declare nv_loop.simps [simp del]

definition ul_get_taginfo ::
  "cstr option \<Rightarrow> ul_taginfo_t option \<Rightarrow> cstr option option \<Rightarrow> int \<times> ul_taginfo_t option \<times> cstr option option" where
  "ul_get_taginfo piece ptaginfo pend =
     (case (piece, ptaginfo, pend) of
        (Some p, Some info, Some e) \<Rightarrow>
          (case ul_get_tagname (Some p) (Some (m_tagname info)) (int MAX_TAG_LEN) (Some None) of (ret, name, remainder) \<Rightarrow>
             let info' = info\<lparr>m_tagname := the name\<rparr> in
             if ret = 1 then
               (case nv_loop 0 (the (the remainder)) None info' e of (r, i, e') \<Rightarrow> (r, Some i, Some e'))
             else if ret = -1 then (-1, Some info', pend)
             else if ret = -2 then (-2, Some info', Some (ul_jumpto_tagend (Some p)))
             else if ret = -3 then (-3, Some info', Some (ul_jumpto_tagend (Some p)))
             else (-1, Some info', pend))
      | _ \<Rightarrow> (-1, ptaginfo, pend))"

section \<open>Progress\<close>

lemma tagend_loop_suffix: "suffix (tagend_loop s) s"
  by (induction s) (auto simp: suffix_Cons)

lemma tagend_loop_shorter: "s \<noteq> [] \<Longrightarrow> length (tagend_loop s) < length s"
  using suffix_length_le[OF tagend_loop_suffix] by (cases s) (auto simp: le_imp_less_Suc)

lemma tagend_loop_before: "CHR ''>'' \<notin> set s \<Longrightarrow> tagend_loop (s @ CHR ''>'' # r) = r"
  by (induction s) auto

lemma quoted_loop_suffix: "suffix (quoted_loop q s) s"
proof (induction q s rule: quoted_loop.induct)
  case (2 q c s)
  show ?case
  proof (cases "c \<noteq> q \<and> c = CHR 0x5C \<and> s \<noteq> [] \<and> hd s = q")
    case True
    then have "suffix (quoted_loop q (tl s)) s" using 2(1) suffix_tl suffix_order.trans by blast
    then show ?thesis using True by (simp add: suffix_Cons)
  next
    case False
    then show ?thesis using 2(2) by (auto simp: suffix_Cons)
  qed
qed simp

lemma get_value_text_suffix: "get_value_text vh = (t, e) \<Longrightarrow> suffix t vh \<and> suffix e vh"
  using quoted_loop_suffix[of "hd vh" "tl vh"]
  by (auto simp: get_value_text_def Let_def suffix_dropWhile split: if_splits intro: suffix_order.trans[OF suffix_tl] suffix_tl
    suffix_order.trans[OF _ suffix_tl])

lemma nv_value_suffix: "nv_value nv s = (r, nv', e) \<Longrightarrow> r = 1 \<and> suffix e s"
proof -
  assume a: "nv_value nv s = (r, nv', e)"
  have t: "suffix (dropWhile ul_isspace s) s" by (rule suffix_dropWhile)
  have "suffix e (dropWhile ul_isspace s)"
    using a get_value_text_suffix[of "tl (dropWhile ul_isspace s)"]
    by (auto simp: nv_value_def Let_def suffix_Nil[THEN iffD2] split: if_splits prod.splits
      intro: suffix_order.trans[OF suffix_dropWhile] suffix_order.trans[OF suffix_tl] suffix_tl suffix_order.trans[OF _ suffix_tl])
  then show ?thesis using a t by (auto simp: nv_value_def Let_def split: if_splits prod.splits intro: suffix_order.trans)
qed

lemma dropWhile_space_hd: "dropWhile ul_isspace s = c # r \<Longrightarrow> \<not> ul_isspace c"
  using hd_dropWhile[of ul_isspace s] by auto

text \<open>What a call returns in \<open>*pend\<close> is a part of the text it was given; it is shorter when an attribute was found.\<close>

lemma nvpair_rest:
  assumes "ul_get_nvpair (Some p) (Some nv) (Some x) = (r, nv', x')"
  shows "(r = -1 \<and> x' = Some x) \<or> (\<exists>e. x' = Some (Some e) \<and> suffix e p \<and> (r \<in> {0, -2} \<or> r = 1 \<and> length e < length p))"
proof -
  let ?nm = "dropWhile ul_isspace p"
  let ?tmp = "dropWhile (\<lambda>c. \<not> ul_isspace c \<and> c \<noteq> CHR ''>'' \<and> c \<noteq> CHR ''='') ?nm"
  have s: "suffix ?nm p" "suffix ?tmp ?nm" by (simp_all add: suffix_dropWhile)
  then have sp: "suffix ?tmp p" by (auto intro: suffix_order.trans)
  have val: "length e < length p \<and> suffix e p" if "nv_value n ?tmp = (q, n', e)" "0 < length ?nm - length ?tmp" for n q n' e
    using nv_value_suffix[OF that(1)] that(2) sp suffix_length_le[OF s(1)] by (auto dest: suffix_length_le intro: suffix_order.trans)
  have one: "nv_value n ?tmp = (q, n', e) \<Longrightarrow> q = 1" for n q n' e using nv_value_suffix by blast
  show ?thesis
    using assms sp val one
    by (auto simp: ul_get_nvpair_def Let_def MAX_NVNAME_LEN_def split: if_splits prod.splits)
qed

lemma nv_loop_rest:
  assumes "nv_loop i b nx info x = (r, info', x')" and "i < MAX_NVCOUNT_IN_TAG \<or> nx = Some b"
  shows "r = -1 \<and> x' = x \<or> (\<exists>e. x' = Some e \<and> suffix e b)"
  using assms
proof (induction i b nx info x arbitrary: r info' x' rule: nv_loop.induct)
  case (1 i b nx info x)
  show ?case
  proof (cases "MAX_NVCOUNT_IN_TAG \<le> i")
    case True
    then show ?thesis using 1(2,3) tagend_loop_suffix
      by (subst (asm) nv_loop.simps) (auto simp: ul_jumpto_tagend_def)
  next
    case False
    obtain q nv n' where q: "ul_get_nvpair (Some b) (Some (m_nvlist info ! i)) (Some nx) = (q, nv, n')" by (metis prod_cases3)
    note rest = nvpair_rest[OF q]
    show ?thesis
    proof (cases "q = 1")
      case True
      then obtain e where e: "n' = Some (Some e)" "suffix e b" using rest by auto
      have "nv_loop (Suc i) e (Some e) (info\<lparr>m_nvlist := (m_nvlist info)[i := the nv]\<rparr>) x = (r, info', x')"
        using 1(2) False q True e(1) by (subst (asm) nv_loop.simps) simp
      then show ?thesis using 1(1)[OF False q[symmetric] refl refl refl] True e by (auto intro: suffix_order.trans)
    next
      case no: False
      have b: "suffix (tagend_loop b) b" by (rule tagend_loop_suffix)
      show ?thesis using 1(2) False q no rest b
        by (subst (asm) nv_loop.simps) (auto simp: ul_jumpto_tagend_def split: if_splits intro: suffix_order.trans[OF tagend_loop_suffix])
    qed
  qed
qed

lemma nv_loop_one:
  assumes "i < MAX_NVCOUNT_IN_TAG \<and> q = 1" and "ul_get_nvpair (Some b) (Some (m_nvlist info ! i)) (Some nx) = (q, nv, n')"
  shows "nv_loop i b nx info x = nv_loop (Suc i) (the (the n')) (the n') (info\<lparr>m_nvlist := (m_nvlist info)[i := the nv]\<rparr>) x"
  using assms by (subst nv_loop.simps) (simp add: Let_def)

lemma nv_loop_result: "nv_loop i b nx info x = (r, info', x') \<Longrightarrow> r \<in> {1, 2, -1, -4}"
proof (induction i b nx info x rule: nv_loop.induct)
  case (1 i b nx info x)
  obtain q nv n' where q: "ul_get_nvpair (Some b) (Some (m_nvlist info ! i)) (Some nx) = (q, nv, n')" by (metis prod_cases3)
  show ?case
  proof (cases "i < MAX_NVCOUNT_IN_TAG \<and> q = 1")
    case True
    then show ?thesis using 1(1)[OF _ q[symmetric] refl refl refl] 1(2) q by (subst (asm) nv_loop_one) auto
  next
    case False
    then show ?thesis using 1(2) q by (subst (asm) nv_loop.simps) (auto simp: Let_def split: if_splits)
  qed
qed

lemma tagname_rest:
  assumes "ul_get_tagname (Some p) (Some b) siz (Some x) = (r, name, x')"
  shows "r = 1 \<and> (\<exists>t. x' = Some (Some t) \<and> suffix t p \<and> length t < length p) \<or> r \<in> {-1, -2, -3} \<and> x' = Some x \<and> (r = -1 \<or> p \<noteq> [])"
  using assms
  by (auto simp: ul_get_tagname_def Let_def split: if_splits
    intro: suffix_order.trans[OF suffix_dropWhile suffix_dropWhile])

lemma taginfo_rest:
  assumes "ul_get_taginfo (Some p) (Some info) (Some x) = (r, i, x')"
  shows "r = -1 \<or> (\<exists>e. x' = Some (Some e) \<and> suffix e p \<and> length e < length p)"
proof -
  obtain q name y where q: "ul_get_tagname (Some p) (Some (m_tagname info)) (int MAX_TAG_LEN) (Some None) = (q, name, y)"
    by (metis prod_cases3)
  note n = tagname_rest[OF q]
  have e: "p \<noteq> [] \<Longrightarrow> suffix (tagend_loop p) p \<and> length (tagend_loop p) < length p"
    by (simp add: tagend_loop_suffix tagend_loop_shorter)
  show ?thesis
  proof (cases "q = 1")
    case False
    then show ?thesis using assms q n e by (auto simp: ul_get_taginfo_def ul_jumpto_tagend_def Let_def split: if_splits)
  next
    case True
    then obtain t where t: "y = Some (Some t)" "suffix t p" "length t < length p" using n by auto
    obtain r' i' x'' where l: "nv_loop 0 t None (info\<lparr>m_tagname := the name\<rparr>) x = (r', i', x'')" by (metis prod_cases3)
    have "r' = -1 \<or> (\<exists>e. x'' = Some e \<and> suffix e t)"
      using nv_loop_rest[OF l] by (auto simp: MAX_NVCOUNT_IN_TAG_def)
    moreover have "suffix e t \<Longrightarrow> suffix e p \<and> length e < length p" for e
      using t(2,3) suffix_order.trans[of e t p] suffix_length_le[of e t] by simp
    ultimately show ?thesis using assms q True t(1) l by (auto simp: ul_get_taginfo_def Let_def)
  qed
qed

section \<open>Reading a page tag by tag\<close>

function tags_of :: "ul_taginfo_t \<Rightarrow> cstr \<Rightarrow> (int \<times> ul_taginfo_t) list" where
  \<comment> \<open>the loop of the driver at the end of the file, from \<open>tagbegin = strchr(..., '<')\<close> on; it stops at an error that sets
      no \<open>*pend\<close>, where the driver would read the same tag again\<close>
  "tags_of info page =
     (case strchr page CHR ''<'' of
        None \<Rightarrow> []
      | Some i \<Rightarrow>
          (case ul_get_taginfo (Some (drop (Suc i) page)) (Some info) (Some None) of (r, info', pend) \<Rightarrow>
             if r = -1 then [] else (r, the info') # tags_of (the info') (the (the pend))))"
  by pat_completeness auto
termination
  by (relation "measure (\<lambda>(info, page). length page)") (auto dest!: sym[THEN taginfo_rest])

declare tags_of.simps [simp del]

section \<open>Tags and their text\<close>

datatype attr = Flag cstr | Plain cstr cstr | Quoted char cstr cstr

definition escape_quotes :: "char \<Rightarrow> cstr \<Rightarrow> cstr" where
  "escape_quotes q t = concat (map (\<lambda>c. if c = q then [CHR 0x5C, c] else [c]) t)"

fun attr_text :: "attr \<Rightarrow> cstr" where
  "attr_text (Flag n) = n"
| "attr_text (Plain n v) = n @ CHR ''='' # v"
| "attr_text (Quoted q n t) = n @ CHR ''='' # q # escape_quotes q t @ [q]"

fun nv_of :: "attr \<Rightarrow> ul_nvpair_t" where
  \<comment> \<open>the value of a quoted attribute keeps its quotes and its backslashes\<close>
  "nv_of (Flag n) = \<lparr>m_status = TAG_NVSTATUS_ONLYNAME, m_name = n, m_value = []\<rparr>"
| "nv_of (Plain n v) = \<lparr>m_status = TAG_NVSTATUS_OK, m_name = n, m_value = v\<rparr>"
| "nv_of (Quoted q n t) = \<lparr>m_status = TAG_NVSTATUS_OK, m_name = n, m_value = q # escape_quotes q t @ [q]\<rparr>"

definition attr_name_ok :: "cstr \<Rightarrow> bool" where
  "attr_name_ok n \<longleftrightarrow> n \<noteq> [] \<and> length n < MAX_NVNAME_LEN \<and> list_all (\<lambda>c. \<not> ul_isspace c \<and> c \<noteq> CHR ''>'' \<and> c \<noteq> CHR ''='') n"

definition is_quote :: "char \<Rightarrow> bool" where
  "is_quote c \<longleftrightarrow> c = CHR 0x27 \<or> c = CHR 0x22"

fun attr_ok :: "attr \<Rightarrow> bool" where
  "attr_ok (Flag n) \<longleftrightarrow> attr_name_ok n"
| "attr_ok (Plain n v) \<longleftrightarrow> attr_name_ok n \<and> v \<noteq> [] \<and> length v < MAX_NVVALUE_LEN \<and> \<not> is_quote (hd v)
     \<and> list_all (\<lambda>c. \<not> ul_isspace c \<and> c \<noteq> CHR ''>'') v"
| "attr_ok (Quoted q n t) \<longleftrightarrow> attr_name_ok n \<and> is_quote q \<and> length (escape_quotes q t) + 2 < MAX_NVVALUE_LEN
     \<and> (t = [] \<or> last t \<noteq> CHR 0x5C)"

definition tag_name_ok :: "cstr \<Rightarrow> bool" where
  "tag_name_ok n \<longleftrightarrow> n \<noteq> [] \<and> length n < MAX_TAG_LEN \<and> list_all (\<lambda>c. \<not> ul_isspace c \<and> c \<noteq> CHR ''>'') n"

definition attrs_text :: "attr list \<Rightarrow> cstr" where
  "attrs_text as = concat (map (\<lambda>a. CHR '' '' # attr_text a) as)"

definition tag_text :: "cstr \<Rightarrow> attr list \<Rightarrow> cstr" where
  "tag_text n as = CHR ''<'' # n @ attrs_text as @ ''>''"

section \<open>A tag is read back\<close>

lemma isspace_chars: "ul_isspace CHR '' ''" "\<not> ul_isspace CHR ''>''" "\<not> ul_isspace CHR ''=''" "\<not> ul_isspace CHR ''<''"
  "\<not> ul_isspace CHR 0x27" "\<not> ul_isspace CHR 0x22"
  by (simp_all add: ul_isspace_def tab_def UL_CHAR_SPACE_def)

lemma is_quote_facts: "is_quote q \<Longrightarrow> \<not> ul_isspace q \<and> q \<noteq> CHR 0x5C"
  by (auto simp: is_quote_def isspace_chars)

lemma quoted_escape:
  assumes "is_quote q" and "t = [] \<or> last t \<noteq> CHR 0x5C"
  shows "quoted_loop q (escape_quotes q t @ q # r) = q # r"
  using assms(2)
proof (induction t)
  case Nil
  then show ?case by (simp add: escape_quotes_def)
next
  case (Cons c t)
  have IH: "quoted_loop q (escape_quotes q t @ q # r) = q # r" using Cons by (auto split: if_splits)
  show ?case
  proof (cases "c = q")
    case True
    then show ?thesis using IH is_quote_facts[OF assms(1)] by (auto simp: escape_quotes_def)
  next
    case False
    have "c = CHR 0x5C \<Longrightarrow> hd (escape_quotes q t @ q # r) \<noteq> q"
      using Cons.prems is_quote_facts[OF assms(1)] by (cases t) (auto simp: escape_quotes_def)
    then show ?thesis using False IH by (auto simp: escape_quotes_def)
  qed
qed

definition tag_sep :: "cstr \<Rightarrow> bool" where
  \<comment> \<open>what may follow an attribute\<close>
  "tag_sep r \<longleftrightarrow> r \<noteq> [] \<and> (ul_isspace (hd r) \<or> hd r = CHR ''>'') \<and> (let d = dropWhile ul_isspace r in d = [] \<or> hd d \<noteq> CHR ''='')"

lemma dropWhile_run:
  assumes "list_all (\<lambda>c. \<not> ul_isspace c \<and> c \<noteq> CHR ''>'') v" and "tag_sep r"
  shows "dropWhile (\<lambda>c. \<not> ul_isspace c \<and> c \<noteq> CHR ''>'') (v @ r) = r"
  using assms by (cases r) (auto simp: tag_sep_def list_all_iff dropWhile_append2 isspace_chars)

lemma value_plain:
  assumes "v \<noteq> []" "\<not> is_quote (hd v)" "list_all (\<lambda>c. \<not> ul_isspace c \<and> c \<noteq> CHR ''>'') v" and "tag_sep r"
  shows "get_value_text (v @ r) = (r, r)"
  using assms dropWhile_run[OF assms(3,4)] by (simp add: get_value_text_def is_quote_def)

lemma value_quoted:
  assumes "is_quote q" and "t = [] \<or> last t \<noteq> CHR 0x5C"
  shows "get_value_text (q # escape_quotes q t @ q # r) = (q # r, r)"
  using quoted_escape[OF assms] assms(1) by (auto simp: get_value_text_def is_quote_def)

lemma nv_value_attr:
  assumes "attr_ok a" and "tag_sep r" and "attr_text a = n @ s" and "m_name (nv_of a) = n" and "m_status nv = 0" and "m_name nv = n"
  shows "\<exists>e. nv_value nv (s @ r) = (1, nv_of a, e) \<and> dropWhile ul_isspace e = dropWhile ul_isspace r"
proof (cases a)
  case (Flag m)
  then have "s = []" using assms(3,4) by simp
  then show ?thesis using Flag assms(2,4-6) by (cases nv) (auto simp: nv_value_def tag_sep_def Let_def)
next
  case (Plain m v)
  then have s: "s = CHR ''='' # v" using assms(3,4) by simp
  have v: "v \<noteq> []" "\<not> is_quote (hd v)" "list_all (\<lambda>c. \<not> ul_isspace c \<and> c \<noteq> CHR ''>'') v" "length v < MAX_NVVALUE_LEN"
    using assms(1) Plain by auto
  have h: "\<not> ul_isspace (hd (v @ r))" using v(1,3) by (cases v) auto
  have "\<not> MAX_NVVALUE_LEN - 1 < length v" using v(4) by simp
  then show ?thesis using Plain assms(4-6) s v(1) h value_plain[OF v(1-3) assms(2)]
    by (cases nv) (simp add: nv_value_def isspace_chars TAG_NVSTATUS_OK_def Let_def)
next
  case (Quoted q m t)
  then have s: "s = CHR ''='' # q # escape_quotes q t @ [q]" using assms(3,4) by simp
  have q: "is_quote q" "t = [] \<or> last t \<noteq> CHR 0x5C" "length (escape_quotes q t) + 2 < MAX_NVVALUE_LEN"
    using assms(1) Quoted by auto
  have "\<not> MAX_NVVALUE_LEN - 1 < length (escape_quotes q t) + 2" using q(3) by simp
  then show ?thesis using Quoted assms(4-6) s is_quote_facts[OF q(1)] value_quoted[OF q(1,2), of r]
    by (cases nv) (simp add: nv_value_def isspace_chars TAG_NVSTATUS_OK_def Let_def)
qed

lemma nvpair_attr:
  assumes "attr_ok a" and "tag_sep r" and "dropWhile ul_isspace p = attr_text a @ r"
  shows "\<exists>e. ul_get_nvpair (Some p) (Some nv) (Some x) = (1, Some (nv_of a), Some (Some e)) \<and> dropWhile ul_isspace e = dropWhile ul_isspace r"
proof -
  let ?n = "m_name (nv_of a)"
  have n: "attr_name_ok ?n" using assms(1) by (cases a) auto
  obtain s where s: "attr_text a = ?n @ s" "s = [] \<or> hd s = CHR ''=''" by (cases a) auto
  have nn: "?n \<noteq> []" "length ?n < MAX_NVNAME_LEN" "\<forall>c \<in> set ?n. \<not> ul_isspace c \<and> c \<noteq> CHR ''>'' \<and> c \<noteq> CHR ''=''"
    using n by (auto simp: attr_name_ok_def list_all_iff)
  have "s @ r \<noteq> []" and h: "ul_isspace (hd (s @ r)) \<or> hd (s @ r) = CHR ''>'' \<or> hd (s @ r) = CHR ''=''"
    using s(2) assms(2) by (auto simp: tag_sep_def hd_append)
  then have d: "dropWhile (\<lambda>c. \<not> ul_isspace c \<and> c \<noteq> CHR ''>'' \<and> c \<noteq> CHR ''='') (?n @ s @ r) = s @ r"
    using nn(3) by (cases "s @ r") (auto simp: dropWhile_append2)
  obtain e where "nv_value (nv\<lparr>m_status := 0, m_name := ?n\<rparr>) (s @ r) = (1, nv_of a, e)" "dropWhile ul_isspace e = dropWhile ul_isspace r"
    using nv_value_attr[OF assms(1,2) s(1) refl, of "nv\<lparr>m_status := 0, m_name := ?n\<rparr>"] by auto
  then show ?thesis using nn(1,2) d assms(3) s(1) \<open>s @ r \<noteq> []\<close>
    by (simp add: ul_get_nvpair_def Let_def MAX_NVNAME_LEN_def)
qed

lemma attr_text_starts: "attr_ok a \<Longrightarrow> \<exists>c s. attr_text a = c # s \<and> \<not> ul_isspace c \<and> c \<noteq> CHR ''>'' \<and> c \<noteq> CHR ''=''"
  by (cases a; cases "m_name (nv_of a)") (auto simp: attr_name_ok_def)

lemma attrs_text_Cons: "attrs_text (a # as) = CHR '' '' # attr_text a @ attrs_text as"
  by (simp add: attrs_text_def)

lemma attrs_sep: "list_all attr_ok as \<Longrightarrow> tag_sep (attrs_text as @ CHR ''>'' # r)"
proof (cases as)
  case Nil
  then show ?thesis by (simp add: attrs_text_def tag_sep_def isspace_chars)
next
  case (Cons a bs)
  assume "list_all attr_ok as"
  then obtain c s where "attr_text a = c # s" "\<not> ul_isspace c" "c \<noteq> CHR ''=''" using attr_text_starts[of a] Cons by auto
  then show ?thesis using Cons by (simp add: attrs_text_Cons tag_sep_def isspace_chars)
qed

lemma nv_loop_attrs:
  assumes "list_all attr_ok as" and "i + length as < MAX_NVCOUNT_IN_TAG" and "length (m_nvlist info) = MAX_NVCOUNT_IN_TAG"
    and "dropWhile ul_isspace b = dropWhile ul_isspace (attrs_text as @ CHR ''>'' # r)"
  shows "\<exists>info'. nv_loop i b nx info x = (1, info', Some r) \<and> m_tagname info' = m_tagname info \<and> m_nvcount info' = i + length as
    \<and> length (m_nvlist info') = MAX_NVCOUNT_IN_TAG \<and> take (i + length as) (m_nvlist info') = take i (m_nvlist info) @ map nv_of as"
  using assms
proof (induction as arbitrary: i b nx info)
  case Nil
  have "dropWhile ul_isspace b = CHR ''>'' # r" using Nil(4) by (simp add: attrs_text_def isspace_chars)
  then have "ul_get_nvpair (Some b) (Some nv) (Some y) = (0, Some (nv\<lparr>m_status := 0\<rparr>), Some (Some (CHR ''>'' # r)))" for nv y
    by (simp add: ul_get_nvpair_def MAX_NVNAME_LEN_def)
  then show ?case using Nil(2,3) by (subst nv_loop.simps) (simp add: ul_jumpto_tagend_def)
next
  case (Cons a as)
  let ?rest = "attrs_text as @ CHR ''>'' # r"
  obtain c s where cs: "attr_text a = c # s" "\<not> ul_isspace c" using attr_text_starts[of a] Cons.prems(1) by auto
  have b: "dropWhile ul_isspace b = attr_text a @ ?rest" using Cons.prems(4) cs by (simp add: attrs_text_Cons isspace_chars)
  have sep: "tag_sep ?rest" using Cons.prems(1) attrs_sep by simp
  have "attr_ok a" using Cons.prems(1) by simp
  then obtain e where e: "ul_get_nvpair (Some b) (Some (m_nvlist info ! i)) (Some nx) = (1, Some (nv_of a), Some (Some e))"
    "dropWhile ul_isspace e = dropWhile ul_isspace ?rest" using nvpair_attr[OF _ sep b] by blast
  let ?info = "info\<lparr>m_nvlist := (m_nvlist info)[i := nv_of a]\<rparr>"
  have "nv_loop i b nx info x = nv_loop (Suc i) e (Some e) ?info x"
    using e(1) Cons.prems(2) by (subst nv_loop.simps) simp
  moreover obtain info' where "nv_loop (Suc i) e (Some e) ?info x = (1, info', Some r)" "m_tagname info' = m_tagname ?info"
    "m_nvcount info' = Suc i + length as" "length (m_nvlist info') = MAX_NVCOUNT_IN_TAG" "take (Suc i + length as) (m_nvlist info') = take (Suc i) (m_nvlist ?info) @ map nv_of as"
    using Cons.IH[of "Suc i" ?info e "Some e"] Cons.prems(1-3) e(2) by auto
  moreover have "take (Suc i) ((m_nvlist info)[i := nv_of a]) = take i (m_nvlist info) @ [nv_of a]"
    using Cons.prems(2,3) by (simp add: take_Suc_conv_app_nth)
  ultimately show ?case by simp
qed

definition tag_info :: "cstr \<Rightarrow> attr list \<Rightarrow> ul_taginfo_t \<Rightarrow> bool" where
  \<comment> \<open>the structure holds the tag: its name in lower case and its attributes\<close>
  "tag_info n as i \<longleftrightarrow> m_tagname i = map tolower n \<and> m_nvcount i = length as \<and> take (m_nvcount i) (m_nvlist i) = map nv_of as"

lemma taginfo_tag:
  assumes "tag_name_ok n" and "list_all attr_ok as" and "length as < MAX_NVCOUNT_IN_TAG" and "length (m_nvlist info) = MAX_NVCOUNT_IN_TAG"
  shows "\<exists>i. ul_get_taginfo (Some (n @ attrs_text as @ CHR ''>'' # r)) (Some info) (Some x) = (1, Some i, Some (Some r)) \<and> tag_info n as i
    \<and> length (m_nvlist i) = MAX_NVCOUNT_IN_TAG"
proof -
  let ?rest = "attrs_text as @ CHR ''>'' # r"
  have n: "n \<noteq> []" "length n < MAX_TAG_LEN" "list_all (\<lambda>c. \<not> ul_isspace c \<and> c \<noteq> CHR ''>'') n" using assms(1) by (simp_all add: tag_name_ok_def)
  have sep: "tag_sep ?rest" by (rule attrs_sep[OF assms(2)])
  have d0: "dropWhile ul_isspace (n @ ?rest) = n @ ?rest" using n(1,3) by (cases n) auto
  have d: "dropWhile (\<lambda>c. \<not> ul_isspace c \<and> c \<noteq> CHR ''>'') (n @ ?rest) = ?rest" by (rule dropWhile_run[OF n(3) sep])
  have "\<not> int MAX_TAG_LEN - 1 < int (length n)" "0 < int MAX_TAG_LEN" using n(2) by simp_all
  then have t: "ul_get_tagname (Some (n @ ?rest)) (Some b) (int MAX_TAG_LEN) (Some None) = (1, Some (map tolower n), Some (Some ?rest))" for b
    using n(1) sep by (simp add: ul_get_tagname_def d0 d Let_def ul_tolowerstr_singlebuf_def tolower_loop_map tag_sep_def)
  obtain i where i: "nv_loop 0 ?rest None (info\<lparr>m_tagname := map tolower n\<rparr>) x = (1, i, Some r)" "m_tagname i = map tolower n"
    "m_nvcount i = length as" "length (m_nvlist i) = MAX_NVCOUNT_IN_TAG" "take (length as) (m_nvlist i) = map nv_of as"
    using nv_loop_attrs[OF assms(2), of 0 "info\<lparr>m_tagname := map tolower n\<rparr>" ?rest r None x] assms(3,4) by auto
  show ?thesis by (rule exI[of _ i]) (simp add: ul_get_taginfo_def t i tag_info_def)
qed

definition page_text :: "(cstr \<times> cstr \<times> attr list) list \<Rightarrow> cstr \<Rightarrow> cstr" where
  \<comment> \<open>tags with the text in front of each of them, and the text behind the last\<close>
  "page_text ps s = concat (map (\<lambda>(t, n, as). t @ tag_text n as) ps) @ s"

definition page_ok :: "(cstr \<times> cstr \<times> attr list) list \<Rightarrow> cstr \<Rightarrow> bool" where
  "page_ok ps s \<longleftrightarrow> CHR ''<'' \<notin> set s \<and> list_all (\<lambda>(t, n, as). CHR ''<'' \<notin> set t \<and> tag_name_ok n \<and> list_all attr_ok as
     \<and> length as < MAX_NVCOUNT_IN_TAG) ps"

text \<open>C23: a page made of text and tags is read back tag by tag: every tag gives the result 1, its name in lower case and its
  attributes in their order, with or without value, quoted or not; a quoted value may hold any characters, its own quotes behind
  backslashes, closing and opening brackets included.\<close>

theorem page_tags:
  assumes "page_ok ps s" and "length (m_nvlist info) = MAX_NVCOUNT_IN_TAG"
  shows "list_all2 (\<lambda>(t, n, as) (r, i). r = 1 \<and> tag_info n as i) ps (tags_of info (page_text ps s))"
  using assms
proof (induction ps arbitrary: info)
  case Nil
  then have "strchr s CHR ''<'' = None" by (simp add: page_ok_def strchr_None_iff)
  then show ?case by (subst tags_of.simps) (simp add: page_text_def)
next
  case (Cons p ps)
  obtain t n as where p: "p = (t, n, as)" by (cases p) auto
  have ok: "CHR ''<'' \<notin> set t" "tag_name_ok n" "list_all attr_ok as" "length as < MAX_NVCOUNT_IN_TAG" "page_ok ps s"
    using Cons.prems by (simp_all add: page_ok_def p)
  have pt: "page_text (p # ps) s = t @ CHR ''<'' # n @ attrs_text as @ CHR ''>'' # page_text ps s"
    by (simp add: page_text_def tag_text_def p)
  have at: "strchr (page_text (p # ps) s) CHR ''<'' = Some (length t)" using ok(1) by (simp add: pt strchr_append)
  have rest: "drop (Suc (length t)) (page_text (p # ps) s) = n @ attrs_text as @ CHR ''>'' # page_text ps s" by (simp add: pt)
  obtain i where i: "ul_get_taginfo (Some (n @ attrs_text as @ CHR ''>'' # page_text ps s)) (Some info) (Some None)
      = (1, Some i, Some (Some (page_text ps s)))" "tag_info n as i" "length (m_nvlist i) = MAX_NVCOUNT_IN_TAG"
    using taginfo_tag[OF ok(2-4) Cons.prems(2)] by blast
  have "tags_of info (page_text (p # ps) s) = (1, i) # tags_of i (page_text ps s)"
    by (subst tags_of.simps) (simp only: at rest i(1) option.case prod.case option.sel, simp)
  then show ?case using Cons.IH[OF ok(5) i(3)] i(2) by (simp add: p)
qed

theorem page_tags_witness:
  "list_all2 (\<lambda>(t, n, as) (r, i). r = 1 \<and> tag_info n as i)
     [(''see '', ''A'', [Plain ''href'' ''x'', Flag ''b'', Quoted CHR 0x27 ''t'' (''a>'' @ [CHR 0x27] @ ''<b'')]), ([], ''/a'', [])]
     (tags_of \<lparr>m_tagname = [], m_nvcount = 0, m_nvlist = replicate 64 \<lparr>m_status = 0, m_name = [], m_value = []\<rparr>\<rparr>
       (page_text [(''see '', ''A'', [Plain ''href'' ''x'', Flag ''b'', Quoted CHR 0x27 ''t'' (''a>'' @ [CHR 0x27] @ ''<b'')]), ([], ''/a'', [])]
         ''end''))"
  by (rule page_tags)
    (simp_all add: page_ok_def tag_name_ok_def attr_name_ok_def tag_consts ul_isspace_def tab_def UL_CHAR_SPACE_def is_quote_def escape_quotes_def)

text \<open>The three places where the results are not what the comments of the code say.\<close>

lemma name_keeps_blanks:
  \<comment> \<open>the blanks in front of the name are skipped, then copied into it\<close>
  "ul_get_tagname (Some ''  B>'') (Some []) 256 (Some None) = (1, Some ''  b'', Some (Some ''>''))"
  by code_simp

lemma long_value_leaves_quote:
  \<comment> \<open>behind a quoted value that is too long the text goes on at its closing quote\<close>
  assumes "is_quote q" and "t = [] \<or> last t \<noteq> CHR 0x5C" and "MAX_NVVALUE_LEN \<le> length (escape_quotes q t) + 2"
  shows "nv_value nv (CHR ''='' # q # escape_quotes q t @ q # r)
    = (1, nv\<lparr>m_value := [], m_status := m_status nv OR TAG_NVSTATUS_LONGVALUE\<rparr>, q # r)"
  using assms(3) is_quote_facts[OF assms(1)] value_quoted[OF assms(1,2), of r]
  by (simp add: nv_value_def isspace_chars Let_def MAX_NVVALUE_LEN_def)

section \<open>The structure stays well-formed\<close>

definition nv_wf :: "ul_nvpair_t \<Rightarrow> bool" where
  "nv_wf nv \<longleftrightarrow> length (m_name nv) < MAX_NVNAME_LEN \<and> length (m_value nv) < MAX_NVVALUE_LEN"

definition taginfo_wf :: "ul_taginfo_t \<Rightarrow> bool" where
  "taginfo_wf i \<longleftrightarrow> length (m_tagname i) < MAX_TAG_LEN \<and> m_nvcount i \<le> MAX_NVCOUNT_IN_TAG
     \<and> length (m_nvlist i) = MAX_NVCOUNT_IN_TAG \<and> list_all nv_wf (m_nvlist i)"

lemma tagname_fits:
  assumes "ul_get_tagname p (Some b) (int MAX_TAG_LEN) e = (r, name, e')" and "length b < MAX_TAG_LEN"
  shows "\<exists>n. name = Some n \<and> length n < MAX_TAG_LEN"
  using assms
  by (auto simp: ul_get_tagname_def Let_def ul_tolowerstr_singlebuf_def tolower_loop_map MAX_TAG_LEN_def split: option.splits if_splits)

lemma nv_value_fits:
  assumes "nv_value nv s = (r, nv', e)"
  shows "m_name nv' = m_name nv \<and> length (m_value nv') < MAX_NVVALUE_LEN"
  using assms by (auto simp: nv_value_def Let_def MAX_NVVALUE_LEN_def split: if_splits prod.splits)

lemma nvpair_fits:
  assumes "ul_get_nvpair (Some p) (Some nv) (Some e) = (r, nv', e')" and "nv_wf nv"
  shows "\<exists>n. nv' = Some n \<and> nv_wf n"
proof -
  let ?nm = "dropWhile ul_isspace p"
  let ?tmp = "dropWhile (\<lambda>c. \<not> ul_isspace c \<and> c \<noteq> CHR ''>'' \<and> c \<noteq> CHR ''='') ?nm"
  have z: "nv_wf (nv\<lparr>m_status := 0\<rparr>)" using assms(2) by (simp add: nv_wf_def)
  have v: "nv_wf n'" if "nv_value n ?tmp = (q, n', t)" "length (m_name n) < MAX_NVNAME_LEN" for n q n' t
    using nv_value_fits[OF that(1)] that(2) by (simp add: nv_wf_def)
  have short: "length (take (MAX_NVNAME_LEN - 1) ?nm) < MAX_NVNAME_LEN" by (simp add: MAX_NVNAME_LEN_def)
  have nam: "length (take k ?nm) < MAX_NVNAME_LEN" if "\<not> MAX_NVNAME_LEN - 1 < k" for k using that by (simp add: MAX_NVNAME_LEN_def)
  show ?thesis using assms(1) z v short nam
    by (simp add: ul_get_nvpair_def Let_def split: if_splits prod.splits) auto
qed

lemma nv_loop_fits:
  assumes "nv_loop i b nx info x = (r, info', x')" and "taginfo_wf info"
  shows "taginfo_wf info'"
  using assms
proof (induction i b nx info x arbitrary: r info' x' rule: nv_loop.induct)
  case (1 i b nx info x)
  show ?case
  proof (cases "MAX_NVCOUNT_IN_TAG \<le> i")
    case True
    then show ?thesis using 1(2,3) by (subst (asm) nv_loop.simps) (auto simp: taginfo_wf_def)
  next
    case False
    obtain q nv n' where q: "ul_get_nvpair (Some b) (Some (m_nvlist info ! i)) (Some nx) = (q, nv, n')" by (metis prod_cases3)
    have "nv_wf (m_nvlist info ! i)" using 1(3) False by (simp add: taginfo_wf_def list_all_length)
    then obtain n where n: "nv = Some n" "nv_wf n" using nvpair_fits[OF q] by auto
    have wf: "taginfo_wf (info\<lparr>m_nvlist := (m_nvlist info)[i := the nv]\<rparr>)"
      using 1(3) n by (auto simp: taginfo_wf_def list_all_iff dest!: subsetD[OF set_update_subset_insert])
    show ?thesis
    proof (cases "q = 1")
      case True
      then have "nv_loop (Suc i) (the (the n')) (the n') (info\<lparr>m_nvlist := (m_nvlist info)[i := the nv]\<rparr>) x = (r, info', x')"
        using 1(2) False q by (subst (asm) nv_loop_one[of _ q]) auto
      then show ?thesis using 1(1)[OF False q[symmetric] refl refl refl] True wf by auto
    next
      case no: False
      then show ?thesis using 1(2) False q wf by (subst (asm) nv_loop.simps) (auto simp: taginfo_wf_def Let_def split: if_splits)
    qed
  qed
qed

text \<open>C24: whatever the text, the name of the tag, the names and values of its attributes and their number stay within the arrays of
  the structure, in the results that report an error as well; and unless the result is -1, \<open>*pend\<close> is behind the start of the text.\<close>

theorem taginfo_safe:
  assumes "ul_get_taginfo (Some p) (Some info) (Some x) = (r, i, x')" and "taginfo_wf info"
  shows "r \<in> {1, 2, -1, -2, -3, -4} \<and> (\<exists>info'. i = Some info' \<and> taginfo_wf info')
    \<and> (r \<noteq> -1 \<longrightarrow> (\<exists>e. x' = Some (Some e) \<and> suffix e p \<and> length e < length p))"
proof -
  obtain q name y where q: "ul_get_tagname (Some p) (Some (m_tagname info)) (int MAX_TAG_LEN) (Some None) = (q, name, y)"
    by (metis prod_cases3)
  then obtain n where n: "name = Some n" "length n < MAX_TAG_LEN" using tagname_fits[OF q] assms(2) by (auto simp: taginfo_wf_def)
  then have wf: "taginfo_wf (info\<lparr>m_tagname := the name\<rparr>)" using assms(2) by (simp add: taginfo_wf_def)
  obtain r' i' x'' where l: "nv_loop 0 (the (the y)) None (info\<lparr>m_tagname := the name\<rparr>) x = (r', i', x'')" by (metis prod_cases3)
  have "r \<in> {1, 2, -1, -2, -3, -4}" using assms(1) q l nv_loop_result[OF l] by (auto simp: ul_get_taginfo_def Let_def split: if_splits)
  moreover have "\<exists>info'. i = Some info' \<and> taginfo_wf info'"
    using assms(1) q l wf nv_loop_fits[OF l wf] by (auto simp: ul_get_taginfo_def Let_def split: if_splits)
  ultimately show ?thesis using taginfo_rest[OF assms(1)] by blast
qed

theorem taginfo_safe_witness:
  "\<exists>i. ul_get_taginfo (Some ''b =x>y'') (Some \<lparr>m_tagname = [], m_nvcount = 0, m_nvlist = replicate 64 \<lparr>m_status = 0, m_name = [], m_value = []\<rparr>\<rparr>)
     (Some None) = (-4, Some i, Some (Some ''y'')) \<and> taginfo_wf i"
proof -
  let ?w = "\<lparr>m_tagname = [], m_nvcount = 0, m_nvlist = replicate 64 \<lparr>m_status = 0, m_name = [], m_value = []\<rparr>\<rparr>"
  have "fst (ul_get_taginfo (Some ''b =x>y'') (Some ?w) (Some None)) = -4"
    "snd (snd (ul_get_taginfo (Some ''b =x>y'') (Some ?w) (Some None))) = Some (Some ''y'')" by code_simp+
  moreover obtain i where i: "ul_get_taginfo (Some ''b =x>y'') (Some ?w) (Some None)
      = (fst (ul_get_taginfo (Some ''b =x>y'') (Some ?w) (Some None)), i, snd (snd (ul_get_taginfo (Some ''b =x>y'') (Some ?w) (Some None))))"
    by (metis prod.collapse)
  moreover have "taginfo_wf ?w" by (auto simp: taginfo_wf_def tag_consts nv_wf_def list_all_iff)
  ultimately show ?thesis using taginfo_safe[OF i] by auto
qed

end
