(* ===== verification/Ul_Pack_Io.thy ===== *)
theory Ul_Pack_Io
  imports Ul_Pack
begin

text \<open>
  Packages on a socket: the reading and writing functions of \<^verbatim>\<open>ullib/src/ul_pack.cpp\<close> and
  \<^verbatim>\<open>ullib/src/dep/dep_pack.cpp\<close> with the two loops of \<^verbatim>\<open>ullib/src/ul_net1.cpp\<close> they rest on.

  The environment of a connection is a script: the bytes the peer has sent before it closed its side, and
  what the successive calls of \<open>poll\<close>, \<open>read\<close> and \<open>write\<close> do, how many bytes they move or how they fail. So every
  fragmentation of the stream and every interleaving of interrupts and failures is one value of the state. A
  script that has ended means a time-out for \<open>poll\<close> and a failure for \<open>read\<close> and \<open>write\<close>. The time limits
  themselves are not modelled: a call that runs out of time is a poll event.
\<close>

section \<open>The connection\<close>

datatype poll_ev = PollOk | PollTimeout | PollFail bool
datatype read_ev = ReadGives nat | ReadFail bool
datatype write_ev = WriteTakes nat | WriteFail bool

record conn =
  incoming :: "char list"
  rpolls :: "poll_ev list"
  reads :: "read_ev list"
  outgoing :: "char list"
  wpolls :: "poll_ev list"
  writes :: "write_ev list"
  eintr :: bool
  fcntl_ok :: bool

definition sys_read :: "nat \<Rightarrow> conn \<Rightarrow> int \<times> char list \<times> conn" where
  \<comment> \<open>\<open>read(fd, ptr, n)\<close>: it delivers between one byte and \<open>n\<close>, none at the end of the stream; a failure sets \<open>errno\<close>,
      \<open>eintr\<close> tells whether to \<open>EINTR\<close>\<close>
  "sys_read n c =
     (case reads c of
        [] \<Rightarrow> (-1, [], c\<lparr>eintr := False\<rparr>)
      | ReadFail e # es \<Rightarrow> (-1, [], c\<lparr>reads := es, eintr := e\<rparr>)
      | ReadGives k # es \<Rightarrow>
          (let bs = take (min (Suc k) n) (incoming c) in
           (int (length bs), bs, c\<lparr>reads := es, incoming := drop (length bs) (incoming c)\<rparr>)))"

definition ul_reado_ms :: "nat \<Rightarrow> conn \<Rightarrow> int \<times> char list \<times> conn" where
  \<comment> \<open>a time-out has set \<open>errno\<close> to \<open>ETIMEDOUT\<close>\<close>
  "ul_reado_ms nbytes c =
     (case rpolls c of
        [] \<Rightarrow> (-2, [], c\<lparr>eintr := False\<rparr>)
      | PollTimeout # ps \<Rightarrow> (-2, [], c\<lparr>rpolls := ps, eintr := False\<rparr>)
      | PollFail e # ps \<Rightarrow> (-3, [], c\<lparr>rpolls := ps, eintr := e\<rparr>)
      | PollOk # ps \<Rightarrow> sys_read nbytes (c\<lparr>rpolls := ps\<rparr>))"

lemma sys_read_reads: "sys_read n c = (r, bs, c') \<Longrightarrow> r \<noteq> -1 \<or> eintr c' \<Longrightarrow> length (reads c') < length (reads c)"
  by (auto simp: sys_read_def Let_def split: list.splits read_ev.splits)

lemma sys_read_rpolls: "sys_read n c = (r, bs, c') \<Longrightarrow> rpolls c' = rpolls c"
  by (auto simp: sys_read_def Let_def split: list.splits read_ev.splits)

lemma ul_reado_ms_rpolls: "ul_reado_ms n c = (r, bs, c') \<Longrightarrow> r \<noteq> -2 \<Longrightarrow> length (rpolls c') < length (rpolls c)"
  by (auto simp: ul_reado_ms_def dest: sys_read_rpolls split: list.splits poll_ev.splits)

section \<open>Reading a given number of bytes\<close>

function readall_loop :: "nat \<Rightarrow> char list \<Rightarrow> conn \<Rightarrow> int \<times> char list \<times> conn" where
  \<comment> \<open>\<open>while (nleft > 0)\<close>; \<open>got\<close> is what was stored in front of \<open>ptr\<close>\<close>
  "readall_loop nleft got c =
     (if nleft = 0 then (int (length got), got, c)
      else case sys_read nleft c of (nread, bs, c') \<Rightarrow>
        if nread < 0 then (if eintr c' then readall_loop nleft got c' else (-1, got, c'))
        else if nread = 0 then (int (length got), got, c')
        else readall_loop (nleft - length bs) (got @ bs) c')"
  by pat_completeness auto
termination
  by (relation "measure (\<lambda>(n, got, c). length (reads c))") (auto dest!: sym[THEN sys_read_reads])

definition ul_pack_readall :: "nat \<Rightarrow> conn \<Rightarrow> int \<times> char list \<times> conn" where
  "ul_pack_readall nbytes c = readall_loop nbytes [] c"

function readallo_loop :: "nat \<Rightarrow> char list \<Rightarrow> conn \<Rightarrow> int \<times> char list \<times> conn" where
  "readallo_loop nleft got c =
     (if nleft = 0 then (int (length got), got, c)
      else case ul_reado_ms nleft c of (nread, bs, c') \<Rightarrow>
        if nread < 0 then
          (if (nread = -1 \<or> nread = -3) \<and> eintr c' then readallo_loop nleft got c' else (-1, got, c'))
        else if nread = 0 then (int (length got), got, c')
        else readallo_loop (nleft - length bs) (got @ bs) c')"
  by pat_completeness auto
termination
  by (relation "measure (\<lambda>(n, got, c). length (rpolls c))") (auto dest!: sym[THEN ul_reado_ms_rpolls])

definition ul_pack_readallo_ms :: "nat \<Rightarrow> conn \<Rightarrow> int \<times> char list \<times> conn" where
  "ul_pack_readallo_ms nbytes c = readallo_loop nbytes [] c"

section \<open>Skipping to the end of a package\<close>

definition end_step :: "char list \<Rightarrow> char \<Rightarrow> char list option" where
  \<comment> \<open>one byte of the search for the end mark: \<open>tmp\<close> holds the bytes from the last tilde on, it is empty when \<open>flag\<close>
      is 0, and its length is \<open>count\<close>; \<open>None\<close> is \<open>return 0\<close>\<close>
  "end_step tmp ch =
     (if tmp \<noteq> [] then
        (if ch = CHR ''~'' then Some [ch]
         else if length (tmp @ [ch]) = length BUF_EOF then
           (if strncmp_eq (tmp @ [ch]) BUF_EOF (length BUF_EOF) then None else Some [])
         else Some (tmp @ [ch]))
      else if ch = CHR ''~'' then Some [ch] else Some [])"

function readend_loop :: "char list \<Rightarrow> conn \<Rightarrow> int \<times> conn" where
  "readend_loop tmp c =
     (case sys_read 1 c of (sz, bs, c') \<Rightarrow>
        if sz < 0 then (if eintr c' then readend_loop tmp c' else (-1, c'))
        else if sz = 0 then (-1, c')
        else case end_step tmp (hd bs) of
          None \<Rightarrow> (0, c')
        | Some tmp' \<Rightarrow> readend_loop tmp' c')"
  by pat_completeness auto
termination
  by (relation "measure (\<lambda>(tmp, c). length (reads c))") (auto dest!: sym[THEN sys_read_reads])

definition ul_pack_readend :: "conn \<Rightarrow> int \<times> conn" where
  "ul_pack_readend c = readend_loop [] c"

function readendo_loop :: "char list \<Rightarrow> conn \<Rightarrow> int \<times> conn" where
  "readendo_loop tmp c =
     (case ul_reado_ms 1 c of (sz, bs, c') \<Rightarrow>
        if sz < 0 then (if sz \<noteq> -2 \<and> eintr c' then readendo_loop tmp c' else (-1, c'))
        else if sz = 0 then (-1, c')
        else case end_step tmp (hd bs) of
          None \<Rightarrow> (0, c')
        | Some tmp' \<Rightarrow> readendo_loop tmp' c')"
  by pat_completeness auto
termination
  by (relation "measure (\<lambda>(tmp, c). length (rpolls c))") (auto dest!: sym[THEN ul_reado_ms_rpolls])

definition ul_pack_readendo_ms :: "conn \<Rightarrow> int \<times> conn" where
  "ul_pack_readendo_ms c = readendo_loop [] c"

declare readall_loop.simps [simp del] readallo_loop.simps [simp del]
  readend_loop.simps [simp del] readendo_loop.simps [simp del]

section \<open>Reading a package\<close>

definition bail :: "(conn \<Rightarrow> int \<times> conn) \<Rightarrow> ul_package_t \<Rightarrow> conn \<Rightarrow> (int \<times> ul_package_t \<times> conn) option" where
  \<comment> \<open>\<open>if (ul_pack_readend(sockfd) < 0) return -2; return -1;\<close>\<close>
  "bail readend p c = (case readend c of (r, c') \<Rightarrow> Some (if r < 0 then -2 else -1, p, c'))"

definition store_body :: "ul_package_t \<Rightarrow> nat \<Rightarrow> char list \<Rightarrow> ul_package_t option" where
  \<comment> \<open>\<open>ppack->buf\<close> after a read of up to \<open>n\<close> bytes delivered \<open>bs\<close>; \<open>None\<close> when the block is too small\<close>
  "store_body p n bs =
     (case pk_buf p of
        None \<Rightarrow> if n = 0 then Some p else None
      | Some d \<Rightarrow> if length d < n then None else Some (p\<lparr>pk_buf := Some (bs @ drop (length bs) d)\<rparr>))"

definition read_tail ::
  "(nat \<Rightarrow> conn \<Rightarrow> int \<times> char list \<times> conn) \<Rightarrow> (conn \<Rightarrow> int \<times> conn) \<Rightarrow> cstr \<Rightarrow> cstr \<Rightarrow> int
   \<Rightarrow> ul_package_t \<Rightarrow> conn \<Rightarrow> (int \<times> ul_package_t \<times> conn) option" where
  \<comment> \<open>from the end mark on\<close>
  "read_tail readall readend tmp headbuf bodysize p c =
     (case readall (length BUF_EOF) c of (sz, eofstr, c') \<Rightarrow>
        if sz = -1 then Some (-2, p, c')
        else if sz \<noteq> int (length BUF_EOF) \<or> \<not> strncmp_eq eofstr BUF_EOF (length BUF_EOF) then bail readend p c'
        else (case head_loop 0 (takeWhile (\<lambda>ch. ch \<noteq> NUL) headbuf) tmp (pk_name p) (pk_value p) of
          None \<Rightarrow> None
        | Some (ok, i, name, val) \<Rightarrow>
            (let p' = p\<lparr>pk_name := name, pk_value := val\<rparr> in
             if ok then Some (bodysize, p'\<lparr>pairnum := i\<rparr>, c') else bail readend p' c')))"

definition read_rest ::
  "(nat \<Rightarrow> conn \<Rightarrow> int \<times> char list \<times> conn) \<Rightarrow> (conn \<Rightarrow> int \<times> conn) \<Rightarrow> cstr \<Rightarrow> int \<Rightarrow> int
   \<Rightarrow> ul_package_t \<Rightarrow> conn \<Rightarrow> (int \<times> ul_package_t \<times> conn) option" where
  \<comment> \<open>head and body, once the two sizes were accepted\<close>
  "read_rest readall readend tmp headsize bodysize p c =
     (case readall (nat headsize) c of (sz, headbuf, c1) \<Rightarrow>
        if sz = -1 then Some (-2, p, c1)
        else if sz \<noteq> headsize then bail readend p c1
        else (case readall (nat bodysize) c1 of (sz2, body, c2) \<Rightarrow>
          (case store_body p (nat bodysize) body of
             None \<Rightarrow> None
           | Some p' \<Rightarrow>
               if sz2 = -1 then Some (-2, p', c2)
               else if sz2 \<noteq> bodysize then bail readend p' c2
               else read_tail readall readend tmp headbuf bodysize p' c2)))"

definition pack_read_body ::
  "(nat \<Rightarrow> conn \<Rightarrow> int \<times> char list \<times> conn) \<Rightarrow> (conn \<Rightarrow> int \<times> conn)
   \<Rightarrow> ul_package_t \<Rightarrow> conn \<Rightarrow> (int \<times> ul_package_t \<times> conn) option" where
  "pack_read_body readall readend p c =
     (case readall SIZE_NUM c of (sz, sizebuf, c') \<Rightarrow>
        if sz = -1 then Some (-2, p, c')
        else if sz \<noteq> int SIZE_NUM \<or> \<not> strncmp_eq sizebuf BUF_START (length BUF_START) then bail readend p c'
        else (case scan_sizes sizebuf of
          None \<Rightarrow> None
        | Some (tmp, headsize, bodysize) \<Rightarrow>
            if headsize < 0 \<or> bodysize < 0 then bail readend p c'
            else if bufsize p < bodysize \<or> int MAX_HEAD_SIZE \<le> headsize then bail readend p c'
            else read_rest readall readend tmp headsize bodysize p c'))"

definition pack_read_with ::
  "(nat \<Rightarrow> conn \<Rightarrow> int \<times> char list \<times> conn) \<Rightarrow> (conn \<Rightarrow> int \<times> conn)
   \<Rightarrow> ul_package_t option \<Rightarrow> conn \<Rightarrow> (int \<times> ul_package_t option \<times> conn) option" where
  "pack_read_with readall readend ppack c =
     (case ppack of
        None \<Rightarrow> Some (-2, None, c)
      | Some p \<Rightarrow> map_option (\<lambda>(r, p', c'). (r, Some p', c')) (pack_read_body readall readend p c))"

definition ul_pack_reado_ms :: "ul_package_t option \<Rightarrow> conn \<Rightarrow> (int \<times> ul_package_t option \<times> conn) option" where
  "ul_pack_reado_ms = pack_read_with ul_pack_readallo_ms ul_pack_readendo_ms"

definition ul_pack_read :: "ul_package_t option \<Rightarrow> conn \<Rightarrow> (int \<times> ul_package_t option \<times> conn) option" where
  "ul_pack_read = pack_read_with ul_pack_readall ul_pack_readend"

section \<open>Writing bytes\<close>

definition sys_write :: "char list \<Rightarrow> conn \<Rightarrow> int \<times> conn" where
  \<comment> \<open>\<open>write(fd, ptr, n)\<close> for the \<open>n\<close> bytes \<open>bs\<close>\<close>
  "sys_write bs c =
     (case writes c of
        [] \<Rightarrow> (-1, c\<lparr>eintr := False\<rparr>)
      | WriteFail e # ws \<Rightarrow> (-1, c\<lparr>writes := ws, eintr := e\<rparr>)
      | WriteTakes k # ws \<Rightarrow>
          (int (length (take k bs)), c\<lparr>writes := ws, outgoing := outgoing c @ take k bs\<rparr>))"

definition ul_writeo_tv :: "char list \<Rightarrow> conn \<Rightarrow> int \<times> conn" where
  "ul_writeo_tv bs c =
     (case wpolls c of
        [] \<Rightarrow> (-2, c)
      | PollTimeout # ps \<Rightarrow> (-2, c\<lparr>wpolls := ps\<rparr>)
      | PollFail e # ps \<Rightarrow> (-1, c\<lparr>wpolls := ps, eintr := e\<rparr>)
      | PollOk # ps \<Rightarrow> sys_write bs (c\<lparr>wpolls := ps\<rparr>))"

lemma sys_write_writes: "sys_write bs c = (r, c') \<Longrightarrow> r \<noteq> -1 \<or> eintr c' \<Longrightarrow> length (writes c') < length (writes c)"
  by (auto simp: sys_write_def split: list.splits write_ev.splits)

lemma sys_write_wpolls: "sys_write bs c = (r, c') \<Longrightarrow> wpolls c' = wpolls c"
  by (auto simp: sys_write_def split: list.splits write_ev.splits)

lemma ul_writeo_tv_wpolls: "ul_writeo_tv bs c = (r, c') \<Longrightarrow> r \<noteq> -2 \<Longrightarrow> length (wpolls c') < length (wpolls c)"
  by (auto simp: ul_writeo_tv_def dest: sys_write_wpolls split: list.splits poll_ev.splits)

function swriteo_loop :: "nat \<Rightarrow> char list \<Rightarrow> conn \<Rightarrow> int \<times> conn" where
  \<comment> \<open>\<open>while (nleft > 0)\<close>; \<open>bs\<close> is what is left at \<open>ptr\<close>, \<open>n\<close> the number of bytes written before\<close>
  "swriteo_loop n bs c =
     (if bs = [] then (int n, c)
      else case ul_writeo_tv bs c of (k, c') \<Rightarrow>
        if k = -1 \<and> eintr c' then swriteo_loop n bs c'
        else if k \<le> 0 then (-1, c')
        else swriteo_loop (n + nat k) (drop (nat k) bs) c')"
  by pat_completeness auto
termination
  by (relation "measure (\<lambda>(n, bs, c). length (wpolls c))") (auto dest!: sym[THEN ul_writeo_tv_wpolls])

definition ul_swriteo_ms_ex :: "char list \<Rightarrow> conn \<Rightarrow> int \<times> conn" where
  \<comment> \<open>\<open>fcntl_ok\<close>: the calls that read the flags and set the socket to non-blocking succeed\<close>
  "ul_swriteo_ms_ex bs c = (if \<not> fcntl_ok c then (-1, c) else swriteo_loop 0 bs c)"

definition ul_pack_writeallo_ms :: "char list \<Rightarrow> conn \<Rightarrow> int \<times> conn" where
  "ul_pack_writeallo_ms bs c = ul_swriteo_ms_ex bs c"

function writeall_loop :: "nat \<Rightarrow> char list \<Rightarrow> conn \<Rightarrow> int \<times> conn" where
  \<comment> \<open>\<open>for (; nleft>0; )\<close>; the result is \<open>n\<close>, the number of bytes asked for\<close>
  "writeall_loop n bs c =
     (if bs = [] then (int n, c)
      else case sys_write bs c of (nbytes, c') \<Rightarrow>
        if nbytes \<le> 0 then (if eintr c' then writeall_loop n bs c' else (-1, c'))
        else writeall_loop n (drop (nat nbytes) bs) c')"
  by pat_completeness auto
termination
  by (relation "measure (\<lambda>(n, bs, c). length (writes c))") (auto dest!: sym[THEN sys_write_writes])

definition ul_pack_writeall :: "char list \<Rightarrow> conn \<Rightarrow> int \<times> conn" where
  "ul_pack_writeall bs c = writeall_loop (length bs) bs c"

declare swriteo_loop.simps [simp del] writeall_loop.simps [simp del]

section \<open>Writing a package\<close>

fun headbuf_loop :: "(cstr \<times> cstr) list \<Rightarrow> cstr \<Rightarrow> cstr option" where
  \<comment> \<open>the loop over the pairs in \<open>ul_pack_writeo_ms\<close>; \<open>None\<close> is \<open>return -2\<close>\<close>
  "headbuf_loop [] acc = Some acc"
| "headbuf_loop (nv # nvs) acc =
     (let acc' = (if fst nv = [] then acc else acc @ head_line nv) in
      if MAX_HEAD_SIZE < length acc' then None else headbuf_loop nvs acc')"

definition headbuf_bytes :: "cstr \<Rightarrow> char list" where
  \<comment> \<open>the first \<open>headsize\<close> bytes of \<open>headbuf\<close>: the terminator of the last \<open>snprintf\<close> takes the last byte of a full buffer\<close>
  "headbuf_bytes head = (if length head = MAX_HEAD_SIZE then take (MAX_HEAD_SIZE - 1) head @ [NUL] else head)"

definition sizebuf_bytes :: "cstr \<Rightarrow> char list" where
  \<comment> \<open>\<open>sizebuf\<close> after \<open>snprintf\<close> of the text and the filling\<close>
  "sizebuf_bytes t = (if length t < SIZE_NUM - 1 then size_field t else take (SIZE_NUM - 1) t @ [NUL])"

definition write_parts :: "(char list \<Rightarrow> conn \<Rightarrow> int \<times> conn) \<Rightarrow> char list list \<Rightarrow> conn \<Rightarrow> int \<times> conn" where
  \<comment> \<open>the calls one after the other, each with \<open>if (size != n) return -1\<close>, and \<open>return 0\<close>\<close>
  "write_parts writeall parts c =
     foldl (\<lambda>(r, c1) bs. if r < 0 then (r, c1)
        else case writeall bs c1 of (sz, c2) \<Rightarrow> (if sz \<noteq> int (length bs) then -1 else 0, c2)) (0, c) parts"

definition send_package :: "(char list \<Rightarrow> conn \<Rightarrow> int \<times> conn) \<Rightarrow> bool \<Rightarrow> ul_package_t \<Rightarrow> cstr \<Rightarrow> conn \<Rightarrow> (int \<times> conn) option" where
  \<comment> \<open>from the size field on; \<open>None\<close>: the buffer is shorter than the size announced, or the size is negative and
      \<open>writeall\<close> takes it as a \<open>size_t\<close> (with \<open>signed_n\<close> it takes it as an \<open>int\<close> and writes nothing)\<close>
  "send_package writeall signed_n p head c =
     (if bufsize p < 0 \<and> \<not> signed_n \<or> 0 \<le> bufsize p \<and> int (length (pack_body p)) \<noteq> bufsize p then None
      else Some (write_parts writeall
        [sizebuf_bytes (size_text (int (length head)) (bufsize p)), headbuf_bytes head, pack_body p, BUF_EOF] c))"

definition ul_pack_writeo_ms :: "ul_package_t option \<Rightarrow> conn \<Rightarrow> (int \<times> conn) option" where
  "ul_pack_writeo_ms ppack c =
     (case ppack of
        None \<Rightarrow> Some (-1, c)
      | Some p \<Rightarrow>
          (case headbuf_loop (pairs p) [] of
             None \<Rightarrow> Some (-2, c)
           | Some acc \<Rightarrow>
               if MAX_HEAD_SIZE < length (acc @ CRLF) then Some (-2, c)
               else send_package ul_pack_writeallo_ms False p (acc @ CRLF) c))"

definition ul_pack_write :: "ul_package_t option \<Rightarrow> conn \<Rightarrow> (int \<times> conn) option" where
  \<comment> \<open>no check of the size of the head: \<open>None\<close> when it leaves the buffer\<close>
  "ul_pack_write ppack c =
     (case ppack of
        None \<Rightarrow> Some (-1, c)
      | Some p \<Rightarrow>
          (let head = concat (map head_line (filter (\<lambda>nv. fst nv \<noteq> []) (pairs p))) @ CRLF in
           if MAX_HEAD_SIZE < length head then None
           else send_package ul_pack_writeall True p head c))"

definition ul_pack_write_mo_ms :: "(int \<Rightarrow> bool) \<Rightarrow> ul_package_t option \<Rightarrow> conn \<Rightarrow> (int \<times> conn) option" where
  "ul_pack_write_mo_ms malloc_ok ppack c =
     (case ppack of
        None \<Rightarrow> Some (-1, c)
      | Some p \<Rightarrow>
          if \<not> malloc_ok (pack_maxlen p) then ul_pack_writeo_ms ppack c
          else (case pack_image p (pack_maxlen p) of
             None \<Rightarrow> None
           | Some (Inl r) \<Rightarrow> Some (r, c)
           | Some (Inr img) \<Rightarrow>
               (case ul_pack_writeallo_ms img c of (sz, c') \<Rightarrow>
                  Some (if sz \<noteq> int (length img) then -1 else 0, c'))))"

section \<open>The older look-up\<close>

fun find_pair_n :: "cstr list \<Rightarrow> nat \<Rightarrow> cstr \<Rightarrow> nat option" where
  \<comment> \<open>the loop of \<open>ul_pack_getvalue\<close>: \<open>strncmp(name[i], pname, sizeof(name[i])) == 0\<close>\<close>
  "find_pair_n names 0 pname = None"
| "find_pair_n [] (Suc n) pname = None"
| "find_pair_n (x # names) (Suc n) pname =
     (if strncmp_eq x pname MAX_ITEM_SIZE then Some 0 else map_option Suc (find_pair_n names n pname))"

definition ul_pack_getvalue ::
  "ul_package_t option \<Rightarrow> cstr option \<Rightarrow> char list option \<Rightarrow> (int \<times> char list option) option" where
  "ul_pack_getvalue ppack pname pvalue =
     (case (ppack, pname, pvalue) of
        (Some p, Some nm, Some blk) \<Rightarrow>
          if blk = [] then None
          else (case find_pair_n (pk_name p) (pairnum p) nm of
                  None \<Rightarrow> Some (0, Some (blk[0 := NUL]))
                | Some i \<Rightarrow>
                    map_option (\<lambda>b. (1, Some b)) (snprintf_block (blk[0 := NUL]) MAX_ITEM_SIZE (pk_value p ! i)))
      | _ \<Rightarrow> Some (0, pvalue))"

section \<open>What the reading loops do\<close>

definition is_gives :: "read_ev \<Rightarrow> bool" where
  "is_gives e = (case e of ReadGives k \<Rightarrow> True | ReadFail b \<Rightarrow> False)"

definition steady :: "nat \<Rightarrow> conn \<Rightarrow> bool" where
  \<comment> \<open>no read fails but by an interrupt, and at least \<open>m\<close> reads deliver\<close>
  "steady m c \<longleftrightarrow> list_all (\<lambda>e. e \<noteq> ReadFail False) (reads c) \<and> m \<le> length (filter is_gives (reads c))"

definition steady_polled :: "nat \<Rightarrow> conn \<Rightarrow> bool" where
  \<comment> \<open>nor does a poll time out or fail before the reads are done\<close>
  "steady_polled m c \<longleftrightarrow> steady m c \<and> list_all (\<lambda>e. e \<noteq> PollTimeout \<and> e \<noteq> PollFail False) (rpolls c)
     \<and> length (reads c) \<le> length (filter (\<lambda>e. e = PollOk) (rpolls c))"

lemma take_drop_min: "take j xs @ drop (min (length xs) j) xs = xs"
  by (cases "length xs \<le> j") simp_all

lemma sys_read_split:
  "sys_read n c = (r, bs, c') \<Longrightarrow> incoming c = bs @ incoming c' \<and> length bs \<le> n
     \<and> (r = -1 \<and> bs = [] \<or> r = int (length bs)) \<and> outgoing c' = outgoing c"
  by (auto simp: sys_read_def Let_def take_drop_min split: list.splits read_ev.splits)

lemma ul_reado_ms_split:
  "ul_reado_ms n c = (r, bs, c') \<Longrightarrow> incoming c = bs @ incoming c' \<and> length bs \<le> n
     \<and> (r \<in> {-1, -2, -3} \<and> bs = [] \<or> r = int (length bs)) \<and> outgoing c' = outgoing c"
  by (auto simp: ul_reado_ms_def dest: sys_read_split split: list.splits poll_ev.splits)

lemma readall_loop_split:
  "readall_loop n got c = (r, bs, c') \<Longrightarrow>
     (\<exists>new. bs = got @ new \<and> incoming c = new @ incoming c' \<and> length new \<le> n) \<and> (r = -1 \<or> r = int (length bs))"
proof (induction n got c arbitrary: r bs c' rule: readall_loop.induct)
  case (1 n got c)
  obtain k cs d where k: "sys_read n c = (k, cs, d)" by (metis prod_cases3)
  note s = sys_read_split[OF k]
  show ?case
  proof (cases "n = 0 \<or> k = 0 \<or> k < 0 \<and> \<not> eintr d")
    case True
    then show ?thesis using "1.prems" k s by (subst (asm) readall_loop.simps) (auto split: if_splits)
  next
    case False
    show ?thesis
    proof (cases "k < 0")
      case True
      then have "readall_loop n got d = (r, bs, c')" using "1.prems" False k by (subst (asm) readall_loop.simps) simp
      then show ?thesis using "1.IH"(1)[OF _ k[symmetric] refl] True False s by auto
    next
      case pos: False
      then have "readall_loop (n - length cs) (got @ cs) d = (r, bs, c')"
        using "1.prems" False k by (subst (asm) readall_loop.simps) simp
      then show ?thesis using "1.IH"(2)[OF _ k[symmetric] refl] pos False s by fastforce
    qed
  qed
qed

lemma readallo_loop_split:
  "readallo_loop n got c = (r, bs, c') \<Longrightarrow>
     (\<exists>new. bs = got @ new \<and> incoming c = new @ incoming c' \<and> length new \<le> n) \<and> (r = -1 \<or> r = int (length bs))"
proof (induction n got c arbitrary: r bs c' rule: readallo_loop.induct)
  case (1 n got c)
  obtain k cs d where k: "ul_reado_ms n c = (k, cs, d)" by (metis prod_cases3)
  note s = ul_reado_ms_split[OF k]
  let ?again = "(k = -1 \<or> k = -3) \<and> eintr d"
  show ?case
  proof (cases "n = 0 \<or> k = 0 \<or> k < 0 \<and> \<not> ?again")
    case True
    then show ?thesis using "1.prems" k s by (subst (asm) readallo_loop.simps) (auto split: if_splits)
  next
    case False
    show ?thesis
    proof (cases "k < 0")
      case True
      then have "readallo_loop n got d = (r, bs, c')" using "1.prems" False k by (subst (asm) readallo_loop.simps) simp
      then show ?thesis using "1.IH"(1)[OF _ k[symmetric] refl] True False s by auto
    next
      case pos: False
      then have "readallo_loop (n - length cs) (got @ cs) d = (r, bs, c')"
        using "1.prems" False k by (subst (asm) readallo_loop.simps) simp
      then show ?thesis using "1.IH"(2)[OF _ k[symmetric] refl] pos False s by fastforce
    qed
  qed
qed

lemma steady_weaken: "steady m c \<Longrightarrow> k \<le> m \<Longrightarrow> steady k c"
  by (simp add: steady_def)

lemma sys_read_steady:
  assumes "steady m c" and "0 < m" and "0 < n" and "incoming c \<noteq> []"
  obtains bs c' where "sys_read n c = (int (length bs), bs, c')" "bs \<noteq> []" "steady (m - length bs) c'"
      "length (reads c') < length (reads c)"
  | c' where "sys_read n c = (-1, [], c')" "eintr c'" "steady m c'" "length (reads c') < length (reads c)"
proof (cases "reads c")
  case Nil
  then show ?thesis using assms(1,2) by (simp add: steady_def)
next
  case (Cons e es)
  show ?thesis
  proof (cases e)
    case (ReadGives k)
    let ?bs = "take (min (Suc k) n) (incoming c)"
    have "?bs \<noteq> []" using assms(3,4) by (cases n; cases "incoming c") simp_all
    moreover from this have "1 \<le> length ?bs" by (cases ?bs) simp_all
    then have "steady (m - length ?bs) (c\<lparr>reads := es, incoming := drop (length ?bs) (incoming c)\<rparr>)"
      using assms(1) Cons ReadGives by (auto simp: steady_def is_gives_def)
    ultimately show ?thesis using that(1)[of ?bs] Cons ReadGives by (simp add: sys_read_def Let_def)
  next
    case (ReadFail b)
    then have "b" using assms(1) Cons by (cases b) (simp_all add: steady_def)
    then show ?thesis
      using that(2)[of "c\<lparr>reads := es, eintr := True\<rparr>"] assms(1) Cons ReadFail
      by (simp add: sys_read_def steady_def is_gives_def)
  qed
qed

lemma readall_loop_steady:
  "\<lbrakk>steady m c; n \<le> m; n \<le> length (incoming c)\<rbrakk> \<Longrightarrow>
   \<exists>c'. readall_loop n got c = (int (length got + n), got @ take n (incoming c), c')
     \<and> incoming c' = drop n (incoming c) \<and> steady (m - n) c'"
proof (induction "length (reads c)" arbitrary: n got c m rule: less_induct)
  case less
  show ?case
  proof (cases "n = 0")
    case True
    then show ?thesis using less.prems(1) by (subst readall_loop.simps) simp
  next
    case False
    then have p: "0 < m" "0 < n" "incoming c \<noteq> []" using less.prems by auto
    from sys_read_steady[OF less.prems(1) p] show ?thesis
    proof cases
      case (1 bs c')
      note s = sys_read_split[OF 1(1)]
      have "\<exists>c''. readall_loop (n - length bs) (got @ bs) c' =
          (int (length (got @ bs) + (n - length bs)), (got @ bs) @ take (n - length bs) (incoming c'), c'')
        \<and> incoming c'' = drop (n - length bs) (incoming c') \<and> steady (m - length bs - (n - length bs)) c''"
        using 1 s less.prems by (intro less.hyps) auto
      then show ?thesis using 1 s False by (subst readall_loop.simps) auto
    next
      case (2 c')
      then have "incoming c' = incoming c" using sys_read_split[OF 2(1)] by simp
      then show ?thesis using less.hyps[OF 2(4,3), of n got] less.prems 2 False by (subst readall_loop.simps) simp
    qed
  qed
qed

lemma sys_read_reads_polls:
  "sys_read n c = (r, bs, c') \<Longrightarrow> length (reads c') \<le> length (reads c) - 1 \<and> rpolls c' = rpolls c"
  by (auto simp: sys_read_def Let_def split: list.splits read_ev.splits)

lemma ul_reado_ms_steady:
  assumes "steady_polled m c" and "0 < m" and "0 < n" and "incoming c \<noteq> []"
  obtains bs c' where "ul_reado_ms n c = (int (length bs), bs, c')" "bs \<noteq> []" "steady_polled (m - length bs) c'"
      "length (rpolls c') < length (rpolls c)"
  | k c' where "ul_reado_ms n c = (k, [], c')" "k = -1 \<or> k = -3" "eintr c'" "steady_polled m c'"
      "incoming c' = incoming c" "length (rpolls c') < length (rpolls c)"
proof -
  have s: "steady m c" and l: "length (reads c) \<le> length (filter (\<lambda>e. e = PollOk) (rpolls c))"
    using assms(1) by (auto simp: steady_polled_def)
  have "reads c \<noteq> []" using s assms(2) by (auto simp: steady_def)
  then obtain e ps where ps: "rpolls c = e # ps" using l by (cases "rpolls c") auto
  let ?d = "c\<lparr>rpolls := ps\<rparr>"
  show ?thesis
  proof (cases e)
    case PollOk
    have r: "ul_reado_ms n c = sys_read n ?d" using ps PollOk by (simp add: ul_reado_ms_def)
    have "steady m ?d" "incoming ?d \<noteq> []" using s assms(4) by (simp_all add: steady_def)
    from sys_read_steady[OF this(1) assms(2,3) this(2)] show ?thesis
    proof cases
      case (1 bs c')
      then have "steady_polled (m - length bs) c'"
        using assms(1) ps PollOk sys_read_reads_polls[OF 1(1)] by (auto simp: steady_polled_def)
      then show ?thesis using that(1)[of bs c'] 1 r ps sys_read_reads_polls[OF 1(1)] by simp
    next
      case (2 c')
      then have "steady_polled m c'"
        using assms(1) ps PollOk sys_read_reads_polls[OF 2(1)] by (auto simp: steady_polled_def)
      then show ?thesis
        using that(2)[of "-1" c'] 2 r ps sys_read_reads_polls[OF 2(1)] sys_read_split[OF 2(1)] by simp
    qed
  next
    case PollTimeout
    then show ?thesis using assms(1) ps by (simp add: steady_polled_def)
  next
    case (PollFail b)
    then have "b" using assms(1) ps by (cases b) (simp_all add: steady_polled_def)
    moreover have "steady_polled m (c\<lparr>rpolls := ps, eintr := True\<rparr>)"
      using assms(1) ps PollFail by (simp add: steady_polled_def steady_def)
    ultimately show ?thesis
      using that(2)[of "-3" "c\<lparr>rpolls := ps, eintr := True\<rparr>"] ps PollFail by (simp add: ul_reado_ms_def)
  qed
qed

lemma readallo_loop_steady:
  "\<lbrakk>steady_polled m c; n \<le> m; n \<le> length (incoming c)\<rbrakk> \<Longrightarrow>
   \<exists>c'. readallo_loop n got c = (int (length got + n), got @ take n (incoming c), c')
     \<and> incoming c' = drop n (incoming c) \<and> steady_polled (m - n) c'"
proof (induction "length (rpolls c)" arbitrary: n got c m rule: less_induct)
  case less
  show ?case
  proof (cases "n = 0")
    case True
    then show ?thesis using less.prems(1) by (subst readallo_loop.simps) simp
  next
    case False
    then have p: "0 < m" "0 < n" "incoming c \<noteq> []" using less.prems by auto
    from ul_reado_ms_steady[OF less.prems(1) p] show ?thesis
    proof cases
      case (1 bs c')
      note s = ul_reado_ms_split[OF 1(1)]
      have "\<exists>c''. readallo_loop (n - length bs) (got @ bs) c' =
          (int (length (got @ bs) + (n - length bs)), (got @ bs) @ take (n - length bs) (incoming c'), c'')
        \<and> incoming c'' = drop (n - length bs) (incoming c') \<and> steady_polled (m - length bs - (n - length bs)) c''"
        using 1 s less.prems by (intro less.hyps) auto
      then show ?thesis using 1 s False by (subst readallo_loop.simps) auto
    next
      case (2 k c')
      then show ?thesis using less.hyps[OF 2(6,4), of n got] less.prems False by (subst readallo_loop.simps) auto
    qed
  qed
qed

lemma end_step_None: "end_step tmp ch = None \<Longrightarrow> tmp @ [ch] = BUF_EOF"
  by (auto simp: end_step_def strncmp_eq_def split: if_splits)

lemma end_step_Some: "end_step tmp ch = Some tmp' \<Longrightarrow> suffix tmp' (tmp @ [ch])"
  by (auto simp: end_step_def suffix_def split: if_splits)

lemma resync_step:
  assumes "suffix tmp' (tmp @ [ch])" and "tmp' @ rest = x @ y"
  shows "\<exists>x'. tmp @ ch # rest = x' @ y"
proof -
  obtain z where "tmp @ [ch] = z @ tmp'" using assms(1) by (auto simp: suffix_def)
  then have "tmp @ ch # rest = (z @ x) @ y" using assms(2)
    by (metis append.assoc append_Cons append_Nil)
  then show ?thesis by blast
qed

lemma readend_loop_resync:
  "readend_loop tmp c = (r, c') \<Longrightarrow> 0 \<le> r \<Longrightarrow> \<exists>x. tmp @ incoming c = x @ BUF_EOF @ incoming c'"
proof (induction tmp c arbitrary: r c' rule: readend_loop.induct)
  case (1 tmp c)
  obtain k cs d where k: "sys_read 1 c = (k, cs, d)" by (metis prod_cases3)
  note s = sys_read_split[OF k]
  show ?case
  proof (cases "k \<le> 0")
    case True
    then have e: "k < 0" "eintr d" "readend_loop tmp d = (r, c')"
      using "1.prems" k by (subst (asm) readend_loop.simps, auto split: if_splits)+
    then show ?thesis using "1.IH"(1)[OF k[symmetric] refl e(1,2,3) "1.prems"(2)] s by auto
  next
    case False
    then obtain ch where ch: "cs = [ch]" "incoming c = ch # incoming d"
      using s by (cases cs) auto
    show ?thesis
    proof (cases "end_step tmp ch")
      case None
      then have "c' = d" using "1.prems" k False ch by (subst (asm) readend_loop.simps) simp
      then show ?thesis using end_step_None[OF None] ch by (metis append.assoc append_Cons append_Nil)
    next
      case (Some tmp')
      then have e: "readend_loop tmp' d = (r, c')" using "1.prems" k False ch by (subst (asm) readend_loop.simps) simp
      have "\<exists>x. tmp' @ incoming d = x @ BUF_EOF @ incoming c'"
        using "1.IH"(2)[OF k[symmetric] refl _ _ _ e "1.prems"(2)] False Some ch by auto
      then show ?thesis using resync_step[OF end_step_Some[OF Some]] ch by auto
    qed
  qed
qed

lemma readendo_loop_resync:
  "readendo_loop tmp c = (r, c') \<Longrightarrow> 0 \<le> r \<Longrightarrow> \<exists>x. tmp @ incoming c = x @ BUF_EOF @ incoming c'"
proof (induction tmp c arbitrary: r c' rule: readendo_loop.induct)
  case (1 tmp c)
  obtain k cs d where k: "ul_reado_ms 1 c = (k, cs, d)" by (metis prod_cases3)
  note s = ul_reado_ms_split[OF k]
  show ?case
  proof (cases "k \<le> 0")
    case True
    then have e: "k < 0" "k \<noteq> -2 \<and> eintr d" "readendo_loop tmp d = (r, c')"
      using "1.prems" k by (subst (asm) readendo_loop.simps, auto split: if_splits)+
    then show ?thesis using "1.IH"(1)[OF k[symmetric] refl e(1,2,3) "1.prems"(2)] s by auto
  next
    case False
    then obtain ch where ch: "cs = [ch]" "incoming c = ch # incoming d"
      using s by (cases cs) auto
    show ?thesis
    proof (cases "end_step tmp ch")
      case None
      then have "c' = d" using "1.prems" k False ch by (subst (asm) readendo_loop.simps) simp
      then show ?thesis using end_step_None[OF None] ch by (metis append.assoc append_Cons append_Nil)
    next
      case (Some tmp')
      then have e: "readendo_loop tmp' d = (r, c')" using "1.prems" k False ch by (subst (asm) readendo_loop.simps) simp
      have "\<exists>x. tmp' @ incoming d = x @ BUF_EOF @ incoming c'"
        using "1.IH"(2)[OF k[symmetric] refl _ _ _ e "1.prems"(2)] False Some ch by auto
      then show ?thesis using resync_step[OF end_step_Some[OF Some]] ch by auto
    qed
  qed
qed

section \<open>Reading packages from any source of bytes\<close>

locale byte_source =
  fixes readall :: "nat \<Rightarrow> conn \<Rightarrow> int \<times> char list \<times> conn"
    and readend :: "conn \<Rightarrow> int \<times> conn"
    and good :: "nat \<Rightarrow> conn \<Rightarrow> bool"
  assumes readall_split: "readall n c = (r, bs, c') \<Longrightarrow>
      incoming c = bs @ incoming c' \<and> length bs \<le> n \<and> (r = -1 \<or> r = int (length bs))"
    and readall_good: "good m c \<Longrightarrow> n \<le> m \<Longrightarrow> n \<le> length (incoming c) \<Longrightarrow>
      \<exists>c'. readall n c = (int n, take n (incoming c), c') \<and> incoming c' = drop n (incoming c) \<and> good (m - n) c'"
    and readend_resync: "readend c = (r, c') \<Longrightarrow> 0 \<le> r \<Longrightarrow> \<exists>x. incoming c = x @ BUF_EOF @ incoming c'"
begin

lemma bail_resync:
  assumes "bail readend p c = Some (r, q, c')" and "r = -1"
  shows "\<exists>x. incoming c = x @ BUF_EOF @ incoming c'"
  using assms readend_resync[of c] by (auto simp: bail_def split: prod.splits if_splits)

lemma bail_result: "bail readend p c = Some (r, q, c') \<Longrightarrow> r \<in> {-1, -2} \<and> q = p"
  by (auto simp: bail_def split: prod.splits if_splits)

lemma read_tail_resync:
  assumes "read_tail readall readend tmp headbuf b p c = Some (r, q, c')" and "0 \<le> b"
  shows "r \<in> {-1, -2, b}" and "r = -1 \<Longrightarrow> \<exists>x. incoming c = x @ BUF_EOF @ incoming c'"
proof -
  obtain sz eofstr d where d: "readall (length BUF_EOF) c = (sz, eofstr, d)" by (metis prod_cases3)
  have s: "incoming c = eofstr @ incoming d" using readall_split[OF d] by simp
  show "r \<in> {-1, -2, b}"
    using assms d by (auto simp: read_tail_def Let_def dest!: bail_result split: if_splits option.splits prod.splits)
  assume r: "r = -1"
  have "\<exists>p'. bail readend p' d = Some (r, q, c')"
    using assms d r by (auto simp: read_tail_def Let_def split: if_splits option.splits prod.splits)
  then show "\<exists>x. incoming c = x @ BUF_EOF @ incoming c'"
    using bail_resync[OF _ r] s by (metis append.assoc)
qed

lemma read_rest_resync:
  assumes "read_rest readall readend tmp h b p c = Some (r, q, c')" and "0 \<le> b"
  shows "r \<in> {-1, -2, b}" and "r = -1 \<Longrightarrow> \<exists>x. incoming c = x @ BUF_EOF @ incoming c'"
proof -
  obtain sz headbuf c1 where c1: "readall (nat h) c = (sz, headbuf, c1)" by (metis prod_cases3)
  obtain sz2 body c2 where c2: "readall (nat b) c1 = (sz2, body, c2)" by (metis prod_cases3)
  have s: "incoming c = headbuf @ incoming c1" "incoming c1 = body @ incoming c2"
    using readall_split[OF c1] readall_split[OF c2] by simp_all
  consider "r = -2" | "bail readend p c1 = Some (r, q, c')"
    | p' where "bail readend p' c2 = Some (r, q, c')"
    | p' where "read_tail readall readend tmp headbuf b p' c2 = Some (r, q, c')"
    using assms(1) c1 c2 by (auto simp: read_rest_def split: if_splits option.splits)
  note outcome = this
  show "r \<in> {-1, -2, b}" using outcome
    by cases (auto dest!: bail_result read_tail_resync(1)[OF _ assms(2)])
  assume r: "r = -1"
  from outcome show "\<exists>x. incoming c = x @ BUF_EOF @ incoming c'"
  proof cases
    case 1
    then show ?thesis using r by simp
  next
    case 2
    then show ?thesis using bail_resync[OF _ r] s by (metis append.assoc)
  next
    case (3 p')
    then show ?thesis using bail_resync[OF _ r] s by (metis append.assoc)
  next
    case (4 p')
    then show ?thesis using read_tail_resync(2)[OF _ assms(2) r] s by (metis append.assoc)
  qed
qed

lemma pack_read_resync:
  assumes "pack_read_body readall readend p c = Some (r, q, c')"
  shows "r \<in> {-1, -2} \<or> 0 \<le> r \<and> r \<le> bufsize p" and "r = -1 \<Longrightarrow> \<exists>x. incoming c = x @ BUF_EOF @ incoming c'"
proof -
  obtain sz sizebuf d where d: "readall SIZE_NUM c = (sz, sizebuf, d)" by (metis prod_cases3)
  have s: "incoming c = sizebuf @ incoming d" using readall_split[OF d] by simp
  consider "r = -2" | "bail readend p d = Some (r, q, c')"
    | tmp h b where "read_rest readall readend tmp h b p d = Some (r, q, c')" "0 \<le> b" "b \<le> bufsize p"
    using assms(1) d by (auto simp: pack_read_body_def split: if_splits option.splits prod.splits)
  note outcome = this
  show "r \<in> {-1, -2} \<or> 0 \<le> r \<and> r \<le> bufsize p" using outcome
    by cases (auto dest!: bail_result read_rest_resync(1))
  assume r: "r = -1"
  from outcome show "\<exists>x. incoming c = x @ BUF_EOF @ incoming c'"
  proof cases
    case 1
    then show ?thesis using r by simp
  next
    case 2
    then show ?thesis using bail_resync[OF _ r] s by (metis append.assoc)
  next
    case 3
    then show ?thesis using read_rest_resync(2)[OF _ _ r] s by (metis append.assoc)
  qed
qed

end

definition delivered :: "ul_package_t \<Rightarrow> ul_package_t \<Rightarrow> ul_package_t" where
  \<comment> \<open>a read leaves the size of the receiver's buffer, the size of the body is its result\<close>
  "delivered p q = (received p q)\<lparr>bufsize := bufsize q\<rparr>"

fun read_seq ::
  "(ul_package_t option \<Rightarrow> conn \<Rightarrow> (int \<times> ul_package_t option \<times> conn) option) \<Rightarrow> ul_package_t list \<Rightarrow> conn
   \<Rightarrow> ((int \<times> ul_package_t option) list \<times> conn) option" where
  \<comment> \<open>one read after the other, into the given packages\<close>
  "read_seq rd [] c = Some ([], c)"
| "read_seq rd (q # qs) c =
     (case rd (Some q) c of
        None \<Rightarrow> None
      | Some (r, q', c') \<Rightarrow> map_option (\<lambda>(rs, c''). ((r, q') # rs, c'')) (read_seq rd qs c'))"

context byte_source
begin

lemma read_tail_delivers:
  assumes "sendable p" and "receivable p q" and "pk_name q' = pk_name q" and "pk_value q' = pk_value q"
    and "good m c" and "length BUF_EOF \<le> m" and "incoming c = BUF_EOF @ rest"
  shows "\<exists>c'. read_tail readall readend tmp (pack_head p) (bufsize p) q' c =
      Some (bufsize p, q'\<lparr>pk_name := pk_name (received p q), pk_value := pk_value (received p q),
        pairnum := length (pairs p)\<rparr>, c')
    \<and> incoming c' = rest \<and> good (m - length BUF_EOF) c'"
proof -
  obtain c' where c': "readall (length BUF_EOF) c = (int (length BUF_EOF), BUF_EOF, c')"
      "incoming c' = rest" "good (m - length BUF_EOF) c'"
    using readall_good[OF assms(5,6)] assms(7) by auto
  have nv: "list_all (\<lambda>(n, v). word_ok n \<and> text_ok v) (pairs p)" using assms(1) by (simp add: sendable_def)
  have eof: "strncmp_eq BUF_EOF BUF_EOF (length BUF_EOF)" by (simp add: strncmp_eq_def)
  show ?thesis
    using c' by (simp add: read_tail_def Let_def eof pack_head_no_nul[OF nv] assms(3,4) head_loop_received[OF assms(1,2)])
qed

lemma read_rest_delivers:
  assumes "sendable p" and "receivable p q" and "good m c"
    and "length (pack_head p) + nat (bufsize p) + length BUF_EOF \<le> m"
    and "incoming c = pack_head p @ pack_body p @ BUF_EOF @ rest"
  shows "\<exists>c'. read_rest readall readend tmp (int (length (pack_head p))) (bufsize p) q c = Some (bufsize p, delivered p q, c')
    \<and> incoming c' = rest \<and> good (m - (length (pack_head p) + nat (bufsize p) + length BUF_EOF)) c'"
proof -
  let ?h = "length (pack_head p)" and ?b = "nat (bufsize p)"
  have w: "0 \<le> bufsize p" "length (pack_body p) = ?b" using assms(1) by (auto simp: sendable_def well_framed_def)
  obtain c1 where c1: "readall ?h c = (int ?h, pack_head p, c1)" "incoming c1 = pack_body p @ BUF_EOF @ rest" "good (m - ?h) c1"
    using readall_good[OF assms(3), of ?h] assms(4,5) by auto
  have "?b \<le> m - ?h" using assms(4) by simp
  then obtain c2 where c2: "readall ?b c1 = (int ?b, pack_body p, c2)" "incoming c2 = BUF_EOF @ rest" "good (m - ?h - ?b) c2"
    using readall_good[OF c1(3), of ?b] c1(2) w by auto
  obtain d where d: "pk_buf q = Some d" "?b \<le> length d"
    using assms(2) by (auto simp: receivable_def split: option.splits)
  let ?q' = "q\<lparr>pk_buf := Some (pack_body p @ drop ?b d)\<rparr>"
  have st: "store_body q ?b (pack_body p) = Some ?q'" using d w by (simp add: store_body_def)
  have m: "length BUF_EOF \<le> m - ?h - ?b" using assms(4) by simp
  obtain c' where c': "read_tail readall readend tmp (pack_head p) (bufsize p) ?q' c2 =
      Some (bufsize p, ?q'\<lparr>pk_name := pk_name (received p q), pk_value := pk_value (received p q),
        pairnum := length (pairs p)\<rparr>, c')"
      "incoming c' = rest" "good (m - ?h - ?b - length BUF_EOF) c'"
    using read_tail_delivers[OF assms(1,2) _ _ c2(3) m c2(2), of ?q' tmp] by auto
  have "?q'\<lparr>pk_name := pk_name (received p q), pk_value := pk_value (received p q), pairnum := length (pairs p)\<rparr>
      = delivered p q" by (simp add: delivered_def received_def d)
  then show ?thesis using c1 c2 c' st w by (simp add: read_rest_def)
qed

lemma pack_read_delivers:
  assumes "sendable p" and "receivable p q" and "good m c" and "length (pack_bytes p) \<le> m"
    and "incoming c = pack_bytes p @ rest"
  shows "\<exists>c'. pack_read_body readall readend q c = Some (bufsize p, delivered p q, c')
    \<and> incoming c' = rest \<and> good (m - length (pack_bytes p)) c'"
proof -
  let ?f = "size_field (size_text (int (length (pack_head p))) (bufsize p))"
  have w: "well_framed p" using assms(1) by (simp add: sendable_def)
  have f: "length ?f = SIZE_NUM" using w by (simp add: well_framed_def length_size_field)
  have len: "length (pack_bytes p) = SIZE_NUM + (length (pack_head p) + nat (bufsize p) + length BUF_EOF)"
    by (simp add: length_pack_bytes[OF w])
  have inc: "incoming c = ?f @ pack_head p @ pack_body p @ BUF_EOF @ rest" using assms(5) by (simp add: pack_bytes_def)
  obtain c1 where c1: "readall SIZE_NUM c = (int SIZE_NUM, ?f, c1)"
      "incoming c1 = pack_head p @ pack_body p @ BUF_EOF @ rest" "good (m - SIZE_NUM) c1"
    using readall_good[OF assms(3), of SIZE_NUM] assms(4) inc f len by auto
  have "length (pack_head p) + nat (bufsize p) + length BUF_EOF \<le> m - SIZE_NUM" using assms(4) len by simp
  from read_rest_delivers[OF assms(1,2) c1(3) this c1(2), of "''~BUF!''"]
  obtain c' where c': "read_rest readall readend ''~BUF!'' (int (length (pack_head p))) (bufsize p) q c1 =
      Some (bufsize p, delivered p q, c')"
      "incoming c' = rest" "good (m - length (pack_bytes p)) c'"
    by (auto simp: len diff_diff_left)
  have b: "0 \<le> bufsize p" "bufsize p \<le> bufsize q" "length (pack_head p) < MAX_HEAD_SIZE"
    using assms(1,2) by (auto simp: sendable_def well_framed_def receivable_def)
  then show ?thesis
    using c1 c' by (simp add: pack_read_body_def size_field_start scan_sizes_bytes[OF assms(1)])
qed

lemma read_seq_delivers:
  "\<lbrakk>list_all sendable ps; list_all2 receivable ps qs; good m c; length (concat (map pack_bytes ps)) \<le> m;
    incoming c = concat (map pack_bytes ps) @ rest\<rbrakk>
   \<Longrightarrow> \<exists>c'. read_seq (pack_read_with readall readend) qs c =
      Some (map2 (\<lambda>p q. (bufsize p, Some (delivered p q))) ps qs, c')
     \<and> incoming c' = rest"
proof (induction ps arbitrary: qs m c)
  case (Cons p ps)
  then obtain q qs' where qs: "qs = q # qs'" "receivable p q" "list_all2 receivable ps qs'" by (cases qs) auto
  obtain c1 where c1: "pack_read_body readall readend q c = Some (bufsize p, delivered p q, c1)"
      "incoming c1 = concat (map pack_bytes ps) @ rest" "good (m - length (pack_bytes p)) c1"
    using pack_read_delivers[of p q m c "concat (map pack_bytes ps) @ rest"] Cons.prems qs by auto
  show ?case using Cons.IH[OF _ qs(3) c1(3) _ c1(2)] Cons.prems qs c1(1) by (auto simp: pack_read_with_def)
qed simp

end

interpretation blocking: byte_source ul_pack_readall ul_pack_readend steady
proof
  fix n c r bs c'
  assume "ul_pack_readall n c = (r, bs, c')"
  then show "incoming c = bs @ incoming c' \<and> length bs \<le> n \<and> (r = -1 \<or> r = int (length bs))"
    using readall_loop_split[of n "[]" c r bs c'] by (auto simp: ul_pack_readall_def)
next
  fix m c n
  assume "steady m c" "n \<le> m" "n \<le> length (incoming c)"
  then show "\<exists>c'. ul_pack_readall n c = (int n, take n (incoming c), c') \<and> incoming c' = drop n (incoming c) \<and> steady (m - n) c'"
    using readall_loop_steady[of m c n "[]"] by (auto simp: ul_pack_readall_def)
next
  fix c r c'
  assume "ul_pack_readend c = (r, c')" "0 \<le> r"
  then show "\<exists>x. incoming c = x @ BUF_EOF @ incoming c'"
    using readend_loop_resync[of "[]" c r c'] by (auto simp: ul_pack_readend_def)
qed

interpretation polled: byte_source ul_pack_readallo_ms ul_pack_readendo_ms steady_polled
proof
  fix n c r bs c'
  assume "ul_pack_readallo_ms n c = (r, bs, c')"
  then show "incoming c = bs @ incoming c' \<and> length bs \<le> n \<and> (r = -1 \<or> r = int (length bs))"
    using readallo_loop_split[of n "[]" c r bs c'] by (auto simp: ul_pack_readallo_ms_def)
next
  fix m c n
  assume "steady_polled m c" "n \<le> m" "n \<le> length (incoming c)"
  then show "\<exists>c'. ul_pack_readallo_ms n c = (int n, take n (incoming c), c') \<and> incoming c' = drop n (incoming c)
      \<and> steady_polled (m - n) c'"
    using readallo_loop_steady[of m c n "[]"] by (auto simp: ul_pack_readallo_ms_def)
next
  fix c r c'
  assume "ul_pack_readendo_ms c = (r, c')" "0 \<le> r"
  then show "\<exists>x. incoming c = x @ BUF_EOF @ incoming c'"
    using readendo_loop_resync[of "[]" c r c'] by (auto simp: ul_pack_readendo_ms_def)
qed

section \<open>Writing packages to any sink of bytes\<close>

definition is_takes :: "write_ev \<Rightarrow> bool" where
  "is_takes e = (case e of WriteTakes k \<Rightarrow> True | WriteFail b \<Rightarrow> False)"

definition wsteady :: "nat \<Rightarrow> conn \<Rightarrow> bool" where
  \<comment> \<open>no write fails but by an interrupt, every other takes at least a byte, and there are at least \<open>m\<close> of them\<close>
  "wsteady m c \<longleftrightarrow> list_all (\<lambda>e. e \<noteq> WriteFail False \<and> e \<noteq> WriteTakes 0) (writes c)
     \<and> m \<le> length (filter is_takes (writes c))"

definition wsteady_polled :: "nat \<Rightarrow> conn \<Rightarrow> bool" where
  "wsteady_polled m c \<longleftrightarrow> wsteady m c \<and> fcntl_ok c
     \<and> list_all (\<lambda>e. e \<noteq> PollTimeout \<and> e \<noteq> PollFail False) (wpolls c)
     \<and> length (writes c) \<le> length (filter (\<lambda>e. e = PollOk) (wpolls c))"

lemma sys_write_steady:
  assumes "wsteady m c" and "0 < m" and "bs \<noteq> []"
  obtains k c' where "sys_write bs c = (int k, c')" "0 < k" "k \<le> length bs" "wsteady (m - k) c'"
      "outgoing c' = outgoing c @ take k bs" "length (writes c') < length (writes c)"
      "wpolls c' = wpolls c" "fcntl_ok c' = fcntl_ok c"
  | c' where "sys_write bs c = (-1, c')" "eintr c'" "wsteady m c'" "outgoing c' = outgoing c"
      "length (writes c') < length (writes c)" "wpolls c' = wpolls c" "fcntl_ok c' = fcntl_ok c"
proof (cases "writes c")
  case Nil
  then show ?thesis using assms(1,2) by (simp add: wsteady_def)
next
  case (Cons e es)
  show ?thesis
  proof (cases e)
    case (WriteTakes k)
    let ?k = "min k (length bs)"
    have k: "0 < ?k" "take ?k bs = take k bs"
      using assms(1,3) Cons WriteTakes by (auto simp: wsteady_def min_def)
    have "wsteady (m - ?k) (c\<lparr>writes := es, outgoing := outgoing c @ take k bs\<rparr>)"
    proof -
      have "m \<le> Suc (length (filter is_takes es))" using assms(1) Cons WriteTakes by (simp add: wsteady_def is_takes_def)
      then have "m - ?k \<le> length (filter is_takes es)" using k(1) by linarith
      then show ?thesis using assms(1) Cons by (simp add: wsteady_def)
    qed
    then show ?thesis
      using that(1)[of ?k] Cons WriteTakes k by (simp add: sys_write_def min.commute)
  next
    case (WriteFail b)
    then have "b" using assms(1) Cons by (cases b) (simp_all add: wsteady_def)
    then show ?thesis
      using that(2)[of "c\<lparr>writes := es, eintr := True\<rparr>"] assms(1) Cons WriteFail
      by (simp add: sys_write_def wsteady_def is_takes_def)
  qed
qed

lemma writeall_loop_steady:
  "\<lbrakk>wsteady m c; length bs \<le> m\<rbrakk> \<Longrightarrow>
   \<exists>c'. writeall_loop n bs c = (int n, c') \<and> outgoing c' = outgoing c @ bs \<and> wsteady (m - length bs) c'"
proof (induction "length (writes c)" arbitrary: bs c m rule: less_induct)
  case less
  show ?case
  proof (cases "bs = []")
    case True
    then show ?thesis using less.prems(1) by (subst writeall_loop.simps) simp
  next
    case False
    then have p: "0 < m" using less.prems(2) by (cases bs) auto
    from sys_write_steady[OF less.prems(1) p False] show ?thesis
    proof cases
      case (1 k c')
      have "\<exists>c''. writeall_loop n (drop k bs) c' = (int n, c'') \<and> outgoing c'' = outgoing c' @ drop k bs
        \<and> wsteady (m - k - length (drop k bs)) c''"
        using 1 less.prems by (intro less.hyps) auto
      then show ?thesis using 1 False by (subst writeall_loop.simps) auto
    next
      case (2 c')
      then show ?thesis using less.hyps[OF 2(5,3)] less.prems False by (subst writeall_loop.simps) auto
    qed
  qed
qed

lemma ul_writeo_tv_steady:
  assumes "wsteady_polled m c" and "0 < m" and "bs \<noteq> []"
  obtains k c' where "ul_writeo_tv bs c = (int k, c')" "0 < k" "k \<le> length bs" "wsteady_polled (m - k) c'"
      "outgoing c' = outgoing c @ take k bs" "length (wpolls c') < length (wpolls c)"
  | c' where "ul_writeo_tv bs c = (-1, c')" "eintr c'" "wsteady_polled m c'" "outgoing c' = outgoing c"
      "length (wpolls c') < length (wpolls c)"
proof -
  have s: "wsteady m c" and l: "length (writes c) \<le> length (filter (\<lambda>e. e = PollOk) (wpolls c))"
    using assms(1) by (auto simp: wsteady_polled_def)
  have "writes c \<noteq> []" using s assms(2) by (auto simp: wsteady_def)
  then obtain e ps where ps: "wpolls c = e # ps" using l by (cases "wpolls c") auto
  let ?d = "c\<lparr>wpolls := ps\<rparr>"
  show ?thesis
  proof (cases e)
    case PollOk
    have r: "ul_writeo_tv bs c = sys_write bs ?d" using ps PollOk by (simp add: ul_writeo_tv_def)
    have "wsteady m ?d" using s by (simp add: wsteady_def)
    from sys_write_steady[OF this assms(2,3)] show ?thesis
    proof cases
      case (1 k c')
      then have "wsteady_polled (m - k) c'" using assms(1) ps PollOk by (auto simp: wsteady_polled_def)
      then show ?thesis using that(1)[of k c'] 1 r ps by simp
    next
      case (2 c')
      then have "wsteady_polled m c'" using assms(1) ps PollOk by (auto simp: wsteady_polled_def)
      then show ?thesis using that(2)[of c'] 2 r ps by simp
    qed
  next
    case PollTimeout
    then show ?thesis using assms(1) ps by (simp add: wsteady_polled_def)
  next
    case (PollFail b)
    then have "b" using assms(1) ps by (cases b) (simp_all add: wsteady_polled_def)
    moreover have "wsteady_polled m (c\<lparr>wpolls := ps, eintr := True\<rparr>)"
      using assms(1) ps PollFail by (simp add: wsteady_polled_def wsteady_def)
    ultimately show ?thesis
      using that(2)[of "c\<lparr>wpolls := ps, eintr := True\<rparr>"] ps PollFail by (simp add: ul_writeo_tv_def)
  qed
qed

lemma swriteo_loop_steady:
  "\<lbrakk>wsteady_polled m c; length bs \<le> m\<rbrakk> \<Longrightarrow>
   \<exists>c'. swriteo_loop n bs c = (int (n + length bs), c') \<and> outgoing c' = outgoing c @ bs \<and> wsteady_polled (m - length bs) c'"
proof (induction "length (wpolls c)" arbitrary: n bs c m rule: less_induct)
  case less
  show ?case
  proof (cases "bs = []")
    case True
    then show ?thesis using less.prems(1) by (subst swriteo_loop.simps) simp
  next
    case False
    then have p: "0 < m" using less.prems(2) by (cases bs) auto
    from ul_writeo_tv_steady[OF less.prems(1) p False] show ?thesis
    proof cases
      case (1 k c')
      have "\<exists>c''. swriteo_loop (n + k) (drop k bs) c' = (int (n + k + length (drop k bs)), c'')
        \<and> outgoing c'' = outgoing c' @ drop k bs \<and> wsteady_polled (m - k - length (drop k bs)) c''"
        using 1 less.prems by (intro less.hyps) auto
      then show ?thesis using 1 False by (subst swriteo_loop.simps) auto
    next
      case (2 c')
      then show ?thesis using less.hyps[OF 2(5,3)] less.prems False by (subst swriteo_loop.simps) auto
    qed
  qed
qed

locale byte_sink =
  fixes writeall :: "char list \<Rightarrow> conn \<Rightarrow> int \<times> conn"
    and good :: "nat \<Rightarrow> conn \<Rightarrow> bool"
  assumes writeall_good: "good m c \<Longrightarrow> length bs \<le> m \<Longrightarrow>
      \<exists>c'. writeall bs c = (int (length bs), c') \<and> outgoing c' = outgoing c @ bs \<and> good (m - length bs) c'"
begin

lemma write_parts_sends:
  "\<lbrakk>good m c; length (concat parts) \<le> m\<rbrakk> \<Longrightarrow>
   \<exists>c'. write_parts writeall parts c = (0, c') \<and> outgoing c' = outgoing c @ concat parts
     \<and> good (m - length (concat parts)) c'"
proof (induction parts arbitrary: m c)
  case Nil
  then show ?case by (simp add: write_parts_def)
next
  case (Cons bs parts)
  obtain c1 where c1: "writeall bs c = (int (length bs), c1)" "outgoing c1 = outgoing c @ bs" "good (m - length bs) c1"
    using writeall_good[OF Cons.prems(1), of bs] Cons.prems(2) by auto
  then show ?case using Cons.IH[OF c1(3)] Cons.prems(2) by (auto simp: write_parts_def)
qed

lemma send_package_sends:
  assumes "sendable p" and "good m c" and "length (pack_bytes p) \<le> m"
  shows "\<exists>c'. send_package writeall s p (pack_head p) c = Some (0, c') \<and> outgoing c' = outgoing c @ pack_bytes p
    \<and> good (m - length (pack_bytes p)) c'"
proof -
  have w: "0 \<le> bufsize p" "int (length (pack_body p)) = bufsize p" "length (pack_head p) < MAX_HEAD_SIZE"
    "length (size_text (int (length (pack_head p))) (bufsize p)) < SIZE_NUM - 1"
    using assms(1) by (auto simp: sendable_def well_framed_def)
  let ?parts = "[sizebuf_bytes (size_text (int (length (pack_head p))) (bufsize p)), headbuf_bytes (pack_head p),
    pack_body p, BUF_EOF]"
  have "concat ?parts = pack_bytes p" using w by (simp add: sizebuf_bytes_def headbuf_bytes_def pack_bytes_def)
  then show ?thesis using write_parts_sends[OF assms(2), of ?parts] assms(3) w by (auto simp: send_package_def)
qed

end

interpretation polled_out: byte_sink ul_pack_writeallo_ms wsteady_polled
proof
  fix m c and bs :: "char list"
  assume a: "wsteady_polled m c" "length bs \<le> m"
  then have "fcntl_ok c" by (simp add: wsteady_polled_def)
  then show "\<exists>c'. ul_pack_writeallo_ms bs c = (int (length bs), c') \<and> outgoing c' = outgoing c @ bs
      \<and> wsteady_polled (m - length bs) c'"
    using swriteo_loop_steady[OF a, of 0] by (simp add: ul_pack_writeallo_ms_def ul_swriteo_ms_ex_def)
qed

interpretation blocking_out: byte_sink ul_pack_writeall wsteady
proof
  fix m c and bs :: "char list"
  assume a: "wsteady m c" "length bs \<le> m"
  show "\<exists>c'. ul_pack_writeall bs c = (int (length bs), c') \<and> outgoing c' = outgoing c @ bs \<and> wsteady (m - length bs) c'"
    using writeall_loop_steady[OF a] by (simp add: ul_pack_writeall_def)
qed

lemma headbuf_loop_fits:
  "\<lbrakk>list_all (\<lambda>nv. fst nv \<noteq> []) nvs; length (acc @ concat (map head_line nvs)) \<le> MAX_HEAD_SIZE\<rbrakk>
   \<Longrightarrow> headbuf_loop nvs acc = Some (acc @ concat (map head_line nvs))"
proof (induction nvs arbitrary: acc)
  case (Cons nv nvs)
  then show ?case using Cons.IH[of "acc @ head_line nv"] by simp
qed simp

lemma sendable_names: "sendable p \<Longrightarrow> list_all (\<lambda>nv. fst nv \<noteq> []) (pairs p)"
  by (auto simp: sendable_def list_all_iff word_ok_def)

lemma writeo_ms_sends:
  assumes "sendable p" and "wsteady_polled m c" and "length (pack_bytes p) \<le> m"
  shows "\<exists>c'. ul_pack_writeo_ms (Some p) c = Some (0, c') \<and> outgoing c' = outgoing c @ pack_bytes p
    \<and> wsteady_polled (m - length (pack_bytes p)) c'"
proof -
  have h: "length (pack_head p) < MAX_HEAD_SIZE" using assms(1) by (simp add: sendable_def)
  have "headbuf_loop (pairs p) [] = Some (concat (map head_line (pairs p)))"
    using headbuf_loop_fits[OF sendable_names[OF assms(1)], of "[]"] h by (simp add: pack_head_def)
  then show ?thesis
    using polled_out.send_package_sends[OF assms, of False] h by (simp add: ul_pack_writeo_ms_def pack_head_def)
qed

lemma write_sends:
  assumes "sendable p" and "wsteady m c" and "length (pack_bytes p) \<le> m"
  shows "\<exists>c'. ul_pack_write (Some p) c = Some (0, c') \<and> outgoing c' = outgoing c @ pack_bytes p
    \<and> wsteady (m - length (pack_bytes p)) c'"
proof -
  have "filter (\<lambda>nv. fst nv \<noteq> []) (pairs p) = pairs p"
    using sendable_names[OF assms(1)] by (simp add: list_all_iff)
  moreover have "length (pack_head p) < MAX_HEAD_SIZE" using assms(1) by (simp add: sendable_def)
  ultimately show ?thesis
    using blocking_out.send_package_sends[OF assms, of True] by (simp add: ul_pack_write_def Let_def pack_head_def)
qed

section \<open>The search for the end mark\<close>

fun scan_end :: "char list \<Rightarrow> char list \<Rightarrow> char list option" where
  \<comment> \<open>the search on a list of bytes: what is behind the end mark\<close>
  "scan_end tmp [] = None"
| "scan_end tmp (ch # s) = (case end_step tmp ch of None \<Rightarrow> Some s | Some tmp' \<Rightarrow> scan_end tmp' s)"

definition tilde_run :: "char list \<Rightarrow> bool" where
  "tilde_run tmp \<longleftrightarrow> tmp = [] \<or> hd tmp = CHR ''~'' \<and> CHR ''~'' \<notin> set (tl tmp) \<and> length tmp < length BUF_EOF"

lemma strstr_length: "strstr s t = Some i \<Longrightarrow> i + length t \<le> length s"
  by (induction s arbitrary: i) (auto dest: prefix_length_le split: if_splits)

lemma strstr_eof_skip:
  assumes "tilde_run tmp" and "tmp \<noteq> []" and "\<not> prefix BUF_EOF (tmp @ s)"
  shows "strstr (tmp @ s) BUF_EOF = map_option (\<lambda>i. length tmp + i) (strstr s BUF_EOF)"
proof -
  obtain u where u: "tmp = CHR ''~'' # u" "CHR ''~'' \<notin> set u"
    using assms(1,2) by (cases tmp) (auto simp: tilde_run_def)
  have "strstr (u @ s) BUF_EOF = map_option (\<lambda>i. length u + i) (strstr s BUF_EOF)"
    using u(2) by (intro strstr_append) (simp_all add: BUF_EOF_def)
  then show ?thesis using assms(3) by (simp add: u option.map_comp comp_def)
qed

lemma scan_end_strstr:
  "tilde_run tmp \<Longrightarrow> scan_end tmp s = map_option (\<lambda>i. drop (i + length BUF_EOF) (tmp @ s)) (strstr (tmp @ s) BUF_EOF)"
proof (induction s arbitrary: tmp)
  case Nil
  have "strstr tmp BUF_EOF = None"
  proof (rule ccontr)
    assume "strstr tmp BUF_EOF \<noteq> None"
    then obtain i where "strstr tmp BUF_EOF = Some i" by auto
    then have "length BUF_EOF \<le> length tmp" using strstr_length by fastforce
    then show False using Nil by (auto simp: tilde_run_def BUF_EOF_def)
  qed
  then show ?case by simp
next
  case (Cons ch s)
  have nil: "scan_end [] s = map_option (\<lambda>i. drop (i + length BUF_EOF) s) (strstr s BUF_EOF)"
    using Cons.IH[of "[]"] by (simp add: tilde_run_def)
  have one: "tilde_run [CHR ''~'']" by (simp add: tilde_run_def BUF_EOF_def)
  show ?case
  proof (cases "tmp = []")
    case True
    show ?thesis
    proof (cases "ch = CHR ''~''")
      case tilde: True
      then show ?thesis using Cons.IH[OF one] True by (simp add: end_step_def)
    next
      case False
      then have "\<not> prefix BUF_EOF (ch # s)" by (simp add: BUF_EOF_def)
      then show ?thesis using nil True False by (simp add: end_step_def option.map_comp comp_def)
    qed
  next
    case ne: False
    have l: "length tmp < length BUF_EOF" using Cons.prems ne by (auto simp: tilde_run_def)
    show ?thesis
    proof (cases "ch = CHR ''~''")
      case True
      have "\<not> prefix BUF_EOF (tmp @ ch # s)"
      proof
        assume "prefix BUF_EOF (tmp @ ch # s)"
        then obtain zs where "tmp @ ch # s = BUF_EOF @ zs" by (auto simp: prefix_def)
        then have "BUF_EOF ! length tmp = CHR ''~''" using l True by (metis nth_append nth_append_length)
        moreover have "0 < length tmp" "length tmp < 5" using l ne by (simp_all add: BUF_EOF_def)
        then have "length tmp = 1 \<or> length tmp = 2 \<or> length tmp = 3 \<or> length tmp = 4" by linarith
        ultimately show False by (auto simp: BUF_EOF_def)
      qed
      from strstr_eof_skip[OF Cons.prems ne this] Cons.IH[OF one] show ?thesis
        using True ne by (simp add: end_step_def option.map_comp comp_def add.assoc)
    next
      case False
      show ?thesis
      proof (cases "length (tmp @ [ch]) = length BUF_EOF")
        case full: True
        show ?thesis
        proof (cases "tmp @ [ch] = BUF_EOF")
          case True
          then have e: "tmp @ ch # s = BUF_EOF @ s" by (metis append.assoc append_Cons append_Nil)
          have z: "strstr (BUF_EOF @ s) BUF_EOF = Some 0" by (simp add: BUF_EOF_def)
          have "end_step tmp ch = None" using False ne True by (simp add: end_step_def strncmp_eq_def)
          then show ?thesis unfolding e z by simp
        next
          case bad: False
          then have np: "\<not> prefix BUF_EOF (tmp @ ch # s)"
            using full by (metis append.assoc append_Cons append_Nil append_eq_append_conv prefix_def)
          have "strstr (ch # s) BUF_EOF = map_option Suc (strstr s BUF_EOF)" using False by (simp add: BUF_EOF_def)
          then show ?thesis
            using strstr_eof_skip[OF Cons.prems ne np] nil full False ne bad
            by (simp add: end_step_def strncmp_eq_def option.map_comp comp_def)
        qed
      next
        case short: False
        have "tilde_run (tmp @ [ch])" using Cons.prems ne False short l by (auto simp: tilde_run_def)
        from Cons.IH[OF this] show ?thesis using ne False short by (simp add: end_step_def)
      qed
    qed
  qed
qed

lemma readendo_loop_steady:
  "\<lbrakk>steady_polled m c; length (incoming c) \<le> m; readendo_loop tmp c = (r, c')\<rbrakk> \<Longrightarrow>
   case scan_end tmp (incoming c) of None \<Rightarrow> r = -1 | Some rest \<Rightarrow> r = 0 \<and> incoming c' = rest"
proof (induction "length (rpolls c)" arbitrary: tmp c m rule: less_induct)
  case less
  obtain k cs d where k: "ul_reado_ms 1 c = (k, cs, d)" by (metis prod_cases3)
  note s = ul_reado_ms_split[OF k]
  show ?case
  proof (cases "incoming c")
    case Nil
    then have z: "cs = []" "incoming d = []" using s by simp_all
    show ?thesis
    proof (cases "k < 0 \<and> k \<noteq> -2 \<and> eintr d")
      case True
      have "r = -1" if "readendo_loop tmp e = (r, c')" "incoming e = []" for e
        using that
      proof (induction tmp e rule: readendo_loop.induct)
        case (1 tmp e)
        obtain k' cs' d' where k': "ul_reado_ms 1 e = (k', cs', d')" by (metis prod_cases3)
        have z': "cs' = []" "incoming d' = []" "k' < 0 \<or> k' = 0" using ul_reado_ms_split[OF k'] 1(4) by auto
        show ?case
        proof (cases "k' < 0 \<and> k' \<noteq> -2 \<and> eintr d'")
          case True
          then have "readendo_loop tmp d' = (r, c')" using 1(3) k' by (subst (asm) readendo_loop.simps) simp
          then show ?thesis using 1(1)[OF k'[symmetric] refl] True z' by simp
        next
          case False
          then show ?thesis using 1(3) k' z' by (subst (asm) readendo_loop.simps) (auto split: if_splits)
        qed
      qed
      then show ?thesis using less.prems(3) Nil by simp
    next
      case False
      then show ?thesis using less.prems(3) k s z Nil by (subst (asm) readendo_loop.simps) (auto split: if_splits)
    qed
  next
    case (Cons ch rest)
    then have p: "0 < m" "incoming c \<noteq> []" using less.prems(2) by auto
    from ul_reado_ms_steady[OF less.prems(1) p(1) zero_less_one p(2)] show ?thesis
    proof cases
      case (1 bs e)
      note t = ul_reado_ms_split[OF 1(1)]
      then have bs: "bs = [ch]" "incoming e = rest" using 1(2) Cons by (cases bs; simp)+
      show ?thesis
      proof (cases "end_step tmp ch")
        case None
        then show ?thesis using less.prems(3) 1 bs Cons by (subst (asm) readendo_loop.simps) simp
      next
        case (Some tmp')
        then have "readendo_loop tmp' e = (r, c')"
          using less.prems(3) 1 bs by (subst (asm) readendo_loop.simps) simp
        then show ?thesis using less.hyps[OF 1(4,3), of tmp'] less.prems(2) bs Cons Some by simp
      qed
    next
      case (2 j e)
      then have "readendo_loop tmp e = (r, c')" using less.prems(3) by (subst (asm) readendo_loop.simps) auto
      then show ?thesis using less.hyps[OF 2(6,4), of tmp] less.prems(2) 2(5) by simp
    qed
  qed
qed

section \<open>Properties\<close>

fun write_seq ::
  "(ul_package_t option \<Rightarrow> conn \<Rightarrow> (int \<times> conn) option) \<Rightarrow> ul_package_t list \<Rightarrow> conn \<Rightarrow> (int list \<times> conn) option" where
  "write_seq wr [] c = Some ([], c)"
| "write_seq wr (p # ps) c =
     (case wr (Some p) c of
        None \<Rightarrow> None
      | Some (r, c') \<Rightarrow> map_option (\<lambda>(rs, c''). (r # rs, c'')) (write_seq wr ps c'))"

definition carries :: "ul_package_t \<Rightarrow> int \<times> ul_package_t option \<Rightarrow> bool" where
  \<comment> \<open>the result of a read carries the package \<open>p\<close>\<close>
  "carries p res \<longleftrightarrow>
     (case res of
        (r, Some q) \<Rightarrow> r = bufsize p \<and> pairs q = pairs p
          \<and> (case pk_buf q of None \<Rightarrow> False | Some b \<Rightarrow> take (nat r) b = pack_body p)
      | _ \<Rightarrow> False)"

lemma carries_delivered:
  assumes "sendable p" and "receivable p q"
  shows "carries p (bufsize p, Some (delivered p q))"
proof -
  have "length (pack_body p) = nat (bufsize p)" "length (pairs p) \<le> MAX_PACK_ITEM_NUM"
    using assms(1) by (auto simp: sendable_def well_framed_def)
  note same = received_same[OF assms(2) this]
  have "pairs (delivered p q) = pairs p" using same(1) by (simp add: delivered_def pairs_def)
  moreover obtain d where "pk_buf q = Some d" using assms(2) by (auto simp: receivable_def split: option.splits)
  ultimately show ?thesis
    using \<open>length (pack_body p) = nat (bufsize p)\<close> by (simp add: carries_def delivered_def received_def)
qed

lemma write_seq_sends:
  "\<lbrakk>list_all sendable ps; wsteady_polled m c; length (concat (map pack_bytes ps)) \<le> m\<rbrakk> \<Longrightarrow>
   \<exists>c'. write_seq ul_pack_writeo_ms ps c = Some (replicate (length ps) 0, c')
     \<and> outgoing c' = outgoing c @ concat (map pack_bytes ps)"
proof (induction ps arbitrary: m c)
  case (Cons p ps)
  obtain c1 where c1: "ul_pack_writeo_ms (Some p) c = Some (0, c1)" "outgoing c1 = outgoing c @ pack_bytes p"
      "wsteady_polled (m - length (pack_bytes p)) c1"
    using writeo_ms_sends[of p m c] Cons.prems by auto
  then show ?case using Cons.IH[OF _ c1(3)] Cons.prems by auto
qed simp

lemma list_all2_map2:
  "list_all P xs \<Longrightarrow> list_all2 Q xs ys \<Longrightarrow> (\<And>x y. P x \<Longrightarrow> Q x y \<Longrightarrow> R x (f x y)) \<Longrightarrow> list_all2 R xs (map2 f xs ys)"
  by (induction xs arbitrary: ys) (auto simp: list_all2_Cons1)

text \<open>C9: packages sent one after the other with \<open>ul_pack_writeo_ms\<close> arrive with \<open>ul_pack_reado_ms\<close> in their order:
  however the two connections cut the stream into pieces and interrupt the calls, as long as neither
  fails and enough calls are made, every write returns 0, every read returns the size of the body, the
  receiving package has the sender's pairs and body, and nothing is left in the stream.\<close>

theorem stream_roundtrip:
  assumes "list_all sendable ps" and "list_all2 receivable ps qs"
    and "wsteady_polled m c" and "length (concat (map pack_bytes ps)) \<le> m" and "outgoing c = []"
    and "steady_polled n e" and "length (concat (map pack_bytes ps)) \<le> n"
  shows "\<exists>c' e' rs. write_seq ul_pack_writeo_ms ps c = Some (replicate (length ps) 0, c')
    \<and> read_seq ul_pack_reado_ms qs (e\<lparr>incoming := outgoing c'\<rparr>) = Some (rs, e')
    \<and> list_all2 carries ps rs \<and> incoming e' = []"
proof -
  obtain c' where c': "write_seq ul_pack_writeo_ms ps c = Some (replicate (length ps) 0, c')"
      "outgoing c' = concat (map pack_bytes ps)"
    using write_seq_sends[OF assms(1,3,4)] assms(5) by auto
  let ?e = "e\<lparr>incoming := outgoing c'\<rparr>"
  have "steady_polled n ?e" using assms(6) by (simp add: steady_polled_def steady_def)
  then obtain e' where "read_seq ul_pack_reado_ms qs ?e =
      Some (map2 (\<lambda>p q. (bufsize p, Some (delivered p q))) ps qs, e')" "incoming e' = []"
    using polled.read_seq_delivers[OF assms(1,2) _ assms(7), of ?e "[]"] c'(2) by (auto simp: ul_pack_reado_ms_def)
  moreover have "list_all2 carries ps (map2 (\<lambda>p q. (bufsize p, Some (delivered p q))) ps qs)"
    using assms(1,2) by (rule list_all2_map2) (rule carries_delivered)
  ultimately show ?thesis using c'(1) by blast
qed

definition choppy :: conn where
  \<comment> \<open>a connection that moves one to three bytes at a time, with interrupts\<close>
  "choppy = \<lparr>incoming = [], rpolls = PollFail True # replicate 90 PollOk,
     reads = ReadFail True # concat (replicate 30 [ReadGives 0, ReadGives 2]), outgoing = [],
     wpolls = replicate 90 PollOk, writes = WriteFail True # concat (replicate 30 [WriteTakes 1, WriteTakes 3]),
     eintr = False, fcntl_ok = True\<rparr>"

theorem stream_roundtrip_witness:
  "\<exists>c' e' rs. write_seq ul_pack_writeo_ms [sample_pack] choppy = Some ([0], c')
    \<and> read_seq ul_pack_reado_ms [empty_pack] (choppy\<lparr>incoming := outgoing c'\<rparr>) = Some (rs, e')
    \<and> list_all2 carries [sample_pack] rs \<and> incoming e' = []"
proof -
  have c: "wsteady_polled 60 choppy" "steady_polled 60 choppy" "outgoing choppy = []" by code_simp+
  show ?thesis
    using stream_roundtrip[of "[sample_pack]" "[empty_pack]" 60 choppy 60 choppy] c
      sample_pack_sendable sample_pack_facts by simp
qed

text \<open>\<open>ul_pack_write_mo_ms\<close> puts on the connection what \<open>ul_pack_writeo_ms\<close> puts there, in one piece or, when
  the allocation fails, by the same calls; so does \<open>ul_pack_write\<close> on a blocking connection.\<close>

theorem writers_agree:
  assumes "sendable p" and "bufsize p < 2 ^ 31 - int (SIZE_NUM + MAX_HEAD_SIZE + 20)"
    and "wsteady_polled m c" and "length (pack_bytes p) \<le> m"
  shows "\<exists>c1 c2 c3. ul_pack_writeo_ms (Some p) c = Some (0, c1) \<and> ul_pack_write_mo_ms malloc_ok (Some p) c = Some (0, c2)
    \<and> ul_pack_write (Some p) c = Some (0, c3)
    \<and> outgoing c1 = outgoing c @ pack_bytes p \<and> outgoing c2 = outgoing c1 \<and> outgoing c3 = outgoing c1"
proof -
  obtain c1 where c1: "ul_pack_writeo_ms (Some p) c = Some (0, c1)" "outgoing c1 = outgoing c @ pack_bytes p"
    using writeo_ms_sends[OF assms(1,3,4)] by blast
  have "wsteady m c" using assms(3) by (simp add: wsteady_polled_def)
  then obtain c3 where c3: "ul_pack_write (Some p) c = Some (0, c3)" "outgoing c3 = outgoing c @ pack_bytes p"
    using write_sends[OF assms(1) _ assms(4)] by blast
  obtain c2 where c2: "ul_pack_writeallo_ms (pack_bytes p) c = (int (length (pack_bytes p)), c2)"
      "outgoing c2 = outgoing c @ pack_bytes p"
    using polled_out.writeall_good[OF assms(3,4)] by blast
  show ?thesis
  proof (cases "malloc_ok (pack_maxlen p)")
    case True
    then have "ul_pack_write_mo_ms malloc_ok (Some p) c = Some (0, c2)"
      using c2(1) pack_image_sendable[OF assms(1,2)] by (simp add: ul_pack_write_mo_ms_def)
    then show ?thesis using c1 c2 c3 by auto
  next
    case False
    then have "ul_pack_write_mo_ms malloc_ok (Some p) c = Some (0, c1)"
      using c1(1) by (simp add: ul_pack_write_mo_ms_def)
    then show ?thesis using c1 c3 by auto
  qed
qed

theorem writers_agree_witness:
  "\<exists>c1 c2 c3. ul_pack_writeo_ms (Some sample_pack) choppy = Some (0, c1)
    \<and> ul_pack_write_mo_ms (\<lambda>_. True) (Some sample_pack) choppy = Some (0, c2)
    \<and> ul_pack_write (Some sample_pack) choppy = Some (0, c3)
    \<and> outgoing c1 = outgoing choppy @ pack_bytes sample_pack \<and> outgoing c2 = outgoing c1 \<and> outgoing c3 = outgoing c1"
proof -
  have "wsteady_polled 60 choppy" by code_simp
  moreover have "bufsize sample_pack < 2 ^ 31 - int (SIZE_NUM + MAX_HEAD_SIZE + 20)"
    using sample_pack_facts by (simp add: SIZE_NUM_def MAX_HEAD_SIZE_def)
  ultimately show ?thesis
    using writers_agree[OF sample_pack_sendable, of 60 choppy "\<lambda>_. True"] sample_pack_facts by simp
qed



text \<open>On a connection that does not fail, \<open>ul_pack_readendo_ms\<close> finds the first end mark in the stream, with one
  pass and no backing up: it returns 0 right behind the first occurrence of \<open>BUF_EOF\<close>, and -1 when there is none.\<close>

theorem readendo_ms_first:
  assumes "steady_polled m c" and "length (incoming c) \<le> m" and "ul_pack_readendo_ms c = (r, c')"
  shows "case strstr (incoming c) BUF_EOF of
      None \<Rightarrow> r = -1
    | Some i \<Rightarrow> r = 0 \<and> incoming c' = drop (i + length BUF_EOF) (incoming c)"
  using readendo_loop_steady[OF assms(1,2), of "[]" r c'] assms(3) scan_end_strstr[of "[]" "incoming c"]
  by (auto simp: ul_pack_readendo_ms_def tilde_run_def split: option.splits)

theorem readendo_ms_first_witness:
  "\<exists>c'. ul_pack_readendo_ms (choppy\<lparr>incoming := ''x~EO~EOF!yz''\<rparr>) = (0, c') \<and> incoming c' = ''yz''"
proof -
  let ?c = "choppy\<lparr>incoming := ''x~EO~EOF!yz''\<rparr>"
  obtain r c' where r: "ul_pack_readendo_ms ?c = (r, c')" by (cases "ul_pack_readendo_ms ?c")
  have "steady_polled 60 ?c" "strstr (incoming ?c) BUF_EOF = Some 4" "drop (4 + length BUF_EOF) (incoming ?c) = ''yz''"
    by code_simp+
  moreover have "length (incoming ?c) \<le> 60" by simp
  ultimately show ?thesis using readendo_ms_first[of 60 ?c r c'] r by simp
qed

end
