(* ===== verification/Ul_Lines.thy ===== *)
theory Ul_Lines
  imports Ul_Pack_Io
begin

text \<open>
  The readers of \<^verbatim>\<open>ullib/src/ul_net1.cpp\<close> over a connection: \<open>ul_sreado_ms_ex\<close>, which reads a number of bytes, and
  the two readers of a line, \<open>ul_readlineo_ms\<close>, which asks the system for one byte after the other, and
  \<open>ul_readline_speedo_ms_ex\<close>, which keeps what it has read ahead in an \<open>Rline\<close>.

  The connection is the script of \<^verbatim>\<open>Ul_Pack_Io\<close>. The time that is left when a call is interrupted is not modelled: a
  call that runs out of time is a poll event.
\<close>

section \<open>Reading a number of bytes\<close>

definition ul_reado_tv :: "nat \<Rightarrow> conn \<Rightarrow> int \<times> char list \<times> conn" where
  \<comment> \<open>a time-out has set \<open>errno\<close> to \<open>ETIMEDOUT\<close>\<close>
  "ul_reado_tv nbytes c =
     (case rpolls c of
        [] \<Rightarrow> (-2, [], c\<lparr>eintr := False\<rparr>)
      | PollTimeout # ps \<Rightarrow> (-2, [], c\<lparr>rpolls := ps, eintr := False\<rparr>)
      | PollFail e # ps \<Rightarrow> (-3, [], c\<lparr>rpolls := ps, eintr := e\<rparr>)
      | PollOk # ps \<Rightarrow> sys_read nbytes (c\<lparr>rpolls := ps\<rparr>))"

lemma ul_reado_tv_rpolls:
  "ul_reado_tv n c = (r, bs, c') \<Longrightarrow> r \<noteq> -2 \<or> eintr c' \<Longrightarrow> length (rpolls c') < length (rpolls c)"
  by (auto simp: ul_reado_tv_def dest: sys_read_rpolls split: list.splits poll_ev.splits)

function sreado_loop :: "nat \<Rightarrow> char list \<Rightarrow> conn \<Rightarrow> int \<times> char list \<times> conn" where
  \<comment> \<open>\<open>while (nleft > 0)\<close>; a time-out sets \<open>errno\<close> to \<open>ETIMEDOUT\<close>, a failed poll to \<open>EIO\<close>\<close>
  "sreado_loop nleft got c =
     (if nleft = 0 then (int (length got), got, c)
      else case ul_reado_tv nleft c of (nread, bs, c') \<Rightarrow>
        if nread < 0 then
          (if nread = -1 \<and> eintr c' then sreado_loop nleft got c'
           else if nread = -2 then (-1, got, c'\<lparr>eintr := False\<rparr>)
           else if nread = -3 then (-1, got, c'\<lparr>eintr := False\<rparr>)
           else (-1, got, c'))
        else if nread = 0 then (int (length got), got, c')
        else sreado_loop (nleft - length bs) (got @ bs) c')"
  by pat_completeness auto
termination
  by (relation "measure (\<lambda>(n, got, c). length (rpolls c))") (auto dest!: sym[THEN ul_reado_tv_rpolls])

declare sreado_loop.simps [simp del]

definition ul_sreado_ms_ex :: "nat \<Rightarrow> conn \<Rightarrow> int \<times> char list \<times> conn" where
  "ul_sreado_ms_ex nbytes c = sreado_loop nbytes [] c"

lemma sreado_loop_result:
  "sreado_loop n got c = (r, bs, c') \<Longrightarrow> (r = -1 \<and> \<not> eintr c' \<or> r = int (length bs) \<and> 0 \<le> r)"
proof (induction n got c arbitrary: r bs c' rule: sreado_loop.induct)
  case (1 n got c)
  obtain k cs d where k: "ul_reado_tv n c = (k, cs, d)" by (metis prod_cases3)
  have s: "k < 0 \<Longrightarrow> k \<in> {-1, -2, -3}"
    using k by (auto simp: ul_reado_tv_def sys_read_def Let_def split: list.splits poll_ev.splits read_ev.splits)
  consider "n = 0 \<or> k = 0" | "k < 0" "\<not> (k = -1 \<and> eintr d)" | "n \<noteq> 0" "k = -1" "eintr d" | "n \<noteq> 0" "0 < k" by linarith
  then show ?case
  proof cases
    case 3
    then have "sreado_loop n got d = (r, bs, c')" using 1(3) k by (subst (asm) sreado_loop.simps) simp
    then show ?thesis using 1(1)[OF _ k[symmetric] refl] 3 by simp
  next
    case 4
    then have "sreado_loop (n - length cs) (got @ cs) d = (r, bs, c')" using 1(3) k by (subst (asm) sreado_loop.simps) simp
    then show ?thesis using 1(2)[OF _ k[symmetric] refl] 4 by simp
  qed (use 1(3) k s in \<open>subst (asm) sreado_loop.simps, auto split: if_splits\<close>)+
qed

lemma sreado_no_eintr: "ul_sreado_ms_ex n c = (r, bs, c') \<Longrightarrow> r < 0 \<Longrightarrow> \<not> eintr c'"
  using sreado_loop_result by (force simp: ul_sreado_ms_ex_def)

section \<open>Reading a line byte by byte\<close>

function readlineo_loop :: "int \<Rightarrow> char list \<Rightarrow> conn \<Rightarrow> int \<times> char list \<times> bool \<times> conn" where
  \<comment> \<open>\<open>for (n = 1; n < (int) maxlen; n++)\<close>: \<open>got\<close> is stored in front of \<open>ptr\<close>, so that \<open>n\<close> is one more than its length;
      the result tells whether the loop is left to \<open>*ptr = 0\<close>\<close>
  "readlineo_loop lim got c =
     (let n = int (length got) + 1 in
      if \<not> n < lim then (n, got, True, c)
      else case ul_sreado_ms_ex 1 c of (rc, bs, c') \<Rightarrow>
        if rc = 1 then
          (if hd bs = LF then (n, got @ [hd bs], True, c') else readlineo_loop lim (got @ [hd bs]) c')
        else if rc = 0 then (if n = 1 then (0, got, False, c') else (n, got, True, c'))
        else if rc = -1 \<and> eintr c' then readlineo_loop lim got c'
        else (rc, got, False, c'))"
  by pat_completeness auto
termination
  by (relation "measure (\<lambda>(lim, got, c). nat (lim - int (length got)))") (auto dest: sym[THEN sreado_no_eintr])

declare readlineo_loop.simps [simp del]

definition put_line :: "char list \<Rightarrow> int \<times> char list \<times> bool \<times> 's \<Rightarrow> (int \<times> char list \<times> 's) option" where
  \<comment> \<open>what the stores left in the caller's block; \<open>None\<close>: they ran over its end\<close>
  "put_line blk = (\<lambda>(rc, got, fin, s).
     if fin then (if length got < length blk then Some (rc, got @ NUL # drop (Suc (length got)) blk, s) else None)
     else if length got \<le> length blk then Some (rc, got @ drop (length got) blk, s) else None)"

definition ul_readlineo_ms :: "char list \<Rightarrow> nat \<Rightarrow> conn \<Rightarrow> (int \<times> char list \<times> conn) option" where
  \<comment> \<open>the result is a \<open>size_t\<close>\<close>
  "ul_readlineo_ms vptr maxlen c =
     map_option (\<lambda>(rc, blk, c'). (rc mod 2 ^ 64, blk, c')) (put_line vptr (readlineo_loop (to_int32 (int maxlen)) [] c))"

definition ul_readlineo :: "char list \<Rightarrow> nat \<Rightarrow> conn \<Rightarrow> (int \<times> char list \<times> conn) option" where
  "ul_readlineo vptr maxlen c = ul_readlineo_ms vptr maxlen c"

section \<open>Reading ahead\<close>

definition MAXLINE :: nat where "MAXLINE = 1240"

record Rline =
  rl_cnt :: int
  read_ptr :: nat
  rl_buf :: "char list"

function refill :: "Rline \<Rightarrow> conn \<Rightarrow> int \<times> Rline \<times> conn" where
  \<comment> \<open>the part of \<open>ul_myread_tv\<close> for an empty buffer; 1 when it goes on\<close>
  "refill rlin c =
     (case ul_reado_tv MAXLINE c of (nread, bs, c') \<Rightarrow>
        if nread < 0 then (if eintr c' then refill (rlin\<lparr>rl_cnt := nread\<rparr>) c' else (-1, rlin\<lparr>rl_cnt := nread\<rparr>, c'))
        else if nread = 0 then (0, rlin\<lparr>rl_cnt := 0\<rparr>, c')
        else (1, rlin\<lparr>rl_cnt := nread, rl_buf := bs @ drop (length bs) (rl_buf rlin), read_ptr := 0\<rparr>, c'))"
  by pat_completeness auto
termination
  by (relation "measure (\<lambda>(rl, c). length (rpolls c))") (auto dest!: sym[THEN ul_reado_tv_rpolls])

declare refill.simps [simp del]

definition ul_myread_tv :: "Rline \<times> conn \<Rightarrow> int \<times> char list \<times> Rline \<times> conn" where
  \<comment> \<open>\<open>read_ptr\<close> is an offset in \<open>rl_buf\<close>\<close>
  "ul_myread_tv = (\<lambda>(rlin, c).
     case (if rl_cnt rlin \<le> 0 then refill rlin c else (1, rlin, c)) of (rc, rlin', c') \<Rightarrow>
       if rc \<noteq> 1 then (rc, [], rlin', c')
       else (1, [rl_buf rlin' ! read_ptr rlin'],
             rlin'\<lparr>rl_cnt := rl_cnt rlin' - 1, read_ptr := Suc (read_ptr rlin')\<rparr>, c'))"

lemma refill_result: "refill rl c = (r, rl', c') \<Longrightarrow> r = 1 \<or> r = 0 \<or> r = -1 \<and> \<not> eintr c'"
proof (induction rl c arbitrary: r rl' c' rule: refill.induct)
  case (1 rl c)
  obtain k bs d where k: "ul_reado_tv MAXLINE c = (k, bs, d)" by (metis prod_cases3)
  show ?case
  proof (cases "k < 0 \<and> eintr d")
    case True
    then have "refill (rl\<lparr>rl_cnt := k\<rparr>) d = (r, rl', c')" using 1(2) k by (subst (asm) refill.simps) simp
    then show ?thesis using 1(1)[OF k[symmetric] refl] True by simp
  next
    case False
    then show ?thesis using 1(2) k by (subst (asm) refill.simps) (auto split: if_splits)
  qed
qed

lemma myread_no_eintr: "ul_myread_tv s = (rc, bs, rl', c') \<Longrightarrow> rc \<noteq> 1 \<Longrightarrow> rc \<noteq> 0 \<Longrightarrow> \<not> eintr c'"
  by (auto simp: ul_myread_tv_def dest: refill_result split: prod.splits if_splits)

function speedo_loop :: "int \<Rightarrow> char list \<Rightarrow> Rline \<times> conn \<Rightarrow> int \<times> char list \<times> bool \<times> Rline \<times> conn" where
  "speedo_loop lim got s =
     (let n = int (length got) + 1 in
      if \<not> n < lim then (n, got, True, s)
      else case ul_myread_tv s of (rc, bs, s') \<Rightarrow>
        if rc = 1 then
          (if hd bs = LF then (n, got @ [hd bs], True, s') else speedo_loop lim (got @ [hd bs]) s')
        else if rc = 0 then (if n = 1 then (0, got, False, s') else (n, got, True, s'))
        else if eintr (snd s') then speedo_loop lim got s'
        else (-1, got, False, s'))"
  by pat_completeness auto
termination
  by (relation "measure (\<lambda>(lim, got, c). nat (lim - int (length got)))") (auto dest!: sym[THEN myread_no_eintr])

declare speedo_loop.simps [simp del]

definition ul_readline_speedo_ms_ex ::
  "char list \<Rightarrow> nat \<Rightarrow> Rline \<times> conn \<Rightarrow> (int \<times> char list \<times> Rline \<times> conn) option" where
  "ul_readline_speedo_ms_ex vptr maxlen s = put_line vptr (speedo_loop (to_int32 (int maxlen)) [] s)"

section \<open>What the readers see of a calm connection\<close>

definition calm :: "nat \<Rightarrow> conn \<Rightarrow> bool" where
  \<comment> \<open>every poll succeeds, no read fails but by an interrupt, and at least \<open>m\<close> reads deliver\<close>
  "calm m c \<longleftrightarrow> steady m c \<and> list_all (\<lambda>e. e = PollOk) (rpolls c) \<and> length (reads c) \<le> length (rpolls c)"

lemma calm_Suc: "calm (Suc m) c \<Longrightarrow> calm m c"
  by (simp add: calm_def steady_def)

lemma calm_reado:
  assumes "calm (Suc m) c"
  obtains (interrupted) c' where "ul_reado_tv n c = (-1, [], c')" "eintr c'" "calm (Suc m) c'" "incoming c' = incoming c"
      "length (rpolls c') < length (rpolls c)"
    | (delivered) k c' bs where "bs = take (min (Suc k) n) (incoming c)" "ul_reado_tv n c = (int (length bs), bs, c')"
      "calm m c'" "incoming c' = drop (length bs) (incoming c)"
proof -
  obtain e es where e: "reads c = e # es" using assms by (cases "reads c") (auto simp: calm_def steady_def)
  obtain ps where ps: "rpolls c = PollOk # ps"
    using assms e by (cases "rpolls c") (auto simp: calm_def)
  show thesis
  proof (cases e)
    case (ReadGives k)
    define bs where "bs = take (min (Suc k) n) (incoming c)"
    define c' where "c' = c\<lparr>rpolls := ps, reads := es, incoming := drop (length bs) (incoming c)\<rparr>"
    have "ul_reado_tv n c = (int (length bs), bs, c')"
      by (simp add: e ps ReadGives ul_reado_tv_def sys_read_def bs_def c'_def Let_def)
    moreover have "calm m c'" using assms by (simp add: e ps ReadGives calm_def steady_def is_gives_def c'_def)
    ultimately show thesis using delivered[OF bs_def] by (simp add: c'_def)
  next
    case (ReadFail b)
    then have b: "e = ReadFail True" using assms e by (cases b) (simp_all add: calm_def steady_def)
    define c' where "c' = c\<lparr>rpolls := ps, reads := es, eintr := True\<rparr>"
    have "ul_reado_tv n c = (-1, [], c')" by (simp add: e ps b ul_reado_tv_def sys_read_def c'_def)
    moreover have "calm (Suc m) c'" using assms by (simp add: e ps b calm_def steady_def is_gives_def c'_def)
    ultimately show thesis using interrupted by (simp add: c'_def ps)
  qed
qed

lemma sreado_calm:
  assumes "calm (Suc m) c"
  shows "\<exists>c'. ul_sreado_ms_ex 1 c = (int (length (take 1 (incoming c))), take 1 (incoming c), c')
    \<and> incoming c' = drop 1 (incoming c) \<and> calm m c'"
  using assms
proof (induction "length (rpolls c)" arbitrary: c rule: less_induct)
  case less
  from less.prems show ?case
  proof (cases rule: calm_reado[where n = 1])
    case (interrupted c')
    then show ?thesis using less.hyps[of c'] unfolding ul_sreado_ms_ex_def by (subst sreado_loop.simps) simp
  next
    case (delivered k c' bs)
    then show ?thesis unfolding ul_sreado_ms_ex_def
      by (cases "incoming c"; subst sreado_loop.simps) (simp_all add: sreado_loop.simps)
  qed
qed

definition filled :: "Rline \<Rightarrow> char list \<Rightarrow> Rline" where
  \<comment> \<open>the buffer after a read that delivered \<open>bs\<close>\<close>
  "filled rl bs = rl\<lparr>rl_cnt := int (length bs), rl_buf := bs @ drop (length bs) (rl_buf rl), read_ptr := 0\<rparr>"

lemma filled_cnt [simp]: "filled (rl\<lparr>rl_cnt := k\<rparr>) bs = filled rl bs"
  by (simp add: filled_def)

lemma refill_calm:
  assumes "calm (Suc m) c"
  shows "\<exists>k c' bs. bs = take (min (Suc k) MAXLINE) (incoming c)
    \<and> refill rl c = (if bs = [] then (0, rl\<lparr>rl_cnt := 0\<rparr>, c')
        else (1, filled rl bs, c'))
    \<and> incoming c' = drop (length bs) (incoming c) \<and> calm m c'"
  using assms
proof (induction "length (rpolls c)" arbitrary: c rl rule: less_induct)
  case less
  from less.prems show ?case
  proof (cases rule: calm_reado[where n = MAXLINE])
    case (interrupted c')
    then have "refill rl c = refill (rl\<lparr>rl_cnt := -1\<rparr>) c'" by (subst refill.simps) simp
    moreover have "rl\<lparr>rl_cnt := -1\<rparr>\<lparr>rl_cnt := 0\<rparr> = rl\<lparr>rl_cnt := 0\<rparr>" by simp
    ultimately show ?thesis using less.hyps[OF interrupted(5,3), of "rl\<lparr>rl_cnt := -1\<rparr>"]
      by (simp only: filled_cnt interrupted(4))
  next
    case (delivered k c' bs)
    have "refill rl c = (if bs = [] then (0, rl\<lparr>rl_cnt := 0\<rparr>, c') else (1, filled rl bs, c'))"
      using delivered(2) by (subst refill.simps) (simp add: filled_def)
    then show ?thesis using delivered(1,3,4) by blast
  qed
qed

definition rline_ok :: "Rline \<Rightarrow> bool" where
  "rline_ok rl \<longleftrightarrow> length (rl_buf rl) = MAXLINE \<and> (0 < rl_cnt rl \<longrightarrow> read_ptr rl + nat (rl_cnt rl) \<le> MAXLINE)"

definition ahead :: "Rline \<Rightarrow> char list" where
  "ahead rl = take (nat (rl_cnt rl)) (drop (read_ptr rl) (rl_buf rl))"

definition unread :: "Rline \<times> conn \<Rightarrow> char list" where
  "unread s = ahead (fst s) @ incoming (snd s)"

definition rline_ready :: "nat \<Rightarrow> Rline \<times> conn \<Rightarrow> bool" where
  "rline_ready m s \<longleftrightarrow> rline_ok (fst s) \<and> calm m (snd s)"

lemma take_next:
  assumes "rline_ok rl" and "0 < rl_cnt rl"
  shows "ahead rl = rl_buf rl ! read_ptr rl # ahead (rl\<lparr>rl_cnt := rl_cnt rl - 1, read_ptr := Suc (read_ptr rl)\<rparr>)"
    and "rline_ok (rl\<lparr>rl_cnt := rl_cnt rl - 1, read_ptr := Suc (read_ptr rl)\<rparr>)"
proof -
  obtain k where k: "nat (rl_cnt rl) = Suc k" "nat (rl_cnt rl - 1) = k" using assms(2) by (cases "nat (rl_cnt rl)") auto
  have "read_ptr rl < length (rl_buf rl)" using assms k by (simp add: rline_ok_def)
  then have "drop (read_ptr rl) (rl_buf rl) = rl_buf rl ! read_ptr rl # drop (Suc (read_ptr rl)) (rl_buf rl)"
    by (rule Cons_nth_drop_Suc[symmetric])
  then show "ahead rl = rl_buf rl ! read_ptr rl # ahead (rl\<lparr>rl_cnt := rl_cnt rl - 1, read_ptr := Suc (read_ptr rl)\<rparr>)"
    using k by (simp add: ahead_def)
  show "rline_ok (rl\<lparr>rl_cnt := rl_cnt rl - 1, read_ptr := Suc (read_ptr rl)\<rparr>)" using assms k by (simp add: rline_ok_def)
qed

lemma filled_ok:
  assumes "bs = take (min (Suc k) MAXLINE) s" and "length (rl_buf rl) = MAXLINE"
  shows "rline_ok (filled rl bs)"
    and "ahead (filled rl bs) = bs"
proof -
  have "length bs \<le> MAXLINE" using assms(1) by simp
  then show "rline_ok (filled rl bs)" "ahead (filled rl bs) = bs"
    using assms(2) by (simp_all add: rline_ok_def ahead_def filled_def)
qed

lemma myread_calm:
  assumes "rline_ready (Suc m) s"
  shows "\<exists>s'. ul_myread_tv s = (int (length (take 1 (unread s))), take 1 (unread s), s')
    \<and> unread s' = drop 1 (unread s) \<and> rline_ready m s'"
proof -
  obtain rl c where s: "s = (rl, c)" by (cases s)
  have ok: "rline_ok rl" "calm (Suc m) c" using assms by (simp_all add: s rline_ready_def)
  show ?thesis
  proof (cases "0 < rl_cnt rl")
    case True
    then show ?thesis using take_next[OF ok(1)] calm_Suc[OF ok(2)]
      by (simp add: s ul_myread_tv_def unread_def rline_ready_def)
  next
    case False
    then have a: "unread s = incoming c" by (simp add: s unread_def ahead_def)
    obtain k c' bs where bs: "bs = take (min (Suc k) MAXLINE) (incoming c)"
      and r: "refill rl c = (if bs = [] then (0, rl\<lparr>rl_cnt := 0\<rparr>, c')
        else (1, filled rl bs, c'))"
      and c': "incoming c' = drop (length bs) (incoming c)" "calm m c'"
      using refill_calm[OF ok(2), of rl] by blast
    have split: "incoming c = bs @ incoming c'" using c'(1) by (subst bs) (simp add: bs take_drop_min)
    show ?thesis
    proof (cases bs)
      case Nil
      then have "incoming c = []" using bs by (simp add: MAXLINE_def)
      then show ?thesis using False r Nil c' ok(1) a
        by (simp add: s ul_myread_tv_def unread_def ahead_def rline_ready_def rline_ok_def)
    next
      case (Cons x xs)
      let ?rl = "filled rl bs"
      have f: "rline_ok ?rl" "ahead ?rl = bs" using filled_ok[OF bs, of rl] ok(1) by (simp_all add: rline_ok_def[of rl])
      have "0 < rl_cnt ?rl" using Cons by (simp add: filled_def)
      note n = take_next[OF f(1) this]
      show ?thesis using False r Cons c'(2) n f(2) a split
        by (simp add: s ul_myread_tv_def unread_def rline_ready_def)
    qed
  qed
qed

section \<open>Lines from any source of bytes\<close>

fun cut_line :: "nat \<Rightarrow> char list \<Rightarrow> char list \<times> char list" where
  \<comment> \<open>up to the first line feed, at most \<open>k\<close> bytes; and what is left\<close>
  "cut_line 0 s = ([], s)"
| "cut_line (Suc k) [] = ([], [])"
| "cut_line (Suc k) (x # s) = (if x = LF then ([x], s) else (case cut_line k s of (l, r) \<Rightarrow> (x # l, r)))"

definition line_ret :: "nat \<Rightarrow> char list \<Rightarrow> int" where
  \<comment> \<open>the result of a reader of at most \<open>k\<close> bytes that stored \<open>l\<close>\<close>
  "line_ret k l = (if l = [] \<and> k \<noteq> 0 then 0 else if l \<noteq> [] \<and> last l = LF then int (length l) else int (length l) + 1)"

definition line_block :: "nat \<Rightarrow> char list \<Rightarrow> char list \<Rightarrow> char list" where
  "line_block k blk l = (if l = [] \<and> k \<noteq> 0 then blk else l @ NUL # drop (Suc (length l)) blk)"

lemma cut_line_facts:
  "cut_line k s = (l, r) \<Longrightarrow> s = l @ r \<and> length l \<le> k"
  by (induction k s arbitrary: l r rule: cut_line.induct) (fastforce split: if_splits prod.splits)+

fun read_lines ::
  "(char list \<Rightarrow> 's \<Rightarrow> (int \<times> char list \<times> 's) option) \<Rightarrow> nat \<Rightarrow> char list \<Rightarrow> 's \<Rightarrow> (int \<times> char list) list option" where
  \<comment> \<open>\<open>n\<close> calls of a reader, with what each returned and left in the block\<close>
  "read_lines rd 0 blk s = Some []"
| "read_lines rd (Suc n) blk s =
     (case rd blk s of
        None \<Rightarrow> None
      | Some (rc, blk', s') \<Rightarrow> map_option ((#) (rc, blk')) (read_lines rd n blk' s'))"

fun lines_of :: "nat \<Rightarrow> nat \<Rightarrow> char list \<Rightarrow> char list \<Rightarrow> (int \<times> char list) list" where
  "lines_of k 0 blk s = []"
| "lines_of k (Suc n) blk s =
     (case cut_line k s of (l, r) \<Rightarrow> (line_ret k l, line_block k blk l) # lines_of k n (line_block k blk l) r)"

lemma length_line_block: "length l < length blk \<Longrightarrow> length (line_block k blk l) = length blk"
  by (auto simp: line_block_def)

lemma line_ret_bounds: "length l \<le> k \<Longrightarrow> 0 \<le> line_ret k l \<and> line_ret k l \<le> int k + 1"
  by (auto simp: line_ret_def)

locale line_source =
  fixes getc :: "'s \<Rightarrow> int \<times> char list \<times> 's"
    and pending :: "'s \<Rightarrow> char list"
    and ready :: "nat \<Rightarrow> 's \<Rightarrow> bool"
    and lineloop :: "int \<Rightarrow> char list \<Rightarrow> 's \<Rightarrow> int \<times> char list \<times> bool \<times> 's"
  assumes getc: "ready (Suc m) s \<Longrightarrow>
      \<exists>s'. getc s = (int (length (take 1 (pending s))), take 1 (pending s), s') \<and> pending s' = drop 1 (pending s) \<and> ready m s'"
    and ready_Suc: "ready (Suc m) s \<Longrightarrow> ready m s"
    and full: "\<not> int (length got) + 1 < lim \<Longrightarrow> lineloop lim got s = (int (length got) + 1, got, True, s)"
    and char: "int (length got) + 1 < lim \<Longrightarrow> getc s = (1, [x], s') \<Longrightarrow>
      lineloop lim got s = (if x = LF then (int (length got) + 1, got @ [x], True, s') else lineloop lim (got @ [x]) s')"
    and eof: "int (length got) + 1 < lim \<Longrightarrow> getc s = (0, [], s') \<Longrightarrow>
      lineloop lim got s = (if got = [] then (0, got, False, s') else (int (length got) + 1, got, True, s'))"
begin

lemma lineloop_cut:
  assumes "cut_line k (pending s) = (l, r)" and "int (length got) + 1 + int k = lim" and "ready (m + Suc (length l)) s"
    and "got = [] \<or> last got \<noteq> LF"
  shows "\<exists>s'. lineloop lim got s = (line_ret (length got + k) (got @ l), got @ l, got @ l \<noteq> [] \<or> k = 0, s')
    \<and> pending s' = r \<and> ready m s'"
  using assms
proof (induction k "pending s" arbitrary: s l r got rule: cut_line.induct)
  case 1
  then show ?case using full[of got lim s] ready_Suc[of m s] by (auto simp: line_ret_def)
next
  case (2 k)
  then have "ready (Suc m) s" by simp
  from getc[OF this] obtain s' where "getc s = (0, [], s')" "pending s' = []" "ready m s'" using 2(1) by auto
  then show ?case using 2 eof[of got lim s s'] by (auto simp: line_ret_def)
next
  case (3 k x t)
  have lim: "int (length got) + 1 < lim" using 3(4) by simp
  have p: "pending s = x # t" using 3(2) by simp
  show ?case
  proof (cases "x = LF")
    case True
    then have l: "l = [x]" "r = t" using 3(3) by (simp_all add: p)
    then have "ready (Suc (Suc m)) s" using 3(5) by simp
    from getc[OF this] obtain s' where s': "getc s = (1, [x], s')" "pending s' = t" "ready (Suc m) s'" by (auto simp: p)
    then show ?thesis using char[OF lim s'(1)] True l ready_Suc[OF s'(3)] by (auto simp: line_ret_def)
  next
    case False
    then obtain l' where l: "l = x # l'" "cut_line k t = (l', r)" using 3(3) by (auto simp: p split: prod.splits)
    then have "ready (Suc (m + Suc (length l'))) s" using 3(5) by simp
    from getc[OF this] obtain s' where s': "getc s = (1, [x], s')" "t = pending s'" "ready (m + Suc (length l')) s'"
      by (auto simp: p)
    have "\<exists>s''. lineloop lim (got @ [x]) s' = (line_ret (length (got @ [x]) + k) ((got @ [x]) @ l'), (got @ [x]) @ l',
        (got @ [x]) @ l' \<noteq> [] \<or> k = 0, s'') \<and> pending s'' = r \<and> ready m s''"
      using 3(1)[OF False s'(2), of l' r "got @ [x]"] l s' 3(4) False by simp
    then show ?thesis using char[OF lim s'(1)] False l by simp
  qed
qed

lemma put_line_cut:
  assumes "cut_line k (pending s) = (l, r)" and "ready (m + Suc (length l)) s" and "k < length blk"
  shows "\<exists>s'. put_line blk (lineloop (int k + 1) [] s) = Some (line_ret k l, line_block k blk l, s') \<and> pending s' = r \<and> ready m s'"
proof -
  obtain s' where "lineloop (int k + 1) [] s = (line_ret k l, l, l \<noteq> [] \<or> k = 0, s')" "pending s' = r" "ready m s'"
    using lineloop_cut[OF assms(1), of "[]" "int k + 1" m] assms(2) by auto
  moreover have "length l < length blk" using cut_line_facts[OF assms(1)] assms(3) by simp
  ultimately show ?thesis by (auto simp: put_line_def line_block_def)
qed

lemma read_lines_cut:
  assumes rd: "\<And>blk s l r m. cut_line k (pending s) = (l, r) \<Longrightarrow> ready (m + Suc (length l)) s \<Longrightarrow> k < length blk \<Longrightarrow>
      \<exists>s'. rd blk s = Some (line_ret k l, line_block k blk l, s') \<and> pending s' = r \<and> ready m s'"
    and "ready (length (pending s) + n) s" and "k < length blk"
  shows "read_lines rd n blk s = Some (lines_of k n blk (pending s))"
  using assms(2,3)
proof (induction n arbitrary: s blk)
  case 0
  then show ?case by simp
next
  case (Suc n)
  obtain l r where l: "cut_line k (pending s) = (l, r)" by (cases "cut_line k (pending s)")
  note p = cut_line_facts[OF l]
  then have "ready (length r + n + Suc (length l)) s" using Suc.prems(1) by (simp add: ac_simps)
  then obtain s' where s': "rd blk s = Some (line_ret k l, line_block k blk l, s')" "pending s' = r" "ready (length r + n) s'"
    using rd[OF l _ Suc.prems(2)] by blast
  moreover have "length (line_block k blk l) = length blk" using p Suc.prems(2) by (simp add: length_line_block)
  ultimately have "read_lines rd n (line_block k blk l) s' = Some (lines_of k n (line_block k blk l) r)"
    using Suc.IH[of s' "line_block k blk l"] Suc.prems(2) by simp
  then show ?case using s'(1) l by simp
qed

end

interpretation bytewise: line_source "ul_sreado_ms_ex 1" incoming calm readlineo_loop
proof (unfold_locales, goal_cases)
  case (1 m s)
  then show ?case by (rule sreado_calm)
qed (simp_all add: calm_Suc readlineo_loop.simps)

interpretation buffered: line_source ul_myread_tv unread rline_ready speedo_loop
proof (unfold_locales, goal_cases)
  case (1 m s)
  then show ?case by (rule myread_calm)
next
  case (2 m s)
  then show ?case by (simp add: rline_ready_def calm_Suc)
qed (subst speedo_loop.simps; simp)+

lemma readlineo_cut:
  assumes "maxlen = Suc k" and "maxlen < 2 ^ 31" and "cut_line k (incoming c) = (l, r)" and "calm (m + Suc (length l)) c" and "k < length blk"
  shows "\<exists>c'. ul_readlineo_ms blk maxlen c = Some (line_ret k l, line_block k blk l, c') \<and> incoming c' = r \<and> calm m c'"
proof -
  have "to_int32 (int maxlen) = int k + 1" using to_int32_id[of "int maxlen"] assms(1,2) by simp
  moreover have "line_ret k l mod 2 ^ 64 = line_ret k l"
    using line_ret_bounds[of l k] cut_line_facts[OF assms(3)] assms(1,2) by (intro mod_pos_pos_trivial) auto
  ultimately show ?thesis using bytewise.put_line_cut[OF assms(3,4,5)] by (auto simp: ul_readlineo_ms_def)
qed

text \<open>C19: on a connection without time-outs or failures other than interrupted reads, the reader that asks for one
  byte after the other and the reader that reads ahead, however the system cuts the stream, return the same
  values and leave the same bytes in the caller's block, call after call: the text up to the next line feed or as
  much of it as fits, with a terminator behind it, and 0 with the block untouched at the end of the stream. The
  returned value is the length of the line when it ends in a line feed and one more otherwise. Neither writes
  past the block.\<close>

theorem line_readers_agree:
  assumes "0 < maxlen" and "maxlen < 2 ^ 31" and "maxlen \<le> length blk"
    and "calm (length (incoming c) + n) c" and "calm (length (incoming c) + n) d" and "incoming d = incoming c"
    and "length (rl_buf rl) = MAXLINE" and "rl_cnt rl \<le> 0"
  shows "read_lines (\<lambda>b. ul_readlineo_ms b maxlen) n blk c = Some (lines_of (maxlen - 1) n blk (incoming c))
    \<and> read_lines (\<lambda>b. ul_readline_speedo_ms_ex b maxlen) n blk (rl, d) = Some (lines_of (maxlen - 1) n blk (incoming c))"
proof
  obtain k where k: "maxlen = Suc k" using assms(1) by (cases maxlen) auto
  then have b: "k < length blk" using assms(3) by simp
  show "read_lines (\<lambda>b. ul_readlineo_ms b maxlen) n blk c = Some (lines_of (maxlen - 1) n blk (incoming c))"
    using bytewise.read_lines_cut[OF readlineo_cut[OF k assms(2)] assms(4) b] by (simp add: k)
  have lim: "to_int32 (int maxlen) = int k + 1" using to_int32_id[of "int maxlen"] assms(2) k by simp
  have u: "unread (rl, d) = incoming c" "rline_ready (length (unread (rl, d)) + n) (rl, d)"
    using assms(5-8) by (simp_all add: unread_def ahead_def rline_ready_def rline_ok_def)
  have "read_lines (\<lambda>b s. put_line b (speedo_loop (int k + 1) [] s)) n blk (rl, d) = Some (lines_of k n blk (unread (rl, d)))"
    by (rule buffered.read_lines_cut[OF buffered.put_line_cut u(2) b])
  then show "read_lines (\<lambda>b. ul_readline_speedo_ms_ex b maxlen) n blk (rl, d) = Some (lines_of (maxlen - 1) n blk (incoming c))"
    unfolding ul_readline_speedo_ms_ex_def lim u(1) by (simp add: k)
qed

definition two_lines :: "nat \<Rightarrow> conn" where
  \<comment> \<open>a stream of two lines, the second without a line feed, from which a read gets \<open>k + 1\<close> bytes at most\<close>
  "two_lines k = \<lparr>incoming = [CHR ''a'', LF, CHR ''b''], rpolls = replicate 7 PollOk,
     reads = ReadFail True # replicate 6 (ReadGives k), outgoing = [], wpolls = [], writes = [], eintr = False, fcntl_ok = True\<rparr>"

theorem line_readers_agree_witness:
  "\<exists>out. out = [(2, [CHR ''a'', LF, NUL, CHR ''x'']), (2, [CHR ''b'', NUL, NUL, CHR ''x'']), (0, [CHR ''b'', NUL, NUL, CHR ''x''])]
    \<and> read_lines (\<lambda>b. ul_readlineo_ms b 4) 3 (replicate 4 CHR ''x'') (two_lines 0) = Some out
    \<and> read_lines (\<lambda>b. ul_readline_speedo_ms_ex b 4) 3 (replicate 4 CHR ''x'')
        (\<lparr>rl_cnt = 0, read_ptr = 0, rl_buf = replicate MAXLINE NUL\<rparr>, two_lines 5) = Some out"
proof -
  let ?blk = "replicate 4 CHR ''x''" and ?rl = "\<lparr>rl_cnt = 0, read_ptr = 0, rl_buf = replicate MAXLINE NUL\<rparr>"
  have c: "calm (length (incoming (two_lines 0)) + 3) (two_lines k)" "incoming (two_lines k) = incoming (two_lines 0)" for k
    by (simp_all add: calm_def steady_def is_gives_def two_lines_def numeral_eq_Suc)
  have l: "lines_of (4 - 1) 3 ?blk (incoming (two_lines 0))
    = [(2, [CHR ''a'', LF, NUL, CHR ''x'']), (2, [CHR ''b'', NUL, NUL, CHR ''x'']), (0, [CHR ''b'', NUL, NUL, CHR ''x''])]"
    by (simp add: numeral_eq_Suc two_lines_def line_ret_def line_block_def)
  show ?thesis
    using line_readers_agree[of 4 ?blk "two_lines 0" 3 "two_lines 5" ?rl] c unfolding l by simp
qed

end
