(* ===== verification/Ul_Net_Old.thy ===== *)
theory Ul_Net_Old
  imports Ul_Lines
begin

text \<open>
  The older readers and writers of a connection in \<^verbatim>\<open>ullib/src/dep/dep_net.cpp\<close>, most of them with a time limit in
  seconds, over the connection of \<^verbatim>\<open>Ul_Pack_Io\<close>. \<open>ul_reado_ms\<close> of \<^verbatim>\<open>ul_net1.cpp\<close>, which they call, does what
  \<open>ul_reado_tv\<close> does when no time is left over (\<open>reado_same\<close>), so that the loops of \<^verbatim>\<open>Ul_Lines\<close> serve for both.
\<close>

section \<open>Waiting\<close>

definition ul_sreadable_ms :: "conn \<Rightarrow> int \<times> conn" where
  \<comment> \<open>\<open>ul_poll\<close> on one descriptor; a time-out sets \<open>errno\<close> to \<open>ETIMEDOUT\<close>\<close>
  "ul_sreadable_ms c =
     (case rpolls c of
        [] \<Rightarrow> (0, c\<lparr>eintr := False\<rparr>)
      | PollTimeout # ps \<Rightarrow> (0, c\<lparr>rpolls := ps, eintr := False\<rparr>)
      | PollFail e # ps \<Rightarrow> (-1, c\<lparr>rpolls := ps, eintr := e\<rparr>)
      | PollOk # ps \<Rightarrow> (1, c\<lparr>rpolls := ps\<rparr>))"

definition ul_swriteable_ms :: "conn \<Rightarrow> int \<times> conn" where
  "ul_swriteable_ms c =
     (case wpolls c of
        [] \<Rightarrow> (0, c\<lparr>eintr := False\<rparr>)
      | PollTimeout # ps \<Rightarrow> (0, c\<lparr>wpolls := ps, eintr := False\<rparr>)
      | PollFail e # ps \<Rightarrow> (-1, c\<lparr>wpolls := ps, eintr := e\<rparr>)
      | PollOk # ps \<Rightarrow> (1, c\<lparr>wpolls := ps\<rparr>))"

definition ul_sreadable :: "conn \<Rightarrow> int \<times> conn" where
  "ul_sreadable c = ul_sreadable_ms c"

definition ul_swriteable :: "conn \<Rightarrow> int \<times> conn" where
  "ul_swriteable c = ul_swriteable_ms c"

definition ul_reado :: "nat \<Rightarrow> conn \<Rightarrow> int \<times> char list \<times> conn" where
  "ul_reado nbytes c = ul_reado_ms nbytes c"

lemma reado_ms_waits:
  "ul_reado_ms nbytes c = (case ul_sreadable_ms c of (err, c') \<Rightarrow>
     if err < 0 then (-3, [], c') else if err = 0 then (-2, [], c') else sys_read nbytes c')"
  by (simp add: ul_reado_ms_def ul_sreadable_ms_def split: list.split poll_ev.split)

lemma reado_same: "ul_reado_ms = ul_reado_tv"
  by (intro ext) (simp add: ul_reado_ms_def ul_reado_tv_def)

section \<open>Reading and writing a number of bytes\<close>

definition ul_sread :: "int \<Rightarrow> conn \<Rightarrow> int \<times> char list \<times> conn" where
  \<comment> \<open>\<open>nbytes\<close> as the \<open>ssize_t\<close> it is copied to; the loop is that of \<open>ul_pack_readall\<close>\<close>
  "ul_sread nbytes c = (if nbytes \<le> 0 then (0, [], c) else readall_loop (nat nbytes) [] c)"

definition ul_sreado_ms :: "int \<Rightarrow> conn \<Rightarrow> int \<times> char list \<times> conn" where
  \<comment> \<open>the loop is that of \<open>ul_sreado_ms_ex\<close>\<close>
  "ul_sreado_ms nbytes c = (if nbytes \<le> 0 then (0, [], c) else sreado_loop (nat nbytes) [] c)"

definition ul_sreado :: "int \<Rightarrow> conn \<Rightarrow> int \<times> char list \<times> conn" where
  "ul_sreado nbytes c = ul_sreado_ms nbytes c"

definition ul_sreado_ex :: "nat \<Rightarrow> conn \<Rightarrow> int \<times> char list \<times> conn" where
  "ul_sreado_ex nbytes c = ul_sreado_ms_ex nbytes c"

function swrite_loop :: "int \<Rightarrow> char list \<Rightarrow> conn \<Rightarrow> int \<times> conn" where
  \<comment> \<open>\<open>while (nleft > 0)\<close>; \<open>bs\<close> is what is left at \<open>ptr\<close>. A \<open>write\<close> of nothing leaves \<open>errno\<close> as it was\<close>
  "swrite_loop nbytes bs c =
     (if bs = [] then (nbytes, c)
      else case sys_write bs c of (n, c') \<Rightarrow>
        if n \<le> 0 then (if eintr c' then swrite_loop nbytes bs c' else (n, c'))
        else swrite_loop nbytes (drop (nat n) bs) c')"
  by pat_completeness auto
termination
  by (relation "measure (\<lambda>(n, bs, c). length (writes c))") (auto dest!: sym[THEN sys_write_writes])

declare swrite_loop.simps [simp del]

definition ul_swrite :: "char list \<Rightarrow> conn \<Rightarrow> int \<times> conn" where
  \<comment> \<open>\<open>nleft\<close> is an \<open>int\<close>, the result \<open>nbytes - nleft\<close>\<close>
  "ul_swrite bs c =
     (let nbytes = int (length bs); nleft = to_int32 nbytes in
      if nleft \<le> 0 then (nbytes - nleft, c) else swrite_loop nbytes (take (nat nleft) bs) c)"

definition ul_swriteo_ms :: "char list \<Rightarrow> conn \<Rightarrow> int \<times> conn" where
  "ul_swriteo_ms bs c =
     (case ul_swriteable_ms c of (err, c') \<Rightarrow>
        if err < 0 then (-1, c') else if err = 0 then (0, c') else ul_swrite bs c')"

definition ul_swriteo :: "char list \<Rightarrow> conn \<Rightarrow> int \<times> conn" where
  "ul_swriteo bs c = ul_swriteo_ms bs c"

definition ul_swriteo_ex :: "char list \<Rightarrow> conn \<Rightarrow> int \<times> conn" where
  "ul_swriteo_ex bs c = ul_swriteo_ms_ex bs c"

definition ul_writeo_ms :: "char list \<Rightarrow> conn \<Rightarrow> int \<times> conn" where
  "ul_writeo_ms bs c =
     (case ul_swriteable_ms c of (err, c') \<Rightarrow>
        if err < 0 then (-1, c') else if err = 0 then (0, c') else sys_write bs c')"

definition ul_writeo :: "char list \<Rightarrow> conn \<Rightarrow> int \<times> conn" where
  "ul_writeo bs c = ul_writeo_ms bs c"

section \<open>Reading a line\<close>

function readline_loop :: "int \<Rightarrow> char list \<Rightarrow> conn \<Rightarrow> int \<times> char list \<times> bool \<times> conn" where
  \<comment> \<open>\<open>for (n = 1; n < (int) maxlen; n++)\<close>, as in \<open>readlineo_loop\<close>\<close>
  "readline_loop lim got c =
     (let n = int (length got) + 1 in
      if \<not> n < lim then (n, got, True, c)
      else case sys_read 1 c of (rc, bs, c') \<Rightarrow>
        if rc = 1 then
          (if hd bs = LF then (n, got @ [hd bs], True, c') else readline_loop lim (got @ [hd bs]) c')
        else if rc = 0 then (if n = 1 then (0, got, False, c') else (n, got, True, c'))
        else if eintr c' then readline_loop lim got c'
        else (-1, got, False, c'))"
  by pat_completeness auto
termination
  by (relation "measures [\<lambda>(lim, got, c). nat (lim - int (length got)), \<lambda>(lim, got, c). length (reads c)]")
    (auto dest!: sym[THEN sys_read_reads])

declare readline_loop.simps [simp del]

definition ul_readline :: "char list \<Rightarrow> nat \<Rightarrow> conn \<Rightarrow> (int \<times> char list \<times> conn) option" where
  "ul_readline vptr maxlen c = put_line vptr (readline_loop (to_int32 (int maxlen)) [] c)"

function refill_read :: "Rline \<Rightarrow> conn \<Rightarrow> int \<times> Rline \<times> conn" where
  \<comment> \<open>\<open>ul_myread\<close> with an empty buffer and \<open>sec == 0\<close>\<close>
  "refill_read rlin c =
     (case sys_read MAXLINE c of (nread, bs, c') \<Rightarrow>
        if nread < 0 then (if eintr c' then refill_read (rlin\<lparr>rl_cnt := nread\<rparr>) c' else (-1, rlin\<lparr>rl_cnt := nread\<rparr>, c'))
        else if nread = 0 then (0, rlin\<lparr>rl_cnt := 0\<rparr>, c')
        else (1, rlin\<lparr>rl_cnt := nread, rl_buf := bs @ drop (length bs) (rl_buf rlin), read_ptr := 0\<rparr>, c'))"
  by pat_completeness auto
termination
  by (relation "measure (\<lambda>(rl, c). length (reads c))") (auto dest!: sym[THEN sys_read_reads])

declare refill_read.simps [simp del]

definition ul_myread :: "int \<Rightarrow> Rline \<times> conn \<Rightarrow> int \<times> char list \<times> Rline \<times> conn" where
  \<comment> \<open>with a time limit the refill is that of \<open>ul_myread_tv\<close>\<close>
  "ul_myread sec = (\<lambda>(rlin, c).
     case (if rl_cnt rlin \<le> 0 then (if sec = 0 then refill_read rlin c else refill rlin c) else (1, rlin, c)) of (rc, rlin', c') \<Rightarrow>
       if rc \<noteq> 1 then (rc, [], rlin', c')
       else (1, [rl_buf rlin' ! read_ptr rlin'],
             rlin'\<lparr>rl_cnt := rl_cnt rlin' - 1, read_ptr := Suc (read_ptr rlin')\<rparr>, c'))"

lemma refill_read_result: "refill_read rl c = (r, rl', c') \<Longrightarrow> r = 1 \<or> r = 0 \<or> r = -1 \<and> \<not> eintr c'"
proof (induction rl c arbitrary: r rl' c' rule: refill_read.induct)
  case (1 rl c)
  obtain k bs d where k: "sys_read MAXLINE c = (k, bs, d)" by (metis prod_cases3)
  show ?case
  proof (cases "k < 0 \<and> eintr d")
    case True
    then have "refill_read (rl\<lparr>rl_cnt := k\<rparr>) d = (r, rl', c')" using 1(2) k by (subst (asm) refill_read.simps) simp
    then show ?thesis using 1(1)[OF k[symmetric] refl] True by simp
  next
    case False
    then show ?thesis using 1(2) k by (subst (asm) refill_read.simps) (auto split: if_splits)
  qed
qed

lemma old_myread_no_eintr: "ul_myread sec s = (rc, bs, rl', c') \<Longrightarrow> rc \<noteq> 1 \<Longrightarrow> rc \<noteq> 0 \<Longrightarrow> \<not> eintr c'"
  by (auto simp: ul_myread_def dest: refill_result refill_read_result split: prod.splits if_splits)

function speed_loop :: "int \<Rightarrow> int \<Rightarrow> char list \<Rightarrow> Rline \<times> conn \<Rightarrow> int \<times> char list \<times> bool \<times> Rline \<times> conn" where
  "speed_loop sec lim got s =
     (let n = int (length got) + 1 in
      if \<not> n < lim then (n, got, True, s)
      else case ul_myread sec s of (rc, bs, s') \<Rightarrow>
        if rc = 1 then
          (if hd bs = LF then (n, got @ [hd bs], True, s') else speed_loop sec lim (got @ [hd bs]) s')
        else if rc = 0 then (if n = 1 then (0, got, False, s') else (n, got, True, s'))
        else if eintr (snd s') then speed_loop sec lim got s'
        else (-1, got, False, s'))"
  by pat_completeness auto
termination
  by (relation "measure (\<lambda>(sec, lim, got, c). nat (lim - int (length got)))") (auto dest!: sym[THEN old_myread_no_eintr])

declare speed_loop.simps [simp del]

definition ul_readline_speed :: "char list \<Rightarrow> nat \<Rightarrow> Rline \<times> conn \<Rightarrow> (int \<times> char list \<times> Rline \<times> conn) option" where
  "ul_readline_speed vptr maxlen s = put_line vptr (speed_loop 0 (to_int32 (int maxlen)) [] s)"

definition ul_readline_speedo ::
  "char list \<Rightarrow> nat \<Rightarrow> int \<Rightarrow> Rline \<times> conn \<Rightarrow> (int \<times> char list \<times> Rline \<times> conn) option" where
  "ul_readline_speedo vptr maxlen secs s = put_line vptr (speed_loop (max 0 secs) (to_int32 (int maxlen)) [] s)"

section \<open>Old and new readers\<close>

lemma myread_same: "sec \<noteq> 0 \<Longrightarrow> ul_myread sec = ul_myread_tv"
  by (simp add: ul_myread_def ul_myread_tv_def fun_eq_iff)

lemma speed_loop_same: "sec \<noteq> 0 \<Longrightarrow> speed_loop sec lim got s = speedo_loop lim got s"
proof (induction lim got s rule: speedo_loop.induct)
  case (1 lim got s)
  then show ?case by (subst speed_loop.simps, subst speedo_loop.simps) (simp add: myread_same Let_def split: prod.split)
qed

theorem readline_speedo_same:
  assumes "0 < secs"
  shows "ul_readline_speedo vptr maxlen secs s = ul_readline_speedo_ms_ex vptr maxlen s"
  using assms by (simp add: ul_readline_speedo_def ul_readline_speedo_ms_ex_def speed_loop_same)

theorem sreado_same: "ul_sreado_ms (int nbytes) c = ul_sreado_ms_ex nbytes c"
  by (simp add: ul_sreado_ms_def ul_sreado_ms_ex_def sreado_loop.simps)

lemma steady_Suc: "steady (Suc m) c \<Longrightarrow> steady m c"
  by (simp add: steady_def)

lemma steady_read:
  assumes "steady (Suc m) c"
  obtains (interrupted) c' where "sys_read n c = (-1, [], c')" "eintr c'" "steady (Suc m) c'" "incoming c' = incoming c"
      "length (reads c') < length (reads c)"
    | (delivered) k c' bs where "bs = take (min (Suc k) n) (incoming c)" "sys_read n c = (int (length bs), bs, c')"
      "steady m c'" "incoming c' = drop (length bs) (incoming c)"
proof -
  obtain e es where e: "reads c = e # es" using assms by (cases "reads c") (auto simp: steady_def)
  show thesis
  proof (cases e)
    case (ReadGives k)
    define bs where "bs = take (min (Suc k) n) (incoming c)"
    define c' where "c' = c\<lparr>reads := es, incoming := drop (length bs) (incoming c)\<rparr>"
    have "sys_read n c = (int (length bs), bs, c')" by (simp add: e ReadGives sys_read_def bs_def c'_def Let_def)
    moreover have "steady m c'" using assms by (simp add: e ReadGives steady_def is_gives_def c'_def)
    ultimately show thesis using delivered[OF bs_def] by (simp add: c'_def)
  next
    case (ReadFail b)
    then have b: "e = ReadFail True" using assms e by (cases b) (simp_all add: steady_def)
    define c' where "c' = c\<lparr>reads := es, eintr := True\<rparr>"
    have "sys_read n c = (-1, [], c')" by (simp add: e b sys_read_def c'_def)
    moreover have "steady (Suc m) c'" using assms by (simp add: e b steady_def is_gives_def c'_def)
    ultimately show thesis using interrupted e by (simp add: c'_def)
  qed
qed

text \<open>\<open>ul_readline\<close> asks the system itself, so an interrupt is seen by its loop: a state is as good as the next one that
  delivers.\<close>

definition settle :: "conn \<Rightarrow> conn" where
  \<comment> \<open>the interrupted reads at the head of the script are over\<close>
  "settle c = (let es = dropWhile (\<lambda>e. e = ReadFail True) (reads c) in
     if es = reads c then c else c\<lparr>reads := es, eintr := True\<rparr>)"

definition first_read :: "conn \<Rightarrow> int \<times> char list \<times> conn" where
  "first_read c = sys_read 1 (settle c)"

lemma readline_settle:
  "int (length got) + 1 < lim \<Longrightarrow> readline_loop lim got c = readline_loop lim got (settle c)"
proof (induction "length (reads c)" arbitrary: c rule: less_induct)
  case less
  show ?case
  proof (cases "reads c")
    case (Cons e es)
    show ?thesis
    proof (cases "e = ReadFail True")
      case True
      let ?c = "c\<lparr>reads := es, eintr := True\<rparr>"
      have "readline_loop lim got c = readline_loop lim got ?c"
        using less.prems True Cons by (subst readline_loop.simps) (simp add: sys_read_def Let_def)
      moreover have "settle c = settle ?c"
        using True Cons by (auto simp: settle_def Let_def) (metis dropWhile.simps length_dropWhile_le not_less_eq_eq length_Cons)+
      ultimately show ?thesis using less.hyps[of ?c] less.prems Cons by simp
    qed (simp add: settle_def Cons)
  qed (simp add: settle_def)
qed

lemma settle_steady:
  assumes "steady (Suc m) c"
  shows "steady (Suc m) (settle c)" and "incoming (settle c) = incoming c" and "\<exists>k es. reads (settle c) = ReadGives k # es"
proof -
  let ?es = "dropWhile (\<lambda>e. e = ReadFail True) (reads c)"
  have f: "filter is_gives (dropWhile (\<lambda>e. e = ReadFail True) es) = filter is_gives es" for es
    by (induction es) (auto simp: is_gives_def)
  show s: "steady (Suc m) (settle c)"
    using assms f[of "reads c"] set_dropWhileD[of "ReadFail False" "\<lambda>e. e = ReadFail True" "reads c"]
    by (auto simp: steady_def settle_def Let_def list_all_iff)
  show "incoming (settle c) = incoming c" by (simp add: settle_def Let_def)
  have r: "reads (settle c) = ?es" by (simp add: settle_def Let_def)
  obtain e es where e: "?es = e # es" using s by (cases ?es) (auto simp: steady_def r)
  then have "e \<noteq> ReadFail True" using hd_dropWhile[of "\<lambda>e. e = ReadFail True" "reads c"] by auto
  moreover have "e \<noteq> ReadFail False" using s by (simp add: steady_def r e)
  ultimately obtain k where "e = ReadGives k" by (metis (full_types) read_ev.exhaust)
  then show "\<exists>k es. reads (settle c) = ReadGives k # es" using r e by simp
qed

lemma first_read_steady:
  assumes "steady (Suc m) c"
  shows "\<exists>c'. first_read c = (int (length (take 1 (incoming c))), take 1 (incoming c), c')
    \<and> incoming c' = drop 1 (incoming c) \<and> steady m c'"
  using settle_steady(1)[OF assms]
proof (cases rule: steady_read[where n = 1])
  case (interrupted c')
  then show ?thesis using settle_steady(3)[OF assms] by (auto simp: sys_read_def Let_def)
next
  case (delivered k c' bs)
  then show ?thesis using settle_steady(2)[OF assms] by (cases "incoming c") (simp_all add: first_read_def)
qed

lemma refill_read_steady:
  assumes "steady (Suc m) c"
  shows "\<exists>k c' bs. bs = take (min (Suc k) MAXLINE) (incoming c)
    \<and> refill_read rl c = (if bs = [] then (0, rl\<lparr>rl_cnt := 0\<rparr>, c') else (1, filled rl bs, c'))
    \<and> incoming c' = drop (length bs) (incoming c) \<and> steady m c'"
  using assms
proof (induction "length (reads c)" arbitrary: c rl rule: less_induct)
  case less
  from less.prems show ?case
  proof (cases rule: steady_read[where n = MAXLINE])
    case (interrupted c')
    then have "refill_read rl c = refill_read (rl\<lparr>rl_cnt := -1\<rparr>) c'" by (subst refill_read.simps) simp
    moreover have "rl\<lparr>rl_cnt := -1\<rparr>\<lparr>rl_cnt := 0\<rparr> = rl\<lparr>rl_cnt := 0\<rparr>" by simp
    ultimately show ?thesis using less.hyps[OF interrupted(5,3), of "rl\<lparr>rl_cnt := -1\<rparr>"]
      by (simp only: filled_cnt interrupted(4))
  next
    case (delivered k c' bs)
    have "refill_read rl c = (if bs = [] then (0, rl\<lparr>rl_cnt := 0\<rparr>, c') else (1, filled rl bs, c'))"
      using delivered(2) by (subst refill_read.simps) (simp add: filled_def)
    then show ?thesis using delivered(1,3,4) by blast
  qed
qed

definition rline_steady :: "nat \<Rightarrow> Rline \<times> conn \<Rightarrow> bool" where
  "rline_steady m s \<longleftrightarrow> rline_ok (fst s) \<and> steady m (snd s)"

lemma myread_steady:
  assumes "rline_steady (Suc m) s"
  shows "\<exists>s'. ul_myread 0 s = (int (length (take 1 (unread s))), take 1 (unread s), s')
    \<and> unread s' = drop 1 (unread s) \<and> rline_steady m s'"
proof -
  obtain rl c where s: "s = (rl, c)" by (cases s)
  have ok: "rline_ok rl" "steady (Suc m) c" using assms by (simp_all add: s rline_steady_def)
  show ?thesis
  proof (cases "0 < rl_cnt rl")
    case True
    then show ?thesis using take_next[OF ok(1)] steady_Suc[OF ok(2)]
      by (simp add: s ul_myread_def unread_def rline_steady_def)
  next
    case False
    then have a: "unread s = incoming c" by (simp add: s unread_def ahead_def)
    obtain k c' bs where bs: "bs = take (min (Suc k) MAXLINE) (incoming c)"
      and r: "refill_read rl c = (if bs = [] then (0, rl\<lparr>rl_cnt := 0\<rparr>, c') else (1, filled rl bs, c'))"
      and c': "incoming c' = drop (length bs) (incoming c)" "steady m c'"
      using refill_read_steady[OF ok(2), of rl] by blast
    have split: "incoming c = bs @ incoming c'" using c'(1) by (subst bs) (simp add: bs take_drop_min)
    show ?thesis
    proof (cases bs)
      case Nil
      then have "incoming c = []" using bs by (simp add: MAXLINE_def)
      then show ?thesis using False r Nil c' ok(1) a
        by (simp add: s ul_myread_def unread_def ahead_def rline_steady_def rline_ok_def)
    next
      case (Cons x xs)
      let ?rl = "filled rl bs"
      have f: "rline_ok ?rl" "ahead ?rl = bs" using filled_ok[OF bs, of rl] ok(1) by (simp_all add: rline_ok_def[of rl])
      have "0 < rl_cnt ?rl" using Cons by (simp add: filled_def)
      note n = take_next[OF f(1) this]
      show ?thesis using False r Cons c'(2) n f(2) a split
        by (simp add: s ul_myread_def unread_def rline_steady_def)
    qed
  qed
qed

interpretation oldline: line_source first_read incoming steady readline_loop
proof (unfold_locales, goal_cases)
  case (1 m s)
  then show ?case by (rule first_read_steady)
next
  case (2 m s)
  then show ?case by (rule steady_Suc)
next
  case (3 got lim s)
  then show ?case by (subst readline_loop.simps) simp
qed (subst readline_settle, assumption, subst readline_loop.simps, simp add: first_read_def)+

interpretation oldspeed: line_source "ul_myread 0" unread rline_steady "speed_loop 0"
proof (unfold_locales, goal_cases)
  case (1 m s)
  then show ?case by (rule myread_steady)
next
  case (2 m s)
  then show ?case by (simp add: rline_steady_def steady_Suc)
qed (subst speed_loop.simps; simp)+

lemma put_line_readers:
  assumes "maxlen = Suc k" and "maxlen < 2 ^ 31"
  shows "to_int32 (int maxlen) = int k + 1"
  using to_int32_id[of "int maxlen"] assms by simp



section \<open>Writing everything or failing\<close>

lemma sys_write_result:
  "sys_write bs c = (n, c') \<Longrightarrow> n = -1 \<and> outgoing c' = outgoing c
    \<or> 0 \<le> n \<and> n \<le> int (length bs) \<and> outgoing c' = outgoing c @ take (nat n) bs"
  by (auto simp: sys_write_def min_def split: list.splits write_ev.splits)

lemma swrite_loop_result:
  "swrite_loop nbytes bs c = (r, c') \<Longrightarrow>
    r = nbytes \<and> outgoing c' = outgoing c @ bs \<or> r \<le> 0 \<and> (\<exists>k. outgoing c' = outgoing c @ take k bs)"
proof (induction nbytes bs c arbitrary: r c' rule: swrite_loop.induct)
  case (1 nbytes bs c)
  obtain n d where w: "sys_write bs c = (n, d)" by (cases "sys_write bs c")
  note wr = sys_write_result[OF w]
  consider (finished) "bs = []" | (again) "bs \<noteq> []" "n \<le> 0" "eintr d" | (fail) "bs \<noteq> []" "n \<le> 0" "\<not> eintr d" | (partly) "bs \<noteq> []" "0 < n"
    by linarith
  then show ?case
  proof cases
    case finished
    then show ?thesis using 1(3) by (simp add: swrite_loop.simps)
  next
    case again
    then have "swrite_loop nbytes bs d = (r, c')" "outgoing d = outgoing c"
      using 1(3) w wr by (auto simp: swrite_loop.simps[of nbytes bs c])
    then show ?thesis using 1(1)[OF again(1) w[symmetric] again(2,3)] by simp
  next
    case fail
    then have "r = n" "c' = d" using 1(3) w by (simp_all add: swrite_loop.simps[of nbytes bs c])
    then show ?thesis using wr fail(2) by (auto intro: exI[of _ 0])
  next
    case partly
    then have "swrite_loop nbytes (drop (nat n) bs) d = (r, c')" using 1(3) w by (simp add: swrite_loop.simps[of nbytes bs c])
    from 1(2)[OF partly(1) w[symmetric] _ this] partly wr
    consider "r = nbytes" "outgoing c' = outgoing c @ bs" | k where "r \<le> 0" "outgoing c' = outgoing c @ take (nat n) bs @ take k (drop (nat n) bs)"
      by auto
    then show ?thesis by cases (auto simp flip: take_add)
  qed
qed

theorem swrite_all_or_error:
  assumes "length bs < 2 ^ 31" and "ul_swrite bs c = (r, c')"
  shows "r = int (length bs) \<and> outgoing c' = outgoing c @ bs \<or> r \<le> 0 \<and> (\<exists>k. outgoing c' = outgoing c @ take k bs)"
proof (cases "bs = []")
  case False
  then show ?thesis
    using assms swrite_loop_result[of "int (length bs)" bs c r c'] by (auto simp: ul_swrite_def Let_def to_int32_id)
qed (use assms in \<open>auto simp: ul_swrite_def to_int32_def\<close>)

text \<open>Of two gigabytes nothing is written, and the result is four.\<close>

theorem swrite_two_gigabytes:
  assumes "length bs = 2 ^ 31"
  shows "ul_swrite bs c = (2 ^ 32, c)"
  by (simp add: ul_swrite_def assms to_int32_def)

end
