(* ===== verification/Ul_Conf.thy ===== *)
theory Ul_Conf
  imports Ul_String
begin

text \<open>
  Configuration files, \<^verbatim>\<open>ullib/src/ul_conf.cpp\<close> up to the command line arguments, and \<open>ul_getconfstr\<close> of
  \<^verbatim>\<open>ullib/src/dep/dep_conf.cpp\<close>: the table of items, the line parser, reading with included files, writing, the typed
  accessors and the number files.

  The file system is a map from path names to the contents of the regular files that can be read there; whether
  a file can be opened for writing is a predicate on path names. The table of items is a list as long as \<open>size\<close>
  says; the items from \<open>num\<close> on keep what was left in them. A result \<open>None\<close> of a function is an access outside a block or a
  conversion that C leaves undefined. The accessors for \<open>float\<close> are not modelled. Error numbers and log messages are left out.
\<close>

section \<open>The table of items\<close>

definition PATH_SIZE :: nat where "PATH_SIZE = 256"
definition LINE_SIZE :: nat where "LINE_SIZE = 4096"
definition WORD_SIZE :: nat where "WORD_SIZE = 2048"
definition LIMIT_CONF_ITEM_NUM :: nat where "LIMIT_CONF_ITEM_NUM = 1024"

lemmas conf_consts = PATH_SIZE_def LINE_SIZE_def WORD_SIZE_def LIMIT_CONF_ITEM_NUM_def

record ul_confdata_t =
  num :: nat
  csize :: nat
  item :: "(cstr \<times> cstr) list"

definition ul_initconf :: "bool \<Rightarrow> bool \<Rightarrow> int \<Rightarrow> ul_confdata_t option" where
  \<comment> \<open>the first two arguments: the two allocations succeed\<close>
  "ul_initconf ok1 ok2 n =
     (if \<not> ok1 then None
      else let sz = (if n < int LIMIT_CONF_ITEM_NUM then LIMIT_CONF_ITEM_NUM else nat n) in
        if \<not> ok2 then None else Some \<lparr>num = 0, csize = sz, item = replicate sz ([], [])\<rparr>)"

fun find_item :: "(cstr \<times> cstr) list \<Rightarrow> nat \<Rightarrow> cstr \<Rightarrow> nat option" where
  \<comment> \<open>\<open>for (int i = 0; i < pd_conf->num; i++) if (strcmp(pd_conf->item[i].name, c_name) == 0)\<close>\<close>
  "find_item its 0 nm = None"
| "find_item [] (Suc n) nm = None"
| "find_item (it # its) (Suc n) nm = (if fst it = nm then Some 0 else map_option Suc (find_item its n nm))"

section \<open>The parser of a line\<close>

definition strip_end :: "cstr \<Rightarrow> cstr" where
  \<comment> \<open>the loop over \<open>j\<close> that clears the blanks at the end of \<open>inf_str\<close>\<close>
  "strip_end s = rev (dropWhile (\<lambda>c. c \<in> {CHR '' '', TAB, CR, LF, NUL}) (rev s))"

fun line_loop :: "nat \<Rightarrow> bool \<Rightarrow> cstr \<Rightarrow> cstr \<Rightarrow> cstr \<Rightarrow> cstr \<Rightarrow> (nat \<times> bool \<times> cstr \<times> cstr) option" where
  \<comment> \<open>\<open>for (i = 0; i <= sublen && status != 4 && status != 5; i++)\<close>: \<open>status\<close>, \<open>sep_sign\<close>, \<open>str_tmp1\<close>, \<open>str_tmp2\<close>, the line from
      \<open>i - 1\<close> on and from \<open>i\<close> on, both with the terminator; \<open>None\<close> is \<open>goto end\<close>\<close>
  "line_loop status sep t1 t2 prev [] = Some (status, sep, t1, t2)"
| "line_loop status sep t1 t2 prev (ch # rest) =
     (if status = 4 \<or> status = 5 then Some (status, sep, t1, t2)
      else if status = 0 then
        (if ch = CHR '' '' \<or> ch = TAB then line_loop 0 sep t1 t2 (ch # rest) rest
         else if ch = CR \<or> ch = LF then line_loop 6 sep t1 t2 (ch # rest) rest
         else if ch = CHR '':'' then line_loop 5 sep t1 t2 (ch # rest) rest
         else line_loop 1 sep [ch] t2 (ch # rest) rest)
      else if status = 1 then
        (if ch = CHR '' '' \<or> ch = TAB \<or> ch = CHR '':'' then
           line_loop 2 (if ch = CHR '':'' then True else sep) t1 t2 (ch # rest) rest
         else if ch = CR \<or> ch = LF then line_loop 5 sep t1 t2 (ch # rest) rest
         else if WORD_SIZE \<le> length (t1 @ [ch]) then None
         else line_loop 1 sep (t1 @ [ch]) t2 (ch # rest) rest)
      else if status = 2 then
        (if ch = CHR '' '' \<or> ch = TAB \<or> ch = CHR '':'' then
           (if ch = CHR '':'' \<and> \<not> sep then line_loop 2 True t1 t2 (ch # rest) rest
            else if ch = CHR '':'' then line_loop 3 sep t1 t2 (ch # rest) rest
            else line_loop 2 sep t1 t2 (ch # rest) rest)
         else if ch = CR \<or> ch = LF then line_loop 4 sep t1 [] (ch # rest) rest
         else line_loop 3 sep t1 t2 (ch # rest) rest)
      else if status = 3 then
        (let v = strip_end (butlast prev) in
         if v \<noteq> [] \<and> length v < WORD_SIZE then line_loop 4 sep t1 (take (WORD_SIZE - 1) v) (ch # rest) rest
         else line_loop 5 sep t1 t2 (ch # rest) rest)
      else line_loop status sep t1 t2 (ch # rest) rest)"

section \<open>Reading a file\<close>

fun fgets :: "nat \<Rightarrow> cstr \<Rightarrow> cstr \<times> cstr" where
  \<comment> \<open>at most \<open>n\<close> bytes, up to the end of the line: what is stored and what is left of the file\<close>
  "fgets 0 s = ([], s)"
| "fgets (Suc n) [] = ([], [])"
| "fgets (Suc n) (c # s) = (if c = LF then ([c], s) else case fgets n s of (l, r) \<Rightarrow> (c # l, r))"

lemma fgets_shrinks: "0 < n \<Longrightarrow> s \<noteq> [] \<Longrightarrow> fgets n s = (l, r) \<Longrightarrow> length r < length s"
proof -
  have le: "fgets n s = (l, r) \<Longrightarrow> length r \<le> length s" for n s l r
    by (induction n s arbitrary: l rule: fgets.induct) (auto simp: le_SucI split: if_splits prod.splits)
  assume "0 < n" "s \<noteq> []" "fgets n s = (l, r)"
  then show ?thesis by (cases n; cases s) (auto simp: less_Suc_eq_le dest: le split: if_splits prod.splits)
qed

function conf_lines :: "nat \<Rightarrow> nat \<Rightarrow> (cstr \<times> cstr) list \<Rightarrow> cstr \<Rightarrow> int \<times> nat \<times> (cstr \<times> cstr) list" where
  \<comment> \<open>\<open>while (fgets(inf_str, LINE_SIZE - 1, pf) != NULL)\<close>: the return value, \<open>item_num\<close> and the items\<close>
  "conf_lines sz n its s =
     (if s = [] then (1, n, its)
      else if sz \<le> n then (-1, n, its)
      else case fgets (LINE_SIZE - 2) s of (l, rest) \<Rightarrow>
        (let inf_str = takeWhile (\<lambda>c. c \<noteq> NUL) l in
         if inf_str = [] \<or> hd inf_str = CHR ''#'' then conf_lines sz n its rest
         else (case line_loop 0 False [] [] [] (inf_str @ [NUL]) of
                 None \<Rightarrow> (-1, n, its)
               | Some (status, sep, t1, t2) \<Rightarrow>
                   if status = 4 \<and> sep
                   then conf_lines sz (n + 1) (its[n := (snprintf_buf WORD_SIZE t1, snprintf_buf WORD_SIZE t2)]) rest
                   else conf_lines sz n its rest)))"
  by pat_completeness auto
termination
  by (relation "measure (\<lambda>(sz, n, its, s). length s)")
    (auto simp: LINE_SIZE_def dest!: sym[THEN fgets_shrinks[rotated 2]])

declare conf_lines.simps [simp del]

definition readconf_no_dir :: "fsys \<Rightarrow> cstr \<Rightarrow> ul_confdata_t \<Rightarrow> nat \<Rightarrow> int \<times> ul_confdata_t" where
  "readconf_no_dir fs fullpath pd_conf start =
     (case fs fullpath of
        None \<Rightarrow> (-1, pd_conf)
      | Some content \<Rightarrow>
          (case conf_lines (csize pd_conf) start (item pd_conf) content of (r, n, its) \<Rightarrow>
             if r = 1 then (1, pd_conf\<lparr>num := n, item := its\<rparr>) else (-1, pd_conf\<lparr>item := its\<rparr>)))"

definition ul_readconf_no_dir :: "fsys \<Rightarrow> cstr \<Rightarrow> ul_confdata_t \<Rightarrow> int \<times> ul_confdata_t" where
  "ul_readconf_no_dir fs fullpath pd_conf = readconf_no_dir fs fullpath pd_conf 0"

definition escape_ignore :: "cstr \<Rightarrow> cstr" where
  \<comment> \<open>the line from the position returned on\<close>
  "escape_ignore line = dropWhile (\<lambda>c. c = CHR '' '') line"

definition abs_path :: "cstr \<Rightarrow> bool" where
  "abs_path file \<longleftrightarrow> file \<noteq> [] \<and> hd file = CHR ''/'' \<or> strncmp_eq file ''~/'' 2"

definition include_name :: "cstr \<Rightarrow> cstr option" where
  \<comment> \<open>the name between quotation marks in the value of an include item; \<open>None\<close> when there is none\<close>
  "include_name val =
     (case escape_ignore val of
        [] \<Rightarrow> None
      | q # line \<Rightarrow>
          if q = CHR 0x22 then
            (let l = escape_ignore line; incfile = takeWhile (\<lambda>c. c \<noteq> CHR 0x22) l in
             if length incfile < length l then Some incfile else None)
          else None)"

fun include_loop :: "fsys \<Rightarrow> cstr \<Rightarrow> nat \<Rightarrow> nat \<Rightarrow> ul_confdata_t \<Rightarrow> ul_confdata_t" where
  \<comment> \<open>\<open>for (int i=0; i<itemnum; ++i)\<close>, with \<open>k = itemnum - i\<close>; the failure of a file is only logged\<close>
  "include_loop fs path i 0 pd_conf = pd_conf"
| "include_loop fs path i (Suc k) pd_conf =
     include_loop fs path (Suc i) k
       (if map tolower (fst (item pd_conf ! i)) = ''$include'' then
          (case include_name (snd (item pd_conf ! i)) of
             None \<Rightarrow> pd_conf
           | Some incfile \<Rightarrow>
               snd (readconf_no_dir fs
                 (if abs_path incfile then incfile else snprintf_buf (PATH_SIZE * 2) (path @ ''/'' @ incfile))
                 pd_conf (num pd_conf)))
        else pd_conf)"

definition ul_readconf_include :: "fsys \<Rightarrow> cstr \<Rightarrow> ul_confdata_t \<Rightarrow> int \<times> ul_confdata_t" where
  "ul_readconf_include fs path pd_conf = (1, include_loop fs path 0 (num pd_conf) pd_conf)"

definition conf_path :: "cstr \<Rightarrow> cstr \<Rightarrow> cstr" where
  \<comment> \<open>\<open>snprintf(totalname, sizeof(totalname), "%s/%s", work_path, fname)\<close>\<close>
  "conf_path work_path fname = snprintf_buf LINE_SIZE (work_path @ ''/'' @ fname)"

definition ul_readconf :: "fsys \<Rightarrow> cstr option \<Rightarrow> cstr option \<Rightarrow> ul_confdata_t option \<Rightarrow> int \<times> ul_confdata_t option" where
  "ul_readconf fs work_path fname pd_conf =
     (case (work_path, fname, pd_conf) of
        (Some w, Some f, Some c) \<Rightarrow> (case ul_readconf_no_dir fs (conf_path w f) c of (r, c') \<Rightarrow> (r, Some c'))
      | _ \<Rightarrow> (-1, pd_conf))"

definition ul_readconf_ex :: "fsys \<Rightarrow> cstr option \<Rightarrow> cstr option \<Rightarrow> ul_confdata_t option \<Rightarrow> int \<times> ul_confdata_t option" where
  "ul_readconf_ex fs work_path fname pd_conf =
     (case (work_path, fname, pd_conf) of
        (Some w, Some f, Some c) \<Rightarrow>
          (case ul_readconf_no_dir fs (conf_path w f) c of (r, c') \<Rightarrow>
             if r \<noteq> 1 then (r, Some c')
             else case ul_readconf_include fs w c' of (r', c'') \<Rightarrow> (r', Some c''))
      | _ \<Rightarrow> (-1, pd_conf))"

section \<open>Writing a file\<close>

definition one_word :: "cstr \<Rightarrow> bool" where
  \<comment> \<open>\<open>sscanf(name, "%s %s", tstra, tstrb) == 1\<close>\<close>
  "one_word s \<longleftrightarrow> fst (scan_word s) \<noteq> [] \<and> fst (scan_word (snd (scan_word s))) = []"

definition conf_line :: "cstr \<times> cstr \<Rightarrow> cstr" where
  \<comment> \<open>the format \<open>"%s : %s\n"\<close>\<close>
  "conf_line it = fst it @ '' : '' @ snd it @ [LF]"

definition ul_writeconf ::
  "(cstr \<Rightarrow> bool) \<Rightarrow> fsys \<Rightarrow> cstr option \<Rightarrow> cstr option \<Rightarrow> ul_confdata_t option \<Rightarrow> int \<times> fsys" where
  \<comment> \<open>the first argument: the file can be opened for writing\<close>
  "ul_writeconf open_ok fs work_path fname pd_conf =
     (case (work_path, fname, pd_conf) of
        (Some w, Some f, Some c) \<Rightarrow>
          if csize c < num c \<or> num c = 0 then (-1, fs)
          else if \<not> open_ok (conf_path w f) then (-1, fs)
          else (1, fs(conf_path w f \<mapsto> concat (map conf_line (filter (\<lambda>it. one_word (fst it)) (take (num c) (item c))))))
      | _ \<Rightarrow> (-1, fs))"

section \<open>Strings\<close>

definition ul_getconfnstr ::
  "ul_confdata_t option \<Rightarrow> cstr option \<Rightarrow> char list option \<Rightarrow> nat \<Rightarrow> (int \<times> char list option) option" where
  "ul_getconfnstr pd_conf c_name c_value n =
     (case (c_value, c_name, pd_conf) of
        (Some blk, Some nm, Some c) \<Rightarrow>
          if blk = [] then None
          else (case find_item (item c) (num c) nm of
                  None \<Rightarrow> Some (0, Some (blk[0 := NUL]))
                | Some i \<Rightarrow> map_option (\<lambda>(_, b). (1, Some b)) (ul_strlcpy (blk[0 := NUL]) (snd (item c ! i)) n))
      | _ \<Rightarrow> Some (0, c_value))"

definition ul_getconfstr ::
  "ul_confdata_t option \<Rightarrow> cstr option \<Rightarrow> char list option \<Rightarrow> (int \<times> char list option) option" where
  \<comment> \<open>\<open>strcpy\<close> into a block of unknown size\<close>
  "ul_getconfstr pd_conf c_name c_value =
     (case (pd_conf, c_name, c_value) of
        (Some c, Some nm, Some blk) \<Rightarrow>
          if blk = [] then None
          else (case find_item (item c) (num c) nm of
                  None \<Rightarrow> Some (0, Some (blk[0 := NUL]))
                | Some i \<Rightarrow>
                    (let v = snd (item c ! i) in
                     if length v < length blk then Some (1, Some (v @ NUL # drop (Suc (length v)) blk)) else None))
      | _ \<Rightarrow> Some (0, c_value))"

definition set_value :: "ul_confdata_t \<Rightarrow> nat \<Rightarrow> cstr \<Rightarrow> ul_confdata_t" where
  "set_value c i v = c\<lparr>item := (item c)[i := (fst (item c ! i), v)]\<rparr>"

definition ul_modifyconfstr :: "ul_confdata_t option \<Rightarrow> cstr option \<Rightarrow> cstr option \<Rightarrow> int \<times> ul_confdata_t option" where
  "ul_modifyconfstr pd_conf c_name c_value =
     (case (pd_conf, c_name, c_value) of
        (Some c, Some nm, Some v) \<Rightarrow>
          if WORD_SIZE \<le> length v then (-3, pd_conf)
          else (case find_item (item c) (num c) nm of
                  None \<Rightarrow> (0, pd_conf)
                | Some i \<Rightarrow> (1, Some (set_value c i v)))
      | _ \<Rightarrow> (-1, pd_conf))"

datatype conf_value = ULTYPE_STRING cstr | ULTYPE_INT int | ULTYPE_UINT int | ULTYPE_INT64 int | ULTYPE_UINT64 int

fun value_text :: "conf_value \<Rightarrow> cstr" where
  \<comment> \<open>the formats \<open>%d\<close>, \<open>%u\<close>, \<open>%lld\<close> and \<open>%llu\<close>\<close>
  "value_text (ULTYPE_STRING v) = v"
| "value_text (ULTYPE_INT k) = dec_int k"
| "value_text (ULTYPE_UINT k) = dec_int k"
| "value_text (ULTYPE_INT64 k) = dec_int k"
| "value_text (ULTYPE_UINT64 k) = dec_int k"

definition addconf :: "ul_confdata_t option \<Rightarrow> cstr option \<Rightarrow> conf_value option \<Rightarrow> int \<times> ul_confdata_t option" where
  "addconf pd_conf c_name c_value =
     (case (pd_conf, c_name, c_value) of
        (Some c, Some nm, Some val) \<Rightarrow>
          if WORD_SIZE \<le> length nm then (-1, pd_conf)
          else if csize c \<le> num c then (-2, pd_conf)
          else if find_item (item c) (num c) nm \<noteq> None then (0, pd_conf)
          else (let named = c\<lparr>item := (item c)[num c := (nm, snd (item c ! num c))]\<rparr> in
            case val of
              ULTYPE_STRING v \<Rightarrow>
                if WORD_SIZE \<le> length v then (-3, Some named)
                else (1, Some ((set_value named (num c) v)\<lparr>num := num c + 1\<rparr>))
            | _ \<Rightarrow> (1, Some ((set_value named (num c) (snprintf_buf WORD_SIZE (value_text val)))\<lparr>num := num c + 1\<rparr>)))
      | _ \<Rightarrow> (-4, pd_conf))"

definition ul_addconfstr :: "ul_confdata_t option \<Rightarrow> cstr option \<Rightarrow> cstr option \<Rightarrow> int \<times> ul_confdata_t option" where
  "ul_addconfstr pd_conf c_name c_value = addconf pd_conf c_name (map_option ULTYPE_STRING c_value)"

definition ul_addconfint :: "ul_confdata_t option \<Rightarrow> cstr option \<Rightarrow> int \<Rightarrow> int \<times> ul_confdata_t option" where
  "ul_addconfint pd_conf c_name c_value = addconf pd_conf c_name (Some (ULTYPE_INT c_value))"

definition ul_addconfuint :: "ul_confdata_t option \<Rightarrow> cstr option \<Rightarrow> int \<Rightarrow> int \<times> ul_confdata_t option" where
  "ul_addconfuint pd_conf c_name c_value = addconf pd_conf c_name (Some (ULTYPE_UINT c_value))"

definition ul_addconfint64 :: "ul_confdata_t option \<Rightarrow> cstr option \<Rightarrow> int \<Rightarrow> int \<times> ul_confdata_t option" where
  "ul_addconfint64 pd_conf c_name c_value = addconf pd_conf c_name (Some (ULTYPE_INT64 c_value))"

definition ul_addconfuint64 :: "ul_confdata_t option \<Rightarrow> cstr option \<Rightarrow> int \<Rightarrow> int \<times> ul_confdata_t option" where
  "ul_addconfuint64 pd_conf c_name c_value = addconf pd_conf c_name (Some (ULTYPE_UINT64 c_value))"

section \<open>Numbers\<close>

definition conf_word :: "ul_confdata_t option \<Rightarrow> cstr option \<Rightarrow> cstr option" where
  \<comment> \<open>\<open>ul_getconfnstr(pd_conf, c_name, tstr, sizeof(tstr))\<close> with the local \<open>tstr[WORD_SIZE]\<close>; \<open>None\<close> when it returns 0\<close>
  "conf_word pd_conf c_name =
     (case (pd_conf, c_name) of
        (Some c, Some nm) \<Rightarrow>
          map_option (\<lambda>i. snprintf_buf WORD_SIZE (snd (item c ! i))) (find_item (item c) (num c) nm)
      | _ \<Rightarrow> None)"

definition digit_of :: "char \<Rightarrow> nat" where
  "digit_of c =
     (let n = of_char c in
      if 48 \<le> n \<and> n \<le> 57 then n - 48 else if 97 \<le> n \<and> n \<le> 102 then n - 87
      else if 65 \<le> n \<and> n \<le> 70 then n - 55 else 99)"

fun based_val :: "nat \<Rightarrow> nat \<Rightarrow> cstr \<Rightarrow> nat" where
  "based_val b v [] = v"
| "based_val b v (c # s) = based_val b (b * v + digit_of c) s"

definition scan_based :: "nat \<Rightarrow> cstr \<Rightarrow> (bool \<times> nat) option" where
  \<comment> \<open>the conversions \<open>%u\<close>, \<open>%o\<close> and \<open>%x\<close> of sscanf for base 10, 8 and 16: the sign and the number; \<open>None\<close> when it does not match\<close>
  "scan_based b s =
     (let t = dropWhile isspace s;
          neg = (t \<noteq> [] \<and> hd t = CHR ''-'');
          u = (if t \<noteq> [] \<and> (hd t = CHR ''-'' \<or> hd t = CHR ''+'') then tl t else t);
          w = (if b = 16 \<and> (prefix ''0x'' u \<or> prefix ''0X'' u) then drop 2 u else u);
          ds = takeWhile (\<lambda>c. digit_of c < b) w
      in if ds = [] then None else Some (neg, based_val b 0 ds))"

definition to_unsigned :: "nat \<Rightarrow> bool \<times> nat \<Rightarrow> int option" where
  \<comment> \<open>the number in \<open>w\<close> bits, negated for a sign; \<open>None\<close> when it does not fit\<close>
  "to_unsigned w nv =
     (if 2 ^ w \<le> snd nv then None else Some ((if fst nv then - int (snd nv) else int (snd nv)) mod 2 ^ w))"

definition as_signed :: "nat \<Rightarrow> int \<Rightarrow> int" where
  "as_signed w x = (x + 2 ^ (w - 1)) mod 2 ^ w - 2 ^ (w - 1)"

definition read_signed :: "nat \<Rightarrow> cstr \<Rightarrow> (int \<times> int option) option" where
  \<comment> \<open>the reading of \<open>tstr\<close> as a signed number of \<open>w\<close> bits: the return value and what is stored\<close>
  "read_signed w t =
     (if t = ''0'' then Some (1, Some 0)
      else if t = [] \<or> hd t \<noteq> CHR ''0'' then
        (case scan_int t of
           None \<Rightarrow> Some (0, None)
         | Some (v, _) \<Rightarrow> if - (2 ^ (w - 1)) \<le> v \<and> v < 2 ^ (w - 1) then Some (1, Some v) else None)
      else (case (if hd (tl t) \<noteq> CHR ''x'' then scan_based 8 (drop 1 t) else scan_based 16 (drop 2 t)) of
           None \<Rightarrow> Some (0, None)
         | Some nv \<Rightarrow> map_option (\<lambda>v. (1, Some (as_signed w v))) (to_unsigned w nv)))"

definition read_unsigned :: "nat \<Rightarrow> cstr \<Rightarrow> (int \<times> int option) option" where
  "read_unsigned w t =
     (if t = ''0'' then Some (1, Some 0)
      else (case (if t = [] \<or> hd t \<noteq> CHR ''0'' then scan_based 10 t
                  else if hd (tl t) \<noteq> CHR ''x'' then scan_based 8 (drop 1 t) else scan_based 16 (drop 2 t)) of
           None \<Rightarrow> Some (0, None)
         | Some nv \<Rightarrow> map_option (\<lambda>v. (1, Some v)) (to_unsigned w nv)))"

definition ul_getconfint :: "ul_confdata_t option \<Rightarrow> cstr option \<Rightarrow> (int \<times> int option) option" where
  \<comment> \<open>the return value and what is stored through \<open>c_value\<close>\<close>
  "ul_getconfint pd_conf c_name = (case conf_word pd_conf c_name of None \<Rightarrow> Some (0, None) | Some t \<Rightarrow> read_signed 32 t)"

definition ul_getconfuint :: "ul_confdata_t option \<Rightarrow> cstr option \<Rightarrow> (int \<times> int option) option" where
  "ul_getconfuint pd_conf c_name = (case conf_word pd_conf c_name of None \<Rightarrow> Some (0, None) | Some t \<Rightarrow> read_unsigned 32 t)"

definition ul_getconfint64 :: "ul_confdata_t option \<Rightarrow> cstr option \<Rightarrow> (int \<times> int option) option" where
  "ul_getconfint64 pd_conf c_name = (case conf_word pd_conf c_name of None \<Rightarrow> Some (0, None) | Some t \<Rightarrow> read_signed 64 t)"

definition ul_getconfuint64 :: "ul_confdata_t option \<Rightarrow> cstr option \<Rightarrow> (int \<times> int option) option" where
  "ul_getconfuint64 pd_conf c_name = (case conf_word pd_conf c_name of None \<Rightarrow> Some (0, None) | Some t \<Rightarrow> read_unsigned 64 t)"

definition modify_number :: "ul_confdata_t option \<Rightarrow> cstr option \<Rightarrow> cstr \<Rightarrow> int \<times> ul_confdata_t option" where
  \<comment> \<open>the four functions differ in the format of the number\<close>
  "modify_number pd_conf c_name txt =
     (case (pd_conf, c_name) of
        (Some c, Some nm) \<Rightarrow>
          (case find_item (item c) (num c) nm of
             None \<Rightarrow> (0, pd_conf)
           | Some i \<Rightarrow> (1, Some (set_value c i (snprintf_buf WORD_SIZE txt))))
      | _ \<Rightarrow> (0, pd_conf))"

definition ul_modifyconfint :: "ul_confdata_t option \<Rightarrow> cstr option \<Rightarrow> int \<Rightarrow> int \<times> ul_confdata_t option" where
  "ul_modifyconfint pd_conf c_name c_value = modify_number pd_conf c_name (dec_int c_value)"

definition ul_modifyconfuint :: "ul_confdata_t option \<Rightarrow> cstr option \<Rightarrow> int \<Rightarrow> int \<times> ul_confdata_t option" where
  "ul_modifyconfuint pd_conf c_name c_value = modify_number pd_conf c_name (dec_int c_value)"

definition ul_modifyconfint64 :: "ul_confdata_t option \<Rightarrow> cstr option \<Rightarrow> int \<Rightarrow> int \<times> ul_confdata_t option" where
  "ul_modifyconfint64 pd_conf c_name c_value = modify_number pd_conf c_name (dec_int c_value)"

definition ul_modifyconfuint64 :: "ul_confdata_t option \<Rightarrow> cstr option \<Rightarrow> int \<Rightarrow> int \<times> ul_confdata_t option" where
  "ul_modifyconfuint64 pd_conf c_name c_value = modify_number pd_conf c_name (dec_int c_value)"

section \<open>Number files\<close>

definition num_path :: "cstr \<Rightarrow> cstr \<Rightarrow> cstr" where
  "num_path work_path fname = snprintf_buf LINE_SIZE (work_path @ ''/'' @ fname @ ''.n'')"

definition ul_writenum_init :: "(cstr \<Rightarrow> bool) \<Rightarrow> fsys \<Rightarrow> cstr \<Rightarrow> cstr \<Rightarrow> int \<times> fsys" where
  "ul_writenum_init open_ok fs work_path fname =
     (if \<not> open_ok (num_path work_path fname) then (-1, fs) else (1, fs(num_path work_path fname \<mapsto> [])))"

definition writenum_one ::
  "(cstr \<Rightarrow> bool) \<Rightarrow> fsys \<Rightarrow> cstr option \<Rightarrow> cstr option \<Rightarrow> cstr option \<Rightarrow> conf_value option \<Rightarrow> (int \<times> fsys) option" where
  \<comment> \<open>opening for appending creates the file; \<open>None\<close>: a word of the name does not fit in \<open>tstra\<close> or \<open>tstrb\<close>\<close>
  "writenum_one open_ok fs work_path fname vname val =
     (case (work_path, fname, vname, val) of
        (Some w, Some f, Some nm, Some v) \<Rightarrow>
          (let path = num_path w f; old = (case fs path of None \<Rightarrow> [] | Some s \<Rightarrow> s) in
           if \<not> open_ok path then Some (-1, fs)
           else if WORD_SIZE \<le> length (fst (scan_word nm)) \<or> WORD_SIZE \<le> length (fst (scan_word (snd (scan_word nm)))) then None
           else if \<not> one_word nm then Some (-2, fs(path \<mapsto> old))
           else (case v of
               ULTYPE_STRING _ \<Rightarrow> Some (1, fs(path \<mapsto> old))
             | _ \<Rightarrow> Some (1, fs(path \<mapsto> old @ conf_line (nm, value_text v)))))
      | _ \<Rightarrow> Some (-3, fs))"

definition kreadnum_one ::
  "(ul_confdata_t option \<Rightarrow> cstr option \<Rightarrow> (int \<times> int option) option) \<Rightarrow> fsys \<Rightarrow> cstr \<Rightarrow> cstr \<Rightarrow> cstr
   \<Rightarrow> (int \<times> int option) option" where
  \<comment> \<open>the first argument: the accessor that \<open>type\<close> selects. The table is taken to be allocated\<close>
  "kreadnum_one getconf fs work_path fname vname =
     (case ul_readconf fs (Some work_path) (Some (snprintf_buf PATH_SIZE (fname @ ''.n'')))
        (ul_initconf True True (int LIMIT_CONF_ITEM_NUM)) of (r, tconf) \<Rightarrow>
        if r = -1 then Some (-1, None)
        else map_option (\<lambda>(reti, v). if reti \<noteq> 0 then (reti, v) else (-1, v)) (getconf tconf (Some vname)))"

definition ul_writenum_oneint :: "(cstr \<Rightarrow> bool) \<Rightarrow> fsys \<Rightarrow> cstr option \<Rightarrow> cstr option \<Rightarrow> cstr option \<Rightarrow> int \<Rightarrow> (int \<times> fsys) option" where
  "ul_writenum_oneint open_ok fs work_path fname vname v = writenum_one open_ok fs work_path fname vname (Some (ULTYPE_INT v))"

definition ul_writenum_oneuint :: "(cstr \<Rightarrow> bool) \<Rightarrow> fsys \<Rightarrow> cstr option \<Rightarrow> cstr option \<Rightarrow> cstr option \<Rightarrow> int \<Rightarrow> (int \<times> fsys) option" where
  "ul_writenum_oneuint open_ok fs work_path fname vname v = writenum_one open_ok fs work_path fname vname (Some (ULTYPE_UINT v))"

definition ul_writenum_oneint64 :: "(cstr \<Rightarrow> bool) \<Rightarrow> fsys \<Rightarrow> cstr option \<Rightarrow> cstr option \<Rightarrow> cstr option \<Rightarrow> int \<Rightarrow> (int \<times> fsys) option" where
  "ul_writenum_oneint64 open_ok fs work_path fname vname v = writenum_one open_ok fs work_path fname vname (Some (ULTYPE_INT64 v))"

definition ul_writenum_oneuint64 :: "(cstr \<Rightarrow> bool) \<Rightarrow> fsys \<Rightarrow> cstr option \<Rightarrow> cstr option \<Rightarrow> cstr option \<Rightarrow> int \<Rightarrow> (int \<times> fsys) option" where
  "ul_writenum_oneuint64 open_ok fs work_path fname vname v = writenum_one open_ok fs work_path fname vname (Some (ULTYPE_UINT64 v))"

definition ul_kreadnum_oneint :: "fsys \<Rightarrow> cstr \<Rightarrow> cstr \<Rightarrow> cstr \<Rightarrow> (int \<times> int option) option" where
  "ul_kreadnum_oneint = kreadnum_one ul_getconfint"

definition ul_kreadnum_oneuint :: "fsys \<Rightarrow> cstr \<Rightarrow> cstr \<Rightarrow> cstr \<Rightarrow> (int \<times> int option) option" where
  "ul_kreadnum_oneuint = kreadnum_one ul_getconfuint"

definition ul_kreadnum_oneint64 :: "fsys \<Rightarrow> cstr \<Rightarrow> cstr \<Rightarrow> cstr \<Rightarrow> (int \<times> int option) option" where
  "ul_kreadnum_oneint64 = kreadnum_one ul_getconfint64"

definition ul_kreadnum_oneuint64 :: "fsys \<Rightarrow> cstr \<Rightarrow> cstr \<Rightarrow> cstr \<Rightarrow> (int \<times> int option) option" where
  "ul_kreadnum_oneuint64 = kreadnum_one ul_getconfuint64"

section \<open>What the line parser accepts\<close>

abbreviation blank :: "char \<Rightarrow> bool" where "blank c \<equiv> c = CHR '' '' \<or> c = TAB"
abbreviation line_end :: "char \<Rightarrow> bool" where "line_end c \<equiv> c = CR \<or> c = LF"

definition name_ok :: "cstr \<Rightarrow> bool" where
  "name_ok s \<longleftrightarrow> s \<noteq> [] \<and> length s < WORD_SIZE
     \<and> list_all (\<lambda>c. \<not> blank c \<and> \<not> line_end c \<and> c \<noteq> CHR '':'') s"

definition value_ok :: "cstr \<Rightarrow> bool" where
  "value_ok v \<longleftrightarrow> length v < WORD_SIZE \<and> NUL \<notin> set v
     \<and> (v = [] \<or> \<not> blank (hd v) \<and> \<not> line_end (hd v) \<and> \<not> blank (last v) \<and> \<not> line_end (last v))"

lemma line_loop_prev:
  "status \<noteq> 3 \<Longrightarrow> line_loop status sep t1 t2 p (c # r) = line_loop status sep t1 t2 p' (c # r)"
  by simp

lemma line_loop_blanks0:
  "list_all blank pre \<Longrightarrow> line_loop 0 sep t1 t2 p (pre @ c # r) = line_loop 0 sep t1 t2 p' (c # r)"
proof (induction pre arbitrary: p)
  case (Cons x pre)
  then show ?case by (cases pre) simp_all
qed simp

lemma line_loop_blanks2:
  "list_all blank pre \<Longrightarrow> line_loop 2 sep t1 t2 p (pre @ c # r) = line_loop 2 sep t1 t2 p' (c # r)"
proof (induction pre arbitrary: p)
  case (Cons x pre)
  have "line_loop 2 sep t1 t2 p ((x # pre) @ c # r) = line_loop 2 sep t1 t2 (x # pre @ c # r) (pre @ c # r)"
    using Cons.prems by auto
  also have "\<dots> = line_loop 2 sep t1 t2 p' (c # r)" using Cons by (intro Cons.IH) simp
  finally show ?case .
qed simp

lemma line_loop_name:
  "\<lbrakk>list_all (\<lambda>c. \<not> blank c \<and> \<not> line_end c \<and> c \<noteq> CHR '':'') s; length (t1 @ s) < WORD_SIZE\<rbrakk> \<Longrightarrow>
   line_loop 1 sep t1 t2 p (s @ c # r) = line_loop 1 sep (t1 @ s) t2 p' (c # r)"
proof (induction s arbitrary: t1 p)
  case Nil
  then show ?case unfolding append_Nil append_Nil2 by (intro line_loop_prev) simp
next
  case (Cons x s)
  have "line_loop 1 sep t1 t2 p ((x # s) @ c # r) = line_loop 1 sep (t1 @ [x]) t2 (x # s @ c # r) (s @ c # r)"
    using Cons.prems by simp
  also have "\<dots> = line_loop 1 sep ((t1 @ [x]) @ s) t2 p' (c # r)" using Cons.prems by (intro Cons.IH) simp_all
  finally show ?case by simp
qed

lemma strip_end_value:
  assumes "v \<noteq> []" and "\<not> blank (last v)" and "\<not> line_end (last v)" and "NUL \<notin> set v"
    and "list_all (\<lambda>c. blank c \<or> line_end c) post"
  shows "strip_end (v @ post) = v"
proof -
  let ?P = "\<lambda>c. c \<in> {CHR '' '', TAB, CR, LF, NUL}"
  have "last v \<noteq> NUL" using assms(1,4) last_in_set by metis
  then have l: "\<not> ?P (last v)" using assms(2,3) by simp
  obtain u where u: "v = u @ [last v]" using assms(1) by (metis append_butlast_last_id)
  have "\<forall>c \<in> set (rev post). ?P c" using assms(5) by (auto simp: list_all_iff)
  then have "dropWhile ?P (rev post @ rev v) = dropWhile ?P (rev v)" by (intro dropWhile_append2) blast
  also have "\<dots> = rev v" using l by (subst u, subst u) simp
  finally show ?thesis by (simp add: strip_end_def)
qed

lemma line_loop_value:
  assumes "value_ok v" and "list_all (\<lambda>c. blank c \<or> line_end c) post" and "post \<noteq> []" and "line_end (hd post)"
  shows "line_loop 2 True t1 t2 p (v @ post @ [NUL]) = Some (4, True, t1, v)"
proof (cases v)
  case Nil
  obtain q ps where q: "post = q # ps" using assms(3) by (cases post) auto
  then have "line_end q" using assms(4) by simp
  then have "line_loop 2 True t1 t2 p (v @ post @ [NUL]) = line_loop 4 True t1 [] (q # ps @ [NUL]) (ps @ [NUL])"
    using Nil q by auto
  also have "\<dots> = Some (4, True, t1, [])" by (cases ps) simp_all
  finally show ?thesis using Nil by simp
next
  case (Cons x u)
  let ?prev = "v @ post @ [NUL]" and ?rest = "u @ post @ [NUL]"
  have x: "\<not> blank x" "\<not> line_end x" using assms(1) Cons by (auto simp: value_ok_def)
  have "line_loop 2 True t1 t2 p ?prev = line_loop 3 True t1 t2 ?prev ?rest"
    using x by (simp add: Cons)
  moreover obtain y ys where r: "?rest = y # ys" by (cases ?rest) auto
  have "strip_end (butlast ?prev) = v"
    using strip_end_value[of v post] assms(1,2) Cons by (simp add: value_ok_def butlast_append)
  moreover have "v \<noteq> []" "length v < WORD_SIZE" using assms(1) Cons by (auto simp: value_ok_def)
  ultimately show ?thesis unfolding r by (cases ys) simp_all
qed

lemma line_loop_item:
  assumes "list_all blank pre" and "name_ok nm" and "list_all blank m1" and "list_all blank m2" and "value_ok v"
    and "list_all (\<lambda>c. blank c \<or> line_end c) post" and "post \<noteq> []" and "line_end (hd post)"
  shows "line_loop 0 False [] [] [] ((pre @ nm @ m1 @ '':'' @ m2 @ v @ post) @ [NUL]) = Some (4, True, nm, v)"
proof -
  obtain x s where nm: "nm = x # s" using assms(2) by (cases nm) (auto simp: name_ok_def)
  let ?tail = "v @ post @ [NUL]"
  obtain y ys where t: "?tail = y # ys" by (cases ?tail) auto
  have x: "\<not> blank x" "\<not> line_end x" "x \<noteq> CHR '':''" using assms(2) by (auto simp: nm name_ok_def)
  obtain z zs where z: "m1 @ '':'' @ m2 @ ?tail = z # zs" by (cases m1) auto
  have "line_loop 0 False [] [] [] ((pre @ nm @ m1 @ '':'' @ m2 @ v @ post) @ [NUL])
      = line_loop 0 False [] [] [] (x # s @ z # zs)"
    using line_loop_blanks0[OF assms(1), of False "[]" "[]" "[]" x "s @ z # zs" "[]"] by (simp add: nm flip: z)
  also have "\<dots> = line_loop 1 False [x] [] (x # s @ z # zs) (s @ z # zs)" using x by simp
  also have "\<dots> = line_loop 1 False ([x] @ s) [] [] (z # zs)"
    using assms(2) by (intro line_loop_name) (auto simp: nm name_ok_def)
  also have "\<dots> = line_loop 2 True nm [] [] (m2 @ ?tail)"
  proof (cases m1)
    case Nil
    then have "line_loop 1 False ([x] @ s) [] [] (z # zs) = line_loop 2 True nm [] (z # zs) (m2 @ ?tail)"
      using z by (auto simp: nm)
    also have "\<dots> = line_loop 2 True nm [] [] (m2 @ ?tail)"
      unfolding t by (rule trans[OF line_loop_blanks2[OF assms(4)] line_loop_blanks2[OF assms(4), symmetric]])
    finally show ?thesis .
  next
    case (Cons b bs)
    then have b: "z = b" "zs = bs @ '':'' @ m2 @ ?tail" "blank b" "list_all blank bs" using z assms(3) by auto
    then have "line_loop 1 False ([x] @ s) [] [] (z # zs) = line_loop 2 False nm [] (z # zs) (bs @ CHR '':'' # m2 @ ?tail)"
      by (auto simp: nm)
    also have "\<dots> = line_loop 2 False nm [] [] (CHR '':'' # m2 @ ?tail)" by (rule line_loop_blanks2[OF b(4)])
    also have "\<dots> = line_loop 2 True nm [] (CHR '':'' # m2 @ ?tail) (m2 @ ?tail)" by simp
    also have "\<dots> = line_loop 2 True nm [] [] (m2 @ ?tail)"
      unfolding t by (rule trans[OF line_loop_blanks2[OF assms(4)] line_loop_blanks2[OF assms(4), symmetric]])
    finally show ?thesis .
  qed
  also have "\<dots> = line_loop 2 True nm [] [] ?tail" unfolding t by (rule line_loop_blanks2[OF assms(4)])
  also have "\<dots> = Some (4, True, nm, v)" by (rule line_loop_value[OF assms(5-8)])
  finally show ?thesis .
qed

section \<open>Files of items\<close>

definition item_fits :: "cstr \<times> cstr \<Rightarrow> bool" where
  \<comment> \<open>an item that comes back from a file\<close>
  "item_fits it \<longleftrightarrow> name_ok (fst it) \<and> list_all (\<lambda>c. \<not> isspace c \<and> c \<noteq> NUL) (fst it) \<and> hd (fst it) \<noteq> CHR ''#''
     \<and> value_ok (snd it) \<and> LF \<notin> set (snd it) \<and> length (conf_line it) \<le> LINE_SIZE - 2"

lemma fgets_line: "LF \<notin> set l \<Longrightarrow> length l < n \<Longrightarrow> fgets n (l @ LF # rest) = (l @ [LF], rest)"
proof (induction l arbitrary: n)
  case Nil
  then show ?case by (cases n) simp_all
next
  case (Cons c l)
  then obtain m where "n = Suc m" by (cases n) auto
  with Cons show ?case by auto
qed

lemma isspace_ends: "isspace LF" "isspace TAB"
  by (simp_all add: isspace_def)

lemma name_no_lf: "list_all (\<lambda>c. \<not> isspace c \<and> c \<noteq> NUL) s \<Longrightarrow> LF \<notin> set s \<and> NUL \<notin> set s"
  using isspace_ends(1) by (auto simp: list_all_iff)

lemma conf_line_read:
  assumes "item_fits it"
  shows "fgets (LINE_SIZE - 2) (conf_line it @ rest) = (conf_line it, rest)"
    and "takeWhile (\<lambda>c. c \<noteq> NUL) (conf_line it) = conf_line it"
    and "line_loop 0 False [] [] [] (conf_line it @ [NUL]) = Some (4, True, fst it, snd it)"
    and "conf_line it \<noteq> []" and "hd (conf_line it) \<noteq> CHR ''#''"
    and "snprintf_buf WORD_SIZE (fst it) = fst it" and "snprintf_buf WORD_SIZE (snd it) = snd it"
proof -
  obtain n v where it: "it = (n, v)" by (cases it)
  have n: "name_ok n" "LF \<notin> set n" "NUL \<notin> set n" "hd n \<noteq> CHR ''#''" "n \<noteq> []" "length n < WORD_SIZE"
    and v: "value_ok v" "LF \<notin> set v" "NUL \<notin> set v" "length v < WORD_SIZE"
    using assms name_no_lf[of n] by (auto simp: it item_fits_def name_ok_def value_ok_def)
  have "length (n @ '' : '' @ v) < LINE_SIZE - 2" using assms by (simp add: it item_fits_def conf_line_def)
  then show "fgets (LINE_SIZE - 2) (conf_line it @ rest) = (conf_line it, rest)"
    using fgets_line[of "n @ '' : '' @ v" "LINE_SIZE - 2" rest] n v by (simp add: it conf_line_def)
  show "takeWhile (\<lambda>c. c \<noteq> NUL) (conf_line it) = conf_line it"
  proof -
    have "\<forall>c \<in> set (conf_line it). c \<noteq> NUL" using n v by (auto simp: it conf_line_def)
    then show ?thesis by (simp add: takeWhile_eq_all_conv)
  qed
  have "line_loop 0 False [] [] [] (([] @ n @ '' '' @ '':'' @ '' '' @ v @ [LF]) @ [NUL]) = Some (4, True, n, v)"
    by (rule line_loop_item) (use n v in simp_all)
  then show "line_loop 0 False [] [] [] (conf_line it @ [NUL]) = Some (4, True, fst it, snd it)"
    by (simp add: it conf_line_def)
  show "conf_line it \<noteq> []" by (simp add: conf_line_def)
  show "hd (conf_line it) \<noteq> CHR ''#''" using n by (simp add: it conf_line_def)
  show "snprintf_buf WORD_SIZE (fst it) = fst it" "snprintf_buf WORD_SIZE (snd it) = snd it"
    using n v by (simp_all add: it)
qed

lemma conf_lines_item:
  assumes "item_fits it" and "n < sz"
  shows "conf_lines sz n its (conf_line it @ rest) = conf_lines sz (n + 1) (its[n := it]) rest"
proof -
  obtain nm v where it: "it = (nm, v)" by (cases it)
  note r = conf_line_read[OF assms(1)[unfolded it], unfolded fst_conv snd_conv]
  have "conf_line (nm, v) @ rest \<noteq> []" using r(4) by simp
  then show ?thesis using assms(2) unfolding it
    by (subst conf_lines.simps) (simp only: r if_False not_le[symmetric] Let_def prod.case option.case
        simp_thms if_True append_is_Nil_conv)
qed

lemma conf_lines_items:
  "\<lbrakk>list_all item_fits new; length a + length new \<le> sz; length new \<le> length b\<rbrakk> \<Longrightarrow>
   conf_lines sz (length a) (a @ b) (concat (map conf_line new)) = (1, length a + length new, a @ new @ drop (length new) b)"
proof (induction new arbitrary: a b)
  case Nil
  then show ?case by (subst conf_lines.simps) simp
next
  case (Cons it new)
  obtain x b' where b: "b = x # b'" using Cons.prems(3) by (cases b) auto
  have "conf_lines sz (length a) (a @ b) (concat (map conf_line (it # new)))
      = conf_lines sz (length (a @ [it])) ((a @ [it]) @ b') (concat (map conf_line new))"
    using conf_lines_item[of it "length a" sz "a @ b" "concat (map conf_line new)"] Cons.prems by (simp add: b)
  also have "\<dots> = (1, length (a @ [it]) + length new, (a @ [it]) @ new @ drop (length new) b')"
    using Cons.prems by (intro Cons.IH) (simp_all add: b)
  finally show ?case by (simp add: b)
qed

lemma one_word_fits: "item_fits it \<Longrightarrow> one_word (fst it)"
proof -
  assume "item_fits it"
  then have n: "fst it \<noteq> []" "\<forall>c \<in> set (fst it). \<not> isspace c" by (auto simp: item_fits_def name_ok_def list_all_iff)
  then have d: "dropWhile isspace (fst it) = fst it" by (cases "fst it") auto
  have tw: "takeWhile (\<lambda>c. \<not> isspace c) (fst it) = fst it" "dropWhile (\<lambda>c. \<not> isspace c) (fst it) = []"
    using n(2) by (simp_all add: takeWhile_eq_all_conv dropWhile_eq_Nil_conv)
  show ?thesis using n(1) by (simp add: one_word_def scan_word_def d Let_def tw)
qed

definition conf_inv :: "ul_confdata_t \<Rightarrow> bool" where
  "conf_inv c \<longleftrightarrow> length (item c) = csize c \<and> num c \<le> csize c"

definition items :: "ul_confdata_t \<Rightarrow> (cstr \<times> cstr) list" where
  "items c = take (num c) (item c)"

text \<open>C13: what \<open>ul_writeconf\<close> writes, \<open>ul_readconf\<close> reads back: when the names are words and the values have no
  blanks at their ends, fit in a line and hold no line end, both functions return 1, and the items come back in
  their order into any table that has room for them.\<close>

theorem conf_roundtrip:
  assumes "conf_inv c" and "num c \<noteq> 0" and "list_all item_fits (items c)" and "open_ok (conf_path w f)"
    and "conf_inv d" and "num c \<le> csize d"
  shows "\<exists>fs' d'. ul_writeconf open_ok fs (Some w) (Some f) (Some c) = (1, fs')
    \<and> ul_readconf fs' (Some w) (Some f) (Some d) = (1, Some d') \<and> items d' = items c \<and> conf_inv d'"
proof -
  let ?text = "concat (map conf_line (items c))"
  let ?fs = "fs(conf_path w f \<mapsto> ?text)"
  have fl: "filter (\<lambda>it. one_word (fst it)) (items c) = items c"
    using assms(3) one_word_fits by (auto simp: list_all_iff)
  then have wr: "ul_writeconf open_ok fs (Some w) (Some f) (Some c) = (1, ?fs)"
    using assms(1,2,4) by (simp add: ul_writeconf_def conf_inv_def items_def)
  have l: "length (items c) = num c" using assms(1) by (simp add: items_def conf_inv_def)
  have "conf_lines (csize d) 0 (item d) ?text = (1, num c, items c @ drop (num c) (item d))"
    using conf_lines_items[OF assms(3), of "[]" "csize d" "item d"] l assms(5,6) by (simp add: conf_inv_def)
  then have "ul_readconf ?fs (Some w) (Some f) (Some d)
      = (1, Some (d\<lparr>num := num c, item := items c @ drop (num c) (item d)\<rparr>))"
    by (simp add: ul_readconf_def ul_readconf_no_dir_def readconf_no_dir_def)
  moreover have "items (d\<lparr>num := num c, item := items c @ drop (num c) (item d)\<rparr>) = items c"
    using l by (simp add: items_def[of "_\<lparr>item := _\<rparr>"])
  moreover have "conf_inv (d\<lparr>num := num c, item := items c @ drop (num c) (item d)\<rparr>)"
    using l assms(5,6) by (simp add: conf_inv_def)
  ultimately show ?thesis using wr by blast
qed

definition sample_conf :: ul_confdata_t where
  "sample_conf = \<lparr>num = 2, csize = 3, item = [(''port'', ''80''), (''dir'', ''/a b''), ([], [])]\<rparr>"

lemma sample_conf_facts:
  "conf_inv sample_conf" "num sample_conf = 2" "csize sample_conf = 3" "items sample_conf = [(''port'', ''80''), (''dir'', ''/a b'')]"
  by (simp_all add: sample_conf_def conf_inv_def items_def)

lemma sample_conf_fits: "list_all item_fits (items sample_conf)"
proof -
  have "name_ok ''port''" "name_ok ''dir''" "value_ok ''80''" "value_ok ''/a b''"
    by (simp_all add: name_ok_def value_ok_def WORD_SIZE_def)
  then show ?thesis
    by (simp add: sample_conf_facts item_fits_def conf_line_def LINE_SIZE_def isspace_def)
qed

theorem conf_roundtrip_witness:
  "\<exists>fs' d'. ul_writeconf (\<lambda>_. True) Map.empty (Some ''conf'') (Some ''x'') (Some sample_conf) = (1, fs')
    \<and> ul_readconf fs' (Some ''conf'') (Some ''x'') (Some sample_conf) = (1, Some d')
    \<and> items d' = [(''port'', ''80''), (''dir'', ''/a b'')] \<and> conf_inv d'"
  using conf_roundtrip[of sample_conf "\<lambda>_. True" "''conf''" "''x''" sample_conf Map.empty]
    sample_conf_facts sample_conf_fits by simp

section \<open>Numbers come back\<close>

lemma dec_nat_hd: "0 < n \<Longrightarrow> hd (dec_nat n) \<noteq> CHR ''0''"
proof (induction n rule: dec_nat.induct)
  case (1 n)
  show ?case
  proof (cases "n < 10")
    case True
    have "char_of (48 + n) \<noteq> (CHR ''0'' :: char)"
    proof
      assume "char_of (48 + n) = (CHR ''0'' :: char)"
      then have "of_char (char_of (48 + n) :: char) = (48 :: nat)" by simp
      then show False using True 1(2) by (simp add: of_char_of)
    qed
    then show ?thesis using True by (subst dec_nat.simps) simp
  next
    case False
    then show ?thesis using 1(1) by (subst dec_nat.simps) simp
  qed
qed

lemma dec_nat_zero: "dec_nat 0 = ''0''"
  by code_simp

lemma dec_nat_not_zero: "0 < n \<Longrightarrow> dec_nat n \<noteq> ''0''"
  using dec_nat_hd[of n] by auto

lemma scan_int_dec_nat: "scan_int (dec_nat k) = Some (int k, [])"
proof -
  obtain c cs where c: "dec_nat k = c # cs" using dec_nat_nonempty by (cases "dec_nat k") auto
  then have "\<not> isspace c" using dec_nat_isdigit[of k] by (auto dest: isdigit_not_special)
  then have "scan_int (dec_nat k) = scan_int (CHR '' '' # dec_nat k @ [])" by (simp add: scan_int_def c)
  then show ?thesis using scan_int_dec[of "[]" k] by simp
qed

lemma scan_int_dec_int: "scan_int (dec_int k) = Some (k, [])"
proof (cases "k < 0")
  case True
  let ?n = "nat (- k)"
  have tw: "takeWhile isdigit (dec_nat ?n) = dec_nat ?n" "dropWhile isdigit (dec_nat ?n) = []"
    using dec_nat_isdigit[of ?n] by (simp_all add: takeWhile_eq_all_conv dropWhile_eq_Nil_conv)
  have "\<not> isspace CHR ''-''" by (simp add: isspace_def)
  then show ?thesis using True by (simp add: dec_int_def scan_int_def Let_def tw)
next
  case False
  then show ?thesis using scan_int_dec_nat[of "nat k"] by (simp add: dec_int_def)
qed

lemma dec_int_text:
  assumes "k \<noteq> 0"
  shows "dec_int k \<noteq> ''0''" and "dec_int k \<noteq> []" and "hd (dec_int k) \<noteq> CHR ''0''"
proof -
  show h: "hd (dec_int k) \<noteq> CHR ''0''" using assms dec_nat_hd[of "nat k"] by (simp add: dec_int_def)
  show "dec_int k \<noteq> []" by (simp add: dec_int_def)
  show "dec_int k \<noteq> ''0''" using h by auto
qed

lemma read_signed_dec: "- (2 ^ (w - 1)) \<le> k \<Longrightarrow> k < 2 ^ (w - 1) \<Longrightarrow> read_signed w (dec_int k) = Some (1, Some k)"
proof (cases "k = 0")
  case True
  then show ?thesis by (simp add: read_signed_def dec_int_def dec_nat_zero)
next
  case False
  assume "- (2 ^ (w - 1)) \<le> k" "k < 2 ^ (w - 1)"
  then show ?thesis using dec_int_text[OF False] scan_int_dec_int[of k] by (simp add: read_signed_def)
qed

lemma digit_of_digit: "isdigit c \<Longrightarrow> digit_of c < 10 \<and> digit_of c = digit_val c"
  by (auto simp: isdigit_def digit_of_def digit_val_def Let_def)

lemma based_val_digits: "\<forall>c \<in> set s. isdigit c \<Longrightarrow> based_val 10 v s = digits_val v s"
  by (induction s arbitrary: v) (auto simp: digit_of_digit)

lemma scan_based_dec: "scan_based 10 (dec_nat k) = Some (False, k)"
proof -
  obtain c cs where c: "dec_nat k = c # cs" using dec_nat_nonempty by (cases "dec_nat k") auto
  then have sp: "\<not> isspace c" "c \<noteq> CHR ''-''" "c \<noteq> CHR ''+''"
    using dec_nat_isdigit[of k] by (auto dest: isdigit_not_special)
  have tw: "takeWhile (\<lambda>c. digit_of c < 10) (dec_nat k) = dec_nat k"
    unfolding takeWhile_eq_all_conv using dec_nat_isdigit[of k] digit_of_digit by blast
  have "dropWhile isspace (dec_nat k) = dec_nat k" "hd (dec_nat k) = c" using sp by (simp_all add: c)
  then show ?thesis
    using sp based_val_digits[OF dec_nat_isdigit[of k], of 0] by (simp add: scan_based_def Let_def tw)
qed

lemma read_unsigned_dec: "0 \<le> k \<Longrightarrow> k < 2 ^ w \<Longrightarrow> read_unsigned w (dec_int k) = Some (1, Some k)"
proof (cases "k = 0")
  case True
  then show ?thesis by (simp add: read_unsigned_def dec_int_def dec_nat_zero)
next
  case False
  assume k: "0 \<le> k" "k < 2 ^ w"
  then have "scan_based 10 (dec_int k) = Some (False, nat k)" by (simp add: dec_int_def scan_based_dec)
  moreover have "\<not> 2 ^ w \<le> nat k" using k by (simp add: nat_le_iff le_nat_iff)
  ultimately show ?thesis
    using dec_int_text[OF False] k by (simp add: read_unsigned_def to_unsigned_def)
qed

lemma find_item_Some:
  "find_item its n nm = Some i \<longleftrightarrow> i < n \<and> i < length its \<and> fst (its ! i) = nm \<and> (\<forall>j<i. fst (its ! j) \<noteq> nm)"
proof (induction its n nm arbitrary: i rule: find_item.induct)
  case (3 it its n nm)
  then show ?case by (cases i) (auto simp: less_Suc_eq_0_disj)
qed auto

lemma find_item_None: "n \<le> length its \<Longrightarrow> find_item its n nm = None \<longleftrightarrow> (\<forall>j<n. fst (its ! j) \<noteq> nm)"
proof (induction its n nm rule: find_item.induct)
  case (3 it its n nm)
  then show ?case by (auto simp: less_Suc_eq_0_disj)
qed auto

lemma find_item_stays:
  assumes "find_item its n nm = Some i" and "n \<le> n'" and "take n its' = take n its" and "length its \<le> length its'"
  shows "find_item its' n' nm = Some i \<and> its' ! i = its ! i"
proof -
  have i: "i < n" "i < length its" "fst (its ! i) = nm" "\<forall>j<i. fst (its ! j) \<noteq> nm"
    using assms(1) by (auto simp: find_item_Some)
  have same: "its' ! j = its ! j" if "j < n" for j using assms(3) that by (metis nth_take)
  then show ?thesis using i assms(2,4) by (auto simp: find_item_Some)
qed

lemma length_dec_int: "- (2 ^ 64) < k \<Longrightarrow> k < 2 ^ 64 \<Longrightarrow> length (dec_int k) < WORD_SIZE"
proof -
  assume "- (2 ^ 64) < k" "k < 2 ^ 64"
  then have "nat k < 10 ^ 20" "nat (- k) < 10 ^ 20" by simp_all
  then have "length (dec_nat (nat k)) \<le> 20" "length (dec_nat (nat (- k))) \<le> 20" by (simp_all add: length_dec_nat_le)
  then show ?thesis by (simp add: dec_int_def WORD_SIZE_def)
qed

lemma addconf_number:
  assumes "conf_inv c" and "num c < csize c" and "length nm < WORD_SIZE" and "find_item (item c) (num c) nm = None"
    and "value_text val = dec_int k" and "- (2 ^ 64) < k" and "k < 2 ^ 64" and "\<forall>v. val \<noteq> ULTYPE_STRING v"
  shows "\<exists>d. addconf (Some c) (Some nm) (Some val) = (1, Some d) \<and> conf_inv d \<and> items d = items c @ [(nm, dec_int k)]
    \<and> conf_word (Some d) (Some nm) = Some (dec_int k)"
proof -
  let ?n = "num c"
  let ?its = "(item c)[?n := (nm, dec_int k)]"
  let ?d = "c\<lparr>item := ?its, num := ?n + 1\<rparr>"
  have l: "?n < length (item c)" using assms(1,2) by (simp add: conf_inv_def)
  have short: "snprintf_buf WORD_SIZE (dec_int k) = dec_int k" using length_dec_int[OF assms(6,7)] by simp
  have add: "addconf (Some c) (Some nm) (Some val) = (1, Some ?d)"
    using assms(2-5,8) l short by (cases val) (simp_all add: addconf_def set_value_def Let_def)
  have "find_item ?its (?n + 1) nm = Some ?n"
    using assms(4) l by (auto simp: find_item_Some find_item_None[OF less_imp_le] nth_list_update)
  then have "conf_word (Some ?d) (Some nm) = Some (dec_int k)" using l short by (simp add: conf_word_def)
  moreover have "items ?d = items c @ [(nm, dec_int k)]" using l by (simp add: items_def take_Suc_conv_app_nth)
  moreover have "conf_inv ?d" using assms(1,2) by (simp add: conf_inv_def)
  ultimately show ?thesis using add by blast
qed

text \<open>A number added under a new name is what the accessor of the same type returns: for every \<open>int\<close>, \<open>u_int\<close>,
  \<open>long long\<close> and \<open>unsigned long long\<close>, also negative ones and the ends of the ranges.\<close>

theorem conf_numbers_roundtrip:
  assumes "conf_inv c" and "num c < csize c" and "length nm < WORD_SIZE" and "find_item (item c) (num c) nm = None"
    and "- (2 ^ 31) \<le> i" and "i < 2 ^ 31" and "0 \<le> u" and "u < 2 ^ 32"
    and "- (2 ^ 63) \<le> l" and "l < 2 ^ 63" and "0 \<le> v" and "v < 2 ^ 64"
  shows "(\<exists>d. ul_addconfint (Some c) (Some nm) i = (1, d) \<and> ul_getconfint d (Some nm) = Some (1, Some i))
    \<and> (\<exists>d. ul_addconfuint (Some c) (Some nm) u = (1, d) \<and> ul_getconfuint d (Some nm) = Some (1, Some u))
    \<and> (\<exists>d. ul_addconfint64 (Some c) (Some nm) l = (1, d) \<and> ul_getconfint64 d (Some nm) = Some (1, Some l))
    \<and> (\<exists>d. ul_addconfuint64 (Some c) (Some nm) v = (1, d) \<and> ul_getconfuint64 d (Some nm) = Some (1, Some v))"
proof -
  note add = addconf_number[OF assms(1-4)]
  have "\<exists>d. ul_addconfint (Some c) (Some nm) i = (1, d) \<and> ul_getconfint d (Some nm) = Some (1, Some i)"
    using add[of "ULTYPE_INT i" i] assms(5,6) read_signed_dec[of 32 i] by (auto simp: ul_addconfint_def ul_getconfint_def)
  moreover have "\<exists>d. ul_addconfuint (Some c) (Some nm) u = (1, d) \<and> ul_getconfuint d (Some nm) = Some (1, Some u)"
    using add[of "ULTYPE_UINT u" u] assms(7,8) read_unsigned_dec[of u 32] by (auto simp: ul_addconfuint_def ul_getconfuint_def)
  moreover have "\<exists>d. ul_addconfint64 (Some c) (Some nm) l = (1, d) \<and> ul_getconfint64 d (Some nm) = Some (1, Some l)"
    using add[of "ULTYPE_INT64 l" l] assms(9,10) read_signed_dec[of 64 l]
    by (auto simp: ul_addconfint64_def ul_getconfint64_def)
  moreover have "\<exists>d. ul_addconfuint64 (Some c) (Some nm) v = (1, d) \<and> ul_getconfuint64 d (Some nm) = Some (1, Some v)"
    using add[of "ULTYPE_UINT64 v" v] assms(11,12) read_unsigned_dec[of v 64]
    by (auto simp: ul_addconfuint64_def ul_getconfuint64_def)
  ultimately show ?thesis by blast
qed

theorem conf_numbers_roundtrip_witness:
  "\<exists>d. ul_addconfint (Some sample_conf) (Some ''n'') (- 2147483648) = (1, d)
     \<and> ul_getconfint d (Some ''n'') = Some (1, Some (- 2147483648))"
proof -
  have "find_item (item sample_conf) (num sample_conf) ''n'' = None" by code_simp
  then show ?thesis
    using conf_numbers_roundtrip[of sample_conf "''n''" "- 2147483648" 7 "- 9" 11] sample_conf_facts
    by (simp add: WORD_SIZE_def)
qed

end
