(* ===== verification/Ul_Chunk.thy ===== *)
theory Ul_Chunk
  imports Ul_Pack Ul_Conf Ul_String
begin

text \<open>
  The two decoders of a page in chunks, \<open>chunkpage\<close> and \<open>chunkpage_new\<close>, and the search for the link of a
  \<^verbatim>\<open>meta\<close> tag, \<open>isconredir\<close>, of \<^verbatim>\<open>ullib/src/dep/dep_http.cpp\<close>.

  The memory that \<open>page\<close> points to is a list of bytes, a pointer into it an offset. A call that reads a string with no
  terminator, or reads or writes outside a block, has no result. The loop of the decoders is a partial function, so that
  a loop that does not end has none either.
\<close>

section \<open>The decoders\<close>

definition MAXPAGE :: int where "MAXPAGE = 256000"

definition scan_hex :: "cstr \<Rightarrow> int option" where
  \<comment> \<open>the conversion \<open>%x\<close> of sscanf into an \<open>int\<close>: \<open>strtoul\<close>, which saturates at 64 bits, and the low 32 bits\<close>
  "scan_hex s =
     map_option (\<lambda>(neg, v). to_int32 (if 2 ^ 64 \<le> v then 2 ^ 64 - 1 else if neg then - int v else int v)) (scan_based 16 s)"

partial_function (option) chunk_loop ::
  "nat \<Rightarrow> int \<Rightarrow> char list \<Rightarrow> nat \<Rightarrow> char list \<Rightarrow> int \<Rightarrow> (char list \<times> char list) option" where
  \<comment> \<open>\<open>while (chunksize > 0)\<close>: \<open>out\<close> is what was copied to \<open>tpage\<close>, of \<open>room\<close> bytes, \<open>old\<close> is \<open>oldpagesize\<close>\<close>
  "chunk_loop room old mem p out chunksize =
     (if chunksize \<le> 0 then Some (mem, out)
      else if int p + 2 + chunksize < old then
        (let out' = out @ take (nat chunksize) (drop (p + 2) mem); tmps = p + 2 + nat chunksize + 2 in
         if length mem < p + 2 + nat chunksize \<or> room < length out' then None
         else if int tmps < old then
           (case str_at mem tmps of
              None \<Rightarrow> None
            | Some s \<Rightarrow>
                (case strstr s CRLF of
                   None \<Rightarrow> Some (mem, out')
                 | Some i \<Rightarrow>
                     (case scan_hex (take i s) of
                        None \<Rightarrow> Some (mem[tmps + i := NUL], out')
                      | Some chunksize' \<Rightarrow> chunk_loop room old (mem[tmps + i := NUL]) (tmps + i) out' chunksize')))
         else Some (mem, out'))
      else if old < int p + 2 \<or> int (length mem) < old \<or> int room < int (length out) + (old - (int p + 2)) then None
      else Some (mem, out @ take (nat (old - (int p + 2))) (drop (p + 2) mem)))"

definition chunk_body :: "nat \<Rightarrow> char list \<Rightarrow> int \<Rightarrow> (int \<times> char list) option" where
  \<comment> \<open>from \<open>tmps = page\<close> on\<close>
  "chunk_body room mem pagesize =
     (case str_at mem 0 of
        None \<Rightarrow> None
      | Some s \<Rightarrow>
          (case scan_hex s of
             None \<Rightarrow> Some (pagesize, mem)
           | Some chunksize \<Rightarrow>
               (case strstr s CRLF of
                  None \<Rightarrow> Some (pagesize, mem)
                | Some i \<Rightarrow>
                    (case chunk_loop room pagesize (mem[i := NUL]) i [] chunksize of
                       None \<Rightarrow> None
                     | Some (mem', out) \<Rightarrow>
                         if length out < length mem' then Some (int (length out), out @ NUL # drop (Suc (length out)) mem')
                         else None))))"

definition chunkpage :: "char list \<Rightarrow> int \<Rightarrow> (int \<times> char list) option" where
  "chunkpage page pagesize = (if MAXPAGE \<le> pagesize then Some (0, page) else chunk_body (nat MAXPAGE) page pagesize)"

definition chunkpage_new :: "(int \<Rightarrow> bool) \<Rightarrow> char list \<Rightarrow> int \<Rightarrow> (int \<times> char list) option" where
  \<comment> \<open>\<open>calloc_ok\<close> tells which sizes \<open>calloc\<close> gives a block for\<close>
  "chunkpage_new calloc_ok page pagesize =
     (if calloc_ok (pagesize * 2) then chunk_body (nat (pagesize * 2)) page pagesize else Some (pagesize, page))"

declare chunk_loop.simps [code]

section \<open>Staying inside the page\<close>

lemma strstr_bound: "strstr s t = Some i \<Longrightarrow> i + length t \<le> length s"
proof (induction s arbitrary: i)
  case (Cons c s)
  then show ?case by (auto split: if_splits dest: prefix_length_le)
qed (simp split: if_splits)

lemma str_at_Some:
  assumes "k \<le> n" and "n < length mem" and "mem ! n = NUL"
  shows "\<exists>s. str_at mem k = Some s \<and> k + length s \<le> n"
proof -
  define t where "t = drop k mem"
  have n: "n - k < length t" "t ! (n - k) = NUL" using assms by (simp_all add: t_def)
  then have "NUL \<in> set t" by (metis nth_mem)
  moreover have "length (takeWhile (\<lambda>c. c \<noteq> NUL) t) \<le> n - k"
  proof (rule ccontr)
    assume "\<not> ?thesis"
    then have l: "n - k < length (takeWhile (\<lambda>c. c \<noteq> NUL) t)" by simp
    then have "t ! (n - k) \<in> set (takeWhile (\<lambda>c. c \<noteq> NUL) t)" using takeWhile_nth[OF l] nth_mem[OF l] by simp
    then show False using n(2) by (blast dest: set_takeWhileD)
  qed
  ultimately show ?thesis using assms(1) by (simp add: str_at_def t_def[symmetric])
qed

definition page_room :: "nat \<Rightarrow> nat \<Rightarrow> char list \<Rightarrow> nat \<Rightarrow> char list \<Rightarrow> bool" where
  \<comment> \<open>at the head of the loop: the page of \<open>old\<close> bytes has its terminator, a line feed within it follows \<open>p\<close>, what was
      copied lies in front of \<open>p\<close>, and \<open>tpage\<close> holds \<open>old\<close> bytes\<close>
  "page_room room old mem p out \<longleftrightarrow>
     old < length mem \<and> mem ! old = NUL \<and> p + 2 \<le> old \<and> length out \<le> p + 2 \<and> old \<le> room"

lemma chunk_loop_step:
  assumes "0 < cs" and "int p + 2 + cs < int old" and "tmps = p + 2 + nat cs + 2" and "tmps < old"
    and "out' = out @ take (nat cs) (drop (p + 2) mem)" and "p + 2 + nat cs \<le> length mem" and "length out' \<le> room"
    and "str_at mem tmps = Some s"
  shows "chunk_loop room (int old) mem p out cs = (case strstr s CRLF of None \<Rightarrow> Some (mem, out')
    | Some i \<Rightarrow> (case scan_hex (take i s) of None \<Rightarrow> Some (mem[tmps + i := NUL], out')
      | Some cs' \<Rightarrow> chunk_loop room (int old) (mem[tmps + i := NUL]) (tmps + i) out' cs'))"
proof -
  have "\<not> cs \<le> 0" "int tmps < int old" "\<not> (length mem < p + 2 + nat cs \<or> room < length out')" using assms by auto
  then show ?thesis using assms(2,8)
    by (subst chunk_loop.simps) (simp only: Let_def assms(3)[symmetric] assms(5)[symmetric] if_False if_True option.simps)
qed

lemma chunk_loop_safe:
  assumes "page_room room old mem p out"
  shows "\<exists>mem' out'. chunk_loop room (int old) mem p out cs = Some (mem', out') \<and> length out' \<le> old
    \<and> length mem' = length mem \<and> drop old mem' = drop old mem"
  using assms
proof (induction "old - p" arbitrary: mem p out cs rule: less_induct)
  case less
  note inv = less.prems[unfolded page_room_def]
  let ?out = "out @ take (nat cs) (drop (p + 2) mem)" and ?t = "p + 2 + nat cs + 2"
  consider (zero) "cs \<le> 0" | (last) "0 < cs" "\<not> int p + 2 + cs < int old" | (fits) "0 < cs" "int p + 2 + cs < int old" by linarith
  then show ?case
  proof cases
    case zero
    then show ?thesis using inv by (subst chunk_loop.simps) simp
  next
    case last
    then show ?thesis using inv by (subst chunk_loop.simps) (auto simp: nat_diff_distrib')
  next
    case fits
    have lo: "length ?out \<le> p + 2 + nat cs" "p + 2 + nat cs < old" using inv fits by auto
    show ?thesis
    proof (cases "?t < old")
      case False
      then show ?thesis using inv lo fits by (subst chunk_loop.simps) (auto simp: Let_def)
    next
      case True
      obtain s where s: "str_at mem ?t = Some s" "?t + length s \<le> old"
        using str_at_Some[of ?t old mem] True inv by auto
      note unfold_loop = chunk_loop_step[OF fits refl True refl _ _ s(1), of out room]
      have g: "p + 2 + nat cs \<le> length mem" "length ?out \<le> room" using inv lo by auto
      note unfold_loop = unfold_loop[OF g]
      show ?thesis
      proof (cases "strstr s CRLF")
        case None
        then show ?thesis using unfold_loop lo by simp
      next
        case (Some i)
        have i: "?t + i + 2 \<le> old" using strstr_bound[OF Some] s(2) by simp
        have "page_room room old (mem[?t + i := NUL]) (?t + i) ?out"
          using inv lo i by (simp add: page_room_def)
        moreover have "old - (?t + i) < old - p" using i by simp
        moreover have "drop old (mem[?t + i := NUL]) = drop old mem" using i by (simp add: drop_update_cancel)
        ultimately show ?thesis
          using less.hyps[of "?t + i" "mem[?t + i := NUL]" ?out] unfold_loop Some lo by (auto split: option.splits)
      qed
    qed
  qed
qed

definition chunk_page :: "char list \<Rightarrow> int \<Rightarrow> bool" where
  \<comment> \<open>a page of \<open>n\<close> bytes with its terminator\<close>
  "chunk_page page n \<longleftrightarrow> 0 \<le> n \<and> n < int (length page) \<and> page ! nat n = NUL"

lemma chunk_body_safe:
  assumes "chunk_page page pagesize" and "pagesize \<le> int room"
  shows "\<exists>n page'. chunk_body room page pagesize = Some (n, page') \<and> n \<le> pagesize \<and> chunk_page page' n
    \<and> length page' = length page \<and> drop (Suc (nat pagesize)) page' = drop (Suc (nat pagesize)) page"
proof -
  obtain old where old: "pagesize = int old" "old < length page" "page ! old = NUL" "old \<le> room"
    using assms by (auto simp: chunk_page_def elim!: nonneg_int_cases)
  obtain s where s: "str_at page 0 = Some s" "length s \<le> old" using str_at_Some[of 0 old page] old by auto
  show ?thesis
  proof (cases "scan_hex s = None \<or> strstr s CRLF = None")
    case True
    then show ?thesis using s(1) assms(1) by (cases "scan_hex s") (auto simp: chunk_body_def)
  next
    case False
    then obtain cs i where i: "scan_hex s = Some cs" "strstr s CRLF = Some i" by auto
    have b: "i + 2 \<le> old" using strstr_bound[OF i(2)] s(2) by simp
    then have "page_room room old (page[i := NUL]) i []" using old by (simp add: page_room_def)
    from chunk_loop_safe[OF this, of cs] obtain mem out where l: "chunk_loop room (int old) (page[i := NUL]) i [] cs = Some (mem, out)"
      "length out \<le> old" "length mem = length page" "drop old mem = drop old page"
      using b by (auto simp: drop_update_cancel)
    have "drop (Suc old) mem = drop (Suc old) page" using l(4) by (metis drop_drop add.commute plus_1_eq_Suc)
    then have "drop (Suc old) (out @ NUL # drop (Suc (length out)) mem) = drop (Suc old) page" using l(2) by (simp add: Suc_diff_le)
    then show ?thesis using s(1) i l old by (auto simp: chunk_body_def chunk_page_def nth_append)
  qed
qed

lemma chunkpage_safe:
  assumes "chunk_page page pagesize" and "pagesize < MAXPAGE"
  shows "\<exists>n page'. chunkpage page pagesize = Some (n, page') \<and> n \<le> pagesize \<and> chunk_page page' n
    \<and> length page' = length page \<and> drop (Suc (nat pagesize)) page' = drop (Suc (nat pagesize)) page"
proof -
  have "pagesize \<le> int (nat MAXPAGE)" using assms(2) by (simp add: MAXPAGE_def)
  then show ?thesis using chunk_body_safe[OF assms(1)] assms(2) by (auto simp: chunkpage_def)
qed

text \<open>C29: on every page of less than MAXPAGE bytes with its terminator, chunkpage returns: the loop ends whatever the
  sizes in the page say, negative and huge ones included, no byte outside the page is read and none behind its
  terminator is written, and the result is a page no longer than before with a terminator behind it.\<close>

theorem chunkpage_returns:
  assumes "chunk_page page pagesize" and "pagesize < MAXPAGE"
  shows "\<exists>n page'. chunkpage page pagesize = Some (n, page') \<and> n \<le> pagesize \<and> chunk_page page' n
    \<and> length page' = length page \<and> drop (Suc (nat pagesize)) page' = drop (Suc (nat pagesize)) page"
  using assms by (rule chunkpage_safe)

theorem chunkpage_returns_witness:
  "\<exists>n page'. chunkpage (''FFFFFFFF'' @ CRLF @ [NUL]) 10 = Some (n, page') \<and> n \<le> 10 \<and> chunk_page page' n
    \<and> length page' = 11 \<and> drop (Suc (nat 10)) page' = []"
  using chunkpage_returns[of "''FFFFFFFF'' @ CRLF @ [NUL]" 10] by (simp add: chunk_page_def MAXPAGE_def eval_nat_numeral)

text \<open>On a page with its terminator the two decoders do the same: the bound that each puts on its own copy is never
  met.\<close>

lemma chunk_loop_room:
  assumes "page_room r1 old mem p out" and "page_room r2 old mem p out"
  shows "chunk_loop r1 (int old) mem p out cs = chunk_loop r2 (int old) mem p out cs"
  using assms
proof (induction "old - p" arbitrary: mem p out cs rule: less_induct)
  case less
  note inv = less.prems[unfolded page_room_def]
  let ?out = "out @ take (nat cs) (drop (p + 2) mem)" and ?t = "p + 2 + nat cs + 2"
  consider (zero) "cs \<le> 0" | (last) "0 < cs" "\<not> int p + 2 + cs < int old" | (fits) "0 < cs" "int p + 2 + cs < int old" by linarith
  then show ?case
  proof cases
    case zero
    then show ?thesis by (simp add: chunk_loop.simps)
  next
    case last
    then show ?thesis using inv by (subst (1 2) chunk_loop.simps) auto
  next
    case fits
    have lo: "length ?out \<le> p + 2 + nat cs" "p + 2 + nat cs < old" using inv fits by auto
    show ?thesis
    proof (cases "?t < old")
      case False
      then show ?thesis using inv lo fits by (subst (1 2) chunk_loop.simps) (auto simp: Let_def)
    next
      case True
      obtain s where s: "str_at mem ?t = Some s" "?t + length s \<le> old" using str_at_Some[of ?t old mem] True inv by auto
      have g: "p + 2 + nat cs \<le> length mem" "length ?out \<le> r1" "length ?out \<le> r2" using inv lo by auto
      note step = chunk_loop_step[OF fits refl True refl g(1) g(2) s(1)] chunk_loop_step[OF fits refl True refl g(1) g(3) s(1)]
      have "chunk_loop r1 (int old) (mem[?t + i := NUL]) (?t + i) ?out cs' = chunk_loop r2 (int old) (mem[?t + i := NUL]) (?t + i) ?out cs'"
        if "strstr s CRLF = Some i" for i cs'
      proof -
        have i: "?t + i + 2 \<le> old" using strstr_bound[OF that] s(2) by simp
        then have "page_room r1 old (mem[?t + i := NUL]) (?t + i) ?out" "page_room r2 old (mem[?t + i := NUL]) (?t + i) ?out"
          using inv lo by (simp_all add: page_room_def)
        moreover have "old - (?t + i) < old - p" using i by simp
        ultimately show ?thesis using less.hyps by blast
      qed
      then show ?thesis using step by (simp split: option.splits)
    qed
  qed
qed

lemma chunk_body_room:
  assumes "chunk_page page pagesize" and "pagesize \<le> int r1" and "pagesize \<le> int r2"
  shows "chunk_body r1 page pagesize = chunk_body r2 page pagesize"
proof -
  obtain old where old: "pagesize = int old" "old < length page" "page ! old = NUL" "old \<le> r1" "old \<le> r2"
    using assms by (auto simp: chunk_page_def elim!: nonneg_int_cases)
  obtain s where s: "str_at page 0 = Some s" "length s \<le> old" using str_at_Some[of 0 old page] old by auto
  have "chunk_loop r1 (int old) (page[i := NUL]) i [] cs = chunk_loop r2 (int old) (page[i := NUL]) i [] cs"
    if "strstr s CRLF = Some i" for i cs
  proof -
    have "i + 2 \<le> old" using strstr_bound[OF that] s(2) by simp
    then show ?thesis using old by (intro chunk_loop_room) (simp_all add: page_room_def)
  qed
  then show ?thesis using s(1) old(1) by (simp add: chunk_body_def split: option.splits)
qed

theorem chunkpage_new_same:
  assumes "chunk_page page pagesize" and "pagesize < MAXPAGE" and "calloc_ok (pagesize * 2)"
  shows "chunkpage_new calloc_ok page pagesize = chunkpage page pagesize"
proof -
  have "pagesize \<le> int (nat MAXPAGE)" "pagesize \<le> int (nat (pagesize * 2))" using assms(1,2) by (simp_all add: chunk_page_def MAXPAGE_def)
  from chunk_body_room[OF assms(1) this] show ?thesis using assms(2,3) by (simp add: chunkpage_def chunkpage_new_def)
qed

section \<open>Decoding what was encoded\<close>

definition hex_digit :: "nat \<Rightarrow> char" where
  "hex_digit n = char_of (if n < 10 then 48 + n else 87 + n)"

fun hex_nat :: "nat \<Rightarrow> cstr" where
  "hex_nat n = (if n < 16 then [hex_digit n] else hex_nat (n div 16) @ [hex_digit (n mod 16)])"

declare hex_nat.simps [simp del]

definition chunk_line :: "cstr \<Rightarrow> nat \<Rightarrow> cstr" where
  \<comment> \<open>the line in front of \<open>n\<close> bytes, with an extension \<open>ext\<close>\<close>
  "chunk_line ext n = hex_nat n @ ext @ CRLF"

definition ext_ok :: "cstr \<Rightarrow> bool" where
  "ext_ok ext \<longleftrightarrow> CR \<notin> set ext \<and> NUL \<notin> set ext \<and> (ext \<noteq> [] \<longrightarrow> hd ext = CHR '';'')"

fun chunk_enc :: "(cstr \<times> char list) list \<Rightarrow> char list" where
  \<comment> \<open>the chunks, each a pair of an extension and data, and the last one, which is empty\<close>
  "chunk_enc [] = chunk_line [] 0"
| "chunk_enc ((ext, d) # cs) = chunk_line ext (length d) @ d @ CRLF @ chunk_enc cs"

definition chunks_ok :: "(cstr \<times> char list) list \<Rightarrow> bool" where
  "chunks_ok cs \<longleftrightarrow> list_all (\<lambda>(ext, d). ext_ok ext \<and> d \<noteq> []) cs"

lemma digit_of_hex: "n < 16 \<Longrightarrow> digit_of (hex_digit n) = n"
  by (auto simp: digit_of_def hex_digit_def of_char_of Let_def)

lemma hex_digit_plain:
  assumes "n < 16"
  shows "hex_digit n \<noteq> CR" "hex_digit n \<noteq> NUL" "\<not> isspace (hex_digit n)" "hex_digit n \<noteq> CHR ''-''" "hex_digit n \<noteq> CHR ''+''"
    "hex_digit n \<noteq> CHR ''x''" "hex_digit n \<noteq> CHR ''X''"
  using assms by (auto simp: hex_digit_def isspace_def char_eq_nat of_char_of simp del: of_char_eq_iff)

lemma hex_nat_digits: "set (hex_nat n) \<subseteq> hex_digit ` {..<16}"
proof (induction n rule: hex_nat.induct)
  case (1 n)
  then show ?case by (subst hex_nat.simps) auto
qed

lemma hex_nat_value: "based_val 16 0 (hex_nat n) = n"
proof -
  have app: "based_val b v (s @ t) = based_val b (based_val b v s) t" for b v s t by (induction s arbitrary: v) auto
  show ?thesis
  proof (induction n rule: hex_nat.induct)
    case (1 n)
    then show ?case by (subst hex_nat.simps) (simp add: digit_of_hex app)
  qed
qed

lemma hex_nat_nonempty: "hex_nat n \<noteq> []"
  by (subst hex_nat.simps) simp

lemma hex_nat_plain:
  assumes "x \<in> set (hex_nat n)"
  shows "x \<noteq> CR \<and> x \<noteq> NUL \<and> \<not> isspace x \<and> x \<noteq> CHR ''-'' \<and> x \<noteq> CHR ''+'' \<and> x \<noteq> CHR ''x'' \<and> x \<noteq> CHR ''X'' \<and> digit_of x < 16"
proof -
  obtain d where "x = hex_digit d" "d < 16" using hex_nat_digits[of n] assms by blast
  then show ?thesis using hex_digit_plain[of d] digit_of_hex[of d] by simp
qed

lemma scan_hex_nat:
  assumes "n < 2 ^ 31" and "r = [] \<or> 16 \<le> digit_of (hd r) \<and> hd r \<noteq> CHR ''x'' \<and> hd r \<noteq> CHR ''X''"
  shows "scan_hex (hex_nat n @ r) = Some (int n)"
proof -
  obtain c cs where h: "hex_nat n = c # cs" using hex_nat_nonempty[of n] by (cases "hex_nat n") auto
  note plain = hex_nat_plain[of _ n]
  then have c: "\<not> isspace c" "c \<noteq> CHR ''-''" "c \<noteq> CHR ''+''" by (simp_all add: h)
  have dw: "dropWhile isspace (hex_nat n @ r) = hex_nat n @ r" using c(1) by (simp add: h)
  have tw: "takeWhile (\<lambda>c. digit_of c < 16) (hex_nat n @ r) = hex_nat n"
    using plain assms(2) by (cases r) (auto simp: takeWhile_append2 takeWhile_eq_all_conv)
  have pre: "\<not> prefix [CHR ''0'', x] (hex_nat n @ r)" if x: "x = CHR ''x'' \<or> x = CHR ''X''" for x
  proof (cases cs)
    case Nil
    then show ?thesis using assms(2) x by (cases r) (auto simp: h)
  next
    case (Cons e es)
    then have "e \<noteq> x" using plain[of e] x by (auto simp: h)
    then show ?thesis by (simp add: h Cons)
  qed
  have "hex_nat n @ r \<noteq> []" "hd (hex_nat n @ r) = c" by (simp_all add: h)
  then have "scan_based 16 (hex_nat n @ r) = Some (False, n)"
    using c hex_nat_value[of n] hex_nat_nonempty[of n] pre[of "CHR ''x''"] pre[of "CHR ''X''"]
    by (simp add: scan_based_def Let_def dw tw del: takeWhile_append dropWhile_append prefix_Cons)
  then show ?thesis using assms(1) by (simp add: scan_hex_def to_int32_id)
qed

lemma strstr_crlf_first: "CR \<notin> set s \<Longrightarrow> strstr (s @ CRLF @ r) CRLF = Some (length s)"
  by (induction s) auto

lemma str_at_split: "str_at (a @ s) (length a) = (if NUL \<in> set s then Some (takeWhile (\<lambda>c. c \<noteq> NUL) s) else None)"
  by (simp add: str_at_def Let_def)

lemma chunk_line_at:
  assumes "ext_ok ext" and "n < 2 ^ 31" and "NUL \<in> set r"
  shows "\<exists>t. str_at (a @ chunk_line ext n @ r) (length a) = Some (hex_nat n @ ext @ CRLF @ t)"
    and "scan_hex (hex_nat n @ ext) = Some (int n)" and "scan_hex (hex_nat n @ ext @ CRLF @ t) = Some (int n)"
    and "strstr (hex_nat n @ ext @ CRLF @ t) CRLF = Some (length (hex_nat n @ ext))"
proof -
  have no: "NUL \<notin> set (hex_nat n @ ext @ CRLF)" "CR \<notin> set (hex_nat n @ ext)"
    using assms(1) hex_nat_plain[of CR n] hex_nat_plain[of NUL n] by (auto simp: ext_ok_def)
  then have "takeWhile (\<lambda>c. c \<noteq> NUL) ((hex_nat n @ ext @ CRLF) @ r) = (hex_nat n @ ext @ CRLF) @ takeWhile (\<lambda>c. c \<noteq> NUL) r"
    by (intro takeWhile_append2) auto
  then show "\<exists>t. str_at (a @ chunk_line ext n @ r) (length a) = Some (hex_nat n @ ext @ CRLF @ t)"
    using assms(3) by (auto simp: str_at_split chunk_line_def simp del: takeWhile_append)
  show "scan_hex (hex_nat n @ ext) = Some (int n)" "scan_hex (hex_nat n @ ext @ CRLF @ t) = Some (int n)"
    using assms(1,2) by (intro scan_hex_nat; cases ext; simp add: ext_ok_def digit_of_def)+
  show "strstr (hex_nat n @ ext @ CRLF @ t) CRLF = Some (length (hex_nat n @ ext))"
    using strstr_crlf_first[OF no(2), of t] by simp
qed

lemma chunk_enc_line:
  assumes "chunks_ok cs"
  obtains ext n R where "chunk_enc cs = chunk_line ext n @ R" "ext_ok ext"
    "cs = [] \<and> n = 0 \<and> R = [] \<or> (\<exists>d cs'. cs = (ext, d) # cs' \<and> n = length d \<and> d \<noteq> [] \<and> R = d @ CRLF @ chunk_enc cs' \<and> chunks_ok cs')"
proof (cases cs)
  case Nil
  then show ?thesis using that[of "[]" 0 "[]"] by (simp add: ext_ok_def)
next
  case (Cons ed cs')
  obtain ext d where "ed = (ext, d)" by (cases ed)
  then show ?thesis using that[of ext "length d" "d @ CRLF @ chunk_enc cs'"] assms by (simp add: Cons chunks_ok_def)
qed

lemma chunk_loop_enc:
  assumes "chunks_ok cs" and "d \<noteq> []" and "mem = pre @ NUL # LF # d @ CRLF @ chunk_enc cs @ trailer @ NUL # rest"
    and "old = length (pre @ NUL # LF # d @ CRLF @ chunk_enc cs @ trailer)" and "old < 2 ^ 31"
    and "length out \<le> length pre" and "old \<le> room"
  shows "\<exists>mem'. chunk_loop room (int old) mem (length pre) out (int (length d)) = Some (mem', out @ d @ concat (map snd cs))
    \<and> length mem' = length mem"
  using assms
proof (induction cs arbitrary: pre d mem out)
  case Nil
  let ?a = "pre @ NUL # LF # d @ CRLF"
  have mem: "mem = ?a @ chunk_line [] 0 @ trailer @ NUL # rest" using Nil.prems by simp
  have R: "ext_ok []" "(0::nat) < 2 ^ 31" "NUL \<in> set (trailer @ NUL # rest)" by (simp_all add: ext_ok_def)
  note at = chunk_line_at[OF R]
  obtain t where t: "str_at mem (length ?a) = Some (hex_nat 0 @ [] @ CRLF @ t)" using at(1)[of ?a] by (auto simp: mem)
  have "chunk_loop room (int old) mem (length pre) out (int (length d))
      = chunk_loop room (int old) (mem[length ?a + length (hex_nat 0) := NUL]) (length ?a + length (hex_nat 0)) (out @ d) 0"
    using at(2) at(4)[of t] Nil.prems(2,4-7) mem
    by (subst chunk_loop_step[OF _ _ _ _ _ _ _ t, where out' = "out @ d"]) (simp_all add: ext_ok_def chunk_line_def)
  then show ?case by (simp add: chunk_loop.simps)
next
  case (Cons c cs)
  obtain ext e where c: "c = (ext, e)" by (cases c)
  have ok: "ext_ok ext" "e \<noteq> []" "chunks_ok cs" using Cons.prems(1) by (simp_all add: c chunks_ok_def)
  let ?a = "pre @ NUL # LF # d @ CRLF" and ?R = "e @ CRLF @ chunk_enc cs @ trailer @ NUL # rest"
  let ?h = "hex_nat (length e) @ ext"
  have mem: "mem = ?a @ chunk_line ext (length e) @ ?R" using Cons.prems(3) by (simp add: c)
  have small: "length e < 2 ^ 31" using Cons.prems(4,5) by (simp add: c)
  have R: "NUL \<in> set ?R" by simp
  note at = chunk_line_at[OF ok(1) small R]
  obtain t where t: "str_at mem (length ?a) = Some (hex_nat (length e) @ ext @ CRLF @ t)" using at(1)[of ?a] by (auto simp: mem)
  have "chunk_loop room (int old) mem (length pre) out (int (length d))
      = chunk_loop room (int old) (mem[length ?a + length ?h := NUL]) (length ?a + length ?h) (out @ d) (int (length e))"
    using at(2) at(4)[of t] Cons.prems(2,4-7) mem
    by (subst chunk_loop_step[OF _ _ _ _ _ _ _ t, where out' = "out @ d"]) (simp_all add: c chunk_line_def)
  moreover have m: "mem[length ?a + length ?h := NUL] = (?a @ ?h) @ NUL # LF # ?R"
    unfolding mem by (simp add: chunk_line_def list_update_append)
  moreover have "\<exists>mem'. chunk_loop room (int old) ((?a @ ?h) @ NUL # LF # ?R) (length (?a @ ?h)) (out @ d) (int (length e))
      = Some (mem', (out @ d) @ e @ concat (map snd cs)) \<and> length mem' = length ((?a @ ?h) @ NUL # LF # ?R)"
    by (rule Cons.IH[OF ok(3,2) refl]) (use Cons.prems(4-7) in \<open>simp_all add: c chunk_line_def\<close>)
  moreover have "length ((?a @ ?h) @ NUL # LF # ?R) = length mem" unfolding m[symmetric] by simp
  moreover have "length ?a + length ?h = length (?a @ ?h)" "(out @ d) @ e @ concat (map snd cs) = out @ d @ concat (map snd (c # cs))"
    by (simp_all add: c)
  ultimately show ?case by metis
qed

lemma chunk_body_enc:
  assumes "chunks_ok cs" and "length (chunk_enc cs @ trailer) < 2 ^ 31" and "length (chunk_enc cs @ trailer) \<le> room"
  defines "data \<equiv> concat (map snd cs)"
  shows "\<exists>page'. chunk_body room (chunk_enc cs @ trailer @ NUL # rest) (int (length (chunk_enc cs @ trailer)))
      = Some (int (length data), page') \<and> take (Suc (length data)) page' = data @ [NUL]"
proof -
  obtain ext n R where e: "chunk_enc cs = chunk_line ext n @ R" "ext_ok ext"
    "cs = [] \<and> n = 0 \<and> R = [] \<or> (\<exists>d cs'. cs = (ext, d) # cs' \<and> n = length d \<and> d \<noteq> [] \<and> R = d @ CRLF @ chunk_enc cs' \<and> chunks_ok cs')"
    using assms(1) by (rule chunk_enc_line)
  let ?mem = "chunk_enc cs @ trailer @ NUL # rest" and ?old = "length (chunk_enc cs @ trailer)" and ?h = "hex_nat n @ ext"
  have R: "NUL \<in> set (R @ trailer @ NUL # rest)" by simp
  have n: "n < 2 ^ 31" using e(1,3) assms(2) by auto
  note at = chunk_line_at[OF e(2) n R]
  obtain t where t: "str_at ?mem 0 = Some (hex_nat n @ ext @ CRLF @ t)" using at(1)[of "[]"] e(1) by auto
  have m: "?mem[length ?h := NUL] = ?h @ NUL # LF # R @ trailer @ NUL # rest"
    by (simp add: e(1) chunk_line_def list_update_append)
  have "\<exists>mem'. chunk_loop room (int ?old) (?mem[length ?h := NUL]) (length ?h) [] (int n) = Some (mem', data) \<and> length mem' = length ?mem"
    using e(3)
  proof
    assume "cs = [] \<and> n = 0 \<and> R = []"
    then show ?thesis by (simp add: chunk_loop.simps data_def)
  next
    assume "\<exists>d cs'. cs = (ext, d) # cs' \<and> n = length d \<and> d \<noteq> [] \<and> R = d @ CRLF @ chunk_enc cs' \<and> chunks_ok cs'"
    then obtain d cs' where cs: "cs = (ext, d) # cs'" "n = length d" "d \<noteq> []" "R = d @ CRLF @ chunk_enc cs'" "chunks_ok cs'" by blast
    have "\<exists>mem'. chunk_loop room (int ?old) (?h @ NUL # LF # R @ trailer @ NUL # rest) (length ?h) [] (int (length d))
        = Some (mem', [] @ d @ concat (map snd cs')) \<and> length mem' = length (?h @ NUL # LF # R @ trailer @ NUL # rest)"
      by (rule chunk_loop_enc[OF cs(5,3)]) (use assms(2,3) in \<open>simp_all add: cs chunk_line_def\<close>)
    then show ?thesis unfolding m[symmetric] by (simp add: cs(1,2) data_def)
  qed
  then obtain mem' where l: "chunk_loop room (int ?old) (?mem[length ?h := NUL]) (length ?h) [] (int n) = Some (mem', data)"
    "length mem' = length ?mem" by blast
  have "length (concat (map snd ds)) \<le> length (chunk_enc ds)" for ds :: "(cstr \<times> char list) list" by (induction ds rule: chunk_enc.induct) auto
  from this[of cs] have "length data < length mem'" using l(2) by (simp add: data_def)
  then show ?thesis unfolding chunk_body_def t option.simps at(3,4) l(1) by simp
qed

text \<open>C30: a page sent in chunks is put together again: whatever the bytes of the data, with extensions behind the sizes
  and anything behind the last chunk, chunkpage leaves the data with a terminator behind it and returns its
  length.\<close>

theorem chunk_roundtrip:
  assumes "chunks_ok cs" and "page = chunk_enc cs @ trailer" and "int (length page) < MAXPAGE"
  shows "\<exists>page'. chunkpage (page @ NUL # rest) (int (length page)) = Some (int (length (concat (map snd cs))), page')
    \<and> take (Suc (length (concat (map snd cs)))) page' = concat (map snd cs) @ [NUL]"
  using chunk_body_enc[OF assms(1), of trailer "nat MAXPAGE" rest] assms(2,3) by (simp add: chunkpage_def MAXPAGE_def)

definition two_chunks :: "(cstr \<times> char list) list" where
  "two_chunks = [([], ''a'' @ CRLF @ ''b''), ('';x=1'', replicate 17 CHR ''c'')]"

theorem chunk_roundtrip_witness:
  "\<exists>page'. chunkpage ((chunk_enc two_chunks @ CRLF) @ [NUL, CHR ''z'']) (int (length (chunk_enc two_chunks @ CRLF)))
      = Some (21, page') \<and> take 22 page' = (''a'' @ CRLF @ ''b'' @ replicate 17 CHR ''c'') @ [NUL]"
proof -
  have "chunks_ok two_chunks" by code_simp
  moreover have "int (length (chunk_enc two_chunks @ CRLF)) < MAXPAGE"
    by (simp add: two_chunks_def chunk_line_def hex_nat.simps MAXPAGE_def)
  ultimately show ?thesis
    using chunk_roundtrip[of two_chunks "chunk_enc two_chunks @ CRLF" CRLF "[CHR ''z'']"] by (simp add: two_chunks_def)
qed

section \<open>Pages that are not what they say\<close>

text \<open>A decoder is also called when only the head was asked for, with a page of no bytes that was not written to. When
  the block still holds a page in chunks, the number of bytes to copy is negative.\<close>

theorem head_only_page: "chunkpage (''5'' @ CRLF @ ''hello'' @ CRLF @ ''0'' @ CRLF @ [NUL]) 0 = None"
  by (simp add: chunkpage_def chunk_body_def MAXPAGE_def str_at_def scan_hex_def scan_based_def digit_of_def isspace_def
      to_int32_def chunk_loop.simps)

text \<open>A size of nine digits loses the first one.\<close>

theorem chunk_size_wraps: "scan_hex ''100000005'' = Some 5"
  by (simp add: scan_hex_def scan_based_def digit_of_def isspace_def to_int32_def)

section \<open>The link of a meta tag\<close>

definition FINDLEN :: int where "FINDLEN = 1024"
definition MAXURL :: nat where "MAXURL = 256"

definition redir_value :: "cstr \<Rightarrow> nat" where
  \<comment> \<open>the length of the text at \<open>p3\<close> up to \<open>p4\<close>\<close>
  "redir_value s = length (takeWhile (\<lambda>c. c \<noteq> CHR ''\"'' \<and> c \<noteq> CHR 0x27 \<and> c \<noteq> CHR '' '') s)"

function find_meta :: "cstr \<Rightarrow> nat \<Rightarrow> (nat \<times> nat) option" where
  \<comment> \<open>from the label \<open>find\<close> on: \<open>p1\<close> is the string at offset \<open>k\<close> of \<open>findbuf\<close>; the offset and the length of the link,
      \<open>None\<close> for \<open>return 0\<close>\<close>
  "find_meta p1 k =
     (case strstr p1 ''<meta'' of
        None \<Rightarrow> None
      | Some i \<Rightarrow>
          (case strchr (drop i p1) CHR ''>'' of
             None \<Rightarrow> None
           | Some j \<Rightarrow>
               (let p = take j (drop i p1) in
                case strstr p ''url='' of
                  Some u \<Rightarrow>
                    (let len = redir_value (drop (u + 4) p) in if len < MAXURL then Some (k + i + u + 4, len) else None)
                | None \<Rightarrow> find_meta (drop (i + j + 1) p1) (k + i + j + 1))))"
  by pat_completeness auto
termination
  by (relation "measure (\<lambda>(p1, k). length p1)") (auto dest: strchr_Some)

declare find_meta.simps [simp del]

definition isconredir :: "char list \<Rightarrow> int \<Rightarrow> char list \<Rightarrow> (int \<times> char list) option" where
  \<comment> \<open>\<open>None\<close>: the page is shorter than \<open>siz\<close>, or the link does not fit in \<open>redir\<close>\<close>
  "isconredir page siz redir =
     (if FINDLEN \<le> siz then Some (0, redir)
      else if int (length page) < siz then None
      else case find_meta (takeWhile (\<lambda>c. c \<noteq> NUL) (map (\<lambda>c. char_of (ul_tolower c)) (take (nat siz) page))) 0 of
        None \<Rightarrow> Some (0, redir)
      | Some (at, len) \<Rightarrow>
          if len < length redir then Some (1, take len (drop at page) @ NUL # drop (Suc len) redir) else None)"

lemma lower_byte: "char_of (ul_tolower c) = tolower c"
  by (simp add: ul_tolower_def alpha_low_nth)

lemma tolower_iff:
  "tolower c = NUL \<longleftrightarrow> c = NUL" "tolower c = CHR ''<'' \<longleftrightarrow> c = CHR ''<''" "tolower c = CHR ''>'' \<longleftrightarrow> c = CHR ''>''"
  "tolower c = CHR ''\"'' \<longleftrightarrow> c = CHR ''\"''" "tolower c = CHR 0x27 \<longleftrightarrow> c = CHR 0x27" "tolower c = CHR '' '' \<longleftrightarrow> c = CHR '' ''"
  by (auto simp: tolower_def char_eq_nat of_char_of simp del: of_char_eq_iff)

lemma lower_keeps: "CHR ''<'' \<in> set (map tolower s) \<longleftrightarrow> CHR ''<'' \<in> set s" "CHR ''>'' \<in> set (map tolower s) \<longleftrightarrow> CHR ''>'' \<in> set s"
  by (induction s) (auto simp: tolower_iff eq_commute[of "CHR ''<''" "tolower c" for c] eq_commute[of "CHR ''>''" "tolower c" for c])

lemma strstr_url: "strstr s ''url='' = None \<Longrightarrow> strstr (s @ ''url='' @ r) ''url='' = Some (length s)"
proof (induction s)
  case (Cons c s)
  then have n: "\<not> prefix ''url='' (c # s)" and "strstr s ''url='' = None" by (auto split: if_splits)
  moreover have "\<not> prefix ''url='' (c # s @ ''url='' @ r)"
    using n by (cases s; cases "tl s"; cases "tl (tl s)") auto
  ultimately show ?case using Cons.IH by simp
qed simp

definition quoting :: "char \<Rightarrow> bool" where
  "quoting c \<longleftrightarrow> c = CHR ''\"'' \<or> c = CHR 0x27 \<or> c = CHR '' ''"

lemma find_meta_hit:
  assumes "strstr s ''<meta'' = Some i" and "drop i s = p @ CHR ''>'' # r" and "CHR ''>'' \<notin> set p"
    and "strstr p ''url='' = Some u" and "redir_value (drop (u + 4) p) = len" and "len < MAXURL"
  shows "find_meta s k = Some (k + i + u + 4, len)"
proof -
  have "strchr (drop i s) CHR ''>'' = Some (length p)" using assms(2,3) by (simp add: strchr_append)
  then show ?thesis using assms by (subst find_meta.simps) simp
qed

theorem meta_redirect:
  assumes page: "page = pre @ m @ a @ u @ link @ q @ CHR ''>'' # post" "NUL \<notin> set page" "int (length page) < FINDLEN"
    and tag: "map tolower m = ''<meta''" "map tolower u = ''url=''" "CHR ''<'' \<notin> set pre" "CHR ''>'' \<notin> set (a @ link @ q)"
      "strstr (map tolower a) ''url='' = None"
    and link: "list_all (\<lambda>c. \<not> quoting c) link" "q = [] \<or> quoting (hd q)" "length link < MAXURL" "length link < length redir"
  shows "isconredir page (int (length page)) redir = Some (1, link @ NUL # drop (Suc (length link)) redir)"
proof -
  let ?l = "map tolower" and ?p = "''<meta'' @ map tolower a @ ''url='' @ map tolower (link @ q)"
  have low: "takeWhile (\<lambda>c. c \<noteq> NUL) (map (\<lambda>c. char_of (ul_tolower c)) page) = ?l page"
    using page(2) by (auto simp: lower_byte takeWhile_eq_all_conv tolower_iff simp del: takeWhile_map)
  have lpage: "?l page = ?l pre @ ?p @ CHR ''>'' # ?l post" by (simp add: page(1) tag(1,2) tolower_def)
  have "CHR ''<'' \<notin> set (?l pre)" using tag(3) by (simp add: lower_keeps del: set_map)
  then have m: "strstr (?l page) ''<meta'' = Some (length pre)"
    unfolding lpage using strstr_append[of "''<meta''" "?l pre"] by simp
  have e: "CHR ''>'' \<notin> set ?p" using tag(4) by (simp add: lower_keeps del: set_map)
  have "strstr ?p ''url='' = Some (length ''<meta'' + length (?l a))"
    using strstr_append[of "''url=''" "''<meta''"] strstr_url[OF tag(5), of "?l (link @ q)"] by simp
  then have u: "strstr ?p ''url='' = Some (5 + length a)" by simp
  have quote: "(\<lambda>c. c \<noteq> CHR ''\"'' \<and> c \<noteq> CHR 0x27 \<and> c \<noteq> CHR '' '') = (\<lambda>c. \<not> quoting c)" by (auto simp: quoting_def)
  have "quoting (tolower c) = quoting c" for c by (simp add: quoting_def tolower_iff)
  moreover from this have "takeWhile (\<lambda>c. \<not> quoting c) (?l link @ ?l q) = ?l link @ takeWhile (\<lambda>c. \<not> quoting c) (?l q)"
    using link(1) by (intro takeWhile_append2) (auto simp: list_all_iff)
  ultimately have "takeWhile (\<lambda>c. \<not> quoting c) (?l (link @ q)) = ?l link"
    using link(2) by (cases q) simp_all
  from arg_cong[OF this, of length] have "redir_value (?l (link @ q)) = length link" unfolding redir_value_def quote by simp
  moreover have "drop (length x) (x @ y) = y" for x y :: cstr by simp
  from this[of "''<meta'' @ ?l a @ ''url=''" "?l (link @ q)"]
  have "drop (5 + length a + 4) ?p = ?l (link @ q)" by (simp add: eval_nat_numeral)
  ultimately have v: "redir_value (drop (5 + length a + 4) ?p) = length link" by simp
  have "find_meta (?l page) 0 = Some (length pre + 5 + length a + 4, length link)"
    using find_meta_hit[OF m _ e u v link(3), of "?l post" 0] by (simp add: lpage)
  moreover have "length m = 5" "length u = 4" using tag(1,2) by (auto dest: arg_cong[of _ _ length])
  ultimately show ?thesis using page(3) link(4) low by (simp add: isconredir_def) (simp add: page(1))
qed

text \<open>A link in quotes of its own is lost: the text between \<open>url=\<close> and the quote is empty.\<close>

theorem quoted_redirect_empty:
  "isconredir (''<meta content=\"0;url='' @ [CHR 0x27] @ ''/x'' @ [CHR 0x27] @ ''\">'') 27 (replicate 3 CHR ''z'')
    = Some (1, NUL # replicate 2 CHR ''z'')"
  by (simp add: isconredir_def lower_byte tolower_def FINDLEN_def MAXURL_def find_meta.simps redir_value_def)

end
