(* ===== verification/Url_Path.thy ===== *)
theory Url_Path
  imports Url_Tables
begin

text \<open>
  Normalisation of the escapes of a path: \<open>ul_delete_inter\<close>, \<open>ul_space_escape\<close>,
  \<open>ul_space_escape_path\<close>, \<open>ul_to_char\<close> and the \<open>ul_single_path\<close> family of
  \<^verbatim>\<open>ullib/src/ul_url.cpp\<close>.

  These functions rewrite a string in place: they read at \<open>pin\<close> and write at \<open>pout\<close> of the
  same buffer. The buffer is kept as three parts, \<open>rev out\<close> (before \<open>pout\<close>), \<open>gap\<close>
  (from \<open>pout\<close> to \<open>pin\<close>) and \<open>rest\<close> (from \<open>pin\<close> on), so a step that reads bytes appends
  them to \<open>gap\<close> and a write replaces the first bytes of \<open>gap\<close>: the whole buffer is
  \<open>rev out @ gap @ rest\<close> at every moment.
\<close>

definition UL_MAX_URL_LEN :: nat where "UL_MAX_URL_LEN = 256"
definition UL_MAX_SITE_LEN :: nat where "UL_MAX_SITE_LEN = 48"
definition UL_MAX_PORT_LEN :: nat where "UL_MAX_PORT_LEN = 7"
definition UL_MAX_PATH_LEN :: nat where "UL_MAX_PATH_LEN = 203"
definition UL_MAX_FRAG_LEN :: nat where "UL_MAX_FRAG_LEN = 203"
definition UL_MAX_URL_LEN_EX :: nat where "UL_MAX_URL_LEN_EX = 1024"
definition UL_MAX_SITE_LEN_EX :: nat where "UL_MAX_SITE_LEN_EX = 128"
definition UL_MAX_PATH_LEN_EX :: nat where "UL_MAX_PATH_LEN_EX = 800"
definition UL_MAX_URL_LEN_EX2 :: nat where "UL_MAX_URL_LEN_EX2 = 2048"
definition UL_MAX_SITE_LEN_EX2 :: nat where "UL_MAX_SITE_LEN_EX2 = 256"
definition UL_MAX_PATH_LEN_EX2 :: nat where "UL_MAX_PATH_LEN_EX2 = 1600"

lemmas ul_max_defs =
  UL_MAX_URL_LEN_def UL_MAX_SITE_LEN_def UL_MAX_PORT_LEN_def UL_MAX_PATH_LEN_def UL_MAX_FRAG_LEN_def
  UL_MAX_URL_LEN_EX_def UL_MAX_SITE_LEN_EX_def UL_MAX_PATH_LEN_EX_def
  UL_MAX_URL_LEN_EX2_def UL_MAX_SITE_LEN_EX2_def UL_MAX_PATH_LEN_EX2_def

section \<open>Deleting line breaks\<close>

fun delete_inter_loop :: "cstr \<Rightarrow> cstr" where
  \<comment> \<open>the copying loop \<open>while(*p2 != '\0')\<close>\<close>
  "delete_inter_loop [] = []"
| "delete_inter_loop (c # s) = (if tab UL_LFCR c then delete_inter_loop s else c # delete_inter_loop s)"

definition strcspn_crlf :: "cstr \<Rightarrow> nat" where
  \<comment> \<open>\<open>strcspn(str, "\r\n")\<close>\<close>
  "strcspn_crlf s = length (takeWhile (\<lambda>c. c \<noteq> CHR 0x0D \<and> c \<noteq> CHR 0x0A) s)"

definition ul_delete_inter :: "cstr option \<Rightarrow> int \<times> cstr option" where
  "ul_delete_inter str =
     (case str of
        None \<Rightarrow> (0, None)
      | Some s \<Rightarrow> (let len = strcspn_crlf s; s' = take len s @ delete_inter_loop (drop len s)
                  in (int (length s'), Some s')))"

definition delete_inter :: "cstr \<Rightarrow> cstr" where
  \<comment> \<open>the string after \<open>ul_delete_inter(s)\<close> on a pointer that is not null\<close>
  "delete_inter s = the (snd (ul_delete_inter (Some s)))"

section \<open>Escaping spaces\<close>

fun space_loop :: "int \<Rightarrow> cstr \<Rightarrow> cstr \<Rightarrow> cstr option" where
  \<comment> \<open>the loop over \<open>pin\<close> filling \<open>url_tmp\<close>; \<open>None\<close> is \<open>return 0\<close>; \<open>out\<close> is \<open>url_tmp\<close> reversed\<close>
  "space_loop m out [] = Some out"
| "space_loop m out (c # s) =
     (if c \<noteq> CHR '' '' then
        (if m - 1 \<le> int (length out) then None else space_loop m (c # out) s)
      else
        (if m - 3 \<le> int (length out) then None
         else space_loop m (CHR ''0'' # CHR ''2'' # CHR ''%'' # out) s))"

definition ul_space_escape_path :: "cstr \<Rightarrow> int \<Rightarrow> int \<times> cstr" where
  "ul_space_escape_path path max_path_len =
     (case space_loop max_path_len [] path of
        None \<Rightarrow> (0, path)
      | Some out \<Rightarrow> if max_path_len \<le> int (length out) then (0, path) else (1, rev out))"

definition ul_space_escape_path_ex2 :: "cstr \<Rightarrow> int \<Rightarrow> int \<times> cstr" where
  "ul_space_escape_path_ex2 path max_path_len =
     (case space_loop max_path_len [] path of
        None \<Rightarrow> (0, path)
      | Some out \<Rightarrow> if max_path_len \<le> int (length out) then (0, path) else (1, rev out))"

definition space_site_path_ok :: "cstr \<Rightarrow> int \<Rightarrow> int \<Rightarrow> bool" where
  \<comment> \<open>the part of \<open>ul_space_escape\<close> after "detect site len and path len": no \<open>return 0\<close> is taken\<close>
  "space_site_path_ok url_tmp max_site_len max_path_len =
     (let pin = (if strncmp_eq url_tmp ''http://'' 7 then drop 7 url_tmp else url_tmp);
          path = strchr pin CHR ''/'';
          port = strchr pin CHR '':'';
          psite_end = (case (port, path) of
              (Some q, Some p) \<Rightarrow> if q < p then Some (int q - 1) else Some (int p - 1)
            | (None, Some p) \<Rightarrow> Some (int p - 1)
            | (_, None) \<Rightarrow> None)
      in path \<noteq> Some 0
         \<and> (case path of Some p \<Rightarrow> int (length pin - p) < max_path_len | None \<Rightarrow> True)
         \<and> port \<noteq> Some 0
         \<and> (case psite_end of Some e \<Rightarrow> e < max_site_len | None \<Rightarrow> int (length pin) < max_site_len))"

definition ul_space_escape :: "cstr \<Rightarrow> int \<Rightarrow> int \<Rightarrow> int \<Rightarrow> int \<times> cstr" where
  "ul_space_escape url max_url_len max_site_len max_path_len =
     (case space_loop max_url_len [] url of
        None \<Rightarrow> (0, url)
      | Some out \<Rightarrow>
          if max_url_len \<le> int (length out) then (0, url)
          else if space_site_path_ok (rev out) max_site_len max_path_len then (1, rev out) else (0, url))"

definition ul_space_escape_ex2 :: "cstr \<Rightarrow> int \<Rightarrow> int \<Rightarrow> int \<Rightarrow> int \<times> cstr" where
  "ul_space_escape_ex2 url max_url_len max_site_len max_path_len =
     (case space_loop max_url_len [] url of
        None \<Rightarrow> (0, url)
      | Some out \<Rightarrow>
          if max_url_len \<le> int (length out) then (0, url)
          else if space_site_path_ok (rev out) max_site_len max_path_len then (1, rev out) else (0, url))"

section \<open>Decoding the escapes of a path\<close>

definition ul_to_char :: "char \<Rightarrow> char \<Rightarrow> nat" where
  \<comment> \<open>the two bytes \<open>hex[0]\<close> and \<open>hex[1]\<close>; 0 when one of them is no hexadecimal digit\<close>
  "ul_to_char h0 h1 =
     (if (UL_TO_CHAR ! of_char h0 = 0 \<and> h0 \<noteq> CHR ''0'') \<or> (UL_TO_CHAR ! of_char h1 = 0 \<and> h1 \<noteq> CHR ''0'')
      then 0
      else 16 * (UL_TO_CHAR ! of_char h0) + UL_TO_CHAR ! of_char h1)"

definition esc_step :: "table \<Rightarrow> char \<Rightarrow> cstr \<Rightarrow> cstr \<times> cstr \<times> cstr" where
  \<comment> \<open>one round of the loop \<open>while(T[(unsigned char)*pin])\<close>, the same text in every stage, at the byte
      \<open>c\<close> followed by \<open>s\<close>: the bytes written at \<open>pout\<close>, the bytes passed by \<open>pin\<close> as the round leaves
      them in the buffer, and the new \<open>pin\<close>\<close>
  "esc_step t c s =
     (if c = CHR ''%'' \<and> 2 \<le> length s then
        (let h0 = s ! 0; h1 = s ! 1; escape_char = ul_to_char h0 h1 in
         if escape_char = 0 then (''%'', [c], s)
         else let d = char_of escape_char in
           if tab t d \<and> \<not> tab UL_RESERVED d
           then ([d], [c, h0, d], drop 2 s)
           else ([CHR ''%'', h0, h1], [c, h0, d], drop 2 s))
      else ([c], [c], s))"

lemma esc_step_rest: "esc_step t c s = (em, rd, r) \<Longrightarrow> length rd + length r = Suc (length s) \<and> length r \<le> length s
   \<and> length em \<le> length rd"
  by (auto simp: esc_step_def Let_def split: if_splits)

function esc_run :: "table \<Rightarrow> cstr \<Rightarrow> cstr \<Rightarrow> cstr \<Rightarrow> bool \<Rightarrow> cstr \<times> cstr \<times> cstr \<times> bool" where
  \<comment> \<open>the loop \<open>while(T[(unsigned char)*pin])\<close>; the flag is \<open>space_flag\<close>\<close>
  "esc_run t out gap [] sp = (out, gap, [], sp)"
| "esc_run t out gap (c # s) sp =
     (if \<not> tab t c then (out, gap, c # s, sp)
      else case esc_step t c s of
        (em, rd, r) \<Rightarrow> esc_run t (rev em @ out) (drop (length em) (gap @ rd)) r (sp \<or> em = '' ''))"
  by pat_completeness auto
termination
  by (relation "measure (\<lambda>(t, out, gap, rest, sp). length rest)")
    (auto dest: sym [THEN esc_step_rest])

lemma esc_run_shrinks:
  "esc_run t out gap rest sp = (out', gap', rest', sp') \<Longrightarrow> length rest' \<le> length rest"
proof (induction t out gap rest sp rule: esc_run.induct)
  case (2 t out gap c s sp)
  obtain em rd r where st: "esc_step t c s = (em, rd, r)" by (rule prod_cases3)
  show ?case using 2 esc_step_rest[OF st] by (fastforce simp: st split: if_splits)
qed simp

function esc_groups :: "char \<Rightarrow> table \<Rightarrow> cstr \<Rightarrow> cstr \<Rightarrow> cstr \<Rightarrow> bool \<Rightarrow> cstr \<times> cstr \<times> cstr \<times> bool" where
  \<comment> \<open>\<open>while(*pin == sep) { path[pout++] = *pin++; while(T[*pin]) ... }\<close>\<close>
  "esc_groups sep t out gap [] sp = (out, gap, [], sp)"
| "esc_groups sep t out gap (c # s) sp =
     (if c = sep then
        (case esc_run t (c # out) (tl (gap @ [c])) s sp of
           (out', gap', rest', sp') \<Rightarrow> esc_groups sep t out' gap' rest' sp')
      else (out, gap, c # s, sp))"
  by pat_completeness auto
termination
  by (relation "measure (\<lambda>(sep, t, out, gap, rest, sp). length rest)")
    (auto simp: less_Suc_eq_le dest: esc_run_shrinks split: prod.splits)

definition single_path_scan :: "cstr \<Rightarrow> cstr \<times> cstr \<times> cstr \<times> bool" where
  \<comment> \<open>the scan shared by the \<open>_nointer\<close> functions, up to the test of \<open>*pin\<close>\<close>
  "single_path_scan path =
     (let (out0, rest0) = (case path of c # s \<Rightarrow> if c = CHR ''/'' then ([c], s) else ([], path) | [] \<Rightarrow> ([], []));
          (out1, gap1, rest1, sp1) = esc_run UL_PCHAR out0 [] rest0 False;
          (out2, gap2, rest2, sp2) = esc_groups CHR ''/'' UL_PCHAR out1 gap1 rest1 sp1;
          (out3, gap3, rest3, sp3) = esc_groups CHR '';'' UL_PARAM out2 gap2 rest2 sp2
      in esc_groups CHR ''?'' UL_UCH_RES out3 gap3 rest3 sp3)"

definition ul_single_path_nointer :: "cstr \<Rightarrow> int \<times> cstr" where
  "ul_single_path_nointer path =
     (case single_path_scan path of (out, gap, rest, space_flag) \<Rightarrow>
        if rest \<noteq> [] \<and> hd rest \<noteq> CHR ''#'' then (0, rev out @ gap @ rest)
        else if 256 < length out then (0, rev out)
        else if space_flag then ul_space_escape_path (rev out) (int UL_MAX_PATH_LEN)
        else (1, rev out))"

definition ul_single_path :: "cstr \<Rightarrow> int \<times> cstr" where
  "ul_single_path path = ul_single_path_nointer (delete_inter path)"

definition ul_single_path_ex_nointer :: "cstr \<Rightarrow> int \<Rightarrow> int \<times> cstr" where
  "ul_single_path_ex_nointer path len =
     (case single_path_scan path of (out, gap, rest, space_flag) \<Rightarrow>
        if rest \<noteq> [] \<and> hd rest \<noteq> CHR ''#'' then (0, rev out @ gap @ rest)
        else if len < int (length out) then (0, rev out)
        else if space_flag then ul_space_escape_path (rev out) (int UL_MAX_PATH_LEN_EX)
        else (1, rev out))"

definition ul_single_path_ex :: "cstr \<Rightarrow> int \<times> cstr" where
  "ul_single_path_ex path =
     (let (len, path') = ul_delete_inter (Some path) in ul_single_path_ex_nointer (the path') len)"

definition ul_single_path_ex2_nointer :: "cstr \<Rightarrow> int \<Rightarrow> int \<times> cstr" where
  "ul_single_path_ex2_nointer path len =
     (case single_path_scan path of (out, gap, rest, space_flag) \<Rightarrow>
        if rest \<noteq> [] \<and> hd rest \<noteq> CHR ''#'' then (0, rev out @ gap @ rest)
        else if len < int (length out) then (0, rev out)
        else if space_flag then ul_space_escape_path_ex2 (rev out) (int UL_MAX_PATH_LEN_EX2)
        else (1, rev out))"

definition ul_single_path_ex2 :: "cstr \<Rightarrow> int \<times> cstr" where
  "ul_single_path_ex2 path =
     (let (len, path') = ul_delete_inter (Some path) in ul_single_path_ex2_nointer (the path') len)"

fun frag_copy :: "int \<Rightarrow> cstr \<Rightarrow> cstr \<Rightarrow> cstr \<Rightarrow> cstr \<times> cstr \<times> cstr" where
  \<comment> \<open>\<open>while(*pin && pout < len)\<close>: the fragment is copied after the path\<close>
  "frag_copy len out gap [] = (out, gap, [])"
| "frag_copy len out gap (c # s) =
     (if int (length out) < len then frag_copy len (c # out) (tl (gap @ [c])) s else (out, gap, c # s))"

definition ul_single_path_ex2_nointer_special_for_ps_20110221 :: "cstr \<Rightarrow> int \<Rightarrow> int \<times> cstr" where
  "ul_single_path_ex2_nointer_special_for_ps_20110221 path len =
     (case single_path_scan path of (out, gap, rest, space_flag) \<Rightarrow>
        if rest \<noteq> [] \<and> hd rest \<noteq> CHR ''#'' then (0, rev out @ gap @ rest)
        else case frag_copy len out gap rest of (out', gap', rest') \<Rightarrow>
          if len \<le> int (length out') then (0, rev out' @ gap' @ rest')
          else if space_flag then ul_space_escape_path_ex2 (rev out') (int UL_MAX_PATH_LEN_EX2)
          else (1, rev out'))"

section \<open>Deleting and escaping as functions on the text\<close>

lemma delete_inter_loop_filter: "delete_inter_loop s = filter (\<lambda>c. c \<noteq> CHR 0x0D \<and> c \<noteq> CHR 0x0A) s"
  by (induction s) (auto simp: table_specs)

lemma delete_inter_eq [simp]: "delete_inter s = filter (\<lambda>c. c \<noteq> CHR 0x0D \<and> c \<noteq> CHR 0x0A) s"
proof -
  let ?P = "\<lambda>c. c \<noteq> CHR 0x0D \<and> c \<noteq> CHR 0x0A"
  have "take (strcspn_crlf s) s = takeWhile ?P s" and d: "drop (strcspn_crlf s) s = dropWhile ?P s"
    unfolding strcspn_crlf_def by (rule takeWhile_eq_take [symmetric], rule dropWhile_eq_drop [symmetric])
  moreover have "filter ?P s = takeWhile ?P s @ filter ?P (dropWhile ?P s)"
    by (induction s) auto
  ultimately show ?thesis
    by (simp add: delete_inter_def ul_delete_inter_def Let_def delete_inter_loop_filter)
qed

lemma ul_delete_inter_Some: "ul_delete_inter (Some s) = (int (length (delete_inter s)), Some (delete_inter s))"
  by (simp only: delete_inter_def ul_delete_inter_def Let_def option.case option.sel snd_conv)

definition esc_space :: "char \<Rightarrow> cstr" where
  "esc_space c = (if c = CHR '' '' then ''%20'' else [c])"

definition space_escaped :: "cstr \<Rightarrow> cstr" where
  \<comment> \<open>the text with every space replaced by \<^verbatim>\<open>%20\<close>\<close>
  "space_escaped s = concat (map esc_space s)"

lemma space_escaped_simps [simp]:
  "space_escaped [] = []" "space_escaped (c # s) = esc_space c @ space_escaped s"
  "space_escaped (s @ t) = space_escaped s @ space_escaped t"
  by (simp_all add: space_escaped_def)

lemma length_space_escaped: "length s \<le> length (space_escaped s)"
  by (induction s) (auto simp: esc_space_def)

lemma space_escaped_id: "CHR '' '' \<notin> set s \<Longrightarrow> space_escaped s = s"
  by (induction s) (auto simp: esc_space_def)

lemma space_escaped_no_space: "CHR '' '' \<notin> set (space_escaped s)"
  by (induction s) (auto simp: esc_space_def)

lemma space_loop_eq:
  "space_loop m out s =
     (if s = [] \<or> int (length out + length (space_escaped s)) < m
      then Some (rev (space_escaped s) @ out) else None)"
proof (induction s arbitrary: out)
  case (Cons c s)
  show ?case
    using Cons[of "c # out"] Cons[of "CHR ''0'' # CHR ''2'' # CHR ''%'' # out"] length_space_escaped[of s]
    by (cases s) (auto simp: esc_space_def)
qed simp

lemma ul_space_escape_path_eq:
  "ul_space_escape_path path m =
     (if int (length (space_escaped path)) < m then (1, space_escaped path) else (0, path))"
  by (auto simp: ul_space_escape_path_def space_loop_eq)

lemma ul_space_escape_path_ex2_eq: "ul_space_escape_path_ex2 = ul_space_escape_path"
  by (intro ext) (simp add: ul_space_escape_path_ex2_def ul_space_escape_path_def)

lemma ul_space_escape_ex2_eq: "ul_space_escape_ex2 = ul_space_escape"
  by (intro ext) (simp add: ul_space_escape_ex2_def ul_space_escape_def)

section \<open>The text an escape scan writes\<close>

text \<open>
  \<open>esc_em\<close> is the scan of one run with the buffer left out: what is written and what is left to read.
  Every statement on the output of the \<open>ul_single_path\<close> family goes through it.
\<close>

definition urlch :: "char \<Rightarrow> bool" where
  \<comment> \<open>the bytes a path may hold: no control character and no \<^verbatim>\<open>#\<close>\<close>
  "urlch c \<longleftrightarrow> 32 \<le> (of_char c :: nat) \<and> c \<noteq> CHR ''#''"

lemma urlch_lits [simp]:
  "urlch CHR ''/''" "urlch CHR '';''" "urlch CHR ''?''" "urlch CHR ''%''" "urlch CHR ''2''" "urlch CHR ''0''"
  "urlch CHR ''.''" "urlch CHR '' ''" "\<not> urlch CHR ''#''"
  by (simp_all add: urlch_def)

definition esc_table :: "table \<Rightarrow> bool" where
  \<comment> \<open>what the three tables of the scan have in common\<close>
  "esc_table t \<longleftrightarrow> (\<forall>c. tab t c \<longrightarrow> urlch c) \<and> (\<forall>c. urlch c \<longrightarrow> c \<notin> set ''/;?'' \<longrightarrow> tab t c)"

lemma esc_table_tabs [simp]: "esc_table UL_PCHAR" "esc_table UL_PARAM" "esc_table UL_UCH_RES"
  by (auto simp: esc_table_def table_specs urlch_def)

lemma hex_val_range:
  assumes "hex_val c \<noteq> 0 \<or> c = CHR ''0''"
  shows "48 \<le> (of_char c :: nat) \<and> (of_char c :: nat) \<le> 102 \<and> hex_val c < 16"
  using assms by (auto simp: hex_val_def Let_def split: if_splits)

lemma ul_to_char_hex:
  assumes "ul_to_char h0 h1 \<noteq> 0"
  shows "urlch h0 \<and> urlch h1 \<and> h0 \<noteq> CHR '' '' \<and> h1 \<noteq> CHR '' '' \<and> h0 \<noteq> CHR ''%'' \<and> h1 \<noteq> CHR ''%''
         \<and> ul_to_char h0 h1 < 256"
proof -
  have "hex_val h0 \<noteq> 0 \<or> h0 = CHR ''0''" "hex_val h1 \<noteq> 0 \<or> h1 = CHR ''0''"
    and v: "ul_to_char h0 h1 = 16 * hex_val h0 + hex_val h1"
    using assms by (auto simp: ul_to_char_def table_specs split: if_splits)
  from hex_val_range[OF this(1)] hex_val_range[OF this(2)] v show ?thesis
    by (auto simp: urlch_def)
qed

function esc_em :: "table \<Rightarrow> cstr \<Rightarrow> cstr \<times> cstr" where
  "esc_em t [] = ([], [])"
| "esc_em t (c # s) =
     (if \<not> tab t c then ([], c # s)
      else case esc_step t c s of (em, rd, r) \<Rightarrow> (case esc_em t r of (e, r') \<Rightarrow> (em @ e, r')))"
  by pat_completeness auto
termination
  by (relation "measure (\<lambda>(t, s). length s)") (auto dest: sym [THEN esc_step_rest])

lemma esc_step_cases:
  assumes "esc_step t c s = (em, rd, r)"
  obtains (plain) "em = [c]" "rd = [c]" "r = s" "\<And>h0 h1 s'. c = CHR ''%'' \<Longrightarrow> s = h0 # h1 # s' \<Longrightarrow> ul_to_char h0 h1 = 0"
  | (escape) h0 h1 where "c = CHR ''%''" "s = h0 # h1 # r" "ul_to_char h0 h1 \<noteq> 0"
      "rd = [c, h0, char_of (ul_to_char h0 h1)]"
      "em = (if tab t (char_of (ul_to_char h0 h1)) \<and> \<not> tab UL_RESERVED (char_of (ul_to_char h0 h1))
             then [char_of (ul_to_char h0 h1)] else [c, h0, h1])"
proof (cases "c = CHR ''%'' \<and> 2 \<le> length s \<and> ul_to_char (s ! 0) (s ! 1) \<noteq> 0")
  case True
  then obtain h0 h1 s' where s: "s = h0 # h1 # s'" by (cases s; cases "tl s") auto
  show ?thesis
    using assms True by (intro escape[of h0 h1]) (auto simp: s esc_step_def Let_def split: if_splits)
next
  case False
  then have "esc_step t c s = ([c], [c], s)" by (auto simp: esc_step_def Let_def)
  with assms have "em = [c]" "rd = [c]" "r = s" by auto
  moreover have "ul_to_char h0 h1 = 0" if "c = CHR ''%''" "s = h0 # h1 # s'" for h0 h1 s'
    using False that by simp
  ultimately show ?thesis by (rule plain)
qed

lemma esc_step_raw:
  assumes "esc_table t" "tab t c" "esc_step t c s = (em, rd, r)"
  obtains raw where "c # s = raw @ r" "length rd = length raw" "length em \<le> length raw" "raw \<noteq> []" "em \<noteq> []"
    "\<forall>x \<in> set raw. urlch x" "\<forall>x \<in> set em. urlch x"
    "em = '' '' \<longleftrightarrow> CHR '' '' \<in> set em"
  using assms(3)
proof (cases rule: esc_step_cases)
  case plain
  with assms(1,2) show ?thesis by (intro that[of "[c]"]) (auto simp: esc_table_def)
next
  case (escape h0 h1)
  note h = ul_to_char_hex[OF escape(3)]
  have "urlch c" using assms(1,2) by (simp add: esc_table_def)
  moreover have "\<forall>x \<in> set em. urlch x"
    using escape(5) h \<open>urlch c\<close> assms(1) by (simp add: esc_table_def)
  moreover have "em = '' '' \<longleftrightarrow> CHR '' '' \<in> set em"
    using escape(1,5) h by auto
  ultimately show ?thesis using escape h by (intro that[of "[c, h0, h1]"]) simp_all
qed

lemma esc_em_raw:
  assumes "esc_table t" "esc_em t s = (e, r)"
  shows "\<exists>raw. s = raw @ r \<and> (\<forall>x \<in> set raw. urlch x) \<and> (\<forall>x \<in> set e. urlch x) \<and> length e \<le> length raw
           \<and> (r = [] \<or> \<not> tab t (hd r))"
  using assms
proof (induction t s arbitrary: e rule: esc_em.induct)
  case (2 t c s)
  show ?case
  proof (cases "tab t c")
    case True
    obtain em rd r1 where st: "esc_step t c s = (em, rd, r1)" by (rule prod_cases3)
    from 2(2) True st obtain raw where raw: "c # s = raw @ r1" "length em \<le> length raw"
      "\<forall>x \<in> set raw. urlch x" "\<forall>x \<in> set em. urlch x" by (rule esc_step_raw)
    obtain e' where e': "esc_em t r1 = (e', r)" "e = em @ e'"
      using 2(3) True by (auto simp: st split: prod.splits)
    from 2(1)[OF _ st[symmetric] refl 2(2) e'(1)] True obtain raw' where
      "r1 = raw' @ r" "\<forall>x \<in> set raw'. urlch x" "\<forall>x \<in> set e'. urlch x" "length e' \<le> length raw'"
      "r = [] \<or> \<not> tab t (hd r)" by blast
    with raw e' show ?thesis by (intro exI[of _ "raw @ raw'"]) auto
  qed (use 2 in auto)
qed simp

lemma esc_run_em:
  assumes "esc_table t" "esc_em t s = (e, r)"
  shows "\<exists>gap'. esc_run t out gap s sp = (rev e @ out, gap', r, sp \<or> CHR '' '' \<in> set e)
           \<and> length e + length gap' + length r = length gap + length s"
  using assms
proof (induction t s arbitrary: e out gap sp rule: esc_em.induct)
  case (2 t c s)
  show ?case
  proof (cases "tab t c")
    case True
    obtain em rd r1 where st: "esc_step t c s = (em, rd, r1)" by (rule prod_cases3)
    from 2(2) True st obtain raw where raw: "c # s = raw @ r1" "length rd = length raw" "length em \<le> length raw"
      "em = '' '' \<longleftrightarrow> CHR '' '' \<in> set em" by (rule esc_step_raw)
    obtain e' where e': "esc_em t r1 = (e', r)" "e = em @ e'"
      using 2(3) True by (auto simp: st split: prod.splits)
    have IH: "\<exists>gap'. esc_run t (rev em @ out) (drop (length em) (gap @ rd)) r1 (sp \<or> em = '' '')
        = (rev e' @ rev em @ out, gap', r, (sp \<or> em = '' '') \<or> CHR '' '' \<in> set e')
        \<and> length e' + length gap' + length r = length (drop (length em) (gap @ rd)) + length r1"
      using 2(1)[OF _ st[symmetric] refl 2(2) e'(1)] True by blast
    have "length (c # s) = length raw + length r1" using raw(1) by simp
    with IH raw(2-) e' True show ?thesis by (auto simp: st)
  qed (use 2 in auto)
qed simp

lemma esc_em_shrinks: "esc_em t s = (e, r) \<Longrightarrow> length r \<le> length s"
proof (induction t s arbitrary: e rule: esc_em.induct)
  case (2 t c s)
  obtain em rd r1 where st: "esc_step t c s = (em, rd, r1)" by (rule prod_cases3)
  show ?case using 2 esc_step_rest[OF st] by (fastforce simp: st split: if_splits prod.splits)
qed simp

function grp_em :: "char \<Rightarrow> table \<Rightarrow> cstr \<Rightarrow> cstr \<times> cstr" where
  "grp_em sep t [] = ([], [])"
| "grp_em sep t (c # s) =
     (if c = sep
      then case esc_em t s of (e, r) \<Rightarrow> (case grp_em sep t r of (e', r') \<Rightarrow> (c # e @ e', r'))
      else ([], c # s))"
  by pat_completeness auto
termination
  by (relation "measure (\<lambda>(sep, t, s). length s)")
    (auto simp: less_Suc_eq_le dest: sym [THEN esc_em_shrinks])

definition stops :: "(char \<Rightarrow> bool) \<Rightarrow> cstr \<Rightarrow> bool" where
  \<comment> \<open>the byte at the pointer, if any, is outside the class\<close>
  "stops P r \<longleftrightarrow> r = [] \<or> \<not> P (hd r)"

lemma stops_simps [simp]: "stops P []" "stops P (c # s) \<longleftrightarrow> \<not> P c"
  by (simp_all add: stops_def)

lemma grp_em_raw:
  assumes "esc_table t" "urlch sep" "grp_em sep t s = (e, r)" "stops (tab t) s"
  shows "(\<exists>raw. s = raw @ r \<and> (\<forall>x \<in> set raw. urlch x) \<and> (\<forall>x \<in> set e. urlch x) \<and> length e \<le> length raw)
           \<and> stops (tab t) r \<and> stops (\<lambda>c. c = sep) r"
  using assms
proof (induction sep t s arbitrary: e rule: grp_em.induct)
  case (2 sep t c s)
  show ?case
  proof (cases "c = sep")
    case True
    obtain e1 r1 where em: "esc_em t s = (e1, r1)" by (rule prod.exhaust)
    obtain e2 where e2: "grp_em sep t r1 = (e2, r)" "e = c # e1 @ e2"
      using 2(4) True by (auto simp: em split: prod.splits)
    obtain raw where raw: "s = raw @ r1" "\<forall>x \<in> set raw. urlch x" "\<forall>x \<in> set e1. urlch x" "length e1 \<le> length raw"
      "stops (tab t) r1" using esc_em_raw[OF 2(2) em] by (auto simp: stops_def)
    from 2(1)[OF True em[symmetric] 2(2,3) e2(1) raw(5)] obtain raw' where
      "r1 = raw' @ r" "\<forall>x \<in> set raw'. urlch x" "\<forall>x \<in> set e2. urlch x" "length e2 \<le> length raw'"
      "stops (tab t) r" "stops (\<lambda>c. c = sep) r" by blast
    with raw e2 2(3) True show ?thesis by (auto intro!: exI[of _ "c # raw @ raw'"])
  qed (use 2 in auto)
qed simp

lemma esc_groups_em:
  assumes "esc_table t" "grp_em sep t s = (e, r)" "sep \<noteq> CHR '' ''"
  shows "\<exists>gap'. esc_groups sep t out gap s sp = (rev e @ out, gap', r, sp \<or> CHR '' '' \<in> set e)
           \<and> length e + length gap' + length r = length gap + length s"
  using assms
proof (induction sep t s arbitrary: e out gap sp rule: grp_em.induct)
  case (2 sep t c s)
  show ?case
  proof (cases "c = sep")
    case True
    obtain e1 r1 where em: "esc_em t s = (e1, r1)" by (rule prod.exhaust)
    obtain e2 where e2: "grp_em sep t r1 = (e2, r)" "e = c # e1 @ e2"
      using 2(3) True by (auto simp: em split: prod.splits)
    obtain g1 where g1: "esc_run t (c # out) (tl (gap @ [c])) s sp = (rev e1 @ c # out, g1, r1, sp \<or> CHR '' '' \<in> set e1)"
      "length e1 + length g1 + length r1 = length gap + length s"
      using esc_run_em[OF 2(2) em, of "c # out" "tl (gap @ [c])" sp] by auto
    obtain g2 where "esc_groups sep t (rev e1 @ c # out) g1 r1 (sp \<or> CHR '' '' \<in> set e1)
        = (rev e2 @ rev e1 @ c # out, g2, r, (sp \<or> CHR '' '' \<in> set e1) \<or> CHR '' '' \<in> set e2)"
      "length e2 + length g2 + length r = length g1 + length r1"
      using 2(1)[OF True em[symmetric] 2(2) e2(1) 2(4)] by blast
    with g1 e2 True 2(4) show ?thesis by auto
  qed (use 2 in auto)
qed simp

definition scan_em :: "cstr \<Rightarrow> cstr \<times> cstr" where
  "scan_em path =
     (let (e0, r0) = (case path of c # s \<Rightarrow> if c = CHR ''/'' then ([c], s) else ([], path) | [] \<Rightarrow> ([], []));
          (e1, r1) = esc_em UL_PCHAR r0;
          (e2, r2) = grp_em CHR ''/'' UL_PCHAR r1;
          (e3, r3) = grp_em CHR '';'' UL_PARAM r2;
          (e4, r4) = grp_em CHR ''?'' UL_UCH_RES r3
      in (e0 @ e1 @ e2 @ e3 @ e4, r4))"

lemma scan_em_stages:
  assumes "scan_em path = (e, r)"
  obtains e0 r0 e1 r1 e2 r2 e3 r3 e4 where
    "path = e0 @ r0" "e0 = [] \<or> e0 = ''/''" "e0 = [] \<Longrightarrow> stops (\<lambda>c. c = CHR ''/'') path"
    "esc_em UL_PCHAR r0 = (e1, r1)" "grp_em CHR ''/'' UL_PCHAR r1 = (e2, r2)"
    "grp_em CHR '';'' UL_PARAM r2 = (e3, r3)" "grp_em CHR ''?'' UL_UCH_RES r3 = (e4, r)"
    "e = e0 @ e1 @ e2 @ e3 @ e4"
proof -
  let ?start = "case path of c # s \<Rightarrow> if c = CHR ''/'' then ([c], s) else ([], path) | [] \<Rightarrow> ([], [])"
  obtain e0 r0 where 0: "?start = (e0, r0)" by (rule prod.exhaust)
  obtain e1 r1 where 1: "esc_em UL_PCHAR r0 = (e1, r1)" by (rule prod.exhaust)
  obtain e2 r2 where 2: "grp_em CHR ''/'' UL_PCHAR r1 = (e2, r2)" by (rule prod.exhaust)
  obtain e3 r3 where 3: "grp_em CHR '';'' UL_PARAM r2 = (e3, r3)" by (rule prod.exhaust)
  obtain e4 r4 where 4: "grp_em CHR ''?'' UL_UCH_RES r3 = (e4, r4)" by (rule prod.exhaust)
  have "e = e0 @ e1 @ e2 @ e3 @ e4" "r4 = r"
    using assms unfolding scan_em_def Let_def 0 prod.case 1 2 3 4 by auto
  moreover have "path = e0 @ r0" "e0 = [] \<or> e0 = ''/''" "e0 = [] \<Longrightarrow> stops (\<lambda>c. c = CHR ''/'') path"
    using 0 by (auto split: list.splits if_splits)
  ultimately show ?thesis using 1 2 3 4 by (intro that) simp_all
qed

lemma dropWhile_unique:
  "s = raw @ r \<Longrightarrow> \<forall>x \<in> set raw. P x \<Longrightarrow> stops P r \<Longrightarrow> dropWhile P s = r \<and> takeWhile P s = raw"
  by (cases r) (auto simp: dropWhile_append2 takeWhile_append2)

lemma scan_em_text:
  assumes "scan_em path = (e, r)"
  shows "r = dropWhile urlch path \<and> (\<forall>x \<in> set e. urlch x) \<and> length e \<le> length (takeWhile urlch path)"
  using assms
proof (cases rule: scan_em_stages)
  case (1 e0 r0 e1 r1 e2 r2 e3 r3 e4)
  obtain w1 where w1: "r0 = w1 @ r1" "\<forall>x \<in> set w1. urlch x" "\<forall>x \<in> set e1. urlch x" "length e1 \<le> length w1"
      "stops (tab UL_PCHAR) r1"
    using esc_em_raw[OF _ 1(4)] by (auto simp: stops_def)
  obtain w2 where w2: "r1 = w2 @ r2" "\<forall>x \<in> set w2. urlch x" "\<forall>x \<in> set e2. urlch x" "length e2 \<le> length w2"
      "stops (tab UL_PCHAR) r2" "stops (\<lambda>c. c = CHR ''/'') r2"
    using grp_em_raw[OF _ _ 1(5) w1(5)] by (auto simp: urlch_def)
  have s3: "stops (tab UL_PARAM) r2" using w2(5,6) by (cases r2) (auto simp: table_specs)
  obtain w3 where w3: "r2 = w3 @ r3" "\<forall>x \<in> set w3. urlch x" "\<forall>x \<in> set e3. urlch x" "length e3 \<le> length w3"
      "stops (tab UL_PARAM) r3" "stops (\<lambda>c. c = CHR '';'') r3"
    using grp_em_raw[OF _ _ 1(6) s3] by (auto simp: urlch_def)
  obtain w4 where w4: "r3 = w4 @ r" "\<forall>x \<in> set w4. urlch x" "\<forall>x \<in> set e4. urlch x" "length e4 \<le> length w4"
      "stops urlch r"
  proof (cases "stops (\<lambda>c. c = CHR ''?'') r3")
    case True
    then have "e4 = []" "r = r3" using 1(7) by (cases r3; auto)+
    moreover have "stops urlch r3" using True w3(5,6) by (cases r3) (auto simp: table_specs urlch_def)
    ultimately show ?thesis by (intro that[of "[]"]) auto
  next
    case False
    then obtain r3' where r3: "r3 = CHR ''?'' # r3'" by (cases r3) auto
    obtain e5 r5 where e5: "esc_em UL_UCH_RES r3' = (e5, r5)" by (rule prod.exhaust)
    obtain w5 where w5: "r3' = w5 @ r5" "\<forall>x \<in> set w5. urlch x" "\<forall>x \<in> set e5. urlch x" "length e5 \<le> length w5"
      "stops (tab UL_UCH_RES) r5" using esc_em_raw[OF _ e5] by (auto simp: stops_def)
    have "stops (\<lambda>c. c = CHR ''?'') r5" using w5(5) by (cases r5) (auto simp: table_specs)
    then have "grp_em CHR ''?'' UL_UCH_RES r5 = ([], r5)" by (cases r5) auto
    then have "e4 = CHR ''?'' # e5" "r = r5" using 1(7) by (auto simp: r3 e5)
    moreover have "stops urlch r5" using w5(5) by (cases r5) (auto simp: table_specs urlch_def)
    ultimately show ?thesis using w5 by (intro that[of "CHR ''?'' # w5"]) (auto simp: r3 urlch_def)
  qed
  have e0: "\<forall>x \<in> set e0. urlch x" using 1(2) by (auto simp: urlch_def)
  have "path = (e0 @ w1 @ w2 @ w3 @ w4) @ r" "\<forall>x \<in> set (e0 @ w1 @ w2 @ w3 @ w4). urlch x"
    using 1(1) w1(1,2) w2(1,2) w3(1,2) w4(1,2) e0 by auto
  from dropWhile_unique[OF this w4(5)] show ?thesis
    using 1(8) e0 w1(3,4) w2(3,4) w3(3,4) w4(3,4) by auto
qed

lemma single_path_scan_em:
  assumes "scan_em path = (e, r)"
  shows "\<exists>gap. single_path_scan path = (rev e, gap, r, CHR '' '' \<in> set e)
           \<and> length e + length gap + length r = length path"
  using assms
proof (cases rule: scan_em_stages)
  case (1 e0 r0 e1 r1 e2 r2 e3 r3 e4)
  have 0: "(case path of c # s \<Rightarrow> if c = CHR ''/'' then ([c], s) else ([], path) | [] \<Rightarrow> ([], [])) = (e0, r0)"
    using 1(1-3) by (auto split: list.splits)
  obtain g1 where g1: "esc_run UL_PCHAR e0 [] r0 False = (rev e1 @ e0, g1, r1, False \<or> CHR '' '' \<in> set e1)"
    "length e1 + length g1 + length r1 = length r0"
    using esc_run_em[OF _ 1(4), of e0 "[]" False] by auto
  obtain g2 where g2: "esc_groups CHR ''/'' UL_PCHAR (rev e1 @ e0) g1 r1 (False \<or> CHR '' '' \<in> set e1)
      = (rev e2 @ rev e1 @ e0, g2, r2, (False \<or> CHR '' '' \<in> set e1) \<or> CHR '' '' \<in> set e2)"
    "length e2 + length g2 + length r2 = length g1 + length r1"
    using esc_groups_em[OF _ 1(5)] by fastforce
  obtain g3 where g3: "esc_groups CHR '';'' UL_PARAM (rev e2 @ rev e1 @ e0) g2 r2
        ((False \<or> CHR '' '' \<in> set e1) \<or> CHR '' '' \<in> set e2)
      = (rev e3 @ rev e2 @ rev e1 @ e0, g3, r3, ((False \<or> CHR '' '' \<in> set e1) \<or> CHR '' '' \<in> set e2) \<or> CHR '' '' \<in> set e3)"
    "length e3 + length g3 + length r3 = length g2 + length r2"
    using esc_groups_em[OF _ 1(6)] by fastforce
  obtain g4 where g4: "esc_groups CHR ''?'' UL_UCH_RES (rev e3 @ rev e2 @ rev e1 @ e0) g3 r3
        (((False \<or> CHR '' '' \<in> set e1) \<or> CHR '' '' \<in> set e2) \<or> CHR '' '' \<in> set e3)
      = (rev e4 @ rev e3 @ rev e2 @ rev e1 @ e0, g4, r,
         (((False \<or> CHR '' '' \<in> set e1) \<or> CHR '' '' \<in> set e2) \<or> CHR '' '' \<in> set e3) \<or> CHR '' '' \<in> set e4)"
    "length e4 + length g4 + length r = length g3 + length r3"
    using esc_groups_em[OF _ 1(7)] by fastforce
  have "rev e0 = e0" "CHR '' '' \<notin> set e0" using 1(2) by auto
  moreover have "length path = length e0 + length r0" using 1(1) by simp
  ultimately show ?thesis
    using g1(2) g2(2) g3(2) g4(2) 1(8)
    by (simp add: single_path_scan_def 0 g1(1) g2(1)[simplified] g3(1)[simplified] g4(1)[simplified])
qed

definition path_text :: "cstr \<Rightarrow> cstr" where
  \<comment> \<open>the text the scan leaves before \<open>pout\<close>\<close>
  "path_text path = fst (scan_em path)"

definition path_ok :: "cstr \<Rightarrow> bool" where
  \<comment> \<open>no control character comes before the fragment\<close>
  "path_ok path \<longleftrightarrow> stops (\<lambda>c. c \<noteq> CHR ''#'') (dropWhile urlch path)"

lemma single_path_scan_eq:
  obtains gap where
    "single_path_scan path = (rev (path_text path), gap, dropWhile urlch path, CHR '' '' \<in> set (path_text path))"
    "length (path_text path) + length gap + length (dropWhile urlch path) = length path"
proof -
  obtain e r where e: "scan_em path = (e, r)" by (rule prod.exhaust)
  with single_path_scan_em[OF e] scan_em_text[OF e] show ?thesis
    by (auto simp: path_text_def intro: that)
qed

lemma path_text_urlch: "\<forall>x \<in> set (path_text path). urlch x"
  by (metis path_text_def prod.collapse scan_em_text)

lemma length_path_text: "length (path_text path) \<le> length path"
  by (metis single_path_scan_eq le_add1 add.assoc)

definition sp_result :: "int \<Rightarrow> cstr \<Rightarrow> int \<times> cstr" where
  \<comment> \<open>the last step of the family: escape the spaces, when there are any, below the limit \<open>m\<close>\<close>
  "sp_result m e =
     (if CHR '' '' \<in> set e \<and> m \<le> int (length (space_escaped e)) then (0, e) else (1, space_escaped e))"

lemma sp_result_alt:
  "(if CHR '' '' \<in> set e then ul_space_escape_path e m else (1, e)) = sp_result m e"
  by (auto simp: sp_result_def ul_space_escape_path_eq space_escaped_id)

lemma ul_single_path_nointer_eq:
  "path_ok path \<Longrightarrow> ul_single_path_nointer path =
     (if 256 < length (path_text path) then (0, path_text path)
      else sp_result (int UL_MAX_PATH_LEN) (path_text path))"
  by (rule single_path_scan_eq[of path])
    (auto simp: ul_single_path_nointer_def path_ok_def stops_def simp flip: sp_result_alt)

lemma ul_single_path_ex_nointer_eq:
  "path_ok path \<Longrightarrow> ul_single_path_ex_nointer path (int (length path)) =
     sp_result (int UL_MAX_PATH_LEN_EX) (path_text path)"
  using length_path_text[of path]
  by (rule_tac single_path_scan_eq[of path])
    (auto simp: ul_single_path_ex_nointer_def path_ok_def stops_def simp flip: sp_result_alt)

lemma ul_single_path_ex2_nointer_eq:
  "path_ok path \<Longrightarrow> ul_single_path_ex2_nointer path (int (length path)) =
     sp_result (int UL_MAX_PATH_LEN_EX2) (path_text path)"
  using length_path_text[of path]
  by (rule_tac single_path_scan_eq[of path])
    (auto simp: ul_single_path_ex2_nointer_def path_ok_def stops_def ul_space_escape_path_ex2_eq
       simp flip: sp_result_alt)

lemma single_path_not_ok:
  assumes "\<not> path_ok path"
  shows "fst (ul_single_path_nointer path) = 0"
    and "fst (ul_single_path_ex_nointer path n) = 0"
    and "fst (ul_single_path_ex2_nointer path n) = 0"
proof -
  obtain gap where sc: "single_path_scan path =
      (rev (path_text path), gap, dropWhile urlch path, CHR '' '' \<in> set (path_text path))"
    by (rule single_path_scan_eq[of path])
  have c: "(dropWhile urlch path \<noteq> [] \<and> hd (dropWhile urlch path) \<noteq> CHR ''#'') = True"
    using assms by (simp add: path_ok_def stops_def)
  show "fst (ul_single_path_nointer path) = 0" "fst (ul_single_path_ex_nointer path n) = 0"
    "fst (ul_single_path_ex2_nointer path n) = 0"
    by (simp_all only: ul_single_path_nointer_def ul_single_path_ex_nointer_def ul_single_path_ex2_nointer_def
      sc prod.case c if_True fst_conv)
qed

lemma ul_single_path_ex_alt:
  "ul_single_path_ex path = ul_single_path_ex_nointer (delete_inter path) (int (length (delete_inter path)))"
  by (simp only: ul_single_path_ex_def ul_delete_inter_Some Let_def prod.case option.sel)

lemma ul_single_path_ex2_alt:
  "ul_single_path_ex2 path = ul_single_path_ex2_nointer (delete_inter path) (int (length (delete_inter path)))"
  by (simp only: ul_single_path_ex2_def ul_delete_inter_Some Let_def prod.case option.sel)

lemma sp_result_1:
  assumes "sp_result m e = (1, buf)"
  shows "buf = space_escaped e"
  using assms by (auto simp: sp_result_def split: if_splits)

lemma space_escaped_urlch: "\<forall>x \<in> set e. urlch x \<Longrightarrow> \<forall>x \<in> set (space_escaped e). urlch x"
proof (induction e)
  case (Cons c e)
  then have "\<forall>x \<in> set (esc_space c). urlch x" by (simp add: esc_space_def)
  with Cons show ?case by auto
qed simp

section \<open>Well-formed escapes keep their meaning\<close>

function wf_esc :: "cstr \<Rightarrow> bool" where
  \<comment> \<open>every \<^verbatim>\<open>%\<close> is followed by two hexadecimal digits that are not \<^verbatim>\<open>00\<close>\<close>
  "wf_esc [] \<longleftrightarrow> True"
| "wf_esc (c # s) \<longleftrightarrow>
     (if c = CHR ''%'' then 2 \<le> length s \<and> ul_to_char (s ! 0) (s ! 1) \<noteq> 0 \<and> wf_esc (drop 2 s) else wf_esc s)"
  by pat_completeness auto
termination by (relation "measure length") auto

function pdec :: "cstr \<Rightarrow> cstr" where
  \<comment> \<open>the octets a text stands for: each escape replaced by its octet\<close>
  "pdec [] = []"
| "pdec (c # s) =
     (if c = CHR ''%'' \<and> 2 \<le> length s \<and> ul_to_char (s ! 0) (s ! 1) \<noteq> 0
      then char_of (ul_to_char (s ! 0) (s ! 1)) # pdec (drop 2 s) else c # pdec s)"
  by pat_completeness auto
termination by (relation "measure length") auto

lemma wf_esc_append: "wf_esc s \<Longrightarrow> wf_esc (s @ t) \<longleftrightarrow> wf_esc t"
  by (induction s rule: wf_esc.induct) (auto simp: nth_append split: if_splits)

lemma pdec_append: "wf_esc s \<Longrightarrow> pdec (s @ t) = pdec s @ pdec t"
  by (induction s rule: wf_esc.induct) (auto simp: nth_append split: if_splits)

lemma ul_to_char_20: "ul_to_char CHR ''2'' CHR ''0'' = 32"
  by code_simp

lemma char_of_32 [simp]: "char_of (32 :: nat) = CHR '' ''"
  by code_simp

lemma reserved_space [simp]: "\<not> tab UL_RESERVED CHR '' ''"
  by (simp add: table_specs)

lemma reserved_percent [simp]: "tab UL_RESERVED CHR ''%''"
  by (simp add: table_specs)

text \<open>What one round writes for a well-formed text, and that writing it again changes nothing.\<close>

lemma esc_step_wf:
  assumes "esc_table t" "tab t c" "esc_step t c s = (em, rd, r)" "wf_esc (c # s)"
  shows "wf_esc r" and "wf_esc (space_escaped em)" and "pdec (c # s) = pdec (space_escaped em) @ pdec r"
    and "esc_em t (space_escaped em @ x) = (case esc_em t x of (e, r') \<Rightarrow> (em @ e, r'))"
    and "em \<noteq> []" and "hd em = c \<or> \<not> tab UL_RESERVED (hd em)"
proof -
  have pct: "tab t CHR ''%''" using assms(1) by (simp add: esc_table_def)
  have "wf_esc r \<and> wf_esc (space_escaped em) \<and> pdec (c # s) = pdec (space_escaped em) @ pdec r
    \<and> esc_em t (space_escaped em @ x) = (case esc_em t x of (e, r') \<Rightarrow> (em @ e, r'))
    \<and> em \<noteq> [] \<and> (hd em = c \<or> \<not> tab UL_RESERVED (hd em))"
    using assms(3)
  proof (cases rule: esc_step_cases)
    case plain
    have c: "c \<noteq> CHR ''%''"
    proof
      assume c: "c = CHR ''%''"
      with assms(4) obtain h0 h1 s' where "s = h0 # h1 # s'" "ul_to_char h0 h1 \<noteq> 0"
        by (cases s; cases "tl s") auto
      with plain(4)[OF c] show False by simp
    qed
    show ?thesis
    proof (cases "c = CHR '' ''")
      case True
      then have "tab t CHR '' ''" using assms(2) by simp
      then show ?thesis using plain c pct assms(4) True
        by (simp add: esc_space_def ul_to_char_20 esc_step_def Let_def split: prod.splits)
    next
      case False
      then show ?thesis using plain c assms(2,4)
        by (simp add: esc_space_def esc_step_def Let_def split: prod.splits)
    qed
  next
    case (escape h0 h1)
    let ?d = "char_of (ul_to_char h0 h1) :: char"
    note h = ul_to_char_hex[OF escape(3)]
    show ?thesis
    proof (cases "tab t ?d \<and> \<not> tab UL_RESERVED ?d")
      case True
      then have d: "em = [?d]" "?d \<noteq> CHR ''%''" using escape(5) reserved_percent by auto
      show ?thesis
      proof (cases "?d = CHR '' ''")
        case sp': True
        then show ?thesis using d True escape(1-3) assms(4) pct
          by (simp add: esc_space_def ul_to_char_20 esc_step_def Let_def split: prod.splits)
      next
        case False
        then show ?thesis using d True escape(1-3) assms(4) pct
          by (simp add: esc_space_def esc_step_def Let_def split: prod.splits)
      qed
    next
      case False
      then have "em = [c, h0, h1]" using escape(5) by auto
      then show ?thesis using False escape(1-3) assms(4) pct h
        by (simp add: esc_space_def esc_step_def Let_def split: prod.splits)
    qed
  qed
  then show "wf_esc r" and "wf_esc (space_escaped em)" and "pdec (c # s) = pdec (space_escaped em) @ pdec r"
    and "esc_em t (space_escaped em @ x) = (case esc_em t x of (e, r') \<Rightarrow> (em @ e, r'))"
    and "em \<noteq> []" and "hd em = c \<or> \<not> tab UL_RESERVED (hd em)" by auto
qed

lemma esc_em_wf:
  assumes "esc_table t" "esc_em t s = (e, r)" "wf_esc s"
  shows "wf_esc r \<and> wf_esc (space_escaped e) \<and> pdec s = pdec (space_escaped e) @ pdec r
    \<and> (stops (tab t) x \<longrightarrow> esc_em t (space_escaped e @ x) = (e, x))"
  using assms
proof (induction t s arbitrary: e rule: esc_em.induct)
  case (1 t)
  then show ?case by (cases x) auto
next
  case (2 t c s)
  show ?case
  proof (cases "tab t c")
    case True
    obtain em rd r1 where st: "esc_step t c s = (em, rd, r1)" by (rule prod_cases3)
    note step = esc_step_wf[OF 2(2) True st 2(4)]
    obtain e' where e': "esc_em t r1 = (e', r)" "e = em @ e'"
      using 2(3) True by (auto simp: st split: prod.splits)
    from 2(1)[OF _ st[symmetric] refl 2(2) e'(1) step(1)] True
    show ?thesis using step e' by (simp add: wf_esc_append pdec_append)
  qed (use 2 in \<open>cases x; auto\<close>)
qed

lemma grp_em_wf:
  assumes "esc_table t" "grp_em sep t s = (e, r)" "wf_esc s" "sep \<in> set ''/;?''"
  shows "wf_esc r \<and> wf_esc (space_escaped e) \<and> pdec s = pdec (space_escaped e) @ pdec r
    \<and> stops (\<lambda>c. c \<noteq> sep) (space_escaped e)
    \<and> (stops (tab t) x \<longrightarrow> stops (\<lambda>c. c = sep) x \<longrightarrow> (\<not> tab t sep \<or> e = [] \<or> x = []) \<longrightarrow>
        grp_em sep t (space_escaped e @ x) = (e, x))"
  using assms
proof (induction sep t s arbitrary: e rule: grp_em.induct)
  case (1 sep t)
  then show ?case by (cases x) auto
next
  case (2 sep t c s)
  show ?case
  proof (cases "c = sep")
    case True
    have c: "c \<noteq> CHR ''%''" "esc_space c = [c]" using True 2(5) by (auto simp: esc_space_def)
    obtain e1 r1 where em: "esc_em t s = (e1, r1)" by (rule prod.exhaust)
    obtain e2 where e2: "grp_em sep t r1 = (e2, r)" "e = c # e1 @ e2"
      using 2(3) True by (auto simp: em split: prod.splits)
    have "wf_esc s" using 2(4) c by simp
    note w1 = esc_em_wf[OF 2(2) em this]
    have IH: "wf_esc r \<and> wf_esc (space_escaped e2) \<and> pdec r1 = pdec (space_escaped e2) @ pdec r
        \<and> stops (\<lambda>c. c \<noteq> sep) (space_escaped e2)
        \<and> (stops (tab t) x \<longrightarrow> stops (\<lambda>c. c = sep) x \<longrightarrow> (\<not> tab t sep \<or> e2 = [] \<or> x = []) \<longrightarrow>
            grp_em sep t (space_escaped e2 @ x) = (e2, x))"
      using 2(1)[OF True em[symmetric] 2(2) e2(1) _ 2(5)] w1 by blast
    have "stops (tab t) r1" using esc_em_raw[OF 2(2) em] by (auto simp: stops_def)
    then have "e2 \<noteq> [] \<Longrightarrow> \<not> tab t sep" using e2(1) by (cases r1) (auto split: if_splits)
    then have "stops (tab t) x \<Longrightarrow> stops (tab t) (space_escaped e2 @ x)"
      using IH by (cases "space_escaped e2"; cases e2) (auto simp: stops_def esc_space_def split: if_splits)
    with IH w1 c e2 True show ?thesis using esc_em_wf[OF 2(2) em \<open>wf_esc s\<close>, of "space_escaped e2 @ x"]
      by (auto simp: wf_esc_append pdec_append)
  qed (use 2 in \<open>cases x; auto\<close>)
qed

lemma stops_append: "stops P s \<Longrightarrow> stops P t \<Longrightarrow> stops P (s @ t)"
  by (cases s) auto

lemma scan_em_wf:
  assumes "scan_em (CHR ''/'' # path) = (e, r)" "wf_esc path"
  shows "pdec (CHR ''/'' # path) = pdec (space_escaped e) @ pdec r \<and> scan_em (space_escaped e) = (e, [])
    \<and> wf_esc (space_escaped e)"
  using assms(1)
proof (cases rule: scan_em_stages)
  case (1 e0 r0 e1 r1 e2 r2 e3 r3 e4)
  then have e0: "e0 = ''/''" "r0 = path" by (auto simp: stops_def)
  note w4 = grp_em_wf[OF _ 1(7), of "[]"] and w3 = grp_em_wf[OF _ 1(6), of "space_escaped e4"]
    and w2 = grp_em_wf[OF _ 1(5), of "space_escaped (e3 @ e4)"]
    and w1 = esc_em_wf[OF _ 1(4), of "space_escaped (e2 @ e3 @ e4)"]
  have wf: "wf_esc r1" "wf_esc r2" "wf_esc r3" using w1 w2 w3 e0 assms(2) by auto
  have st: "stops (\<lambda>c. c \<noteq> CHR ''/'') (space_escaped e2)" "stops (\<lambda>c. c \<noteq> CHR '';'') (space_escaped e3)"
    "stops (\<lambda>c. c \<noteq> CHR ''?'') (space_escaped e4)" using w2 w3 w4 wf by auto
  have t: "\<not> tab UL_PCHAR CHR ''/''" "\<not> tab UL_PCHAR CHR '';''" "\<not> tab UL_PCHAR CHR ''?''"
    "\<not> tab UL_PARAM CHR '';''" "\<not> tab UL_PARAM CHR ''?''" by (simp_all add: table_specs)
  have "stops (tab UL_PCHAR) (space_escaped e4)" "stops (tab UL_PARAM) (space_escaped e4)"
    "stops (\<lambda>c. c = CHR '';'') (space_escaped e4)" "stops (\<lambda>c. c = CHR ''/'') (space_escaped e4)"
    using st(3) t by (cases "space_escaped e4"; auto)+
  moreover have "stops (tab UL_PCHAR) (space_escaped e3)" "stops (\<lambda>c. c = CHR ''/'') (space_escaped e3)"
    using st(2) t by (cases "space_escaped e3"; auto)+
  moreover have "stops (tab UL_PCHAR) (space_escaped e2)"
    using st(1) t by (cases "space_escaped e2"; auto)+
  ultimately have fx: "esc_em UL_PCHAR (space_escaped e1 @ space_escaped e2 @ space_escaped e3 @ space_escaped e4)
      = (e1, space_escaped e2 @ space_escaped e3 @ space_escaped e4)"
    "grp_em CHR ''/'' UL_PCHAR (space_escaped e2 @ space_escaped e3 @ space_escaped e4)
      = (e2, space_escaped e3 @ space_escaped e4)"
    "grp_em CHR '';'' UL_PARAM (space_escaped e3 @ space_escaped e4) = (e3, space_escaped e4)"
    "grp_em CHR ''?'' UL_UCH_RES (space_escaped e4) = (e4, [])"
    using w1 w2 w3 w4 wf t e0 assms(2) by (auto simp: stops_append)
  have sl: "esc_space CHR ''/'' = ''/''" by (simp add: esc_space_def)
  have "scan_em (space_escaped e) = (e, [])"
    unfolding 1(8) e0 by (simp add: sl scan_em_def fx)
  moreover have "pdec (CHR ''/'' # path) = pdec (space_escaped e) @ pdec r" "wf_esc (space_escaped e)"
    using w1 w2 w3 w4 wf e0 assms(2) by (auto simp: 1(8) sl pdec_append wf_esc_append)
  ultimately show ?thesis by simp
qed

section \<open>The properties of the family\<close>

lemma path_ok_alt: "path_ok p \<longleftrightarrow> (\<forall>c \<in> set (takeWhile (\<lambda>c. c \<noteq> CHR ''#'') p). 32 \<le> (of_char c :: nat))"
proof (induction p)
  case (Cons c p)
  then show ?case by (cases "c = CHR ''#''") (auto simp: path_ok_def urlch_def)
qed (simp add: path_ok_def)

lemma length_space_escaped_le: "length (space_escaped s) \<le> 3 * length s"
  by (induction s) (auto simp: esc_space_def)

lemma length_space_escaped_path_text:
  "length (space_escaped (path_text p)) \<le> 3 * length p"
  using length_space_escaped_le[of "path_text p"] length_path_text[of p] by linarith

lemma length_delete_inter: "length (delete_inter p) \<le> length p"
  by simp

lemma sp_result_bound: "sp_result m e = (1, buf) \<Longrightarrow> length buf \<le> max (length e) (nat (m - 1))"
  by (auto simp: sp_result_def space_escaped_id split: if_splits)

lemma ul_single_path_ex2_1:
  assumes "ul_single_path_ex2 path = (1, buf)"
  shows "path_ok (delete_inter path)"
    and "sp_result (int UL_MAX_PATH_LEN_EX2) (path_text (delete_inter path)) = (1, buf)"
    and "buf = space_escaped (path_text (delete_inter path))"
proof -
  show ok: "path_ok (delete_inter path)"
  proof (rule ccontr)
    assume "\<not> path_ok (delete_inter path)"
    from single_path_not_ok(3)[OF this] assms show False by (metis ul_single_path_ex2_alt fst_conv zero_neq_one)
  qed
  show r: "sp_result (int UL_MAX_PATH_LEN_EX2) (path_text (delete_inter path)) = (1, buf)"
    using assms ul_single_path_ex2_nointer_eq[OF ok] by (simp only: ul_single_path_ex2_alt)
  show "buf = space_escaped (path_text (delete_inter path))" by (rule sp_result_1[OF r])
qed

lemma ul_single_path_ex_1:
  assumes "ul_single_path_ex path = (1, buf)"
  shows "path_ok (delete_inter path)"
    and "sp_result (int UL_MAX_PATH_LEN_EX) (path_text (delete_inter path)) = (1, buf)"
    and "buf = space_escaped (path_text (delete_inter path))"
proof -
  show ok: "path_ok (delete_inter path)"
  proof (rule ccontr)
    assume "\<not> path_ok (delete_inter path)"
    from single_path_not_ok(2)[OF this] assms show False by (metis ul_single_path_ex_alt fst_conv zero_neq_one)
  qed
  show r: "sp_result (int UL_MAX_PATH_LEN_EX) (path_text (delete_inter path)) = (1, buf)"
    using assms ul_single_path_ex_nointer_eq[OF ok] by (simp only: ul_single_path_ex_alt)
  show "buf = space_escaped (path_text (delete_inter path))" by (rule sp_result_1[OF r])
qed

lemma ul_single_path_1:
  assumes "ul_single_path path = (1, buf)"
  shows "path_ok (delete_inter path)" and "length (path_text (delete_inter path)) \<le> 256"
    and "sp_result (int UL_MAX_PATH_LEN) (path_text (delete_inter path)) = (1, buf)"
    and "buf = space_escaped (path_text (delete_inter path))"
proof -
  show ok: "path_ok (delete_inter path)"
  proof (rule ccontr)
    assume "\<not> path_ok (delete_inter path)"
    from single_path_not_ok(1)[OF this] assms show False by (metis ul_single_path_def fst_conv zero_neq_one)
  qed
  have eq: "(if 256 < length (path_text (delete_inter path)) then (0, path_text (delete_inter path))
      else sp_result (int UL_MAX_PATH_LEN) (path_text (delete_inter path))) = (1, buf)"
    using assms ul_single_path_nointer_eq[OF ok] by (simp only: ul_single_path_def)
  then show "length (path_text (delete_inter path)) \<le> 256" by (metis not_le prod.inject zero_neq_one)
  with eq show r: "sp_result (int UL_MAX_PATH_LEN) (path_text (delete_inter path)) = (1, buf)"
    by (metis not_le)
  show "buf = space_escaped (path_text (delete_inter path))" by (rule sp_result_1[OF r])
qed

lemma single_path_buf_chars:
  assumes "buf = space_escaped (path_text p)" "c \<in> set buf"
  shows "33 \<le> (of_char c :: nat)" "c \<noteq> CHR ''#''" "urlch c" "c \<noteq> CHR '' ''"
proof -
  show u: "urlch c" and sp: "c \<noteq> CHR '' ''"
    using assms space_escaped_urlch[OF path_text_urlch] space_escaped_no_space by metis+
  have "(of_char c :: nat) \<noteq> of_char CHR '' ''" using sp by (blast dest: of_char_eq_iff[THEN iffD1])
  with u show "33 \<le> (of_char c :: nat)" "c \<noteq> CHR ''#''" by (auto simp: urlch_def)
qed

text \<open>\<open>ul_single_path_ex2\<close> accepts a path exactly when every byte before the fragment is at least
  0x20 once CR and LF are deleted; the only other reason to refuse, the limit \<open>UL_MAX_PATH_LEN_EX2\<close>
  on a text whose spaces have to be escaped, is out of reach for a path of less than a third of it.\<close>

theorem single_path_ex2_accepts:
  assumes "3 * length path < UL_MAX_PATH_LEN_EX2"
  shows "fst (ul_single_path_ex2 path) =
    (if \<forall>c \<in> set (takeWhile (\<lambda>c. c \<noteq> CHR ''#'') (delete_inter path)). 32 \<le> (of_char c :: nat) then 1 else 0)"
proof (cases "path_ok (delete_inter path)")
  case True
  have "length (space_escaped (path_text (delete_inter path))) < UL_MAX_PATH_LEN_EX2"
    using assms length_delete_inter[of path] length_space_escaped_path_text[of "delete_inter path"] by linarith
  with ul_single_path_ex2_nointer_eq[OF True] True show ?thesis
    by (simp del: delete_inter_eq add: ul_single_path_ex2_alt sp_result_def path_ok_alt)
next
  case False
  from single_path_not_ok(3)[OF this] False show ?thesis
    by (simp del: delete_inter_eq add: ul_single_path_ex2_alt path_ok_alt)
qed

theorem single_path_ex2_accepts_witness:
  "3 * length ''/a b?x#y'' < UL_MAX_PATH_LEN_EX2 \<and> fst (ul_single_path_ex2 ''/a b?x#y'') = 1"
  using single_path_ex2_accepts[of "''/a b?x#y''"] by (simp add: ul_max_defs)

text \<open>The text \<open>ul_single_path_ex2\<close> leaves in the buffer has no control character, no space and no
  fragment, and is no longer than the input or, when spaces were escaped, than \<open>UL_MAX_PATH_LEN_EX2 - 1\<close>:
  the function works in place.\<close>

theorem single_path_ex2_output:
  assumes "ul_single_path_ex2 path = (1, buf)"
  shows "(\<forall>c \<in> set buf. 33 \<le> (of_char c :: nat) \<and> c \<noteq> CHR ''#'')
    \<and> length buf \<le> max (length path) (UL_MAX_PATH_LEN_EX2 - 1)"
proof -
  let ?e = "path_text (delete_inter path)"
  have "length buf \<le> max (length ?e) (UL_MAX_PATH_LEN_EX2 - 1)"
    using sp_result_bound[OF ul_single_path_ex2_1(2)[OF assms]] by (simp add: ul_max_defs)
  then show ?thesis
    using length_path_text[of "delete_inter path"] length_delete_inter[of path]
      single_path_buf_chars[OF ul_single_path_ex2_1(3)[OF assms]]
    by (auto simp del: delete_inter_eq)
qed

theorem single_path_ex2_output_witness:
  "ul_single_path_ex2 ''/a%20b'' = (1, ''/a%20b'') \<and> length ''/a%20b'' \<le> max (length ''/a%20b'') (UL_MAX_PATH_LEN_EX2 - 1)"
proof -
  have e: "ul_single_path_ex2 ''/a%20b'' = (1, ''/a%20b'')" by code_simp
  from single_path_ex2_output[OF e] e show ?thesis by simp
qed

lemma path_text_wf:
  assumes "wf_esc path"
  shows "pdec (CHR ''/'' # path) = pdec (space_escaped (path_text (CHR ''/'' # path))) @ pdec (dropWhile urlch path)"
    and "path_text (space_escaped (path_text (CHR ''/'' # path))) = path_text (CHR ''/'' # path)"
proof -
  obtain e r where e: "scan_em (CHR ''/'' # path) = (e, r)" by (rule prod.exhaust)
  from scan_em_wf[OF e assms] scan_em_text[OF e] e
  show "pdec (CHR ''/'' # path) = pdec (space_escaped (path_text (CHR ''/'' # path))) @ pdec (dropWhile urlch path)"
    and "path_text (space_escaped (path_text (CHR ''/'' # path))) = path_text (CHR ''/'' # path)"
    by (simp_all add: path_text_def)
qed

text \<open>C5: on a text whose escapes are well formed, \<open>ul_single_path_ex2\<close> changes only the spelling: the
  result and the input up to its fragment stand for the same octets.\<close>

theorem single_path_ex2_meaning:
  assumes "ul_single_path_ex2 (CHR ''/'' # path) = (1, buf)" "wf_esc (delete_inter path)"
  shows "pdec (CHR ''/'' # delete_inter path) = pdec buf @ pdec (dropWhile urlch (delete_inter path))"
  using path_text_wf(1)[OF assms(2)] ul_single_path_ex2_1(3)[OF assms(1)] by simp

theorem single_path_ex2_meaning_witness:
  "ul_single_path_ex2 ''/%41%2f%20b#%43'' = (1, ''/A%2f%20b'') \<and> wf_esc (delete_inter ''%41%2f%20b#%43'')
   \<and> pdec ''/%41%2f%20b#%43'' = pdec ''/A%2f%20b'' @ pdec ''#%43''"
proof -
  have e: "ul_single_path_ex2 ''/%41%2f%20b#%43'' = (1, ''/A%2f%20b'')" by code_simp
  have w: "wf_esc (delete_inter ''%41%2f%20b#%43'')" by code_simp
  have d: "delete_inter ''%41%2f%20b#%43'' = ''%41%2f%20b#%43''" "dropWhile urlch ''%41%2f%20b#%43'' = ''#%43''"
    by code_simp+
  show ?thesis using single_path_ex2_meaning[OF e w] e w unfolding d by simp
qed

text \<open>On such a text the normal form is stable: a second call succeeds and leaves the text as it is.\<close>

theorem single_path_ex2_idem:
  assumes "ul_single_path_ex2 (CHR ''/'' # path) = (1, buf)" "wf_esc (delete_inter path)"
  shows "ul_single_path_ex2 buf = (1, buf)"
proof -
  let ?e = "path_text (CHR ''/'' # delete_inter path)"
  have r: "sp_result (int UL_MAX_PATH_LEN_EX2) ?e = (1, buf)" and b: "buf = space_escaped ?e"
    using ul_single_path_ex2_1(2,3)[OF assms(1)] by simp_all
  note ch = single_path_buf_chars[OF b]
  have d: "delete_inter buf = buf" using ch(1) by (force simp: filter_id_conv)
  have dn: "dropWhile urlch buf = []" using ch(3) by (simp add: dropWhile_eq_Nil_conv)
  have "path_ok buf" unfolding path_ok_def dn by simp
  from ul_single_path_ex2_nointer_eq[OF this] have "ul_single_path_ex2 buf = sp_result (int UL_MAX_PATH_LEN_EX2) (path_text buf)"
    unfolding ul_single_path_ex2_alt d .
  also have "path_text buf = ?e" unfolding b by (rule path_text_wf(2)[OF assms(2)])
  finally show ?thesis using r by simp
qed

theorem single_path_ex2_idem_witness:
  "ul_single_path_ex2 ''/%41%2f%20b#%43'' = (1, ''/A%2f%20b'') \<and> ul_single_path_ex2 ''/A%2f%20b'' = (1, ''/A%2f%20b'')"
proof -
  have e: "ul_single_path_ex2 ''/%41%2f%20b#%43'' = (1, ''/A%2f%20b'')" by code_simp
  have w: "wf_esc (delete_inter ''%41%2f%20b#%43'')" by code_simp
  show ?thesis using single_path_ex2_idem[OF e w] e by simp
qed

text \<open>A stray \<^verbatim>\<open>%\<close> breaks this: it can become the start of an escape once what follows it is decoded.\<close>

lemma single_path_ex2_not_idem:
  "ul_single_path_ex2 ''/%%34%31'' = (1, ''/%41'') \<and> ul_single_path_ex2 ''/%41'' = (1, ''/A'')"
proof
  show "ul_single_path_ex2 ''/%%34%31'' = (1, ''/%41'')" by code_simp
  show "ul_single_path_ex2 ''/%41'' = (1, ''/A'')" by code_simp
qed

end
