(* ===== verification/Url_Parse.thy ===== *)
theory Url_Parse
  imports Url_Path
begin

text \<open>
  Splitting a URL: \<open>ul_parse_url\<close>, its variants \<open>_ex\<close>, \<open>_ex2\<close> and \<open>_vhplink\<close>, the accessors
  \<open>ul_get_path\<close>, \<open>ul_get_site\<close>, \<open>ul_get_port\<close>, the \<open>ul_get_static_part\<close> family and \<open>ul_isdyn\<close> of
  \<^verbatim>\<open>ullib/src/ul_url.cpp\<close>.

  The out parameters are the fields of \<open>url_parts\<close>: \<open>None\<close> is a null pointer, \<open>Some s\<close> a buffer that
  holds \<open>s\<close>. They are passed in and returned, as the functions leave some of them written when they fail.
\<close>

record url_parts =
  p_site :: "cstr option"
  p_port :: "cstr option"
  p_path :: "cstr option"

definition size_pred :: "nat \<Rightarrow> nat" where
  \<comment> \<open>\<open>n - 1\<close> on \<open>size_t\<close>\<close>
  "size_pred n = (if n = 0 then 2 ^ 64 - 1 else n - 1)"

definition strip_http :: "cstr \<Rightarrow> cstr" where
  \<comment> \<open>\<open>if(strncasecmp(pin,"http://",7) == 0) pin+=7;\<close>\<close>
  "strip_http pin = (if strncasecmp_eq pin ''http://'' 7 then drop 7 pin else pin)"

definition parse_path :: "nat \<Rightarrow> cstr \<Rightarrow> cstr option \<Rightarrow> cstr option + cstr option \<times> cstr" where
  \<comment> \<open>the block "get path": \<open>Inl\<close> is \<open>return 0\<close>, with the path buffer as it is then; \<open>Inr\<close> is the path
      buffer and the string at \<open>pin\<close> after the path was cut off\<close>
  "parse_path max_path_size pin path =
     (let p_slash = strchr pin CHR ''/''; p_query = strchr pin CHR ''?'';
          p = (if p_slash = None then p_query else p_slash)
      in case p_query of
           Some j \<Rightarrow>
             (if j \<le> the p then
                (if path \<noteq> None then
                   (if length (drop j pin) < size_pred max_path_size
                    then Inr (Some (CHR ''/'' # drop j pin), take j pin) else Inl (Some []))
                 else Inr (None, take j pin))
              else
                (if path \<noteq> None then
                   (if length (drop (the p) pin) < max_path_size
                    then Inr (Some (drop (the p) pin), take (the p) pin) else Inl (Some []))
                 else Inr (None, take (the p) pin)))
         | None \<Rightarrow>
             (case p of
                Some i \<Rightarrow>
                  (if path \<noteq> None then
                     (if length (drop i pin) < max_path_size
                      then Inr (Some (drop i pin), take i pin) else Inl (Some []))
                   else Inr (None, take i pin))
              | None \<Rightarrow> Inr (map_option (\<lambda>_. ''/'') path, pin)))"

definition parse_port :: "nat \<Rightarrow> cstr \<Rightarrow> cstr option \<Rightarrow> cstr option + cstr option \<times> cstr" where
  \<comment> \<open>the block "get port" and the check of the default port\<close>
  "parse_port port_size pin port =
     (case strchr pin CHR '':'' of
        Some i \<Rightarrow>
          (case port of
             Some _ \<Rightarrow>
               (let q = drop i pin in
                if length q < port_size \<and> 0 < atoi (tl q)
                then Inr (Some (if strncmp_eq (tl q) ''80'' 3 then [] else tl q), take i pin)
                else Inl (Some []))
           | None \<Rightarrow> Inr (None, take i pin))
      | None \<Rightarrow> Inr (map_option (\<lambda>_. []) port, pin))"

definition parse_site :: "nat \<Rightarrow> cstr \<Rightarrow> cstr option \<Rightarrow> int \<times> cstr option" where
  \<comment> \<open>the block "get site"\<close>
  "parse_site site_size pin site =
     (case site of
        None \<Rightarrow> (1, None)
      | Some _ \<Rightarrow> if pin \<noteq> [] \<and> length pin < site_size then (1, Some pin) else (0, Some []))"

definition parse_url_body :: "nat \<Rightarrow> nat \<Rightarrow> nat \<Rightarrow> cstr \<Rightarrow> url_parts \<Rightarrow> int \<times> url_parts" where
  \<comment> \<open>the body shared by the three functions, after \<open>ul_delete_inter(tmp)\<close>\<close>
  "parse_url_body site_size port_size path_size tmp o0 =
     (case parse_path path_size (strip_http tmp) (p_path o0) of
        Inl path \<Rightarrow> (0, o0\<lparr>p_path := path\<rparr>)
      | Inr (path, pin) \<Rightarrow>
          (let o1 = o0\<lparr>p_path := path\<rparr> in
           case parse_port port_size pin (p_port o1) of
             Inl port \<Rightarrow> (0, o1\<lparr>p_port := port\<rparr>)
           | Inr (port, pin') \<Rightarrow>
               (let o2 = o1\<lparr>p_port := port\<rparr>; (r, site) = parse_site site_size pin' (p_site o2)
                in (r, o2\<lparr>p_site := site\<rparr>))))"

definition ul_parse_url :: "cstr \<Rightarrow> url_parts \<Rightarrow> int \<times> url_parts" where
  "ul_parse_url input o0 =
     (if UL_MAX_URL_LEN \<le> length input then (0, o0)
      else parse_url_body UL_MAX_SITE_LEN UL_MAX_PORT_LEN UL_MAX_PATH_LEN (delete_inter input) o0)"

definition ul_parse_url_ex :: "cstr \<Rightarrow> url_parts \<Rightarrow> nat \<Rightarrow> nat \<Rightarrow> nat \<Rightarrow> int \<times> url_parts" where
  "ul_parse_url_ex input o0 site_size port_size max_path_size =
     (if UL_MAX_URL_LEN_EX \<le> length input then (0, o0)
      else parse_url_body site_size port_size max_path_size (delete_inter input) o0)"

definition ul_parse_url_ex2 :: "cstr \<Rightarrow> url_parts \<Rightarrow> nat \<Rightarrow> nat \<Rightarrow> nat \<Rightarrow> int \<times> url_parts" where
  "ul_parse_url_ex2 input o0 site_size port_size max_path_size =
     (if UL_MAX_URL_LEN_EX2 \<le> length input then (0, o0)
      else parse_url_body site_size port_size max_path_size (delete_inter input) o0)"

section \<open>The accessors\<close>

definition ul_get_path :: "cstr \<Rightarrow> cstr option \<Rightarrow> cstr option \<times> cstr option" where
  \<comment> \<open>the returned pointer and the buffer\<close>
  "ul_get_path url path =
     (let (r, o1) = ul_parse_url url \<lparr>p_site = None, p_port = None, p_path = path\<rparr>
      in (if r = 0 then None else p_path o1, p_path o1))"

definition ul_get_site :: "cstr \<Rightarrow> cstr option \<Rightarrow> cstr option \<times> cstr option" where
  "ul_get_site url site =
     (let (r, o1) = ul_parse_url url \<lparr>p_site = site, p_port = None, p_path = None\<rparr>
      in (if r = 0 then None else p_site o1, p_site o1))"

definition port_number :: "int \<times> url_parts \<Rightarrow> int \<times> int option" where
  \<comment> \<open>the end of the \<open>ul_get_port\<close> functions: the return value and what is stored in \<open>*pport\<close>\<close>
  "port_number res =
     (let (r, o1) = res; strport = the (p_port o1)
      in if r = 1 then (if length strport = 0 then (1, Some 80) else (1, Some (atoi strport))) else (0, None))"

definition ul_get_port :: "cstr \<Rightarrow> int \<times> int option" where
  "ul_get_port url = port_number (ul_parse_url url \<lparr>p_site = None, p_port = Some [], p_path = None\<rparr>)"

definition ul_get_path_ex :: "cstr \<Rightarrow> cstr option \<Rightarrow> nat \<Rightarrow> cstr option \<times> cstr option" where
  "ul_get_path_ex url path path_size =
     (let (r, o1) = ul_parse_url_ex url \<lparr>p_site = None, p_port = None, p_path = path\<rparr> 0 0 path_size
      in (if r = 0 then None else p_path o1, p_path o1))"

definition ul_get_site_ex :: "cstr \<Rightarrow> cstr option \<Rightarrow> nat \<Rightarrow> cstr option \<times> cstr option" where
  "ul_get_site_ex url site site_size =
     (let (r, o1) = ul_parse_url_ex url \<lparr>p_site = site, p_port = None, p_path = None\<rparr> site_size 0 0
      in (if r = 0 then None else p_site o1, p_site o1))"

definition ul_get_port_ex :: "cstr \<Rightarrow> int \<times> int option" where
  "ul_get_port_ex url =
     port_number (ul_parse_url_ex url \<lparr>p_site = None, p_port = Some [], p_path = None\<rparr> 0 UL_MAX_PORT_LEN 0)"

definition ul_get_path_ex2 :: "cstr \<Rightarrow> cstr option \<Rightarrow> nat \<Rightarrow> cstr option \<times> cstr option" where
  "ul_get_path_ex2 url path path_size =
     (let (r, o1) = ul_parse_url_ex2 url \<lparr>p_site = None, p_port = None, p_path = path\<rparr> 0 0 path_size
      in (if r = 0 then None else p_path o1, p_path o1))"

definition ul_get_site_ex2 :: "cstr \<Rightarrow> cstr option \<Rightarrow> nat \<Rightarrow> cstr option \<times> cstr option" where
  "ul_get_site_ex2 url site site_size =
     (let (r, o1) = ul_parse_url_ex2 url \<lparr>p_site = site, p_port = None, p_path = None\<rparr> site_size 0 0
      in (if r = 0 then None else p_site o1, p_site o1))"

definition ul_get_port_ex2 :: "cstr \<Rightarrow> int \<times> int option" where
  "ul_get_port_ex2 url =
     port_number (ul_parse_url_ex2 url \<lparr>p_site = None, p_port = Some [], p_path = None\<rparr> 0 UL_MAX_PORT_LEN 0)"

definition cut_at :: "char \<Rightarrow> cstr \<Rightarrow> cstr" where
  \<comment> \<open>\<open>p = strchr(buffer, c); if (p != NULL) *p = '\0';\<close>\<close>
  "cut_at c s = (case strchr s c of Some i \<Rightarrow> take i s | None \<Rightarrow> s)"

definition ul_get_static_part :: "cstr \<Rightarrow> cstr option" where
  \<comment> \<open>the text copied to \<open>staticurl\<close>; \<open>None\<close> is the failed assertion\<close>
  "ul_get_static_part url =
     (if length url < UL_MAX_URL_LEN then Some (cut_at CHR '';'' (cut_at CHR ''?'' url)) else None)"

definition ul_get_static_part_ex :: "cstr \<Rightarrow> nat \<Rightarrow> cstr option" where
  "ul_get_static_part_ex url staticurl_size =
     (if length url < UL_MAX_URL_LEN_EX
      then Some (snprintf_buf staticurl_size (cut_at CHR '';'' (cut_at CHR ''?'' url))) else None)"

definition ul_get_static_part_ex2 :: "cstr \<Rightarrow> nat \<Rightarrow> cstr option" where
  "ul_get_static_part_ex2 url staticurl_size =
     (if length url < UL_MAX_URL_LEN_EX2
      then Some (snprintf_buf staticurl_size (cut_at CHR '';'' (cut_at CHR ''?'' url))) else None)"

fun ul_isdyn :: "cstr \<Rightarrow> int" where
  \<comment> \<open>\<open>while(ul_dyn_char_table[*pch++]); return *(--pch);\<close> the terminator ends the loop and is returned as 0\<close>
  "ul_isdyn [] = 0"
| "ul_isdyn (c # s) = (if tab ul_dyn_char_table c then ul_isdyn s else int (of_char c))"

section \<open>The variant that keeps the fragment\<close>

definition vhplink_root :: "cstr \<Rightarrow> cstr" where
  \<comment> \<open>the string at \<open>pin\<close> after a missing slash was inserted before the query or the fragment\<close>
  "vhplink_root pin =
     (let p = strchr pin CHR ''/''; p_query = strchr pin CHR ''?''; p_frag = strchr pin CHR ''#'';
          p_front = (case p_frag of
              Some f \<Rightarrow> (case p_query of Some j \<Rightarrow> if f < j then Some f else Some j | None \<Rightarrow> Some f)
            | None \<Rightarrow> p_query)
      in case p_front of
           Some k \<Rightarrow> (if p = None \<or> k \<le> the p then take k pin @ CHR ''/'' # drop k pin else pin)
         | None \<Rightarrow> pin)"

definition split_frag :: "cstr option \<Rightarrow> cstr option \<Rightarrow> (cstr option \<times> cstr option) option" where
  \<comment> \<open>"if path has fragment like #xxx, split it"; \<open>None\<close> is \<open>return 0\<close>\<close>
  "split_frag path frag =
     (case (path, frag) of
        (Some s, Some _) \<Rightarrow>
          (case strchr s CHR ''#'' of
             Some i \<Rightarrow> if length (drop i s) < UL_MAX_FRAG_LEN then Some (Some (take i s), Some (drop i s)) else None
           | None \<Rightarrow> Some (Some s, Some []))
      | _ \<Rightarrow> Some (path, frag))"

definition parse_url_vhplink_body :: "cstr \<Rightarrow> url_parts \<Rightarrow> cstr option \<Rightarrow> int \<times> url_parts \<times> cstr option" where
  "parse_url_vhplink_body pin o0 frag =
     (case parse_path UL_MAX_PATH_LEN pin (p_path o0) of
        Inl path \<Rightarrow> (0, o0\<lparr>p_path := path\<rparr>, frag)
      | Inr (path, pin) \<Rightarrow>
          (case split_frag path frag of
             None \<Rightarrow> (0, o0\<lparr>p_path := path\<rparr>, frag)
           | Some (path', frag') \<Rightarrow>
               (let o1 = o0\<lparr>p_path := path'\<rparr> in
                case parse_port UL_MAX_PORT_LEN pin (p_port o1) of
                  Inl port \<Rightarrow> (0, o1\<lparr>p_port := port\<rparr>, frag')
                | Inr (port, pin') \<Rightarrow>
                    (let o2 = o1\<lparr>p_port := port\<rparr>; (r, site) = parse_site UL_MAX_SITE_LEN pin' (p_site o2)
                     in (r, o2\<lparr>p_site := site\<rparr>, frag')))))"

definition ul_parse_url_vhplink :: "cstr \<Rightarrow> url_parts \<Rightarrow> cstr option \<Rightarrow> (int \<times> url_parts \<times> cstr option) option" where
  \<comment> \<open>\<open>None\<close>: the inserted slash overruns \<open>tmp\<close>\<close>
  "ul_parse_url_vhplink input o0 frag =
     (if UL_MAX_URL_LEN \<le> length input then Some (0, o0, frag)
      else let tmp = delete_inter input; pin = strip_http tmp; pin' = vhplink_root pin
        in if UL_MAX_URL_LEN \<le> length tmp + (length pin' - length pin) then None
           else Some (parse_url_vhplink_body pin' o0 frag))"

section \<open>What the blocks return\<close>

lemma strchr_cut:
  assumes "strchr s c = Some i"
  shows "c \<notin> set (take i s)" "drop i s = c # drop (Suc i) s" "i < length s"
    "take i s @ c # drop (Suc i) s = s"
  using assms[unfolded strchr_Some_iff] by (auto simp: Cons_nth_drop_Suc id_take_nth_drop[symmetric])

lemma strchr_before: "strchr s c = None \<or> i \<le> the (strchr s c) \<Longrightarrow> c \<notin> set (take i s)"
proof (cases "strchr s c")
  case None
  then show ?thesis by (auto simp: strchr_None_iff dest: in_set_takeD)
next
  case (Some k)
  assume "strchr s c = None \<or> i \<le> the (strchr s c)"
  with Some have "set (take i s) \<subseteq> set (take k s)" by (simp add: set_take_subset_set_take)
  with strchr_cut(1)[OF Some] show ?thesis by auto
qed

definition rooted :: "cstr \<Rightarrow> cstr" where
  \<comment> \<open>the path of a URL whose text after the authority is \<open>rest\<close>\<close>
  "rooted rest = (if rest = [] \<or> hd rest = CHR ''?'' then CHR ''/'' # rest else rest)"

lemma parse_path_Inr:
  assumes "parse_path n pin path = Inr (path', pin')"
  obtains rest where "pin = pin' @ rest" "path' = map_option (\<lambda>_. rooted rest) path"
    "CHR ''/'' \<notin> set pin'" "CHR ''?'' \<notin> set pin'" "rest = [] \<or> hd rest = CHR ''/'' \<or> hd rest = CHR ''?''"
    "path \<noteq> None \<Longrightarrow> 2 \<le> n \<Longrightarrow> length (rooted rest) < n"
proof (cases "strchr pin CHR ''?''")
  case q: None
  then have nq: "CHR ''?'' \<notin> set pin" by (simp add: strchr_None_iff)
  show ?thesis
  proof (cases "strchr pin CHR ''/''")
    case None
    then have "CHR ''/'' \<notin> set pin" by (simp add: strchr_None_iff)
    then show ?thesis using assms q None nq
      by (intro that[of "[]"]) (auto simp: parse_path_def rooted_def)
  next
    case (Some i)
    note c = strchr_cut[OF Some]
    have "CHR ''?'' \<notin> set (take i pin)" using nq by (auto dest: in_set_takeD)
    then show ?thesis using assms q Some c
      by (intro that[of "drop i pin"]) (auto simp: parse_path_def rooted_def split: if_splits)
  qed
next
  case q: (Some j)
  note cj = strchr_cut[OF q]
  show ?thesis
  proof (cases "strchr pin CHR ''/'' = None \<or> j \<le> the (strchr pin CHR ''/'')")
    case True
    from strchr_before[OF this] have ns: "CHR ''/'' \<notin> set (take j pin)" .
    have "parse_path n pin path = (if path \<noteq> None then
        if length (drop j pin) < size_pred n then Inr (Some (CHR ''/'' # drop j pin), take j pin) else Inl (Some [])
        else Inr (None, take j pin))"
      using q True by (auto simp: parse_path_def Let_def)
    then show ?thesis using assms cj ns
      by (intro that[of "drop j pin"]) (auto simp: rooted_def size_pred_def split: if_splits)
  next
    case False
    then obtain i where i: "strchr pin CHR ''/'' = Some i" "i < j" by auto
    have nq: "CHR ''?'' \<notin> set (take i pin)" using i(2) q by (intro strchr_before) simp
    have "parse_path n pin path = (if path \<noteq> None then
        if length (drop i pin) < n then Inr (Some (drop i pin), take i pin) else Inl (Some [])
        else Inr (None, take i pin))"
      using q i by (simp add: parse_path_def Let_def)
    then show ?thesis using assms nq strchr_cut[OF i(1)]
      by (intro that[of "drop i pin"]) (auto simp: rooted_def split: if_splits)
  qed
qed

lemma parse_path_Inl: "parse_path n pin path = Inl path' \<Longrightarrow> path \<noteq> None \<and> path' = Some []"
  by (auto simp: parse_path_def Let_def split: if_splits option.splits)

lemma strncmp_80: "strncmp_eq s ''80'' 3 \<longleftrightarrow> s = ''80''"
proof
  assume "strncmp_eq s ''80'' 3"
  then have "take 3 s = ''80''" by (simp add: strncmp_eq_def)
  then have "length s \<le> 2" by (metis length_take One_nat_def Suc_1 length_Cons list.size(3) min_def nat_le_linear numeral_3_eq_3 not_less_eq_eq)
  with \<open>take 3 s = ''80''\<close> show "s = ''80''" by simp
qed (simp add: strncmp_eq_def)

lemma parse_port_Inr:
  assumes "parse_port n pin port = Inr (port', pin')"
  obtains portpart where "pin = pin' @ portpart" "CHR '':'' \<notin> set pin'"
    "portpart = [] \<and> port' = map_option (\<lambda>_. []) port
     \<or> (\<exists>s. portpart = CHR '':'' # s \<and> (port \<noteq> None \<longrightarrow> 0 < atoi s \<and> Suc (length s) < n)
          \<and> port' = map_option (\<lambda>_. if s = ''80'' then [] else s) port)"
proof (cases "strchr pin CHR '':''")
  case None
  then have "CHR '':'' \<notin> set pin" by (simp add: strchr_None_iff)
  then show ?thesis using assms None by (intro that[of "[]"]) (auto simp: parse_port_def)
next
  case (Some i)
  note c = strchr_cut[OF Some]
  have p: "pin' = take i pin" using assms Some by (auto simp: parse_port_def Let_def split: option.splits if_splits)
  show ?thesis
  proof (rule that[of "drop i pin"])
    show "pin = pin' @ drop i pin" "CHR '':'' \<notin> set pin'" using p c by simp_all
    show "drop i pin = [] \<and> port' = map_option (\<lambda>_. []) port
     \<or> (\<exists>s. drop i pin = CHR '':'' # s \<and> (port \<noteq> None \<longrightarrow> 0 < atoi s \<and> Suc (length s) < n)
          \<and> port' = map_option (\<lambda>_. if s = ''80'' then [] else s) port)"
      using assms Some unfolding parse_port_def Let_def c(2)
      by (auto simp: strncmp_80 c(2) split: option.splits if_splits)
  qed
qed

lemma parse_port_Inl: "parse_port n pin port = Inl port' \<Longrightarrow> port \<noteq> None \<and> port' = Some []"
  by (auto simp: parse_port_def Let_def split: if_splits option.splits)

lemma parse_site_cases:
  "parse_site n pin site = (r, site') \<Longrightarrow>
     (site = None \<and> site' = None \<and> r = 1)
     \<or> (site \<noteq> None \<and> r = 1 \<and> site' = Some pin \<and> pin \<noteq> [] \<and> length pin < n)
     \<or> (site \<noteq> None \<and> r = 0 \<and> site' = Some [])"
  by (auto simp: parse_site_def split: option.splits if_splits)

section \<open>Properties\<close>

definition fits :: "nat \<Rightarrow> cstr option \<Rightarrow> bool" where
  \<comment> \<open>the text and its terminator are within a buffer of \<open>n\<close> bytes\<close>
  "fits n b \<longleftrightarrow> (case b of None \<Rightarrow> True | Some s \<Rightarrow> length s < n)"

lemma parse_url_body_cases:
  assumes "parse_url_body ss ps hs tmp o0 = (r, o1)"
  obtains (path_err) "r = 0" "p_path o0 \<noteq> None" "o1 = o0\<lparr>p_path := Some []\<rparr>"
  | (port_err) path pin where "r = 0" "parse_path hs (strip_http tmp) (p_path o0) = Inr (path, pin)"
      "p_port o0 \<noteq> None" "o1 = o0\<lparr>p_path := path, p_port := Some []\<rparr>"
  | (site) path pin port pin' site where "parse_path hs (strip_http tmp) (p_path o0) = Inr (path, pin)"
      "parse_port ps pin (p_port o0) = Inr (port, pin')" "parse_site ss pin' (p_site o0) = (r, site)"
      "o1 = o0\<lparr>p_path := path, p_port := port, p_site := site\<rparr>"
proof (cases "parse_path hs (strip_http tmp) (p_path o0)")
  case (Inl path)
  then show ?thesis using assms parse_path_Inl[OF Inl] by (intro path_err) (auto simp: parse_url_body_def)
next
  case (Inr pp)
  obtain path pin where pp: "pp = (path, pin)" by (rule prod.exhaust)
  show ?thesis
  proof (cases "parse_port ps pin (p_port o0)")
    case (Inl port)
    then show ?thesis using assms Inr pp parse_port_Inl[OF Inl]
      by (intro port_err[of path pin]) (auto simp: parse_url_body_def Let_def)
  next
    case q: (Inr qq)
    obtain port pin' where qq: "qq = (port, pin')" by (rule prod.exhaust)
    obtain r' site where st: "parse_site ss pin' (p_site o0) = (r', site)" by (rule prod.exhaust)
    show ?thesis using assms Inr pp q qq st
      by (intro site[of path pin port pin' site]) (auto simp: parse_url_body_def Let_def)
  qed
qed

lemma parse_url_body_fits:
  assumes "parse_url_body ss ps hs tmp o0 = (r, o1)"
    and "0 < ss" "0 < ps" "2 \<le> hs" "fits ss (p_site o0)" "fits ps (p_port o0)" "fits hs (p_path o0)"
  shows "fits ss (p_site o1) \<and> fits ps (p_port o1) \<and> fits hs (p_path o1)"
  using assms(1)
proof (cases rule: parse_url_body_cases)
  case path_err
  then show ?thesis using assms by (simp add: fits_def)
next
  case (port_err path pin)
  from port_err(2) have "fits hs path" using assms(4) by (rule_tac parse_path_Inr) (auto simp: fits_def split: option.splits)
  then show ?thesis using assms port_err by (simp add: fits_def)
next
  case (site path pin port pin' site)
  from site(1) have "fits hs path" using assms(4) by (rule_tac parse_path_Inr) (auto simp: fits_def split: option.splits)
  moreover have "fits ps port"
  proof -
    from site(2) obtain portpart where "portpart = [] \<and> port = map_option (\<lambda>_. []) (p_port o0)
      \<or> (\<exists>s. portpart = CHR '':'' # s \<and> (p_port o0 \<noteq> None \<longrightarrow> 0 < atoi s \<and> Suc (length s) < ps)
          \<and> port = map_option (\<lambda>_. if s = ''80'' then [] else s) (p_port o0))"
      by (rule parse_port_Inr)
    then show ?thesis using assms(3) by (cases "p_port o0") (auto simp: fits_def)
  qed
  moreover have "fits ss site"
    using parse_site_cases[OF site(3)] assms(2) by (auto simp: fits_def)
  ultimately show ?thesis using site by simp
qed



lemma parse_url_body_parts:
  assumes "parse_url_body ss ps hs tmp o0 = (1, o1)" "p_site o0 \<noteq> None" "p_port o0 \<noteq> None" "p_path o0 \<noteq> None"
  obtains site portpart rest where "strip_http tmp = site @ portpart @ rest"
    "p_site o1 = Some site" "p_path o1 = Some (rooted rest)"
    "portpart = [] \<and> p_port o1 = Some [] \<or> (\<exists>s. portpart = CHR '':'' # s \<and> 0 < atoi s \<and> Suc (length s) < ps
        \<and> p_port o1 = Some (if s = ''80'' then [] else s))"
    "site \<noteq> []" "set site \<inter> {CHR ''/'', CHR ''?'', CHR '':''} = {}" "length site < ss"
    "rest = [] \<or> hd rest = CHR ''/'' \<or> hd rest = CHR ''?''" "2 \<le> hs \<Longrightarrow> length (rooted rest) < hs"
    "set portpart \<inter> {CHR ''/'', CHR ''?''} = {}"
  using assms(1)
proof (cases rule: parse_url_body_cases)
  case (site path pin port pin' site)
  obtain rest where rest: "strip_http tmp = pin @ rest" "path = Some (rooted rest)"
    "CHR ''/'' \<notin> set pin" "CHR ''?'' \<notin> set pin" "rest = [] \<or> hd rest = CHR ''/'' \<or> hd rest = CHR ''?''"
    "2 \<le> hs \<Longrightarrow> length (rooted rest) < hs"
    using assms(4) by (rule_tac parse_path_Inr[OF site(1)]) auto
  obtain portpart where pp: "pin = pin' @ portpart" "CHR '':'' \<notin> set pin'"
    "portpart = [] \<and> port = Some [] \<or> (\<exists>s. portpart = CHR '':'' # s \<and> 0 < atoi s \<and> Suc (length s) < ps
        \<and> port = Some (if s = ''80'' then [] else s))"
    using assms(3) by (rule_tac parse_port_Inr[OF site(2)]) auto
  have s: "site = Some pin'" "pin' \<noteq> []" "length pin' < ss"
    using parse_site_cases[OF site(3)] assms(2) by auto
  show ?thesis
    using rest pp s site(4) by (intro that[of pin' portpart rest]) auto
qed simp_all

text \<open>C6: a successful \<open>ul_parse_url_ex2\<close> splits the URL, its scheme removed, into a nonempty site without
  slash, question mark or colon, an optional port of positive value, and the rest; a default port is
  dropped and a missing root slash is supplied, and nothing else is lost.\<close>

theorem parse_url_ex2_reassembles:
  assumes "ul_parse_url_ex2 input \<lparr>p_site = Some s0, p_port = Some t0, p_path = Some u0\<rparr> ss ps hs
    = (1, \<lparr>p_site = Some site, p_port = Some port, p_path = Some path\<rparr>)"
  shows "site \<noteq> [] \<and> set site \<inter> {CHR ''/'', CHR ''?'', CHR '':''} = {}
    \<and> (\<exists>portpart rest. strip_http (delete_inter input) = site @ portpart @ rest
        \<and> (portpart \<in> {[], '':80''} \<and> port = [] \<or> portpart = CHR '':'' # port \<and> port \<noteq> ''80'' \<and> 0 < atoi port)
        \<and> (rest = [] \<or> hd rest = CHR ''/'' \<or> hd rest = CHR ''?'')
        \<and> path = (if rest = [] \<or> hd rest = CHR ''?'' then CHR ''/'' # rest else rest))"
proof -
  define o0 where "o0 = \<lparr>p_site = Some s0, p_port = Some t0, p_path = Some u0\<rparr>"
  define o1 where "o1 = \<lparr>p_site = Some site, p_port = Some port, p_path = Some path\<rparr>"
  have "parse_url_body ss ps hs (delete_inter input) o0 = (1, o1)"
    using assms unfolding o0_def[symmetric] o1_def[symmetric]
    by (simp del: delete_inter_eq add: ul_parse_url_ex2_def split: if_splits)
  moreover have "p_site o0 \<noteq> None" "p_port o0 \<noteq> None" "p_path o0 \<noteq> None" by (simp_all add: o0_def)
  ultimately obtain site' portpart rest where parts:
    "strip_http (delete_inter input) = site' @ portpart @ rest" "p_site o1 = Some site'" "p_path o1 = Some (rooted rest)"
    "portpart = [] \<and> p_port o1 = Some [] \<or> (\<exists>s. portpart = CHR '':'' # s \<and> 0 < atoi s \<and> Suc (length s) < ps
        \<and> p_port o1 = Some (if s = ''80'' then [] else s))"
    "site' \<noteq> []" "set site' \<inter> {CHR ''/'', CHR ''?'', CHR '':''} = {}"
    "rest = [] \<or> hd rest = CHR ''/'' \<or> hd rest = CHR ''?''"
    by (rule parse_url_body_parts)
  have e: "site' = site" "path = rooted rest" using parts(2,3) by (simp_all add: o1_def)
  have pp: "portpart \<in> {[], '':80''} \<and> port = [] \<or> portpart = CHR '':'' # port \<and> port \<noteq> ''80'' \<and> 0 < atoi port"
    using parts(4) by (auto simp: o1_def split: if_splits)
  show ?thesis
    by (intro conjI exI) (fact parts(5)[unfolded e(1)] parts(6)[unfolded e(1)] parts(1)[unfolded e(1)] pp parts(7)
        e(2)[unfolded rooted_def])+
qed

theorem parse_url_ex2_reassembles_witness:
  "\<exists>portpart rest. strip_http (delete_inter ''HTTP://a.b:81?c'') = ''a.b'' @ portpart @ rest
     \<and> ''/?c'' = (if rest = [] \<or> hd rest = CHR ''?'' then CHR ''/'' # rest else rest)"
proof -
  have e: "ul_parse_url_ex2 ''HTTP://a.b:81?c'' \<lparr>p_site = Some [], p_port = Some [], p_path = Some []\<rparr> 256 7 1600
     = (1, \<lparr>p_site = Some ''a.b'', p_port = Some ''81'', p_path = Some ''/?c''\<rparr>)" by code_simp
  show ?thesis using parse_url_ex2_reassembles[OF e] by blast
qed

lemma vhplink_root_parse_path:
  assumes "CHR ''#'' \<notin> set pin"
  shows "parse_path UL_MAX_PATH_LEN (vhplink_root pin) path = parse_path UL_MAX_PATH_LEN pin path"
    and "length (vhplink_root pin) \<le> Suc (length pin)"
proof -
  have f: "strchr pin CHR ''#'' = None" using assms by (simp add: strchr_None_iff)
  have "parse_path UL_MAX_PATH_LEN (vhplink_root pin) path = parse_path UL_MAX_PATH_LEN pin path
     \<and> length (vhplink_root pin) \<le> Suc (length pin)"
  proof (cases "strchr pin CHR ''?''")
    case None
    then show ?thesis using f by (simp add: vhplink_root_def Let_def)
  next
    case q: (Some j)
    note cj = strchr_cut[OF q]
    show ?thesis
    proof (cases "strchr pin CHR ''/'' = None \<or> j \<le> the (strchr pin CHR ''/'')")
      case True
      let ?pin = "take j pin @ CHR ''/'' # drop j pin"
      have r: "vhplink_root pin = ?pin" using f q True by (auto simp: vhplink_root_def Let_def)
      have "CHR ''/'' \<notin> set (take j pin)" using strchr_before[OF True] .
      then have s: "strchr ?pin CHR ''/'' = Some j" using cj(3) by (simp add: strchr_append)
      have "strchr ?pin CHR ''?'' = Some (Suc j)" using cj by (simp add: strchr_append cj(2))
      with s have "parse_path UL_MAX_PATH_LEN ?pin path = (if path \<noteq> None then
        if Suc (length (drop j pin)) < UL_MAX_PATH_LEN then Inr (Some (CHR ''/'' # drop j pin), take j pin) else Inl (Some [])
        else Inr (None, take j pin))"
        using cj(3) by (simp add: parse_path_def Let_def)
      moreover have "parse_path UL_MAX_PATH_LEN pin path = (if path \<noteq> None then
        if length (drop j pin) < size_pred UL_MAX_PATH_LEN then Inr (Some (CHR ''/'' # drop j pin), take j pin) else Inl (Some [])
        else Inr (None, take j pin))"
        using q True by (auto simp: parse_path_def Let_def)
      moreover have "Suc (length (drop j pin)) < UL_MAX_PATH_LEN \<longleftrightarrow> length (drop j pin) < size_pred UL_MAX_PATH_LEN"
        by (auto simp: size_pred_def ul_max_defs)
      ultimately show ?thesis unfolding r using cj(3) by simp
    next
      case False
      then obtain i where "strchr pin CHR ''/'' = Some i" "\<not> j \<le> i" by auto
      then show ?thesis using f q by (simp add: vhplink_root_def Let_def)
    qed
  qed
  then show "parse_path UL_MAX_PATH_LEN (vhplink_root pin) path = parse_path UL_MAX_PATH_LEN pin path"
    and "length (vhplink_root pin) \<le> Suc (length pin)" by auto
qed

lemma strip_http_set: "set (strip_http s) \<subseteq> set s"
  by (auto simp: strip_http_def dest: in_set_dropD)

text \<open>On a URL without fragment, short enough for a slash to be inserted, \<open>ul_parse_url_vhplink\<close>
  splits the URL as \<open>ul_parse_url\<close> does.\<close>

theorem parse_url_vhplink_same:
  assumes "CHR ''#'' \<notin> set input" "length input < UL_MAX_URL_LEN - 1"
  shows "map_option (\<lambda>(r, o1, frag'). (r, o1)) (ul_parse_url_vhplink input o0 frag) = Some (ul_parse_url input o0)"
proof -
  let ?tmp = "delete_inter input" and ?pin = "strip_http (delete_inter input)"
  have h: "CHR ''#'' \<notin> set ?pin" using assms(1) strip_http_set[of ?tmp] by auto
  have "length ?tmp \<le> length input" by (rule length_delete_inter)
  then have len: "\<not> UL_MAX_URL_LEN \<le> length ?tmp + (length (vhplink_root ?pin) - length ?pin)"
    "\<not> UL_MAX_URL_LEN \<le> length input"
    using vhplink_root_parse_path(2)[OF h] assms(2) by linarith+
  have eq: "(case parse_url_vhplink_body (vhplink_root ?pin) o0 frag of (r, o1, frag') \<Rightarrow> (r, o1))
      = parse_url_body UL_MAX_SITE_LEN UL_MAX_PORT_LEN UL_MAX_PATH_LEN ?tmp o0"
  proof (cases "parse_path UL_MAX_PATH_LEN ?pin (p_path o0)")
    case (Inl path)
    then show ?thesis
      by (simp del: delete_inter_eq add: parse_url_vhplink_body_def parse_url_body_def vhplink_root_parse_path(1)[OF h])
  next
    case (Inr pp)
    obtain path pin where pp: "pp = (path, pin)" by (rule prod.exhaust)
    from Inr[unfolded pp] obtain rest where rest: "?pin = pin @ rest" "path = map_option (\<lambda>_. rooted rest) (p_path o0)"
      by (rule parse_path_Inr)
    have "\<exists>frag'. split_frag path frag = Some (path, frag')"
    proof (cases path)
      case (Some s)
      then have "CHR ''#'' \<notin> set s" using rest h by (auto simp: rooted_def split: if_splits)
      then have "strchr s CHR ''#'' = None" by (simp add: strchr_None_iff)
      then show ?thesis by (cases frag) (simp_all add: split_frag_def Some)
    qed (simp add: split_frag_def)
    then obtain frag' where "split_frag path frag = Some (path, frag')" ..
    then show ?thesis using Inr pp
      by (simp del: delete_inter_eq add: parse_url_vhplink_body_def parse_url_body_def vhplink_root_parse_path(1)[OF h]
          Let_def split: sum.split prod.split)
  qed
  show ?thesis
    using eq len by (simp del: delete_inter_eq add: ul_parse_url_vhplink_def ul_parse_url_def Let_def)
qed

theorem parse_url_vhplink_same_witness:
  "map_option (\<lambda>(r, o1, frag'). (r, o1))
     (ul_parse_url_vhplink ''a.b?c'' \<lparr>p_site = Some [], p_port = Some [], p_path = Some []\<rparr> (Some []))
   = Some (1, \<lparr>p_site = Some ''a.b'', p_port = Some [], p_path = Some ''/?c''\<rparr>)"
proof -
  have e: "ul_parse_url ''a.b?c'' \<lparr>p_site = Some [], p_port = Some [], p_path = Some []\<rparr>
     = (1, \<lparr>p_site = Some ''a.b'', p_port = Some [], p_path = Some ''/?c''\<rparr>)" by code_simp
  show ?thesis
    using parse_url_vhplink_same[of "''a.b?c''" "\<lparr>p_site = Some [], p_port = Some [], p_path = Some []\<rparr>" "Some []"]
    unfolding e by (simp add: ul_max_defs)
qed

text \<open>At the length limit the inserted slash overruns the buffer.\<close>

lemma parse_url_vhplink_overrun:
  "ul_parse_url_vhplink (''?'' @ replicate 254 CHR ''a'') o0 frag = None"
proof -
  let ?s = "''?'' @ replicate 254 CHR ''a''"
  have d: "delete_inter ?s = ?s" by (simp add: filter_id_conv)
  have "\<not> strncasecmp_eq ?s ''http://'' 7" by code_simp
  then have h: "strip_http ?s = ?s" by (simp add: strip_http_def)
  have "strchr ?s CHR ''?'' = Some 0" "strchr ?s CHR ''/'' = None" "strchr ?s CHR ''#'' = None"
    by (simp_all add: strchr_None_iff)
  then have "vhplink_root ?s = CHR ''/'' # ?s" by (simp add: vhplink_root_def)
  then show ?thesis unfolding ul_parse_url_vhplink_def Let_def d h by (simp add: ul_max_defs)
qed

lemma cut_at_takeWhile: "cut_at c s = takeWhile (\<lambda>x. x \<noteq> c) s"
proof (cases "strchr s c")
  case None
  then have "c \<notin> set s" by (simp add: strchr_None_iff)
  then have "takeWhile (\<lambda>x. x \<noteq> c) s = s" by (auto simp: takeWhile_eq_all_conv)
  then show ?thesis using None by (simp only: cut_at_def option.case)
next
  case (Some i)
  then have i: "i = length (takeWhile (\<lambda>x. x \<noteq> c) s)" by (simp add: strchr_Some)
  show ?thesis using Some unfolding cut_at_def i by (simp add: takeWhile_eq_take[symmetric])
qed

lemma takeWhile_takeWhile: "takeWhile P (takeWhile Q s) = takeWhile (\<lambda>x. P x \<and> Q x) s"
  by (induction s) auto

lemma ul_isdyn_nonzero:
  assumes "c \<in> set s" "\<not> tab ul_dyn_char_table c" "cstr_ok s"
  shows "ul_isdyn s \<noteq> 0"
  using assms
proof (induction s)
  case (Cons x s)
  have "(of_char x :: nat) \<noteq> 0"
  proof
    assume "(of_char x :: nat) = 0"
    then have "(of_char x :: nat) = of_char NUL" by simp
    then have "x = NUL" by (simp only: of_char_eq_iff)
    with Cons.prems(3) show False by simp
  qed
  with Cons show ?case by auto
qed simp

text \<open>The static part of a URL is its longest prefix without question mark and semicolon, cut to the
  size of the buffer; \<open>ul_isdyn\<close> is nonzero on a URL that has more than its static part.\<close>

theorem static_part_dyn:
  assumes "ul_get_static_part_ex2 url n = Some st" "0 < n"
  shows "st = take (n - 1) (takeWhile (\<lambda>c. c \<noteq> CHR ''?'' \<and> c \<noteq> CHR '';'') url)
    \<and> length st < n \<and> (length st < length url \<and> length url < n \<and> cstr_ok url \<longrightarrow> ul_isdyn url \<noteq> 0)"
proof -
  let ?P = "\<lambda>c. c \<noteq> CHR ''?'' \<and> c \<noteq> CHR '';''"
  have st: "st = take (n - 1) (takeWhile ?P url)"
    using assms(1)
    by (auto simp: ul_get_static_part_ex2_def cut_at_takeWhile takeWhile_takeWhile snprintf_buf_def conj_commute
        split: if_splits)
  moreover have "length st < n" using st assms(2) by auto
  moreover have "ul_isdyn url \<noteq> 0" if "length st < length url" "length url < n" "cstr_ok url"
  proof -
    have "takeWhile ?P url \<noteq> url"
    proof
      assume e: "takeWhile ?P url = url"
      from st have "length st = min (length url) (n - 1)" unfolding e by simp
      with that(1,2) show False by simp
    qed
    then obtain c where c: "c \<in> set url" "c = CHR ''?'' \<or> c = CHR '';''" using takeWhile_eq_all_conv[of ?P url] by blast
    from c(2) have "\<not> tab ul_dyn_char_table c" by (elim disjE) (simp_all add: table_specs)
    note c(1) this
    then show ?thesis using that(3) by (rule ul_isdyn_nonzero)
  qed
  ultimately show ?thesis by blast
qed

theorem static_part_dyn_witness:
  "ul_get_static_part_ex2 ''a.b/c;d?e'' 100 = Some ''a.b/c'' \<and> ul_isdyn ''a.b/c;d?e'' \<noteq> 0"
proof -
  have e: "ul_get_static_part_ex2 ''a.b/c;d?e'' 100 = Some ''a.b/c''" by code_simp
  show ?thesis using static_part_dyn[OF e] e by simp
qed

lemma atoi_bound:
  assumes "length s \<le> k" "k \<le> 9"
  shows "atoi s < 10 ^ k"
proof -
  let ?t = "dropWhile isspace s"
  have d: "digits_val 0 u < 10 ^ k" if "length u \<le> length ?t" for u
  proof -
    have "length u \<le> k" using that length_dropWhile_le[of isspace s] assms(1) by linarith
    then have "(10::nat) ^ length u \<le> 10 ^ k" by (intro power_increasing) auto
    moreover have "digits_val 0 u < 10 ^ length u" using digits_val_bound[of 0 u] by simp
    ultimately show ?thesis by (rule order.strict_trans2[rotated])
  qed
  have k: "(10::int) ^ k \<le> 10 ^ 9" using assms(2) by (intro power_increasing) auto
  have i: "int (digits_val 0 u) < 10 ^ k" if "length u \<le> length ?t" for u
    using d[OF that] by (metis of_nat_less_iff of_nat_numeral of_nat_power)
  obtain v :: int where v: "strtol10 s = max (- (2 ^ 63)) (min (2 ^ 63 - 1) v)" "v < 10 ^ k" "- (10 ^ k) < v"
  proof (cases ?t)
    case Nil
    have "strtol10 s = max (- (2 ^ 63)) (min (2 ^ 63 - 1) 0)" unfolding strtol10_def Let_def Nil by simp
    then show ?thesis by (intro that[of 0]) simp_all
  next
    case (Cons c cs)
    let ?v = "if c = CHR ''-'' then - int (digits_val 0 cs)
      else if c = CHR ''+'' then int (digits_val 0 cs) else int (digits_val 0 (c # cs))"
    have b: "int (digits_val 0 (c # cs)) < 10 ^ k" "int (digits_val 0 cs) < 10 ^ k" by (rule i, simp add: Cons)+
    have "strtol10 s = max (- (2 ^ 63)) (min (2 ^ 63 - 1) ?v)" unfolding strtol10_def Let_def Cons by (simp only: list.case)
    moreover have "abs (int x) < 10 ^ k \<and> abs (- int x) < 10 ^ k" if "int x < 10 ^ k" for x using that by simp
    then have "abs ?v < 10 ^ k" using b by (simp only: split: if_split) blast
    then have "?v < 10 ^ k" "- (10 ^ k) < ?v" by linarith+
    ultimately show ?thesis by (rule that)
  qed
  from k v(2,3) have "strtol10 s = v" unfolding v(1) by simp
  then show ?thesis using k v(2,3) by (simp add: atoi_def)
qed

text \<open>The port number \<open>ul_get_port_ex2\<close> stores is between 1 and 99999.\<close>

theorem get_port_ex2_range:
  assumes "ul_get_port_ex2 url = (1, Some p)"
  shows "0 < p \<and> p \<le> 99999"
proof -
  let ?o0 = "\<lparr>p_site = None, p_port = Some [], p_path = None\<rparr>"
  obtain r o1 where res: "ul_parse_url_ex2 url ?o0 0 UL_MAX_PORT_LEN 0 = (r, o1)" by (rule prod.exhaust)
  have r: "r = 1" "p = (if the (p_port o1) = [] then 80 else atoi (the (p_port o1)))"
    using assms by (auto simp: ul_get_port_ex2_def res port_number_def Let_def split: if_splits)
  then have "parse_url_body 0 UL_MAX_PORT_LEN 0 (delete_inter url) ?o0 = (1, o1)"
    using res by (simp del: delete_inter_eq add: ul_parse_url_ex2_def split: if_splits)
  then show ?thesis
  proof (cases rule: parse_url_body_cases)
    case (site path pin port pin' site)
    from site(2) obtain portpart where
      "portpart = [] \<and> port = map_option (\<lambda>_. []) (p_port ?o0)
       \<or> (\<exists>s. portpart = CHR '':'' # s \<and> (p_port ?o0 \<noteq> None \<longrightarrow> 0 < atoi s \<and> Suc (length s) < UL_MAX_PORT_LEN)
          \<and> port = map_option (\<lambda>_. if s = ''80'' then [] else s) (p_port ?o0))"
      by (rule parse_port_Inr)
    then have "port = Some [] \<or> (\<exists>s. port = Some s \<and> 0 < atoi s \<and> length s \<le> 5)"
      by (auto simp: ul_max_defs split: if_splits)
    then show ?thesis using r(2) site(4) atoi_bound[of _ 5] by fastforce
  qed simp_all
qed

theorem get_port_ex2_range_witness: "ul_get_port_ex2 ''a.b:8080/'' = (1, Some 8080) \<and> (0::int) < 8080"
proof -
  have e: "ul_get_port_ex2 ''a.b:8080/'' = (1, Some 8080)" by code_simp
  show ?thesis using get_port_ex2_range[OF e] e by simp
qed

end
