(* ===== verification/Url_Site.thy ===== *)
theory Url_Site
  imports Url_Path
begin

text \<open>
  Site names and ports: \<open>check_hostname\<close>, \<open>ul_is_dotip\<close>, \<open>ul_is_ignore\<close>, \<open>ul_fetch_trunk\<close>,
  \<open>ul_fetch_maindomain\<close>, \<open>ul_normalize_site\<close> with its variant, and \<open>ul_normalize_port\<close> of
  \<^verbatim>\<open>ullib/src/ul_url.cpp\<close>.

  The scans of a host name work in place like those of \<open>Url_Path\<close>, with the same three parts of the
  buffer. \<open>inet_aton\<close> of the system is a parameter of the functions that call it.
\<close>

section \<open>Checking a host name\<close>

fun hostname_labels :: "cstr \<Rightarrow> cstr \<Rightarrow> bool" where
  \<comment> \<open>\<open>purl\<close> is inside a label: \<open>prev\<close> is the text before it, reversed; at the end of the label the byte
      before \<open>purl\<close> has to be a letter or digit, and a dot starts the next label\<close>
  "hostname_labels prev [] \<longleftrightarrow> prev \<noteq> [] \<and> tab UL_LET_DIGIT (hd prev)"
| "hostname_labels prev (c # s) \<longleftrightarrow>
     (if tab UL_LET_DIG_HY c then hostname_labels (c # prev) s
      else prev \<noteq> [] \<and> tab UL_LET_DIGIT (hd prev) \<and> c = CHR ''.'' \<and> hostname_labels (c # prev) s)"

definition check_hostname :: "cstr option \<Rightarrow> int option" where
  \<comment> \<open>\<open>None\<close>: the byte before the buffer is read\<close>
  "check_hostname host_name =
     (case host_name of
        None \<Rightarrow> Some 0
      | Some s \<Rightarrow>
          if s = [] \<or> \<not> tab UL_LET_DIG_HY (hd s) then None
          else Some (if hostname_labels [] s then 1 else 0))"

section \<open>Trunk of a site\<close>

definition ul_is_dotip :: "(cstr \<Rightarrow> int) \<Rightarrow> cstr \<Rightarrow> int" where
  "ul_is_dotip inet_aton sitename = inet_aton sitename"

fun strncmp :: "cstr \<Rightarrow> cstr \<Rightarrow> nat \<Rightarrow> int" where
  \<comment> \<open>the difference of the first two bytes that differ, the terminator counting as 0\<close>
  "strncmp s t 0 = 0"
| "strncmp [] [] (Suc n) = 0"
| "strncmp [] (y # t) (Suc n) = - int (of_char y)"
| "strncmp (x # s) [] (Suc n) = int (of_char x)"
| "strncmp (x # s) (y # t) (Suc n) = (if x = y then strncmp s t n else int (of_char x) - int (of_char y))"

definition UL_IGNORE_COUNT :: int where "UL_IGNORE_COUNT = 47"

definition ul_ignore_list :: "(cstr \<times> nat) list" where
  "ul_ignore_list = [
    (''ac.'', 3), (''ah.'', 3), (''bj.'', 3), (''co.'', 3), (''com.'', 4), (''cq.'', 3),
    (''ed.'', 3), (''edu.'', 4), (''fj.'', 3), (''gd.'', 3), (''go.'', 3), (''gov.'', 4),
    (''gs.'', 3), (''gx.'', 3), (''gz.'', 3), (''ha.'', 3), (''hb.'', 3), (''he.'', 3),
    (''hi.'', 3), (''hk.'', 3), (''hl.'', 3), (''hn.'', 3), (''jl.'', 3), (''js.'', 3),
    (''jx.'', 3), (''ln.'', 3), (''mo.'', 3), (''ne.'', 3), (''net.'', 4), (''nm.'', 3),
    (''nx.'', 3), (''or.'', 3), (''org.'', 4), (''pe.'', 3), (''qh.'', 3), (''sc.'', 3),
    (''sd.'', 3), (''sh.'', 3), (''sn.'', 3), (''sx.'', 3), (''tj.'', 3), (''tw.'', 3),
    (''www.'', 4), (''xj.'', 3), (''xz.'', 3), (''yn.'', 3), (''zj.'', 3)]"

function is_ignore_loop :: "cstr \<Rightarrow> int \<Rightarrow> int \<Rightarrow> int" where
  "is_ignore_loop slip hd_i tl_i =
     (if hd_i \<le> tl_i then
        (let cur = (hd_i + tl_i) div 2; (name, len) = ul_ignore_list ! nat cur; ret = strncmp slip name len
         in if ret < 0 then is_ignore_loop slip hd_i (cur - 1)
            else if 0 < ret then is_ignore_loop slip (cur + 1) tl_i
            else 1)
      else 0)"
  by pat_completeness auto
termination
  by (relation "measure (\<lambda>(slip, hd_i, tl_i). nat (tl_i - hd_i + 1))") auto

declare is_ignore_loop.simps [simp del]

definition ul_is_ignore :: "cstr \<Rightarrow> int" where
  "ul_is_ignore slip = is_ignore_loop slip 0 (UL_IGNORE_COUNT - 1)"

definition strrchr :: "cstr \<Rightarrow> char \<Rightarrow> nat option" where
  "strrchr s c = map_option (\<lambda>i. length s - 1 - i) (strchr (rev s) c)"

fun trunk_loop :: "cstr \<Rightarrow> int \<Rightarrow> nat \<Rightarrow> (cstr \<times> nat) option" where
  \<comment> \<open>\<open>while(pfirst >= site-1)\<close> with \<open>k = pfirst + 1 - site\<close>: the text from \<open>pfirst+1\<close> to \<open>ptail\<close> and its offset\<close>
  "trunk_loop site ptail 0 =
     (if ul_is_ignore site = 0 then Some (take (nat ptail) site, 0) else None)"
| "trunk_loop site ptail (Suc k) =
     (if site ! k = CHR ''.'' then
        (if ul_is_ignore (drop (Suc k) site) = 0 then Some (take (nat ptail - Suc k) (drop (Suc k) site), Suc k)
         else trunk_loop site (int k) k)
      else trunk_loop site ptail k)"

definition copy_str :: "int \<Rightarrow> cstr \<Rightarrow> cstr option" where
  \<comment> \<open>the text left by \<open>strncpy(buf, s, size-1); buf[size-1] = 0\<close> or by \<open>memcpy\<close> of at most \<open>size-1\<close> bytes and
      a terminator; \<open>None\<close> when there is no room for the terminator\<close>
  "copy_str sz s = (if sz < 1 then None else Some (take (nat (sz - 1)) s))"

definition ul_fetch_trunk :: "(cstr \<Rightarrow> int) \<Rightarrow> cstr \<Rightarrow> cstr \<Rightarrow> int \<Rightarrow> (int \<times> cstr) option" where
  "ul_fetch_trunk inet_aton site trunk sz =
     (if ul_is_dotip inet_aton site \<noteq> 0 then map_option (\<lambda>t. (1, t)) (copy_str sz site)
      else case strrchr site CHR ''.'' of
        None \<Rightarrow> Some (-3, trunk)
      | Some ptail \<Rightarrow>
          (case trunk_loop site (int ptail) ptail of
             Some (t, k) \<Rightarrow> map_option (\<lambda>t. (1, t)) (copy_str sz t)
           | None \<Rightarrow> Some (-2, trunk)))"

definition ul_fetch_maindomain :: "(cstr \<Rightarrow> int) \<Rightarrow> cstr \<Rightarrow> int \<Rightarrow> (nat \<times> cstr) option" where
  \<comment> \<open>the offset of the returned pointer in \<open>site\<close> and the text in \<open>domain\<close>\<close>
  "ul_fetch_maindomain inet_aton site sz =
     (if ul_is_dotip inet_aton site \<noteq> 0 then map_option (\<lambda>t. (0, t)) (copy_str sz site)
      else case strrchr site CHR ''.'' of
        None \<Rightarrow> map_option (\<lambda>t. (0, t)) (copy_str sz site)
      | Some ptail \<Rightarrow>
          (case trunk_loop site (int ptail) ptail of
             Some (t, k) \<Rightarrow> map_option (\<lambda>t. (k, t)) (copy_str sz t)
           | None \<Rightarrow> map_option (\<lambda>t. (0, t)) (copy_str sz site)))"

section \<open>Normalising a site name\<close>

definition host_lower :: "char \<Rightarrow> char" where
  \<comment> \<open>\<open>if(UL_URL_UP_LET[c]) c += 32\<close>\<close>
  "host_lower c = (if tab UL_URL_UP_LET c then char_of (of_char c + 32 :: nat) else c)"

function host_run :: "cstr \<Rightarrow> cstr \<Rightarrow> cstr \<Rightarrow> bool \<times> cstr \<times> cstr \<times> cstr" where
  \<comment> \<open>the loop over one label, \<open>while(UL_URL_LET_DIG_HY[*pin] || *pin=='%')\<close>; \<open>False\<close> is \<open>return 0\<close>\<close>
  "host_run out gap [] = (True, out, gap, [])"
| "host_run out gap (c # s) =
     (if tab UL_URL_LET_DIG_HY c then
        (let d = host_lower c in host_run (d # out) (tl (gap @ [d])) s)
      else if c = CHR ''%'' then
        (if 2 \<le> length s then
           (let escape_char = char_of (ul_to_char (s ! 0) (s ! 1)) in
            if tab UL_URL_LET_DIG_HY escape_char then
              (let d = host_lower escape_char in host_run (d # out) (tl (gap @ [c, s ! 0, d])) (drop 2 s))
            else (False, out, gap, c # s))
         else (False, out, gap, c # s))
      else (True, out, gap, c # s))"
  by pat_completeness auto
termination by (relation "measure (\<lambda>(out, gap, rest). length rest)") auto

lemma host_run_shrinks: "host_run out gap rest = (ok, out', gap', rest') \<Longrightarrow> length rest' \<le> length rest"
proof (induction out gap rest rule: host_run.induct)
  case (2 out gap c s)
  then show ?case by (force simp: Let_def split: if_splits)
qed simp

function host_dots :: "table \<Rightarrow> nat \<Rightarrow> cstr \<Rightarrow> cstr \<Rightarrow> cstr \<Rightarrow> bool \<times> nat \<times> cstr \<times> cstr \<times> cstr" where
  \<comment> \<open>\<open>while(*pin == '.')\<close>: the flag, \<open>dotcount\<close> and the buffer; \<open>t\<close> is the table for the last byte of a label,
      which \<open>pin--\<close> reads: it is the byte written last\<close>
  "host_dots t dotcount out gap [] = (True, dotcount, out, gap, [])"
| "host_dots t dotcount out gap (c # s) =
     (if c = CHR ''.'' then
        (case host_run (c # out) (tl (gap @ [c])) s of (ok, out', gap', rest') \<Rightarrow>
           if \<not> ok \<or> \<not> tab t (hd out') then (False, Suc dotcount, out', gap', rest')
           else host_dots t (Suc dotcount) out' gap' rest')
      else (True, dotcount, out, gap, c # s))"
  by pat_completeness auto
termination
  by (relation "measure (\<lambda>(t, n, out, gap, rest). length rest)")
    (auto simp: less_Suc_eq_le dest: host_run_shrinks sym [THEN host_run_shrinks] split: prod.splits)

definition host_scan :: "table \<Rightarrow> cstr \<Rightarrow> bool \<times> cstr \<times> cstr \<times> cstr" where
  \<comment> \<open>the whole host name, up to the check of \<open>dotcount\<close>\<close>
  "host_scan t pin =
     (case host_run [] [] pin of (ok, out, gap, rest) \<Rightarrow>
        if \<not> ok \<or> out = [] \<or> \<not> tab t (hd out) then (False, out, gap, rest)
        else case host_dots t 0 out gap rest of (ok', dotcount, out', gap', rest') \<Rightarrow>
          (ok' \<and> dotcount \<noteq> 0, out', gap', rest'))"

definition normalize_site_body :: "table \<Rightarrow> cstr \<Rightarrow> int \<times> cstr" where
  "normalize_site_body t site =
     (if site = [] \<or> \<not> tab UL_URL_LET_DIG_HY (hd site) then (0, site)
      else case host_scan t site of (ok, out, gap, rest) \<Rightarrow>
        if \<not> ok \<or> rest \<noteq> [] then (0, rev out @ gap @ rest) else (1, rev out))"

definition ul_normalize_site :: "cstr \<Rightarrow> int \<times> cstr" where
  "ul_normalize_site site = normalize_site_body UL_URL_LET_DIGIT site"

definition ul_normalize_site_special_for_ps_20101026 :: "cstr \<Rightarrow> int \<times> cstr" where
  "ul_normalize_site_special_for_ps_20101026 site = normalize_site_body UL_URL_LET_DIG_HY site"

section \<open>Normalising a port\<close>

fun port_scan :: "nat \<Rightarrow> cstr \<Rightarrow> cstr option" where
  \<comment> \<open>\<open>while(UL_URL_DIGIT[*pin]) { k++; pin++; if(k>5) return 0; }\<close>: the text at \<open>pin\<close> after the loop\<close>
  "port_scan k [] = Some []"
| "port_scan k (c # s) =
     (if tab UL_URL_DIGIT c then (if 5 < Suc k then None else port_scan (Suc k) s) else Some (c # s))"

definition ul_normalize_port :: "cstr \<Rightarrow> int \<times> cstr" where
  "ul_normalize_port port =
     (if port = [] then (1, port)
      else case port_scan 0 port of
        None \<Rightarrow> (0, port)
      | Some pin \<Rightarrow>
          if pin \<noteq> [] then (0, port)
          else let uport = atoi port mod 2 ^ 32 in
            if uport \<le> 0 \<or> 65535 < uport then (0, port)
            else if uport \<noteq> 80 then (1, dec_int uport) else (1, []))"

section \<open>The binary search finds every listed prefix\<close>

fun dless :: "cstr \<Rightarrow> cstr \<Rightarrow> bool" where
  \<comment> \<open>the texts differ at some byte of both, and the first is smaller there\<close>
  "dless (x # s) (y # t) \<longleftrightarrow> (if x = y then dless s t else (of_char x :: nat) < of_char y)"
| "dless _ _ \<longleftrightarrow> False"

lemma dless_trans: "dless a b \<Longrightarrow> dless b c \<Longrightarrow> dless a c"
proof (induction a b arbitrary: c rule: dless.induct)
  case (1 x s y t)
  then show ?case by (cases c) (auto split: if_splits)
qed simp_all

lemma transp_dless: "transp dless"
  by (rule transpI) (rule dless_trans)

lemma strncmp_prefix: "strncmp s t (length t) = 0 \<longleftrightarrow> prefix t s" if "cstr_ok t"
  using that
proof (induction s t "length t" rule: strncmp.induct)
  case (3 y t n)
  have "(of_char y :: nat) \<noteq> of_char NUL" using 3 by (simp only: of_char_eq_iff) simp
  then show ?case using 3 by simp
next
  case (5 x s y t n)
  moreover have "int (of_char x) = int (of_char y) \<longleftrightarrow> x = y" by simp
  ultimately show ?case by auto
qed auto

lemma strncmp_dless:
  "dless a b \<Longrightarrow> strncmp (a @ z) b (length b) < 0"
  "dless a b \<Longrightarrow> strncmp (b @ z) a (length a) > 0"
  by (induction a b rule: dless.induct) (auto split: if_splits)

definition ignore_names :: "cstr list" where
  "ignore_names = map fst ul_ignore_list"

lemma ignore_names_sorted: "sorted_wrt dless ignore_names"
proof -
  have "successively dless ignore_names" by code_simp
  then show ?thesis by (simp add: successively_conv_sorted_wrt transp_dless)
qed

lemma ignore_entries: "\<forall>e \<in> set ul_ignore_list. snd e = length (fst e) \<and> cstr_ok (fst e)"
  by (simp add: ul_ignore_list_def)

lemma length_ignore [simp]: "length ul_ignore_list = 47" "length ignore_names = 47"
  by (simp_all add: ul_ignore_list_def ignore_names_def)

lemma ignore_nth:
  assumes "i < 47"
  shows "ul_ignore_list ! i = (ignore_names ! i, length (ignore_names ! i))" "cstr_ok (ignore_names ! i)"
proof -
  have "ul_ignore_list ! i \<in> set ul_ignore_list" using assms by simp
  with ignore_entries assms show "ul_ignore_list ! i = (ignore_names ! i, length (ignore_names ! i))" "cstr_ok (ignore_names ! i)"
    by (auto simp: ignore_names_def prod_eq_iff)
qed

lemma is_ignore_loop_correct:
  assumes "0 \<le> l" "h < 47" "\<forall>i < 47. prefix (ignore_names ! i) slip \<longrightarrow> l \<le> int i \<and> int i \<le> h"
  shows "is_ignore_loop slip l h = (if \<exists>i < 47. prefix (ignore_names ! i) slip then 1 else 0)"
  using assms
proof (induction "nat (h - l + 1)" arbitrary: l h rule: less_induct)
  case less
  show ?case
  proof (cases "l \<le> h")
    case False
    then have "\<not> (\<exists>i < 47. prefix (ignore_names ! i) slip)" using less.prems by auto
    then show ?thesis using False by (subst is_ignore_loop.simps) simp
  next
    case True
    define cur where "cur = (l + h) div 2"
    have cur: "l \<le> cur" "cur \<le> h" "nat cur < 47" using True less.prems by (auto simp: cur_def)
    define name where "name = ignore_names ! nat cur"
    note e = ignore_nth[OF cur(3), folded name_def]
    define ret where "ret = strncmp slip name (length name)"
    have step: "is_ignore_loop slip l h = (if ret < 0 then is_ignore_loop slip l (cur - 1)
        else if 0 < ret then is_ignore_loop slip (cur + 1) h else 1)"
      using True e(1) by (subst is_ignore_loop.simps) (simp add: Let_def ret_def flip: cur_def)
    have lt: "int i < cur" if "ret < 0" "i < 47" "prefix (ignore_names ! i) slip" for i
    proof (rule ccontr)
      assume "\<not> int i < cur"
      moreover have "int i \<noteq> cur"
      proof
        assume i: "int i = cur"
        then have "prefix name slip" using that(3) by (auto simp: name_def)
        then show False using that(1) e(2) by (simp add: ret_def flip: strncmp_prefix)
      qed
      ultimately have "nat cur < i" using cur(1) less.prems(1) by auto
      then have "dless name (ignore_names ! i)"
        using sorted_wrt_nth_less[OF ignore_names_sorted, of "nat cur" i] that(2) by (simp add: name_def)
      from that(3) obtain z where "slip = ignore_names ! i @ z" by (auto simp: prefix_def)
      with strncmp_dless(2)[OF \<open>dless name (ignore_names ! i)\<close>, of z] that(1) show False by (simp add: ret_def)
    qed
    have gt: "cur < int i" if "0 < ret" "i < 47" "prefix (ignore_names ! i) slip" for i
    proof (rule ccontr)
      assume "\<not> cur < int i"
      moreover have "int i \<noteq> cur"
      proof
        assume i: "int i = cur"
        then have "prefix name slip" using that(3) by (auto simp: name_def)
        then show False using that(1) e(2) by (simp add: ret_def flip: strncmp_prefix)
      qed
      ultimately have "i < nat cur" by auto
      then have "dless (ignore_names ! i) name"
        using sorted_wrt_nth_less[OF ignore_names_sorted, of i "nat cur"] cur(3) by (simp add: name_def)
      from that(3) obtain z where "slip = ignore_names ! i @ z" by (auto simp: prefix_def)
      with strncmp_dless(1)[OF \<open>dless (ignore_names ! i) name\<close>, of z] that(1) show False by (simp add: ret_def)
    qed
    consider "ret < 0" | "0 < ret" | "ret = 0" by linarith
    then show ?thesis
    proof cases
      case 1
      then show ?thesis using less.hyps[of "cur - 1" l] less.prems lt cur step by fastforce
    next
      case 2
      then show ?thesis using less.hyps[of h "cur + 1"] less.prems gt cur step by fastforce
    next
      case 3
      then have "prefix name slip" using e(2) by (simp add: ret_def strncmp_prefix)
      then show ?thesis using 3 step cur(3) by (auto simp: name_def)
    qed
  qed
qed

section \<open>The form of a normalised site\<close>

definition low_host :: "char \<Rightarrow> bool" where
  "low_host c \<longleftrightarrow> is_hostch c \<and> \<not> is_upper c"

definition label_ok :: "table \<Rightarrow> cstr \<Rightarrow> bool" where
  "label_ok t x \<longleftrightarrow> x \<noteq> [] \<and> (\<forall>c \<in> set x. low_host c) \<and> tab t (last x)"

definition dotted :: "cstr list \<Rightarrow> cstr" where
  "dotted ls = concat (map (\<lambda>x. CHR ''.'' # x) ls)"

definition site_form :: "table \<Rightarrow> cstr \<Rightarrow> bool" where
  \<comment> \<open>at least two labels of lower-case host characters, each ending in a character of the table\<close>
  "site_form t s \<longleftrightarrow> (\<exists>l ls. s = l @ dotted ls \<and> ls \<noteq> [] \<and> label_ok t l \<and> (\<forall>x \<in> set ls. label_ok t x))"

lemma dotted_simps [simp]: "dotted [] = []" "dotted (x # ls) = CHR ''.'' # x @ dotted ls"
  by (simp_all add: dotted_def)

lemma of_char_char_of_less: "n < 256 \<Longrightarrow> of_char (char_of n :: char) = (n :: nat)"
  by simp

lemma host_lower_low: "is_hostch c \<Longrightarrow> low_host (host_lower c)"
proof (cases "is_upper c")
  case True
  then have "of_char c + 32 < (256::nat)" by (simp add: is_upper_def)
  then have "of_char (char_of (of_char c + 32 :: nat) :: char) = (of_char c + 32 :: nat)" by (rule of_char_char_of_less)
  with True show ?thesis
    by (simp add: host_lower_def table_specs low_host_def char_class_defs)
next
  case False
  assume "is_hostch c"
  with False show ?thesis by (simp add: host_lower_def table_specs low_host_def)
qed

lemma host_lower_id: "low_host c \<Longrightarrow> host_lower c = c"
  by (simp add: host_lower_def table_specs low_host_def)

lemma low_host_tab: "low_host c \<Longrightarrow> tab UL_URL_LET_DIG_HY c"
  by (simp add: table_specs low_host_def)

lemma host_run_form:
  assumes "host_run out gap s = (True, out', gap', rest)"
  shows "\<exists>l. out' = rev l @ out \<and> (\<forall>c \<in> set l. low_host c) \<and> (l = [] \<longleftrightarrow> rest = s)
     \<and> length l + length gap' + length rest = length gap + length s"
  using assms
proof (induction out gap s rule: host_run.induct)
  case (2 out gap c s)
  show ?case
  proof (cases "tab UL_URL_LET_DIG_HY c")
    case True
    with 2 obtain l where l: "out' = rev l @ host_lower c # out" "\<forall>c \<in> set l. low_host c"
      "length l + length gap' + length rest = length (tl (gap @ [host_lower c])) + length s"
      by (auto simp: Let_def)
    have "low_host (host_lower c)" using True by (intro host_lower_low) (simp add: table_specs)
    moreover have "length rest \<le> length s" using 2(3) True by (auto simp: Let_def dest: host_run_shrinks)
    ultimately show ?thesis using l by (intro exI[of _ "host_lower c # l"]) auto
  next
    case F: False
    show ?thesis
    proof (cases "c = CHR ''%''")
      case True
      let ?e = "char_of (ul_to_char (s ! 0) (s ! 1)) :: char"
      have s2: "2 \<le> length s" and e: "tab UL_URL_LET_DIG_HY ?e"
        and run: "host_run (host_lower ?e # out) (tl (gap @ [c, s ! 0, host_lower ?e])) (drop 2 s) = (True, out', gap', rest)"
        using 2(3) F True by (auto simp: Let_def split: if_splits)
      from 2(2)[OF F True s2 refl e refl] run obtain l where l: "out' = rev l @ host_lower ?e # out" "\<forall>c \<in> set l. low_host c"
        "length l + length gap' + length rest = length (tl (gap @ [c, s ! 0, host_lower ?e])) + length (drop 2 s)"
        by auto
      have "low_host (host_lower ?e)" using e by (intro host_lower_low) (simp add: table_specs)
      moreover have "length rest \<le> length (drop 2 s)" using run by (rule host_run_shrinks)
      ultimately show ?thesis using l s2 by (intro exI[of _ "host_lower ?e # l"]) auto
    next
      case False
      then show ?thesis using F 2(3) by auto
    qed
  qed
qed simp

lemma host_run_low:
  "\<forall>c \<in> set l. low_host c \<Longrightarrow> stops (\<lambda>c. is_hostch c \<or> c = CHR ''%'') r \<Longrightarrow>
     host_run out [] (l @ r) = (True, rev l @ out, [], r)"
proof (induction l arbitrary: out)
  case Nil
  then show ?case by (cases r) (auto simp: table_specs)
next
  case (Cons c l)
  then show ?case by (simp add: low_host_tab host_lower_id)
qed

lemma host_dots_form:
  assumes "host_dots t n out gap s = (True, n', out', gap', rest)" "\<not> tab t CHR ''.''"
  shows "\<exists>ls. out' = rev (dotted ls) @ out \<and> (\<forall>x \<in> set ls. label_ok t x) \<and> n' = n + length ls
     \<and> length (dotted ls) + length gap' + length rest = length gap + length s"
  using assms
proof (induction t n out gap s rule: host_dots.induct)
  case (2 t n out gap c s)
  show ?case
  proof (cases "c = CHR ''.''")
    case True
    obtain ok o1 g1 r1 where run: "host_run (c # out) (tl (gap @ [c])) s = (ok, o1, g1, r1)" by (rule prod_cases4)
    have ok: "ok" "tab t (hd o1)" and dots: "host_dots t (Suc n) o1 g1 r1 = (True, n', out', gap', rest)"
      using 2(2) True run by (auto split: if_splits)
    obtain l where l: "o1 = rev l @ c # out" "\<forall>c \<in> set l. low_host c"
      "length l + length g1 + length r1 = length (tl (gap @ [c])) + length s"
      using host_run_form[of "c # out" "tl (gap @ [c])" s o1 g1 r1] run ok by auto
    have "l \<noteq> []" using l(1) ok(2) 2(3) True by auto
    then have "label_ok t l" using l(1,2) ok(2) by (simp add: label_ok_def hd_append hd_rev)
    moreover obtain ls where "out' = rev (dotted ls) @ o1" "\<forall>x \<in> set ls. label_ok t x" "n' = Suc n + length ls"
      "length (dotted ls) + length gap' + length rest = length g1 + length r1"
      using 2(1)[OF True run[symmetric] refl refl _ dots 2(3)] ok by auto
    ultimately show ?thesis using l True by (intro exI[of _ "l # ls"]) auto
  qed (use 2 in auto)
qed simp

lemma dot_not_host: "\<not> tab UL_URL_LET_DIGIT CHR ''.''" "\<not> tab UL_URL_LET_DIG_HY CHR ''.''"
  by (simp_all add: table_specs char_class_defs)

lemma label_ok_hd: "label_ok t x \<Longrightarrow> tab t (hd (rev x @ y))"
  by (simp add: label_ok_def hd_append hd_rev)

lemma stops_dotted: "stops (\<lambda>c. is_hostch c \<or> c = CHR ''%'') (dotted ls @ r) \<longleftrightarrow>
    ls \<noteq> [] \<or> stops (\<lambda>c. is_hostch c \<or> c = CHR ''%'') r"
  by (cases ls) (auto simp: char_class_defs)

lemma host_dots_dotted:
  assumes "\<forall>x \<in> set ls. label_ok t x" "stops (\<lambda>c. is_hostch c \<or> c = CHR ''%'' \<or> c = CHR ''.'') r"
  shows "host_dots t n out [] (dotted ls @ r) = (True, n + length ls, rev (dotted ls) @ out, [], r)"
  using assms(1)
proof (induction ls arbitrary: n out)
  case Nil
  then show ?case using assms(2) by (cases r) auto
next
  case (Cons x ls)
  have "stops (\<lambda>c. is_hostch c \<or> c = CHR ''%'') (dotted ls @ r)"
    unfolding stops_dotted using assms(2) by (cases r) auto
  then have "host_run (CHR ''.'' # out) [] (x @ dotted ls @ r) = (True, rev x @ CHR ''.'' # out, [], dotted ls @ r)"
    using Cons.prems by (intro host_run_low) (auto simp: label_ok_def)
  then show ?case using Cons label_ok_hd[of t x] by simp
qed

lemma host_scan_form:
  assumes "host_scan t pin = (True, out, gap, rest)" "\<not> tab t CHR ''.''"
  shows "site_form t (rev out) \<and> length out + length gap + length rest = length pin"
proof -
  obtain ok o1 g1 r1 where run: "host_run [] [] pin = (ok, o1, g1, r1)" by (rule prod_cases4)
  obtain ok2 n o2 g2 r2 where dots: "host_dots t 0 o1 g1 r1 = (ok2, n, o2, g2, r2)" by (rule prod_cases5)
  have ok: "ok" "o1 \<noteq> []" "tab t (hd o1)" "ok2" "n \<noteq> 0" "o2 = out" "g2 = gap" "r2 = rest"
    using assms(1) by (auto simp: host_scan_def run dots split: if_splits)
  obtain l where l: "o1 = rev l" "\<forall>c \<in> set l. low_host c" "length l + length g1 + length r1 = length pin"
    using host_run_form[of "[]" "[]" pin o1 g1 r1] run ok by auto
  obtain ls where ls: "o2 = rev (dotted ls) @ o1" "\<forall>x \<in> set ls. label_ok t x" "n = length ls"
    "length (dotted ls) + length g2 + length r2 = length g1 + length r1"
    using host_dots_form[of t 0 o1 g1 r1 n o2 g2 r2] dots ok assms(2) by auto
  have "label_ok t l" using l(1,2) ok(2,3) by (auto simp: label_ok_def hd_rev)
  then show ?thesis using l ls ok unfolding site_form_def by auto
qed

lemma host_scan_fixed:
  assumes "site_form t s" "stops (\<lambda>c. is_hostch c \<or> c = CHR ''%'' \<or> c = CHR ''.'') r"
  shows "host_scan t (s @ r) = (True, rev s, [], r)"
proof -
  obtain l ls where s: "s = l @ dotted ls" "ls \<noteq> []" "label_ok t l" "\<forall>x \<in> set ls. label_ok t x"
    using assms(1) by (auto simp: site_form_def)
  have "host_run [] [] (l @ dotted ls @ r) = (True, rev l @ [], [], dotted ls @ r)"
    using s by (intro host_run_low) (auto simp: label_ok_def stops_dotted)
  moreover have "l \<noteq> []" using s(3) by (simp add: label_ok_def)
  ultimately show ?thesis
    using s host_dots_dotted[OF s(4) assms(2)] label_ok_hd[OF s(3), of "[]"]
    by (simp add: host_scan_def)
qed

lemma site_form_hd:
  assumes "site_form t s"
  shows "s \<noteq> []" "low_host (hd s)" "\<forall>c \<in> set s. low_host c \<or> c = CHR ''.''"
  using assms by (auto simp: site_form_def label_ok_def dotted_def)

lemma normalize_site_body_form:
  assumes "normalize_site_body t site = (1, s)" "\<not> tab t CHR ''.''"
  shows "site_form t s" "length s \<le> length site" "normalize_site_body t s = (1, s)"
proof -
  obtain ok out gap rest where sc: "host_scan t site = (ok, out, gap, rest)" by (rule prod_cases4)
  have r: "ok" "rest = []" "s = rev out"
    using assms(1) by (auto simp: normalize_site_body_def sc split: if_splits)
  from host_scan_form[of t site out gap rest] sc r assms(2) show f: "site_form t s" and "length s \<le> length site"
    by auto
  from host_scan_fixed[OF f, of "[]"] have "host_scan t s = (True, rev s, [], [])" by simp
  then show "normalize_site_body t s = (1, s)"
    using site_form_hd[OF f] by (simp add: normalize_site_body_def low_host_tab)
qed

section \<open>Properties\<close>

lemma ignore_ex: "(\<exists>e \<in> set ul_ignore_list. prefix (fst e) s) \<longleftrightarrow> (\<exists>i < 47. prefix (ignore_names ! i) s)"
  by (simp add: ignore_names_def cong: conj_cong) (metis in_set_conv_nth length_ignore(1))

lemma ul_is_ignore_idx: "ul_is_ignore s = (if \<exists>i < 47. prefix (ignore_names ! i) s then 1 else 0)"
  using is_ignore_loop_correct[of 0 46 s] by (auto simp: ul_is_ignore_def UL_IGNORE_COUNT_def)

text \<open>The binary search of \<open>ul_is_ignore\<close> finds the labels of the list: it returns 1 exactly when one of
  the 47 names is a prefix of the text.\<close>

theorem is_ignore_correct:
  "ul_is_ignore slip = (if \<exists>e \<in> set ul_ignore_list. prefix (fst e) slip then 1 else 0)"
  by (simp only: ul_is_ignore_idx ignore_ex)

text \<open>A site that \<open>ul_normalize_site\<close> accepts comes out as two or more labels of lower-case letters,
  digits, hyphens and underscores, each ending in a letter or digit, no longer than it was, and the function
  leaves it alone when called again.\<close>

theorem normalize_site_form:
  assumes "ul_normalize_site site = (1, s)"
  shows "site_form UL_URL_LET_DIGIT s \<and> length s \<le> length site \<and> ul_normalize_site s = (1, s)"
  using normalize_site_body_form[OF assms[unfolded ul_normalize_site_def] dot_not_host(1)]
  by (simp add: ul_normalize_site_def)

theorem normalize_site_form_witness:
  "ul_normalize_site ''WWW.b%41-c.Com'' = (1, ''www.ba-c.com'') \<and> site_form UL_URL_LET_DIGIT ''www.ba-c.com''"
proof -
  have e: "ul_normalize_site ''WWW.b%41-c.Com'' = (1, ''www.ba-c.com'')" by code_simp
  show ?thesis using normalize_site_form[OF e] e by simp
qed

lemma port_scan_digits: "port_scan k s = Some [] \<longleftrightarrow> (\<forall>c \<in> set s. isdigit c) \<and> (s = [] \<or> k + length s \<le> 5)"
  by (induction k s rule: port_scan.induct) (auto simp: table_specs)

lemma dec_int_nat: "dec_int (int n) = dec_nat n"
  by (simp add: dec_int_def)

lemma ul_normalize_port_eq:
  assumes "port \<noteq> []"
  shows "ul_normalize_port port =
    (if (\<forall>c \<in> set port. isdigit c) \<and> length port \<le> 5 \<and> 0 < digits_val 0 port \<and> digits_val 0 port \<le> 65535
     then (1, if digits_val 0 port = 80 then [] else dec_nat (digits_val 0 port)) else (0, port))"
proof (cases "port_scan 0 port = Some []")
  case True
  then have d: "\<forall>c \<in> set port. isdigit c" "length port \<le> 5" using assms by (auto simp: port_scan_digits)
  then have a: "atoi port = int (digits_val 0 port)" by (intro atoi_digits) auto
  have "digits_val 0 port < 10 ^ length port" using digits_val_bound[of 0 port] by simp
  also have "(10::nat) ^ length port \<le> 10 ^ 5" using d(2) by (intro power_increasing) auto
  finally have "int (digits_val 0 port) mod 2 ^ 32 = int (digits_val 0 port)" by simp
  then show ?thesis using assms True d a by (auto simp: ul_normalize_port_def Let_def dec_int_nat)
next
  case False
  then have "\<not> ((\<forall>c \<in> set port. isdigit c) \<and> length port \<le> 5)" using assms by (auto simp: port_scan_digits)
  then show ?thesis using assms False
    by (auto simp: ul_normalize_port_def Let_def split: option.splits)
qed

text \<open>\<open>ul_normalize_port\<close> accepts the empty port and the decimal numbers from 1 to 65535 of at most five
  digits; it removes leading zeros and the default port 80, and reads the number it was given.\<close>

theorem normalize_port_correct:
  assumes "port \<noteq> []"
  shows "ul_normalize_port port =
    (if (\<forall>c \<in> set port. isdigit c) \<and> length port \<le> 5 \<and> 0 < digits_val 0 port \<and> digits_val 0 port \<le> 65535
     then (1, if digits_val 0 port = 80 then [] else dec_nat (digits_val 0 port)) else (0, port))"
  using assms by (rule ul_normalize_port_eq)

theorem normalize_port_correct_witness:
  "ul_normalize_port ''08080'' = (1, ''8080'') \<and> ul_normalize_port ''7x'' = (0, ''7x'')"
proof -
  have v: "digits_val 0 ''08080'' = 8080" "(\<forall>c \<in> set ''08080''. isdigit c) = True" "(\<forall>c \<in> set ''7x''. isdigit c) = False"
    by (simp_all add: isdigit_def digit_val_def)
  have d: "dec_nat 8080 = ''8080''" by (simp add: dec_nat.simps) code_simp
  show ?thesis
    using normalize_port_correct[of "''08080''"] normalize_port_correct[of "''7x''"] unfolding v by (simp add: d)
qed

lemma strrchr_Some:
  assumes "strrchr s c = Some i"
  shows "i < length s \<and> s ! i = c"
proof -
  from assms obtain j where j: "strchr (rev s) c = Some j" "i = length s - 1 - j" by (auto simp: strrchr_def)
  from strchr_Some[OF j(1)] have "j < length s" "rev s ! j = c" by auto
  then show ?thesis using j(2) by (auto simp: rev_nth)
qed

lemma trunk_loop_Some:
  assumes "trunk_loop site (int ptail) k = Some (t, j)" "k \<le> ptail" "ptail < length site" "site ! ptail = CHR ''.''"
    "CHR ''.'' \<notin> set (take (ptail - k) (drop k site))"
  shows "\<exists>a b. site = a @ t @ CHR ''.'' # b \<and> length a = j \<and> (a = [] \<or> last a = CHR ''.'') \<and> CHR ''.'' \<notin> set t
     \<and> ul_is_ignore (t @ CHR ''.'' # b) = 0"
  using assms
proof (induction k arbitrary: ptail)
  case 0
  then have "t = take ptail site" "j = 0" "ul_is_ignore site = 0" by (auto split: if_splits)
  moreover have "site = take ptail site @ CHR ''.'' # drop (Suc ptail) site"
    using 0(3,4) by (metis id_take_nth_drop)
  ultimately show ?case using 0(5) by (intro exI[of _ "[]"] exI[of _ "drop (Suc ptail) site"]) auto
next
  case (Suc k)
  have kl: "k < length site" using Suc.prems(2,3) by simp
  show ?case
  proof (cases "site ! k = CHR ''.''")
    case True
    show ?thesis
    proof (cases "ul_is_ignore (drop (Suc k) site) = 0")
      case ig: True
      have r: "t = take (ptail - Suc k) (drop (Suc k) site)" "j = Suc k" using Suc.prems(1) True ig by auto
      have a: "take (Suc k) site = take k site @ ''.''" using True kl by (simp add: take_Suc_conv_app_nth)
      have "drop (Suc k) site = t @ CHR ''.'' # drop (Suc ptail) site"
        using Suc.prems(2-4) id_take_nth_drop[of "ptail - Suc k" "drop (Suc k) site"] by (simp add: r(1))
      moreover from this have "site = take (Suc k) site @ t @ CHR ''.'' # drop (Suc ptail) site" by (metis append_take_drop_id)
      ultimately show ?thesis using Suc.prems(5) ig r a kl
        by (intro exI[of _ "take (Suc k) site"] exI[of _ "drop (Suc ptail) site"]) auto
    next
      case False
      then show ?thesis using Suc.IH[of k] Suc.prems True kl by simp
    qed
  next
    case False
    have "take (ptail - k) (drop k site) = site ! k # take (ptail - Suc k) (drop (Suc k) site)"
      using Suc.prems(2) kl by (simp add: Cons_nth_drop_Suc[symmetric] take_Cons')
    then show ?thesis using Suc.IH[of ptail] Suc.prems False by auto
  qed
qed

text \<open>The trunk that \<open>ul_fetch_trunk\<close> returns for a site that is no address is one of its labels, cut to
  the size of the buffer, that is not the last one and does not start an ignored suffix.\<close>

theorem fetch_trunk_label:
  assumes "ul_fetch_trunk inet_aton site trunk sz = Some (1, t)" "inet_aton site = 0"
  shows "\<exists>a l b. site = a @ l @ CHR ''.'' # b \<and> (a = [] \<or> last a = CHR ''.'') \<and> CHR ''.'' \<notin> set l
     \<and> \<not> (\<exists>e \<in> set ul_ignore_list. prefix (fst e) (l @ CHR ''.'' # b)) \<and> t = take (nat (sz - 1)) l"
proof -
  obtain ptail l k where p: "strrchr site CHR ''.'' = Some ptail" "trunk_loop site (int ptail) ptail = Some (l, k)"
    "copy_str sz l = Some t"
    using assms by (auto simp: ul_fetch_trunk_def ul_is_dotip_def split: option.splits)
  have t: "t = take (nat (sz - 1)) l" using p(3) by (auto simp: copy_str_def split: if_splits)
  from trunk_loop_Some[OF p(2)] strrchr_Some[OF p(1)] obtain a b where
    "site = a @ l @ CHR ''.'' # b" "a = [] \<or> last a = CHR ''.''" "CHR ''.'' \<notin> set l" "ul_is_ignore (l @ CHR ''.'' # b) = 0"
    by auto
  moreover have "\<not> (\<exists>e \<in> set ul_ignore_list. prefix (fst e) s)" if "ul_is_ignore s = 0" for s
    using that unfolding ignore_ex ul_is_ignore_idx by (auto split: if_splits)
  ultimately show ?thesis using t by blast
qed

theorem fetch_trunk_label_witness:
  "ul_fetch_trunk (\<lambda>_. 0) ''www.sina.com.cn'' [] 16 = Some (1, ''sina'')
   \<and> (\<exists>a l b. ''www.sina.com.cn'' = a @ l @ CHR ''.'' # b \<and> ''sina'' = take (nat (16 - 1)) l)"
proof -
  have e: "ul_fetch_trunk (\<lambda>_. 0) ''www.sina.com.cn'' [] 16 = Some (1, ''sina'')" by code_simp
  show ?thesis using fetch_trunk_label[OF e] e by blast
qed

definition hlabel :: "cstr \<Rightarrow> bool" where
  "hlabel x \<longleftrightarrow> x \<noteq> [] \<and> (\<forall>c \<in> set x. is_hostch c) \<and> is_alnum (last x)"

lemma hostname_labels_iff:
  "hostname_labels prev s \<longleftrightarrow> (\<exists>l ls. s = l @ dotted ls \<and> (\<forall>c \<in> set l. is_hostch c)
      \<and> rev l @ prev \<noteq> [] \<and> is_alnum (hd (rev l @ prev)) \<and> (\<forall>x \<in> set ls. hlabel x))"
  (is "_ \<longleftrightarrow> (\<exists>l ls. ?P prev s l ls)")
proof (induction prev s rule: hostname_labels.induct)
  case (1 prev)
  show ?case by (auto simp: table_specs dotted_def intro: exI[of _ "[]"])
next
  case (2 prev c s)
  have nd: "\<not> is_hostch CHR ''.''" by (simp add: char_class_defs)
  show ?case
  proof (cases "is_hostch c")
    case True
    have "(\<exists>l ls. ?P (c # prev) s l ls) \<longleftrightarrow> (\<exists>l ls. ?P prev (c # s) l ls)"
    proof
      assume "\<exists>l ls. ?P (c # prev) s l ls"
      then obtain l ls where "?P (c # prev) s l ls" by blast
      then have "?P prev (c # s) (c # l) ls" using True by simp
      then show "\<exists>l ls. ?P prev (c # s) l ls" by blast
    next
      assume "\<exists>l ls. ?P prev (c # s) l ls"
      then obtain l ls where l: "?P prev (c # s) l ls" by blast
      then obtain l' where "l = c # l'" using True nd by (cases l; cases ls) auto
      then have "?P (c # prev) s l' ls" using l by simp
      then show "\<exists>l ls. ?P (c # prev) s l ls" by blast
    qed
    then show ?thesis using 2(1) True by (simp add: table_specs)
  next
    case False
    let ?R = "\<exists>x xs. s = x @ dotted xs \<and> hlabel x \<and> (\<forall>x \<in> set xs. hlabel x)"
    have "?P prev (c # s) l ls \<longleftrightarrow> l = [] \<and> prev \<noteq> [] \<and> is_alnum (hd prev) \<and> c = CHR ''.''
        \<and> (\<exists>x xs. ls = x # xs \<and> s = x @ dotted xs \<and> hlabel x \<and> (\<forall>x \<in> set xs. hlabel x))" for l ls
      using False by (cases l; cases ls) auto
    then have A: "(\<exists>l ls. ?P prev (c # s) l ls) \<longleftrightarrow> prev \<noteq> [] \<and> is_alnum (hd prev) \<and> c = CHR ''.'' \<and> ?R"
      by (simp only:) blast
    have B: "?P (CHR ''.'' # prev) s x xs \<longleftrightarrow> s = x @ dotted xs \<and> hlabel x \<and> (\<forall>x \<in> set xs. hlabel x)" for x xs
      by (cases x rule: rev_cases) (auto simp: hlabel_def char_class_defs)
    have "hostname_labels (CHR ''.'' # prev) s \<longleftrightarrow> ?R"
      if "prev \<noteq> []" "is_alnum (hd prev)" "c = CHR ''.''"
      using 2(2) that False unfolding that(3) B by (simp add: table_specs)
    then show ?thesis unfolding A using False by (auto simp: table_specs)
  qed
qed

text \<open>\<open>check_hostname\<close> accepts exactly the names made of labels of letters, digits, hyphens and underscores,
  each ending in a letter or digit, with a dot between them.\<close>

theorem check_hostname_correct:
  "check_hostname (Some s) = Some 1 \<longleftrightarrow>
     (\<exists>l ls. s = l @ dotted ls \<and> (\<forall>x \<in> set (l # ls). x \<noteq> [] \<and> (\<forall>c \<in> set x. is_hostch c) \<and> is_alnum (last x)))"
proof -
  have "hostname_labels [] s \<longleftrightarrow> (\<exists>l ls. s = l @ dotted ls \<and> (\<forall>x \<in> set (l # ls). hlabel x))"
    unfolding hostname_labels_iff by (auto simp: hlabel_def hd_rev)
  moreover have "s \<noteq> [] \<and> is_hostch (hd s)" if "s = l @ dotted ls" "hlabel l" for l ls
    using that by (cases l) (auto simp: hlabel_def)
  ultimately show ?thesis
    by (auto simp: check_hostname_def table_specs hlabel_def)
qed

theorem check_hostname_correct_witness:
  "check_hostname (Some ''a-b.c'') = Some 1 \<and> check_hostname (Some ''a-.c'') = Some 0
   \<and> (\<exists>l ls. ''a-b.c'' = l @ dotted ls \<and> (\<forall>x \<in> set (l # ls). x \<noteq> [] \<and> (\<forall>c \<in> set x. is_hostch c) \<and> is_alnum (last x)))"
proof -
  have e: "check_hostname (Some ''a-b.c'') = Some 1" "check_hostname (Some ''a-.c'') = Some 0" by code_simp+
  from check_hostname_correct[THEN iffD1, OF e(1)] e show ?thesis by simp
qed

end
