(* ===== verification/Ul_Http.thy ===== *)
theory Ul_Http
  imports Ul_Net_Old Ul_Chunk Url_Parse Url_Site
begin

unbundle bit_operations_syntax

text \<open>
  The fetching of a page, \<^verbatim>\<open>ullib/src/dep/dep_http.cpp\<close>: opening the connection, the request, the lines of the head and
  the body, in the form with separate arguments (\<open>ul_gethttpcontent\<close>) and the two forms with a \<open>PAGE_ITEM\<close>.

  The connection is the script of \<^verbatim>\<open>Ul_Pack_Io\<close>, a block of memory a list of bytes. A write outside a block, or a
  \<open>memcpy\<close> of a negative number of bytes, has no result. The word of a header line is read into the local \<open>con\<close>:
  \<open>room\<close> is the number of bytes from \<open>con\<close> on that belong to nothing else, 10 as it is declared and more if the compiler
  leaves a gap. That the socket is closed at the end is not modelled; the log messages are not either.
\<close>

section \<open>Opening the connection\<close>

datatype waiting = NoAnswer | NoEvent | SockError "int option"
  \<comment> \<open>what the wait for the end of a \<open>connect\<close> brings: a time-out, an event but no data, or what \<open>getsockopt\<close> gives; \<open>None\<close>: it fails\<close>

datatype connect_ev = Connected | ConnFailed bool | ConnWaiting waiting
  \<comment> \<open>a failed \<open>connect\<close> sets \<open>errno\<close>, to \<open>EAGAIN\<close> or something else that is not \<open>EINPROGRESS\<close>\<close>

record net =
  socket_fd :: int
  numeric_addr :: "cstr \<Rightarrow> nat option"
  resolve :: "cstr \<Rightarrow> nat option"
  connecting :: "nat \<Rightarrow> int \<Rightarrow> connect_ev"

definition zx_connecto :: "int \<Rightarrow> connect_ev \<Rightarrow> int \<times> nat" where
  \<comment> \<open>the result and how often \<open>sockfd\<close> was closed\<close>
  "zx_connecto sockfd ev =
     (if sockfd \<le> 0 then (-1, 0)
      else case ev of
        Connected \<Rightarrow> (0, 0)
      | ConnFailed eagain \<Rightarrow> (if eagain then (-10, 0) else (-1, 0))
      | ConnWaiting NoAnswer \<Rightarrow> (-1, 1)
      | ConnWaiting NoEvent \<Rightarrow> (-1, 0)
      | ConnWaiting (SockError None) \<Rightarrow> (-1, 0)
      | ConnWaiting (SockError (Some error)) \<Rightarrow> if error \<noteq> 0 then (-1, 1) else (0, 0))"

definition zx_tcpconnecto :: "net \<Rightarrow> cstr \<Rightarrow> int \<Rightarrow> int \<times> nat" where
  "zx_tcpconnecto net host port =
     (let fd = socket_fd net in
      if fd < 0 then (-1, 0)
      else case (case numeric_addr net host of Some a \<Rightarrow> Some a | None \<Rightarrow> resolve net host) of
        None \<Rightarrow> (-1, 1)
      | Some a \<Rightarrow>
          (case zx_connecto fd (connecting net a (port mod 2 ^ 16)) of (ru, closed) \<Rightarrow>
             if ru < 0 then (if ru = -10 then (-10, closed + 1) else (-1, closed + 1)) else (fd, closed)))"

section \<open>The request\<close>

definition MAXHEAD :: nat where "MAXHEAD = 4096"
definition MAXGETCMD :: nat where "MAXGETCMD = 1256"
definition READTIMEOUT :: int where "READTIMEOUT = 300"

definition spider :: cstr where
  "spider = ''Accept-Language: zh-cn'' @ CRLF @ ''Connection: close'' @ CRLF
     @ ''User-Agent: Baiduspider+(+http://www.baidu.com/search/spider.htm)'' @ CRLF @ CRLF"

definition ul_makecmd :: "nat \<Rightarrow> cstr \<Rightarrow> cstr \<Rightarrow> cstr" where
  "ul_makecmd len host file =
     snprintf_buf len (''GET '' @ file @ '' HTTP/1.1'' @ CRLF @ ''Host: '' @ host @ CRLF @ spider)"

definition ul_makecmd_new :: "nat \<Rightarrow> cstr \<Rightarrow> cstr \<Rightarrow> cstr option \<Rightarrow> cstr option \<Rightarrow> cstr option" where
  \<comment> \<open>\<open>None\<close>: the text does not fit in the \<open>len\<close> bytes\<close>
  "ul_makecmd_new len host file lastmod etag =
     (let part = (\<lambda>name v. case v of None \<Rightarrow> [] | Some s \<Rightarrow> if s = [] then [] else name @ s @ CRLF);
          command = snprintf_buf len (''GET '' @ file @ '' HTTP/1.1'' @ CRLF @ ''Host: '' @ host @ CRLF)
            @ part ''If-Modified-Since: '' lastmod @ part ''If-None-Match: '' etag @ spider
      in if length command < len then Some command else None)"

section \<open>The lines of the head\<close>

definition int_of_scan :: "int \<Rightarrow> int" where
  \<comment> \<open>what \<open>%d\<close> stores: \<open>strtol\<close>, which saturates at 64 bits, and the low 32 bits\<close>
  "int_of_scan v = to_int32 (max (- (2 ^ 63)) (min (2 ^ 63 - 1) v))"

definition scan_s_d :: "nat \<Rightarrow> cstr \<Rightarrow> (cstr \<times> int option) option" where
  \<comment> \<open>\<open>sscanf(line, "%s %d", w, &n)\<close> with \<open>room\<close> bytes at \<open>w\<close>; an empty word for none\<close>
  "scan_s_d room line =
     (case scan_word line of (w, r) \<Rightarrow>
        if room \<le> length w then None
        else Some (w, if w = [] then None else map_option (int_of_scan \<circ> fst) (scan_int r)))"

definition header :: "cstr \<Rightarrow> cstr \<Rightarrow> bool" where
  \<comment> \<open>\<open>strncasecmp(line, name, strlen(name)) == 0\<close>\<close>
  "header name line = strncasecmp_eq line name (length name)"

definition cstr_of :: "char list \<Rightarrow> cstr" where
  \<comment> \<open>the string at a block with a terminator\<close>
  "cstr_of blk = takeWhile (\<lambda>c. c \<noteq> NUL) blk"

record reader =
  r_line :: "char list"
  r_src :: "Rline \<times> conn"

datatype step_result = Next | Leave | Return int

partial_function (option) http_heads ::
  "(('a reader_scheme) \<Rightarrow> (step_result \<times> 'a reader_scheme) option) \<Rightarrow> 'a reader_scheme \<Rightarrow> (step_result \<times> 'a reader_scheme) option" where
  \<comment> \<open>the loop \<open>while (1)\<close>: a line is read, and \<open>step\<close> works on it. \<open>Leave\<close> is the empty line\<close>
  "http_heads step st =
     (case ul_readline_speedo (r_line st) MAXLINE READTIMEOUT (r_src st) of
        None \<Rightarrow> None
      | Some (err, line, src) \<Rightarrow>
          (let st1 = st\<lparr>r_line := line, r_src := src\<rparr> in
           if err \<le> 0 then Some (Return err, st1)
           else case step st1 of
             None \<Rightarrow> None
           | Some (res, st2) \<Rightarrow> if res = Next then http_heads step st2 else Some (res, st2)))"

declare http_heads.simps [code]

section \<open>The body\<close>

definition read_body :: "int \<Rightarrow> Rline \<Rightarrow> conn \<Rightarrow> char list \<Rightarrow> int \<Rightarrow> int \<Rightarrow> (int \<times> int \<times> char list \<times> conn) option" where
  \<comment> \<open>from \<open>tmps = page\<close> on: the result, \<open>*pagesize\<close> and \<open>page\<close>\<close>
  "read_body status rl c page pagesize conlen =
     (let n = rl_cnt rl in
      if \<not> n \<le> pagesize - 1 then
        (if pagesize - 1 < 0 then None
         else map_option (\<lambda>page1. (status, pagesize - 1, page1, c))
           (put_at 0 (take (nat (pagesize - 1)) (drop (read_ptr rl) (rl_buf rl)) @ [NUL]) page))
      else if n < 0 then None
      else case put_at 0 (take (nat n) (drop (read_ptr rl) (rl_buf rl))) page of
        None \<Rightarrow> None
      | Some page1 \<Rightarrow>
          (let want = (if conlen = 0 then pagesize - 1 else if pagesize - 1 < conlen then pagesize - 1 else conlen) in
           case ul_sreado (want - n) c of (err, bs, c1) \<Rightarrow>
             if err < 0 then map_option (\<lambda>page2. (err, pagesize, page2, c1)) (put_at (nat n) bs page1)
             else map_option (\<lambda>page2. (status, n + err, page2, c1)) (put_at (nat n) (bs @ [NUL]) page1)))"

section \<open>Fetching with separate arguments\<close>

record origin = reader +
  o_head :: "char list"
  o_tmps :: nat
  o_lastmod :: "char list"
  o_redir :: "char list"
  o_conlen :: int
  o_page :: "char list"
  o_pagesize :: int

definition add_head :: "cstr \<Rightarrow> 'a origin_scheme \<Rightarrow> 'a origin_scheme option" where
  \<comment> \<open>the line behind the others in \<open>head\<close>, when there is room for it\<close>
  "add_head line st =
     (if o_tmps st + length line < MAXHEAD
      then map_option (\<lambda>h. st\<lparr>o_head := h, o_tmps := o_tmps st + length line\<rparr>) (put_at (o_tmps st) (line @ [NUL]) (o_head st))
      else Some st)"

definition save_lastmod :: "cstr \<Rightarrow> 'a origin_scheme \<Rightarrow> 'a origin_scheme option" where
  "save_lastmod line st =
     (if header ''Last-Modified: '' line
      then map_option (\<lambda>b. st\<lparr>o_lastmod := b\<rparr>) (put_at 0 line (o_lastmod st)) else Some st)"

definition save_conlen :: "nat \<Rightarrow> cstr \<Rightarrow> 'a origin_scheme \<Rightarrow> 'a origin_scheme option" where
  "save_conlen room line st =
     (if header ''Content-Length: '' line
      then (case scan_s_d room line of
              None \<Rightarrow> None
            | Some (w, v) \<Rightarrow> Some (case v of None \<Rightarrow> st | Some n \<Rightarrow> st\<lparr>o_conlen := n\<rparr>))
      else Some st)"

definition redir_len :: "cstr \<Rightarrow> int" where
  "redir_len line =
     (let rnlen = (if strstr line [CR] = None then 1 else 2); redirlen = int (length (drop 10 line)) - rnlen in
      if int MAXURL \<le> redirlen then int MAXURL - 1 else redirlen)"

definition save_redir :: "cstr \<Rightarrow> 'a origin_scheme \<Rightarrow> 'a origin_scheme option" where
  \<comment> \<open>\<open>strlen("Location: ")\<close> is 10\<close>
  "save_redir line st =
     (if header ''Location: '' line
      then (if redir_len line < 0 then None
            else map_option (\<lambda>b. st\<lparr>o_redir := b\<rparr>) (put_at 0 (take (nat (redir_len line)) (drop 10 line) @ [NUL]) (o_redir st)))
      else Some st)"

definition origin_step :: "nat \<Rightarrow> 'a origin_scheme \<Rightarrow> (step_result \<times> 'a origin_scheme) option" where
  \<comment> \<open>one line of the head, that has been read\<close>
  "origin_step room st =
     (let line = cstr_of (r_line st) in
      case add_head line st of
        None \<Rightarrow> None
      | Some st1 \<Rightarrow>
          if line = CRLF \<or> line = [LF] then Some (Leave, st1)
          else case Option.bind (save_lastmod line st1) (save_conlen room line) of
            None \<Rightarrow> None
          | Some st2 \<Rightarrow>
              if header ''Content-Type: '' line \<and> strstr line ''text'' = None then Some (Return (-1), st2)
              else map_option (\<lambda>st3. (Next, st3)) (save_redir line st2))"

definition start_reader :: "conn \<Rightarrow> Rline \<times> conn" where
  "start_reader c = (\<lparr>rl_cnt = 0, read_ptr = 0, rl_buf = replicate MAXLINE NUL\<rparr>, c)"

definition origin_body :: "int \<Rightarrow> origin \<Rightarrow> (int \<times> origin) option" where
  \<comment> \<open>from \<open>If only get http head...\<close> on\<close>
  "origin_body status st =
     (if o_pagesize st = 0 then
        map_option (\<lambda>h. (status, st\<lparr>o_head := h\<rparr>)) (put_at (o_tmps st) [NUL] (o_head st))
      else case r_src st of (rl, c) \<Rightarrow>
        map_option (\<lambda>(ret, n, page, c1). (ret, st\<lparr>o_pagesize := n, o_page := page, r_src := (rl, c1)\<rparr>))
          (read_body status rl c (o_page st) (o_pagesize st) (o_conlen st)))"

definition origin_answer :: "nat \<Rightarrow> origin \<Rightarrow> (int \<times> origin) option" where
  \<comment> \<open>from the first line of the answer on; \<open>stats1\<close> has 10 bytes\<close>
  "origin_answer room st0 =
     (case ul_readline_speedo (r_line st0) MAXLINE READTIMEOUT (r_src st0) of
        None \<Rightarrow> None
      | Some (err, line, src) \<Rightarrow>
          (let st = st0\<lparr>r_line := line, r_src := src\<rparr> in
           if err \<le> 0 then Some (err, st)
           else case scan_s_d 10 (cstr_of line) of
             None \<Rightarrow> None
           | Some (w, None) \<Rightarrow> Some (-1, st)
           | Some (w, Some status) \<Rightarrow>
               if status sdiv 100 = 2 \<or> status sdiv 100 = 3 then
                 (case add_head (cstr_of line) st of
                    None \<Rightarrow> None
                  | Some st1 \<Rightarrow>
                      (case http_heads (origin_step room) (st1\<lparr>o_conlen := 0\<rparr>) of
                         None \<Rightarrow> None
                       | Some (Return r, st2) \<Rightarrow> Some (r, st2)
                       | Some (_, st2) \<Rightarrow> origin_body status st2))
               else Some (status, st)))"

definition locate :: "cstr \<Rightarrow> (cstr \<times> cstr \<times> int) option" where
  \<comment> \<open>host, path and port of the address; \<open>None\<close> for \<open>return -1\<close>\<close>
  "locate url =
     (case fst (ul_get_site url (Some [])) of
        None \<Rightarrow> None
      | Some host \<Rightarrow>
          (case fst (ul_get_path url (Some [])) of
             None \<Rightarrow> None
           | Some file \<Rightarrow> (case ul_get_port url of (r, port) \<Rightarrow> if r = 0 then None else map_option (\<lambda>p. (host, file, p)) port)))"

definition ul_gethttpcontent_origin ::
  "net \<Rightarrow> nat \<Rightarrow> cstr option \<Rightarrow> cstr option \<Rightarrow> conn \<Rightarrow> origin option \<Rightarrow> (int \<times> origin option) option" where
  \<comment> \<open>\<open>st\<close> holds the caller's blocks, \<open>None\<close> if one of them is a null pointer, and the local \<open>line\<close>; \<open>c\<close> is the connection
      there will be\<close>
  "ul_gethttpcontent_origin net room url ip c st0 =
     (case (url, st0) of
        (Some u, Some st) \<Rightarrow>
          (case locate u of
             None \<Rightarrow> Some (-1, st0)
           | Some (host, file, port) \<Rightarrow>
               (let command = ul_makecmd MAXGETCMD host file;
                    ts = fst (zx_tcpconnecto net (case ip of None \<Rightarrow> host | Some a \<Rightarrow> a) port)
                in if ts \<le> -1 then Some (ts, st0)
                   else case ul_swriteo_ex command c of (err, c1) \<Rightarrow>
                     if err \<le> 0 then Some (-1, Some (st\<lparr>r_src := start_reader c1\<rparr>))
                     else case put_at 0 [NUL] (o_head st) of
                       None \<Rightarrow> None
                     | Some h \<Rightarrow>
                         map_option (\<lambda>(r, st'). (r, Some st'))
                           (origin_answer room (st\<lparr>r_src := start_reader c1, o_head := h, o_tmps := 0\<rparr>))))
      | _ \<Rightarrow> Some (-1, st0))"

definition ul_gethttpcontent ::
  "net \<Rightarrow> nat \<Rightarrow> cstr option \<Rightarrow> cstr option \<Rightarrow> conn \<Rightarrow> origin option \<Rightarrow> (int \<times> origin option) option" where
  "ul_gethttpcontent net room url ip c st0 =
     (case ul_gethttpcontent_origin net room url ip c st0 of
        Some (ret, Some st) \<Rightarrow>
          if (ret sdiv 100 = 2 \<or> ret sdiv 100 = 3) \<and> strstr (cstr_of (o_head st)) ''chunked'' \<noteq> None
          then map_option (\<lambda>(n, page). (ret, Some (st\<lparr>o_pagesize := n, o_page := page\<rparr>))) (chunkpage (o_page st) (o_pagesize st))
          else Some (ret, Some st)
      | r \<Rightarrow> r)"

section \<open>Fetching with a PAGE_ITEM\<close>

definition METHOD_GET :: int where "METHOD_GET = 1"
definition METHOD_CHK :: int where "METHOD_CHK = 2"
definition LASTMOD_FLAG :: int where "LASTMOD_FLAG = 1"
definition ETAG_FLAG :: int where "ETAG_FLAG = 2"
definition MAX_ETAG_LEN :: nat where "MAX_ETAG_LEN = 64"

record PAGE_ITEM =
  i_method :: int
  i_orilen :: int
  i_head_flag :: int
  i_url :: cstr
  i_ip :: cstr
  i_protocol :: "char list"
  i_pagesize :: int
  i_status :: int
  i_conlen :: int
  i_lastmod :: "char list"
  i_contyp :: "char list"
  i_trnenc :: "char list"
  i_etag :: "char list"
  i_redir :: "char list"
  i_page :: "char list"
  i_proxy_flag :: int

record fetch = reader +
  f_item :: PAGE_ITEM
  f_conlen :: int

definition strncpy :: "char list \<Rightarrow> cstr \<Rightarrow> nat \<Rightarrow> char list" where
  \<comment> \<open>\<open>strncpy(blk, s, n)\<close> on a block of at least \<open>n\<close> bytes\<close>
  "strncpy blk s n = take n s @ replicate (n - length s) NUL @ drop n blk"

definition set_flag :: "int \<Rightarrow> PAGE_ITEM \<Rightarrow> PAGE_ITEM" where
  "set_flag flag it =
     (if i_status it = 200 \<or> i_status it = 304 then it\<lparr>i_head_flag := i_head_flag it OR flag\<rparr>
      else it\<lparr>i_head_flag := i_head_flag it AND NOT flag\<rparr>)"

definition value_of :: "cstr \<Rightarrow> cstr \<Rightarrow> cstr" where
  \<comment> \<open>\<open>p\<close> behind the name and the blanks\<close>
  "value_of name line = dropWhile (\<lambda>c. c = CHR '' '') (drop (length name) line)"

definition cut_last :: "char \<Rightarrow> char list \<Rightarrow> char list" where
  \<comment> \<open>\<open>p = strrchr(line, c); if (p) *p = 0\<close>\<close>
  "cut_last c line = (case strrchr (cstr_of line) c of None \<Rightarrow> line | Some i \<Rightarrow> line[i := NUL])"

definition item_line :: "bool \<Rightarrow> nat \<Rightarrow> cstr \<Rightarrow> 'a fetch_scheme \<Rightarrow> (step_result \<times> 'a fetch_scheme) option" where
  \<comment> \<open>the \<open>else if\<close> chain; \<open>text_only\<close>: what is not text is refused\<close>
  "item_line text_only room line st =
     (let it = f_item st; go = (\<lambda>it'. Some (Next, st\<lparr>f_item := it'\<rparr>)) in
      if header ''Last-Modified:'' line then
        go (set_flag LASTMOD_FLAG (it\<lparr>i_lastmod := strncpy (i_lastmod it) (value_of ''Last-Modified:'' line) (MAXLINE - 1)\<rparr>))
      else if header ''Content-Length:'' line then
        (case scan_s_d room line of
           None \<Rightarrow> None
         | Some (w, v) \<Rightarrow>
             (let n = (case v of None \<Rightarrow> 0 | Some n \<Rightarrow> n) in
              Some (Next, st\<lparr>f_item := it\<lparr>i_conlen := n\<rparr>, f_conlen := n\<rparr>)))
      else if header ''Content-Type:'' line then
        (let contyp = strncpy (i_contyp it) (value_of ''Content-Type:'' line) (MAXLINE - 1); st1 = st\<lparr>f_item := it\<lparr>i_contyp := contyp\<rparr>\<rparr> in
         if text_only \<and> NUL \<notin> set contyp then None
         else if text_only \<and> strstr (cstr_of contyp) ''text'' = None then Some (Return (-1), st1)
         else Some (Next, st1))
      else if header ''Transfer-Encoding:'' line then
        go (it\<lparr>i_trnenc := strncpy (i_trnenc it) (value_of ''Transfer-Encoding:'' line) (MAXLINE - 1)\<rparr>)
      else if header ''ETag:'' line then
        go (set_flag ETAG_FLAG (it\<lparr>i_etag := strncpy (i_etag it) (value_of ''ETag:'' line) (MAX_ETAG_LEN - 1)\<rparr>))
      else if header ''Location:'' line then
        go (it\<lparr>i_redir := strncpy (i_redir it) (value_of ''Location:'' line) (MAXURL - 1)\<rparr>)
      else Some (Next, st))"

definition item_step :: "bool \<Rightarrow> nat \<Rightarrow> 'a fetch_scheme \<Rightarrow> (step_result \<times> 'a fetch_scheme) option" where
  "item_step text_only room st =
     (let blk = cut_last CR (cut_last LF (r_line st)); st1 = st\<lparr>r_line := blk\<rparr> in
      if cstr_of blk = [] then Some (Leave, st1) else item_line text_only room (cstr_of blk) st1)"

definition item_body :: "fetch \<Rightarrow> (int \<times> fetch) option" where
  \<comment> \<open>from the test for \<open>pagesize == 0\<close> on\<close>
  "item_body st =
     (let it = f_item st in
      if i_pagesize it = 0 \<or> i_status it = 304
         \<or> i_method it = METHOD_CHK \<and> i_conlen it \<noteq> 0 \<and> i_orilen it = i_conlen it
      then Some (i_status it, st\<lparr>f_item := it\<lparr>i_pagesize := 0\<rparr>\<rparr>)
      else case r_src st of (rl, c) \<Rightarrow>
        map_option (\<lambda>(ret, n, page, c1). (ret, st\<lparr>f_item := it\<lparr>i_pagesize := n, i_page := page\<rparr>, r_src := (rl, c1)\<rparr>))
          (read_body (i_status it) rl c (i_page it) (i_pagesize it) (f_conlen st)))"

definition item_answer :: "bool \<Rightarrow> nat \<Rightarrow> char list \<Rightarrow> fetch \<Rightarrow> (int \<times> fetch) option" where
  \<comment> \<open>from the first line on; \<open>stats1\<close> holds the 10 bytes the local has before\<close>
  "item_answer text_only room stats1 st0 =
     (case ul_readline_speedo (r_line st0) MAXLINE READTIMEOUT (r_src st0) of
        None \<Rightarrow> None
      | Some (err, line, src) \<Rightarrow>
          (let st = st0\<lparr>r_line := line, r_src := src\<rparr> in
           if err \<le> 0 then Some (err, st)
           else case scan_s_d 10 (cstr_of line) of
             None \<Rightarrow> None
           | Some (w, None) \<Rightarrow> Some (-1, st)
           | Some (w, Some status) \<Rightarrow>
               (let it = (f_item st)\<lparr>i_status := status,
                      i_protocol := take 3 (drop 5 (w @ NUL # drop (Suc (length w)) stats1)) @ [NUL]\<rparr>
                in if status sdiv 100 = 2 \<or> status sdiv 100 = 3 then
                  (case http_heads (item_step text_only room) (st\<lparr>f_item := it\<lparr>i_head_flag := 0\<rparr>\<rparr>) of
                     None \<Rightarrow> None
                   | Some (Return r, st2) \<Rightarrow> Some (r, st2)
                   | Some (_, st2) \<Rightarrow> item_body st2)
                else Some (status, st\<lparr>f_item := it\<rparr>))))"

definition item_command :: "PAGE_ITEM \<Rightarrow> cstr \<Rightarrow> cstr \<Rightarrow> cstr option" where
  "item_command it host file =
     (if i_method it = METHOD_CHK
      then (if NUL \<in> set (i_lastmod it) \<and> NUL \<in> set (i_etag it)
            then ul_makecmd_new MAXGETCMD host file (Some (cstr_of (i_lastmod it))) (Some (cstr_of (i_etag it))) else None)
      else ul_makecmd_new MAXGETCMD host file None None)"

definition fetch_item ::
  "bool \<Rightarrow> net \<Rightarrow> nat \<Rightarrow> char list \<Rightarrow> conn \<Rightarrow> fetch option \<Rightarrow> (int \<times> fetch option) option" where
  "fetch_item text_only net room stats1 c st0 =
     (case st0 of
        None \<Rightarrow> Some (-1, None)
      | Some st \<Rightarrow>
          (let it = (f_item st)\<lparr>i_status := 0, i_conlen := 0\<rparr> in
           case locate (i_url it) of
             None \<Rightarrow> Some (-1, Some (st\<lparr>f_item := it\<rparr>))
           | Some (host, file, port) \<Rightarrow>
               (case item_command it host file of
                  None \<Rightarrow> None
                | Some command \<Rightarrow>
                    (let ts = fst (zx_tcpconnecto net (if i_ip it = [] then host else i_ip it) port) in
                     if ts \<le> -1 then Some (ts, Some (st\<lparr>f_item := it\<rparr>))
                     else case ul_swriteo_ex command c of (err, c1) \<Rightarrow>
                       let st1 = st\<lparr>f_item := it, f_conlen := 0, r_src := start_reader c1\<rparr> in
                       if err \<le> 0 then Some (-1, Some st1)
                       else map_option (\<lambda>(r, st'). (r, Some st')) (item_answer text_only room stats1 st1)))))"

definition ul_gethttpcontent_origin_new :: "net \<Rightarrow> nat \<Rightarrow> char list \<Rightarrow> conn \<Rightarrow> fetch option \<Rightarrow> (int \<times> fetch option) option" where
  "ul_gethttpcontent_origin_new = fetch_item True"

definition ul_gethttpcontent_origin_new_notpt :: "net \<Rightarrow> nat \<Rightarrow> char list \<Rightarrow> conn \<Rightarrow> fetch option \<Rightarrow> (int \<times> fetch option) option" where
  "ul_gethttpcontent_origin_new_notpt = fetch_item False"

definition decode_item ::
  "(char list \<Rightarrow> int \<Rightarrow> (int \<times> char list) option) \<Rightarrow> (int \<times> fetch option) option \<Rightarrow> (int \<times> fetch option) option" where
  \<comment> \<open>the end of the two functions below\<close>
  "decode_item decode res =
     (case res of
        Some (ret, Some st) \<Rightarrow>
          if ret sdiv 100 = 2 \<or> ret sdiv 100 = 3 then
            (if NUL \<notin> set (i_trnenc (f_item st)) then None
             else if strstr (cstr_of (i_trnenc (f_item st))) ''chunked'' \<noteq> None
             then map_option (\<lambda>(n, page). (ret, Some (st\<lparr>f_item := (f_item st)\<lparr>i_pagesize := n, i_page := page\<rparr>\<rparr>)))
               (decode (i_page (f_item st)) (i_pagesize (f_item st)))
             else res)
          else res
      | _ \<Rightarrow> res)"

definition ul_gethttpcontent_new :: "net \<Rightarrow> nat \<Rightarrow> char list \<Rightarrow> conn \<Rightarrow> fetch option \<Rightarrow> (int \<times> fetch option) option" where
  "ul_gethttpcontent_new net room stats1 c st = decode_item chunkpage (ul_gethttpcontent_origin_new net room stats1 c st)"

definition ul_gethttpcontent_new_notpt ::
  "(int \<Rightarrow> bool) \<Rightarrow> net \<Rightarrow> nat \<Rightarrow> char list \<Rightarrow> conn \<Rightarrow> fetch option \<Rightarrow> (int \<times> fetch option) option" where
  "ul_gethttpcontent_new_notpt calloc_ok net room stats1 c st =
     decode_item (chunkpage_new calloc_ok) (ul_gethttpcontent_origin_new_notpt net room stats1 c st)"

end
