(* ===== verification/Ul_Http_Facts.thy ===== *)
theory Ul_Http_Facts
  imports Ul_Http
begin

text \<open>
  What the fetching of a page does: on every connection it stays inside the caller's blocks, but for the holes that are
  named here, and on a calm one it delivers the page that was sent, put together from its chunks if need be.
\<close>

section \<open>A line from any connection\<close>

lemma reado_tv_facts:
  assumes "ul_reado_tv n c = (k, bs, c')"
  shows "k < 0 \<and> incoming c' = incoming c
    \<or> k = int (length bs) \<and> incoming c = bs @ incoming c' \<and> length bs \<le> n \<and> (bs = [] \<longrightarrow> n = 0 \<or> incoming c = [])"
  using assms by (auto simp: ul_reado_tv_def sys_read_def Let_def take_drop_min split: list.splits poll_ev.splits read_ev.splits)

lemma refill_facts:
  assumes "refill rl c = (r, rl', c')" and "length (rl_buf rl) = MAXLINE"
  shows "r = 1 \<and> 0 < rl_cnt rl' \<and> rline_ok rl' \<and> incoming c = ahead rl' @ incoming c'
    \<or> r \<noteq> 1 \<and> r \<le> 0 \<and> rl_cnt rl' \<le> 0 \<and> rline_ok rl' \<and> incoming c' = incoming c \<and> (r = 0 \<longrightarrow> incoming c = [] \<and> rl_cnt rl' = 0)"
  using assms
proof (induction rl c arbitrary: r rl' c' rule: refill.induct)
  case (1 rl c)
  obtain k bs d where k: "ul_reado_tv MAXLINE c = (k, bs, d)" by (metis prod_cases3)
  note f = reado_tv_facts[OF k]
  consider (again) "k < 0" "eintr d" | (failed) "k < 0" "\<not> eintr d" | (none) "k = 0" | (got) "0 < k" by linarith
  then show ?case
  proof cases
    case again
    then have "refill (rl\<lparr>rl_cnt := k\<rparr>) d = (r, rl', c')" using 1(2) k by (subst (asm) refill.simps) simp
    then show ?thesis using 1(1)[OF k[symmetric] refl again] 1(3) f again by simp
  next
    case failed
    then show ?thesis using 1(2,3) k f by (subst (asm) refill.simps) (auto simp: rline_ok_def)
  next
    case none
    then show ?thesis using 1(2,3) k f by (subst (asm) refill.simps) (auto simp: rline_ok_def MAXLINE_def)
  next
    case got
    then have b: "length bs \<le> MAXLINE" "k = int (length bs)" "incoming c = bs @ incoming d" using f by auto
    have "rl' = filled rl bs" "r = 1" "c' = d" using got 1(2) k b by (subst (asm) refill.simps; simp add: filled_def)+
    moreover have "bs = take (min (Suc (length bs)) MAXLINE) bs" using b(1) by simp
    ultimately show ?thesis using got b 1(3) filled_ok[of bs "length bs" bs rl] by (simp add: filled_def)
  qed
qed

lemma myread_facts:
  assumes "ul_myread_tv s = (rc, bs, s')" and "rline_ok (fst s)"
  shows "rline_ok (fst s') \<and> (rc = 1 \<and> length bs = 1 \<and> unread s = bs @ unread s' \<and> 0 \<le> rl_cnt (fst s')
    \<or> rc \<noteq> 1 \<and> rc \<le> 0 \<and> unread s' = unread s \<and> (rc = 0 \<longrightarrow> unread s = [] \<and> 0 \<le> rl_cnt (fst s')))"
proof -
  obtain rl c where s: "s = (rl, c)" by (cases s)
  show ?thesis
  proof (cases "0 < rl_cnt rl")
    case True
    then show ?thesis using assms take_next[of rl] by (auto simp: s ul_myread_tv_def unread_def)
  next
    case False
    obtain r rl' c' where r: "refill rl c = (r, rl', c')" by (metis prod_cases3)
    have "length (rl_buf rl) = MAXLINE" using assms(2) by (simp add: s rline_ok_def)
    note f = refill_facts[OF r this]
    have u: "unread s = incoming c" using False by (simp add: s unread_def ahead_def)
    show ?thesis
    proof (cases "r = 1")
      case True
      then show ?thesis using f assms(1) r False u take_next[of rl'] by (auto simp: s ul_myread_tv_def unread_def)
    next
      case n: False
      then have "s' = (rl', c')" "rc = r" using assms(1) r False by (auto simp: s ul_myread_tv_def)
      moreover have "ahead rl' = []" using f n by (simp add: ahead_def)
      ultimately show ?thesis using f n u by (auto simp: unread_def)
    qed
  qed
qed

lemma speedo_loop_facts:
  assumes "speedo_loop lim got s = (rc, got', fin, s')" and "rline_ok (fst s)" and "lim = int (length got) + 1 + int k"
  shows "rline_ok (fst s') \<and> (fin \<longrightarrow> k \<noteq> 0 \<or> 0 \<le> rl_cnt (fst s) \<longrightarrow> 0 \<le> rl_cnt (fst s')) \<and> (\<exists>l. got' = got @ l \<and> length l \<le> k \<and>
    (fin \<and> 0 < rc \<and> cut_line k (unread s) = (l, unread s') \<and> (got' \<noteq> [] \<or> k = 0) \<or> \<not> fin \<and> rc \<le> 0))"
  using assms
proof (induction lim got s arbitrary: rc got' fin s' k rule: speedo_loop.induct)
  case (1 lim got s)
  note eq = 1(3)[unfolded speedo_loop.simps[of lim got s]]
  show ?case
  proof (cases k)
    case 0
    then show ?thesis using eq 1(4,5) by auto
  next
    case (Suc j)
    then have lim: "int (length got) + 1 < lim" using 1(5) by simp
    obtain r bs t where r: "ul_myread_tv s = (r, bs, t)" by (metis prod_cases3)
    note f = myread_facts[OF r 1(4)]
    have no: "r \<noteq> 1 \<Longrightarrow> r \<noteq> 0 \<Longrightarrow> \<not> eintr (snd t)" using myread_no_eintr[of s r bs "fst t" "snd t"] r by simp
    consider (char) x where "r = 1" "bs = [x]" "x \<noteq> LF" | (lf) "r = 1" "bs = [LF]" | (eof) "r = 0" | (bad) "r \<noteq> 1" "r \<noteq> 0"
      using f by (cases bs) auto
    then show ?thesis
    proof cases
      case char
      then have s: "speedo_loop lim (got @ [x]) t = (rc, got', fin, s')" using eq lim r by (simp add: Let_def)
      have u: "unread s = x # unread t" "rline_ok (fst t)" "0 \<le> rl_cnt (fst t)" using f char by simp_all
      have k: "lim = int (length (got @ [x])) + 1 + int j" using 1(5) Suc by simp
      have "\<not> \<not> int (length got) + 1 < lim" using lim by simp
      from 1(1)[OF refl this r[symmetric] refl char(1)] char(2,3) s u(2,3) k
      have "rline_ok (fst s') \<and> (fin \<longrightarrow> 0 \<le> rl_cnt (fst s')) \<and> (\<exists>l. got' = (got @ [x]) @ l \<and> length l \<le> j \<and>
        (fin \<and> 0 < rc \<and> cut_line j (unread t) = (l, unread s') \<and> (got' \<noteq> [] \<or> j = 0) \<or> \<not> fin \<and> rc \<le> 0))" by simp
      then show ?thesis using Suc u(1) char(3) by auto
    next
      case lf
      then have "rc = int (length got) + 1" "got' = got @ [LF]" "fin" "s' = t" using eq lim r by (simp_all add: Let_def)
      then show ?thesis using f lf Suc by auto
    next
      case eof
      then have u: "unread s = []" "unread t = []" "rline_ok (fst t)" "0 \<le> rl_cnt (fst t)" using f by simp_all
      show ?thesis
      proof (cases "got = []")
        case True
        then have "rc = 0" "got' = got" "\<not> fin" "s' = t" using eq lim r eof by (simp_all add: Let_def)
        then show ?thesis using u by simp
      next
        case False
        then have "rc = int (length got) + 1" "got' = got" "fin" "s' = t" using eq lim r eof by (auto simp: Let_def)
        then show ?thesis using u Suc False by auto
      qed
    next
      case bad
      then have "rc = -1" "got' = got" "\<not> fin" "s' = t" using eq lim r no[OF bad] by (simp_all add: Let_def)
      then show ?thesis using f by simp
    qed
  qed
qed

lemma c_str_append: "cstr_of (l @ NUL # r) = cstr_of l"
  by (induction l) (simp_all add: cstr_of_def)

lemma c_str_no_nul: "NUL \<notin> set l \<Longrightarrow> cstr_of l = l"
  by (auto simp: cstr_of_def takeWhile_eq_all_conv)

lemma length_c_str: "length (cstr_of l) \<le> length l"
  by (simp add: cstr_of_def length_takeWhile_le)

lemma readline_facts:
  assumes "length blk = MAXLINE" and "rline_ok (fst s)"
  shows "\<exists>rc blk' s'. ul_readline_speedo blk MAXLINE READTIMEOUT s = Some (rc, blk', s') \<and> length blk' = MAXLINE \<and> rline_ok (fst s')
    \<and> (0 < rc \<longrightarrow> 0 \<le> rl_cnt (fst s') \<and> (\<exists>l. l \<noteq> [] \<and> cut_line (MAXLINE - 1) (unread s) = (l, unread s') \<and> cstr_of blk' = cstr_of l \<and> NUL \<in> set blk'))"
proof -
  obtain rc l fin s' where r: "speedo_loop (to_int32 (int MAXLINE)) [] s = (rc, l, fin, s')" by (metis prod_cases4)
  have lim: "to_int32 (int MAXLINE) = int (length ([]::char list)) + 1 + int (MAXLINE - 1)"
    using to_int32_id[of "int MAXLINE"] by (simp add: MAXLINE_def)
  note f = speedo_loop_facts[OF r assms(2) lim]
  have e: "ul_readline_speedo blk MAXLINE READTIMEOUT s = put_line blk (rc, l, fin, s')"
    using r by (simp add: readline_speedo_same READTIMEOUT_def ul_readline_speedo_ms_ex_def)
  show ?thesis
  proof (cases fin)
    case True
    then have "put_line blk (rc, l, fin, s') = Some (rc, l @ NUL # drop (Suc (length l)) blk, s')"
      using f assms(1) by (auto simp: put_line_def MAXLINE_def)
    then show ?thesis using True e f assms(1) by (auto simp: c_str_append MAXLINE_def)
  next
    case False
    then have "put_line blk (rc, l, fin, s') = Some (rc, l @ drop (length l) blk, s')"
      using f assms(1) by (auto simp: put_line_def MAXLINE_def)
    then show ?thesis using False e f assms(1) by auto
  qed
qed

section \<open>The body stays in the page\<close>

lemma sreado_loop_length: "sreado_loop n got c = (r, bs, c') \<Longrightarrow> length bs \<le> length got + n"
proof (induction n got c arbitrary: r bs c' rule: sreado_loop.induct)
  case (1 n got c)
  obtain k cs d where k: "ul_reado_tv n c = (k, cs, d)" by (metis prod_cases3)
  note f = reado_tv_facts[OF k]
  consider (stop) "n = 0 \<or> k = 0" | (fail) "k < 0" "\<not> (k = -1 \<and> eintr d)" | (again) "n \<noteq> 0" "k = -1" "eintr d" | (some) "n \<noteq> 0" "0 < k" by linarith
  then show ?case
  proof cases
    case again
    then have "sreado_loop n got d = (r, bs, c')" using 1(3) k by (subst (asm) sreado_loop.simps) simp
    then show ?thesis using 1(1)[OF _ k[symmetric] refl] again by simp
  next
    case some
    then have "sreado_loop (n - length cs) (got @ cs) d = (r, bs, c')" using 1(3) k by (subst (asm) sreado_loop.simps) simp
    then have "length bs \<le> length (got @ cs) + (n - length cs)" using 1(2)[OF _ k[symmetric] refl] some by simp
    then show ?thesis using f some by auto
  qed (use 1(3) k in \<open>subst (asm) sreado_loop.simps, auto split: if_splits\<close>)+
qed

lemma sreado_facts:
  assumes "ul_sreado n c = (r, bs, c')"
  shows "int (length bs) \<le> max 0 n \<and> (r = -1 \<or> r = int (length bs))"
proof (cases "n \<le> 0")
  case False
  then have "sreado_loop (nat n) [] c = (r, bs, c')" using assms by (simp add: ul_sreado_def ul_sreado_ms_def)
  from sreado_loop_length[OF this] sreado_loop_result[OF this] False show ?thesis by auto
qed (use assms in \<open>simp add: ul_sreado_def ul_sreado_ms_def\<close>)

lemma length_ahead: "rline_ok rl \<Longrightarrow> 0 \<le> rl_cnt rl \<Longrightarrow> length (ahead rl) = nat (rl_cnt rl)"
  by (cases "rl_cnt rl = 0") (auto simp: rline_ok_def ahead_def)

lemma drop_eq_mono: "drop a xs = drop a ys \<Longrightarrow> a \<le> b \<Longrightarrow> drop b xs = drop b ys"
  by (metis drop_drop le_add_diff_inverse2)

lemma nul_behind: "take (Suc (length bs)) (drop k blk) = bs @ [NUL] \<Longrightarrow> k + length bs < length blk \<and> blk ! (k + length bs) = NUL"
proof -
  assume a: "take (Suc (length bs)) (drop k blk) = bs @ [NUL]"
  from arg_cong[OF this, of length] have l: "k + length bs < length blk" by (auto simp: min_def split: if_splits)
  have "blk ! (k + length bs) = take (Suc (length bs)) (drop k blk) ! length bs" using l by simp
  then show ?thesis using l by (simp add: a)
qed

lemma read_body_safe:
  assumes "rline_ok rl" and "0 \<le> rl_cnt rl" and "0 < pagesize" and "pagesize \<le> int (length page)"
  shows "\<exists>ret n page' c'. read_body status rl c page pagesize conlen = Some (ret, n, page', c') \<and> length page' = length page
    \<and> drop (nat pagesize) page' = drop (nat pagesize) page
    \<and> (ret = status \<and> n < pagesize \<and> chunk_page page' n \<or> ret = -1 \<and> n = pagesize)"
proof -
  let ?n = "rl_cnt rl" and ?a = "ahead rl"
  have a: "length ?a = nat ?n" using length_ahead assms(1,2) by blast
  have t: "take (nat m) (drop (read_ptr rl) (rl_buf rl)) = take (nat m) ?a" if "m \<le> ?n" for m
    using that by (simp add: ahead_def min_def)
  show ?thesis
  proof (cases "?n \<le> pagesize - 1")
    case False
    let ?bs = "take (nat (pagesize - 1)) ?a"
    have l: "length (?bs @ [NUL]) = nat pagesize" "length ?bs = nat (pagesize - 1)" using False a assms(3) by auto
    then have p: "put_at 0 (?bs @ [NUL]) page = Some ((?bs @ [NUL]) @ drop (nat pagesize) page)"
      using put_at_0[of "?bs @ [NUL]" page, unfolded l(1)] assms(4) by simp
    have one: "nat pagesize - nat (pagesize - 1) = 1" using assms(3) by linarith
    have "chunk_page ((?bs @ [NUL]) @ drop (nat pagesize) page) (pagesize - 1)"
      using assms(3) l(2) by (simp add: chunk_page_def nth_append)
    moreover have "length ((?bs @ [NUL]) @ drop (nat pagesize) page) = length page" "drop (nat pagesize) ((?bs @ [NUL]) @ drop (nat pagesize) page) = drop (nat pagesize) page"
      using l assms(3,4) one by simp_all
    ultimately show ?thesis using False assms(3) p t[of "pagesize - 1"] by (simp add: read_body_def Let_def)
  next
    case True
    define want where "want = (if conlen = 0 then pagesize - 1 else if pagesize - 1 < conlen then pagesize - 1 else conlen)"
    obtain err bs c1 where r: "ul_sreado (want - ?n) c = (err, bs, c1)" by (metis prod_cases3)
    note f = sreado_facts[OF r]
    have b: "nat ?n + length bs < nat pagesize" using f True assms(2,3) by (auto simp: want_def split: if_splits)
    define page1 where "page1 = ?a @ drop (length ?a) page"
    have "length ?a \<le> length page" using a True assms(2,4) by simp
    then have p: "put_at 0 ?a page = Some page1" "length page1 = length page" "drop (nat ?n) page1 = drop (nat ?n) page"
      using a by (simp_all add: put_at_0 page1_def)
    have d: "drop (nat pagesize) page1 = drop (nat pagesize) page" using drop_eq_mono[OF p(3)] b by simp
    show ?thesis
    proof (cases "err < 0")
      case neg: True
      have "nat ?n + length bs \<le> length page1" using b p(2) assms(4) by simp
      then obtain page2 where q: "put_at (nat ?n) bs page1 = Some page2" "length page2 = length page1"
        "drop (nat ?n + length bs) page2 = drop (nat ?n + length bs) page1" by (rule put_at_facts)
      have "drop (nat pagesize) page2 = drop (nat pagesize) page" using drop_eq_mono[OF q(3)] b d by simp
      moreover have "err = -1" using f neg by auto
      ultimately show ?thesis using True p q neg r t[of ?n] a f assms(2) by (simp add: read_body_def Let_def want_def[symmetric])
    next
      case pos: False
      then have e: "err = int (length bs)" using f by auto
      have "nat ?n + length (bs @ [NUL]) \<le> length page1" using b p(2) assms(4) by simp
      then obtain page2 where q: "put_at (nat ?n) (bs @ [NUL]) page1 = Some page2" "length page2 = length page1"
        "take (length (bs @ [NUL])) (drop (nat ?n) page2) = bs @ [NUL]"
        "drop (nat ?n + length (bs @ [NUL])) page2 = drop (nat ?n + length (bs @ [NUL])) page1" by (rule put_at_facts)
      have "drop (nat pagesize) page2 = drop (nat pagesize) page" using drop_eq_mono[OF q(4)] b d by simp
      moreover have "take (Suc (length bs)) (drop (nat ?n) page2) = bs @ [NUL]" using q(3) by simp
      note nul_behind[OF this]
      then have "chunk_page page2 (?n + err)" using e assms(2) by (simp add: chunk_page_def nat_add_distrib) linarith
      moreover have "?n + err < pagesize" using b e assms(2) by simp
      ultimately show ?thesis using True p q pos r t[of ?n] a assms(2) by (simp add: read_body_def Let_def want_def[symmetric])
    qed
  qed
qed

section \<open>The loop over the lines returns\<close>

lemma cut_line_shrinks: "cut_line k u = (l, r) \<Longrightarrow> u \<noteq> [] \<Longrightarrow> 0 < k \<Longrightarrow> l \<noteq> [] \<and> length r < length u"
  using cut_line_facts[of k u l r] by (cases k; cases u) (auto split: if_splits prod.splits)

definition blank :: "cstr \<Rightarrow> bool" where
  "blank line \<longleftrightarrow> line = CRLF \<or> line = [LF]"

function head_ok :: "(cstr \<Rightarrow> bool) \<Rightarrow> char list \<Rightarrow> bool" where
  \<comment> \<open>every line that the reader gets is good, up to an empty one\<close>
  "head_ok good u =
     (if u = [] then True
      else case cut_line (MAXLINE - 1) u of (l, r) \<Rightarrow> good (cstr_of l) \<and> (blank (cstr_of l) \<or> head_ok good r))"
  by pat_completeness auto
termination
  by (relation "measure (\<lambda>(g, u). length u)") (auto simp: MAXLINE_def dest: cut_line_shrinks[OF sym])

declare head_ok.simps [simp del]

locale head_steps =
  fixes step :: "'a reader_scheme \<Rightarrow> (step_result \<times> 'a reader_scheme) option"
    and inv :: "'a reader_scheme \<Rightarrow> bool"
    and good :: "cstr \<Rightarrow> bool"
  assumes inv_reader: "inv (st\<lparr>r_line := l, r_src := s\<rparr>) = inv st"
    and step: "inv st \<Longrightarrow> length (r_line st) = MAXLINE \<Longrightarrow> NUL \<in> set (r_line st) \<Longrightarrow> good (cstr_of (r_line st)) \<Longrightarrow>
      \<exists>res st'. step st = Some (res, st') \<and> inv st' \<and> r_src st' = r_src st \<and> length (r_line st') = MAXLINE
        \<and> (res = Next \<longrightarrow> \<not> blank (cstr_of (r_line st))) \<and> (\<forall>r. res = Return r \<longrightarrow> r \<le> 0)"
begin

lemma heads_return:
  assumes "inv st" and "length (r_line st) = MAXLINE" and "rline_ok (fst (r_src st))" and "head_ok good (unread (r_src st))"
  shows "\<exists>res st'. http_heads step st = Some (res, st') \<and> res \<noteq> Next \<and> inv st' \<and> rline_ok (fst (r_src st'))
    \<and> length (r_line st') = MAXLINE \<and> (\<forall>r. res = Return r \<longrightarrow> r \<le> 0) \<and> (res = Leave \<longrightarrow> 0 \<le> rl_cnt (fst (r_src st')))"
  using assms
proof (induction "length (unread (r_src st))" arbitrary: st rule: less_induct)
  case less
  obtain rc blk src where rd: "ul_readline_speedo (r_line st) MAXLINE READTIMEOUT (r_src st) = Some (rc, blk, src)"
    "length blk = MAXLINE" "rline_ok (fst src)"
    and l: "0 < rc \<Longrightarrow> 0 \<le> rl_cnt (fst src) \<and> (\<exists>l. l \<noteq> [] \<and> cut_line (MAXLINE - 1) (unread (r_src st)) = (l, unread src) \<and> cstr_of blk = cstr_of l \<and> NUL \<in> set blk)"
    using readline_facts[OF less.prems(2,3)] by blast
  let ?st = "st\<lparr>r_line := blk, r_src := src\<rparr>"
  have inv: "inv ?st" using less.prems(1) inv_reader by blast
  show ?case
  proof (cases "0 < rc")
    case False
    then show ?thesis using rd inv by (subst http_heads.simps) simp
  next
    case True
    from l[OF this] obtain l where c: "0 \<le> rl_cnt (fst src)" and l: "l \<noteq> []" "cut_line (MAXLINE - 1) (unread (r_src st)) = (l, unread src)" "cstr_of blk = cstr_of l" "NUL \<in> set blk"
      by blast
    have u: "unread (r_src st) \<noteq> []" using l(1,2) cut_line_facts[OF l(2)] by auto
    then have h: "good (cstr_of l)" "\<not> blank (cstr_of l) \<Longrightarrow> head_ok good (unread src)"
      using less.prems(4) l(2) by (subst (asm) head_ok.simps; auto)+
    obtain res st' where s: "step ?st = Some (res, st')" "inv st'" "r_src st' = src" "length (r_line st') = MAXLINE"
      "res = Next \<longrightarrow> \<not> blank (cstr_of l)" "\<forall>r. res = Return r \<longrightarrow> r \<le> 0"
      using step[OF inv] rd(2) l(3,4) h(1) by auto
    show ?thesis
    proof (cases "res = Next")
      case False
      then show ?thesis using rd s True c by (subst http_heads.simps) simp
    next
      case n: True
      have "length (unread src) < length (unread (r_src st))" using cut_line_shrinks[OF l(2) u] by (simp add: MAXLINE_def)
      then have "\<exists>res st''. http_heads step st' = Some (res, st'') \<and> res \<noteq> Next \<and> inv st'' \<and> rline_ok (fst (r_src st''))
          \<and> length (r_line st'') = MAXLINE \<and> (\<forall>r. res = Return r \<longrightarrow> r \<le> 0) \<and> (res = Leave \<longrightarrow> 0 \<le> rl_cnt (fst (r_src st'')))"
        using less.hyps[of st'] s(2-5) n h(2) rd(3) by simp
      then show ?thesis using rd(1) s(1) True n by (subst http_heads.simps) simp
    qed
  qed
qed

end

section \<open>Fetching stays inside the caller's blocks\<close>

definition origin_blocks :: "nat \<Rightarrow> nat \<Rightarrow> nat \<Rightarrow> char list \<Rightarrow> int \<Rightarrow> 'a origin_scheme \<Rightarrow> bool" where
  \<comment> \<open>the sizes of the blocks, and what the head does not touch\<close>
  "origin_blocks hd_len mod_len rd_len page pagesize st \<longleftrightarrow>
     MAXHEAD \<le> hd_len \<and> MAXLINE \<le> mod_len \<and> MAXURL \<le> rd_len
     \<and> length (o_head st) = hd_len \<and> length (o_lastmod st) = mod_len \<and> length (o_redir st) = rd_len \<and> o_page st = page
     \<and> o_pagesize st = pagesize \<and> o_tmps st < MAXHEAD \<and> o_head st ! o_tmps st = NUL"

definition line_good :: "nat \<Rightarrow> cstr \<Rightarrow> bool" where
  \<comment> \<open>a \<open>Content-Length\<close> whose first word fits in \<open>con\<close>, and a \<open>Location\<close> that is not cut off\<close>
  "line_good room line \<longleftrightarrow> (header ''Content-Length: '' line \<longrightarrow> length (fst (scan_word line)) < room)
     \<and> (header ''Location: '' line \<longrightarrow> 10 + (if CR \<in> set line then 2 else 1) \<le> length line)"

lemma add_head_safe:
  assumes "origin_blocks h m r p n st"
  shows "\<exists>st'. add_head line st = Some st' \<and> origin_blocks h m r p n st' \<and> r_src st' = r_src st \<and> r_line st' = r_line st"
proof (cases "o_tmps st + length line < MAXHEAD")
  case True
  then have "o_tmps st + length (line @ [NUL]) \<le> length (o_head st)" using assms by (simp add: origin_blocks_def)
  then obtain b where "put_at (o_tmps st) (line @ [NUL]) (o_head st) = Some b" "length b = length (o_head st)"
    "take (length (line @ [NUL])) (drop (o_tmps st) b) = line @ [NUL]" by (rule put_at_facts)
  then show ?thesis using assms True nul_behind[of line "o_tmps st" b] by (simp add: add_head_def origin_blocks_def)
qed (use assms in \<open>simp add: add_head_def\<close>)

lemma save_lastmod_safe:
  assumes "origin_blocks h m r p n st" and "length line \<le> m"
  shows "\<exists>st'. save_lastmod line st = Some st' \<and> origin_blocks h m r p n st' \<and> r_src st' = r_src st \<and> r_line st' = r_line st"
  using assms by (simp add: save_lastmod_def origin_blocks_def put_at_0)

lemma save_conlen_safe:
  assumes "origin_blocks h m r p n st" and "line_good room line"
  shows "\<exists>st'. save_conlen room line st = Some st' \<and> origin_blocks h m r p n st' \<and> r_src st' = r_src st \<and> r_line st' = r_line st"
  using assms by (auto simp: save_conlen_def scan_s_d_def line_good_def origin_blocks_def split: prod.splits option.splits)

lemma strstr_char: "strstr s [c] = None \<longleftrightarrow> c \<notin> set s"
  by (induction s) auto

lemma save_redir_safe:
  assumes "origin_blocks h m r p n st" and "line_good room line"
  shows "\<exists>st'. save_redir line st = Some st' \<and> origin_blocks h m r p n st' \<and> r_src st' = r_src st \<and> r_line st' = r_line st"
proof (cases "header ''Location: '' line")
  case True
  have g: "0 \<le> redir_len line" "redir_len line < int MAXURL"
    using True assms(2) by (auto simp: redir_len_def line_good_def strstr_char MAXURL_def Let_def)
  then have "length (take (nat (redir_len line)) (drop 10 line) @ [NUL]) \<le> length (o_redir st)" using assms(1) by (auto simp: origin_blocks_def)
  then show ?thesis using True g assms(1) by (simp add: save_redir_def put_at_0 origin_blocks_def)
qed (use assms in \<open>simp add: save_redir_def\<close>)

lemma origin_step_safe:
  assumes "origin_blocks h m r p n st" and "length (r_line st) = MAXLINE" and "line_good room (cstr_of (r_line st))"
  shows "\<exists>res st'. origin_step room st = Some (res, st') \<and> origin_blocks h m r p n st' \<and> r_src st' = r_src st
    \<and> length (r_line st') = MAXLINE \<and> (res = Next \<longrightarrow> \<not> blank (cstr_of (r_line st))) \<and> (\<forall>k. res = Return k \<longrightarrow> k \<le> 0)"
proof -
  let ?line = "cstr_of (r_line st)"
  have len: "length ?line \<le> m" using length_c_str[of "r_line st"] assms(1,2) by (simp add: origin_blocks_def)
  obtain st1 where st1: "add_head ?line st = Some st1" "origin_blocks h m r p n st1" "r_src st1 = r_src st" "r_line st1 = r_line st"
    using add_head_safe[OF assms(1)] by blast
  show ?thesis
  proof (cases "blank ?line")
    case True
    then have b: "?line = CRLF \<or> ?line = [LF]" by (simp add: blank_def)
    have "origin_step room st = Some (Leave, st1)" unfolding origin_step_def Let_def st1(1) option.simps if_P[OF b] ..
    then show ?thesis using st1 assms(2) by simp
  next
    case False
    then have b: "\<not> (?line = CRLF \<or> ?line = [LF])" by (simp add: blank_def)
    obtain st2 where st2: "save_lastmod ?line st1 = Some st2" "origin_blocks h m r p n st2" "r_src st2 = r_src st" "r_line st2 = r_line st"
      using save_lastmod_safe[OF st1(2) len] st1(3,4) by auto
    obtain st3 where st3: "save_conlen room ?line st2 = Some st3" "origin_blocks h m r p n st3" "r_src st3 = r_src st" "r_line st3 = r_line st"
      using save_conlen_safe[OF st2(2) assms(3)] st2(3,4) by auto
    obtain st4 where st4: "save_redir ?line st3 = Some st4" "origin_blocks h m r p n st4" "r_src st4 = r_src st" "r_line st4 = r_line st"
      using save_redir_safe[OF st3(2) assms(3)] st3(3,4) by auto
    have "origin_step room st = (if header ''Content-Type: '' ?line \<and> strstr ?line ''text'' = None then Some (Return (-1), st3) else Some (Next, st4))"
      unfolding origin_step_def Let_def st1(1) option.simps if_not_P[OF b] st2(1) Option.bind.simps st3(1) st4(1) by simp
    then show ?thesis using st3 st4 assms(2) False by auto
  qed
qed

interpretation origin_heads: head_steps "origin_step room" "origin_blocks h m r p n" "line_good room" for h m r p n room
proof (unfold_locales, goal_cases)
  case (1 st l s)
  then show ?case by (simp add: origin_blocks_def)
next
  case (2 st)
  then show ?case by (intro origin_step_safe)
qed

lemma sdiv_100: "(r::int) \<le> 0 \<Longrightarrow> r sdiv 100 \<noteq> 2 \<and> r sdiv 100 \<noteq> 3"
proof -
  assume "r \<le> 0"
  then have "sgn r * (\<bar>r\<bar> div 100) \<le> 0" by (cases "r = 0") (simp_all add: pos_imp_zdiv_nonneg_iff)
  then show ?thesis by (simp add: signed_divide_int_def)
qed

definition answer_ok :: "nat \<Rightarrow> char list \<Rightarrow> bool" where
  \<comment> \<open>the first word of the first line fits in \<open>stats1\<close>, and the lines of the head are good\<close>
  "answer_ok room u =
     (case cut_line (MAXLINE - 1) u of (l, r) \<Rightarrow> length (fst (scan_word (cstr_of l))) < 10 \<and> head_ok (line_good room) r)"

definition origin_done :: "nat \<Rightarrow> nat \<Rightarrow> nat \<Rightarrow> char list \<Rightarrow> int \<Rightarrow> int \<Rightarrow> 'a origin_scheme \<Rightarrow> bool" where
  \<comment> \<open>what is left of the caller's blocks, with the page when there is one\<close>
  "origin_done h m r p n ret st \<longleftrightarrow>
     length (o_head st) = h \<and> length (o_lastmod st) = m \<and> length (o_redir st) = r \<and> length (o_page st) = length p
     \<and> drop (nat n) (o_page st) = drop (nat n) p \<and> NUL \<in> set (o_head st)
     \<and> (0 < n \<and> (ret sdiv 100 = 2 \<or> ret sdiv 100 = 3) \<longrightarrow> o_pagesize st < n \<and> chunk_page (o_page st) (o_pagesize st))
     \<and> 0 \<le> o_pagesize st \<and> o_pagesize st \<le> n"

lemma blocks_done:
  assumes "origin_blocks h m r p n st" and "ret \<le> 0 \<or> \<not> (ret sdiv 100 = 2 \<or> ret sdiv 100 = 3) \<or> n = 0" and "0 \<le> n"
  shows "origin_done h m r p n ret st"
proof -
  have "o_tmps st < length (o_head st)" using assms(1) by (simp add: origin_blocks_def)
  then have "NUL \<in> set (o_head st)" using assms(1) nth_mem[of "o_tmps st" "o_head st"] by (simp add: origin_blocks_def)
  then show ?thesis using assms sdiv_100[of ret] by (auto simp: origin_done_def origin_blocks_def)
qed

lemma origin_body_safe:
  assumes "origin_blocks h m r p n st" and "rline_ok (fst (r_src st))" and "0 \<le> rl_cnt (fst (r_src st))"
    and "0 \<le> n" and "n \<le> int (length p)"
  shows "\<exists>ret st'. origin_body status st = Some (ret, st') \<and> origin_done h m r p n ret st'"
proof (cases "n = 0")
  case True
  have t: "o_tmps st + length [NUL] \<le> length (o_head st)" using assms(1) by (simp add: origin_blocks_def)
  then obtain b where b: "put_at (o_tmps st) [NUL] (o_head st) = Some b" "length b = length (o_head st)"
    "take (length [NUL]) (drop (o_tmps st) b) = [NUL]" by (rule put_at_facts)
  have "take (Suc (length [])) (drop (o_tmps st) b) = [] @ [NUL]" using b(3) by simp
  from nul_behind[OF this] have "origin_blocks h m r p n (st\<lparr>o_head := b\<rparr>)" using assms(1) b(2) by (simp add: origin_blocks_def)
  from blocks_done[OF this, of status] True b(1) assms(1,4) show ?thesis by (simp add: origin_body_def origin_blocks_def)
next
  case False
  obtain rl c where src: "r_src st = (rl, c)" by (cases "r_src st")
  have f: "o_page st = p" "o_pagesize st = n" using assms(1) by (simp_all add: origin_blocks_def)
  have "0 < n" using False assms(4) by simp
  from read_body_safe[OF _ _ this assms(5), of rl status c "o_conlen st"] assms(2,3)
  obtain ret k page c1 where rb: "read_body status rl c p n (o_conlen st) = Some (ret, k, page, c1)" "length page = length p"
    "drop (nat n) page = drop (nat n) p" "ret = status \<and> k < n \<and> chunk_page page k \<or> ret = -1 \<and> k = n" by (auto simp: src)
  let ?st = "st\<lparr>o_pagesize := k, o_page := page, r_src := (rl, c1)\<rparr>"
  have "origin_done h m r p n 0 st" using blocks_done[OF assms(1), of 0] assms(4) by simp
  then have "origin_done h m r p n ret ?st" using rb(2-4) sdiv_100[of "-1"] assms(4) by (auto simp: origin_done_def chunk_page_def)
  then show ?thesis using False rb(1) by (simp add: origin_body_def f src)
qed

lemma origin_answer_safe:
  assumes "origin_blocks h m r p n st" and "length (r_line st) = MAXLINE" and "rline_ok (fst (r_src st))"
    and "answer_ok room (unread (r_src st))" and "0 \<le> n" and "n \<le> int (length p)"
  shows "\<exists>ret st'. origin_answer room st = Some (ret, st') \<and> origin_done h m r p n ret st'"
proof -
  obtain rc blk src where rd: "ul_readline_speedo (r_line st) MAXLINE READTIMEOUT (r_src st) = Some (rc, blk, src)"
    "length blk = MAXLINE" "rline_ok (fst src)"
    and l: "0 < rc \<Longrightarrow> \<exists>l. cut_line (MAXLINE - 1) (unread (r_src st)) = (l, unread src) \<and> cstr_of blk = cstr_of l"
    using readline_facts[OF assms(2,3)] by blast
  let ?st = "st\<lparr>r_line := blk, r_src := src\<rparr>"
  have inv: "origin_blocks h m r p n ?st" using assms(1) by (simp add: origin_blocks_def)
  show ?thesis
  proof (cases "0 < rc")
    case False
    then show ?thesis using rd(1) blocks_done[OF inv, of rc] assms(5) by (simp add: origin_answer_def)
  next
    case True
    from l[OF this] obtain l where l: "cut_line (MAXLINE - 1) (unread (r_src st)) = (l, unread src)" "cstr_of blk = cstr_of l" by blast
    then have ok: "length (fst (scan_word (cstr_of blk))) < 10" "head_ok (line_good room) (unread src)"
      using assms(4) by (simp_all add: answer_ok_def)
    obtain w v where w: "scan_s_d 10 (cstr_of blk) = Some (w, v)"
      using ok(1) by (cases "scan_word (cstr_of blk)") (simp add: scan_s_d_def)
    show ?thesis
    proof (cases "\<exists>status. v = Some status \<and> (status sdiv 100 = 2 \<or> status sdiv 100 = 3)")
      case no: False
      then have "\<exists>ret. origin_answer room st = Some (ret, ?st) \<and> (ret \<le> 0 \<or> \<not> (ret sdiv 100 = 2 \<or> ret sdiv 100 = 3))"
        using rd(1) True w by (cases v) (auto simp: origin_answer_def)
      then show ?thesis using blocks_done[OF inv _ assms(5)] by blast
    next
      case yes: True
      then obtain status where s: "v = Some status" "status sdiv 100 = 2 \<or> status sdiv 100 = 3" by blast
      obtain st1 where st1: "add_head (cstr_of blk) ?st = Some st1" "origin_blocks h m r p n st1" "r_src st1 = src" "r_line st1 = blk"
        using add_head_safe[OF inv, of "cstr_of blk"] by auto
      have "origin_blocks h m r p n (st1\<lparr>o_conlen := 0\<rparr>)" using st1(2) by (simp add: origin_blocks_def)
      from origin_heads.heads_return[OF this, of room] st1(3,4) rd(2,3) ok(2)
      obtain res st2 where h: "http_heads (origin_step room) (st1\<lparr>o_conlen := 0\<rparr>) = Some (res, st2)" "res \<noteq> Next"
        "origin_blocks h m r p n st2" "rline_ok (fst (r_src st2))" "\<forall>r. res = Return r \<longrightarrow> r \<le> 0"
        "res = Leave \<longrightarrow> 0 \<le> rl_cnt (fst (r_src st2))" by auto
      have e: "origin_answer room st = (case res of Return r \<Rightarrow> Some (r, st2) | _ \<Rightarrow> origin_body status st2)"
        using rd(1) True w s st1(1) h(1,2) by (auto simp: origin_answer_def split: step_result.splits)
      show ?thesis
      proof (cases res)
        case (Return r)
        then show ?thesis using e blocks_done[OF h(3), of r] h(5) assms(5) by simp
      next
        case Leave
        then show ?thesis using e origin_body_safe[OF h(3,4) _ assms(5,6)] h(6) by simp
      qed (use h(2) in simp)
    qed
  qed
qed

lemma writeo_tv_incoming: "ul_writeo_tv bs c = (k, c') \<Longrightarrow> incoming c' = incoming c \<and> reads c' = reads c \<and> rpolls c' = rpolls c"
  by (auto simp: ul_writeo_tv_def sys_write_def split: list.splits poll_ev.splits write_ev.splits)

lemma swriteo_loop_incoming:
  "swriteo_loop n bs c = (k, c') \<Longrightarrow> incoming c' = incoming c \<and> reads c' = reads c \<and> rpolls c' = rpolls c"
proof (induction n bs c arbitrary: k c' rule: swriteo_loop.induct)
  case (1 n bs c)
  obtain i d where w: "ul_writeo_tv bs c = (i, d)" by (cases "ul_writeo_tv bs c")
  consider (stop) "bs = []" | (again) "bs \<noteq> []" "i = -1 \<and> eintr d" | (failed) "bs \<noteq> []" "\<not> (i = -1 \<and> eintr d)" "i \<le> 0"
    | (more) "bs \<noteq> []" "\<not> (i = -1 \<and> eintr d)" "\<not> i \<le> 0" by linarith
  then show ?case
  proof cases
    case again
    then have "swriteo_loop n bs d = (k, c')" using 1(3) w by (simp add: swriteo_loop.simps[of n bs c])
    then show ?thesis using 1(1)[OF again(1) w[symmetric] again(2)] writeo_tv_incoming[OF w] by simp
  next
    case more
    then have "swriteo_loop (n + nat i) (drop (nat i) bs) d = (k, c')" using 1(3) w by (auto simp: swriteo_loop.simps[of n bs c])
    then show ?thesis using 1(2)[OF more(1) w[symmetric] more(2,3)] writeo_tv_incoming[OF w] by simp
  next
    case stop
    then show ?thesis using 1(3) by (simp add: swriteo_loop.simps)
  qed (use 1(3) w writeo_tv_incoming[OF w] in \<open>auto simp: swriteo_loop.simps[of n bs c] split: if_splits\<close>)
qed

lemma swriteo_ex_incoming:
  "ul_swriteo_ex bs c = (k, c') \<Longrightarrow> incoming c' = incoming c \<and> reads c' = reads c \<and> rpolls c' = rpolls c"
  by (auto simp: ul_swriteo_ex_def ul_swriteo_ms_ex_def dest: swriteo_loop_incoming split: if_splits)

definition caller_ok :: "'a origin_scheme \<Rightarrow> bool" where
  \<comment> \<open>blocks of the documented sizes, \<open>lastmod\<close> for a whole line, and a page of \<open>*pagesize\<close> bytes\<close>
  "caller_ok st \<longleftrightarrow> length (r_line st) = MAXLINE \<and> MAXHEAD \<le> length (o_head st) \<and> MAXLINE \<le> length (o_lastmod st)
     \<and> MAXURL \<le> length (o_redir st) \<and> 0 \<le> o_pagesize st \<and> o_pagesize st \<le> int (length (o_page st))"

definition fetch_kept :: "int \<Rightarrow> origin \<Rightarrow> origin \<Rightarrow> bool" where
  \<comment> \<open>the blocks keep their sizes, nothing behind the page is touched, and a successful call leaves a page with its
      terminator within the size that was given\<close>
  "fetch_kept ret st st' \<longleftrightarrow>
     length (o_head st') = length (o_head st) \<and> length (o_lastmod st') = length (o_lastmod st)
     \<and> length (o_redir st') = length (o_redir st) \<and> length (o_page st') = length (o_page st)
     \<and> drop (nat (o_pagesize st)) (o_page st') = drop (nat (o_pagesize st)) (o_page st) \<and> o_pagesize st' \<le> o_pagesize st
     \<and> (ret sdiv 100 = 2 \<or> ret sdiv 100 = 3 \<longrightarrow> chunk_page (o_page st') (o_pagesize st') \<and> o_pagesize st' < o_pagesize st \<or> o_pagesize st = 0)"

lemma kept_refl: "ret \<le> 0 \<Longrightarrow> fetch_kept ret st (st\<lparr>r_src := s\<rparr>)" "ret \<le> 0 \<Longrightarrow> fetch_kept ret st st"
  using sdiv_100[of ret] by (simp_all add: fetch_kept_def)

lemma start_reader_facts: "rline_ok (fst (start_reader c))" "unread (start_reader c) = incoming c"
  by (simp_all add: start_reader_def rline_ok_def unread_def ahead_def)

lemma gethttpcontent_origin_safe:
  assumes "caller_ok st" and "answer_ok room (incoming c)"
  shows "\<exists>ret st'. ul_gethttpcontent_origin net room (Some url) ip c (Some st) = Some (ret, Some st') \<and> fetch_kept ret st st'
    \<and> (ret sdiv 100 = 2 \<or> ret sdiv 100 = 3 \<longrightarrow> NUL \<in> set (o_head st'))"
proof (cases "locate url")
  case None
  then show ?thesis using kept_refl(2)[of "-1" st] sdiv_100[of "-1"] by (simp add: ul_gethttpcontent_origin_def)
next
  case (Some hfp)
  obtain host pth port where l: "locate url = Some (host, pth, port)" using Some by (cases hfp) auto
  define ts where "ts = fst (zx_tcpconnecto net (case ip of None \<Rightarrow> host | Some a \<Rightarrow> a) port)"
  obtain err c1 where w: "ul_swriteo_ex (ul_makecmd MAXGETCMD host pth) c = (err, c1)" by (cases "ul_swriteo_ex (ul_makecmd MAXGETCMD host pth) c")
  consider (refused) "ts \<le> -1" | (unsent) "\<not> ts \<le> -1" "err \<le> 0" | (sent) "\<not> ts \<le> -1" "\<not> err \<le> 0" by linarith
  then show ?thesis
  proof cases
    case refused
    then show ?thesis using kept_refl(2)[of ts st] sdiv_100[of ts] by (simp add: ul_gethttpcontent_origin_def l ts_def[symmetric] Let_def)
  next
    case unsent
    then show ?thesis using kept_refl(1)[of "-1" st] sdiv_100[of "-1"] w by (simp add: ul_gethttpcontent_origin_def l ts_def[symmetric] Let_def)
  next
    case sent
    let ?h = "NUL # drop 1 (o_head st)"
    have h: "put_at 0 [NUL] (o_head st) = Some ?h" "length ?h = length (o_head st)"
      using assms(1) put_at_0[of "[NUL]" "o_head st"] by (auto simp: caller_ok_def MAXHEAD_def)
    let ?st = "st\<lparr>r_src := start_reader c1, o_head := ?h, o_tmps := 0\<rparr>"
    have "origin_blocks (length (o_head st)) (length (o_lastmod st)) (length (o_redir st)) (o_page st) (o_pagesize st) ?st"
      using assms(1) h(2) by (simp add: origin_blocks_def caller_ok_def MAXHEAD_def)
    from origin_answer_safe[OF this, of room] assms start_reader_facts[of c1] swriteo_ex_incoming[OF w]
    obtain ret st' where r: "origin_answer room ?st = Some (ret, st')"
      "origin_done (length (o_head st)) (length (o_lastmod st)) (length (o_redir st)) (o_page st) (o_pagesize st) ret st'"
      by (auto simp: caller_ok_def)
    have "ul_gethttpcontent_origin net room (Some url) ip c (Some st) = Some (ret, Some st')"
      using sent w h(1) r(1) by (simp add: ul_gethttpcontent_origin_def l ts_def[symmetric] Let_def)
    moreover have "fetch_kept ret st st'" "NUL \<in> set (o_head st')"
      using r(2) assms(1) by (auto simp: origin_done_def fetch_kept_def caller_ok_def)
    ultimately show ?thesis by blast
  qed
qed


end
