(* ===== verification/Ul_Http_Fetch.thy ===== *)
theory Ul_Http_Fetch
  imports Ul_Http_Facts
begin

text \<open>
  What \<open>ul_gethttpcontent\<close> of \<^verbatim>\<open>ullib/src/dep/dep_http.cpp\<close> delivers on a calm connection: the page that was sent, with its
  head, however the system cuts the stream, and the data of a page in chunks.
\<close>

section \<open>Lines and bytes of a calm connection\<close>

lemma cut_line_lf: "LF \<notin> set xs \<Longrightarrow> length xs < k \<Longrightarrow> cut_line k (xs @ LF # r) = (xs @ [LF], r)"
proof (induction xs arbitrary: k)
  case Nil
  then show ?case by (cases k) simp_all
next
  case (Cons x xs)
  then show ?case by (cases k) auto
qed

lemma readline_calm:
  assumes "cut_line (MAXLINE - 1) (unread s) = (l, r)" and "l \<noteq> []" and "rline_ready (m + Suc (length l)) s" and "length blk = MAXLINE"
  shows "\<exists>rc blk' s'. ul_readline_speedo blk MAXLINE READTIMEOUT s = Some (rc, blk', s') \<and> 0 < rc \<and> length blk' = MAXLINE
    \<and> cstr_of blk' = cstr_of l \<and> NUL \<in> set blk' \<and> unread s' = r \<and> rline_ready m s' \<and> 0 \<le> rl_cnt (fst s')"
proof -
  have k: "MAXLINE - 1 < length blk" using assms(4) by (simp add: MAXLINE_def)
  obtain s' where s': "put_line blk (speedo_loop (int (MAXLINE - 1) + 1) [] s) = Some (line_ret (MAXLINE - 1) l, line_block (MAXLINE - 1) blk l, s')"
    "unread s' = r" "rline_ready m s'"
    using buffered.put_line_cut[OF assms(1,3) k] by blast
  have "to_int32 (int MAXLINE) = int (MAXLINE - 1) + 1" using to_int32_id[of "int MAXLINE"] by (simp add: MAXLINE_def)
  then have rd: "ul_readline_speedo blk MAXLINE READTIMEOUT s = Some (line_ret (MAXLINE - 1) l, line_block (MAXLINE - 1) blk l, s')"
    using s'(1) by (simp add: readline_speedo_same READTIMEOUT_def ul_readline_speedo_ms_ex_def)
  have pos: "0 < line_ret (MAXLINE - 1) l" using assms(2) by (simp add: line_ret_def)
  have ok: "rline_ok (fst s)" using assms(3) by (simp add: rline_ready_def)
  show ?thesis using readline_facts[OF assms(4) ok] rd pos s'(2,3) assms(1) by auto
qed

lemma calm_add: "calm (k + m) c \<Longrightarrow> calm m c"
  by (induction k) (auto dest: calm_Suc)

lemma sreado_loop_calm:
  assumes "calm (m + Suc (min n (length (incoming c)))) c"
  shows "\<exists>c'. sreado_loop n got c = (int (length (got @ take n (incoming c))), got @ take n (incoming c), c')"
  using assms
proof (induction "length (rpolls c)" arbitrary: n got c rule: less_induct)
  case less
  show ?case
  proof (cases "n = 0")
    case True
    then show ?thesis by (simp add: sreado_loop.simps)
  next
    case False
    have "calm (Suc (m + min n (length (incoming c)))) c" using less.prems by simp
    then show ?thesis
    proof (cases rule: calm_reado[where n = n])
      case (interrupted c')
      then show ?thesis using less.hyps[OF interrupted(5), of n got] False by (subst sreado_loop.simps) simp
    next
      case (delivered k c' bs)
      show ?thesis
      proof (cases "bs = []")
        case True
        then have "incoming c = []" using delivered(1) False by (auto simp: min_def split: if_splits)
        then show ?thesis using delivered True False by (subst sreado_loop.simps) simp
      next
        case bs: False
        have pre: "bs = take (length bs) (incoming c)" "length bs \<le> n" using delivered(1) by (auto simp: min_def)
        have num: "1 \<le> length bs" "length bs \<le> n" "length bs \<le> length (incoming c)"
          using bs pre(2) arg_cong[OF pre(1), of length] by (auto simp: Suc_le_eq)
        have "m + Suc (min (n - length bs) (length (incoming c'))) \<le> m + min n (length (incoming c))"
          using num unfolding delivered(4) length_drop by linarith
        then obtain d where "m + min n (length (incoming c)) = d + (m + Suc (min (n - length bs) (length (incoming c'))))"
          by (metis le_iff_add add.commute)
        then have "calm (m + Suc (min (n - length bs) (length (incoming c')))) c'"
          using delivered(3) calm_add by metis
        moreover have "length (rpolls c') < length (rpolls c)"
          using ul_reado_tv_rpolls[OF delivered(2)] bs by simp
        ultimately obtain c'' where "sreado_loop (n - length bs) (got @ bs) c' =
            (int (length ((got @ bs) @ take (n - length bs) (incoming c'))), (got @ bs) @ take (n - length bs) (incoming c'), c'')"
          using less.hyps[of c' "n - length bs" "got @ bs"] by blast
        moreover have "bs @ take (n - length bs) (incoming c') = take n (incoming c)"
          using pre delivered(4) by (metis append_take_drop_id le_add_diff_inverse take_add)
        ultimately show ?thesis using delivered(2) bs False by (subst sreado_loop.simps) simp
      qed
    qed
  qed
qed

lemma sreado_calm_bytes:
  assumes "calm (Suc (min (nat n) (length (incoming c)))) c"
  shows "\<exists>c'. ul_sreado n c = (int (length (take (nat n) (incoming c))), take (nat n) (incoming c), c')"
  using sreado_loop_calm[of 0 "nat n" c "[]"] assms by (auto simp: ul_sreado_def ul_sreado_ms_def)

section \<open>The body of a calm connection\<close>

lemma read_body_calm:
  assumes "rline_ready (Suc (length body)) (rl, c)" and "unread (rl, c) = body" and "0 \<le> rl_cnt rl"
    and "0 < pagesize" and "pagesize \<le> int (length page)" and "conlen = 0 \<or> int (length body) \<le> conlen"
  shows "\<exists>page' c'. read_body status rl c page pagesize conlen = Some (status, int (min (length body) (nat (pagesize - 1))), page', c')
    \<and> length page' = length page
    \<and> take (Suc (min (length body) (nat (pagesize - 1)))) page' = take (nat (pagesize - 1)) body @ [NUL]"
proof -
  let ?n = "rl_cnt rl" and ?a = "ahead rl"
  have ok: "rline_ok rl" "calm (Suc (length body)) c" using assms(1) by (simp_all add: rline_ready_def)
  have body: "body = ?a @ incoming c" using assms(2) by (simp add: unread_def)
  have a: "length ?a = nat ?n" using length_ahead ok(1) assms(3) by blast
  have t: "take (nat j) (drop (read_ptr rl) (rl_buf rl)) = take (nat j) ?a" if "j \<le> ?n" for j
    using that by (simp add: ahead_def min_def)
  show ?thesis
  proof (cases "?n \<le> pagesize - 1")
    case False
    let ?bs = "take (nat (pagesize - 1)) ?a"
    have bs: "?bs = take (nat (pagesize - 1)) body" "length ?bs = nat (pagesize - 1)" "min (length body) (nat (pagesize - 1)) = nat (pagesize - 1)"
      using False a by (auto simp: body)
    have "length (?bs @ [NUL]) \<le> length page" using bs(2) assms(4,5) by simp
    from put_at_0[OF this] have "read_body status rl c page pagesize conlen
        = Some (status, pagesize - 1, (?bs @ [NUL]) @ drop (length (?bs @ [NUL])) page, c)"
      using False assms(4) t[of "pagesize - 1"] by (simp add: read_body_def Let_def)
    moreover have "take (Suc (nat (pagesize - 1))) ((?bs @ [NUL]) @ drop (length (?bs @ [NUL])) page) = ?bs @ [NUL]"
      using bs(2) by simp
    moreover have "length ((?bs @ [NUL]) @ drop (length (?bs @ [NUL])) page) = length page"
      using \<open>length (?bs @ [NUL]) \<le> length page\<close> by simp
    ultimately show ?thesis unfolding bs(3) unfolding bs(1) using assms(4) by simp
  next
    case True
    define want where "want = (if conlen = 0 then pagesize - 1 else if pagesize - 1 < conlen then pagesize - 1 else conlen)"
    define bs where "bs = take (nat (want - ?n)) (incoming c)"
    have "Suc (length body) = (length body - min (nat (want - ?n)) (length (incoming c))) + Suc (min (nat (want - ?n)) (length (incoming c)))"
      by (simp add: body)
    then have "calm (Suc (min (nat (want - ?n)) (length (incoming c)))) c" using ok(2) calm_add by metis
    then obtain c1 where r: "ul_sreado (want - ?n) c = (int (length bs), bs, c1)" using sreado_calm_bytes by (auto simp: bs_def)
    have w: "?a @ bs = take (nat (pagesize - 1)) body"
    proof -
      have "nat (want - ?n) = nat (pagesize - 1) - length ?a \<or> length (incoming c) \<le> nat (want - ?n) \<and> length (incoming c) \<le> nat (pagesize - 1) - length ?a"
        using assms(3,6) True a by (auto simp: want_def body)
      then have "bs = take (nat (pagesize - 1) - length ?a) (incoming c)" by (auto simp: bs_def)
      moreover have "take (nat (pagesize - 1)) ?a = ?a" using True a by simp
      ultimately show ?thesis by (simp add: body)
    qed
    then have len: "length (?a @ bs) = min (length body) (nat (pagesize - 1))" by simp
    define page1 where "page1 = ?a @ drop (length ?a) page"
    have fit: "Suc (length (?a @ bs)) \<le> length page" using len assms(4,5) by simp
    then have p: "put_at 0 ?a page = Some page1" "length page1 = length page" "take (nat ?n) page1 = ?a"
      using a by (simp_all add: put_at_0 page1_def)
    define page2 where "page2 = (?a @ bs @ [NUL]) @ drop (nat ?n + length (bs @ [NUL])) page1"
    have "nat ?n + length (bs @ [NUL]) \<le> length page1" using fit p(2) a by simp
    then have q: "put_at (nat ?n) (bs @ [NUL]) page1 = Some page2" "length page2 = length page"
      using p a by (simp_all add: put_at_def page2_def)
    have "read_body status rl c page pagesize conlen = Some (status, ?n + int (length bs), page2, c1)"
      using True p(1) q(1) r t[of ?n] a assms(3) by (simp add: read_body_def Let_def want_def[symmetric])
    moreover have "?n + int (length bs) = int (min (length body) (nat (pagesize - 1)))" using len a assms(3) by simp
    moreover have "take (Suc (length (?a @ bs))) page2 = (?a @ bs) @ [NUL]" by (simp add: page2_def)
    ultimately show ?thesis using q(2) unfolding w[symmetric] len by auto
  qed
qed

section \<open>The head of a calm connection\<close>

definition plain_line :: "cstr \<Rightarrow> bool" where
  "plain_line h \<longleftrightarrow> h \<noteq> [] \<and> LF \<notin> set h \<and> NUL \<notin> set h \<and> length h + 2 < MAXLINE"

fun head_text :: "cstr list \<Rightarrow> char list" where
  "head_text [] = []"
| "head_text (h # hs) = h @ CRLF @ head_text hs"

lemma head_text_append: "head_text (a @ b) = head_text a @ head_text b"
  by (induction a) simp_all

lemma cut_plain:
  assumes "plain_line h \<or> h = []"
  shows "cut_line (MAXLINE - 1) (h @ CRLF @ r) = (h @ CRLF, r)" and "cstr_of (h @ CRLF) = h @ CRLF"
proof -
  have "LF \<notin> set (h @ [CR])" "length (h @ [CR]) < MAXLINE - 1" using assms by (auto simp: plain_line_def MAXLINE_def)
  from cut_line_lf[OF this, of r] show "cut_line (MAXLINE - 1) (h @ CRLF @ r) = (h @ CRLF, r)" by simp
  show "cstr_of (h @ CRLF) = h @ CRLF" using assms by (intro c_str_no_nul) (auto simp: plain_line_def)
qed

locale head_run =
  fixes step :: "'a reader_scheme \<Rightarrow> (step_result \<times> 'a reader_scheme) option"
    and rel :: "cstr list \<Rightarrow> 'a reader_scheme \<Rightarrow> bool"
    and fine :: "cstr \<Rightarrow> bool"
  assumes rel_reader: "rel ls (st\<lparr>r_line := l, r_src := s\<rparr>) = rel ls st"
    and run_line: "rel ls st \<Longrightarrow> length (r_line st) = MAXLINE \<Longrightarrow> NUL \<in> set (r_line st) \<Longrightarrow> cstr_of (r_line st) = h @ CRLF \<Longrightarrow> plain_line h
      \<Longrightarrow> fine h \<Longrightarrow> \<exists>st'. step st = Some (Next, st') \<and> rel (ls @ [h]) st' \<and> r_src st' = r_src st \<and> length (r_line st') = MAXLINE"
    and run_blank: "rel ls st \<Longrightarrow> length (r_line st) = MAXLINE \<Longrightarrow> NUL \<in> set (r_line st) \<Longrightarrow> cstr_of (r_line st) = CRLF
      \<Longrightarrow> \<exists>st'. step st = Some (Leave, st') \<and> rel (ls @ [[]]) st' \<and> r_src st' = r_src st \<and> length (r_line st') = MAXLINE"
begin

lemma heads_run:
  assumes "rel ls st" and "length (r_line st) = MAXLINE" and "list_all plain_line hs" and "list_all fine hs"
    and "unread (r_src st) = head_text hs @ CRLF @ body" and "rline_ready (m + (length (head_text hs) + length hs + 3)) (r_src st)"
  shows "\<exists>st'. http_heads step st = Some (Leave, st') \<and> rel (ls @ hs @ [[]]) st' \<and> length (r_line st') = MAXLINE
    \<and> unread (r_src st') = body \<and> rline_ready m (r_src st') \<and> 0 \<le> rl_cnt (fst (r_src st'))"
  using assms
proof (induction hs arbitrary: ls st)
  case Nil
  have u: "unread (r_src st) = [] @ CRLF @ body" using Nil.prems(5) by simp
  have "cut_line (MAXLINE - 1) (unread (r_src st)) = ([] @ CRLF, body)" unfolding u by (rule cut_plain(1)) simp
  from readline_calm[OF this _ _ Nil.prems(2), of m] Nil.prems(6)
  obtain rc blk src where rd: "ul_readline_speedo (r_line st) MAXLINE READTIMEOUT (r_src st) = Some (rc, blk, src)" "0 < rc" "length blk = MAXLINE"
    "cstr_of blk = CRLF" "NUL \<in> set blk" "unread src = body" "rline_ready m src" "0 \<le> rl_cnt (fst src)"
    using cut_plain(2)[of "[]"] by (auto simp: eval_nat_numeral)
  let ?st = "st\<lparr>r_line := blk, r_src := src\<rparr>"
  have "rel ls ?st" using Nil.prems(1) rel_reader by blast
  then obtain st' where "step ?st = Some (Leave, st')" "rel (ls @ [[]]) st'" "r_src st' = src" "length (r_line st') = MAXLINE"
    using run_blank[of ls ?st] rd(3-5) by auto
  then show ?case using rd by (subst http_heads.simps) simp
next
  case (Cons h hs)
  have p: "plain_line h" "fine h" "list_all plain_line hs" "list_all fine hs" using Cons.prems(3,4) by simp_all
  have u: "unread (r_src st) = h @ CRLF @ (head_text hs @ CRLF @ body)" using Cons.prems(5) by simp
  have cut: "cut_line (MAXLINE - 1) (unread (r_src st)) = (h @ CRLF, head_text hs @ CRLF @ body)" unfolding u using p(1) by (intro cut_plain(1)) simp
  have ready: "rline_ready ((m + (length (head_text hs) + length hs + 3)) + Suc (length (h @ CRLF))) (r_src st)"
    using Cons.prems(6) by (simp add: ac_simps)
  have c: "cstr_of (h @ CRLF) = h @ CRLF" "h @ CRLF \<noteq> []" using cut_plain(2)[of h] p(1) by simp_all
  obtain rc blk src where rd: "ul_readline_speedo (r_line st) MAXLINE READTIMEOUT (r_src st) = Some (rc, blk, src)" "0 < rc" "length blk = MAXLINE"
    "cstr_of blk = h @ CRLF" "NUL \<in> set blk" "unread src = head_text hs @ CRLF @ body" "rline_ready (m + (length (head_text hs) + length hs + 3)) src"
    using readline_calm[OF cut c(2) ready Cons.prems(2)] unfolding c(1) by blast
  let ?st = "st\<lparr>r_line := blk, r_src := src\<rparr>"
  have "rel ls ?st" using Cons.prems(1) rel_reader by blast
  then obtain st' where s: "step ?st = Some (Next, st')" "rel (ls @ [h]) st'" "r_src st' = src" "length (r_line st') = MAXLINE"
    using run_line[of ls ?st h] rd(3-5) p by auto
  have "unread (r_src st') = head_text hs @ CRLF @ body" "rline_ready (m + (length (head_text hs) + length hs + 3)) (r_src st')"
    using s(3) rd(6,7) by simp_all
  from Cons.IH[OF s(2,4) p(3,4) this] rd(1,2) s(1) show ?case by (subst http_heads.simps) simp
qed

end

section \<open>What the lines of a head mean\<close>

definition conlen_of :: "cstr list \<Rightarrow> int" where
  \<comment> \<open>the number behind the last \<open>Content-Length\<close> that has one, 0 if there is none\<close>
  "conlen_of hs = foldl (\<lambda>n h. if header ''Content-Length: '' (h @ CRLF)
     then (case scan_int (drop 15 (h @ CRLF)) of None \<Rightarrow> n | Some (v, _) \<Rightarrow> int_of_scan v) else n) 0 hs"

lemma conlen_of_snoc:
  "conlen_of (ls @ [x]) = (if header ''Content-Length: '' (x @ CRLF)
    then (case scan_int (drop 15 (x @ CRLF)) of None \<Rightarrow> conlen_of ls | Some (v, _) \<Rightarrow> int_of_scan v) else conlen_of ls)"
  unfolding conlen_of_def by simp

definition origin_fine :: "nat \<Rightarrow> cstr \<Rightarrow> bool" where
  "origin_fine room h \<longleftrightarrow> line_good room (h @ CRLF) \<and> (header ''Content-Type: '' (h @ CRLF) \<longrightarrow> strstr (h @ CRLF) ''text'' \<noteq> None)"

definition origin_rel :: "nat \<Rightarrow> nat \<Rightarrow> nat \<Rightarrow> char list \<Rightarrow> int \<Rightarrow> cstr \<Rightarrow> cstr list \<Rightarrow> 'a origin_scheme \<Rightarrow> bool" where
  \<comment> \<open>the lines \<open>first\<close> and \<open>ls\<close> were read\<close>
  "origin_rel h m r p n first ls st \<longleftrightarrow> origin_blocks h m r p n st \<and> o_conlen st = conlen_of ls
     \<and> (length (head_text (first # ls)) < MAXHEAD \<longrightarrow>
          take (o_tmps st) (o_head st) = head_text (first # ls) \<and> o_tmps st = length (head_text (first # ls)))"

lemma scan_word_length:
  assumes "header ''Content-Length: '' line"
  shows "scan_word line = (take 15 line, drop 15 line)"
proof -
  have e: "map tolower (take 16 line) = map tolower ''Content-Length: ''" using assms by (simp add: header_def strncasecmp_eq_def eval_nat_numeral)
  have "length (map tolower (take 16 line)) = length (map tolower ''Content-Length: '')" by (rule arg_cong[OF e])
  then have len: "16 \<le> length line" unfolding length_map length_take by simp
  have sp: "isspace (tolower c) = isspace c" for c by (auto simp: isspace_def tolower_def char_eq_nat of_char_of simp del: of_char_eq_iff)
  have nth: "tolower (line ! i) = map tolower ''Content-Length: '' ! i" if "i < 16" for i
    using arg_cong[OF e, of "\<lambda>x. x ! i"] that len by simp
  have no: "\<not> isspace (line ! i)" if "i < 15" for i
  proof -
    have "list_all (\<lambda>i. \<not> isspace (map tolower ''Content-Length: '' ! i)) [0..<15]" by code_simp
    then have "\<not> isspace (tolower (line ! i))" using that nth[of i] by (simp add: list_all_iff)
    then show ?thesis by (simp add: sp)
  qed
  have "isspace (tolower (line ! 15))" using nth[of 15] by (simp add: tolower_def isspace_def)
  then have y: "isspace (line ! 15)" by (simp add: sp)
  have d: "drop 15 line = line ! 15 # drop 16 line" using len Cons_nth_drop_Suc[of 15 line] by simp
  have all: "\<forall>c \<in> set (take 15 line). \<not> isspace c" using no len by (auto simp: in_set_conv_nth)
  have "takeWhile (\<lambda>c. \<not> isspace c) (a @ drop 15 line) = a \<and> dropWhile (\<lambda>c. \<not> isspace c) (a @ drop 15 line) = drop 15 line"
    if "\<forall>c \<in> set a. \<not> isspace c" for a
    using that y by (induction a) (simp_all add: d)
  from this[OF all] have "takeWhile (\<lambda>c. \<not> isspace c) line = take 15 line" "dropWhile (\<lambda>c. \<not> isspace c) line = drop 15 line"
    by simp_all
  moreover have "dropWhile isspace line = line" using no[of 0] len by (cases line) auto
  ultimately show ?thesis by (simp add: scan_word_def Let_def)
qed

definition same_text :: "'a origin_scheme \<Rightarrow> 'a origin_scheme \<Rightarrow> bool" where
  "same_text st st' \<longleftrightarrow> o_head st' = o_head st \<and> o_tmps st' = o_tmps st"

lemma save_frames:
  "save_lastmod line st = Some st' \<Longrightarrow> same_text st st' \<and> o_conlen st' = o_conlen st"
  "save_redir line st = Some st' \<Longrightarrow> same_text st st' \<and> o_conlen st' = o_conlen st"
  by (auto simp: save_lastmod_def save_redir_def same_text_def split: if_splits)

lemma save_conlen_value:
  assumes "save_conlen room line st = Some st'"
  shows "same_text st st'" and "o_conlen st' = (if header ''Content-Length: '' line
    then (case scan_int (drop 15 line) of None \<Rightarrow> o_conlen st | Some (v, _) \<Rightarrow> int_of_scan v) else o_conlen st)"
proof -
  have "header ''Content-Length: '' line \<Longrightarrow> line \<noteq> []" by (auto simp: header_def strncasecmp_eq_def)
  then show "same_text st st'" "o_conlen st' = (if header ''Content-Length: '' line
      then (case scan_int (drop 15 line) of None \<Rightarrow> o_conlen st | Some (v, _) \<Rightarrow> int_of_scan v) else o_conlen st)"
    using assms scan_word_length[of line]
    by (auto simp: save_conlen_def scan_s_d_def same_text_def split: if_splits option.splits)
qed

lemma add_head_text:
  assumes "origin_rel h m r p n first ls st"
  shows "\<exists>st1. add_head (x @ CRLF) st = Some st1 \<and> origin_blocks h m r p n st1 \<and> r_src st1 = r_src st \<and> r_line st1 = r_line st
    \<and> o_conlen st1 = o_conlen st \<and> (length (head_text (first # ls @ [x])) < MAXHEAD \<longrightarrow>
      take (o_tmps st1) (o_head st1) = head_text (first # ls @ [x]) \<and> o_tmps st1 = length (head_text (first # ls @ [x])))"
proof -
  have b: "origin_blocks h m r p n st" using assms by (simp add: origin_rel_def)
  obtain st1 where st1: "add_head (x @ CRLF) st = Some st1" "origin_blocks h m r p n st1" "r_src st1 = r_src st" "r_line st1 = r_line st"
    using add_head_safe[OF b, of "x @ CRLF"] by blast
  have "o_conlen st1 = o_conlen st" using st1(1) by (auto simp: add_head_def split: if_splits)
  moreover have "take (o_tmps st1) (o_head st1) = head_text (first # ls @ [x]) \<and> o_tmps st1 = length (head_text (first # ls @ [x]))"
    if small: "length (head_text (first # ls @ [x])) < MAXHEAD"
  proof -
    have t: "take (o_tmps st) (o_head st) = head_text (first # ls)" "o_tmps st = length (head_text (first # ls))"
      using assms small by (auto simp: origin_rel_def head_text_append)
    then have "o_tmps st + length (x @ CRLF) < MAXHEAD" using small by (simp add: head_text_append)
    then obtain hd' where hd': "put_at (o_tmps st) ((x @ CRLF) @ [NUL]) (o_head st) = Some hd'"
      "st1 = st\<lparr>o_head := hd', o_tmps := o_tmps st + length (x @ CRLF)\<rparr>" using st1(1) by (auto simp: add_head_def)
    have all: "head_text (first # ls @ [x]) = head_text (first # ls) @ x @ CRLF" by (simp add: head_text_append)
    have "hd' = head_text (first # ls @ [x]) @ NUL # drop (o_tmps st + length ((x @ CRLF) @ [NUL])) (o_head st)"
      using hd'(1) t(1) unfolding all by (auto simp: put_at_def split: if_splits)
    moreover have "o_head st1 = hd'" "o_tmps st1 = length (head_text (first # ls @ [x]))" using hd'(2) t(2) unfolding all by simp_all
    moreover have "take (length a) (a @ b) = a" for a b :: "char list" by simp
    ultimately show ?thesis by metis
  qed
  ultimately show ?thesis using st1 by blast
qed

lemma origin_run_line:
  assumes rel: "origin_rel h m r p n first ls st" and len: "length (r_line st) = MAXLINE" and line: "cstr_of (r_line st) = x @ CRLF"
    and x: "plain_line x" "origin_fine room x"
  shows "\<exists>st'. origin_step room st = Some (Next, st') \<and> origin_rel h m r p n first (ls @ [x]) st' \<and> r_src st' = r_src st
    \<and> length (r_line st') = MAXLINE"
proof -
  let ?line = "x @ CRLF"
  obtain st1 where st1: "add_head ?line st = Some st1" "origin_blocks h m r p n st1" "r_src st1 = r_src st" "r_line st1 = r_line st"
    "o_conlen st1 = o_conlen st" "length (head_text (first # ls @ [x])) < MAXHEAD \<longrightarrow>
      take (o_tmps st1) (o_head st1) = head_text (first # ls @ [x]) \<and> o_tmps st1 = length (head_text (first # ls @ [x]))"
    using add_head_text[OF rel, of x] by blast
  have good: "line_good room ?line" using x(2) by (simp add: origin_fine_def)
  have b: "\<not> (?line = CRLF \<or> ?line = [LF])" using x(1) by (auto simp: plain_line_def)
  have "length ?line \<le> m" using x(1) st1(2) by (simp add: plain_line_def origin_blocks_def)
  then obtain st2 where st2: "save_lastmod ?line st1 = Some st2" "origin_blocks h m r p n st2" "r_src st2 = r_src st" "r_line st2 = r_line st"
    using save_lastmod_safe[OF st1(2), of ?line] st1(3,4) by auto
  obtain st3 where st3: "save_conlen room ?line st2 = Some st3" "origin_blocks h m r p n st3" "r_src st3 = r_src st" "r_line st3 = r_line st"
    using save_conlen_safe[OF st2(2) good] st2(3,4) by auto
  obtain st4 where st4: "save_redir ?line st3 = Some st4" "origin_blocks h m r p n st4" "r_src st4 = r_src st" "r_line st4 = r_line st"
    using save_redir_safe[OF st3(2) good] st3(3,4) by auto
  have type: "\<not> (header ''Content-Type: '' ?line \<and> strstr ?line ''text'' = None)" using x(2) by (auto simp: origin_fine_def)
  have "origin_step room st = Some (Next, st4)"
    unfolding origin_step_def Let_def line st1(1) option.simps if_not_P[OF b] st2(1) Option.bind.simps st3(1) if_not_P[OF type] st4(1) by simp
  moreover have "o_conlen st4 = conlen_of (ls @ [x])"
    unfolding conlen_of_snoc
    using save_frames(1)[OF st2(1)] save_conlen_value(2)[OF st3(1)] save_frames(2)[OF st4(1)] st1(5) rel
    by (simp only: origin_rel_def)
  moreover have "o_head st4 = o_head st1" "o_tmps st4 = o_tmps st1"
    using save_frames(1)[OF st2(1)] save_conlen_value(1)[OF st3(1)] save_frames(2)[OF st4(1)] by (simp_all add: same_text_def)
  ultimately show ?thesis using st4 st1(6) len by (auto simp: origin_rel_def)
qed

lemma origin_run_blank:
  assumes rel: "origin_rel h m r p n first ls st" and len: "length (r_line st) = MAXLINE" and line: "cstr_of (r_line st) = CRLF"
  shows "\<exists>st'. origin_step room st = Some (Leave, st') \<and> origin_rel h m r p n first (ls @ [[]]) st' \<and> r_src st' = r_src st
    \<and> length (r_line st') = MAXLINE"
proof -
  obtain st1 where st1: "add_head CRLF st = Some st1" "origin_blocks h m r p n st1" "r_src st1 = r_src st" "r_line st1 = r_line st"
    "o_conlen st1 = o_conlen st" "length (head_text (first # ls @ [[]])) < MAXHEAD \<longrightarrow>
      take (o_tmps st1) (o_head st1) = head_text (first # ls @ [[]]) \<and> o_tmps st1 = length (head_text (first # ls @ [[]]))"
    using add_head_text[OF rel, of "[]"] by auto
  have "origin_step room st = Some (Leave, st1)" by (simp add: origin_step_def line st1(1))
  moreover have "\<not> header ''Content-Length: '' CRLF" by (simp add: header_def strncasecmp_eq_def tolower_def)
  then have "conlen_of (ls @ [[]]) = conlen_of ls" by (simp add: conlen_of_snoc)
  ultimately show ?thesis using st1 rel len by (auto simp: origin_rel_def)
qed

interpretation origin_runs: head_run "origin_step room" "origin_rel h m r p n first" "origin_fine room" for room h m r p n first
proof (unfold_locales, goal_cases)
  case (1 ls st l s)
  then show ?case by (simp add: origin_rel_def origin_blocks_def)
next
  case (2 ls st h)
  then show ?case by (intro origin_run_line)
next
  case (3 ls st)
  then show ?case by (intro origin_run_blank)
qed

section \<open>Fetching a page\<close>

definition status_line :: "nat \<Rightarrow> cstr \<Rightarrow> cstr" where
  "status_line code reason = ''HTTP/1.1 '' @ dec_nat code @ CHR '' '' # reason"

definition answer_of :: "nat \<Rightarrow> cstr \<Rightarrow> cstr list \<Rightarrow> char list \<Rightarrow> char list" where
  "answer_of code reason hs body = status_line code reason @ CRLF @ head_text hs @ CRLF @ body"

definition answer_fine :: "nat \<Rightarrow> nat \<Rightarrow> cstr \<Rightarrow> cstr list \<Rightarrow> bool" where
  \<comment> \<open>a page or a redirection, with lines that fit in the reader and a head that fits in \<open>head\<close>\<close>
  "answer_fine room code reason hs \<longleftrightarrow> 200 \<le> code \<and> code < 400 \<and> plain_line (status_line code reason) \<and> list_all plain_line hs
     \<and> list_all (origin_fine room) hs \<and> length (head_text (status_line code reason # hs @ [[]])) < MAXHEAD"

lemma code_class: "200 \<le> code \<Longrightarrow> code < 400 \<Longrightarrow> int code sdiv 100 = 2 \<or> int code sdiv 100 = 3"
  by (auto simp: signed_divide_int_def sgn_if)

lemma scan_status: "200 \<le> code \<Longrightarrow> code < 400 \<Longrightarrow> scan_s_d 10 (status_line code reason @ CRLF) = Some (''HTTP/1.1'', Some (int code))"
proof -
  assume "200 \<le> code" "code < 400"
  have "scan_word (status_line code reason @ CRLF) = (''HTTP/1.1'', CHR '' '' # dec_nat code @ CHR '' '' # reason @ CRLF)"
    by (simp add: scan_word_def status_line_def isspace_def)
  moreover have "scan_int (CHR '' '' # dec_nat code @ CHR '' '' # reason @ CRLF) = Some (int code, CHR '' '' # reason @ CRLF)"
    by (rule scan_int_dec) (simp add: isdigit_def)
  ultimately show ?thesis using \<open>code < 400\<close> by (simp add: scan_s_d_def int_of_scan_def to_int32_id)
qed

lemma put_first:
  "origin_blocks h m r p n st \<Longrightarrow> o_tmps st = 0 \<Longrightarrow> length (x @ CRLF) < MAXHEAD \<Longrightarrow>
    \<exists>st'. add_head (x @ CRLF) st = Some st' \<and> origin_rel h m r p n x [] (st'\<lparr>o_conlen := 0\<rparr>) \<and> r_src st' = r_src st \<and> r_line st' = r_line st"
proof -
  assume a: "origin_blocks h m r p n st" "o_tmps st = 0" "length (x @ CRLF) < MAXHEAD"
  obtain st' where s: "add_head (x @ CRLF) st = Some st'" "origin_blocks h m r p n st'" "r_src st' = r_src st" "r_line st' = r_line st"
    using add_head_safe[OF a(1)] by blast
  obtain hd' where "put_at 0 ((x @ CRLF) @ [NUL]) (o_head st) = Some hd'" "st' = st\<lparr>o_head := hd', o_tmps := length (x @ CRLF)\<rparr>"
    using s(1) a(2,3) by (auto simp: add_head_def)
  then have "take (o_tmps st') (o_head st') = x @ CRLF" "o_tmps st' = length (x @ CRLF)" by (auto simp: put_at_def split: if_splits)
  then show ?thesis using s by (auto simp: origin_rel_def origin_blocks_def conlen_of_def)
qed

lemma head_string:
  assumes "origin_rel h m r p n first ls st" and "length (head_text (first # ls)) < MAXHEAD" and "NUL \<notin> set (head_text (first # ls))"
  shows "cstr_of (o_head st) = head_text (first # ls)"
proof -
  have t: "take (o_tmps st) (o_head st) = head_text (first # ls)" "o_tmps st < length (o_head st)" "o_head st ! o_tmps st = NUL"
    using assms(1,2) by (auto simp: origin_rel_def origin_blocks_def)
  have "o_head st = head_text (first # ls) @ NUL # drop (Suc (o_tmps st)) (o_head st)"
    using id_take_nth_drop[OF t(2)] t(1,3) by simp
  from arg_cong[OF this, of cstr_of] show ?thesis using c_str_append c_str_no_nul[OF assms(3)] by metis
qed

lemma head_text_no_nul: "list_all plain_line hs \<Longrightarrow> NUL \<notin> set (head_text hs)"
  by (induction hs) (auto simp: plain_line_def)

lemma origin_answer_calm:
  assumes "origin_blocks h m r p n st" and "o_tmps st = 0" and "length (r_line st) = MAXLINE" and "0 < n" and "n \<le> int (length p)"
    and "unread (r_src st) = answer_of code reason hs body" and "answer_fine room code reason hs"
    and "rline_ready (length (answer_of code reason hs body) + length hs + 3) (r_src st)"
    and "conlen_of hs = 0 \<or> int (length body) \<le> conlen_of hs"
  shows "\<exists>st'. origin_answer room st = Some (int code, st') \<and> o_pagesize st' = int (min (length body) (nat (n - 1)))
    \<and> take (Suc (min (length body) (nat (n - 1)))) (o_page st') = take (nat (n - 1)) body @ [NUL]
    \<and> length (o_page st') = length p \<and> cstr_of (o_head st') = head_text (status_line code reason # hs @ [[]])"
proof -
  let ?first = "status_line code reason"
  note fine = assms(7)[unfolded answer_fine_def]
  have cut: "cut_line (MAXLINE - 1) (unread (r_src st)) = (?first @ CRLF, head_text hs @ CRLF @ body)"
    unfolding assms(6) answer_of_def using fine by (intro cut_plain(1)) simp
  have c: "cstr_of (?first @ CRLF) = ?first @ CRLF" using cut_plain(2)[of ?first] fine by simp
  have "rline_ready ((Suc (length body) + (length (head_text hs) + length hs + 3)) + Suc (length (?first @ CRLF))) (r_src st)"
    using assms(8) by (simp add: answer_of_def ac_simps)
  from readline_calm[OF cut _ this assms(3)]
  obtain rc blk src where rd: "ul_readline_speedo (r_line st) MAXLINE READTIMEOUT (r_src st) = Some (rc, blk, src)" "0 < rc" "length blk = MAXLINE"
    "cstr_of blk = ?first @ CRLF" "unread src = head_text hs @ CRLF @ body"
    "rline_ready (Suc (length body) + (length (head_text hs) + length hs + 3)) src" unfolding c by (auto simp: status_line_def)
  let ?st = "st\<lparr>r_line := blk, r_src := src\<rparr>"
  have "origin_blocks h m r p n ?st" "o_tmps ?st = 0" using assms(1,2) by (simp_all add: origin_blocks_def)
  moreover have "length (?first @ CRLF) < MAXHEAD" using fine by simp
  ultimately obtain st1 where st1: "add_head (?first @ CRLF) ?st = Some st1" "origin_rel h m r p n ?first [] (st1\<lparr>o_conlen := 0\<rparr>)"
    "r_src st1 = src" "r_line st1 = blk" using put_first[of h m r p n ?st ?first] by auto
  obtain st2 where st2: "http_heads (origin_step room) (st1\<lparr>o_conlen := 0\<rparr>) = Some (Leave, st2)" "origin_rel h m r p n ?first (hs @ [[]]) st2"
    "unread (r_src st2) = body" "rline_ready (Suc (length body)) (r_src st2)" "0 \<le> rl_cnt (fst (r_src st2))"
    using origin_runs.heads_run[OF st1(2), of hs room body "Suc (length body)"] st1(3,4) rd(3,5,6) fine by auto
  have e: "origin_answer room st = origin_body (int code) st2"
    using rd(1,2,4) scan_status[of code reason] code_class[of code] fine st1(1) st2(1) by (simp add: origin_answer_def)
  obtain rl d where src: "r_src st2 = (rl, d)" by (cases "r_src st2")
  have b: "origin_blocks h m r p n st2" "o_conlen st2 = conlen_of (hs @ [[]])" using st2(2) by (simp_all add: origin_rel_def)
  then have f: "o_page st2 = p" "o_pagesize st2 = n" by (simp_all add: origin_blocks_def)
  have "\<not> header ''Content-Length: '' CRLF" by (simp add: header_def strncasecmp_eq_def tolower_def)
  then have "o_conlen st2 = conlen_of hs" using b(2) by (simp add: conlen_of_snoc)
  then obtain page d' where rb: "read_body (int code) rl d p n (o_conlen st2) = Some (int code, int (min (length body) (nat (n - 1))), page, d')"
    "length page = length p" "take (Suc (min (length body) (nat (n - 1)))) page = take (nat (n - 1)) body @ [NUL]"
    using read_body_calm[OF st2(4)[unfolded src] st2(3)[unfolded src], of n p "o_conlen st2" "int code"] st2(5) assms(4,5,9) by (auto simp: src)
  have "cstr_of (o_head st2) = head_text (?first # hs @ [[]])"
    using head_string[OF st2(2)] fine head_text_no_nul[of "?first # hs"] by (simp add: head_text_append)
  then show ?thesis using rb assms(4) by (simp add: e origin_body_def f src)
qed

definition server_ready :: "net \<Rightarrow> cstr \<Rightarrow> cstr option \<Rightarrow> conn \<Rightarrow> nat \<Rightarrow> bool" where
  \<comment> \<open>the address is understood, the connection opens, takes the whole request and delivers the answer, with \<open>k\<close> more
      reads than there are bytes\<close>
  "server_ready net url ip c k \<longleftrightarrow> (case locate url of None \<Rightarrow> False
     | Some (host, file, port) \<Rightarrow> 0 \<le> fst (zx_tcpconnecto net (case ip of None \<Rightarrow> host | Some a \<Rightarrow> a) port)
         \<and> wsteady_polled (length (ul_makecmd MAXGETCMD host file)) c)
     \<and> calm (length (incoming c) + k) c"

lemma command_nonempty: "ul_makecmd MAXGETCMD host path \<noteq> []"
  by (simp add: ul_makecmd_def snprintf_buf_def MAXGETCMD_def)

lemma origin_calm:
  assumes "caller_ok st" and "0 < o_pagesize st" and "server_ready net url ip c (length hs + 3)"
    and "incoming c = answer_of code reason hs body" and "answer_fine room code reason hs"
    and "conlen_of hs = 0 \<or> int (length body) \<le> conlen_of hs"
  shows "\<exists>st'. ul_gethttpcontent_origin net room (Some url) ip c (Some st) = Some (int code, Some st')
    \<and> o_pagesize st' = int (min (length body) (nat (o_pagesize st - 1)))
    \<and> take (Suc (min (length body) (nat (o_pagesize st - 1)))) (o_page st') = take (nat (o_pagesize st - 1)) body @ [NUL]
    \<and> length (o_page st') = length (o_page st) \<and> cstr_of (o_head st') = head_text (status_line code reason # hs @ [[]])"
proof -
  obtain host pth port where l: "locate url = Some (host, pth, port)"
    and ts: "0 \<le> fst (zx_tcpconnecto net (case ip of None \<Rightarrow> host | Some a \<Rightarrow> a) port)"
    and w: "wsteady_polled (length (ul_makecmd MAXGETCMD host pth)) c" and k: "calm (length (incoming c) + (length hs + 3)) c"
    using assms(3) by (auto simp: server_ready_def split: option.splits)
  let ?cmd = "ul_makecmd MAXGETCMD host pth"
  obtain c1 where c1: "ul_swriteo_ex ?cmd c = (int (length ?cmd), c1)"
    using swriteo_loop_steady[OF w, of ?cmd 0] w by (auto simp: ul_swriteo_ex_def ul_swriteo_ms_ex_def wsteady_polled_def)
  note frame = swriteo_ex_incoming[OF c1]
  have ready: "rline_ready (length (answer_of code reason hs body) + length hs + 3) (start_reader c1)"
    using k frame assms(4) start_reader_facts(1)[of c1]
    by (simp add: rline_ready_def start_reader_def calm_def steady_def ac_simps)
  let ?h = "NUL # drop 1 (o_head st)"
  have h: "put_at 0 [NUL] (o_head st) = Some ?h" "length ?h = length (o_head st)"
    using assms(1) put_at_0[of "[NUL]" "o_head st"] by (auto simp: caller_ok_def MAXHEAD_def)
  let ?st = "st\<lparr>r_src := start_reader c1, o_head := ?h, o_tmps := 0\<rparr>"
  have "origin_blocks (length (o_head st)) (length (o_lastmod st)) (length (o_redir st)) (o_page st) (o_pagesize st) ?st"
    using assms(1) h(2) by (simp add: origin_blocks_def caller_ok_def MAXHEAD_def)
  from origin_answer_calm[OF this _ _ assms(2) _ _ assms(5) _ assms(6)] assms(1,4) start_reader_facts(2)[of c1] frame ready
  obtain st' where r: "origin_answer room ?st = Some (int code, st')" "o_pagesize st' = int (min (length body) (nat (o_pagesize st - 1)))"
    "take (Suc (min (length body) (nat (o_pagesize st - 1)))) (o_page st') = take (nat (o_pagesize st - 1)) body @ [NUL]"
    "length (o_page st') = length (o_page st)" "cstr_of (o_head st') = head_text (status_line code reason # hs @ [[]])"
    by (auto simp: caller_ok_def)
  have "\<not> fst (zx_tcpconnecto net (case ip of None \<Rightarrow> host | Some a \<Rightarrow> a) port) \<le> -1" "\<not> int (length ?cmd) \<le> 0"
    using ts command_nonempty by simp_all
  then have "ul_gethttpcontent_origin net room (Some url) ip c (Some st) = Some (int code, Some st')"
    using h(1) r(1) c1 by (simp add: ul_gethttpcontent_origin_def l Let_def)
  then show ?thesis using r(2-5) by blast
qed


text \<open>C34: a page that the server sends in chunks is fetched whole: page holds the data of the chunks, with a terminator
  behind them, and pagesize their length, if the page as it was sent fits in the block.\<close>

theorem fetch_chunked:
  assumes "caller_ok st" and "server_ready net url ip c (length hs + 3)"
    and "incoming c = answer_of code reason hs (chunk_enc cs @ trailer)" and "answer_fine room code reason hs"
    and "conlen_of hs = 0 \<or> int (length (chunk_enc cs @ trailer)) \<le> conlen_of hs"
    and "strstr (head_text (status_line code reason # hs @ [[]])) ''chunked'' \<noteq> None"
    and "chunks_ok cs" and "int (length (chunk_enc cs @ trailer)) < o_pagesize st" and "int (length (chunk_enc cs @ trailer)) < MAXPAGE"
  shows "\<exists>st'. ul_gethttpcontent net room (Some url) ip c (Some st) = Some (int code, Some st')
    \<and> o_pagesize st' = int (length (concat (map snd cs)))
    \<and> take (Suc (length (concat (map snd cs)))) (o_page st') = concat (map snd cs) @ [NUL]"
proof -
  let ?body = "chunk_enc cs @ trailer"
  have pos: "0 < o_pagesize st" and fits: "min (length ?body) (nat (o_pagesize st - 1)) = length ?body"
    "take (nat (o_pagesize st - 1)) ?body = ?body" using assms(8) by auto
  obtain st1 where st1: "ul_gethttpcontent_origin net room (Some url) ip c (Some st) = Some (int code, Some st1)"
    "o_pagesize st1 = int (length ?body)" "take (Suc (length ?body)) (o_page st1) = ?body @ [NUL]"
    "cstr_of (o_head st1) = head_text (status_line code reason # hs @ [[]])"
    using origin_calm[OF assms(1) pos assms(2-5)] unfolding fits by blast
  have "o_page st1 = (?body @ [NUL]) @ drop (Suc (length ?body)) (o_page st1)" using st1(3) by (metis append_take_drop_id)
  then obtain rest where pg: "o_page st1 = chunk_enc cs @ trailer @ NUL # rest" by simp
  have "length ?body < 2 ^ 31" "length ?body \<le> nat MAXPAGE" using assms(9) by (auto simp: MAXPAGE_def)
  from chunk_body_enc[OF assms(7) this, of rest] obtain page where d: "chunkpage (o_page st1) (o_pagesize st1)
      = Some (int (length (concat (map snd cs))), page)" "take (Suc (length (concat (map snd cs)))) page = concat (map snd cs) @ [NUL]"
    using assms(9) by (auto simp: chunkpage_def pg st1(2))
  have code: "int code sdiv 100 = 2 \<or> int code sdiv 100 = 3" using assms(4) code_class[of code] by (simp add: answer_fine_def)
  have "(int code sdiv 100 = 2 \<or> int code sdiv 100 = 3) \<and> strstr (cstr_of (o_head st1)) ''chunked'' \<noteq> None"
    using code assms(6) st1(4) by simp
  then have "ul_gethttpcontent net room (Some url) ip c (Some st)
      = Some (int code, Some (st1\<lparr>o_pagesize := int (length (concat (map snd cs))), o_page := page\<rparr>))"
    by (simp add: ul_gethttpcontent_def st1(1) d(1))
  then show ?thesis using d(2) by simp
qed

section \<open>A server\<close>

definition some_net :: net where
  "some_net = \<lparr>socket_fd = 3, numeric_addr = (\<lambda>_. Some 1), resolve = (\<lambda>_. None), connecting = (\<lambda>_ _. Connected)\<rparr>"

definition some_caller :: origin where
  "some_caller = \<lparr>r_line = replicate MAXLINE NUL, r_src = start_reader \<lparr>incoming = [], rpolls = [], reads = [], outgoing = [], wpolls = [],
     writes = [], eintr = False, fcntl_ok = True\<rparr>, o_head = replicate MAXHEAD NUL, o_tmps = 0, o_lastmod = replicate MAXLINE NUL,
     o_redir = replicate MAXURL NUL, o_conlen = 0, o_page = replicate 100 CHR ''z'', o_pagesize = 100\<rparr>"

definition serving :: "char list \<Rightarrow> conn" where
  \<comment> \<open>reads of up to six bytes each, the first one interrupted\<close>
  "serving answer = \<lparr>incoming = answer, rpolls = replicate 301 PollOk, reads = ReadFail True # replicate 300 (ReadGives 5), outgoing = [],
     wpolls = replicate 300 PollOk, writes = replicate 300 (WriteTakes 7), eintr = False, fcntl_ok = True\<rparr>"

lemma some_caller_ok: "caller_ok some_caller" "o_pagesize some_caller = 100" "length (o_page some_caller) = 100"
  by (simp_all add: caller_ok_def some_caller_def)

lemma some_server_ready:
  assumes "length answer + k \<le> 300"
  shows "server_ready some_net ''http://a.b/x'' None (serving answer) k"
proof -
  have "locate ''http://a.b/x'' = Some (''a.b'', ''/x'', 80)" by code_simp
  moreover have "length (ul_makecmd MAXGETCMD ''a.b'' ''/x'') \<le> 300"
    by (simp add: ul_makecmd_def spider_def snprintf_buf_def MAXGETCMD_def)
  then have "wsteady_polled (length (ul_makecmd MAXGETCMD ''a.b'' ''/x'')) (serving answer)"
    by (simp add: wsteady_polled_def wsteady_def serving_def list_all_iff filter_replicate is_takes_def)
  moreover have "calm (length (incoming (serving answer)) + k) (serving answer)"
    using assms by (simp add: calm_def steady_def serving_def list_all_iff filter_replicate is_gives_def)
  ultimately show ?thesis by (simp add: server_ready_def zx_tcpconnecto_def zx_connecto_def some_net_def)
qed

lemma fine_200: "status_line 200 ''OK'' = ''HTTP/1.1 200 OK''"
  by code_simp


theorem fetch_chunked_witness:
  "\<exists>st'. ul_gethttpcontent some_net 16 (Some ''http://a.b/x'') None
        (serving (answer_of 200 ''OK'' [''Transfer-Encoding: chunked''] (chunk_enc two_chunks @ CRLF))) (Some some_caller)
      = Some (200, Some st') \<and> o_pagesize st' = 21 \<and> take 22 (o_page st') = (''a'' @ CRLF @ ''b'' @ replicate 17 CHR ''c'') @ [NUL]"
proof -
  let ?body = "chunk_enc two_chunks @ CRLF" and ?hs = "[''Transfer-Encoding: chunked'']"
  have len: "length ?body = 41" by (simp add: two_chunks_def chunk_line_def hex_nat.simps)
  have f: "answer_fine 16 200 ''OK'' ?hs"
    by (simp add: answer_fine_def fine_200 plain_line_def MAXLINE_def MAXHEAD_def origin_fine_def line_good_def header_def
        strncasecmp_eq_def tolower_def)
  have s: "server_ready some_net ''http://a.b/x'' None (serving (answer_of 200 ''OK'' ?hs ?body)) (length ?hs + 3)"
    by (rule some_server_ready) (use len in \<open>simp add: answer_of_def fine_200\<close>)
  have i: "incoming (serving (answer_of 200 ''OK'' ?hs ?body)) = answer_of 200 ''OK'' ?hs ?body" by (simp add: serving_def)
  have c: "conlen_of ?hs = 0 \<or> int (length ?body) \<le> conlen_of ?hs"
    by (simp add: conlen_of_def header_def strncasecmp_eq_def tolower_def)
  have n: "strstr (head_text (status_line 200 ''OK'' # ?hs @ [[]])) ''chunked'' \<noteq> None" by (simp add: fine_200)
  have k: "chunks_ok two_chunks" by code_simp
  have l: "int (length ?body) < o_pagesize some_caller" "int (length ?body) < MAXPAGE"
    using len some_caller_ok(2) by (simp_all add: MAXPAGE_def)
  have d: "concat (map snd two_chunks) = ''a'' @ CRLF @ ''b'' @ replicate 17 CHR ''c''" by (simp add: two_chunks_def)
  have d': "Suc (length (concat (map snd two_chunks))) = 22" "int (length (concat (map snd two_chunks))) = 21" by (simp_all add: d)
  show ?thesis
    using fetch_chunked[OF some_caller_ok(1) s i f c n k l] unfolding d' d by simp
qed


section \<open>Answers that break the code\<close>

text \<open>The local \<open>con\<close> is declared with 10 bytes, and the name of the header is read into it: every answer with a
  \<open>Content-Length\<close> writes behind it.\<close>

theorem content_length_overruns:
  assumes "header ''Content-Length: '' line"
  shows "save_conlen 10 line st = None" and "16 \<le> room \<Longrightarrow> save_conlen room line st \<noteq> None"
proof -
  have "16 \<le> length line"
  proof -
    have "map tolower (take (length ''Content-Length: '') line) = map tolower (take (length ''Content-Length: '') ''Content-Length: '')"
      using assms by (simp only: header_def strncasecmp_eq_def)
    from arg_cong[OF this, of length] show ?thesis by (simp add: min_def split: if_splits)
  qed
  then show "save_conlen 10 line st = None" "16 \<le> room \<Longrightarrow> save_conlen room line st \<noteq> None"
    using assms scan_word_length[OF assms] by (simp_all add: save_conlen_def scan_s_d_def)
qed

text \<open>So does a first word of ten characters in the first line, which is read into \<open>stats1\<close>.\<close>

theorem long_protocol_overruns: "scan_s_d 10 ''HTTP/1.1.1 200 OK'' = None"
  by code_simp

text \<open>A server that closes the connection behind \<open>Location: \<close> makes the code copy a negative number of bytes.\<close>

theorem location_cut_off: "save_redir ''Location: '' st = None" "save_redir (''Location: '' @ [CR]) st = None"
  by (simp_all add: save_redir_def redir_len_def header_def strncasecmp_eq_def MAXURL_def)

text \<open>The line with the date of the page is copied without a terminator.\<close>

theorem lastmod_not_terminated:
  assumes "header ''Last-Modified: '' line" and "save_lastmod line st = Some st'"
  shows "o_lastmod st' = line @ drop (length line) (o_lastmod st)"
  using assms by (auto simp: save_lastmod_def put_at_def split: if_splits)

text \<open>After a time-out the socket is closed twice, the second time when its number may be in use again.\<close>

theorem connect_closes_twice:
  assumes "0 < socket_fd net" and "numeric_addr net host = Some a" and "connecting net a (port mod 2 ^ 16) = ConnWaiting NoAnswer"
  shows "zx_tcpconnecto net host port = (-1, 2)"
  using assms by (simp add: zx_tcpconnecto_def zx_connecto_def)

text \<open>The date of a \<open>PAGE_ITEM\<close>, which may have \<open>MAXLINE\<close> bytes, does not fit in the request.\<close>

theorem makecmd_new_overruns: "ul_makecmd_new MAXGETCMD ''a.b'' ''/'' (Some (replicate 1100 CHR ''x'')) None = None"
  by (simp add: ul_makecmd_new_def MAXGETCMD_def snprintf_buf_def spider_def)

text \<open>The encoding of a \<open>PAGE_ITEM\<close> is not reset: when it is used for a second page that is not in chunks, that page is
  decoded as the first one was.\<close>

theorem encoding_not_reset:
  assumes "item_line text_only room line st = Some (res, st')" and "\<not> header ''Transfer-Encoding:'' line"
  shows "i_trnenc (f_item st') = i_trnenc (f_item st)"
  using assms by (auto simp: item_line_def set_flag_def Let_def split: if_splits option.splits)

text \<open>When the body is longer than announced, the page depends on how much of it came together with the head.\<close>

theorem cut_decides_page:
  "map_option (\<lambda>(r, n, page, c). n) (read_body 200 \<lparr>rl_cnt = 2, read_ptr = 0, rl_buf = ''hi''\<rparr> (serving ''x'') ''zzzzz'' 5 1) = Some 2"
  "map_option (\<lambda>(r, n, page, c). n) (read_body 200 \<lparr>rl_cnt = 0, read_ptr = 0, rl_buf = ''hi''\<rparr> (serving ''hi'') ''zzzzz'' 5 1) = Some 1"
  by (simp_all add: read_body_def put_at_def ul_sreado_def ul_sreado_ms_def sreado_loop.simps ul_reado_tv_def sys_read_def serving_def
      Let_def eval_nat_numeral)

end
