(* ===== verification/Url_Dots.thy ===== *)
theory Url_Dots
  imports Url_Path
begin

text \<open>
  Removal of dot segments: \<open>replace_slash\<close>, \<open>ul_normalize_path\<close>, \<open>ul_normalize_path_ex\<close>,
  \<open>ul_normalize_path_ex2\<close> and \<open>ul_normalize_path_vhplink\<close> of \<^verbatim>\<open>ullib/src/ul_url.cpp\<close>.

  The functions copy the path to \<open>tmp\<close>, read it at \<open>p\<close> up to \<open>pend\<close> and write the result at \<open>q\<close>
  of the path itself. In the model \<open>mid\<close> is the text from \<open>p\<close> to \<open>pend\<close>, \<open>tail\<close> the text from
  \<open>pend\<close> on, and \<open>out\<close> the text of the path up to and with \<open>*q\<close>, reversed: \<open>*q\<close> is its head and
  \<open>q == path\<close> says that it has one element. \<open>None\<close> is a failed assertion or, in the functions without
  a length check, an overflow of \<open>tmp\<close>.
\<close>

section \<open>The functions\<close>

definition pend_of :: "cstr \<Rightarrow> nat" where
  \<comment> \<open>the offset of \<open>pend\<close>: the first \<^verbatim>\<open>?\<close>, else the first \<^verbatim>\<open>;\<close>, else the end\<close>
  "pend_of path =
     (case strchr path CHR ''?'' of
        Some i \<Rightarrow> i
      | None \<Rightarrow> (case strchr path CHR '';'' of Some i \<Rightarrow> i | None \<Rightarrow> length path))"

fun slash_loop :: "cstr \<Rightarrow> cstr" where
  \<comment> \<open>\<open>for (p = path; p != pend; p++)\<close>\<close>
  "slash_loop [] = []"
| "slash_loop (c # s) = (if c = CHR 0x5C then CHR ''/'' else c) # slash_loop s"

definition replace_slash :: "cstr \<Rightarrow> cstr" where
  "replace_slash path = (let n = pend_of path in slash_loop (take n path) @ drop n path)"

definition q_up :: "cstr \<Rightarrow> cstr" where
  \<comment> \<open>\<open>q--; while (*q != '/') q--;\<close>\<close>
  "q_up out = dropWhile (\<lambda>c. c \<noteq> CHR ''/'') (tl out)"

function norm_loop :: "cstr \<Rightarrow> cstr \<Rightarrow> cstr \<Rightarrow> cstr" where
  \<comment> \<open>\<open>while (p != pend)\<close>\<close>
  "norm_loop tail out [] = out"
| "norm_loop tail out (c # m) =
     (let p = c # m @ tail; n = Suc (length m) in
      if hd out \<noteq> CHR ''/'' then norm_loop tail (c # out) m
      else if strncmp_eq p ''./'' 2 then norm_loop tail out (drop 2 (c # m))
      else if strncmp_eq p ''../'' 3 then
        norm_loop tail (if length out = 1 then out else q_up out) (drop 3 (c # m))
      else if c = CHR ''/'' then norm_loop tail out m
      else if strncmp_eq p ''.'' n then norm_loop tail out m
      else if strncmp_eq p ''..'' n then
        norm_loop tail (if length out = 1 then out else q_up out) (drop 2 (c # m))
      else norm_loop tail (c # out) m)"
  by pat_completeness auto
termination by (relation "measure (\<lambda>(tail, out, mid). length mid)") auto

definition normalize_path_body :: "cstr \<Rightarrow> cstr" where
  \<comment> \<open>the common body, from \<open>replace_slash(path)\<close> on\<close>
  "normalize_path_body path =
     (let tmp = replace_slash path; n = pend_of tmp; tail = drop n tmp
      in rev (norm_loop tail (take 1 tmp) (drop 1 (take n tmp))) @ tail)"

definition ul_normalize_path :: "cstr \<Rightarrow> cstr option" where
  "ul_normalize_path path =
     (if path = [] \<or> hd path \<noteq> CHR ''/'' then None
      else if UL_MAX_URL_LEN \<le> length path then None
      else Some (normalize_path_body path))"

definition ul_normalize_path_ex :: "cstr \<Rightarrow> cstr option" where
  "ul_normalize_path_ex path =
     (if path = [] \<or> hd path \<noteq> CHR ''/'' then None
      else if UL_MAX_URL_LEN_EX \<le> length path then None
      else Some (normalize_path_body path))"

definition ul_normalize_path_ex2 :: "cstr \<Rightarrow> cstr option" where
  "ul_normalize_path_ex2 path =
     (if path = [] \<or> hd path \<noteq> CHR ''/'' then None
      else if UL_MAX_URL_LEN_EX2 \<le> length path then None
      else Some (normalize_path_body path))"

function norm_loop_vhplink :: "cstr \<Rightarrow> nat \<Rightarrow> cstr \<Rightarrow> cstr \<Rightarrow> cstr \<Rightarrow> cstr" where
  \<comment> \<open>\<open>root\<close> is \<open>cur_root - path + 1\<close>, \<open>pre\<close> the text of \<open>tmp\<close> before \<open>p\<close>, reversed\<close>
  "norm_loop_vhplink tail root pre out [] = out"
| "norm_loop_vhplink tail root pre out (c # m) =
     (let p = c # m @ tail; n = Suc (length m) in
      if hd out \<noteq> CHR ''/'' then norm_loop_vhplink tail root (c # pre) (c # out) m
      else if strncmp_eq p ''./'' 2 then
        norm_loop_vhplink tail root (rev (take 2 (c # m)) @ pre) out (drop 2 (c # m))
      else if strncmp_eq p ''../'' 3 then
        norm_loop_vhplink tail root (rev (take 3 (c # m)) @ pre) (if length out = root then out else q_up out)
          (drop 3 (c # m))
      else if c = CHR ''/'' then
        (if 6 \<le> length pre \<and> strncasecmp_eq (rev (take 6 pre) @ p) ''http://'' 7
         then norm_loop_vhplink tail (Suc (length out)) (c # pre) (c # out) m
         else norm_loop_vhplink tail root (c # pre) out m)
      else if strncmp_eq p ''.'' n then norm_loop_vhplink tail root (c # pre) out m
      else if strncmp_eq p ''..'' n then
        norm_loop_vhplink tail root (rev (take 2 (c # m)) @ pre) (if length out = 1 then out else q_up out)
          (drop 2 (c # m))
      else norm_loop_vhplink tail root (c # pre) (c # out) m)"
  by pat_completeness auto
termination by (relation "measure (\<lambda>(tail, root, pre, out, mid). length mid)") auto

definition ul_normalize_path_vhplink :: "cstr \<Rightarrow> cstr option" where
  "ul_normalize_path_vhplink path =
     (if path = [] \<or> hd path \<noteq> CHR ''/'' then None
      else if UL_MAX_URL_LEN \<le> length path then None
      else Some (let tmp = replace_slash path; n = pend_of tmp; tail = drop n tmp
                 in rev (norm_loop_vhplink tail 1 (take 1 tmp) (take 1 tmp) (drop 1 (take n tmp))) @ tail))"

section \<open>Specification: segments and their resolution\<close>

fun split_slash :: "cstr \<Rightarrow> cstr list" where
  "split_slash [] = [[]]"
| "split_slash (c # s) =
     (if c = CHR ''/'' then [] # split_slash s else (c # hd (split_slash s)) # tl (split_slash s))"

fun resolve :: "cstr list \<Rightarrow> cstr list \<Rightarrow> cstr list" where
  \<comment> \<open>the kept pieces, last one first: empty and dot segments are dropped, a double dot drops the piece
      before it, and every other segment is kept with the slash after it\<close>
  "resolve st [] = st"
| "resolve st [s] = (if s = [] \<or> s = ''.'' then st else if s = ''..'' then tl st else s # st)"
| "resolve st (s # ss) =
     (if s = [] \<or> s = ''.'' then resolve st ss
      else if s = ''..'' then resolve (tl st) ss
      else resolve ((s @ ''/'') # st) ss)"

definition root_text :: "cstr list \<Rightarrow> cstr" where
  "root_text st = CHR ''/'' # concat (rev st)"

definition piece :: "cstr \<Rightarrow> bool" where
  \<comment> \<open>a kept segment: nonempty, no dot segment, no slash\<close>
  "piece s \<longleftrightarrow> s \<noteq> [] \<and> s \<noteq> ''.'' \<and> s \<noteq> ''..'' \<and> CHR ''/'' \<notin> set s"

definition dir_piece :: "cstr \<Rightarrow> bool" where
  "dir_piece d \<longleftrightarrow> (\<exists>s. d = s @ ''/'' \<and> piece s)"

section \<open>The loop resolves segments\<close>

definition tail_ok :: "cstr \<Rightarrow> bool" where
  \<comment> \<open>what \<open>pend\<close> points to\<close>
  "tail_ok tail \<longleftrightarrow> tail = [] \<or> hd tail = CHR ''?'' \<or> hd tail = CHR '';''"

lemma tail_ok_slash: "tail_ok tail \<Longrightarrow> take n tail \<noteq> CHR ''/'' # t \<and> take n tail \<noteq> CHR ''.'' # t"
  by (cases tail; cases n) (auto simp: tail_ok_def)

lemma split_slash_no: "CHR ''/'' \<notin> set s \<Longrightarrow> split_slash s = [s]"
  by (induction s) auto

lemma split_slash_append: "CHR ''/'' \<notin> set s \<Longrightarrow> split_slash (s @ CHR ''/'' # t) = s # split_slash t"
  by (induction s) auto

lemma split_slash_nonempty [simp]: "split_slash s \<noteq> []"
  by (cases s) auto

lemma slash_cases:
  obtains (last) "CHR ''/'' \<notin> set m" | (seg) s t where "m = s @ CHR ''/'' # t" "CHR ''/'' \<notin> set s"
  by (metis split_list_first)

lemma resolve_Cons: "ss \<noteq> [] \<Longrightarrow> resolve st (s # ss) =
     (if s = [] \<or> s = ''.'' then resolve st ss
      else if s = ''..'' then resolve (tl st) ss
      else resolve ((s @ ''/'') # st) ss)"
  by (cases ss) simp_all

lemma norm_loop_copy:
  assumes "CHR ''/'' \<notin> set s" "hd out \<noteq> CHR ''/''"
  shows "norm_loop tail out (s @ m) = norm_loop tail (rev s @ out) m"
    and "norm_loop tail out (s @ CHR ''/'' # m) = norm_loop tail (CHR ''/'' # rev s @ out) m"
  using assms
proof (induction s arbitrary: out)
  case (Cons c s)
  { case 1 with Cons(1)[of "c # out"] show ?case by (auto simp: Let_def) }
  { case 2 with Cons(2)[of "c # out"] show ?case by (auto simp: Let_def) }
qed (simp_all add: Let_def)

lemma q_up_root:
  assumes "dir_piece d"
  shows "q_up (rev (root_text (d # st))) = rev (root_text st) \<or> (st \<noteq> [] \<and> \<not> (\<forall>x \<in> set st. dir_piece x))"
proof -
  from assms obtain s where s: "d = s @ ''/''" "CHR ''/'' \<notin> set s" by (auto simp: dir_piece_def piece_def)
  have d: "dropWhile (\<lambda>c. c \<noteq> CHR ''/'') (rev s @ t) = dropWhile (\<lambda>c. c \<noteq> CHR ''/'') t" for t
    using s(2) by (intro dropWhile_append2) auto
  show ?thesis
  proof (cases st)
    case Nil
    then show ?thesis by (simp add: root_text_def q_up_def s d)
  next
    case (Cons d' st')
    show ?thesis
    proof (cases "dir_piece d'")
      case True
      then show ?thesis using Cons by (auto simp: root_text_def q_up_def s d dir_piece_def)
    qed (use Cons in auto)
  qed
qed

lemma pop_root:
  assumes "\<forall>d \<in> set st. dir_piece d"
  shows "(if length (rev (root_text st)) = 1 then rev (root_text st) else q_up (rev (root_text st)))
         = rev (root_text (tl st))"
proof (cases st)
  case Nil
  then show ?thesis by (simp add: root_text_def)
next
  case (Cons d st')
  with assms have "dir_piece d" "\<forall>x \<in> set st'. dir_piece x" by auto
  moreover from this have "length (rev (root_text st)) \<noteq> 1"
    by (auto simp: root_text_def Cons dir_piece_def)
  ultimately show ?thesis using q_up_root[of d st'] by (auto simp: Cons)
qed

lemma hd_root:
  assumes "\<forall>d \<in> set st. dir_piece d"
  shows "hd (rev (root_text st)) = CHR ''/''"
proof (cases st)
  case (Cons d st')
  then show ?thesis using assms by (auto simp: root_text_def dir_piece_def)
qed (simp add: root_text_def)

lemma norm_loop_first:
  \<comment> \<open>the first byte of a kept segment passes all the tests\<close>
  assumes "piece (c # s)" "tail_ok tail" "hd out = CHR ''/''" "m = s \<or> m = s @ CHR ''/'' # t"
  shows "norm_loop tail out (c # m) = norm_loop tail (c # out) m"
proof -
  have c: "c \<noteq> CHR ''/''" using assms(1) by (auto simp: piece_def)
  have "\<not> strncmp_eq (c # m @ tail) ''./'' 2"
    using assms(1,2,4) by (cases s; cases tail) (auto simp: strncmp_eq_def piece_def tail_ok_def)
  moreover have "\<not> strncmp_eq (c # m @ tail) ''../'' 3"
    using assms(1,2,4)
    by (cases s; cases "tl s"; cases tail; cases t)
      (auto simp: strncmp_eq_def piece_def tail_ok_def eval_nat_numeral)
  moreover have "\<not> strncmp_eq (c # m @ tail) ''.'' (Suc (length m))"
    using assms(1,4) by (auto simp: strncmp_eq_def piece_def)
  moreover have "\<not> strncmp_eq (c # m @ tail) ''..'' (Suc (length m))"
    using assms(1,4) by (cases s) (auto simp: strncmp_eq_def piece_def)
  ultimately show ?thesis using c assms(3) by (simp add: Let_def)
qed

lemma norm_loop_resolve:
  assumes "\<forall>d \<in> set st. dir_piece d" "tail_ok tail"
  shows "norm_loop tail (rev (root_text st)) mid = rev (root_text (resolve st (split_slash mid)))"
  using assms(1)
proof (induction "length mid" arbitrary: mid st rule: less_induct)
  case less
  note hd = hd_root[OF less.prems] and pop = pop_root[OF less.prems]
  have tl: "\<forall>d \<in> set (tl st). dir_piece d" using less.prems by (cases st) auto
  show ?case
  proof (cases mid rule: slash_cases)
    case last
    then have sp: "split_slash mid = [mid]" by (rule split_slash_no)
    consider "mid = []" | "mid = ''.''" | "mid = ''..''" | c s where "mid = c # s" "piece mid"
      using last by (cases mid) (auto simp: piece_def)
    then show ?thesis
    proof cases
      case (4 c s)
      have "norm_loop tail (rev (root_text st)) mid = norm_loop tail (c # rev (root_text st)) (s @ [])"
        using norm_loop_first[of c s tail "rev (root_text st)" s] 4 assms(2) hd by simp
      also have "\<dots> = rev (root_text (mid # st))"
        using 4 by (subst norm_loop_copy) (auto simp: piece_def root_text_def)
      also have "mid # st = resolve st (split_slash mid)" using 4(2) by (auto simp: sp piece_def)
      finally show ?thesis .
    qed (use sp hd pop tail_ok_slash[OF assms(2)] in \<open>auto simp: Let_def strncmp_eq_def eval_nat_numeral\<close>)
  next
    case (seg s t)
    then have sp: "split_slash mid = s # split_slash t" by (simp add: split_slash_append)
    consider "s = []" | "s = ''.''" | "s = ''..''" | c s' where "s = c # s'" "piece s"
      using seg by (cases s) (auto simp: piece_def)
    then show ?thesis
    proof cases
      case 1
      then show ?thesis using less.hyps[of t st] less.prems seg hd
        by (simp add: sp resolve_Cons Let_def strncmp_eq_def)
    next
      case 2
      then show ?thesis using less.hyps[of t st] less.prems seg hd
        by (simp add: sp resolve_Cons Let_def strncmp_eq_def)
    next
      case 3
      then show ?thesis using less.hyps[of t "tl st"] tl seg hd pop
        by (simp add: sp resolve_Cons Let_def strncmp_eq_def)
    next
      case (4 c s')
      have "norm_loop tail (rev (root_text st)) mid = norm_loop tail (c # rev (root_text st)) (s' @ CHR ''/'' # t)"
        using norm_loop_first[of c s' tail "rev (root_text st)" "s' @ CHR ''/'' # t" t] 4 seg assms(2) hd by simp
      also have "\<dots> = norm_loop tail (rev (root_text ((s @ ''/'') # st))) t"
        using 4 by (subst norm_loop_copy(2)) (auto simp: piece_def root_text_def)
      also have "\<dots> = rev (root_text (resolve ((s @ ''/'') # st) (split_slash t)))"
        using less.prems 4 seg by (intro less.hyps) (auto simp: dir_piece_def)
      also have "resolve ((s @ ''/'') # st) (split_slash t) = resolve st (split_slash mid)"
        using 4(2) by (auto simp: sp resolve_Cons piece_def)
      finally show ?thesis .
    qed
  qed
qed

section \<open>Where the path ends\<close>

definition pend_pt :: "cstr \<Rightarrow> cstr \<Rightarrow> bool" where
  \<comment> \<open>\<open>pend\<close> stands between the two texts\<close>
  "pend_pt a b \<longleftrightarrow> CHR ''?'' \<notin> set a
     \<and> (b = [] \<and> CHR '';'' \<notin> set a
        \<or> b \<noteq> [] \<and> hd b = CHR ''?''
        \<or> b \<noteq> [] \<and> hd b = CHR '';'' \<and> CHR '';'' \<notin> set a \<and> CHR ''?'' \<notin> set b)"

lemma pend_of_pt: "pend_pt a b \<Longrightarrow> pend_of (a @ b) = length a"
proof -
  assume p: "pend_pt a b"
  then consider "b = []" "CHR ''?'' \<notin> set a" "CHR '';'' \<notin> set a"
    | t where "b = CHR ''?'' # t" "CHR ''?'' \<notin> set a"
    | t where "b = CHR '';'' # t" "CHR ''?'' \<notin> set (a @ b)" "CHR '';'' \<notin> set a"
    unfolding pend_pt_def by (cases b) auto
  then show ?thesis
  proof cases
    case 1
    then have "strchr a CHR ''?'' = None" "strchr a CHR '';'' = None" by (simp_all add: strchr_None_iff)
    then show ?thesis using 1 by (simp add: pend_of_def)
  next
    case 2
    then show ?thesis by (simp add: pend_of_def strchr_append)
  next
    case 3
    then have "strchr (a @ b) CHR ''?'' = None" by (simp add: strchr_None_iff)
    then show ?thesis using 3 by (simp add: pend_of_def strchr_append)
  qed
qed

lemma pend_of_split: "pend_pt (take (pend_of s) s) (drop (pend_of s) s) \<and> pend_of s \<le> length s"
proof (cases "strchr s CHR ''?''")
  case (Some i)
  then show ?thesis using Some[unfolded strchr_Some_iff] by (simp add: pend_of_def pend_pt_def hd_drop_conv_nth)
next
  case None
  then have q: "CHR ''?'' \<notin> set s" by (simp add: strchr_None_iff)
  show ?thesis
  proof (cases "strchr s CHR '';''")
    case (Some i)
    then show ?thesis using Some[unfolded strchr_Some_iff] None q
      by (auto simp: pend_of_def pend_pt_def hd_drop_conv_nth dest: in_set_takeD in_set_dropD)
  next
    case s: None
    then have "CHR '';'' \<notin> set s" by (simp add: strchr_None_iff)
    then show ?thesis using None q s by (simp add: pend_of_def pend_pt_def)
  qed
qed

lemma pend_pt_tail_ok: "pend_pt a b \<Longrightarrow> tail_ok b"
  by (auto simp: pend_pt_def tail_ok_def)

lemma pend_pt_subset: "pend_pt a b \<Longrightarrow> set a' \<subseteq> set a \<union> {CHR ''/''} \<Longrightarrow> pend_pt a' b"
  by (auto simp: pend_pt_def)

lemma slash_loop_map: "slash_loop s = map (\<lambda>c. if c = CHR 0x5C then CHR ''/'' else c) s"
  by (induction s) auto

definition path_mid :: "cstr \<Rightarrow> cstr" where
  \<comment> \<open>the hierarchical part of a path, after its first slash, with slashes for backslashes\<close>
  "path_mid path = drop 1 (slash_loop (take (pend_of path) path))"

definition path_tail :: "cstr \<Rightarrow> cstr" where
  \<comment> \<open>the parameters and query of a path\<close>
  "path_tail path = drop (pend_of path) path"

lemma path_parts:
  assumes "path = CHR ''/'' # p"
  shows "replace_slash path = (CHR ''/'' # path_mid path) @ path_tail path"
    and "pend_pt (CHR ''/'' # path_mid path) (path_tail path)"
    and "CHR 0x5C \<notin> set (path_mid path)"
    and "length path = Suc (length (path_mid path)) + length (path_tail path)"
    and "tail_ok (path_tail path)"
proof -
  let ?n = "pend_of path"
  have sp: "pend_pt (take ?n path) (path_tail path)" "?n \<le> length path"
    using pend_of_split[of path] by (auto simp: path_tail_def)
  have "?n \<noteq> 0"
  proof
    assume n: "?n = 0"
    have "path_tail path = path" unfolding path_tail_def n by simp
    with sp(1) assms show False by (simp add: pend_pt_def)
  qed
  then have m: "slash_loop (take ?n path) = CHR ''/'' # path_mid path"
    using assms by (cases ?n) (auto simp: path_mid_def slash_loop_map)
  show "replace_slash path = (CHR ''/'' # path_mid path) @ path_tail path"
    by (simp add: replace_slash_def Let_def m path_tail_def)
  have "set (CHR ''/'' # path_mid path) \<subseteq> set (take ?n path) \<union> {CHR ''/''}"
    unfolding m[symmetric] slash_loop_map by auto
  with sp(1) show "pend_pt (CHR ''/'' # path_mid path) (path_tail path)" by (rule pend_pt_subset)
  show "CHR 0x5C \<notin> set (path_mid path)"
    by (auto simp: path_mid_def slash_loop_map dest!: in_set_dropD)
  have "length (slash_loop (take ?n path)) = ?n" using sp(2) by (simp add: slash_loop_map)
  then show "length path = Suc (length (path_mid path)) + length (path_tail path)"
    using sp(2) unfolding m by (simp add: path_tail_def)
  show "tail_ok (path_tail path)" by (rule pend_pt_tail_ok[OF sp(1)])
qed

lemma normalize_path_body_loop:
  assumes "path = CHR ''/'' # p"
  shows "normalize_path_body path = rev (norm_loop (path_tail path) ''/'' (path_mid path)) @ path_tail path"
  using pend_of_pt[OF path_parts(2)[OF assms]]
  by (simp add: normalize_path_body_def Let_def path_parts(1)[OF assms])

lemma normalize_path_body_resolve:
  assumes "path = CHR ''/'' # p"
  shows "normalize_path_body path = root_text (resolve [] (split_slash (path_mid path))) @ path_tail path"
  using norm_loop_resolve[OF _ path_parts(5)[OF assms], of "[]" "path_mid path"]
  by (simp add: normalize_path_body_loop[OF assms] root_text_def)

lemma length_q_up: "length (q_up out) \<le> length out" and set_q_up: "set (q_up out) \<subseteq> set out"
proof -
  have "length (dropWhile P (tl out)) \<le> length out" for P :: "char \<Rightarrow> bool"
    using length_dropWhile_le[of P "tl out"] by (simp add: order_trans)
  then show "length (q_up out) \<le> length out" by (simp add: q_up_def)
  show "set (q_up out) \<subseteq> set out"
    by (auto simp: q_up_def dest!: set_dropWhileD dest: list.set_sel(2)) (metis list.sel(2) list.set_sel(2))
qed

lemma norm_loop_step:
  "\<exists>out' m'. norm_loop tail out (c # m) = norm_loop tail out' m' \<and> length m' \<le> length m
     \<and> length out' + length m' \<le> length out + Suc (length m)
     \<and> set out' \<subseteq> insert c (set out) \<and> set m' \<subseteq> set m"
  (is "\<exists>out' m'. _ = _ \<and> ?Q out' m'")
proof -
  let ?up = "if length out = 1 then out else q_up out"
  have up: "length ?up \<le> length out" "set ?up \<subseteq> set out" using length_q_up set_q_up by simp_all
  have d: "set (drop k m) \<subseteq> set m" for k by (rule set_drop_subset)
  have 1: "\<exists>o' m'. norm_loop tail (c # out) m = norm_loop tail o' m' \<and> ?Q o' m'" by (rule_tac exI[of _ "c # out"], rule_tac exI[of _ m]) (auto simp del: One_nat_def)
  have 2: "\<exists>o' m'. norm_loop tail out (drop 2 (c # m)) = norm_loop tail o' m' \<and> ?Q o' m'"
    using d[of "Suc 0"] by (rule_tac exI[of _ out], rule_tac exI[of _ "drop 2 (c # m)"]) (auto simp del: One_nat_def)
  have 3: "\<exists>o' m'. norm_loop tail ?up (drop 3 (c # m)) = norm_loop tail o' m' \<and> ?Q o' m'"
    using d[of 2] up by (rule_tac exI[of _ ?up], rule_tac exI[of _ "drop 3 (c # m)"]) (auto simp del: One_nat_def)
  have 4: "\<exists>o' m'. norm_loop tail out m = norm_loop tail o' m' \<and> ?Q o' m'" by (rule_tac exI[of _ out], rule_tac exI[of _ m]) (auto simp del: One_nat_def)
  have 5: "\<exists>o' m'. norm_loop tail ?up (drop 2 (c # m)) = norm_loop tail o' m' \<and> ?Q o' m'"
    using d[of "Suc 0"] up by (rule_tac exI[of _ ?up], rule_tac exI[of _ "drop 2 (c # m)"]) (auto simp del: One_nat_def)
  show ?thesis
    unfolding norm_loop.simps Let_def by (simp only: 1 2 3 4 5 split: if_split) simp
qed

lemma norm_loop_bound:
  "length (norm_loop tail out m) \<le> length out + length m \<and> set (norm_loop tail out m) \<subseteq> set out \<union> set m"
proof (induction "length m" arbitrary: out m rule: less_induct)
  case less
  show ?case
  proof (cases m)
    case (Cons c m1)
    obtain out' m' where st: "norm_loop tail out (c # m1) = norm_loop tail out' m'" "length m' \<le> length m1"
      "length out' + length m' \<le> length out + Suc (length m1)"
      "set out' \<subseteq> insert c (set out)" "set m' \<subseteq> set m1"
      using norm_loop_step[of tail out c m1] by blast
    have "length m' < length m" using st(2) Cons by simp
    from less[OF this, of out'] have
      IH: "length (norm_loop tail out' m') \<le> length out' + length m'" "set (norm_loop tail out' m') \<subseteq> set out' \<union> set m'"
      by auto
    have "set (norm_loop tail out' m') \<subseteq> set out \<union> set m" using IH(2) st(4,5) Cons by auto
    moreover have "length (norm_loop tail out' m') \<le> length out + length m" using IH(1) st(3) Cons by simp
    ultimately show ?thesis by (simp only: Cons st(1))
  qed simp
qed

lemmas length_norm_loop = norm_loop_bound[THEN conjunct1]
lemmas set_norm_loop = norm_loop_bound[THEN conjunct2]

section \<open>Resolved paths\<close>

definition kept :: "cstr list \<Rightarrow> bool" where
  \<comment> \<open>a resolved stack: directories, under a last piece that may be a file\<close>
  "kept st \<longleftrightarrow> (\<forall>d \<in> set st. dir_piece d) \<or> (st \<noteq> [] \<and> piece (hd st) \<and> (\<forall>d \<in> set (tl st). dir_piece d))"

lemma resolve_kept:
  "(\<forall>d \<in> set st. dir_piece d) \<Longrightarrow> (\<forall>s \<in> set ss. CHR ''/'' \<notin> set s) \<Longrightarrow> kept (resolve st ss)"
proof (induction st ss rule: resolve.induct)
  case (2 st s)
  then show ?case by (cases st) (auto simp: kept_def piece_def)
next
  case (3 st s t ss)
  have tl: "\<forall>d \<in> set (tl st). dir_piece d" using 3(4) by (cases st) auto
  consider "s = [] \<or> s = ''.''" | "s = ''..''" | "piece s" using 3(5) by (auto simp: piece_def)
  then show ?case
  proof cases
    case 3
    then have "dir_piece (s @ ''/'')" by (auto simp: dir_piece_def)
    with 3 "3.IH"(3) "3.prems" show ?thesis by (auto simp: piece_def)
  qed (use "3.IH"(1,2) "3.prems" tl in auto)
qed (simp add: kept_def)

lemma split_slash_no_slash: "\<forall>s \<in> set (split_slash m). CHR ''/'' \<notin> set s"
proof (induction m)
  case (Cons c m)
  then show ?case by (cases "split_slash m") auto
qed simp

lemma split_slash_dirs:
  "\<forall>d \<in> set ds. dir_piece d \<Longrightarrow> split_slash (concat ds @ x) = map butlast ds @ split_slash x"
proof (induction ds)
  case (Cons d ds)
  then obtain s where "d = s @ ''/''" "CHR ''/'' \<notin> set s" by (auto simp: dir_piece_def piece_def)
  then show ?case using Cons by (simp add: split_slash_append butlast_append)
qed simp

lemma resolve_dirs:
  "\<forall>d \<in> set ds. dir_piece d \<Longrightarrow> resolve st (map butlast ds @ split_slash x) = resolve (rev ds @ st) (split_slash x)"
proof (induction ds arbitrary: st)
  case (Cons d ds)
  then obtain s where s: "d = s @ ''/''" "piece s" by (auto simp: dir_piece_def)
  have "resolve st (s # map butlast ds @ split_slash x) = resolve ((s @ ''/'') # st) (map butlast ds @ split_slash x)"
    using s(2) by (subst resolve_Cons) (auto simp: piece_def)
  then show ?case using Cons by (simp add: s butlast_append)
qed simp

lemma kept_cases:
  assumes "kept st"
  obtains x ds where "st = (if x = [] then rev ds else x # rev ds)" "x = [] \<or> piece x" "\<forall>d \<in> set ds. dir_piece d"
proof (cases "\<forall>d \<in> set st. dir_piece d")
  case True
  then show ?thesis by (intro that[of "[]" "rev st"]) auto
next
  case False
  then obtain x st' where "st = x # st'" "piece x" "\<forall>d \<in> set st'. dir_piece d"
    using assms by (cases st) (auto simp: kept_def)
  then show ?thesis by (intro that[of x "rev st'"]) (auto simp: piece_def)
qed

lemma resolve_fixed:
  assumes "kept st"
  shows "resolve [] (split_slash (concat (rev st))) = st"
    and "\<forall>s \<in> set (butlast (split_slash (concat (rev st)))). piece s"
    and "last (split_slash (concat (rev st))) = [] \<or> piece (last (split_slash (concat (rev st))))"
proof -
  obtain x ds where st: "st = (if x = [] then rev ds else x # rev ds)" "x = [] \<or> piece x" "\<forall>d \<in> set ds. dir_piece d"
    using kept_cases[OF assms] .
  have c: "concat (rev st) = concat ds @ x" using st(1) by simp
  have x: "split_slash x = [x]" using st(2) by (auto simp: piece_def split_slash_no)
  have sp: "split_slash (concat (rev st)) = map butlast ds @ [x]"
    unfolding c using split_slash_dirs[OF st(3), of x] x by simp
  show "resolve [] (split_slash (concat (rev st))) = st"
    using resolve_dirs[OF st(3), of "[]" x] st(1,2) x unfolding sp by (auto simp: piece_def)
  show "\<forall>s \<in> set (butlast (split_slash (concat (rev st)))). piece s"
    using st(3) unfolding sp by (auto simp: dir_piece_def butlast_append)
  show "last (split_slash (concat (rev st))) = [] \<or> piece (last (split_slash (concat (rev st))))"
    using st(2) unfolding sp by simp
qed

lemma normalize_path_body_form:
  assumes "path = CHR ''/'' # p"
  obtains st where "kept st" "normalize_path_body path = (CHR ''/'' # concat (rev st)) @ path_tail path"
    "pend_pt (CHR ''/'' # concat (rev st)) (path_tail path)"
    "length (concat (rev st)) \<le> length (path_mid path)" "CHR 0x5C \<notin> set (concat (rev st))"
proof -
  let ?st = "resolve [] (split_slash (path_mid path))"
  have k: "kept ?st" using resolve_kept[of "[]" "split_slash (path_mid path)"] split_slash_no_slash by simp
  have l: "norm_loop (path_tail path) ''/'' (path_mid path) = rev (root_text ?st)"
    using norm_loop_resolve[OF _ path_parts(5)[OF assms], of "[]" "path_mid path"] by (simp add: root_text_def)
  have b: "normalize_path_body path = (CHR ''/'' # concat (rev ?st)) @ path_tail path"
    using normalize_path_body_resolve[OF assms] by (simp add: root_text_def)
  have len: "length (concat (rev ?st)) \<le> length (path_mid path)"
    using length_norm_loop[of "path_tail path" "''/''" "path_mid path"] unfolding l by (simp add: root_text_def)
  have st: "set (CHR ''/'' # concat (rev ?st)) \<subseteq> set (CHR ''/'' # path_mid path)"
    using set_norm_loop[of "path_tail path" "''/''" "path_mid path"] unfolding l by (simp add: root_text_def)
  have "pend_pt (CHR ''/'' # concat (rev ?st)) (path_tail path)"
    by (rule pend_pt_subset[OF path_parts(2)[OF assms]]) (use st in auto)
  moreover have "CHR 0x5C \<notin> set (concat (rev ?st))" using st path_parts(3)[OF assms] by auto
  ultimately show ?thesis by (rule that[OF k b _ len])
qed

lemma path_of_parts:
  assumes "pend_pt (CHR ''/'' # m) t" "CHR 0x5C \<notin> set m"
  shows "path_mid ((CHR ''/'' # m) @ t) = m" "path_tail ((CHR ''/'' # m) @ t) = t"
proof -
  have n: "pend_of ((CHR ''/'' # m) @ t) = Suc (length m)" using pend_of_pt[OF assms(1)] by simp
  show "path_tail ((CHR ''/'' # m) @ t) = t" unfolding path_tail_def n by simp
  have "slash_loop m = m" using assms(2) by (induction m) auto
  then show "path_mid ((CHR ''/'' # m) @ t) = m" unfolding path_mid_def n by simp
qed

section \<open>Properties\<close>

lemma ul_normalize_path_ex2_Some:
  assumes "ul_normalize_path_ex2 path = Some buf"
  obtains p where "path = CHR ''/'' # p" "length path < UL_MAX_URL_LEN_EX2" "buf = normalize_path_body path"
  using assms by (cases path) (auto simp: ul_normalize_path_ex2_def split: if_splits)

text \<open>C4: \<open>ul_normalize_path_ex2\<close> implements the resolution of segments: the part before the query or
  the parameters, with backslashes read as slashes, is cut at the slashes, the empty and dot segments are
  dropped, every double dot drops the segment before it, and the rest of the path is left alone.\<close>

theorem normalize_path_ex2_resolves:
  assumes "hd path = CHR ''/''" "path \<noteq> []" "length path < UL_MAX_URL_LEN_EX2"
  shows "ul_normalize_path_ex2 path =
    Some (CHR ''/'' # concat (rev (resolve [] (split_slash (path_mid path)))) @ path_tail path)"
proof -
  from assms obtain p where p: "path = CHR ''/'' # p" by (cases path) auto
  show ?thesis
    using assms normalize_path_body_resolve[OF p]
    by (simp add: ul_normalize_path_ex2_def root_text_def)
qed

theorem normalize_path_ex2_resolves_witness:
  "ul_normalize_path_ex2 ''/a/./b//../c/..?x=/../y'' = Some ''/a/?x=/../y''"
proof -
  have m: "path_mid ''/a/./b//../c/..?x=/../y'' = ''a/./b//../c/..''"
    "path_tail ''/a/./b//../c/..?x=/../y'' = ''?x=/../y''" by code_simp+
  have r: "resolve [] (split_slash ''a/./b//../c/..'') = [''a/'']" by code_simp
  have l: "length ''/a/./b//../c/..?x=/../y'' < UL_MAX_URL_LEN_EX2" by code_simp
  show ?thesis using normalize_path_ex2_resolves[OF _ _ l] unfolding m r by simp
qed

text \<open>The result of \<open>ul_normalize_path_ex2\<close> is no longer than its input, its hierarchical part has
  no backslash, no empty segment but the last and no dot segment, and its query is that of the input.\<close>

theorem normalize_path_ex2_clean:
  assumes "ul_normalize_path_ex2 path = Some buf"
  shows "length buf \<le> length path \<and> path_tail buf = path_tail path
    \<and> (\<forall>s \<in> set (butlast (split_slash (path_mid buf))). s \<notin> {[], ''.'', ''..''})
    \<and> last (split_slash (path_mid buf)) \<notin> {''.'', ''..''}
    \<and> buf = CHR ''/'' # path_mid buf @ path_tail buf \<and> CHR 0x5C \<notin> set (path_mid buf)"
proof -
  from assms obtain p where p: "path = CHR ''/'' # p" "buf = normalize_path_body path"
    by (rule ul_normalize_path_ex2_Some)
  obtain st where st: "kept st" "normalize_path_body path = (CHR ''/'' # concat (rev st)) @ path_tail path"
    "pend_pt (CHR ''/'' # concat (rev st)) (path_tail path)"
    "length (concat (rev st)) \<le> length (path_mid path)" "CHR 0x5C \<notin> set (concat (rev st))"
    using normalize_path_body_form[OF p(1)] .
  have m: "path_mid buf = concat (rev st)" "path_tail buf = path_tail path"
    using path_of_parts[OF st(3,5)] by (simp_all add: p(2) st(2))
  have "\<forall>s \<in> set (butlast (split_slash (path_mid buf))). s \<notin> {[], ''.'', ''..''}"
    using resolve_fixed(2)[OF st(1)] unfolding m piece_def by blast
  moreover have "last (split_slash (path_mid buf)) \<notin> {''.'', ''..''}"
    using resolve_fixed(3)[OF st(1)] unfolding m piece_def by auto
  moreover have "buf = CHR ''/'' # path_mid buf @ path_tail buf" using m p(2) st(2) by simp
  moreover have "length buf \<le> length path"
    unfolding p(2) st(2) path_parts(4)[OF p(1)] using st(4) by simp
  ultimately show ?thesis using m st(5) by simp
qed

theorem normalize_path_ex2_clean_witness:
  "ul_normalize_path_ex2 ''/a/../b/'' = Some ''/b/'' \<and> path_tail ''/b/'' = path_tail ''/a/../b/''"
proof -
  have e: "ul_normalize_path_ex2 ''/a/../b/'' = Some ''/b/''" by code_simp
  show ?thesis using normalize_path_ex2_clean[OF e] e by simp
qed

text \<open>\<open>ul_normalize_path_ex2\<close> is idempotent.\<close>

theorem normalize_path_ex2_idem:
  assumes "ul_normalize_path_ex2 path = Some buf"
  shows "ul_normalize_path_ex2 buf = Some buf"
proof -
  from assms obtain p where p: "path = CHR ''/'' # p" "length path < UL_MAX_URL_LEN_EX2" "buf = normalize_path_body path"
    by (rule ul_normalize_path_ex2_Some)
  obtain st where st: "kept st" "normalize_path_body path = (CHR ''/'' # concat (rev st)) @ path_tail path"
    "pend_pt (CHR ''/'' # concat (rev st)) (path_tail path)"
    "length (concat (rev st)) \<le> length (path_mid path)" "CHR 0x5C \<notin> set (concat (rev st))"
    using normalize_path_body_form[OF p(1)] .
  have b: "buf = CHR ''/'' # concat (rev st) @ path_tail path" by (simp add: p(3) st(2))
  have m: "path_mid buf = concat (rev st)" "path_tail buf = path_tail path"
    using path_of_parts[OF st(3,5)] by (simp_all add: b)
  have "normalize_path_body buf = buf"
    using normalize_path_body_resolve[OF b] unfolding m resolve_fixed(1)[OF st(1)] by (simp add: root_text_def b)
  moreover have "length buf < UL_MAX_URL_LEN_EX2"
    using p(2) st(4) path_parts(4)[OF p(1)] by (simp add: b)
  ultimately show ?thesis by (simp add: ul_normalize_path_ex2_def b)
qed

theorem normalize_path_ex2_idem_witness:
  "ul_normalize_path_ex2 ''/a/../b/.'' = Some ''/b/'' \<and> ul_normalize_path_ex2 ''/b/'' = Some ''/b/''"
proof -
  have e: "ul_normalize_path_ex2 ''/a/../b/.'' = Some ''/b/''" by code_simp
  show ?thesis using normalize_path_ex2_idem[OF e] e by simp
qed

lemma vhplink_test:
  assumes "\<not> sublist ''http://'' (map tolower (rev pre @ p))"
  shows "\<not> (6 \<le> length pre \<and> strncasecmp_eq (rev (take 6 pre) @ p) ''http://'' 7)"
proof
  assume a: "6 \<le> length pre \<and> strncasecmp_eq (rev (take 6 pre) @ p) ''http://'' 7"
  have h: "map tolower ''http://'' = ''http://''" by code_simp
  have "map tolower (take 7 (rev (take 6 pre) @ p)) = ''http://''"
    using a h by (simp add: strncasecmp_eq_def min_def split: if_splits)
  moreover have "rev pre @ p = rev (drop 6 pre) @ take 7 (rev (take 6 pre) @ p) @ drop 7 (rev (take 6 pre) @ p)"
    by (metis append.assoc append_take_drop_id rev_append)
  ultimately have "map tolower (rev pre @ p) =
      map tolower (rev (drop 6 pre)) @ ''http://'' @ map tolower (drop 7 (rev (take 6 pre) @ p))"
    by (metis map_append)
  with assms show False by (metis sublist_appendI)
qed

lemma norm_loop_vhplink_same:
  assumes "\<not> sublist ''http://'' (map tolower (rev pre @ m @ tail))"
  shows "norm_loop_vhplink tail 1 pre out m = norm_loop tail out m"
  using assms
proof (induction "length m" arbitrary: pre out m rule: less_induct)
  case less
  show ?case
  proof (cases m)
    case (Cons c m1)
    have IH: "norm_loop_vhplink tail 1 (rev (take k m) @ pre) o' (drop k m) = norm_loop tail o' (drop k m)"
      if "0 < k" for k o'
    proof (rule less.hyps)
      show "length (drop k m) < length m" using that Cons by simp
      show "\<not> sublist ''http://'' (map tolower (rev (rev (take k m) @ pre) @ drop k m @ tail))"
        using less.prems by (metis append.assoc append_take_drop_id rev_append rev_rev_ident)
    qed
    have 1: "norm_loop_vhplink tail 1 (c # pre) o' m1 = norm_loop tail o' m1" for o'
      using IH[of 1 o'] by (simp add: Cons)
    have t: "\<not> (6 \<le> length pre \<and> strncasecmp_eq (rev (take 6 pre) @ c # m1 @ tail) ''http://'' 7)"
      using less.prems by (intro vhplink_test) (simp add: Cons)
    show ?thesis
      unfolding Cons norm_loop.simps norm_loop_vhplink.simps Let_def
      by (simp only: 1 IH[of 2, unfolded Cons, simplified] IH[of 3, unfolded Cons, simplified] t if_False)
        (simp add: 1 IH[of 2, unfolded Cons, simplified] IH[of 3, unfolded Cons, simplified])
  qed simp
qed

text \<open>On a path that has no \<^verbatim>\<open>http://\<close> in it, whatever its case, \<open>ul_normalize_path_vhplink\<close> does what
  \<open>ul_normalize_path\<close> does.\<close>

theorem normalize_path_vhplink_same:
  assumes "\<not> sublist ''http://'' (map tolower (replace_slash path))"
  shows "ul_normalize_path_vhplink path = ul_normalize_path path"
proof (cases "path = [] \<or> hd path \<noteq> CHR ''/''")
  case True
  then show ?thesis by (auto simp: ul_normalize_path_vhplink_def ul_normalize_path_def)
next
  case False
  then obtain p where p: "path = CHR ''/'' # p" by (cases path) auto
  have n: "pend_of (replace_slash path) = Suc (length (path_mid path))"
    using pend_of_pt[OF path_parts(2)[OF p]] by (simp add: path_parts(1)[OF p])
  have "norm_loop_vhplink (path_tail path) 1 ''/'' ''/'' (path_mid path) = norm_loop (path_tail path) ''/'' (path_mid path)"
    using assms by (intro norm_loop_vhplink_same) (simp add: path_parts(1)[OF p])
  then show ?thesis
    using n by (simp add: ul_normalize_path_vhplink_def ul_normalize_path_def Let_def path_parts(1)[OF p]
        normalize_path_body_loop[OF p])
qed

theorem normalize_path_vhplink_same_witness:
  "ul_normalize_path_vhplink ''/a//b'' = ul_normalize_path ''/a//b''
   \<and> ul_normalize_path_vhplink ''/http://b'' \<noteq> ul_normalize_path ''/http://b''"
proof -
  have "\<not> sublist ''http://'' (map tolower (replace_slash ''/a//b''))" by code_simp
  then have "ul_normalize_path_vhplink ''/a//b'' = ul_normalize_path ''/a//b''" by (rule normalize_path_vhplink_same)
  moreover have "ul_normalize_path_vhplink ''/http://b'' \<noteq> ul_normalize_path ''/http://b''" by code_simp
  ultimately show ?thesis ..
qed

end
