(* ===== verification/Url_Check.thy ===== *)
theory Url_Check
  imports Url_Site
begin

text \<open>
  Checking whole URLs: the \<open>ul_check_url\<close> family, which lower-cases the host, drops the default port and
  escapes spaces in place, and the \<open>ul_isnormalized_url\<close> family, which recognises normalised URLs; both of
  \<^verbatim>\<open>ullib/src/ul_url.cpp\<close>.
\<close>

section \<open>\<open>ul_check_url\<close>\<close>

fun copy_run :: "table \<Rightarrow> cstr \<Rightarrow> cstr \<Rightarrow> cstr \<Rightarrow> bool \<Rightarrow> cstr \<times> cstr \<times> cstr \<times> bool" where
  \<comment> \<open>\<open>while(T[*pin]) space_flag|=((*pout++=*pin++)==' ');\<close>\<close>
  "copy_run t out gap [] sp = (out, gap, [], sp)"
| "copy_run t out gap (c # s) sp =
     (if tab t c then copy_run t (c # out) (tl (gap @ [c])) s (sp \<or> c = CHR '' '') else (out, gap, c # s, sp))"

lemma copy_run_shrinks: "copy_run t out gap s sp = (out', gap', rest', sp') \<Longrightarrow> length rest' \<le> length s"
  by (induction t out gap s sp rule: copy_run.induct) (fastforce split: if_splits)+

function copy_groups :: "char \<Rightarrow> table \<Rightarrow> cstr \<Rightarrow> cstr \<Rightarrow> cstr \<Rightarrow> bool \<Rightarrow> cstr \<times> cstr \<times> cstr \<times> bool" where
  \<comment> \<open>\<open>while(*pin == sep) { *pout++=*pin++; while(T[*pin]) ... }\<close>\<close>
  "copy_groups sep t out gap [] sp = (out, gap, [], sp)"
| "copy_groups sep t out gap (c # s) sp =
     (if c = sep then
        (case copy_run t (c # out) (tl (gap @ [c])) s sp of
           (out', gap', rest', sp') \<Rightarrow> copy_groups sep t out' gap' rest' sp')
      else (out, gap, c # s, sp))"
  by pat_completeness auto
termination
  by (relation "measure (\<lambda>(sep, t, out, gap, rest, sp). length rest)")
    (auto simp: less_Suc_eq_le dest: copy_run_shrinks sym [THEN copy_run_shrinks] split: prod.splits)

definition copy_path :: "cstr \<Rightarrow> cstr \<Rightarrow> cstr \<Rightarrow> cstr \<times> cstr \<times> cstr \<times> bool" where
  \<comment> \<open>"check abs_path" at a slash, up to the query\<close>
  "copy_path out gap rest =
     (let (out1, gap1, rest1, sp1) = copy_run UL_URL_PCHAR (hd rest # out) (tl (gap @ [hd rest])) (tl rest) False;
          (out2, gap2, rest2, sp2) = copy_groups CHR ''/'' UL_URL_PCHAR out1 gap1 rest1 sp1;
          (out3, gap3, rest3, sp3) = copy_groups CHR '';'' UL_URL_PARAM out2 gap2 rest2 sp2
      in copy_groups CHR ''?'' UL_URL_UCH_RES out3 gap3 rest3 sp3)"

fun digit_loop :: "cstr \<Rightarrow> cstr \<Rightarrow> (cstr \<times> cstr) option" where
  \<comment> \<open>\<open>while(UL_URL_DIGIT[*pin]) { port[k++] = *pin++; if(k>5) return 0; }\<close>, \<open>acc\<close> is \<open>port\<close> reversed\<close>
  "digit_loop acc [] = Some (rev acc, [])"
| "digit_loop acc (c # s) =
     (if tab UL_URL_DIGIT c then (if 5 < Suc (length acc) then None else digit_loop (c # acc) s)
      else Some (rev acc, c # s))"

definition check_port :: "bool \<Rightarrow> cstr \<Rightarrow> cstr \<Rightarrow> cstr \<Rightarrow> cstr \<Rightarrow> bool \<times> cstr \<times> cstr \<times> cstr" where
  \<comment> \<open>"check port": \<open>False\<close> is \<open>return 0\<close>. \<open>always\<close> tells the functions that copy the port before they compare
      it with the default one from those that copy it after. The regions of the \<open>memcpy\<close> may overlap, with
      the destination first; the bytes are taken as copied in order. \<open>follow\<close> holds what may come instead
      of a port\<close>
  "check_port always out gap rest follow =
     (case rest of
        c # s \<Rightarrow>
          (if c = CHR '':'' then
             (if s \<noteq> [] \<and> hd s = CHR ''/'' then (True, out, gap @ [c], s)
              else case digit_loop [] s of
                None \<Rightarrow> (False, out, gap, rest)
              | Some (port, r) \<Rightarrow>
                  if r = [] \<or> hd r \<noteq> CHR ''/'' then (False, out, gap, rest)
                  else let region = gap @ c # port; k1 = Suc (length port) in
                    if port \<noteq> ''80'' then (True, rev (c # port) @ out, drop k1 region, r)
                    else (True, out, if always then (c # port) @ drop k1 region else region, r))
           else if c \<in> set follow then (True, out, gap, rest)
           else (False, out, gap, rest))
      | [] \<Rightarrow> (True, out, gap, rest))"

definition split_scheme :: "cstr \<Rightarrow> cstr \<times> cstr" where
  \<comment> \<open>the text before \<open>url_start\<close> and the text from it on\<close>
  "split_scheme url = (if strncasecmp_eq url ''http://'' 7 then (take 7 url, drop 7 url) else ([], url))"

definition check_end :: "(cstr \<Rightarrow> int \<times> cstr) \<Rightarrow> int \<Rightarrow> cstr \<Rightarrow> cstr \<times> cstr \<times> cstr \<times> bool \<Rightarrow> int \<times> cstr" where
  \<comment> \<open>\<open>if(*pin != 0) return 0; *pout = 0; if (pout-url > len) return 0;\<close> and the escape of spaces\<close>
  "check_end escape len pre st =
     (case st of (out, gap, rest, space_flag) \<Rightarrow>
        if rest \<noteq> [] then (0, pre @ rev out @ gap @ rest)
        else if len < int (length pre + length out) then (0, pre @ rev out)
        else if space_flag then escape (pre @ rev out) else (1, pre @ rev out))"

definition check_url_body :: "bool \<Rightarrow> (cstr \<Rightarrow> int \<times> cstr) \<Rightarrow> cstr \<Rightarrow> int \<times> cstr" where
  \<comment> \<open>the body shared by the three functions; \<open>ex\<close> tells the two later ones, which also write the
      terminator at \<open>pout\<close> when there is no path, from the first\<close>
  "check_url_body ex escape url =
     (let (len, url') = ul_delete_inter (Some url); (pre, pin) = split_scheme (the url') in
      case host_scan UL_URL_LET_DIGIT pin of (ok, out, gap, rest) \<Rightarrow>
        if \<not> ok then (0, pre @ rev out @ gap @ rest)
        else case check_port ex out gap rest ''/'' of (ok', out', gap', rest') \<Rightarrow>
          if \<not> ok' then (0, pre @ rev out' @ gap' @ rest')
          else if rest' \<noteq> [] then check_end escape len pre (copy_path out' gap' rest')
          else (1, if ex then pre @ rev out' else pre @ rev out' @ gap'))"

definition ul_check_url :: "cstr \<Rightarrow> int \<times> cstr" where
  "ul_check_url =
     check_url_body False (\<lambda>u. ul_space_escape u (int UL_MAX_URL_LEN) (int UL_MAX_SITE_LEN) (int UL_MAX_PATH_LEN))"

definition check_URL :: "cstr \<Rightarrow> int \<times> cstr" where
  "check_URL url = ul_check_url url"

definition ul_check_url_ex :: "cstr \<Rightarrow> int \<times> cstr" where
  "ul_check_url_ex =
     check_url_body True
       (\<lambda>u. ul_space_escape u (int UL_MAX_URL_LEN_EX) (int UL_MAX_SITE_LEN_EX) (int UL_MAX_PATH_LEN_EX))"

definition ul_check_url_ex2 :: "cstr \<Rightarrow> int \<times> cstr" where
  "ul_check_url_ex2 =
     check_url_body True
       (\<lambda>u. ul_space_escape_ex2 u (int UL_MAX_URL_LEN_EX2) (int UL_MAX_SITE_LEN_EX2) (int UL_MAX_PATH_LEN_EX2))"

definition copy_frag :: "cstr \<times> cstr \<times> cstr \<times> bool \<Rightarrow> cstr \<times> cstr \<times> cstr \<times> bool" where
  \<comment> \<open>"# fragment"\<close>
  "copy_frag st = (case st of (out, gap, rest, sp) \<Rightarrow> copy_groups CHR ''#'' UL_URL_UCH_RES out gap rest sp)"

definition ul_check_url_vhplink_modify_url :: "cstr \<Rightarrow> int \<times> cstr" where
  "ul_check_url_vhplink_modify_url url =
     (let (len, url') = ul_delete_inter (Some url); (pre, pin) = split_scheme (the url');
          escape = (\<lambda>u. ul_space_escape u (int UL_MAX_URL_LEN) (int UL_MAX_SITE_LEN) (int UL_MAX_PATH_LEN)) in
      case host_scan UL_URL_LET_DIGIT pin of (ok, out, gap, rest) \<Rightarrow>
        if \<not> ok then (0, pre @ rev out @ gap @ rest)
        else case check_port False out gap rest ''/?#'' of (ok', out', gap', rest') \<Rightarrow>
          if \<not> ok' then (0, pre @ rev out' @ gap' @ rest')
          else if rest' = [] then (1, pre @ rev out' @ gap')
          else if hd rest' = CHR ''/'' then check_end escape len pre (copy_frag (copy_path out' gap' rest'))
          else check_end escape len pre (copy_frag (copy_groups CHR ''?'' UL_URL_UCH_RES out' gap' rest' False)))"

definition ul_check_url_vhplink :: "cstr \<Rightarrow> int option" where
  \<comment> \<open>\<open>None\<close>: the URL does not fit the local copy\<close>
  "ul_check_url_vhplink url =
     (if UL_MAX_URL_LEN \<le> length url then None else Some (fst (ul_check_url_vhplink_modify_url url)))"

section \<open>\<open>ul_isnormalized_url\<close>\<close>

fun isn_label :: "cstr \<Rightarrow> cstr \<Rightarrow> (cstr \<times> cstr) option" where
  \<comment> \<open>the loop over one label: \<open>None\<close> is \<open>return 0\<close> on an upper-case letter; \<open>prev\<close> is the text before \<open>pin\<close>, reversed\<close>
  "isn_label prev [] = Some (prev, [])"
| "isn_label prev (c # s) =
     (if tab UL_URL_LET_DIG_HY c then (if tab UL_URL_UP_LET c then None else isn_label (c # prev) s)
      else Some (prev, c # s))"

lemma isn_label_shrinks: "isn_label prev s = Some (p, r) \<Longrightarrow> length r \<le> length s"
  by (induction prev s rule: isn_label.induct) (auto split: if_splits)

function isn_dots :: "nat \<Rightarrow> cstr \<Rightarrow> cstr \<Rightarrow> (nat \<times> cstr) option" where
  \<comment> \<open>\<open>while(*pin == '.')\<close>: \<open>dotcount\<close> and the text at \<open>pin\<close>\<close>
  "isn_dots n prev [] = Some (n, [])"
| "isn_dots n prev (c # s) =
     (if c = CHR ''.'' then
        (case isn_label (c # prev) s of
           None \<Rightarrow> None
         | Some (p, r) \<Rightarrow> if tab UL_URL_LET_DIGIT (hd p) then isn_dots (Suc n) p r else None)
      else Some (n, c # s))"
  by pat_completeness auto
termination
  by (relation "measure (\<lambda>(n, prev, s). length s)") (auto simp: less_Suc_eq_le dest: isn_label_shrinks)

definition isn_port :: "cstr \<Rightarrow> cstr option" where
  \<comment> \<open>"check port": the text at \<open>pin\<close> after it, \<open>None\<close> is \<open>return 0\<close>\<close>
  "isn_port rest =
     (case rest of
        c # s \<Rightarrow>
          (if c = CHR '':'' then
             (if s \<noteq> [] \<and> hd s = CHR ''/'' then None
              else case digit_loop [] s of
                None \<Rightarrow> None
              | Some (port, r) \<Rightarrow>
                  if r = [] \<or> hd r \<noteq> CHR ''/'' then None
                  else let uport = atoi port mod 2 ^ 32 in
                    if uport \<le> 0 \<or> 65535 < uport \<or> uport = 80 then None else Some r)
           else if c = CHR ''/'' then Some rest else None)
      | [] \<Rightarrow> None)"

function skip_groups :: "char \<Rightarrow> table \<Rightarrow> cstr \<Rightarrow> cstr" where
  \<comment> \<open>\<open>while(*pin == sep) { pin++; while(T[*pin]) pin++; }\<close>\<close>
  "skip_groups sep t [] = []"
| "skip_groups sep t (c # s) = (if c = sep then skip_groups sep t (dropWhile (tab t) s) else c # s)"
  by pat_completeness auto
termination
  by (relation "measure (\<lambda>(sep, t, s). length s)") (auto simp: less_Suc_eq_le length_dropWhile_le)

definition isn_path :: "cstr \<Rightarrow> cstr" where
  \<comment> \<open>"check abs_path" at a slash: the text at \<open>pin\<close> when it is over\<close>
  "isn_path rest =
     (let r1 = dropWhile (tab UL_URL_PCHAR) (tl rest);
          r2 = skip_groups CHR ''/'' UL_URL_PCHAR r1;
          r3 = skip_groups CHR '';'' UL_URL_PARAM r2
      in skip_groups CHR ''?'' UL_URL_UCH_RES r3)"

definition isnormalized_body :: "nat \<Rightarrow> cstr \<Rightarrow> int option" where
  \<comment> \<open>\<open>None\<close>: the byte before the URL is read\<close>
  "isnormalized_body max_len url =
     (if strncasecmp_eq url ''http://'' 7 then Some 0
      else case isn_label [] url of
        None \<Rightarrow> Some 0
      | Some (p, r) \<Rightarrow>
          if p = [] then None
          else if \<not> tab UL_URL_LET_DIGIT (hd p) then Some 0
          else (case isn_dots 0 p r of
                  None \<Rightarrow> Some 0
                | Some (dotcount, r') \<Rightarrow>
                    if dotcount = 0 then Some 0
                    else (case isn_port r' of
                            None \<Rightarrow> Some 0
                          | Some r'' \<Rightarrow>
                              if isn_path r'' \<noteq> [] then Some 0
                              else if max_len \<le> length url then Some 0
                              else Some 1)))"

definition ul_isnormalized_url :: "cstr \<Rightarrow> int option" where
  "ul_isnormalized_url url = isnormalized_body UL_MAX_URL_LEN url"

definition ul_isnormalized_url_ex :: "cstr \<Rightarrow> int option" where
  "ul_isnormalized_url_ex url = isnormalized_body UL_MAX_URL_LEN_EX url"

definition ul_isnormalized_url_ex2 :: "cstr \<Rightarrow> int option" where
  "ul_isnormalized_url_ex2 url = isnormalized_body UL_MAX_URL_LEN_EX2 url"

section \<open>The language of normalised URLs\<close>

lemma dropWhile_urlch_append: "\<forall>c \<in> set a. urlch c \<Longrightarrow> dropWhile urlch (a @ b) = dropWhile urlch b"
  by (rule dropWhile_append2) auto

lemma dropWhile_sub: "\<forall>c. tab t c \<longrightarrow> urlch c \<Longrightarrow> dropWhile urlch (dropWhile (tab t) s) = dropWhile urlch s"
  by (induction s) auto

lemma stops_dropWhile: "stops P (dropWhile P s)"
  by (induction s) auto

lemma skip_groups_drop:
  assumes "\<forall>c. tab t c \<longrightarrow> urlch c" "urlch sep"
  shows "dropWhile urlch (skip_groups sep t s) = dropWhile urlch s"
    and "stops (\<lambda>c. c = sep) (skip_groups sep t s)"
    and "stops (tab t) s \<Longrightarrow> stops (tab t) (skip_groups sep t s)"
proof -
  have "dropWhile urlch (skip_groups sep t s) = dropWhile urlch s \<and> stops (\<lambda>c. c = sep) (skip_groups sep t s)
    \<and> (stops (tab t) s \<longrightarrow> stops (tab t) (skip_groups sep t s))"
    using assms
  proof (induction sep t s rule: skip_groups.induct)
    case (2 sep t c s)
    then show ?case using stops_dropWhile[of "tab t" s] by (auto simp: dropWhile_sub)
  qed simp
  then show "dropWhile urlch (skip_groups sep t s) = dropWhile urlch s"
    and "stops (\<lambda>c. c = sep) (skip_groups sep t s)"
    and "stops (tab t) s \<Longrightarrow> stops (tab t) (skip_groups sep t s)" by auto
qed

lemma isn_tabs_urlch: "\<forall>c. tab UL_URL_PCHAR c \<longrightarrow> urlch c" "\<forall>c. tab UL_URL_PARAM c \<longrightarrow> urlch c"
  "\<forall>c. tab UL_URL_UCH_RES c \<longrightarrow> urlch c"
  by (simp_all add: table_specs urlch_def)

lemma isn_path_eq: "isn_path (CHR ''/'' # x) = dropWhile urlch x"
proof -
  define r1 where "r1 = dropWhile (tab UL_URL_PCHAR) x"
  define r2 where "r2 = skip_groups CHR ''/'' UL_URL_PCHAR r1"
  define r3 where "r3 = skip_groups CHR '';'' UL_URL_PARAM r2"
  define r4 where "r4 = skip_groups CHR ''?'' UL_URL_UCH_RES r3"
  have d: "dropWhile urlch r4 = dropWhile urlch x"
    using skip_groups_drop(1)[OF isn_tabs_urlch(3), of "CHR ''?''" r3]
      skip_groups_drop(1)[OF isn_tabs_urlch(2), of "CHR '';''" r2]
      skip_groups_drop(1)[OF isn_tabs_urlch(1), of "CHR ''/''" r1] dropWhile_sub[OF isn_tabs_urlch(1), of x]
    unfolding r1_def r2_def r3_def r4_def by simp
  have s1: "stops (tab UL_URL_PCHAR) r1" unfolding r1_def by (rule stops_dropWhile)
  have s2: "stops (tab UL_URL_PCHAR) r2" "stops (\<lambda>c. c = CHR ''/'') r2"
    using skip_groups_drop(2,3)[OF isn_tabs_urlch(1), of "CHR ''/''" r1] s1 unfolding r2_def by auto
  have "stops (tab UL_URL_PARAM) r2" using s2 by (cases r2) (auto simp: table_specs)
  then have s3: "stops (tab UL_URL_PARAM) r3" "stops (\<lambda>c. c = CHR '';'') r3"
    using skip_groups_drop(2,3)[OF isn_tabs_urlch(2), of "CHR '';''" r2] unfolding r3_def by auto
  have "stops urlch r4"
  proof (cases "stops (\<lambda>c. c = CHR ''?'') r3")
    case True
    then have "r4 = r3" unfolding r4_def by (cases r3) auto
    then show ?thesis using s3 True by (cases r3) (auto simp: table_specs urlch_def)
  next
    case False
    then obtain r where r: "r3 = CHR ''?'' # r" by (cases r3) auto
    have "stops (tab UL_URL_UCH_RES) (dropWhile (tab UL_URL_UCH_RES) r)" by (rule stops_dropWhile)
    then have "stops (tab UL_URL_UCH_RES) r4"
      unfolding r4_def r using skip_groups_drop(3)[OF isn_tabs_urlch(3), of "CHR ''?''"] by simp
    then show ?thesis by (cases r4) (auto simp: table_specs urlch_def)
  qed
  then have "dropWhile urlch r4 = r4" by (cases r4) auto
  then show ?thesis using d unfolding isn_path_def Let_def list.sel r1_def r2_def r3_def r4_def by simp
qed

lemma isn_label_form:
  assumes "isn_label prev s = Some (p, r)"
  obtains l where "s = l @ r" "p = rev l @ prev" "\<forall>c \<in> set l. low_host c" "stops is_hostch r"
proof -
  have "\<exists>l. s = l @ r \<and> p = rev l @ prev \<and> (\<forall>c \<in> set l. low_host c) \<and> stops is_hostch r"
    using assms
  proof (induction prev s rule: isn_label.induct)
    case (2 prev c s)
    show ?case
    proof (cases "is_hostch c")
      case True
      with 2 obtain l where "s = l @ r" "p = rev l @ c # prev" "\<forall>c \<in> set l. low_host c" "stops is_hostch r"
        by (auto simp: table_specs split: if_splits)
      moreover have "low_host c" using 2(2) True by (auto simp: table_specs low_host_def split: if_splits)
      ultimately show ?thesis by (intro exI[of _ "c # l"]) auto
    qed (use 2 in \<open>auto simp: table_specs\<close>)
  qed simp
  then show ?thesis using that by blast
qed

lemma isn_label_low: "\<forall>c \<in> set l. low_host c \<Longrightarrow> stops is_hostch r \<Longrightarrow> isn_label prev (l @ r) = Some (rev l @ prev, r)"
proof (induction l arbitrary: prev)
  case Nil
  then show ?case by (cases r) (auto simp: table_specs)
qed (simp add: table_specs low_host_def)

abbreviation "host_end \<equiv> stops (\<lambda>c. is_hostch c \<or> c = CHR ''.'')"

lemma isn_dots_form:
  assumes "isn_dots n prev s = Some (n', r)" "stops is_hostch s"
  obtains ls where "s = dotted ls @ r" "\<forall>x \<in> set ls. label_ok UL_URL_LET_DIGIT x" "n' = n + length ls" "host_end r"
proof -
  have "\<exists>ls. s = dotted ls @ r \<and> (\<forall>x \<in> set ls. label_ok UL_URL_LET_DIGIT x) \<and> n' = n + length ls \<and> host_end r"
    using assms
  proof (induction n prev s rule: isn_dots.induct)
    case (2 n prev c s)
    show ?case
    proof (cases "c = CHR ''.''")
      case True
      obtain p r1 where lab: "isn_label (c # prev) s = Some (p, r1)" and e: "tab UL_URL_LET_DIGIT (hd p)"
        and rec: "isn_dots (Suc n) p r1 = Some (n', r)"
        using 2(2) True by (auto split: option.splits if_splits)
      obtain l where l: "s = l @ r1" "p = rev l @ c # prev" "\<forall>c \<in> set l. low_host c" "stops is_hostch r1"
        using isn_label_form[OF lab] .
      have "l \<noteq> []" using e l(2) True dot_not_host(1) by auto
      then have "label_ok UL_URL_LET_DIGIT l" using l e by (simp add: label_ok_def hd_append hd_rev)
      moreover obtain ls where "r1 = dotted ls @ r" "\<forall>x \<in> set ls. label_ok UL_URL_LET_DIGIT x" "n' = Suc n + length ls" "host_end r"
        using 2(1)[OF True lab refl e rec l(4)] by blast
      ultimately show ?thesis using l True by (intro exI[of _ "l # ls"]) auto
    qed (use 2 in \<open>auto simp: stops_def\<close>)
  qed simp
  then show ?thesis using that by blast
qed

lemma isn_dots_dotted:
  "\<forall>x \<in> set ls. label_ok UL_URL_LET_DIGIT x \<Longrightarrow> host_end r \<Longrightarrow> isn_dots n prev (dotted ls @ r) = Some (n + length ls, r)"
proof (induction ls arbitrary: n prev)
  case Nil
  then show ?case by (cases r) auto
next
  case (Cons x ls)
  have "stops is_hostch (dotted ls @ r)" using Cons.prems(2) by (cases ls; cases r) (auto simp: char_class_defs)
  then have "isn_label (CHR ''.'' # prev) (x @ dotted ls @ r) = Some (rev x @ CHR ''.'' # prev, dotted ls @ r)"
    using Cons.prems(1) by (intro isn_label_low) (auto simp: label_ok_def)
  then show ?case using Cons label_ok_hd[of _ x] by simp
qed

definition port_text :: "cstr \<Rightarrow> bool" where
  \<comment> \<open>no port, or a colon and at most five digits of a port number other than the default\<close>
  "port_text t \<longleftrightarrow> t = [] \<or> (\<exists>d. t = CHR '':'' # d \<and> (\<forall>c \<in> set d. isdigit c) \<and> length d \<le> 5
      \<and> 0 < digits_val 0 d \<and> digits_val 0 d \<le> 65535 \<and> digits_val 0 d \<noteq> 80)"

definition normal_url :: "cstr \<Rightarrow> bool" where
  \<comment> \<open>site, port and a path without control characters and fragment\<close>
  "normal_url url \<longleftrightarrow> (\<exists>s t x. url = s @ t @ CHR ''/'' # x \<and> site_form UL_URL_LET_DIGIT s \<and> port_text t
      \<and> (\<forall>c \<in> set x. urlch c))"

lemma digit_loop_eq:
  "digit_loop acc s = (if takeWhile isdigit s = [] \<or> length acc + length (takeWhile isdigit s) \<le> 5
     then Some (rev acc @ takeWhile isdigit s, dropWhile isdigit s) else None)"
proof (induction acc s rule: digit_loop.induct)
  case (2 acc c s)
  show ?case
  proof (cases "isdigit c")
    case True
    then show ?thesis using 2 by (cases "takeWhile isdigit s") (auto simp: table_specs)
  qed (simp add: table_specs)
qed simp

lemma digits_value:
  assumes "\<forall>c \<in> set d. isdigit c" "length d \<le> 5"
  shows "atoi d mod 2 ^ 32 = int (digits_val 0 d)"
proof -
  have "digits_val 0 d < 10 ^ length d" using digits_val_bound[of 0 d] by simp
  also have "(10::nat) ^ length d \<le> 10 ^ 5" using assms(2) by (intro power_increasing) auto
  finally show ?thesis using atoi_digits[of d] assms by simp
qed

lemma digits_split: "\<forall>c \<in> set d. isdigit c \<Longrightarrow> takeWhile isdigit (d @ CHR ''/'' # x) = d \<and> dropWhile isdigit (d @ CHR ''/'' # x) = CHR ''/'' # x"
  by (induction d) (auto simp: isdigit_def)

lemma guards_Some:
  "(if a then None else if \<not> b then None else if c then None else if d then None else Some x) = Some y \<Longrightarrow>
     b \<and> \<not> c \<and> \<not> d \<and> x = y"
  by (auto split: if_splits)

lemma isn_port_Some:
  assumes "isn_port r = Some r'"
  obtains t x where "r = t @ r'" "port_text t" "r' = CHR ''/'' # x"
proof (cases r)
  case (Cons c s)
  show ?thesis
  proof (cases "c = CHR '':''")
    case True
    let ?d = "takeWhile isdigit s"
    define u where "u = atoi ?d mod 2 ^ 32"
    have "isn_port r = (if s \<noteq> [] \<and> hd s = CHR ''/'' then None
        else if \<not> (?d = [] \<or> length ?d \<le> 5) then None
        else if dropWhile isdigit s = [] \<or> hd (dropWhile isdigit s) \<noteq> CHR ''/'' then None
        else if u \<le> 0 \<or> 65535 < u \<or> u = 80 then None else Some (dropWhile isdigit s))"
      unfolding isn_port_def Cons True u_def digit_loop_eq Let_def by simp
    note g = guards_Some[OF trans[OF this[symmetric] assms]]
    note ok1 = g[THEN conjunct1] and ok2 = g[THEN conjunct2, THEN conjunct2, THEN conjunct2]
    have ok: "r' \<noteq> []" "hd r' = CHR ''/''" using g[THEN conjunct2, THEN conjunct1] unfolding ok2 by blast+
    have u: "0 < u" "u \<le> 65535" "u \<noteq> 80" using g[THEN conjunct2, THEN conjunct2, THEN conjunct1] by linarith+
    have dg: "\<forall>c \<in> set ?d. isdigit c" by (meson set_takeWhileD)
    have "length ?d \<le> 5" using ok1 by (elim disjE) (simp_all only: list.size)
    from digits_value[OF dg this, folded u_def] u have "port_text (c # ?d)"
      using dg \<open>length ?d \<le> 5\<close> True unfolding port_text_def by auto
    moreover have e: "r = (c # ?d) @ r'" using Cons ok2 by (metis append_Cons takeWhile_dropWhile_id)
    moreover have "r' = CHR ''/'' # tl r'" using ok by (cases r') auto
    ultimately show ?thesis by (intro that[OF e])
  next
    case False
    then have "c = CHR ''/''" "r' = r" using assms Cons by (auto simp: isn_port_def split: if_splits)
    then show ?thesis using Cons by (intro that[of "[]" s]) (auto simp: port_text_def)
  qed
qed (use assms in \<open>simp add: isn_port_def\<close>)

lemma isn_port_text:
  assumes "port_text t"
  shows "isn_port (t @ CHR ''/'' # x) = Some (CHR ''/'' # x)"
proof (cases "t = []")
  case True
  then show ?thesis by (simp add: isn_port_def)
next
  case False
  then obtain d where d: "t = CHR '':'' # d" "\<forall>c \<in> set d. isdigit c" "length d \<le> 5"
    "0 < digits_val 0 d" "digits_val 0 d \<le> 65535" "digits_val 0 d \<noteq> 80" using assms by (auto simp: port_text_def)
  then obtain c d' where "d = c # d'" by (cases d) auto
  then have "hd (d @ CHR ''/'' # x) \<noteq> CHR ''/''" using d(2) by (auto simp: isdigit_def)
  then show ?thesis using d digits_split[OF d(2), of x] digits_value[OF d(2,3)]
    by (simp add: isn_port_def digit_loop_eq)
qed

lemma low_host_tolower: "low_host c \<Longrightarrow> tolower c \<noteq> CHR '':''"
  by (auto simp: low_host_def tolower_def is_upper_def char_class_defs)

lemma not_http:
  assumes "site_form t s"
  shows "\<not> strncasecmp_eq (s @ r) ''http://'' 7"
proof
  assume "strncasecmp_eq (s @ r) ''http://'' 7"
  moreover have "map tolower ''http://'' = ''http://''" by code_simp
  ultimately have h: "map tolower (take 7 (s @ r)) = ''http://''" by (simp add: strncasecmp_eq_def)
  obtain l ls where s: "s = l @ dotted ls" "ls \<noteq> []" "\<forall>c \<in> set l. low_host c"
    using assms by (auto simp: site_form_def label_ok_def)
  then obtain y where y: "s @ r = l @ CHR ''.'' # y" by (cases ls) auto
  show False
  proof (cases "length l < 7")
    case True
    then have "CHR ''.'' \<in> set (take 7 (s @ r))" unfolding y by (simp add: take_Cons')
    then have "tolower CHR ''.'' \<in> set (map tolower (take 7 (s @ r)))" by (metis image_eqI set_map)
    then show False unfolding h by (simp add: tolower_def)
  next
    case False
    then have "take 7 (s @ r) = take 7 l" unfolding y by simp
    with h have "map tolower (take 7 l) = ''http://''" by (simp only:)
    then have "CHR '':'' \<in> set (map tolower (take 7 l))" by (simp only:) simp
    then obtain c where "c \<in> set l" "tolower c = CHR '':''" by (auto dest: in_set_takeD)
    with s(3) low_host_tolower show False by blast
  qed
qed

lemma host_end_port: "port_text t \<Longrightarrow> host_end (t @ CHR ''/'' # x)"
  by (auto simp: port_text_def char_class_defs)

lemma isnormalized_body_normal:
  assumes "normal_url url"
  shows "isnormalized_body max_len url = Some (if max_len \<le> length url then 0 else 1)"
proof -
  obtain s t x where u: "url = s @ t @ CHR ''/'' # x" "site_form UL_URL_LET_DIGIT s" "port_text t" "\<forall>c \<in> set x. urlch c"
    using assms by (auto simp: normal_url_def)
  obtain l ls where s: "s = l @ dotted ls" "ls \<noteq> []" "label_ok UL_URL_LET_DIGIT l" "\<forall>x \<in> set ls. label_ok UL_URL_LET_DIGIT x"
    using u(2) by (auto simp: site_form_def)
  let ?r = "t @ CHR ''/'' # x"
  have "stops is_hostch (dotted ls @ ?r)" using s(2) by (cases ls) (auto simp: char_class_defs)
  then have 1: "isn_label [] url = Some (rev l, dotted ls @ ?r)"
    using s(3) isn_label_low[of l "dotted ls @ ?r" "[]"] by (simp add: u(1) s(1) label_ok_def)
  have 2: "rev l \<noteq> []" "tab UL_URL_LET_DIGIT (hd (rev l))" using s(3) by (auto simp: label_ok_def hd_rev)
  have 3: "isn_dots 0 (rev l) (dotted ls @ ?r) = Some (length ls, ?r)"
    using isn_dots_dotted[OF s(4) host_end_port[OF u(3)], of 0] by simp
  have 4: "isn_path (CHR ''/'' # x) = []" using u(4) by (simp add: isn_path_eq dropWhile_eq_Nil_conv)
  show ?thesis
    unfolding isnormalized_body_def using 1 2 3 4 s(2) isn_port_text[OF u(3), of x] not_http[OF u(2), of ?r]
    by (simp add: u(1)[symmetric])
qed

lemma isnormalized_body_1:
  assumes "isnormalized_body max_len url = Some 1"
  shows "normal_url url \<and> length url < max_len"
proof -
  obtain p r where 1: "isn_label [] url = Some (p, r)" "p \<noteq> []" "tab UL_URL_LET_DIGIT (hd p)"
    using assms by (auto simp: isnormalized_body_def split: if_splits option.splits)
  obtain n r1 where 2: "isn_dots 0 p r = Some (n, r1)" "n \<noteq> 0"
    using assms 1 by (auto simp: isnormalized_body_def split: if_splits option.splits)
  obtain r2 where 3: "isn_port r1 = Some r2" "isn_path r2 = []" "length url < max_len"
    using assms 1 2 by (auto simp: isnormalized_body_def split: if_splits option.splits)
  obtain l where l: "url = l @ r" "p = rev l @ []" "\<forall>c \<in> set l. low_host c" "stops is_hostch r"
    using isn_label_form[OF 1(1)] .
  obtain ls where ls: "r = dotted ls @ r1" "\<forall>x \<in> set ls. label_ok UL_URL_LET_DIGIT x" "n = 0 + length ls"
    using isn_dots_form[OF 2(1) l(4)] .
  obtain t x where t: "r1 = t @ r2" "port_text t" "r2 = CHR ''/'' # x" using isn_port_Some[OF 3(1)] .
  have "label_ok UL_URL_LET_DIGIT l" using l 1 by (auto simp: label_ok_def hd_rev)
  then have "site_form UL_URL_LET_DIGIT (l @ dotted ls)" using ls 2(2) by (auto simp: site_form_def)
  moreover have "\<forall>c \<in> set x. urlch c" using 3(2) t(3) by (simp add: isn_path_eq dropWhile_eq_Nil_conv)
  moreover have "url = (l @ dotted ls) @ t @ CHR ''/'' # x" using l(1) ls(1) t by simp
  ultimately show ?thesis using t(2) 3(3) unfolding normal_url_def by blast
qed

section \<open>Properties\<close>

text \<open>C3: \<open>ul_isnormalized_url_ex2\<close> accepts exactly the URLs below the length limit that consist of a
  lower-case site of two or more labels, no port or a number other than 80 in range, and a path that starts
  with a slash and has no control character and no fragment; no scheme.\<close>

theorem isnormalized_url_ex2_language:
  "ul_isnormalized_url_ex2 url = Some 1 \<longleftrightarrow> normal_url url \<and> length url < UL_MAX_URL_LEN_EX2"
  using isnormalized_body_1[of UL_MAX_URL_LEN_EX2 url] isnormalized_body_normal[of url UL_MAX_URL_LEN_EX2]
  by (auto simp: ul_isnormalized_url_ex2_def)

section \<open>What \<open>ul_check_url\<close> leaves in the buffer\<close>

lemma copy_run_eq:
  "\<exists>gap'. copy_run t out gap s sp =
      (rev (takeWhile (tab t) s) @ out, gap', dropWhile (tab t) s, sp \<or> CHR '' '' \<in> set (takeWhile (tab t) s))
     \<and> length (takeWhile (tab t) s) + length gap' + length (dropWhile (tab t) s) = length gap + length s"
proof (induction t out gap s sp rule: copy_run.induct)
  case (2 t out gap c s sp)
  show ?case
  proof (cases "tab t c")
    case True
    with 2 obtain gap' where "copy_run t (c # out) (tl (gap @ [c])) s (sp \<or> c = CHR '' '') =
      (rev (takeWhile (tab t) s) @ c # out, gap', dropWhile (tab t) s,
       (sp \<or> c = CHR '' '') \<or> CHR '' '' \<in> set (takeWhile (tab t) s))"
      "length (takeWhile (tab t) s) + length gap' + length (dropWhile (tab t) s) = length (tl (gap @ [c])) + length s"
      by blast
    then show ?thesis using True by auto
  qed simp
qed simp

definition copied :: "cstr \<Rightarrow> cstr \<Rightarrow> cstr \<Rightarrow> bool \<Rightarrow> cstr \<Rightarrow> cstr \<times> cstr \<times> cstr \<times> bool \<Rightarrow> bool" where
  \<comment> \<open>the state after copying \<open>y\<close> from the front of \<open>y @ r\<close>\<close>
  "copied out gap y sp r st \<longleftrightarrow> (\<exists>gap'. st = (rev y @ out, gap', r, sp \<or> CHR '' '' \<in> set y) \<and> length gap' = length gap)"

lemma copied_trans:
  "copied out gap y sp r (out1, gap1, r, sp1) \<Longrightarrow> copied out1 gap1 z sp1 r' st \<Longrightarrow> copied out gap (y @ z) sp r' st"
  by (auto simp: copied_def)

lemma copy_run_copied:
  "copied out gap (takeWhile (tab t) s) sp (dropWhile (tab t) s) (copy_run t out gap s sp)"
proof -
  have "length (takeWhile (tab t) s) + length (dropWhile (tab t) s) = length s"
    by (metis length_append takeWhile_dropWhile_id)
  then show ?thesis using copy_run_eq[of t out gap s sp] by (auto simp: copied_def)
qed

lemma copy_groups_copied:
  assumes "sep \<noteq> CHR '' ''"
  shows "\<exists>y. copied out gap y sp (skip_groups sep t s) (copy_groups sep t out gap s sp) \<and> s = y @ skip_groups sep t s"
  using assms
proof (induction sep t out gap s sp rule: copy_groups.induct)
  case (2 sep t out gap c s sp)
  show ?case
  proof (cases "c = sep")
    case True
    obtain out1 gap1 r1 sp1 where run: "copy_run t (c # out) (tl (gap @ [c])) s sp = (out1, gap1, r1, sp1)" by (rule prod_cases4)
    have c1: "copied (c # out) (tl (gap @ [c])) (takeWhile (tab t) s) sp (dropWhile (tab t) s) (out1, gap1, r1, sp1)"
      using copy_run_copied[of "c # out" "tl (gap @ [c])" t s sp] unfolding run .
    then have r1: "r1 = dropWhile (tab t) s" by (simp add: copied_def)
    obtain y where y: "copied out1 gap1 y sp1 (skip_groups sep t r1) (copy_groups sep t out1 gap1 r1 sp1)"
      "r1 = y @ skip_groups sep t r1"
      using 2(1)[OF True run[symmetric] refl refl 2(2)] by blast
    have "copied (c # out) (tl (gap @ [c])) (takeWhile (tab t) s @ y) sp (skip_groups sep t r1) (copy_groups sep t out1 gap1 r1 sp1)"
      using copied_trans[OF c1[unfolded r1[symmetric]] y(1)] .
    then have "copied out gap (c # takeWhile (tab t) s @ y) sp (skip_groups sep t r1) (copy_groups sep t out1 gap1 r1 sp1)"
      using True 2(2) by (auto simp: copied_def)
    moreover have "s = takeWhile (tab t) s @ y @ skip_groups sep t r1"
      using y(2) r1 by (metis takeWhile_dropWhile_id)
    ultimately show ?thesis using True run r1 by (intro exI[of _ "c # takeWhile (tab t) s @ y"]) simp
  qed (simp add: copied_def)
qed (simp add: copied_def)

lemma copy_path_copied:
  "copied out gap (CHR ''/'' # takeWhile urlch x) False (dropWhile urlch x) (copy_path out gap (CHR ''/'' # x))"
proof -
  let ?t1 = "takeWhile (tab UL_URL_PCHAR) x" and ?r1 = "dropWhile (tab UL_URL_PCHAR) x"
  let ?r2 = "skip_groups CHR ''/'' UL_URL_PCHAR ?r1"
  let ?r3 = "skip_groups CHR '';'' UL_URL_PARAM ?r2"
  let ?r4 = "skip_groups CHR ''?'' UL_URL_UCH_RES ?r3"
  obtain o1 g1 r1 s1 where 1: "copy_run UL_URL_PCHAR (CHR ''/'' # out) (tl (gap @ ''/'')) x False = (o1, g1, r1, s1)" by (rule prod_cases4)
  have c1: "copied (CHR ''/'' # out) (tl (gap @ ''/'')) ?t1 False ?r1 (o1, g1, r1, s1)"
    using copy_run_copied[of "CHR ''/'' # out" "tl (gap @ ''/'')" UL_URL_PCHAR x False] unfolding 1 .
  then have r1: "r1 = ?r1" by (simp add: copied_def)
  obtain o2 g2 r2 s2 where 2: "copy_groups CHR ''/'' UL_URL_PCHAR o1 g1 r1 s1 = (o2, g2, r2, s2)" by (rule prod_cases4)
  obtain y2 where y2: "copied o1 g1 y2 s1 ?r2 (o2, g2, r2, s2)" "?r1 = y2 @ ?r2"
    using copy_groups_copied[of "CHR ''/''" o1 g1 s1 UL_URL_PCHAR ?r1] 2 r1 by auto
  then have r2: "r2 = ?r2" by (simp add: copied_def)
  obtain o3 g3 r3 s3 where 3: "copy_groups CHR '';'' UL_URL_PARAM o2 g2 r2 s2 = (o3, g3, r3, s3)" by (rule prod_cases4)
  obtain y3 where y3: "copied o2 g2 y3 s2 ?r3 (o3, g3, r3, s3)" "?r2 = y3 @ ?r3"
    using copy_groups_copied[of "CHR '';''" o2 g2 s2 UL_URL_PARAM ?r2] 3 r2 by auto
  then have r3: "r3 = ?r3" by (simp add: copied_def)
  obtain y4 where y4: "copied o3 g3 y4 s3 ?r4 (copy_groups CHR ''?'' UL_URL_UCH_RES o3 g3 r3 s3)" "?r3 = y4 @ ?r4"
    using copy_groups_copied[of "CHR ''?''" o3 g3 s3 UL_URL_UCH_RES ?r3] r3 by auto
  have e: "?r4 = dropWhile urlch x" using isn_path_eq[of x] by (simp add: isn_path_def)
  have c: "copied (CHR ''/'' # out) (tl (gap @ ''/'')) (((?t1 @ y2) @ y3) @ y4) False ?r4 (copy_groups CHR ''?'' UL_URL_UCH_RES o3 g3 r3 s3)"
    using copied_trans[OF copied_trans[OF copied_trans[OF c1[unfolded r1] y2(1)[unfolded r2]] y3(1)[unfolded r3]] y4(1)]
      r1 r2 r3 by simp
  have "x = (((?t1 @ y2) @ y3) @ y4) @ ?r4"
    using y2(2) y3(2) y4(2) by (metis append.assoc takeWhile_dropWhile_id)
  then have "((?t1 @ y2) @ y3) @ y4 = takeWhile urlch x" unfolding e by (metis append_same_eq takeWhile_dropWhile_id)
  from c[unfolded this e] have "copied (CHR ''/'' # out) (tl (gap @ ''/'')) (takeWhile urlch x) False (dropWhile urlch x)
      (copy_path out gap (CHR ''/'' # x))"
    by (simp add: copy_path_def 1 2 3)
  then show ?thesis by (auto simp: copied_def)
qed

definition kept_port :: "cstr \<Rightarrow> bool" where
  \<comment> \<open>what \<open>ul_check_url\<close> keeps of a port: at most five digits, other than \<^verbatim>\<open>80\<close>\<close>
  "kept_port t \<longleftrightarrow> t = [] \<or> (\<exists>d. t = CHR '':'' # d \<and> d \<noteq> [] \<and> d \<noteq> ''80'' \<and> (\<forall>c \<in> set d. isdigit c) \<and> length d \<le> 5)"

lemma check_port_form:
  assumes "check_port True out gap rest ''/'' = (True, out', gap', rest')"
  obtains t where "out' = rev t @ out" "kept_port t" "rest' = [] \<or> hd rest' = CHR ''/''" "t \<noteq> [] \<Longrightarrow> rest' \<noteq> []"
    "length t + length gap' + length rest' = length gap + length rest"
proof (cases rest)
  case Nil
  then show ?thesis using assms by (intro that[of "[]"]) (auto simp: check_port_def kept_port_def)
next
  case (Cons c s)
  consider (bare) "c = CHR '':''" "s \<noteq> [] \<and> hd s = CHR ''/''" | (port) "c = CHR '':''" "\<not> (s \<noteq> [] \<and> hd s = CHR ''/'')"
    | (slash) "c = CHR ''/''" | (other) "c \<noteq> CHR '':''" "c \<noteq> CHR ''/''" by blast
  then show ?thesis
  proof cases
    case bare
    then show ?thesis using assms Cons by (intro that[of "[]"]) (auto simp: check_port_def kept_port_def)
  next
    case slash
    then show ?thesis using assms Cons by (intro that[of "[]"]) (auto simp: check_port_def kept_port_def)
  next
    case other
    then show ?thesis using assms Cons by (simp add: check_port_def)
  next
    case port
    define d r where "d = takeWhile isdigit s" and "r = dropWhile isdigit s"
    have sdr: "s = d @ r" by (simp add: d_def r_def)
    have eq: "digit_loop [] s = (if d = [] \<or> length d \<le> 5 then Some (d, r) else None)"
      by (simp only: digit_loop_eq d_def r_def list.size add_0 append_Nil rev.simps)
    have dl: "d = [] \<or> length d \<le> 5"
    proof (rule ccontr)
      assume "\<not> ?thesis"
      then have "digit_loop [] s = None" unfolding eq by simp
      then show False using assms Cons port by (simp add: check_port_def)
    qed
    then have l: "digit_loop [] s = Some (d, r)" unfolding eq by simp
    have rr: "r \<noteq> []" "hd r = CHR ''/''"
      using assms Cons port l by (auto simp: check_port_def Let_def split: if_splits)
    have dn: "d \<noteq> []"
    proof
      assume "d = []"
      then have "r = s" using sdr by simp
      with rr port(2) show False by simp
    qed
    have dg: "\<forall>c \<in> set d. isdigit c" unfolding d_def by (meson set_takeWhileD)
    have d5: "length d \<le> 5" using dl dn by blast
    have ls: "length d + length r = length s" using sdr by simp
    show ?thesis
    proof (cases "d = ''80''")
      case True
      have "out' = out" "length gap' = length gap + Suc (length d)" "rest' = r"
        using assms port rr l unfolding Cons True check_port_def by (auto simp: Let_def)
      then show ?thesis using rr ls Cons by (intro that[of "[]"]) (simp_all add: kept_port_def)
    next
      case False
      have "out' = rev (c # d) @ out" "gap' = drop (Suc (length d)) (gap @ c # d)" "rest' = r"
        using assms port rr l False unfolding Cons check_port_def by (auto simp: Let_def)
      moreover have "kept_port (c # d)" using port(1) dn False dg d5 unfolding kept_port_def by blast
      ultimately show ?thesis using rr ls Cons
        by (intro that[of "c # d"]) (simp_all)
    qed
  qed
qed

definition scheme :: "cstr \<Rightarrow> bool" where
  "scheme pre \<longleftrightarrow> pre = [] \<or> map tolower pre = ''http://''"

definition checked_url :: "cstr \<Rightarrow> cstr \<Rightarrow> cstr \<Rightarrow> cstr \<Rightarrow> bool" where
  \<comment> \<open>the parts of a URL that \<open>ul_check_url\<close> has put in order: scheme, site, port and path\<close>
  "checked_url pre s t p \<longleftrightarrow> scheme pre \<and> site_form UL_URL_LET_DIGIT s \<and> kept_port t
     \<and> (p = [] \<and> t = [] \<or> (\<exists>x. p = CHR ''/'' # x \<and> (\<forall>c \<in> set x. urlch c \<and> c \<noteq> CHR '' '')))"

lemma split_scheme_pre:
  assumes "split_scheme u = (pre, pin)"
  shows "scheme pre" "u = pre @ pin"
proof -
  have h: "map tolower ''http://'' = ''http://''" by code_simp
  show "u = pre @ pin" using assms by (auto simp: split_scheme_def split: if_splits)
  show "scheme pre"
    using assms h by (auto simp: split_scheme_def scheme_def strncasecmp_eq_def split: if_splits)
qed

lemma scheme_chars:
  assumes "scheme pre" "c \<in> set pre"
  shows "c \<noteq> CHR '' ''" "c \<noteq> CHR 0x0D" "c \<noteq> CHR 0x0A"
proof -
  have "tolower c \<in> set ''http://''" using assms by (auto simp: scheme_def dest: arg_cong[of _ _ set])
  then show "c \<noteq> CHR '' ''" "c \<noteq> CHR 0x0D" "c \<noteq> CHR 0x0A" by (auto simp: tolower_def)
qed

lemma site_chars:
  assumes "site_form t s" "c \<in> set s"
  shows "c \<noteq> CHR '' ''" "c \<noteq> CHR 0x0D" "c \<noteq> CHR 0x0A"
proof -
  have "low_host c \<or> c = CHR ''.''" using site_form_hd(3)[OF assms(1)] assms(2) by blast
  then show "c \<noteq> CHR '' ''" "c \<noteq> CHR 0x0D" "c \<noteq> CHR 0x0A"
    by (auto simp: low_host_def char_class_defs)
qed

lemma port_chars:
  assumes "kept_port t" "c \<in> set t"
  shows "c \<noteq> CHR '' ''" "c \<noteq> CHR 0x0D" "c \<noteq> CHR 0x0A"
proof -
  have "c = CHR '':'' \<or> isdigit c" using assms by (auto simp: kept_port_def)
  then show "c \<noteq> CHR '' ''" "c \<noteq> CHR 0x0D" "c \<noteq> CHR 0x0A" by (auto simp: isdigit_def)
qed

lemma ul_space_escape_1:
  assumes "ul_space_escape u m n k = (1, buf)"
  shows "buf = space_escaped u" "u \<noteq> [] \<Longrightarrow> int (length buf) < m"
  using assms by (auto simp: ul_space_escape_def space_loop_eq split: if_splits option.splits)

lemma space_escaped_path: "\<forall>c \<in> set x. urlch c \<Longrightarrow> \<forall>c \<in> set (space_escaped x). urlch c \<and> c \<noteq> CHR '' ''"
  using space_escaped_urlch space_escaped_no_space by metis

lemma check_url_body_form:
  assumes "check_url_body True (\<lambda>u. ul_space_escape u m n k) url = (1, buf)"
  obtains pre s t p where "buf = pre @ s @ t @ p" "checked_url pre s t p"
    "int (length buf) \<le> max (int (length url)) (m - 1)"
proof -
  let ?u = "delete_inter url"
  obtain pre pin where sch: "split_scheme ?u = (pre, pin)" by (rule prod.exhaust)
  obtain ok out gap rest where host: "host_scan UL_URL_LET_DIGIT pin = (ok, out, gap, rest)" by (rule prod_cases4)
  obtain ok' out' gap' rest' where port: "check_port True out gap rest ''/'' = (ok', out', gap', rest')" by (rule prod_cases4)
  have ok: "ok" "ok'" and res: "(if rest' \<noteq> [] then check_end (\<lambda>u. ul_space_escape u m n k) (int (length ?u)) pre (copy_path out' gap' rest')
      else (1, pre @ rev out')) = (1, buf)"
    using assms unfolding check_url_body_def ul_delete_inter_Some Let_def prod.case option.sel sch host port
    by (auto simp del: delete_inter_eq split: if_splits)
  note pre = split_scheme_pre[OF sch]
  have h: "site_form UL_URL_LET_DIGIT (rev out)" "length out + length gap + length rest = length pin"
    using host_scan_form[of UL_URL_LET_DIGIT pin out gap rest] host ok dot_not_host(1) by auto
  obtain t where t: "out' = rev t @ out" "kept_port t" "rest' = [] \<or> hd rest' = CHR ''/''" "t \<noteq> [] \<Longrightarrow> rest' \<noteq> []"
    "length t + length gap' + length rest' = length gap + length rest"
    using check_port_form[of out gap rest out' gap' rest'] port ok by auto
  have lu: "length ?u \<le> length url" by (rule length_delete_inter)
  have lp: "length ?u = length pre + length pin" using pre(2) by (metis length_append)
  show ?thesis
  proof (cases rest')
    case Nil
    then have "buf = pre @ rev out @ t @ []" "t = []" using res t by auto
    then show ?thesis using pre h t lu lp by (intro that[of pre "rev out" t "[]"]) (auto simp: checked_url_def simp del: delete_inter_eq)
  next
    case (Cons c x)
    with t(3) have rest': "rest' = CHR ''/'' # x" by simp
    let ?y = "takeWhile urlch x"
    obtain gap2 where cp: "copy_path out' gap' (CHR ''/'' # x) = (rev (CHR ''/'' # ?y) @ out', gap2, dropWhile urlch x, CHR '' '' \<in> set (CHR ''/'' # ?y))"
      using copy_path_copied[of out' gap' x] unfolding copied_def by auto
    note res' = res[unfolded rest' cp check_end_def prod.case]
    have dn: "dropWhile urlch x = []"
    proof (rule ccontr)
      assume "dropWhile urlch x \<noteq> []"
      with res' show False by (simp only: if_True not_False_eq_True list.distinct prod.inject) simp
    qed
    have y: "?y = x" by (metis append_Nil2 dn takeWhile_dropWhile_id)
    have ux: "\<forall>c \<in> set x. urlch c" using dn by (simp add: dropWhile_eq_Nil_conv)
    let ?b = "pre @ rev out @ t @ CHR ''/'' # x"
    have r: "(if CHR '' '' \<in> set x then ul_space_escape ?b m n k else (1, ?b)) = (1, buf)"
      using res'[unfolded y dn t(1)] by (auto split: if_splits)
    have ns: "space_escaped pre = pre" "space_escaped (rev out) = rev out" "space_escaped t = t"
      using scheme_chars(1)[OF pre(1)] site_chars(1)[OF h(1)] port_chars(1)[OF t(2)] by (blast intro: space_escaped_id)+
    have b: "buf = pre @ rev out @ t @ CHR ''/'' # space_escaped x"
    proof (cases "CHR '' '' \<in> set x")
      case True
      then have "buf = space_escaped ?b" using r ul_space_escape_1(1)[of ?b m n k buf] by simp
      also have "\<dots> = pre @ rev out @ t @ CHR ''/'' # space_escaped x"
        by (simp only: space_escaped_simps ns) (simp add: esc_space_def)
      finally show ?thesis .
    next
      case False
      then show ?thesis using r space_escaped_id[OF False] by simp
    qed
    have "int (length buf) \<le> max (int (length url)) (m - 1)"
    proof (cases "CHR '' '' \<in> set x")
      case True
      then show ?thesis using r ul_space_escape_1(2)[of ?b m n k buf] by simp
    next
      case False
      then have "length buf = length pre + length out + length t + Suc (length x)" using r by auto
      moreover have "length t + length gap' + Suc (length x) = length gap + length rest" using t(5) rest' by simp
      ultimately have "length buf \<le> length url" using lu lp h(2) by linarith
      then show ?thesis by simp
    qed
    then show ?thesis using that[OF b] pre(1) h(1) t(2) space_escaped_path[OF ux] unfolding checked_url_def by blast
  qed
qed

lemma checked_url_fixed:
  assumes "checked_url pre s t p"
  shows "check_url_body True escape (pre @ s @ t @ p) = (1, pre @ s @ t @ p)"
proof -
  let ?b = "pre @ s @ t @ p"
  have a: "scheme pre" "site_form UL_URL_LET_DIGIT s" "kept_port t"
    and p: "p = [] \<and> t = [] \<or> (\<exists>x. p = CHR ''/'' # x \<and> (\<forall>c \<in> set x. urlch c \<and> c \<noteq> CHR '' ''))"
    using assms by (auto simp: checked_url_def)
  have "c \<noteq> CHR 0x0D \<and> c \<noteq> CHR 0x0A" if "c \<in> set p" for c
  proof -
    from p that obtain x where "c = CHR ''/'' \<or> c \<in> set x" "\<forall>c \<in> set x. urlch c" by (elim disjE) fastforce+
    then have "urlch c" by (elim disjE) simp_all
    then show ?thesis by (auto simp: urlch_def)
  qed
  then have d: "delete_inter ?b = ?b"
    using scheme_chars(2,3)[OF a(1)] site_chars(2,3)[OF a(2)] port_chars(2,3)[OF a(3)]
    unfolding delete_inter_eq set_append by (intro filter_True ballI) (unfold set_append Un_iff, blast)
  have sch: "split_scheme ?b = (pre, s @ t @ p)"
  proof (cases "pre = []")
    case True
    then show ?thesis using not_http[OF a(2), of "t @ p"] by (simp add: split_scheme_def)
  next
    case False
    then have h: "map tolower pre = ''http://''" using a(1) by (simp add: scheme_def)
    from h have "length (map tolower pre) = length ''http://''" by (simp only:)
    then have l: "length pre = 7" by simp
    have tk: "take 7 ?b = pre" "drop 7 ?b = s @ t @ p" using l by simp_all
    have "map tolower (take 7 ''http://'') = ''http://''" by code_simp
    then have "strncasecmp_eq ?b ''http://'' 7" by (simp only: strncasecmp_eq_def tk h)
    then show ?thesis by (simp only: split_scheme_def if_True tk)
  qed
  have "stops (\<lambda>c. is_hostch c \<or> c = CHR ''%'' \<or> c = CHR ''.'') (t @ p)"
  proof (cases "t = []")
    case True
    show ?thesis using p
    proof (elim disjE exE conjE)
      fix x
      assume "p = CHR ''/'' # x"
      then show ?thesis using True by (simp add: char_class_defs)
    qed (use True in simp)
  next
    case False
    then obtain dd where "t = CHR '':'' # dd" using a(3) by (auto simp: kept_port_def)
    then show ?thesis by (simp add: char_class_defs)
  qed
  from host_scan_fixed[OF a(2) this] have host: "host_scan UL_URL_LET_DIGIT (s @ t @ p) = (True, rev s, [], t @ p)" .
  show ?thesis
  proof (cases "p = []")
    case True
    then have "t = []" using p by blast
    then show ?thesis using True d sch host
      by (simp del: delete_inter_eq add: check_url_body_def ul_delete_inter_Some check_port_def)
  next
    case False
    then obtain x where x: "p = CHR ''/'' # x" "\<forall>c \<in> set x. urlch c \<and> c \<noteq> CHR '' ''" using p by blast
    have tw: "takeWhile urlch x = x" "dropWhile urlch x = []" using x(2) by (auto simp: takeWhile_eq_all_conv dropWhile_eq_Nil_conv)
    have port: "check_port True (rev s) [] (t @ p) ''/'' = (True, rev t @ rev s, [], p)"
    proof (cases "t = []")
      case True
      then show ?thesis by (simp add: check_port_def x(1))
    next
      case False
      then obtain dd where t: "t = CHR '':'' # dd" "dd \<noteq> []" "dd \<noteq> ''80''" "\<forall>c \<in> set dd. isdigit c" "length dd \<le> 5"
        using a(3) by (auto simp: kept_port_def)
      have "hd (dd @ p) \<noteq> CHR ''/''" using t(2,4) by (cases dd) (auto simp: isdigit_def)
      moreover have "digit_loop [] (dd @ p) = Some (dd, p)"
        using digits_split[OF t(4), of x] t(5) unfolding digit_loop_eq x(1) by simp
      ultimately show ?thesis using t(3) unfolding check_port_def t(1) by (simp add: Let_def x(1))
    qed
    obtain gap2 where "copy_path (rev t @ rev s) [] p = (rev p @ rev t @ rev s, gap2, [], False)"
      using copy_path_copied[of "rev t @ rev s" "[]" x] x(2) unfolding copied_def tw x(1) by auto
    then show ?thesis using d sch host port False
      by (simp del: delete_inter_eq add: check_url_body_def ul_delete_inter_Some check_end_def)
  qed
qed

text \<open>What \<open>ul_check_url_ex2\<close> accepts it leaves as an optional scheme, a lower-case site, a port other than
  80 and, behind the port or alone, a path without control characters, spaces and fragment; the text is no
  longer than the input or, after escaping spaces, below the limit.\<close>

theorem check_url_ex2_form:
  assumes "ul_check_url_ex2 url = (1, buf)"
  shows "\<exists>pre s t p. buf = pre @ s @ t @ p \<and> checked_url pre s t p
    \<and> length buf \<le> max (length url) (UL_MAX_URL_LEN_EX2 - 1)"
proof -
  from assms have "check_url_body True (\<lambda>u. ul_space_escape u (int UL_MAX_URL_LEN_EX2) (int UL_MAX_SITE_LEN_EX2)
      (int UL_MAX_PATH_LEN_EX2)) url = (1, buf)" by (simp add: ul_check_url_ex2_def ul_space_escape_ex2_eq)
  then obtain pre s t p where "buf = pre @ s @ t @ p" "checked_url pre s t p"
    "int (length buf) \<le> max (int (length url)) (int UL_MAX_URL_LEN_EX2 - 1)" by (rule check_url_body_form)
  then show ?thesis by (intro exI[of _ pre] exI[of _ s] exI[of _ t] exI[of _ p]) (auto simp: ul_max_defs)
qed

theorem check_url_ex2_form_witness:
  "ul_check_url_ex2 ''HTTP://A.b:80/c d'' = (1, ''HTTP://a.b/c%20d'')
   \<and> (\<exists>pre s t p. ''HTTP://a.b/c%20d'' = pre @ s @ t @ p \<and> checked_url pre s t p)"
proof -
  have e: "ul_check_url_ex2 ''HTTP://A.b:80/c d'' = (1, ''HTTP://a.b/c%20d'')" by code_simp
  show ?thesis using check_url_ex2_form[OF e] e by blast
qed

text \<open>\<open>ul_check_url_ex2\<close> is idempotent.\<close>

theorem check_url_ex2_idem:
  assumes "ul_check_url_ex2 url = (1, buf)"
  shows "ul_check_url_ex2 buf = (1, buf)"
proof -
  from assms have "check_url_body True (\<lambda>u. ul_space_escape u (int UL_MAX_URL_LEN_EX2) (int UL_MAX_SITE_LEN_EX2)
      (int UL_MAX_PATH_LEN_EX2)) url = (1, buf)" by (simp add: ul_check_url_ex2_def ul_space_escape_ex2_eq)
  then obtain pre s t p where "buf = pre @ s @ t @ p" "checked_url pre s t p" by (rule check_url_body_form)
  then show ?thesis by (simp add: ul_check_url_ex2_def checked_url_fixed)
qed

theorem check_url_ex2_idem_witness:
  "ul_check_url_ex2 ''A.b:81/'' = (1, ''a.b:81/'') \<and> ul_check_url_ex2 ''a.b:81/'' = (1, ''a.b:81/'')"
proof -
  have e: "ul_check_url_ex2 ''A.b:81/'' = (1, ''a.b:81/'')" by code_simp
  show ?thesis using check_url_ex2_idem[OF e] e by simp
qed

text \<open>The first version writes no terminator when there is no path: the end of the old host stays behind a
  decoded one.\<close>

lemma check_url_stale_tail:
  "ul_check_url ''%41.b'' = (1, ''a.b.b'') \<and> ul_check_url_ex ''%41.b'' = (1, ''a.b'')"
proof
  show "ul_check_url ''%41.b'' = (1, ''a.b.b'')" by code_simp
  show "ul_check_url_ex ''%41.b'' = (1, ''a.b'')" by code_simp
qed

end
