(* ===== verification/Url_Normalize.thy ===== *)
theory Url_Normalize
  imports Url_Dots Url_Parse Url_Check
begin

text \<open>
  Normalising whole URLs: \<open>ul_normalize_url\<close>, \<open>ul_normalize_url_ex\<close>, \<open>ul_normalize_url_ex2\<close> and
  \<open>ul_normalize_url_ex2_special_for_ps_20110221\<close> of \<^verbatim>\<open>ullib/src/ul_url.cpp\<close>, which call the parts of the
  other URL theories one after the other, and the theorem that their results are what
  \<open>ul_isnormalized_url\<close> recognises.

  The result is the return value and the contents of \<open>buf\<close>; \<open>None\<close> would be a failed assertion or an
  overflow in \<open>ul_normalize_path\<close>. The local arrays are empty at first: the parser writes all three.
\<close>

section \<open>The functions\<close>

definition local_parts :: url_parts where
  "local_parts = \<lparr>p_site = Some [], p_port = Some [], p_path = Some []\<rparr>"

definition print_url :: "nat \<Rightarrow> cstr \<Rightarrow> cstr \<Rightarrow> cstr \<Rightarrow> cstr \<Rightarrow> cstr" where
  \<comment> \<open>the two \<open>snprintf(buf, buf_size, ...)\<close>\<close>
  "print_url buf_size buf site port path =
     (if buf_size = 0 then buf
      else snprintf_buf buf_size (if port = [] then site @ path else site @ CHR '':'' # port @ path))"

definition normalize_parts ::
  "(cstr \<Rightarrow> int \<times> cstr) \<Rightarrow> (cstr \<Rightarrow> int \<times> cstr) \<Rightarrow> (cstr \<Rightarrow> cstr option) \<Rightarrow> nat \<Rightarrow> cstr \<Rightarrow> int \<times> url_parts \<Rightarrow>
     (int \<times> cstr) option" where
  \<comment> \<open>what follows the parser: site, port, escapes of the path, dot segments, printing\<close>
  "normalize_parts normalize_site single_path normalize_path buf_size buf parsed =
     (case parsed of (r, o1) \<Rightarrow>
        if r = 0 then Some (0, buf)
        else case normalize_site (the (p_site o1)) of (r1, site) \<Rightarrow>
          if r1 = 0 then Some (0, buf)
          else case ul_normalize_port (the (p_port o1)) of (r2, port) \<Rightarrow>
            if r2 = 0 then Some (0, buf)
            else case single_path (the (p_path o1)) of (r3, path) \<Rightarrow>
              if r3 = 0 then Some (0, buf)
              else case normalize_path path of
                None \<Rightarrow> None
              | Some path' \<Rightarrow> Some (1, print_url buf_size buf site port path'))"

definition ul_normalize_url :: "cstr \<Rightarrow> cstr \<Rightarrow> (int \<times> cstr) option" where
  "ul_normalize_url url buf =
     normalize_parts ul_normalize_site ul_single_path_nointer ul_normalize_path UL_MAX_URL_LEN buf
       (ul_parse_url url local_parts)"

definition ul_normalize_url_ex :: "cstr \<Rightarrow> cstr \<Rightarrow> nat \<Rightarrow> (int \<times> cstr) option" where
  "ul_normalize_url_ex url buf buf_size =
     normalize_parts ul_normalize_site (\<lambda>p. ul_single_path_ex_nointer p (int UL_MAX_PATH_LEN_EX)) ul_normalize_path_ex
       buf_size buf
       (ul_parse_url_ex url local_parts UL_MAX_SITE_LEN_EX UL_MAX_PORT_LEN UL_MAX_PATH_LEN_EX)"

definition ul_normalize_url_ex2 :: "cstr \<Rightarrow> cstr \<Rightarrow> nat \<Rightarrow> (int \<times> cstr) option" where
  "ul_normalize_url_ex2 url buf buf_size =
     normalize_parts ul_normalize_site (\<lambda>p. ul_single_path_ex2_nointer p (int UL_MAX_PATH_LEN_EX2)) ul_normalize_path_ex2
       buf_size buf
       (ul_parse_url_ex2 url local_parts UL_MAX_SITE_LEN_EX2 UL_MAX_PORT_LEN UL_MAX_PATH_LEN_EX2)"

definition ul_normalize_url_ex2_special_for_ps_20110221 :: "cstr \<Rightarrow> cstr \<Rightarrow> nat \<Rightarrow> (int \<times> cstr) option" where
  "ul_normalize_url_ex2_special_for_ps_20110221 url buf buf_size =
     normalize_parts ul_normalize_site_special_for_ps_20101026
       (\<lambda>p. ul_single_path_ex2_nointer_special_for_ps_20110221 p (int UL_MAX_PATH_LEN_EX2)) ul_normalize_path_ex2
       buf_size buf
       (ul_parse_url_ex2 url local_parts UL_MAX_SITE_LEN_EX2 UL_MAX_PORT_LEN UL_MAX_PATH_LEN_EX2)"

section \<open>The parts of the result\<close>

lemma normalized_port_text:
  assumes "ul_normalize_port q = (1, p)"
  shows "p = [] \<or> port_text (CHR '':'' # p)" "length p \<le> 5"
proof -
  have "p = [] \<or> port_text (CHR '':'' # p) \<and> length p \<le> 5"
  proof (cases "q = []")
    case True
    then show ?thesis using assms by (simp add: ul_normalize_port_def)
  next
    case False
    let ?n = "digits_val 0 q"
    from assms ul_normalize_port_eq[OF False] have "0 < ?n" "?n \<le> 65535" "p = (if ?n = 80 then [] else dec_nat ?n)"
      by (auto split: if_splits)
    moreover have "length (dec_nat ?n) \<le> 5" using \<open>?n \<le> 65535\<close> by (intro length_dec_nat_le) auto
    ultimately show ?thesis using dec_nat_isdigit by (auto simp: port_text_def)
  qed
  then show "p = [] \<or> port_text (CHR '':'' # p)" "length p \<le> 5" by auto
qed

lemma path_text_slash: "\<exists>y. path_text (CHR ''/'' # x) = CHR ''/'' # y"
proof -
  obtain e r where e: "scan_em (CHR ''/'' # x) = (e, r)" by (rule prod.exhaust)
  then show ?thesis
  proof (cases rule: scan_em_stages)
    case (1 e0 r0 e1 r1 e2 r2 e3 r3 e4)
    then have "e0 = ''/''" by (auto simp: stops_def)
    then show ?thesis using 1 e by (simp add: path_text_def)
  qed
qed

lemma normalize_path_body_chars:
  assumes "path = CHR ''/'' # p"
  obtains q where "normalize_path_body path = CHR ''/'' # q" "set q \<subseteq> insert CHR ''/'' (set path)" "length q \<le> length p"
proof -
  let ?l = "norm_loop (path_tail path) ''/'' (path_mid path)"
  obtain st where b: "normalize_path_body path = (CHR ''/'' # concat (rev st)) @ path_tail path"
    and len: "length (concat (rev st)) \<le> length (path_mid path)" using normalize_path_body_form[OF assms] by metis
  have "set (path_mid path) \<subseteq> insert CHR ''/'' (set path)"
    by (auto simp: path_mid_def slash_loop_map dest!: in_set_dropD dest: in_set_takeD)
  moreover have tl: "set (path_tail path) \<subseteq> set path" by (auto simp: path_tail_def dest: in_set_dropD)
  moreover have "set (normalize_path_body path) \<subseteq> set ?l \<union> set (path_tail path)"
    by (simp add: normalize_path_body_loop[OF assms])
  ultimately have "set (normalize_path_body path) \<subseteq> insert CHR ''/'' (set path)"
    using set_norm_loop[of "path_tail path" "''/''" "path_mid path"] by auto
  then show ?thesis using b len path_parts(4)[OF assms] assms
    by (intro that[of "concat (rev st) @ path_tail path"]) auto
qed

lemma ul_single_path_ex_len:
  "int (length (path_text p)) \<le> n \<Longrightarrow> ul_single_path_ex_nointer p n = ul_single_path_ex_nointer p (int (length p))"
  using length_path_text[of p]
  by (rule_tac single_path_scan_eq[of p]) (auto simp: ul_single_path_ex_nointer_def)

lemma ul_single_path_ex2_len:
  "int (length (path_text p)) \<le> n \<Longrightarrow> ul_single_path_ex2_nointer p n = ul_single_path_ex2_nointer p (int (length p))"
  using length_path_text[of p]
  by (rule_tac single_path_scan_eq[of p]) (auto simp: ul_single_path_ex2_nointer_def)

lemma single_path_nointer_1:
  "ul_single_path_nointer p = (1, buf) \<Longrightarrow> sp_result (int UL_MAX_PATH_LEN) (path_text p) = (1, buf)"
  "ul_single_path_ex_nointer p n = (1, buf) \<Longrightarrow> int (length p) \<le> n \<Longrightarrow> sp_result (int UL_MAX_PATH_LEN_EX) (path_text p) = (1, buf)"
  "ul_single_path_ex2_nointer p n = (1, buf) \<Longrightarrow> int (length p) \<le> n \<Longrightarrow> sp_result (int UL_MAX_PATH_LEN_EX2) (path_text p) = (1, buf)"
proof -
  have le: "int (length p) \<le> n \<Longrightarrow> int (length (path_text p)) \<le> n" using length_path_text[of p] by linarith
  show "sp_result (int UL_MAX_PATH_LEN) (path_text p) = (1, buf)" if a: "ul_single_path_nointer p = (1, buf)"
  proof -
    have "path_ok p" using single_path_not_ok(1)[of p] a by force
    from ul_single_path_nointer_eq[OF this] a show ?thesis by (simp split: if_splits)
  qed
  show "sp_result (int UL_MAX_PATH_LEN_EX) (path_text p) = (1, buf)"
    if a: "ul_single_path_ex_nointer p n = (1, buf)" "int (length p) \<le> n"
  proof -
    have "path_ok p" using single_path_not_ok(2)[of p n] a by force
    from ul_single_path_ex_nointer_eq[OF this] a ul_single_path_ex_len[OF le[OF a(2)]] show ?thesis by simp
  qed
  show "sp_result (int UL_MAX_PATH_LEN_EX2) (path_text p) = (1, buf)"
    if a: "ul_single_path_ex2_nointer p n = (1, buf)" "int (length p) \<le> n"
  proof -
    have "path_ok p" using single_path_not_ok(3)[of p n] a by force
    from ul_single_path_ex2_nointer_eq[OF this] a ul_single_path_ex2_len[OF le[OF a(2)]] show ?thesis by simp
  qed
qed

text \<open>
  One lemma for the three functions: what the parser, the site and path routines promise is enough for the
  result to be a normalised URL that fits.
\<close>

definition good_path :: "nat \<Rightarrow> cstr \<Rightarrow> bool" where
  "good_path n p \<longleftrightarrow> (\<exists>x. p = CHR ''/'' # x \<and> (\<forall>c \<in> set x. urlch c)) \<and> length p < n"

lemma sp_result_good:
  assumes "sp_result (int m) (path_text (CHR ''/'' # x)) = (1, buf)" "length (CHR ''/'' # x) < m"
  shows "good_path m buf"
proof -
  obtain y where y: "path_text (CHR ''/'' # x) = CHR ''/'' # y" using path_text_slash by blast
  have b: "buf = space_escaped (CHR ''/'' # y)" using sp_result_1[OF assms(1)] by (simp add: y)
  have "\<forall>c \<in> set buf. urlch c" unfolding b using path_text_urlch[of "CHR ''/'' # x"] y by (intro space_escaped_urlch) simp
  moreover have "length buf < m"
    using sp_result_bound[OF assms(1)] assms(2) length_path_text[of "CHR ''/'' # x"] by linarith
  ultimately show ?thesis using b by (auto simp: good_path_def esc_space_def)
qed

lemma normalize_path_good:
  assumes "good_path m p"
  shows "good_path m (normalize_path_body p)"
proof -
  obtain x where x: "p = CHR ''/'' # x" "\<forall>c \<in> set x. urlch c" "length p < m" using assms by (auto simp: good_path_def)
  obtain q where q: "normalize_path_body p = CHR ''/'' # q" "set q \<subseteq> insert CHR ''/'' (set p)" "length q \<le> length x"
    using normalize_path_body_chars[OF x(1)] .
  have "\<forall>c \<in> set q. urlch c" using q(2) x(1,2) by auto
  then show ?thesis using q x by (auto simp: good_path_def)
qed

lemma rooted_slash: "rest = [] \<or> hd rest = CHR ''/'' \<or> hd rest = CHR ''?'' \<Longrightarrow> \<exists>x. rooted rest = CHR ''/'' # x"
  by (cases rest) (auto simp: rooted_def)

definition joined :: "cstr \<Rightarrow> cstr \<Rightarrow> cstr \<Rightarrow> cstr" where
  "joined site port path = (if port = [] then site @ path else site @ CHR '':'' # port @ path)"

lemma print_url_fits: "length (joined site port path) < n \<Longrightarrow> print_url n buf site port path = joined site port path"
  by (simp add: print_url_def joined_def)

lemma joined_normal:
  assumes "site_form UL_URL_LET_DIGIT site" "ul_normalize_port q = (1, port)" "good_path m path"
  shows "normal_url (joined site port path)"
    and "length site < k \<Longrightarrow> length (joined site port path) < k + m + 5"
proof -
  obtain x where x: "path = CHR ''/'' # x" "\<forall>c \<in> set x. urlch c" "length path < m" using assms(3) by (auto simp: good_path_def)
  note p = normalized_port_text[OF assms(2)]
  show "normal_url (joined site port path)"
  proof (cases "port = []")
    case True
    then show ?thesis using assms(1) x unfolding normal_url_def joined_def
      by (intro exI[of _ site] exI[of _ "[]"] exI[of _ x]) (simp add: port_text_def)
  next
    case False
    then show ?thesis using assms(1) p(1) x unfolding normal_url_def joined_def
      by (intro exI[of _ site] exI[of _ "CHR '':'' # port"] exI[of _ x]) simp
  qed
  show "length (joined site port path) < k + m + 5" if "length site < k"
    using p(2) x(3) that by (simp add: joined_def)
qed

lemma parsed_parts:
  assumes "parse_url_body ss ps hs tmp local_parts = (r, o1)" "2 \<le> hs"
  shows "r = 0 \<or> (\<exists>site port x. o1 = \<lparr>p_site = Some site, p_port = Some port, p_path = Some (CHR ''/'' # x)\<rparr>
     \<and> length site < ss \<and> length (CHR ''/'' # x) < hs \<and> r = 1)"
proof (cases "r = 0")
  case False
  have "r = 1" using assms(1) False by (cases rule: parse_url_body_cases) (auto dest!: parse_site_cases)
  with assms(1) have "parse_url_body ss ps hs tmp local_parts = (1, o1)" by simp
  then obtain site portpart rest where parts: "p_site o1 = Some site" "p_path o1 = Some (rooted rest)"
    "portpart = [] \<and> p_port o1 = Some [] \<or> (\<exists>s. portpart = CHR '':'' # s \<and> 0 < atoi s \<and> Suc (length s) < ps
        \<and> p_port o1 = Some (if s = ''80'' then [] else s))"
    "length site < ss" "rest = [] \<or> hd rest = CHR ''/'' \<or> hd rest = CHR ''?''" "2 \<le> hs \<Longrightarrow> length (rooted rest) < hs"
    by (rule parse_url_body_parts) (simp_all add: local_parts_def)
  obtain x where x: "rooted rest = CHR ''/'' # x" using rooted_slash[OF parts(5)] ..
  obtain port where "p_port o1 = Some port" using parts(3) by blast
  then show ?thesis using parts x assms(2) \<open>r = 1\<close>
    by (intro disjI2 exI[of _ site] exI[of _ port] exI[of _ x]) simp
qed simp

lemma returns_01:
  "fst (ul_normalize_site s) = 0 \<or> fst (ul_normalize_site s) = 1"
  "fst (ul_normalize_port q) = 0 \<or> fst (ul_normalize_port q) = 1"
  "fst (ul_single_path_nointer p) = 0 \<or> fst (ul_single_path_nointer p) = 1"
  "fst (ul_single_path_ex_nointer p n) = 0 \<or> fst (ul_single_path_ex_nointer p n) = 1"
  "fst (ul_single_path_ex2_nointer p n) = 0 \<or> fst (ul_single_path_ex2_nointer p n) = 1"
proof -
  show "fst (ul_normalize_site s) = 0 \<or> fst (ul_normalize_site s) = 1"
    by (simp add: ul_normalize_site_def normalize_site_body_def split: prod.split)
  show "fst (ul_normalize_port q) = 0 \<or> fst (ul_normalize_port q) = 1"
    by (simp add: ul_normalize_port_def Let_def split: option.split)
  show "fst (ul_single_path_nointer p) = 0 \<or> fst (ul_single_path_nointer p) = 1"
    by (simp add: ul_single_path_nointer_def ul_space_escape_path_eq split: prod.split)
  show "fst (ul_single_path_ex_nointer p n) = 0 \<or> fst (ul_single_path_ex_nointer p n) = 1"
    by (simp add: ul_single_path_ex_nointer_def ul_space_escape_path_eq split: prod.split)
  show "fst (ul_single_path_ex2_nointer p n) = 0 \<or> fst (ul_single_path_ex2_nointer p n) = 1"
    by (simp add: ul_single_path_ex2_nointer_def ul_space_escape_path_ex2_eq ul_space_escape_path_eq split: prod.split)
qed

definition normal_result :: "nat \<Rightarrow> nat \<Rightarrow> cstr \<Rightarrow> (int \<times> cstr) option \<Rightarrow> bool" where
  \<comment> \<open>failure without a change of the buffer, or the printed form of a normalised URL of at most \<open>len\<close> bytes\<close>
  "normal_result len n buf res \<longleftrightarrow> res = Some (0, buf)
     \<or> (\<exists>site port path. res = Some (1, print_url n buf site port path) \<and> normal_url (joined site port path)
          \<and> length (joined site port path) < len)"

lemma normal_result_mono: "normal_result len n buf res \<Longrightarrow> len \<le> len' \<Longrightarrow> normal_result len' n buf res"
  by (auto simp: normal_result_def intro: less_le_trans)

lemma normalize_parts_ok:
  assumes parsed: "r = 0 \<or> (\<exists>site port x. o1 = \<lparr>p_site = Some site, p_port = Some port, p_path = Some (CHR ''/'' # x)\<rparr>
        \<and> length site < ss \<and> length (CHR ''/'' # x) < hs \<and> r = 1)"
    and single_path: "\<And>x p. single_path (CHR ''/'' # x) = (1, p) \<Longrightarrow> length (CHR ''/'' # x) < hs \<Longrightarrow> good_path hs p"
    and single_01: "\<And>p. fst (single_path p) = 0 \<or> fst (single_path p) = (1 :: int)"
    and normalize_path: "\<And>p. good_path hs p \<Longrightarrow> normalize_path p = Some (normalize_path_body p)"
  shows "normal_result (ss + hs + 5) n buf (normalize_parts ul_normalize_site single_path normalize_path n buf (r, o1))"
proof (cases "r = 0")
  case True
  then show ?thesis by (simp add: normalize_parts_def normal_result_def)
next
  case False
  then obtain s q x where o1: "o1 = \<lparr>p_site = Some s, p_port = Some q, p_path = Some (CHR ''/'' # x)\<rparr>"
    "length s < ss" "length (CHR ''/'' # x) < hs" using parsed by blast
  obtain r1 site where 1: "ul_normalize_site s = (r1, site)" by (rule prod.exhaust)
  obtain r2 port where 2: "ul_normalize_port q = (r2, port)" by (rule prod.exhaust)
  obtain r3 path where 3: "single_path (CHR ''/'' # x) = (r3, path)" by (rule prod.exhaust)
  show ?thesis
  proof (cases "r1 = 0 \<or> r2 = 0 \<or> r3 = 0")
    case True
    then show ?thesis using False 1 2 3 by (auto simp: normalize_parts_def normal_result_def o1(1))
  next
    case nz: False
    then have r: "r1 = 1" "r2 = 1" "r3 = 1"
      using returns_01(1)[of s] returns_01(2)[of q] single_01[of "CHR ''/'' # x"] 1 2 3 by auto
    have g: "good_path hs path" using single_path[OF 3[unfolded r] o1(3)] .
    have form: "site_form UL_URL_LET_DIGIT site" "length site \<le> length s"
      using normalize_site_body_form[OF 1[unfolded r ul_normalize_site_def] dot_not_host(1)] by auto
    note j = joined_normal[OF form(1) 2[unfolded r] normalize_path_good[OF g]]
    have "length (joined site port (normalize_path_body path)) < ss + hs + 5"
      using form(2) o1(2) by (intro j(2)) simp
    then show ?thesis using j(1) False r 1 2 3 normalize_path[OF g]
      by (auto simp: normalize_parts_def normal_result_def o1(1))
  qed
qed

lemma normalize_url_result: "normal_result UL_MAX_URL_LEN UL_MAX_URL_LEN buf (ul_normalize_url url buf)"
proof -
  obtain r o1 where p: "ul_parse_url url local_parts = (r, o1)" by (rule prod.exhaust)
  have "normal_result (UL_MAX_SITE_LEN + UL_MAX_PATH_LEN + 5) UL_MAX_URL_LEN buf
      (normalize_parts ul_normalize_site ul_single_path_nointer ul_normalize_path UL_MAX_URL_LEN buf (r, o1))"
  proof (rule normalize_parts_ok)
    show "r = 0 \<or> (\<exists>site port x. o1 = \<lparr>p_site = Some site, p_port = Some port, p_path = Some (CHR ''/'' # x)\<rparr>
        \<and> length site < UL_MAX_SITE_LEN \<and> length (CHR ''/'' # x) < UL_MAX_PATH_LEN \<and> r = 1)"
    proof (cases "UL_MAX_URL_LEN \<le> length url")
      case True
      then show ?thesis using p by (simp add: ul_parse_url_def)
    next
      case False
      then have "parse_url_body UL_MAX_SITE_LEN UL_MAX_PORT_LEN UL_MAX_PATH_LEN (delete_inter url) local_parts = (r, o1)"
        using p by (simp del: delete_inter_eq add: ul_parse_url_def)
      then show ?thesis by (rule parsed_parts) (simp add: ul_max_defs)
    qed
    show "good_path UL_MAX_PATH_LEN p" if "ul_single_path_nointer (CHR ''/'' # x) = (1, p)" "length (CHR ''/'' # x) < UL_MAX_PATH_LEN" for x p
      using sp_result_good[OF single_path_nointer_1(1)[OF that(1)] that(2)] .
    show "ul_normalize_path p = Some (normalize_path_body p)" if "good_path UL_MAX_PATH_LEN p" for p
      using that by (auto simp: good_path_def ul_normalize_path_def ul_max_defs)
  qed (rule returns_01)
  then show ?thesis by (simp add: ul_normalize_url_def p ul_max_defs)
qed

lemma normalize_url_ex_result: "normal_result UL_MAX_URL_LEN_EX n buf (ul_normalize_url_ex url buf n)"
proof -
  obtain r o1 where p: "ul_parse_url_ex url local_parts UL_MAX_SITE_LEN_EX UL_MAX_PORT_LEN UL_MAX_PATH_LEN_EX = (r, o1)" by (rule prod.exhaust)
  have "normal_result (UL_MAX_SITE_LEN_EX + UL_MAX_PATH_LEN_EX + 5) n buf
      (normalize_parts ul_normalize_site (\<lambda>p. ul_single_path_ex_nointer p (int UL_MAX_PATH_LEN_EX)) ul_normalize_path_ex n buf (r, o1))"
  proof (rule normalize_parts_ok)
    show "r = 0 \<or> (\<exists>site port x. o1 = \<lparr>p_site = Some site, p_port = Some port, p_path = Some (CHR ''/'' # x)\<rparr>
        \<and> length site < UL_MAX_SITE_LEN_EX \<and> length (CHR ''/'' # x) < UL_MAX_PATH_LEN_EX \<and> r = 1)"
    proof (cases "UL_MAX_URL_LEN_EX \<le> length url")
      case True
      then show ?thesis using p by (simp add: ul_parse_url_ex_def)
    next
      case False
      then have "parse_url_body UL_MAX_SITE_LEN_EX UL_MAX_PORT_LEN UL_MAX_PATH_LEN_EX (delete_inter url) local_parts = (r, o1)"
        using p by (simp del: delete_inter_eq add: ul_parse_url_ex_def)
      then show ?thesis by (rule parsed_parts) (simp add: ul_max_defs)
    qed
    show "good_path UL_MAX_PATH_LEN_EX p" if "ul_single_path_ex_nointer (CHR ''/'' # x) (int UL_MAX_PATH_LEN_EX) = (1, p)"
      "length (CHR ''/'' # x) < UL_MAX_PATH_LEN_EX" for x p
      using sp_result_good[OF single_path_nointer_1(2)[OF that(1)] that(2)] that(2) by simp
    show "ul_normalize_path_ex p = Some (normalize_path_body p)" if "good_path UL_MAX_PATH_LEN_EX p" for p
      using that by (auto simp: good_path_def ul_normalize_path_ex_def ul_max_defs)
  qed (rule returns_01)
  then have "normal_result UL_MAX_URL_LEN_EX n buf
      (normalize_parts ul_normalize_site (\<lambda>p. ul_single_path_ex_nointer p (int UL_MAX_PATH_LEN_EX)) ul_normalize_path_ex n buf (r, o1))"
    by (rule normal_result_mono) (simp add: ul_max_defs)
  then show ?thesis by (simp add: ul_normalize_url_ex_def p)
qed

lemma normalize_url_ex2_result: "normal_result UL_MAX_URL_LEN_EX2 n buf (ul_normalize_url_ex2 url buf n)"
proof -
  obtain r o1 where p: "ul_parse_url_ex2 url local_parts UL_MAX_SITE_LEN_EX2 UL_MAX_PORT_LEN UL_MAX_PATH_LEN_EX2 = (r, o1)" by (rule prod.exhaust)
  have "normal_result (UL_MAX_SITE_LEN_EX2 + UL_MAX_PATH_LEN_EX2 + 5) n buf
      (normalize_parts ul_normalize_site (\<lambda>p. ul_single_path_ex2_nointer p (int UL_MAX_PATH_LEN_EX2)) ul_normalize_path_ex2 n buf (r, o1))"
  proof (rule normalize_parts_ok)
    show "r = 0 \<or> (\<exists>site port x. o1 = \<lparr>p_site = Some site, p_port = Some port, p_path = Some (CHR ''/'' # x)\<rparr>
        \<and> length site < UL_MAX_SITE_LEN_EX2 \<and> length (CHR ''/'' # x) < UL_MAX_PATH_LEN_EX2 \<and> r = 1)"
    proof (cases "UL_MAX_URL_LEN_EX2 \<le> length url")
      case True
      then show ?thesis using p by (simp add: ul_parse_url_ex2_def)
    next
      case False
      then have "parse_url_body UL_MAX_SITE_LEN_EX2 UL_MAX_PORT_LEN UL_MAX_PATH_LEN_EX2 (delete_inter url) local_parts = (r, o1)"
        using p by (simp del: delete_inter_eq add: ul_parse_url_ex2_def)
      then show ?thesis by (rule parsed_parts) (simp add: ul_max_defs)
    qed
    show "good_path UL_MAX_PATH_LEN_EX2 p" if "ul_single_path_ex2_nointer (CHR ''/'' # x) (int UL_MAX_PATH_LEN_EX2) = (1, p)"
      "length (CHR ''/'' # x) < UL_MAX_PATH_LEN_EX2" for x p
      using sp_result_good[OF single_path_nointer_1(3)[OF that(1)] that(2)] that(2) by simp
    show "ul_normalize_path_ex2 p = Some (normalize_path_body p)" if "good_path UL_MAX_PATH_LEN_EX2 p" for p
      using that by (auto simp: good_path_def ul_normalize_path_ex2_def ul_max_defs)
  qed (rule returns_01)
  then have "normal_result UL_MAX_URL_LEN_EX2 n buf
      (normalize_parts ul_normalize_site (\<lambda>p. ul_single_path_ex2_nointer p (int UL_MAX_PATH_LEN_EX2)) ul_normalize_path_ex2 n buf (r, o1))"
    by (rule normal_result_mono) (simp add: ul_max_defs)
  then show ?thesis by (simp add: ul_normalize_url_ex2_def p)
qed

section \<open>Properties\<close>

lemma normal_result_isnormalized:
  assumes "normal_result len n buf0 (Some (1, buf))" "len \<le> n"
  shows "isnormalized_body len buf = Some 1 \<and> length buf < len"
proof -
  obtain site port path where "buf = print_url n buf0 site port path" "normal_url (joined site port path)"
    "length (joined site port path) < len" using assms(1) by (auto simp: normal_result_def)
  then show ?thesis using print_url_fits[of site port path n buf0] assms(2) isnormalized_body_normal by simp
qed

text \<open>C1: whatever the input, \<open>ul_normalize_url\<close> returns, with no failed assertion and no overflow in the
  routines it calls: it fails and leaves the buffer alone, or the buffer holds a URL of less than
  \<open>UL_MAX_URL_LEN\<close> bytes that \<open>ul_isnormalized_url\<close> accepts.\<close>

theorem normalize_url_isnormalized:
  "ul_normalize_url url buf0 = Some (0, buf0)
   \<or> (\<exists>buf. ul_normalize_url url buf0 = Some (1, buf) \<and> ul_isnormalized_url buf = Some 1 \<and> length buf < UL_MAX_URL_LEN)"
proof -
  from normalize_url_result[of buf0 url] consider "ul_normalize_url url buf0 = Some (0, buf0)"
    | buf where "ul_normalize_url url buf0 = Some (1, buf)" by (auto simp: normal_result_def)
  then show ?thesis
  proof cases
    case 2
    then show ?thesis using normal_result_isnormalized[of UL_MAX_URL_LEN UL_MAX_URL_LEN buf0 buf] normalize_url_result[of buf0 url]
      by (simp add: ul_isnormalized_url_def)
  qed simp
qed

text \<open>The same for \<open>ul_normalize_url_ex\<close> and a buffer of at least \<open>UL_MAX_URL_LEN_EX\<close> bytes.\<close>

theorem normalize_url_ex_isnormalized:
  assumes "UL_MAX_URL_LEN_EX \<le> buf_size"
  shows "ul_normalize_url_ex url buf0 buf_size = Some (0, buf0)
   \<or> (\<exists>buf. ul_normalize_url_ex url buf0 buf_size = Some (1, buf) \<and> ul_isnormalized_url_ex buf = Some 1
        \<and> length buf < UL_MAX_URL_LEN_EX)"
proof -
  from normalize_url_ex_result[of buf_size buf0 url] consider "ul_normalize_url_ex url buf0 buf_size = Some (0, buf0)"
    | buf where "ul_normalize_url_ex url buf0 buf_size = Some (1, buf)" by (auto simp: normal_result_def)
  then show ?thesis
  proof cases
    case 2
    then show ?thesis using normal_result_isnormalized[of UL_MAX_URL_LEN_EX buf_size buf0 buf] assms
        normalize_url_ex_result[of buf_size buf0 url]
      by (simp add: ul_isnormalized_url_ex_def)
  qed simp
qed

theorem normalize_url_ex_isnormalized_witness:
  "ul_normalize_url_ex ''HTTP://A.b:80/c/../d e?f'' [] 1024 = Some (1, ''a.b/d%20e?f'')
   \<and> ul_isnormalized_url_ex ''a.b/d%20e?f'' = Some 1"
proof -
  have e: "ul_normalize_url_ex ''HTTP://A.b:80/c/../d e?f'' [] 1024 = Some (1, ''a.b/d%20e?f'')" by code_simp
  show ?thesis
    using normalize_url_ex_isnormalized[of 1024 "''HTTP://A.b:80/c/../d e?f''" "[]"] unfolding e by (auto simp: ul_max_defs)
qed

text \<open>C2: the same for \<open>ul_normalize_url_ex2\<close> and a buffer of at least \<open>UL_MAX_URL_LEN_EX2\<close> bytes.\<close>

theorem normalize_url_ex2_isnormalized:
  assumes "UL_MAX_URL_LEN_EX2 \<le> buf_size"
  shows "ul_normalize_url_ex2 url buf0 buf_size = Some (0, buf0)
   \<or> (\<exists>buf. ul_normalize_url_ex2 url buf0 buf_size = Some (1, buf) \<and> ul_isnormalized_url_ex2 buf = Some 1
        \<and> length buf < UL_MAX_URL_LEN_EX2)"
proof -
  from normalize_url_ex2_result[of buf_size buf0 url] consider "ul_normalize_url_ex2 url buf0 buf_size = Some (0, buf0)"
    | buf where "ul_normalize_url_ex2 url buf0 buf_size = Some (1, buf)" by (auto simp: normal_result_def)
  then show ?thesis
  proof cases
    case 2
    then show ?thesis using normal_result_isnormalized[of UL_MAX_URL_LEN_EX2 buf_size buf0 buf] assms
        normalize_url_ex2_result[of buf_size buf0 url]
      by (simp add: ul_isnormalized_url_ex2_def)
  qed simp
qed

theorem normalize_url_ex2_isnormalized_witness:
  "ul_normalize_url_ex2 ''a.B:081/./%41'' [] 2048 = Some (1, ''a.b:81/A'') \<and> ul_isnormalized_url_ex2 ''a.b:81/A'' = Some 1"
proof -
  have e: "ul_normalize_url_ex2 ''a.B:081/./%41'' [] 2048 = Some (1, ''a.b:81/A'')" by code_simp
  show ?thesis
    using normalize_url_ex2_isnormalized[of 2048 "''a.B:081/./%41''" "[]"] unfolding e by (auto simp: ul_max_defs)
qed

text \<open>The scheme, in any case, does not matter: a URL behind \<^verbatim>\<open>http://\<close> is normalised as the URL alone.\<close>

theorem normalize_url_ex2_scheme:
  assumes "map tolower h = ''http://''" "\<not> strncasecmp_eq (delete_inter url) ''http://'' 7"
    and "length h + length url < UL_MAX_URL_LEN_EX2"
  shows "ul_normalize_url_ex2 (h @ url) buf buf_size = ul_normalize_url_ex2 url buf buf_size"
proof -
  have s: "scheme h" using assms(1) by (simp add: scheme_def)
  have "delete_inter h = h" using scheme_chars(2,3)[OF s] unfolding delete_inter_eq by (intro filter_True) blast
  then have d: "delete_inter (h @ url) = h @ delete_inter url" by simp
  from assms(1) have "length (map tolower h) = length ''http://''" by (simp only:)
  then have l: "length h = 7" by simp
  then have tk: "take 7 (h @ u) = h" "drop 7 (h @ u) = u" for u by simp_all
  have "map tolower (take 7 ''http://'') = ''http://''" by code_simp
  then have "strncasecmp_eq (h @ u) ''http://'' 7" for u by (simp only: strncasecmp_eq_def tk assms(1))
  then have "strip_http (h @ delete_inter url) = strip_http (delete_inter url)"
    using assms(2) by (simp only: strip_http_def tk if_True if_False)
  then show ?thesis
    using assms(3) unfolding ul_normalize_url_ex2_def ul_parse_url_ex2_def parse_url_body_def d by simp
qed

theorem normalize_url_ex2_scheme_witness:
  "ul_normalize_url_ex2 (''hTTp://'' @ ''a.b/c'') [] 2048 = ul_normalize_url_ex2 ''a.b/c'' [] 2048"
proof (rule normalize_url_ex2_scheme)
  show "map tolower ''hTTp://'' = ''http://''" by code_simp
  show "\<not> strncasecmp_eq (delete_inter ''a.b/c'') ''http://'' 7" by code_simp
  show "length ''hTTp://'' + length ''a.b/c'' < UL_MAX_URL_LEN_EX2" by (simp add: ul_max_defs)
qed

end
