(* ===== verification/Ul_Links.thy ===== *)
theory Ul_Links
  imports Url_Normalize Ul_String
begin

text \<open>
  The links of a page, from \<^verbatim>\<open>ullib/src/dep/dep_exlink.cpp\<close>: the search for tags with a link (\<open>strlink\<close>), the address and the text
  of a link (\<open>getlink\<close>, \<open>pure_anchor_text\<close>), the links of a page (\<open>exrellink\<close>), and how they are resolved against the address of
  the page (\<open>exlink\<close>, \<open>ul_absolute_url\<close>).

  A pointer into the page in lower case is the text from it on. \<open>*(p + offset)\<close> reads the page itself at the same place, so that the
  functions that do this get the page from there on as well. \<open>None\<close> as the value of a whole function is a read or write
  outside an array, or a failed assertion.
\<close>

section \<open>Structures and sizes\<close>

definition UL_MAX_TEXT_LEN :: nat where "UL_MAX_TEXT_LEN = 100"
definition MAX_PAGE_SIZE :: nat where "MAX_PAGE_SIZE = 256000"
definition UL_METHOD_BAIDU :: int where "UL_METHOD_BAIDU = 0"
definition UL_METHOD_WGET16 :: int where "UL_METHOD_WGET16 = 1"
definition UL_METHOD_WGET18 :: int where "UL_METHOD_WGET18 = 2"

record link_info_t =
  l_domain :: cstr
  l_port :: cstr
  l_path :: cstr
  l_text :: cstr
  l_url :: cstr

definition no_link :: link_info_t where
  \<comment> \<open>\<open>memset(&link_info[i], 0, sizeof(link_info[i]))\<close>\<close>
  "no_link = \<lparr>l_domain = [], l_port = [], l_path = [], l_text = [], l_url = []\<rparr>"

section \<open>Tags with a link\<close>

definition attr_value :: "cstr \<Rightarrow> cstr \<Rightarrow> (cstr + cstr) option" where
  \<comment> \<open>the branches for link and frame tags: \<open>None\<close> is \<open>return NULL\<close>, \<open>Inl\<close> is \<open>goto again\<close>, \<open>Inr\<close> is \<open>return p\<close>\<close>
  "attr_value q name =
     (case strchr q CHR ''>'' of
        None \<Rightarrow> None
      | Some tagend \<Rightarrow>
          (case strstr q name of
             None \<Rightarrow> Some (Inl (drop (tagend + 1) q))
           | Some p \<Rightarrow>
               if tagend < p then Some (Inl (drop (tagend + 1) q))
               else let r = dropWhile isspace (drop (p + length name) q) in
                 if r = [] \<or> hd r \<noteq> CHR ''='' then Some (Inl (drop (tagend + 1) q))
                 else Some (Inr (tl r))))"

lemma attr_value_shorter: "attr_value q name = Some (Inl r) \<Longrightarrow> length r \<le> length q"
  by (auto simp: attr_value_def Let_def split: option.splits if_splits)

function strlink :: "cstr \<Rightarrow> cstr option" where
  "strlink p =
     (case strchr p CHR ''<'' of
        None \<Rightarrow> None
      | Some i \<Rightarrow>
          let q = drop (Suc i) p in
          if strncmp_eq q ''script'' 6 then
            (case strstr q ''</script>'' of None \<Rightarrow> None | Some j \<Rightarrow> strlink (drop (j + 9) q))
          else if strncmp_eq q ''a '' 2 then
            (case attr_value q '' href'' of None \<Rightarrow> None | Some (Inl r) \<Rightarrow> strlink r | Some (Inr r) \<Rightarrow> Some r)
          else if strncmp_eq q ''frame '' 6 \<or> strncmp_eq q ''iframe '' 7 then
            (case attr_value q '' src'' of None \<Rightarrow> None | Some (Inl r) \<Rightarrow> strlink r | Some (Inr r) \<Rightarrow> Some r)
          else if strncmp_eq q ''!--'' 3 then
            (case strstr (drop 3 q) ''--'' of
               None \<Rightarrow> None
             | Some j \<Rightarrow>
                 (case strchr (drop j (drop 3 q)) CHR ''>'' of
                    None \<Rightarrow> None
                  | Some k \<Rightarrow> strlink (drop (Suc k) (drop j (drop 3 q)))))
          else
            (case strchr q CHR ''>'' of None \<Rightarrow> None | Some j \<Rightarrow> strlink (drop (Suc j) q)))"
  by pat_completeness auto
termination
  by (relation "measure length") (auto dest!: strchr_Some attr_value_shorter)

declare strlink.simps [simp del]

lemma attr_value_suffix: "attr_value q name = Some x \<Longrightarrow> suffix (case x of Inl r \<Rightarrow> r | Inr r \<Rightarrow> r) q"
  by (auto simp: attr_value_def Let_def suffix_drop split: option.splits if_splits
    intro!: suffix_order.trans[OF suffix_tl] suffix_order.trans[OF suffix_dropWhile])

lemma strlink_attr:
  \<comment> \<open>a result is behind the attribute of a tag\<close>
  "strlink p = Some r \<Longrightarrow> \<exists>q n. suffix q p \<and> length q < length p \<and> n \<in> {'' href'', '' src''} \<and> attr_value q n = Some (Inr r)"
proof (induction p rule: strlink.induct)
  case (1 p)
  show ?case
  proof (cases "strchr p CHR ''<''")
    case None
    then show ?thesis using 1(6) by (subst (asm) strlink.simps) simp
  next
    case (Some i)
    let ?q = "drop (Suc i) p"
    let ?found = "\<lambda>p. \<exists>q n. suffix q p \<and> n \<in> {'' href'', '' src''} \<and> attr_value q n = Some (Inr r)"
    have mono: "?found x \<Longrightarrow> suffix x y \<Longrightarrow> ?found y" for x y using suffix_order.trans by blast
    have lt: "suffix q ?q \<Longrightarrow> length q < length p" for q using strchr_Some[OF Some, THEN conjunct1] suffix_length_le[of q ?q] by simp
    have q: "?found ?q \<Longrightarrow> ?thesis" using lt suffix_order.trans[OF _ suffix_drop] by blast
    note s = 1(6)[unfolded strlink.simps[of p] Some option.case Let_def]
    consider (script) "strncmp_eq ?q ''script'' 6" | (link) "\<not> strncmp_eq ?q ''script'' 6" "strncmp_eq ?q ''a '' 2"
      | (frame) "\<not> strncmp_eq ?q ''script'' 6" "\<not> strncmp_eq ?q ''a '' 2" "strncmp_eq ?q ''frame '' 6 \<or> strncmp_eq ?q ''iframe '' 7"
      | (comment) "\<not> strncmp_eq ?q ''script'' 6" "\<not> strncmp_eq ?q ''a '' 2" "\<not> (strncmp_eq ?q ''frame '' 6 \<or> strncmp_eq ?q ''iframe '' 7)"
          "strncmp_eq ?q ''!--'' 3"
      | (other) "\<not> strncmp_eq ?q ''script'' 6" "\<not> strncmp_eq ?q ''a '' 2" "\<not> (strncmp_eq ?q ''frame '' 6 \<or> strncmp_eq ?q ''iframe '' 7)"
          "\<not> strncmp_eq ?q ''!--'' 3" by blast
    then have "?found ?q"
    proof cases
      case script
      then obtain j where j: "strstr ?q ''</script>'' = Some j" "strlink (drop (j + 9) ?q) = Some r" using s by (auto split: option.splits)
      then show ?thesis using 1(1)[OF Some refl script j(1)] mono[OF _ suffix_drop] by blast
    next
      case link
      then obtain x where x: "attr_value ?q '' href'' = Some x" "(case x of Inl r \<Rightarrow> strlink r | Inr r \<Rightarrow> Some r) = Some r"
        using s by (auto split: option.splits sum.splits)
      then show ?thesis proof (cases x)
        case (Inl t)
        then show ?thesis using 1(2)[OF Some refl link x(1)] x(2) attr_value_suffix[OF x(1)] mono[of t ?q] by auto
      next
        case (Inr t)
        then show ?thesis using x by auto
      qed
    next
      case frame
      then obtain x where x: "attr_value ?q '' src'' = Some x" "(case x of Inl r \<Rightarrow> strlink r | Inr r \<Rightarrow> Some r) = Some r"
        using s by (auto split: option.splits sum.splits)
      then show ?thesis proof (cases x)
        case (Inl t)
        then show ?thesis using 1(3)[OF Some refl frame x(1)] x(2) attr_value_suffix[OF x(1)] mono[of t ?q] by auto
      next
        case (Inr t)
        then show ?thesis using x by auto
      qed
    next
      case comment
      then obtain j k where j: "strstr (drop 3 ?q) ''--'' = Some j" "strchr (drop j (drop 3 ?q)) CHR ''>'' = Some k"
        "strlink (drop (Suc k) (drop j (drop 3 ?q))) = Some r" using s by (auto split: option.splits)
      have sub: "suffix (drop (Suc k) (drop j (drop 3 ?q))) ?q" by (metis drop_drop suffix_drop)
      show ?thesis using 1(4)[OF Some refl comment j(1,2,3)] mono[OF _ sub] by blast
    next
      case other
      then obtain j where j: "strchr ?q CHR ''>'' = Some j" "strlink (drop (Suc j) ?q) = Some r" using s by (auto split: option.splits)
      then show ?thesis using 1(5)[OF Some refl other j(1)] mono[OF _ suffix_drop] by blast
    qed
    then show ?thesis by (rule q)
  qed
qed

lemma strlink_suffix: "strlink p = Some r \<Longrightarrow> suffix r p \<and> length r < length p"
  using strlink_attr[of p r] attr_value_suffix[of _ _ "Inr r"] suffix_length_le suffix_order.trans
  by (metis le_less_trans sum.case(2))

section \<open>Address and text of a link\<close>

definition skip_space :: "cstr \<Rightarrow> cstr \<Rightarrow> cstr \<times> cstr" where
  \<comment> \<open>\<open>while (ISSPACE(*p)) p++;\<close> on the page in lower case and on the page\<close>
  "skip_space p s = (dropWhile isspace p, drop (length (takeWhile isspace p)) s)"

fun url_loop :: "(char \<Rightarrow> bool) \<Rightarrow> cstr \<Rightarrow> cstr \<Rightarrow> cstr \<Rightarrow> (bool \<times> cstr \<times> cstr \<times> cstr) option" where
  \<comment> \<open>the loops that fill \<open>url\<close>, here reversed; \<open>False\<close> is \<open>return 0\<close>\<close>
  "url_loop stop out [] s = None"
| "url_loop stop out (c # p) s =
     (if stop c then Some (True, out, c # p, s)
      else let out' = hd s # out in
        if length out' = UL_MAX_URL_LEN then Some (False, out', p, tl s) else url_loop stop out' p (tl s))"

fun text_loop :: "nat \<Rightarrow> cstr \<Rightarrow> cstr \<Rightarrow> cstr \<Rightarrow> cstr" where
  \<comment> \<open>\<open>while (p <= q)\<close>, which is still true \<open>k\<close> times; \<open>text\<close> reversed\<close>
  "text_loop 0 out p s = rev out"
| "text_loop (Suc k) out p s =
     (let out' = hd s # out in
      if length out' = UL_MAX_TEXT_LEN \<or> tl p = [] then [] else text_loop k out' (tl p) (tl s))"

definition getlink :: "cstr \<Rightarrow> cstr \<Rightarrow> cstr \<Rightarrow> cstr \<Rightarrow> (int \<times> cstr \<times> cstr) option" where
  \<comment> \<open>the result, \<open>url\<close> and \<open>text\<close>\<close>
  "getlink p0 s0 url0 text0 =
     (let quoted = (p0 \<noteq> [] \<and> (hd p0 = CHR 0x22 \<or> hd p0 = CHR 0x27)); end_char = hd p0;
          (p1, s1) = (if quoted then skip_space (tl p0) (tl s0) else skip_space p0 s0)
      in case url_loop (\<lambda>c. c = CHR ''>'' \<or> (if quoted then c = end_char else isspace c)) [] p1 s1 of
           None \<Rightarrow> None
         | Some (ok, out, p2, s2) \<Rightarrow>
             if \<not> ok then Some (0, rev out, text0)
             else let url = rev (if quoted then dropWhile isspace out else out); (p3, s3) = skip_space p2 s2
               in case strchr p3 CHR ''>'' of
                    None \<Rightarrow> Some (0, url, text0)
                  | Some i \<Rightarrow>
                      (case skip_space (drop (Suc i) p3) (drop (Suc i) s3) of (p4, s4) \<Rightarrow>
                         case strstr p4 ''</a'' of
                           None \<Rightarrow> Some (1, url, [])
                         | Some k \<Rightarrow> Some (1, url, text_loop k [] p4 s4)))"

section \<open>Kinds of addresses\<close>

definition is_url :: "cstr \<Rightarrow> bool" where
  "is_url url \<longleftrightarrow> strncmp_eq url ''http://'' 7"

definition is_abs_path :: "cstr \<Rightarrow> bool" where
  "is_abs_path path \<longleftrightarrow> path \<noteq> [] \<and> hd path = CHR ''/''"

definition is_rel_path :: "cstr \<Rightarrow> bool" where
  "is_rel_path url \<longleftrightarrow>
     (if strncmp_eq url ''http://'' 7 then False
      else if (case strchr url CHR '':'' of Some p \<Rightarrow> p \<le> 10 | None \<Rightarrow> False) then False
      else \<not> is_abs_path url)"

definition is_path :: "cstr \<Rightarrow> bool" where
  "is_path url \<longleftrightarrow> is_abs_path url \<or> is_rel_path url"

definition is_pathurl :: "cstr \<Rightarrow> bool" where
  "is_pathurl url \<longleftrightarrow> is_url url \<or> is_path url"

section \<open>The text of a link without its tags\<close>

function strip_loop :: "cstr \<Rightarrow> cstr \<Rightarrow> cstr option option" where
  \<comment> \<open>\<open>buffer\<close> reversed; \<open>None\<close> leaves \<open>buffer\<close>, \<open>Some None\<close> is the error\<close>
  "strip_loop out [] = (if UL_MAX_TEXT_LEN \<le> length out then None else Some (Some (rev out)))"
| "strip_loop out (c # p) =
     (if c \<noteq> CHR ''<'' then (if UL_MAX_TEXT_LEN \<le> length out then None else strip_loop (c # out) p)
      else case strchr p CHR ''>'' of
             None \<Rightarrow> Some None
           | Some i \<Rightarrow> strip_loop out (drop (Suc i) p))"
  by pat_completeness auto
termination
  by (relation "measure (\<lambda>(out, p). length p)") auto

definition trim_end :: "cstr \<Rightarrow> cstr" where
  \<comment> \<open>\<open>while (q > p && ISSPACE(*q)) q--;\<close>\<close>
  "trim_end p = (if p = [] then [] else hd p # rev (dropWhile isspace (rev (tl p))))"

function squeeze_loop :: "cstr \<Rightarrow> cstr" where
  "squeeze_loop [] = []"
| "squeeze_loop (c # p) = (if isspace c then CHR '' '' # squeeze_loop (dropWhile isspace p) else c # squeeze_loop p)"
  by pat_completeness auto
termination
  by (relation "measure length") (auto simp: less_Suc_eq_le length_dropWhile_le)

definition pure_anchor_text :: "cstr \<Rightarrow> (int \<times> cstr) option" where
  "pure_anchor_text text =
     (case strip_loop [] text of
        None \<Rightarrow> None
      | Some None \<Rightarrow> Some (-1, [])
      | Some (Some buffer) \<Rightarrow> Some (0, squeeze_loop (trim_end (dropWhile isspace buffer))))"

section \<open>The links of a page\<close>

function exrel_loop :: "cstr \<Rightarrow> cstr \<Rightarrow> link_info_t list \<Rightarrow> nat \<Rightarrow> int \<Rightarrow> (nat \<times> link_info_t list) option" where
  \<comment> \<open>\<open>while ((p = strlink(p)) != NULL)\<close>\<close>
  "exrel_loop page p infos n num =
     (case strlink p of
        None \<Rightarrow> Some (n, infos)
      | Some p' \<Rightarrow>
          if length infos \<le> n then None
          else case getlink p' (drop (length page - length p') page) (l_url (infos ! n)) (l_text (infos ! n)) of
            None \<Rightarrow> None
          | Some (ret, url, text) \<Rightarrow>
              let infos1 = infos[n := (infos ! n)\<lparr>l_url := url, l_text := text\<rparr>] in
              if ret = 0 then exrel_loop page p' infos1 n num
              else if \<not> is_pathurl url then exrel_loop page p' infos1 n num
              else case pure_anchor_text text of
                None \<Rightarrow> None
              | Some (r, text') \<Rightarrow>
                  let infos2 = infos[n := (infos ! n)\<lparr>l_url := url, l_text := text'\<rparr>] in
                  if r < 0 then exrel_loop page p' infos2 n num
                  else if int (Suc n) = num then Some (Suc n, infos2)
                  else exrel_loop page p' infos2 (Suc n) num)"
  by pat_completeness auto
termination
  by (relation "measure (\<lambda>(page, p, _). length p)") (auto dest: strlink_suffix)

declare exrel_loop.simps [simp del]

definition exrellink :: "cstr \<Rightarrow> link_info_t list \<Rightarrow> int \<Rightarrow> (nat \<times> link_info_t list) option" where
  \<comment> \<open>\<open>ul_tolowerstr\<close> fills \<open>lower_page\<close>, which has \<open>MAX_PAGE_SIZE\<close> bytes\<close>
  "exrellink page infos num =
     (if MAX_PAGE_SIZE \<le> length page then None else exrel_loop page (tolower_loop page) infos 0 num)"

section \<open>Links resolved against the address of the page\<close>

definition up_to_slash :: "cstr \<Rightarrow> cstr option" where
  \<comment> \<open>\<open>p = strrchr(dir, '/'); if (p == NULL) return ...; *(p + 1) = '\0';\<close>\<close>
  "up_to_slash dir = map_option (\<lambda>p. take (Suc p) dir) (strrchr dir CHR ''/'')"

definition finish_link :: "(link_info_t \<Rightarrow> link_info_t) \<Rightarrow> link_info_t \<Rightarrow> link_info_t option" where
  \<comment> \<open>from \<open>ul_single_path\<close> on, with what is stored at last; \<open>None\<close> is the failed assertion of \<open>ul_normalize_path\<close>\<close>
  "finish_link store l =
     (case ul_single_path (l_path l) of (r, path) \<Rightarrow>
        if r = 0 then Some no_link else map_option (\<lambda>p. store (l\<lparr>l_path := p\<rparr>)) (ul_normalize_path path))"

definition exlink_step :: "cstr \<Rightarrow> cstr \<Rightarrow> cstr \<Rightarrow> link_info_t \<Rightarrow> link_info_t option option" where
  \<comment> \<open>one turn of the loop in \<open>exlink\<close>; \<open>Some None\<close> is \<open>return -1\<close>\<close>
  "exlink_step domain port dir l =
     (if is_abs_path (l_url l) then
        (if UL_MAX_PATH_LEN \<le> length (l_url l) then Some (Some no_link)
         else map_option Some (finish_link (\<lambda>m. m\<lparr>l_domain := domain, l_port := port\<rparr>) (l\<lparr>l_path := l_url l\<rparr>)))
      else if is_rel_path (l_url l) then
        (if UL_MAX_PATH_LEN \<le> length (l_url l) + length dir then Some (Some no_link)
         else if strncasecmp_eq (l_url l) ''javascript:'' 11 then Some (Some no_link)
         else map_option Some (finish_link (\<lambda>m. m\<lparr>l_domain := domain, l_port := port\<rparr>) (l\<lparr>l_path := dir @ l_url l\<rparr>)))
      else if is_url (l_url l) then
        (case ul_parse_url (l_url l) \<lparr>p_site = Some (l_domain l), p_port = Some (l_port l), p_path = Some (l_path l)\<rparr> of (r, u) \<Rightarrow>
           if r = 0 then Some (Some no_link)
           else map_option Some (finish_link (\<lambda>m. m) (l\<lparr>l_domain := the (snd (ul_tolowerstr_singlebuf (p_site u))),
                  l_port := the (p_port u), l_path := the (p_path u)\<rparr>)))
      else Some None)"

function exlink_loop :: "cstr \<Rightarrow> cstr \<Rightarrow> cstr \<Rightarrow> nat \<Rightarrow> nat \<Rightarrow> link_info_t list \<Rightarrow> (int \<times> link_info_t list) option" where
  \<comment> \<open>\<open>for (int i = 0; i < linknum; i++)\<close>\<close>
  "exlink_loop domain port dir i linknum infos =
     (if linknum \<le> i then Some (int linknum, infos)
      else case exlink_step domain port dir (infos ! i) of
        None \<Rightarrow> None
      | Some None \<Rightarrow> Some (-1, infos)
      | Some (Some l) \<Rightarrow> exlink_loop domain port dir (Suc i) linknum (infos[i := l]))"
  by pat_completeness auto
termination
  by (relation "measure (\<lambda>(_, _, _, i, n, _). n - i)") auto

declare exlink_loop.simps [simp del]

definition exlink :: "url_parts \<Rightarrow> cstr \<Rightarrow> cstr \<Rightarrow> link_info_t list \<Rightarrow> int \<Rightarrow> (int \<times> link_info_t list) option" where
  \<comment> \<open>the local arrays start with the contents \<open>o0\<close>; the result of \<open>ul_parse_url\<close> is not looked at\<close>
  "exlink o0 url page infos num =
     (if \<not> is_url url then Some (-1, infos)
      else case ul_get_static_part url of
        None \<Rightarrow> None
      | Some staticpart_url \<Rightarrow>
          let u = snd (ul_parse_url staticpart_url o0) in
          case up_to_slash (the (p_path u)) of
            None \<Rightarrow> Some (-1, infos)
          | Some dir \<Rightarrow>
              (case exrellink page infos num of
                 None \<Rightarrow> None
               | Some (linknum, infos') \<Rightarrow> exlink_loop (the (p_site u)) (the (p_port u)) dir 0 linknum infos'))"

type_synonym extractor = "cstr \<Rightarrow> cstr \<Rightarrow> int \<Rightarrow> link_info_t list \<Rightarrow> int \<Rightarrow> (int \<times> link_info_t list) option"

definition extract_link ::
  "extractor \<Rightarrow> extractor \<Rightarrow> url_parts \<Rightarrow> cstr option \<Rightarrow> cstr option \<Rightarrow> int \<Rightarrow> link_info_t list option \<Rightarrow> int \<Rightarrow> int
     \<Rightarrow> (int \<times> link_info_t list option) option" where
  \<comment> \<open>the extractors taken over from Wget are parameters\<close>
  "extract_link wget_exlink wget1_8_exlink o0 url page pagesize link_info num method =
     (case (url, page, link_info) of
        (Some u, Some p, Some infos) \<Rightarrow>
          if int MAX_PAGE_SIZE < pagesize \<or> pagesize \<le> 0 \<or> num \<le> 0 then Some (-1, link_info)
          else map_option (\<lambda>(n, i). (n, Some i))
            (if method = UL_METHOD_BAIDU then exlink o0 u p infos num
             else if method = UL_METHOD_WGET16 then wget_exlink u p pagesize infos num
             else if method = UL_METHOD_WGET18 then wget1_8_exlink u p pagesize infos num
             else Some (-1, infos))
      | _ \<Rightarrow> Some (-1, link_info))"

section \<open>One link resolved\<close>

definition absolute_parts :: "cstr \<Rightarrow> cstr \<Rightarrow> cstr \<Rightarrow> cstr \<Rightarrow> (cstr \<times> cstr \<times> cstr) option" where
  \<comment> \<open>\<open>reldomain\<close>, \<open>relport\<close> and \<open>relpath\<close>; \<open>None\<close> is \<open>return 0\<close>\<close>
  "absolute_parts domain port dir relurl =
     (if is_abs_path relurl then
        (if UL_MAX_PATH_LEN \<le> length relurl then None else Some (domain, port, relurl))
      else if is_rel_path relurl then
        (if UL_MAX_PATH_LEN \<le> length relurl + length dir then None
         else if strncasecmp_eq relurl ''javascript:'' 11 then None
         else Some (domain, port, dir @ relurl))
      else if is_url relurl then
        (case ul_parse_url relurl local_parts of (r, u) \<Rightarrow>
           if r = 0 then None
           else Some (the (snd (ul_tolowerstr_singlebuf (p_site u))), the (p_port u), the (p_path u)))
      else None)"

definition ul_absolute_url :: "cstr option \<Rightarrow> cstr option \<Rightarrow> cstr option \<Rightarrow> (int \<times> cstr option) option" where
  \<comment> \<open>the result and \<open>absurl\<close>\<close>
  "ul_absolute_url url relurl absurl =
     (case (url, relurl, absurl) of
        (Some url, Some relurl, Some _) \<Rightarrow>
          (case ul_parse_url url local_parts of (r, u) \<Rightarrow>
             if r = 0 then Some (0, Some [])
             else case up_to_slash (the (p_path u)) of
               None \<Rightarrow> Some (0, Some [])
             | Some dir \<Rightarrow>
                 if \<not> is_pathurl relurl then Some (0, Some [])
                 else case absolute_parts (the (p_site u)) (the (p_port u)) dir relurl of
                   None \<Rightarrow> Some (0, Some [])
                 | Some (reldomain, relport, relpath) \<Rightarrow>
                     (case ul_single_path relpath of (r, path) \<Rightarrow>
                        if r = 0 then Some (0, Some [])
                        else map_option (\<lambda>p. (1, Some (if relport = [] then reldomain @ p
                               else reldomain @ CHR '':'' # relport @ p))) (ul_normalize_path path)))
      | _ \<Rightarrow> Some (0, absurl))"

section \<open>Resolved links\<close>

lemma single_path_finish:
  assumes "ul_single_path (CHR ''/'' # x) = (r, path)" and "length (CHR ''/'' # x) < UL_MAX_PATH_LEN"
  shows "r = 0 \<or> r = 1 \<and> ul_normalize_path path = Some (normalize_path_body path) \<and> good_path UL_MAX_PATH_LEN (normalize_path_body path)"
proof (cases "r = 0")
  case False
  let ?p = "delete_inter (CHR ''/'' # x)"
  obtain y where y: "?p = CHR ''/'' # y" by simp
  have "ul_single_path_nointer ?p = (r, path)" using assms(1) by (simp del: delete_inter_eq add: ul_single_path_def)
  then have n: "ul_single_path_nointer (CHR ''/'' # y) = (r, path)" unfolding y .
  then have r: "r = 1" using returns_01(3)[of "CHR ''/'' # y"] False by simp
  have "length (CHR ''/'' # y) < UL_MAX_PATH_LEN" using length_delete_inter[of "CHR ''/'' # x"] assms(2) unfolding y by linarith
  then have g: "good_path UL_MAX_PATH_LEN path" using sp_result_good[OF single_path_nointer_1(1)] n r by blast
  then have "ul_normalize_path path = Some (normalize_path_body path)" by (auto simp: good_path_def ul_normalize_path_def ul_max_defs)
  then show ?thesis using r normalize_path_good[OF g] by simp
qed simp

lemma up_to_slash_dir: "CHR ''/'' \<notin> set b \<Longrightarrow> up_to_slash (a @ CHR ''/'' # b) = Some (a @ ''/'')"
  by (simp add: up_to_slash_def strrchr_def strchr_append)

lemma up_to_slash_Some:
  assumes "up_to_slash s = Some d"
  obtains a b where "s = a @ CHR ''/'' # b" "d = a @ ''/''" "CHR ''/'' \<notin> set b"
proof (cases "CHR ''/'' \<in> set s")
  case True
  then obtain a b where "s = a @ CHR ''/'' # b" "CHR ''/'' \<notin> set b" by (metis split_list_last)
  then show ?thesis using assms up_to_slash_dir that by auto
next
  case False
  then have "strchr (rev s) CHR ''/'' = None" by (simp add: strchr_None_iff)
  then show ?thesis using assms by (simp add: up_to_slash_def strrchr_def)
qed

lemma parsed_url:
  assumes "ul_parse_url url local_parts = (r, u)"
  shows "r = 0 \<or> (\<exists>site port x. u = \<lparr>p_site = Some site, p_port = Some port, p_path = Some (CHR ''/'' # x)\<rparr>
     \<and> length site < UL_MAX_SITE_LEN \<and> length port \<le> 5 \<and> length (CHR ''/'' # x) < UL_MAX_PATH_LEN \<and> r = 1)"
proof (cases "UL_MAX_URL_LEN \<le> length url")
  case True
  then show ?thesis using assms by (simp add: ul_parse_url_def)
next
  case False
  then have b: "parse_url_body UL_MAX_SITE_LEN UL_MAX_PORT_LEN UL_MAX_PATH_LEN (delete_inter url) local_parts = (r, u)"
    using assms by (simp del: delete_inter_eq add: ul_parse_url_def)
  show ?thesis
  proof (cases "r = 0")
    case False
    obtain site port x where u: "u = \<lparr>p_site = Some site, p_port = Some port, p_path = Some (CHR ''/'' # x)\<rparr>"
      "length site < UL_MAX_SITE_LEN" "length (CHR ''/'' # x) < UL_MAX_PATH_LEN" "r = 1"
      using parsed_parts[OF b] False by (auto simp: ul_max_defs)
    have "parse_url_body UL_MAX_SITE_LEN UL_MAX_PORT_LEN UL_MAX_PATH_LEN (delete_inter url) local_parts = (1, u)" using b u(4) by simp
    then have "length port \<le> 5"
      by (rule parse_url_body_parts) (auto simp: local_parts_def u(1) UL_MAX_PORT_LEN_def split: if_splits)
    then show ?thesis using u by blast
  qed simp
qed

lemma normalize_path_body_segments:
  assumes "path \<noteq> [] \<and> hd path = CHR ''/''" and "s \<in> set (butlast (split_slash (path_mid (normalize_path_body path))))"
  shows "s \<notin> {[], ''.'', ''..''}"
proof -
  obtain p where p: "path = CHR ''/'' # p" using assms(1) by (cases path) auto
  obtain st where st: "kept st" "normalize_path_body path = (CHR ''/'' # concat (rev st)) @ path_tail path"
    "pend_pt (CHR ''/'' # concat (rev st)) (path_tail path)" "CHR 0x5C \<notin> set (concat (rev st))"
    using normalize_path_body_form[OF p] by metis
  have "path_mid (normalize_path_body path) = concat (rev st)" using path_of_parts(1)[OF st(3,4)] by (simp add: st(2))
  then show ?thesis using assms(2) resolve_fixed(2)[OF st(1)] unfolding piece_def by auto
qed

lemma pathurl_cases: "is_pathurl u \<longleftrightarrow> is_abs_path u \<or> is_rel_path u \<or> is_url u"
  by (auto simp: is_pathurl_def is_path_def)

lemma absolute_parts_fits:
  assumes "length domain < UL_MAX_SITE_LEN" "length port \<le> 5" "dir = CHR ''/'' # dir'" and "absolute_parts domain port dir rel = Some (d, p, pa)"
  shows "length d < UL_MAX_SITE_LEN \<and> length p \<le> 5 \<and> (\<exists>x. pa = CHR ''/'' # x) \<and> length pa < UL_MAX_PATH_LEN"
proof (cases "is_abs_path rel \<or> is_rel_path rel")
  case True
  then show ?thesis using assms by (cases rel) (auto simp: absolute_parts_def is_abs_path_def split: if_splits)
next
  case False
  obtain r u where u: "ul_parse_url rel local_parts = (r, u)" by (rule prod.exhaust)
  then show ?thesis using parsed_url[OF u] False assms(4)
    by (auto simp: absolute_parts_def ul_tolowerstr_singlebuf_def tolower_loop_map split: if_splits)
qed

definition link_target :: "cstr \<Rightarrow> cstr \<Rightarrow> (cstr \<times> cstr \<times> cstr) option" where
  \<comment> \<open>site, port and path that a link means on the page \<open>url\<close>, as they are written\<close>
  "link_target url rel =
     (case ul_parse_url url local_parts of (r, u) \<Rightarrow>
        if r = 0 then None
        else case up_to_slash (the (p_path u)) of
          None \<Rightarrow> None
        | Some dir \<Rightarrow> absolute_parts (the (p_site u)) (the (p_port u)) dir rel)"

lemma link_target_fits:
  assumes "link_target url rel = Some (d, p, pa)"
  shows "length d < UL_MAX_SITE_LEN \<and> length p \<le> 5 \<and> (\<exists>x. pa = CHR ''/'' # x) \<and> length pa < UL_MAX_PATH_LEN"
proof -
  obtain r u where u: "ul_parse_url url local_parts = (r, u)" by (rule prod.exhaust)
  then have "r \<noteq> 0" using assms by (auto simp: link_target_def)
  then obtain site port x where p: "u = \<lparr>p_site = Some site, p_port = Some port, p_path = Some (CHR ''/'' # x)\<rparr>"
    "length site < UL_MAX_SITE_LEN" "length port \<le> 5" using parsed_url[OF u] by auto
  then obtain dir where d: "up_to_slash (CHR ''/'' # x) = Some dir" "absolute_parts site port dir rel = Some (d, p, pa)"
    using assms u \<open>r \<noteq> 0\<close> by (auto simp: link_target_def split: option.splits)
  obtain a b where ab: "CHR ''/'' # x = a @ CHR ''/'' # b" "dir = a @ ''/''" "CHR ''/'' \<notin> set b" by (rule up_to_slash_Some[OF d(1)])
  then obtain dir' where "dir = CHR ''/'' # dir'" by (cases a) auto
  then show ?thesis using absolute_parts_fits[OF p(2,3) _ d(2)] by blast
qed

lemma absolute_url_target:
  "ul_absolute_url (Some url) (Some rel) (Some buf) =
     (case link_target url rel of
        None \<Rightarrow> Some (0, Some [])
      | Some (d, p, pa) \<Rightarrow>
          (case ul_single_path pa of (r, path) \<Rightarrow>
             if r = 0 then Some (0, Some []) else map_option (\<lambda>q. (1, Some (joined d p q))) (ul_normalize_path path)))"
proof -
  obtain r u where u: "ul_parse_url url local_parts = (r, u)" by (rule prod.exhaust)
  have "\<not> is_pathurl rel \<Longrightarrow> absolute_parts d p dir rel = None" for d p dir by (auto simp: pathurl_cases absolute_parts_def)
  then show ?thesis
    by (auto simp: ul_absolute_url_def link_target_def u joined_def split: option.splits if_splits prod.splits)
qed

text \<open>Whatever the two texts, \<open>ul_absolute_url\<close> returns. It returns 1 exactly when the link means something on the page and the
  escapes of its path are accepted, and then leaves the site, the port and the path in normal form, which has no control
  character, no fragment and no dot segment, in fewer bytes than \<open>UL_MAX_URL_LEN\<close>; otherwise it leaves the empty text.\<close>

theorem absolute_url_spec:
  "(\<exists>site port raw path. link_target url rel = Some (site, port, raw) \<and> ul_single_path raw = (1, path)
      \<and> ul_absolute_url (Some url) (Some rel) (Some buf) = Some (1, Some (joined site port (normalize_path_body path)))
      \<and> good_path UL_MAX_PATH_LEN (normalize_path_body path)
      \<and> list_all (\<lambda>s. s \<notin> {[], ''.'', ''..''}) (butlast (split_slash (path_mid (normalize_path_body path))))
      \<and> length (joined site port (normalize_path_body path)) < UL_MAX_URL_LEN)
   \<or> (link_target url rel = None \<or> (\<exists>site port raw. link_target url rel = Some (site, port, raw) \<and> fst (ul_single_path raw) = 0))
      \<and> ul_absolute_url (Some url) (Some rel) (Some buf) = Some (0, Some [])"
proof (cases "link_target url rel")
  case None
  then show ?thesis by (simp add: absolute_url_target)
next
  case (Some t)
  obtain d p pa where t: "t = (d, p, pa)" by (rule prod_cases3)
  note fits = link_target_fits[OF Some[unfolded t]]
  then obtain x where x: "pa = CHR ''/'' # x" "length (CHR ''/'' # x) < UL_MAX_PATH_LEN" by auto
  obtain r path where r: "ul_single_path pa = (r, path)" by (rule prod.exhaust)
  note fin = single_path_finish[OF r[unfolded x(1)] x(2)]
  show ?thesis
  proof (cases "r = 0")
    case True
    then show ?thesis using Some t r by (simp add: absolute_url_target)
  next
    case False
    then have ok: "r = 1" "ul_normalize_path path = Some (normalize_path_body path)" "good_path UL_MAX_PATH_LEN (normalize_path_body path)"
      using fin by simp_all
    then have len: "length (joined d p (normalize_path_body path)) < UL_MAX_URL_LEN"
      using fits by (auto simp: joined_def good_path_def ul_max_defs)
    have clean: "list_all (\<lambda>s. s \<notin> {[], ''.'', ''..''}) (butlast (split_slash (path_mid (normalize_path_body path))))"
      unfolding list_all_iff using ok(2) by (intro ballI normalize_path_body_segments) (auto simp: ul_normalize_path_def split: if_splits)
    show ?thesis using Some t r ok len clean by (intro disjI1 exI[of _ d] exI[of _ p] exI[of _ pa] exI[of _ path]) (simp add: absolute_url_target)
  qed
qed

section \<open>Relative links\<close>

definition plain_path :: "cstr \<Rightarrow> bool" where
  \<comment> \<open>bytes that no step of the normal form of a path takes for something else\<close>
  "plain_path s \<longleftrightarrow> (\<forall>c \<in> set s. urlch c \<and> c \<notin> {CHR '' '', CHR ''%'', CHR '';'', CHR ''?'', CHR 0x5C})"

lemma plain_path_append [simp]: "plain_path (s @ t) \<longleftrightarrow> plain_path s \<and> plain_path t"
  by (auto simp: plain_path_def)

lemma plain_pchar: "urlch c \<Longrightarrow> c \<notin> {CHR ''/'', CHR '';'', CHR ''?''} \<Longrightarrow> tab UL_PCHAR c"
  using esc_table_tabs(1) by (auto simp: esc_table_def)

lemma esc_em_plain:
  assumes "plain_path a" "CHR ''/'' \<notin> set a" and "r = [] \<or> hd r = CHR ''/''"
  shows "esc_em UL_PCHAR (a @ r) = (a, r)"
  using assms(1,2)
proof (induction a)
  case Nil
  have "\<not> tab UL_PCHAR CHR ''/''" by (simp add: table_specs)
  then show ?case using assms(3) by (cases r) auto
next
  case (Cons c a)
  then have "tab UL_PCHAR c" "c \<noteq> CHR ''%''" by (auto simp: plain_path_def intro: plain_pchar)
  moreover have "esc_em UL_PCHAR (a @ r) = (a, r)" using Cons by (simp add: plain_path_def)
  ultimately show ?case by (simp add: esc_step_def)
qed

lemma grp_em_plain: "plain_path s \<Longrightarrow> s = [] \<or> hd s = CHR ''/'' \<Longrightarrow> grp_em CHR ''/'' UL_PCHAR s = (s, [])"
proof (induction s rule: length_induct)
  case (1 s)
  show ?case
  proof (cases s)
    case (Cons c t)
    then have c: "c = CHR ''/''" using 1(3) by simp
    obtain a r where ar: "t = a @ r" "CHR ''/'' \<notin> set a" "r = [] \<or> hd r = CHR ''/''"
      by (cases "CHR ''/'' \<in> set t") (metis split_list_first list.sel(1), metis append_Nil2)
    have "plain_path a" "plain_path r" using 1(2) Cons ar(1) by (auto simp: plain_path_def)
    moreover have "grp_em CHR ''/'' UL_PCHAR r = (r, [])" using 1(1)[rule_format, of r] Cons ar \<open>plain_path r\<close> by auto
    ultimately show ?thesis using Cons c ar esc_em_plain[of a r] by simp
  qed simp
qed

lemma path_text_plain:
  assumes "plain_path s"
  shows "path_text (CHR ''/'' # s) = CHR ''/'' # s"
proof -
  obtain a r where ar: "s = a @ r" "CHR ''/'' \<notin> set a" "r = [] \<or> hd r = CHR ''/''"
    by (cases "CHR ''/'' \<in> set s") (metis split_list_first list.sel(1), metis append_Nil2)
  have "plain_path a" "plain_path r" using assms ar(1) by auto
  then show ?thesis using ar esc_em_plain[of a r] grp_em_plain[of r] by (simp add: path_text_def scan_em_def)
qed

lemma single_path_plain:
  assumes "plain_path s" and "length (CHR ''/'' # s) < UL_MAX_PATH_LEN"
  shows "ul_single_path (CHR ''/'' # s) = (1, CHR ''/'' # s)"
proof -
  have u: "\<forall>c \<in> set (CHR ''/'' # s). urlch c" and sp: "CHR '' '' \<notin> set (CHR ''/'' # s)" using assms(1) by (auto simp: plain_path_def)
  then have "delete_inter (CHR ''/'' # s) = CHR ''/'' # s" by (force simp: filter_id_conv urlch_def)
  moreover have "path_ok (CHR ''/'' # s)" using u by (simp add: path_ok_def dropWhile_eq_Nil_conv[THEN iffD2])
  ultimately show ?thesis
    using ul_single_path_nointer_eq[of "CHR ''/'' # s"] path_text_plain[OF assms(1)] sp assms(2)
    by (simp del: delete_inter_eq add: ul_single_path_def sp_result_def space_escaped_id esc_space_def UL_MAX_PATH_LEN_def)
qed

lemma plain_parts:
  assumes "plain_path s"
  shows "path_mid (CHR ''/'' # s) = s" "path_tail (CHR ''/'' # s) = []"
proof -
  have "pend_pt (CHR ''/'' # s) []" "CHR 0x5C \<notin> set s" using assms by (auto simp: pend_pt_def plain_path_def)
  from path_of_parts[OF this] show "path_mid (CHR ''/'' # s) = s" "path_tail (CHR ''/'' # s) = []" by simp_all
qed

lemma split_slash_dir: "split_slash (a @ CHR ''/'' # b) = split_slash a @ split_slash b"
proof (induction a)
  case (Cons c a)
  then show ?case by (cases "split_slash a") auto
qed simp

lemma resolve_dir: "ts \<noteq> [] \<Longrightarrow> resolve st (ss @ ts) = resolve (resolve st (ss @ [[]])) ts"
proof (induction ss arbitrary: st)
  case Nil
  then show ?case by simp
next
  case (Cons s ss)
  then show ?case by (simp add: resolve_Cons)
qed

lemma tolower_colon: "tolower c = CHR '':'' \<longleftrightarrow> c = CHR '':''"
proof -
  have "(of_char (tolower c) :: nat) = (if 65 \<le> (of_char c :: nat) \<and> (of_char c :: nat) \<le> 90 then of_char c + 32 else of_char c)"
    by (simp add: tolower_def)
  then show ?thesis by (subst (1 2) char_eq_nat) (auto split: if_splits)
qed

text \<open>C28: a link without scheme, escapes, parameters and query on a page in a directory \<open>dir\<close>: \<open>ul_absolute_url\<close> gives the site
  and the port of the page and the path that the segments of the link lead to, one after the other, from the root when the link
  starts with a slash and from the directory of the page otherwise; a double dot leaves a directory.\<close>

theorem absolute_url_resolves:
  assumes "ul_parse_url url local_parts = (1, \<lparr>p_site = Some site, p_port = Some port, p_path = Some (CHR ''/'' # dir @ name)\<rparr>)"
    and "dir = [] \<or> last dir = CHR ''/''" and "CHR ''/'' \<notin> set name"
    and "plain_path dir" and "plain_path rel" and "CHR '':'' \<notin> set rel" and "length dir + length rel + 1 < UL_MAX_PATH_LEN"
  shows "ul_absolute_url (Some url) (Some rel) (Some buf) =
    Some (1, Some (joined site port (root_text
      (if is_abs_path rel then resolve [] (split_slash (tl rel)) else resolve (resolve [] (split_slash dir)) (split_slash rel)))))"
proof -
  have dir: "up_to_slash (CHR ''/'' # dir @ name) = Some (CHR ''/'' # dir)"
  proof (cases "dir = []")
    case True
    then show ?thesis using up_to_slash_dir[OF assms(3), of "[]"] by simp
  next
    case False
    then obtain d where "dir = d @ ''/''" using assms(2) by (metis append_butlast_last_id)
    then show ?thesis using up_to_slash_dir[OF assms(3), of "CHR ''/'' # d"] by simp
  qed
  have no_scheme: "\<not> strncmp_eq rel ''http://'' 7"
  proof
    assume "strncmp_eq rel ''http://'' 7"
    then have "CHR '':'' \<in> set (take 7 rel)" by (simp add: strncmp_eq_def)
    then show False using assms(6) by (blast dest: in_set_takeD)
  qed
  have no_script: "\<not> strncasecmp_eq rel ''javascript:'' 11"
  proof
    assume "strncasecmp_eq rel ''javascript:'' 11"
    then have "map tolower (take 11 rel) = map tolower ''javascript:''" by (simp add: strncasecmp_eq_def)
    moreover have "CHR '':'' \<in> set (map tolower ''javascript:'')" by code_simp
    ultimately have "CHR '':'' \<in> tolower ` set (take 11 rel)" by (metis list.set_map)
    then obtain x where "x \<in> set (take 11 rel)" "tolower x = CHR '':''" by force
    then show False using assms(6) by (auto dest: in_set_takeD simp: tolower_colon)
  qed
  have fin: "(case ul_single_path (CHR ''/'' # s) of (r, path) \<Rightarrow>
       if r = 0 then Some (0, Some []) else map_option (\<lambda>q. (1, Some (joined site port q))) (ul_normalize_path path))
     = Some (1, Some (joined site port (root_text (resolve [] (split_slash s)))))"
    if "plain_path s" "length (CHR ''/'' # s) < UL_MAX_PATH_LEN" for s
    using single_path_plain[OF that] normalize_path_body_resolve[OF refl, of s] plain_parts[OF that(1)] that(2)
    by (simp add: ul_normalize_path_def ul_max_defs)
  have colon: "strchr rel CHR '':'' = None" using assms(6) by (simp add: strchr_None_iff)
  show ?thesis
  proof (cases "is_abs_path rel")
    case True
    then obtain s where s: "rel = CHR ''/'' # s" by (cases rel) (auto simp: is_abs_path_def)
    then have "plain_path s" "length (CHR ''/'' # s) < UL_MAX_PATH_LEN" using assms(5,7) by (auto simp: plain_path_def)
    from fin[OF this] show ?thesis using True assms(1,7) dir s
      by (simp add: absolute_url_target link_target_def absolute_parts_def)
  next
    case False
    have s: "plain_path (dir @ rel)" "length (CHR ''/'' # dir @ rel) < UL_MAX_PATH_LEN" using assms(4,5,7) by simp_all
    have "resolve [] (split_slash (dir @ rel)) = resolve (resolve [] (split_slash dir)) (split_slash rel)"
    proof (cases "dir = []")
      case True
      then show ?thesis by simp
    next
      case False
      then obtain d where d: "dir = d @ ''/''" using assms(2) by (metis append_butlast_last_id)
      show ?thesis using resolve_dir[of "split_slash rel" "[]" "split_slash d"] by (simp add: d split_slash_dir)
    qed
    then show ?thesis using False assms(1,7) dir fin[OF s] no_scheme no_script colon
      by (simp add: absolute_url_target link_target_def absolute_parts_def is_rel_path_def)
  qed
qed

theorem absolute_url_resolves_witness:
  "ul_absolute_url (Some ''http://a.b:81/x/y/z'') (Some ''../w/./v'') (Some []) = Some (1, Some ''a.b:81/x/w/v'')
   \<and> ul_absolute_url (Some ''http://a.b:81/x/y/z'') (Some ''/w//v/'') (Some []) = Some (1, Some ''a.b:81/w/v/'')"
proof -
  have p: "ul_parse_url ''http://a.b:81/x/y/z'' local_parts
      = (1, \<lparr>p_site = Some ''a.b'', p_port = Some ''81'', p_path = Some (CHR ''/'' # ''x/y/'' @ ''z'')\<rparr>)" by code_simp
  have c: "plain_path ''x/y/''" "plain_path ''../w/./v''" "plain_path ''/w//v/''" by code_simp+
  have r: "resolve (resolve [] (split_slash ''x/y/'')) (split_slash ''../w/./v'') = [''v'', ''w/'', ''x/'']"
    "resolve [] (split_slash ''w//v/'') = [''v/'', ''w/'']" by code_simp+
  show ?thesis
    using absolute_url_resolves[OF p _ _ c(1,2), of "[]"] absolute_url_resolves[OF p _ _ c(1,3), of "[]"] r
    by (simp add: joined_def root_text_def is_abs_path_def UL_MAX_PATH_LEN_def)
qed

section \<open>The search stays inside the page\<close>

lemma strstr_Some: "strstr s t = Some i \<Longrightarrow> prefix t (drop i s)"
  by (induction s arbitrary: i) (auto split: if_splits)

lemma in_dropWhile: "c \<in> set s \<Longrightarrow> \<not> P c \<Longrightarrow> c \<in> set (dropWhile P s)"
  by (metis Un_iff set_append set_takeWhileD takeWhile_dropWhile_id)

lemma attr_value_in_tag:
  assumes "attr_value q n = Some (Inr r)" and "CHR ''>'' \<notin> set n"
  shows "CHR ''>'' \<in> set r"
proof -
  obtain e where e1: "strchr q CHR ''>'' = Some e" using assms(1) by (cases "strchr q CHR ''>''") (auto simp: attr_value_def)
  obtain p where p1: "strstr q n = Some p" using assms(1) e1 by (cases "strstr q n") (auto simp: attr_value_def)
  have e: "strchr q CHR ''>'' = Some e" "strstr q n = Some p" "p \<le> e"
    using e1 p1 assms(1) by (auto simp: attr_value_def split: if_splits)
  let ?v = "dropWhile isspace (drop (p + length n) q)"
  have "?v \<noteq> []" "hd ?v = CHR ''=''" "r = tl ?v" using assms(1) e by (auto simp: attr_value_def Let_def split: if_splits)
  then have r: "?v = CHR ''='' # r" by (metis list.collapse)
  obtain t where t: "drop p q = n @ t" using strstr_Some[OF e(2)] by (auto elim: prefixE)
  have at: "e < length q" "q ! e = CHR ''>''" using strchr_Some[OF e(1)] by auto
  have "p + length n \<le> e"
  proof (rule ccontr)
    assume less: "\<not> p + length n \<le> e"
    then have "q ! e = drop p q ! (e - p)" using e(3) at(1) by simp
    moreover have "e - p < length n" using less e(3) by linarith
    ultimately have "q ! e \<in> set n" unfolding t by (simp add: nth_append)
    then show False using at(2) assms(2) by simp
  qed
  then have "q ! e \<in> set (drop (p + length n) q)" using at(1) nth_mem[of "e - (p + length n)" "drop (p + length n) q"] by simp
  then have "CHR ''>'' \<in> set (dropWhile isspace (drop (p + length n) q))" unfolding at(2) by (rule in_dropWhile) (simp add: isspace_def)
  then show ?thesis unfolding r by simp
qed

lemma strlink_in_tag: "strlink p = Some r \<Longrightarrow> CHR ''>'' \<in> set r"
  using strlink_attr[of p r] attr_value_in_tag by auto

lemma url_loop_stops:
  assumes "CHR ''>'' \<in> set p" and "stop CHR ''>''" and "length out < UL_MAX_URL_LEN"
  shows "\<exists>ok out' p' s'. url_loop stop out p s = Some (ok, out', p', s') \<and> (ok \<longrightarrow> length out' < UL_MAX_URL_LEN \<and> CHR ''>'' \<in> set p')"
  using assms
proof (induction stop out p s rule: url_loop.induct)
  case (2 stop out c p s)
  then show ?case by (cases "stop c") (auto simp: Let_def UL_MAX_URL_LEN_def)
qed simp

lemma text_loop_short: "length out < UL_MAX_TEXT_LEN \<Longrightarrow> length (text_loop k out p s) < UL_MAX_TEXT_LEN"
  by (induction k out p s rule: text_loop.induct) (auto simp: Let_def UL_MAX_TEXT_LEN_def)

lemma getlink_safe:
  assumes "CHR ''>'' \<in> set p"
  shows "\<exists>ret url text. getlink p s u t = Some (ret, url, text) \<and>
    (ret = 0 \<and> text = t \<or> ret = 1 \<and> length url < UL_MAX_URL_LEN \<and> length text < UL_MAX_TEXT_LEN)"
proof -
  define quoted where "quoted \<longleftrightarrow> p \<noteq> [] \<and> (hd p = CHR 0x22 \<or> hd p = CHR 0x27)"
  obtain p1 s1 where p1: "(if quoted then skip_space (tl p) (tl s) else skip_space p s) = (p1, s1)" by (rule prod.exhaust)
  have "CHR ''>'' \<in> set (if quoted then tl p else p)" using assms by (cases p) (auto simp: quoted_def)
  then have in1: "CHR ''>'' \<in> set p1"
    using p1 by (auto simp: skip_space_def isspace_def split: if_splits intro!: in_dropWhile)
  obtain ok out p2 s2 where l: "url_loop (\<lambda>c. c = CHR ''>'' \<or> (if quoted then c = hd p else isspace c)) [] p1 s1 = Some (ok, out, p2, s2)"
    "ok \<longrightarrow> length out < UL_MAX_URL_LEN \<and> CHR ''>'' \<in> set p2"
    using url_loop_stops[OF in1, of "\<lambda>c. c = CHR ''>'' \<or> (if quoted then c = hd p else isspace c)" "[]" s1] by (auto simp: UL_MAX_URL_LEN_def)
  note g = getlink_def[of p s u t, folded quoted_def, unfolded Let_def p1 prod.case l(1) option.case]
  have len: "length (dropWhile isspace out) \<le> length out" by (rule length_dropWhile_le)
  show ?thesis
    using l(2) len text_loop_short[of "[]"]
    by (auto simp: g UL_MAX_TEXT_LEN_def split: option.splits prod.splits)
qed

lemma strip_loop_fits:
  "length out + length p < UL_MAX_TEXT_LEN \<Longrightarrow>
     strip_loop out p = Some None \<or> (\<exists>b. strip_loop out p = Some (Some b) \<and> length b \<le> length out + length p)"
proof (induction out p rule: strip_loop.induct)
  case (2 out c p)
  show ?case
  proof (cases "c = CHR ''<''")
    case False
    then show ?thesis using 2 by auto
  next
    case True
    show ?thesis
    proof (cases "strchr p CHR ''>''")
      case None
      then show ?thesis using True by simp
    next
      case (Some i)
      then show ?thesis using True 2(2)[of i] 2(3) by force
    qed
  qed
qed auto

lemma squeeze_loop_length: "length (squeeze_loop p) \<le> length p"
proof (induction p rule: squeeze_loop.induct)
  case (2 c p)
  then show ?case using length_dropWhile_le[of isspace p] by (cases "isspace c") auto
qed simp

lemma trim_end_length: "length (trim_end p) \<le> length p"
  using length_dropWhile_le[of isspace "rev (tl p)"] by (cases p) (auto simp: trim_end_def)

lemma pure_anchor_text_fits:
  assumes "length text < UL_MAX_TEXT_LEN"
  shows "\<exists>r t. pure_anchor_text text = Some (r, t) \<and> (r = -1 \<and> t = [] \<or> r = 0 \<and> length t \<le> length text)"
proof -
  have "length (squeeze_loop (trim_end (dropWhile isspace b))) \<le> length text" if "length b \<le> length text" for b
    using that squeeze_loop_length[of "trim_end (dropWhile isspace b)"] trim_end_length[of "dropWhile isspace b"]
      length_dropWhile_le[of isspace b] by linarith
  then show ?thesis using strip_loop_fits[of "[]" "text"] assms by (auto simp: pure_anchor_text_def)
qed

definition link_ok :: "link_info_t \<Rightarrow> bool" where
  "link_ok l \<longleftrightarrow> is_pathurl (l_url l) \<and> length (l_url l) < UL_MAX_URL_LEN \<and> length (l_text l) < UL_MAX_TEXT_LEN"

lemma exrel_loop_none: "strlink p = None \<Longrightarrow> exrel_loop page p infos n num = Some (n, infos)"
  by (subst exrel_loop.simps) simp

lemma exrel_loop_link:
  assumes "strlink p = Some p'" and "n < length infos"
    and "getlink p' (drop (length page - length p') page) (l_url (infos ! n)) (l_text (infos ! n)) = Some (ret, url, t)"
  shows "exrel_loop page p infos n num =
    (if ret = 0 \<or> \<not> is_pathurl url then exrel_loop page p' (infos[n := (infos ! n)\<lparr>l_url := url, l_text := t\<rparr>]) n num
     else case pure_anchor_text t of
       None \<Rightarrow> None
     | Some (r, t') \<Rightarrow>
         (let infos2 = infos[n := (infos ! n)\<lparr>l_url := url, l_text := t'\<rparr>] in
          if r < 0 then exrel_loop page p' infos2 n num
          else if int (Suc n) = num then Some (Suc n, infos2)
          else exrel_loop page p' infos2 (Suc n) num))"
  using assms by (subst exrel_loop.simps) (simp add: Let_def)

lemma exrel_loop_safe:
  assumes "int n < num" and "num \<le> int (length infos)" and "\<forall>i < n. link_ok (infos ! i)"
  shows "\<exists>n' infos'. exrel_loop page p infos n num = Some (n', infos') \<and> n \<le> n' \<and> int n' \<le> num \<and> length infos' = length infos
    \<and> (\<forall>i < n'. link_ok (infos' ! i)) \<and> (\<forall>i > n'. infos' ! i = infos ! i)"
  using assms
proof (induction p arbitrary: infos n rule: length_induct)
  case (1 p)
  show ?case
  proof (cases "strlink p")
    case None
    then show ?thesis using 1(2-4) by (auto simp: exrel_loop_none)
  next
    case (Some p')
    have n: "n < length infos" using 1(2,3) by simp
    obtain ret url t where g: "getlink p' (drop (length page - length p') page) (l_url (infos ! n)) (l_text (infos ! n)) = Some (ret, url, t)"
      and fit: "ret = 0 \<or> ret = 1 \<and> length url < UL_MAX_URL_LEN \<and> length t < UL_MAX_TEXT_LEN"
      using getlink_safe[OF strlink_in_tag[OF Some]] by blast
    note step = exrel_loop_link[OF Some n g, of num]
    have next_n: "\<exists>n' infos'. exrel_loop page p' (infos[n := x]) n num = Some (n', infos') \<and> n \<le> n' \<and> int n' \<le> num
        \<and> length infos' = length infos \<and> (\<forall>i < n'. link_ok (infos' ! i)) \<and> (\<forall>i > n'. infos' ! i = infos ! i)" for x
      using 1(1)[rule_format, of p' n "infos[n := x]"] strlink_suffix[OF Some] 1(2-4) n by fastforce
    show ?thesis
    proof (cases "ret = 0 \<or> \<not> is_pathurl url")
      case True
      then show ?thesis using next_n by (simp add: step)
    next
      case False
      then have f: "length url < UL_MAX_URL_LEN" "length t < UL_MAX_TEXT_LEN" "is_pathurl url" using fit by auto
      obtain r t' where pt: "pure_anchor_text t = Some (r, t')" "r = -1 \<or> r = 0 \<and> length t' \<le> length t"
        using pure_anchor_text_fits[OF f(2)] by auto
      let ?x = "(infos ! n)\<lparr>l_url := url, l_text := t'\<rparr>"
      show ?thesis
      proof (cases "r < 0")
        case True
        then show ?thesis using next_n False pt(1) by (simp add: step)
      next
        case r: False
        then have ok: "link_ok ?x" using f pt(2) by (simp add: link_ok_def)
        have all: "\<forall>i < Suc n. link_ok (infos[n := ?x] ! i)" using ok 1(4) n by (simp add: nth_list_update less_Suc_eq)
        show ?thesis
        proof (cases "int (Suc n) = num")
          case True
          then show ?thesis using False r pt(1) all by (auto simp: step)
        next
          case more: False
          then have "int (Suc n) < num" using 1(2) by simp
          then have "\<exists>n' infos'. exrel_loop page p' (infos[n := ?x]) (Suc n) num = Some (n', infos') \<and> Suc n \<le> n' \<and> int n' \<le> num
            \<and> length infos' = length infos \<and> (\<forall>i < n'. link_ok (infos' ! i)) \<and> (\<forall>i > n'. infos' ! i = infos[n := ?x] ! i)"
            using 1(1)[rule_format, of p' "Suc n" "infos[n := ?x]"] strlink_suffix[OF Some] 1(3) all by simp
          then show ?thesis using False r pt(1) more by (fastforce simp: step)
        qed
      qed
    qed
  qed
qed



section \<open>The words of a text\<close>

function text_words :: "cstr \<Rightarrow> cstr list" where
  \<comment> \<open>the longest runs of characters that are not blank\<close>
  "text_words s = (let t = dropWhile isspace s in
     if t = [] then [] else takeWhile (\<lambda>c. \<not> isspace c) t # text_words (dropWhile (\<lambda>c. \<not> isspace c) t))"
  by pat_completeness auto
termination
proof (relation "measure length", simp)
  fix s t assume t: "t = dropWhile isspace s" "t \<noteq> []"
  then have "\<not> isspace (hd t)" by (simp add: hd_dropWhile)
  then have "length (dropWhile (\<lambda>c. \<not> isspace c) t) < length t"
    using t(2) length_dropWhile_le[of "\<lambda>c. \<not> isspace c" "tl t"] by (cases t) auto
  then show "(dropWhile (\<lambda>c. \<not> isspace c) t, s) \<in> measure length" using t(1) length_dropWhile_le[of isspace s] by simp
qed

declare text_words.simps [simp del]

fun join_words :: "cstr list \<Rightarrow> cstr" where
  "join_words [] = []"
| "join_words [w] = w"
| "join_words (w # v # ws) = w @ CHR '' '' # join_words (v # ws)"

lemma text_words_Nil [simp]: "text_words [] = []"
  by (simp add: text_words.simps)

lemma text_words_dropWhile: "text_words (dropWhile isspace s) = text_words s"
  by (subst (1 2) text_words.simps) (simp add: dropWhile_idem)

lemma text_words_space: "isspace c \<Longrightarrow> text_words (c # s) = text_words s"
  using text_words_dropWhile[of "c # s"] text_words_dropWhile[of s] by simp

lemma text_words_word:
  assumes "w \<noteq> []" "\<forall>c \<in> set w. \<not> isspace c" "r = [] \<or> isspace (hd r)"
  shows "text_words (w @ r) = w # text_words r"
proof -
  have "dropWhile isspace (w @ r) = w @ r" using assms(1,2) by (cases w) auto
  moreover have "takeWhile (\<lambda>c. \<not> isspace c) (w @ r) = w" "dropWhile (\<lambda>c. \<not> isspace c) (w @ r) = r"
    using assms(2,3) by (cases r; auto simp: takeWhile_append2 dropWhile_append2)+
  ultimately show ?thesis using assms(1) by (subst text_words.simps) simp
qed

lemma squeeze_word: "\<forall>c \<in> set w. \<not> isspace c \<Longrightarrow> squeeze_loop (w @ r) = w @ squeeze_loop r"
  by (induction w) auto

lemma squeeze_words:
  assumes "s = [] \<or> \<not> isspace (hd s) \<and> \<not> isspace (last s)"
  shows "squeeze_loop s = join_words (text_words s)"
  using assms
proof (induction s rule: length_induct)
  case (1 s)
  show ?case
  proof (cases "s = []")
    case False
    let ?w = "takeWhile (\<lambda>c. \<not> isspace c) s" and ?r = "dropWhile (\<lambda>c. \<not> isspace c) s"
    have w: "?w \<noteq> []" "\<forall>c \<in> set ?w. \<not> isspace c" using 1(2) False by (cases s; auto dest: set_takeWhileD)+
    have r: "?r = [] \<or> isspace (hd ?r)" using hd_dropWhile[of "\<lambda>c. \<not> isspace c" s] by auto
    have s: "s = ?w @ ?r" by simp
    have words: "text_words s = ?w # text_words ?r" using text_words_word[OF w r] s by metis
    have sq: "squeeze_loop s = ?w @ squeeze_loop ?r" using squeeze_word[OF w(2), of ?r] by simp
    show ?thesis
    proof (cases ?r)
      case Nil
      then have all: "\<forall>c \<in> set s. \<not> isspace c" by (simp add: dropWhile_eq_Nil_conv)
      then have "text_words s = [s]" using False text_words_word[of s "[]"] by simp
      then show ?thesis using squeeze_word[OF all, of "[]"] by simp
    next
      case (Cons c t)
      then have c: "isspace c" using r by simp
      let ?t = "dropWhile isspace t"
      have last: "\<not> isspace (last (c # t))" using 1(2) False Cons s by (metis last_appendR list.distinct(1))
      then have "\<not> (\<forall>x \<in> set t. isspace x)" using c by (cases t rule: rev_cases) auto
      then have t: "?t \<noteq> []" by (simp add: dropWhile_eq_Nil_conv)
      have "last ?t = last t" using t by (metis last_appendR takeWhile_dropWhile_id)
      moreover have "t \<noteq> []" using t by auto
      ultimately have ends: "\<not> isspace (hd ?t)" "\<not> isspace (last ?t)" using last t hd_dropWhile[OF t] by auto
      have len: "length ?t < length s" using length_dropWhile_le[of isspace t] Cons s by (metis append_eq_conv_conj length_drop
        length_append length_Cons le_imp_less_Suc less_le_trans trans_le_add2 le_refl)
      have "squeeze_loop ?t = join_words (text_words ?t)" using 1(1) ends len by blast
      moreover have "squeeze_loop s = ?w @ CHR '' '' # squeeze_loop ?t" using sq Cons c by simp
      moreover have "text_words ?r = text_words ?t" using Cons c text_words_dropWhile[of ?r] by (simp add: text_words_dropWhile)
      moreover have "text_words ?t \<noteq> []" using t by (subst text_words.simps) (simp add: Let_def dropWhile_idem)
      then obtain v vs where "text_words ?t = v # vs" by (cases "text_words ?t") auto
      ultimately show ?thesis using words by simp
    qed
  qed simp
qed

lemma text_words_spaces: "\<forall>c \<in> set r. isspace c \<Longrightarrow> text_words r = []"
  by (subst text_words.simps) simp

lemma text_words_trailing: "\<forall>c \<in> set r. isspace c \<Longrightarrow> text_words (s @ r) = text_words s"
proof (induction s rule: length_induct)
  case (1 s)
  show ?case
  proof (cases s)
    case Nil
    then show ?thesis using 1(2) by (simp add: text_words_spaces)
  next
    case (Cons c t)
    show ?thesis
    proof (cases "isspace c")
      case True
      then show ?thesis using 1 Cons by (simp add: text_words_space)
    next
      case False
      let ?w = "takeWhile (\<lambda>c. \<not> isspace c) s" and ?u = "dropWhile (\<lambda>c. \<not> isspace c) s"
      have w: "?w \<noteq> []" "\<forall>c \<in> set ?w. \<not> isspace c" using False Cons by (auto dest: set_takeWhileD)
      have u: "?u = [] \<or> isspace (hd ?u)" using hd_dropWhile[of "\<lambda>c. \<not> isspace c" s] by auto
      then have ur: "?u @ r = [] \<or> isspace (hd (?u @ r))" using 1(2) by (cases r) (auto simp: hd_append)
      have "length ?u < length s" using False Cons length_dropWhile_le[of "\<lambda>c. \<not> isspace c" t] by simp
      then have "text_words (?u @ r) = text_words ?u" using 1 by blast
      then show ?thesis using text_words_word[OF w u] text_words_word[OF w ur] by (metis append_assoc takeWhile_dropWhile_id)
    qed
  qed
qed

lemma trim_end_words:
  assumes "s = [] \<or> \<not> isspace (hd s)"
  shows "(trim_end s = [] \<or> \<not> isspace (hd (trim_end s)) \<and> \<not> isspace (last (trim_end s))) \<and> text_words (trim_end s) = text_words s"
proof (cases s)
  case (Cons c t)
  let ?k = "dropWhile isspace (rev t)"
  have t: "t = rev ?k @ rev (takeWhile isspace (rev t))" by (metis rev_append rev_rev_ident takeWhile_dropWhile_id)
  have "\<forall>c \<in> set (rev (takeWhile isspace (rev t))). isspace c" by (auto dest: set_takeWhileD)
  then have "text_words ((c # rev ?k) @ rev (takeWhile isspace (rev t))) = text_words (c # rev ?k)" by (rule text_words_trailing)
  then have "text_words (trim_end s) = text_words s" using t Cons by (simp add: trim_end_def)
  moreover have "\<not> isspace (last (c # rev ?k))" using assms Cons hd_dropWhile[of isspace "rev t"] by (auto simp: last_rev)
  ultimately show ?thesis using assms Cons by (simp add: trim_end_def)
qed (simp add: trim_end_def)

lemma pure_words: "squeeze_loop (trim_end (dropWhile isspace s)) = join_words (text_words s)"
proof -
  have "dropWhile isspace s = [] \<or> \<not> isspace (hd (dropWhile isspace s))" using hd_dropWhile[of isspace s] by auto
  from trim_end_words[OF this] squeeze_words show ?thesis by (simp add: text_words_dropWhile)
qed

section \<open>Pages\<close>

datatype chunk = Words cstr | Mark cstr

datatype item =
    Piece chunk
  | Script cstr cstr
  | Comment cstr cstr
  | Link cstr char cstr cstr "chunk list" cstr
    \<comment> \<open>start of the tag, quote, address, rest of the tag, text, end tag\<close>

abbreviation lower :: "cstr \<Rightarrow> cstr" where "lower \<equiv> map tolower"

fun piece_text :: "chunk \<Rightarrow> cstr" where
  "piece_text (Words w) = w"
| "piece_text (Mark m) = CHR ''<'' # m @ ''>''"

fun piece_words :: "chunk \<Rightarrow> cstr" where
  "piece_words (Words w) = w"
| "piece_words (Mark m) = []"

definition pieces_text :: "chunk list \<Rightarrow> cstr" where "pieces_text ps = concat (map piece_text ps)"

definition pieces_words :: "chunk list \<Rightarrow> cstr" where "pieces_words ps = concat (map piece_words ps)"

fun item_text :: "item \<Rightarrow> cstr" where
  "item_text (Piece p) = piece_text p"
| "item_text (Script x c) = CHR ''<'' # x @ c"
| "item_text (Comment b d) = ''<!--'' @ b @ ''--'' @ d @ ''>''"
| "item_text (Link h q u rest ps c) = h @ q # u @ q # rest @ CHR ''>'' # pieces_text ps @ c"

fun piece_ok :: "chunk \<Rightarrow> bool" where
  "piece_ok (Words w) \<longleftrightarrow> CHR ''<'' \<notin> set w"
| "piece_ok (Mark m) \<longleftrightarrow> CHR ''<'' \<notin> set m \<and> CHR ''>'' \<notin> set m \<and>
     (\<forall>t \<in> {''script'', ''a '', ''frame '', ''iframe '', ''!--'', ''/a''}. \<not> prefix t (lower m @ ''>''))"

fun page_item_ok :: "item \<Rightarrow> bool" where
  "page_item_ok (Piece p) \<longleftrightarrow> piece_ok p"
| "page_item_ok (Script x c) \<longleftrightarrow> prefix ''script'' (lower x) \<and> lower c = ''</script>''
     \<and> strstr (lower (x @ c)) ''</script>'' = Some (length x)"
| "page_item_ok (Comment b d) \<longleftrightarrow> strstr (lower (b @ ''--'')) ''--'' = Some (length b) \<and> CHR ''>'' \<notin> set d"
| "page_item_ok (Link h q u rest ps c) \<longleftrightarrow> lower h = ''<a href='' \<and> (q = CHR 0x22 \<or> q = CHR 0x27)
     \<and> {q, CHR ''<'', CHR ''>''} \<inter> set u = {} \<and> length u < UL_MAX_URL_LEN
     \<and> {CHR ''<'', CHR ''>''} \<inter> set rest = {} \<and> list_all piece_ok ps \<and> lower c = ''</a>''"

definition strip_space :: "cstr \<Rightarrow> cstr" where
  "strip_space u = rev (dropWhile isspace (rev (dropWhile isspace u)))"

definition link_text :: "chunk list \<Rightarrow> cstr" where
  \<comment> \<open>the words of the text without its tags; nothing when it is too long\<close>
  "link_text ps =
     (if length (dropWhile isspace (pieces_text ps)) < UL_MAX_TEXT_LEN then join_words (text_words (pieces_words ps)) else [])"

fun links_of :: "item \<Rightarrow> (cstr \<times> cstr) list" where
  "links_of (Link h q u rest ps c) = (if is_pathurl (strip_space u) then [(strip_space u, link_text ps)] else [])"
| "links_of _ = []"

section \<open>What the search skips\<close>

definition skips :: "cstr \<Rightarrow> bool" where
  "skips x \<longleftrightarrow> (\<forall>y. strlink (lower x @ y) = strlink y)"

lemma tolower_idem [simp]: "tolower (tolower c) = tolower c"
proof -
  have "(of_char (tolower c) :: nat) = (if 65 \<le> (of_char c :: nat) \<and> (of_char c :: nat) \<le> 90 then of_char c + 32 else of_char c)"
    by (simp add: tolower_def)
  then have "\<not> (65 \<le> (of_char (tolower c) :: nat) \<and> (of_char (tolower c) :: nat) \<le> 90)" by (auto split: if_splits)
  then show ?thesis by (auto simp: tolower_def)
qed

lemma tolower_other:
  assumes "\<not> (97 \<le> (of_char d :: nat) \<and> (of_char d :: nat) \<le> 122)" and "\<not> (65 \<le> (of_char d :: nat) \<and> (of_char d :: nat) \<le> 90)"
  shows "tolower c = d \<longleftrightarrow> c = d"
proof -
  have "(of_char (tolower c) :: nat) = (if 65 \<le> (of_char c :: nat) \<and> (of_char c :: nat) \<le> 90 then of_char c + 32 else of_char c)"
    by (simp add: tolower_def)
  then show ?thesis using assms by (subst (1 2) char_eq_nat) (auto split: if_splits)
qed

lemma tolower_marks [simp]:
  "tolower c = CHR ''<'' \<longleftrightarrow> c = CHR ''<''" "tolower c = CHR ''>'' \<longleftrightarrow> c = CHR ''>''"
  "tolower c = CHR 0x22 \<longleftrightarrow> c = CHR 0x22" "tolower c = CHR 0x27 \<longleftrightarrow> c = CHR 0x27"
  by (rule tolower_other; simp)+

lemma tolower_mark [simp]: "tolower CHR ''<'' = CHR ''<''" "tolower CHR ''>'' = CHR ''>''" "tolower CHR 0x22 = CHR 0x22" "tolower CHR 0x27 = CHR 0x27"
  by simp_all

lemma lower_mem: "d \<in> {CHR ''<'', CHR ''>'', CHR 0x22, CHR 0x27} \<Longrightarrow> d \<in> set (lower s) \<longleftrightarrow> d \<in> set s"
  by (induction s) (auto simp: eq_commute[of _ "tolower _"])

lemma isspace_lower: "isspace (tolower c) = isspace c"
proof -
  have "(of_char (tolower c) :: nat) = (if 65 \<le> (of_char c :: nat) \<and> (of_char c :: nat) \<le> 90 then of_char c + 32 else of_char c)"
    by (simp add: tolower_def)
  moreover have "tolower c = CHR '' '' \<longleftrightarrow> c = CHR '' ''" by (rule tolower_other) simp_all
  ultimately show ?thesis by (auto simp: isspace_def split: if_splits)
qed

lemma skips_append: "skips x \<Longrightarrow> skips y \<Longrightarrow> skips (x @ y)"
  by (simp add: skips_def)

lemma skips_concat: "\<forall>x \<in> set xs. skips x \<Longrightarrow> skips (concat xs)"
  by (induction xs) (auto intro: skips_append, simp add: skips_def)

lemma strlink_cong: "strchr p CHR ''<'' = None \<Longrightarrow> strlink p = None"
  by (subst strlink.simps) simp

lemma strlink_tag: "strchr p CHR ''<'' = Some i \<Longrightarrow> strlink p = strlink (CHR ''<'' # drop (Suc i) p)"
  by (subst (1 2) strlink.simps) simp

lemma skips_words: "CHR ''<'' \<notin> set w \<Longrightarrow> skips w"
  unfolding skips_def
proof
  fix y assume "CHR ''<'' \<notin> set w"
  then have w: "CHR ''<'' \<notin> set (lower w)" using lower_mem[of "CHR ''<''" w] by blast
  show "strlink (lower w @ y) = strlink y"
  proof (cases "strchr y CHR ''<''")
    case None
    then show ?thesis using w by (simp add: strlink_cong strchr_append)
  next
    case (Some i)
    then have "strchr (lower w @ y) CHR ''<'' = Some (length (lower w) + i)" using w by (simp add: strchr_append)
    from strlink_tag[OF this] strlink_tag[OF Some] show ?thesis by simp
  qed
qed

lemma strncmp_eq_iff: "n = length t \<Longrightarrow> strncmp_eq s t n \<longleftrightarrow> prefix t s"
  using take_is_prefix[of n s] by (auto simp: strncmp_eq_def elim: prefixE)

lemma strlink_prefixes:
  "strncmp_eq s ''script'' 6 \<longleftrightarrow> prefix ''script'' s" "strncmp_eq s ''a '' 2 \<longleftrightarrow> prefix ''a '' s"
  "strncmp_eq s ''frame '' 6 \<longleftrightarrow> prefix ''frame '' s" "strncmp_eq s ''iframe '' 7 \<longleftrightarrow> prefix ''iframe '' s"
  "strncmp_eq s ''!--'' 3 \<longleftrightarrow> prefix ''!--'' s"
  by (rule strncmp_eq_iff; simp)+

lemmas strlink_lt = strlink.simps[of "CHR ''<'' # q" for q, simplified strchr.simps if_True refl option.case strlink_prefixes Let_def, simplified]

lemma prefix_before: "prefix t (a @ c # y) \<Longrightarrow> c \<notin> set t \<Longrightarrow> prefix t a"
proof (induction t arbitrary: a)
  case (Cons d t)
  show ?case using Cons.prems Cons.IH[of "tl a"] by (cases a) simp_all
qed simp

lemma skips_mark:
  assumes "piece_ok (Mark m)"
  shows "skips (CHR ''<'' # m @ ''>'')"
  unfolding skips_def
proof
  fix y
  have no: "\<not> prefix t (lower m @ CHR ''>'' # y)" if "t \<in> {''script'', ''a '', ''frame '', ''iframe '', ''!--''}" for t
  proof
    assume "prefix t (lower m @ CHR ''>'' # y)"
    moreover have "CHR ''>'' \<notin> set t" using that by auto
    ultimately have "prefix t (lower m @ ''>'')" using prefix_before[of t "lower m" "CHR ''>''" y] by simp
    then show False using assms that by auto
  qed
  have "CHR ''>'' \<notin> set (lower m)" using assms lower_mem[of "CHR ''>''" m] by auto
  then have "strchr (lower m @ CHR ''>'' # y) CHR ''>'' = Some (length m)" by (simp add: strchr_append)
  then show "strlink (lower (CHR ''<'' # m @ ''>'') @ y) = strlink y"
    using no[of "''script''"] no[of "''a ''"] no[of "''frame ''"] no[of "''iframe ''"] no[of "''!--''"]
    by (simp add: strlink_lt)
qed

lemma strstr_longer: "strstr s t = Some k \<Longrightarrow> strstr (s @ y) t = Some k"
proof (induction s arbitrary: k)
  case Nil
  then show ?case by (cases "t = []"; cases y) auto
next
  case (Cons c s)
  show ?case
  proof (cases "prefix t (c # s)")
    case True
    then have "prefix t (c # s @ y)" by (metis append_Cons prefix_prefix)
    then show ?thesis using True Cons.prems by simp
  next
    case False
    then obtain j where j: "strstr s t = Some j" "k = Suc j" using Cons.prems by auto
    have "length t \<le> length (drop j s)" using strstr_Some[OF j(1)] prefix_length_le by blast
    then have "\<not> prefix t (c # s @ y)" using False by (auto simp: prefix_def append_eq_append_conv_if Cons_eq_append_conv)
        (metis append_eq_append_conv2 append_take_drop_id le_trans diff_le_self length_drop)
    then show ?thesis using j Cons.IH[OF j(1)] by simp
  qed
qed

lemma skips_script:
  assumes "page_item_ok (Script x c)"
  shows "skips (item_text (Script x c))"
  unfolding skips_def
proof
  fix y
  have "lower c = ''</script>''" using assms by simp
  from arg_cong[OF this, of length] have c: "length c = 9" by simp
  have "prefix ''script'' (lower x @ lower c @ y)" using assms by (auto elim: prefixE)
  moreover have "strstr (lower x @ lower c @ y) ''</script>'' = Some (length x)"
  proof -
    have "strstr (lower x @ lower c) ''</script>'' = Some (length x)" using assms unfolding page_item_ok.simps map_append by blast
    from strstr_longer[OF this, of y] show ?thesis by simp
  qed
  ultimately show "strlink (lower (item_text (Script x c)) @ y) = strlink y" using c by (simp add: strlink_lt)
qed

lemma skips_comment:
  assumes "page_item_ok (Comment b d)"
  shows "skips (item_text (Comment b d))"
  unfolding skips_def
proof
  fix y
  have m: "lower ''<!--'' = ''<!--''" "lower ''--'' = ''--''" by code_simp+
  let ?r = "''--'' @ lower d @ CHR ''>'' # y"
  have s: "strstr (lower b @ ?r) ''--'' = Some (length b)"
    using assms strstr_longer[of "lower (b @ ''--'')" "''--''" "length b" "lower d @ CHR ''>'' # y"] m by simp
  have "CHR ''>'' \<notin> set (''--'' @ lower d)" using assms lower_mem[of "CHR ''>''" d] by auto
  then have e: "strchr ?r CHR ''>'' = Some (length d + 2)" using strchr_append[of "CHR ''>''" "''--'' @ lower d" "CHR ''>'' # y"] by simp
  have "strlink (CHR ''<'' # ''!--'' @ lower b @ ?r) = strlink y" using s e by (simp add: strlink_lt)
  then show "strlink (lower (item_text (Comment b d)) @ y) = strlink y" using m by simp
qed

lemma skips_piece: "piece_ok p \<Longrightarrow> skips (piece_text p)"
proof (cases p)
  case (Words w)
  then show "piece_ok p \<Longrightarrow> skips (piece_text p)" using skips_words by simp
next
  case (Mark m)
  then show "piece_ok p \<Longrightarrow> skips (piece_text p)" using skips_mark[of m] by (simp only: piece_text.simps)
qed

lemma skips_pieces: "list_all piece_ok ps \<Longrightarrow> skips (pieces_text ps)"
  unfolding pieces_text_def by (rule skips_concat) (auto simp: list_all_iff intro: skips_piece)

section \<open>A link is found and read\<close>

lemma strlink_link:
  assumes "lower h = ''<a href=''" and "CHR ''>'' \<in> set v"
  shows "strlink (lower h @ v) = Some v"
proof -
  obtain i where i: "strchr v CHR ''>'' = Some i" using assms(2) strchr_None_iff[of v] by (cases "strchr v CHR ''>''") auto
  have q: "attr_value (''a href='' @ v) '' href'' = Some (Inr v)" by (simp add: attr_value_def i isspace_def)
  show ?thesis using q by (simp add: assms(1) strlink_lt)
qed

lemma skip_space_lower: "skip_space (lower s) s = (lower (dropWhile isspace s), dropWhile isspace s)"
proof -
  have "dropWhile isspace (lower s) = lower (dropWhile isspace s)" "length (takeWhile isspace (lower s)) = length (takeWhile isspace s)"
    by (induction s) (simp_all add: isspace_lower)
  then show ?thesis by (simp add: skip_space_def dropWhile_eq_drop)
qed

lemma url_loop_run:
  assumes "\<forall>c \<in> set u. \<not> stop (tolower c)" and "length out + length u < UL_MAX_URL_LEN" and "stop (tolower d)"
  shows "url_loop stop out (lower (u @ d # t)) (u @ d # t) = Some (True, rev u @ out, lower (d # t), d # t)"
  using assms(1,2)
proof (induction u arbitrary: out)
  case (Cons c u)
  then show ?case using Cons.IH[of "c # out"] by simp
qed (simp add: assms(3))

lemma text_loop_run:
  assumes "z \<noteq> []" and "length out < UL_MAX_TEXT_LEN"
  shows "text_loop (length t) out (lower (t @ z)) (t @ z) = (if length out + length t < UL_MAX_TEXT_LEN then rev out @ t else [])"
  using assms(2)
proof (induction t arbitrary: out)
  case (Cons c t)
  then show ?case using Cons.IH[of "c # out"] assms(1) by auto
qed simp

lemma strstr_skip_words: "CHR ''<'' \<notin> set w \<Longrightarrow> strstr (w @ r) (CHR ''<'' # t) = map_option (\<lambda>i. length w + i) (strstr r (CHR ''<'' # t))"
  by (induction w; cases "strstr r (CHR ''<'' # t)") auto

lemma strstr_pieces:
  assumes "list_all piece_ok ps"
  shows "strstr (lower (pieces_text ps) @ ''</a'' @ z) ''</a'' = Some (length (pieces_text ps))"
  using assms
proof (induction ps)
  case Nil
  then show ?case by (simp add: pieces_text_def)
next
  case (Cons p ps)
  let ?r = "lower (pieces_text ps) @ ''</a'' @ z"
  have IH: "strstr ?r ''</a'' = Some (length (pieces_text ps))" using Cons by simp
  show ?case
  proof (cases p)
    case (Words w)
    then have "CHR ''<'' \<notin> set (lower w)" using Cons.prems lower_mem[of "CHR ''<''" w] by simp
    from strstr_skip_words[OF this, of ?r "''/a''"] show ?thesis using IH Words by (simp add: pieces_text_def)
  next
    case (Mark m)
    have m: "CHR ''<'' \<notin> set (lower m @ ''>'')" "\<not> prefix ''/a'' (lower m @ ''>'')"
      using Cons.prems Mark lower_mem[of "CHR ''<''" m] by auto
    then have "\<not> prefix ''/a'' (lower m @ CHR ''>'' # ?r)" using prefix_before[of "''/a''" "lower m" "CHR ''>''" ?r] by auto
    then have "strstr (CHR ''<'' # (lower m @ ''>'') @ ?r) ''</a'' = map_option Suc (strstr ((lower m @ ''>'') @ ?r) ''</a'')" by simp
    also have "strstr ((lower m @ ''>'') @ ?r) ''</a'' = Some (length (lower m @ ''>'') + length (pieces_text ps))"
      using strstr_skip_words[OF m(1), of ?r "''/a''"] IH by simp
    finally show ?thesis using Mark by (simp add: pieces_text_def)
  qed
qed

lemma pieces_skip_space:
  assumes "list_all piece_ok ps"
  obtains ps' where "list_all piece_ok ps'" "dropWhile isspace (pieces_text ps) = pieces_text ps'"
    "pieces_text ps' = [] \<or> \<not> isspace (hd (pieces_text ps'))" "text_words (pieces_words ps') = text_words (pieces_words ps)"
proof -
  have "\<exists>ps'. list_all piece_ok ps' \<and> dropWhile isspace (pieces_text ps) = pieces_text ps'
    \<and> text_words (pieces_words ps') = text_words (pieces_words ps)"
    using assms
  proof (induction ps)
    case (Cons p ps)
    show ?case
    proof (cases p)
      case (Mark m)
      then show ?thesis using Cons.prems by (intro exI[of _ "p # ps"]) (simp add: pieces_text_def isspace_def)
    next
      case (Words w)
      show ?thesis
      proof (cases "\<forall>c \<in> set w. isspace c")
        case True
        have "text_words (w @ pieces_words ps) = text_words (pieces_words ps)"
          using True by (induction w) (simp_all add: text_words_space)
        then show ?thesis using Cons Words True by (auto simp: pieces_text_def pieces_words_def dropWhile_append)
      next
        case False
        then have d: "dropWhile isspace (w @ r) = dropWhile isspace w @ r" for r by (auto simp: dropWhile_append1)
        have w: "CHR ''<'' \<notin> set (dropWhile isspace w)" using Cons.prems Words by (auto dest: set_dropWhileD)
        have "text_words (dropWhile isspace w @ pieces_words ps) = text_words (w @ pieces_words ps)"
          using text_words_dropWhile[of "w @ pieces_words ps"] d by simp
        then show ?thesis using Cons.prems Words d w
          by (intro exI[of _ "Words (dropWhile isspace w) # ps"]) (simp add: pieces_text_def pieces_words_def)
      qed
    qed
  qed (auto simp: pieces_text_def intro: exI[of _ "[]"])
  then show ?thesis using that hd_dropWhile[of isspace "pieces_text ps"] by metis
qed

lemma strip_loop_words:
  "CHR ''<'' \<notin> set w \<Longrightarrow> length out + length w < UL_MAX_TEXT_LEN \<Longrightarrow> strip_loop out (w @ p) = strip_loop (rev w @ out) p"
  by (induction w arbitrary: out) auto

lemma strip_loop_pieces:
  assumes "list_all piece_ok ps" and "length out + length (pieces_text ps) < UL_MAX_TEXT_LEN"
  shows "strip_loop out (pieces_text ps) = Some (Some (rev out @ pieces_words ps))"
  using assms
proof (induction ps arbitrary: out)
  case Nil
  then show ?case by (simp add: pieces_text_def pieces_words_def)
next
  case (Cons p ps)
  show ?case
  proof (cases p)
    case (Words w)
    then show ?thesis using Cons.IH[of "rev w @ out"] Cons.prems strip_loop_words[of w out "pieces_text ps"]
      by (simp add: pieces_text_def pieces_words_def)
  next
    case (Mark m)
    then have "strchr (m @ CHR ''>'' # pieces_text ps) CHR ''>'' = Some (length m)" using Cons.prems by (simp add: strchr_append)
    then have "strip_loop out (CHR ''<'' # m @ CHR ''>'' # pieces_text ps) = strip_loop out (pieces_text ps)" by simp
    then show ?thesis using Cons.IH[of out] Cons.prems Mark by (simp add: pieces_text_def pieces_words_def)
  qed
qed

lemma pure_anchor_pieces:
  assumes "list_all piece_ok ps" and "length (pieces_text ps) < UL_MAX_TEXT_LEN"
  shows "pure_anchor_text (pieces_text ps) = Some (0, join_words (text_words (pieces_words ps)))"
  using strip_loop_pieces[OF assms(1), of "[]"] assms(2) by (simp add: pure_anchor_text_def pure_words)

lemma getlink_link:
  assumes "page_item_ok (Link h q u rest ps c)"
  shows "\<exists>t. getlink (lower (q # u @ q # rest @ CHR ''>'' # pieces_text ps @ c @ y)) (q # u @ q # rest @ CHR ''>'' # pieces_text ps @ c @ y) u0 t0
      = Some (1, strip_space u, t) \<and> pure_anchor_text t = Some (0, link_text ps)"
proof -
  let ?R = "rest @ CHR ''>'' # pieces_text ps @ c @ y"
  have q: "q = CHR 0x22 \<or> q = CHR 0x27" and u: "q \<notin> set u" "CHR ''>'' \<notin> set u" "length u < UL_MAX_URL_LEN"
    and rest: "CHR ''>'' \<notin> set rest" and ps: "list_all piece_ok ps" and c: "lower c = ''</a>''" using assms by auto
  have ql: "tolower q = q" "\<not> isspace q" using q by (auto simp: isspace_def)
  have c0: "c \<noteq> []" "hd c = CHR ''<''" using c by (cases c; auto)+
  let ?u = "dropWhile isspace u" and ?stop = "\<lambda>c. c = CHR ''>'' \<or> c = q"
  have 1: "dropWhile isspace (u @ q # ?R) = ?u @ q # ?R"
    using ql(2) by (simp add: dropWhile_append)
  have stop: "\<forall>c \<in> set ?u. \<not> ?stop (tolower c)" using u(1,2) q by (auto dest: set_dropWhileD)
  have len: "length ?u < UL_MAX_URL_LEN" using u(3) length_dropWhile_le[of isspace u] by simp
  have 2: "url_loop ?stop [] (lower (?u @ q # ?R)) (?u @ q # ?R) = Some (True, rev ?u, lower (q # ?R), q # ?R)"
    using url_loop_run[of ?u ?stop "[]" q ?R] stop len ql(1) by simp
  have 3: "strchr (lower (q # ?R)) CHR ''>'' = Some (Suc (length rest))"
    using q rest lower_mem[of "CHR ''>''" rest] ql(1) by (auto simp: strchr_append)
  obtain ps' where ps': "list_all piece_ok ps'" "dropWhile isspace (pieces_text ps) = pieces_text ps'"
    "pieces_text ps' = [] \<or> \<not> isspace (hd (pieces_text ps'))" "text_words (pieces_words ps') = text_words (pieces_words ps)"
    by (rule pieces_skip_space[OF ps])
  have 4: "dropWhile isspace (pieces_text ps @ c @ y) = pieces_text ps' @ c @ y"
  proof (cases "\<forall>x \<in> set (pieces_text ps). isspace x")
    case True
    then have "pieces_text ps' = []" using ps'(2) by (simp add: dropWhile_eq_Nil_conv[THEN iffD2, symmetric])
    then show ?thesis using True c0 by (cases c) (auto simp: dropWhile_append isspace_def)
  next
    case False
    then show ?thesis using ps'(2) by (auto simp: dropWhile_append1)
  qed
  have 5: "strstr (lower (pieces_text ps' @ c @ y)) ''</a'' = Some (length (pieces_text ps'))"
    using strstr_pieces[OF ps'(1), of "CHR ''>'' # lower y"] by (simp add: c)
  let ?t = "if length (pieces_text ps') < UL_MAX_TEXT_LEN then pieces_text ps' else []"
  have 6: "text_loop (length (pieces_text ps')) [] (lower (pieces_text ps' @ c @ y)) (pieces_text ps' @ c @ y) = ?t"
    using text_loop_run[of "c @ y" "[]" "pieces_text ps'"] c0 by (simp add: UL_MAX_TEXT_LEN_def)
  have "pure_anchor_text ?t = Some (0, link_text ps)"
    using pure_anchor_pieces[OF ps'(1)] pure_anchor_pieces[of "[]"] ps'(2,4) by (auto simp: link_text_def pieces_text_def pieces_words_def UL_MAX_TEXT_LEN_def)
  moreover have "getlink (lower (q # u @ q # ?R)) (q # u @ q # ?R) u0 t0 = Some (1, strip_space u, ?t)"
  proof -
    have quoted: "(lower (q # u @ q # ?R) \<noteq> [] \<and> (q = CHR 0x22 \<or> q = CHR 0x27)) = True"
      "hd (lower (q # u @ q # ?R)) = q" using q ql(1) by auto
    have s1: "skip_space (tl (lower (q # u @ q # ?R))) (tl (q # u @ q # ?R)) = (lower (?u @ q # ?R), ?u @ q # ?R)"
      using skip_space_lower[of "u @ q # ?R"] 1 by simp
    have s2: "skip_space (lower (q # ?R)) (q # ?R) = (lower (q # ?R), q # ?R)" using skip_space_lower[of "q # ?R"] ql(2) by simp
    have d: "drop (Suc (Suc (length rest))) (lower (q # ?R)) = lower (pieces_text ps @ c @ y)"
      "drop (Suc (Suc (length rest))) (q # ?R) = pieces_text ps @ c @ y" by simp_all
    have s3: "skip_space (lower (pieces_text ps @ c @ y)) (pieces_text ps @ c @ y) = (lower (pieces_text ps' @ c @ y), pieces_text ps' @ c @ y)"
      unfolding skip_space_lower 4 ..
    show ?thesis
      unfolding getlink_def Let_def quoted if_True s1 prod.case 2 option.case simp_thms if_False s2 3 d s3 5 6
      by (simp add: strip_space_def)
  qed
  ultimately show ?thesis by blast
qed

definition items_text :: "item list \<Rightarrow> cstr" where "items_text its = concat (map item_text its)"

definition page_links_of :: "item list \<Rightarrow> (cstr \<times> cstr) list" where
  \<comment> \<open>address and text of the links, in their order\<close>
  "page_links_of its = concat (map links_of its)"

abbreviation url_and_text :: "link_info_t \<Rightarrow> cstr \<times> cstr" where "url_and_text l \<equiv> (l_url l, l_text l)"

lemma exrel_loop_cong: "strlink p = strlink q \<Longrightarrow> exrel_loop page p infos n num = exrel_loop page q infos n num"
  by (subst (1 2) exrel_loop.simps) simp

lemma strlink_behind_link:
  assumes "page_item_ok (Link h q u rest ps c)"
  shows "strlink (lower (q # u @ q # rest @ CHR ''>'' # pieces_text ps @ c @ y)) = strlink (lower y)"
proof -
  have a: "skips (q # u @ q # rest @ ''>'')" using assms by (intro skips_words) auto
  have p: "skips (pieces_text ps)" using assms by (intro skips_pieces) auto
  have c: "lower c = ''</a>''" using assms by simp
  have "strlink (lower (q # u @ q # rest @ CHR ''>'' # pieces_text ps @ c @ y))
      = strlink (lower (q # u @ q # rest @ ''>'') @ lower (pieces_text ps) @ lower c @ lower y)" by simp
  also have "\<dots> = strlink (lower c @ lower y)" using a p by (simp only: skips_def)
  also have "\<dots> = strlink (lower y)" by (simp add: c strlink_lt)
  finally show ?thesis .
qed

lemma skips_item: "page_item_ok it \<Longrightarrow> links_of it = [] \<Longrightarrow> (\<forall>h q u rest ps c. it \<noteq> Link h q u rest ps c) \<Longrightarrow> skips (item_text it)"
  by (cases it) (auto intro: skips_piece skips_script skips_comment simp del: item_text.simps(2,3) page_item_ok.simps(2,3))

lemma exrel_items:
  assumes "list_all page_item_ok its" and "CHR ''<'' \<notin> set trailer" and "page = pre @ items_text its @ trailer"
    and "n < num" and "num \<le> length infos"
  shows "\<exists>infos'. exrel_loop page (lower (items_text its @ trailer)) infos n (int num) = Some (n + min (num - n) (length (page_links_of its)), infos')
    \<and> length infos' = length infos \<and> (\<forall>i < n. infos' ! i = infos ! i)
    \<and> (\<forall>i < min (num - n) (length (page_links_of its)). url_and_text (infos' ! (n + i)) = page_links_of its ! i)"
  using assms
proof (induction its arbitrary: pre infos n)
  case Nil
  have "strlink (lower trailer) = None" using Nil(2) lower_mem[of "CHR ''<''" trailer] by (intro strlink_cong) (simp add: strchr_None_iff)
  then show ?case by (simp add: items_text_def page_links_of_def exrel_loop_none)
next
  case (Cons it its)
  let ?y = "items_text its @ trailer"
  have front: "items_text (it # its) @ trailer = item_text it @ ?y" by (simp add: items_text_def)
  have ok: "page_item_ok it" "list_all page_item_ok its" using Cons.prems(1) by simp_all
  have page: "page = (pre @ item_text it) @ items_text its @ trailer" using Cons.prems(3) by (simp add: items_text_def)
  have links: "page_links_of (it # its) = links_of it @ page_links_of its" by (simp add: page_links_of_def)
  note IH = Cons.IH[OF ok(2) Cons.prems(2) page]
  show ?case
  proof (cases "\<exists>h q u rest ps c. it = Link h q u rest ps c")
    case False
    then have l: "links_of it = []" by (cases it) auto
    have "skips (item_text it)" using skips_item[OF ok(1) l] False by blast
    then have "strlink (lower (item_text it @ ?y)) = strlink (lower ?y)" by (simp add: skips_def)
    from exrel_loop_cong[OF this] show ?thesis using IH[OF Cons.prems(4,5)] links l unfolding front by simp
  next
    case True
    then obtain h q u rest ps c where it: "it = Link h q u rest ps c" by blast
    let ?V = "q # u @ q # rest @ CHR ''>'' # pieces_text ps @ c @ ?y"
    have h: "lower h = ''<a href=''" using ok(1) it by simp
    have all: "item_text it @ ?y = h @ ?V" by (simp add: it)
    have sl: "strlink (lower (item_text it @ ?y)) = Some (lower ?V)" using strlink_link[OF h, of "lower ?V"] unfolding all by simp
    have n: "n < length infos" using Cons.prems(4,5) by simp
    have o: "drop (length page - length (lower ?V)) page = ?V" using Cons.prems(3) unfolding front all by simp
    obtain t where t: "getlink (lower ?V) ?V (l_url (infos ! n)) (l_text (infos ! n)) = Some (1, strip_space u, t)"
      "pure_anchor_text t = Some (0, link_text ps)" using getlink_link[OF ok(1)[unfolded it]] by blast
    note step = exrel_loop_link[OF sl n, of page 1 "strip_space u" t "int num", unfolded o, OF t(1)]
    note behind = exrel_loop_cong[OF strlink_behind_link[OF ok(1)[unfolded it], of ?y]]
    show ?thesis
    proof (cases "is_pathurl (strip_space u)")
      case False
      then have l: "links_of it = []" by (simp add: it)
      show ?thesis using IH[of n "infos[n := (infos ! n)\<lparr>l_url := strip_space u, l_text := t\<rparr>]"] Cons.prems(4,5) step False behind links l
        unfolding front by simp
    next
      case path: True
      then have l: "links_of it = [(strip_space u, link_text ps)]" by (simp add: it)
      let ?i = "infos[n := (infos ! n)\<lparr>l_url := strip_space u, l_text := link_text ps\<rparr>]"
      show ?thesis
      proof (cases "Suc n = num")
        case True
        then have "exrel_loop page (lower (item_text it @ ?y)) infos n (int num) = Some (Suc n, ?i)" using step path t(2) by simp
        moreover have "min (num - n) (length (page_links_of (it # its))) = 1" using True links l by simp
        ultimately show ?thesis using n links l unfolding front by (intro exI[of _ ?i]) simp
      next
        case False
        have e: "exrel_loop page (lower (item_text it @ ?y)) infos n (int num) = exrel_loop page (lower ?y) ?i (Suc n) (int num)"
          using step path t(2) False behind by (simp del: map_append list.map)
        have s: "Suc n < num" "num \<le> length ?i" using Cons.prems(4,5) False by simp_all
        obtain infos' where i: "exrel_loop page (lower ?y) ?i (Suc n) (int num) = Some (Suc n + min (num - Suc n) (length (page_links_of its)), infos')"
          "length infos' = length ?i" "\<forall>i < Suc n. infos' ! i = ?i ! i"
          "\<forall>i < min (num - Suc n) (length (page_links_of its)). url_and_text (infos' ! (Suc n + i)) = page_links_of its ! i"
          using IH[OF s] by blast
        have m: "min (num - n) (length (page_links_of (it # its))) = Suc (min (num - Suc n) (length (page_links_of its)))"
          using s(1) links l by simp
        have "url_and_text (infos' ! (n + j)) = page_links_of (it # its) ! j" if "j < Suc (min (num - Suc n) (length (page_links_of its)))" for j
          using i(3,4) n links l that by (cases j) auto
        moreover have "\<forall>i < n. infos' ! i = infos ! i" using i(3) by simp
        ultimately show ?thesis using e i(1,2) unfolding front m by (intro exI[of _ infos']) simp
      qed
    qed
  qed
qed

text \<open>C25: a page of words, tags without links, scripts, comments and links \<open><a href="..." ...>...</a>\<close>, whose tags are in upper or
  lower case: \<open>exrellink\<close> returns the links in their order, up to the number asked for, each with the address between the quotes
  without the blanks around it and with the words of its text, without the tags in it, one blank apart. Links inside scripts and
  comments and addresses of another scheme are left out.\<close>

theorem page_links:
  assumes "list_all page_item_ok its" and "CHR ''<'' \<notin> set trailer" and "page = items_text its @ trailer" and "length page < MAX_PAGE_SIZE"
    and "0 < num" and "num \<le> length infos"
  shows "\<exists>infos'. exrellink page infos (int num) = Some (min num (length (page_links_of its)), infos') \<and> length infos' = length infos
    \<and> map url_and_text (take (min num (length (page_links_of its))) infos') = take num (page_links_of its)"
proof -
  obtain infos' where i: "exrel_loop page (lower page) infos 0 (int num) = Some (min num (length (page_links_of its)), infos')"
    "length infos' = length infos"
    "\<forall>i < min num (length (page_links_of its)). url_and_text (infos' ! i) = page_links_of its ! i"
    using exrel_items[OF assms(1,2), of page "[]" 0 num infos] assms(3,5,6) by auto
  have "map url_and_text (take (min num (length (page_links_of its))) infos') = take num (page_links_of its)"
    using i(2,3) assms(6) by (intro nth_equalityI) auto
  then show ?thesis using i(1,2) assms(4) by (auto simp: exrellink_def tolower_loop_map)
qed

theorem page_links_witness:
  "\<exists>infos'. exrellink (''A<p>'' @ ''<A Href='' @ [CHR 0x22] @ '' x/y '' @ [CHR 0x22] @ '' id=1>B <b>C</b></A>'' @ ''<!--<a href=z>-->'' @ ''end'')
     (replicate 3 no_link) 3 = Some (1, infos') \<and> map url_and_text (take 1 infos') = [(''x/y'', ''B C'')]"
proof -
  let ?l = "Link ''<A Href='' CHR 0x22 '' x/y '' '' id=1'' [Words ''B '', Mark ''b'', Words ''C'', Mark ''/b''] ''</A>''"
  let ?its = "[Piece (Words ''A''), Piece (Mark ''p''), ?l, Comment ''<a href=z>'' []]"
  have ok: "list_all page_item_ok ?its" by code_simp
  have l: "page_links_of ?its = [(''x/y'', ''B C'')]" by code_simp
  have t: "items_text ?its @ ''end'' = ''A<p>'' @ ''<A Href='' @ [CHR 0x22] @ '' x/y '' @ [CHR 0x22] @ '' id=1>B <b>C</b></A>'' @ ''<!--<a href=z>-->'' @ ''end''"
    by (simp add: items_text_def pieces_text_def)
  show ?thesis using page_links[OF ok, of "''end''" _ 3 "replicate 3 no_link"] unfolding l t[symmetric]
    by (auto simp: items_text_def pieces_text_def MAX_PAGE_SIZE_def)
qed

section \<open>The links of a page, resolved\<close>

lemma parse_blocks_any:
  "parse_path n pin (Some a) = parse_path n pin (Some b)"
  "parse_port n pin (Some a) = parse_port n pin (Some b)"
  "parse_site n pin (Some a) = parse_site n pin (Some b)"
  by (simp_all add: parse_path_def parse_port_def parse_site_def Let_def split: option.splits)

lemma parse_url_any:
  assumes "p_site o1 \<noteq> None" "p_port o1 \<noteq> None" "p_path o1 \<noteq> None"
    and "ul_parse_url s o1 = (r, u)" and "ul_parse_url s local_parts = (r', u')"
  shows "r = r' \<and> (r \<noteq> 0 \<longrightarrow> u = u')"
proof (cases "UL_MAX_URL_LEN \<le> length s")
  case True
  then show ?thesis using assms(4,5) by (simp add: ul_parse_url_def)
next
  case False
  obtain a b c where o: "o1 = \<lparr>p_site = Some a, p_port = Some b, p_path = Some c\<rparr>" using assms(1-3) by (cases o1) auto
  show ?thesis using False assms(4,5)
      parse_blocks_any(1)[of _ _ c "[]"] parse_blocks_any(2)[of _ _ b "[]"] parse_blocks_any(3)[of _ _ a "[]"]
    by (auto simp: ul_parse_url_def parse_url_body_def local_parts_def o Let_def split: sum.splits prod.splits)
qed

lemma exlink_step_absolute:
  assumes "is_pathurl (l_url l)"
  shows "exlink_step domain port dir l = (case absolute_parts domain port dir (l_url l) of
      None \<Rightarrow> Some (Some no_link)
    | Some (d, p, pa) \<Rightarrow> (case ul_single_path pa of (r, path) \<Rightarrow>
        if r = 0 then Some (Some no_link)
        else map_option (\<lambda>q. Some (l\<lparr>l_domain := d, l_port := p, l_path := q\<rparr>)) (ul_normalize_path path)))"
proof (cases "is_abs_path (l_url l) \<or> is_rel_path (l_url l)")
  case True
  have f: "finish_link (\<lambda>m. m\<lparr>l_domain := domain, l_port := port\<rparr>) (l\<lparr>l_path := pa\<rparr>)
    = (case ul_single_path pa of (r, path) \<Rightarrow> if r = 0 then Some no_link
        else map_option (\<lambda>q. l\<lparr>l_domain := domain, l_port := port, l_path := q\<rparr>) (ul_normalize_path path))" for pa
    by (cases l) (simp add: finish_link_def split: prod.split)
  show ?thesis using True
    by (auto simp: exlink_step_def absolute_parts_def f option.map_comp o_def split: prod.splits option.splits)
next
  case False
  let ?o = "\<lparr>p_site = Some (l_domain l), p_port = Some (l_port l), p_path = Some (l_path l)\<rparr>"
  obtain r u where 1: "ul_parse_url (l_url l) ?o = (r, u)" by (rule prod.exhaust)
  obtain r' u' where 2: "ul_parse_url (l_url l) local_parts = (r', u')" by (rule prod.exhaust)
  have any: "r = r' \<and> (r \<noteq> 0 \<longrightarrow> u = u')" by (rule parse_url_any[OF _ _ _ 1 2]) simp_all
  show ?thesis using False any assms 1 2
    by (auto simp: pathurl_cases exlink_step_def absolute_parts_def finish_link_def option.map_comp o_def split: prod.splits)
qed

definition resolved_link :: "cstr \<Rightarrow> link_info_t \<Rightarrow> link_info_t \<Rightarrow> bool" where
  \<comment> \<open>\<open>l'\<close> is the link \<open>l\<close> of the page \<open>url\<close> as \<open>ul_absolute_url\<close> resolves it, or an entry of zeros when it cannot be resolved\<close>
  "resolved_link url l l' \<longleftrightarrow>
     (\<exists>d p q. ul_absolute_url (Some url) (Some (l_url l)) (Some []) = Some (1, Some (joined d p q))
        \<and> l' = l\<lparr>l_domain := d, l_port := p, l_path := q\<rparr>)
     \<or> ul_absolute_url (Some url) (Some (l_url l)) (Some []) = Some (0, Some []) \<and> l' = no_link"

lemma exlink_step_resolved:
  assumes "is_pathurl (l_url l)" and "ul_parse_url url local_parts = (1, u)" and "up_to_slash (the (p_path u)) = Some dir"
  shows "\<exists>l'. exlink_step (the (p_site u)) (the (p_port u)) dir l = Some (Some l') \<and> resolved_link url l l'"
proof -
  have t: "link_target url (l_url l) = absolute_parts (the (p_site u)) (the (p_port u)) dir (l_url l)"
    using assms(2,3) by (simp add: link_target_def)
  note step = exlink_step_absolute[OF assms(1), of "the (p_site u)" "the (p_port u)" dir, folded t]
  note abs = absolute_url_target[of url "l_url l" "[]"]
  show ?thesis
  proof (cases "link_target url (l_url l)")
    case None
    then show ?thesis using step abs by (auto simp: resolved_link_def)
  next
    case (Some x)
    obtain d p pa where x: "x = (d, p, pa)" by (rule prod_cases3)
    then obtain y where y: "pa = CHR ''/'' # y" "length (CHR ''/'' # y) < UL_MAX_PATH_LEN" using link_target_fits[OF Some[unfolded x]] by auto
    obtain r path where r: "ul_single_path pa = (r, path)" by (rule prod.exhaust)
    note fin = single_path_finish[OF r[unfolded y(1)] y(2)]
    show ?thesis
    proof (cases "r = 0")
      case True
      then show ?thesis using step abs Some x r by (auto simp: resolved_link_def)
    next
      case False
      then have "ul_normalize_path path = Some (normalize_path_body path)" using fin by simp
      then show ?thesis using step abs Some x r False unfolding resolved_link_def
        by (intro exI[of _ "l\<lparr>l_domain := d, l_port := p, l_path := normalize_path_body path\<rparr>"]) auto
    qed
  qed
qed

lemma exlink_loop_all:
  assumes "\<forall>i < n. \<exists>l'. exlink_step domain port dir (infos ! i) = Some (Some l') \<and> P (infos ! i) l'" and "n \<le> length infos"
    and "k \<le> n" and "\<forall>i < k. P (infos ! i) (cur ! i)" and "\<forall>i \<ge> k. cur ! i = infos ! i" and "length cur = length infos"
  shows "\<exists>infos'. exlink_loop domain port dir k n cur = Some (int n, infos') \<and> length infos' = length infos
    \<and> (\<forall>i < n. P (infos ! i) (infos' ! i)) \<and> (\<forall>i \<ge> n. infos' ! i = infos ! i)"
  using assms(3-6)
proof (induction "n - k" arbitrary: k cur)
  case 0
  then have "k = n" by simp
  then show ?case using 0 by (subst exlink_loop.simps) auto
next
  case (Suc m)
  then have k: "k < n" "k < length cur" using assms(2) by auto
  obtain l' where l: "exlink_step domain port dir (infos ! k) = Some (Some l')" "P (infos ! k) l'" using assms(1) k(1) by blast
  have "exlink_loop domain port dir k n cur = exlink_loop domain port dir (Suc k) n (cur[k := l'])"
    using k(1) l(1) Suc.prems(3) by (subst exlink_loop.simps) simp
  moreover have "\<forall>i < Suc k. P (infos ! i) (cur[k := l'] ! i)" using Suc.prems(2) l(2) k(2) by (simp add: nth_list_update less_Suc_eq)
  ultimately show ?case using Suc.hyps(1)[of "Suc k" "cur[k := l']"] Suc.hyps(2) Suc.prems k(1) by simp
qed

text \<open>C27: on a page whose address has neither query nor parameters, \<open>extract_link\<close> returns the links that \<open>exrellink\<close> finds, each
  with its address and its text, and with the site, the port and the path that make up what \<open>ul_absolute_url\<close> returns for it;
  the entry of a link that \<open>ul_absolute_url\<close> refuses is filled with zeros.\<close>

theorem extract_link_resolved:
  assumes "is_url url" and "ul_parse_url url local_parts = (1, u)" and "CHR ''?'' \<notin> set url" and "CHR '';'' \<notin> set url"
    and "length page < MAX_PAGE_SIZE" and "0 < num" and "num \<le> int (length infos)" and "0 < pagesize" and "pagesize \<le> int MAX_PAGE_SIZE"
    and "p_site o1 \<noteq> None" and "p_port o1 \<noteq> None" and "p_path o1 \<noteq> None"
  shows "\<exists>n infos1 infos2. exrellink page infos num = Some (n, infos1) \<and> length infos2 = length infos
    \<and> extract_link wget wget18 o1 (Some url) (Some page) pagesize (Some infos) num UL_METHOD_BAIDU = Some (int n, Some infos2)
    \<and> (\<forall>i < n. resolved_link url (infos1 ! i) (infos2 ! i)) \<and> (\<forall>i \<ge> n. infos2 ! i = infos1 ! i)"
proof -
  obtain n infos1 where ex: "exrellink page infos num = Some (n, infos1)" "int n \<le> num" "length infos1 = length infos"
    "\<forall>i < n. link_ok (infos1 ! i)"
    using exrel_loop_safe[of 0 num infos page "tolower_loop page"] assms(5-7) by (auto simp: exrellink_def)
  have static: "ul_get_static_part url = Some url"
  proof -
    have "length url < UL_MAX_URL_LEN" using assms(2) by (simp add: ul_parse_url_def split: if_splits)
    then show ?thesis using assms(3,4) by (simp add: ul_get_static_part_def cut_at_def strchr_None_iff[THEN iffD2])
  qed
  obtain r u' where p: "ul_parse_url url o1 = (r, u')" by (rule prod.exhaust)
  then have u: "u' = u" using parse_url_any[OF assms(10-12) p assms(2)] by simp
  obtain site port x where parts: "u = \<lparr>p_site = Some site, p_port = Some port, p_path = Some (CHR ''/'' # x)\<rparr>"
    using parsed_url[OF assms(2)] by auto
  obtain dir where dir: "up_to_slash (the (p_path u)) = Some dir"
  proof (cases "up_to_slash (the (p_path u))")
    case None
    then have "strchr (rev (CHR ''/'' # x)) CHR ''/'' = None" by (simp add: parts up_to_slash_def strrchr_def)
    then show ?thesis by (simp add: strchr_None_iff)
  qed
  have n: "n \<le> length infos1" using ex(2,3) assms(7) by simp
  have "\<forall>i < n. \<exists>l'. exlink_step (the (p_site u)) (the (p_port u)) dir (infos1 ! i) = Some (Some l') \<and> resolved_link url (infos1 ! i) l'"
    using ex(4) exlink_step_resolved[OF _ assms(2) dir] by (simp add: link_ok_def)
  from exlink_loop_all[OF this n, of 0 infos1] obtain infos2
    where l: "exlink_loop (the (p_site u)) (the (p_port u)) dir 0 n infos1 = Some (int n, infos2)" "length infos2 = length infos1"
      "\<forall>i < n. resolved_link url (infos1 ! i) (infos2 ! i)" "\<forall>i \<ge> n. infos2 ! i = infos1 ! i" by auto
  have "exlink o1 url page infos num = Some (int n, infos2)"
    using assms(1) static p u dir ex(1) l(1) by (simp add: exlink_def)
  then have "extract_link wget wget18 o1 (Some url) (Some page) pagesize (Some infos) num UL_METHOD_BAIDU = Some (int n, Some infos2)"
    using assms(6,8,9) by (simp add: extract_link_def UL_METHOD_BAIDU_def)
  then show ?thesis using ex(1,3) l(2-4) by auto
qed

theorem extract_link_resolved_witness:
  "\<exists>n infos2. extract_link (\<lambda>u p s i n. None) (\<lambda>u p s i n. None) local_parts (Some ''http://A.b/x/y'')
     (Some (''<a href='' @ [CHR 0x22] @ ''../z'' @ [CHR 0x22] @ ''>B</a>'')) 100 (Some [no_link, no_link]) 2 0 = Some (n, Some infos2)
   \<and> length infos2 = 2"
proof -
  have p: "\<exists>u. ul_parse_url ''http://A.b/x/y'' local_parts = (1, u)" by (rule exI[of _ "snd (ul_parse_url ''http://A.b/x/y'' local_parts)"]) code_simp
  then obtain u where "ul_parse_url ''http://A.b/x/y'' local_parts = (1, u)" ..
  from extract_link_resolved[OF _ this, where page = "''<a href='' @ [CHR 0x22] @ ''../z'' @ [CHR 0x22] @ ''>B</a>''" and num = 2 and pagesize = 100
      and infos = "[no_link, no_link]" and wget = "\<lambda>u p s i n. None" and ?wget18.0 = "\<lambda>u p s i n. None" and ?o1.0 = local_parts]
  show ?thesis by (auto simp: is_url_def strncmp_eq_def MAX_PAGE_SIZE_def local_parts_def UL_METHOD_BAIDU_def)
qed

section \<open>Where the results are not what was meant\<close>

lemma site_of_page_as_written:
  \<comment> \<open>the site of the page is kept as it is written, that of an absolute link is set in lower case\<close>
  "ul_absolute_url (Some ''http://A.b/x'') (Some ''y'') (Some []) = Some (1, Some ''A.b/y'')
   \<and> ul_absolute_url (Some ''http://A.b/x'') (Some ''http://A.b/y'') (Some []) = Some (1, Some ''a.b/y'')"
  by (rule conjI; code_simp)

lemma slash_in_query:
  \<comment> \<open>the directory of the page ends at the last slash, even one in the query\<close>
  "ul_absolute_url (Some ''http://a.b/c?d=/e/f'') (Some ''g'') (Some []) = Some (1, Some ''a.b/c?d=/e/g'')"
  by code_simp

lemma upper_case_scheme_refused:
  "\<not> is_pathurl ''HTTP://a.b/'' \<and> fst (ul_parse_url ''HTTP://a.b/'' local_parts) = 1"
  by (rule conjI; code_simp)

lemma script_test_dead:
  \<comment> \<open>the test for scripts is not reached: their colon is among the first eleven characters\<close>
  assumes "is_rel_path u"
  shows "\<not> strncasecmp_eq u ''javascript:'' 11"
proof
  assume "strncasecmp_eq u ''javascript:'' 11"
  then have j: "map tolower (take 11 u) = map tolower ''javascript:''" by (simp add: strncasecmp_eq_def)
  moreover have "CHR '':'' \<in> set (map tolower ''javascript:'')" by code_simp
  ultimately have "CHR '':'' \<in> tolower ` set (take 11 u)" by (metis list.set_map)
  then have "CHR '':'' \<in> set (take 11 u)" by (auto simp: tolower_colon eq_commute[of "CHR '':''"])
  then obtain i where i: "strchr (take 11 u) CHR '':'' = Some i" using strchr_None_iff[of "take 11 u"] by (cases "strchr (take 11 u) CHR '':''") auto
  from strchr_Some[OF i] have "i \<le> 10" "strchr u CHR '':'' = Some i"
    by (auto simp: strchr_Some_iff min_def split: if_splits)
  then show False using assms by (auto simp: is_rel_path_def split: if_splits)
qed

lemma failed_parse_ignored:
  \<comment> \<open>a port that is no number makes \<open>ul_parse_url\<close> fail before it writes the site; the links get what was in the array\<close>
  "exlink \<lparr>p_site = Some ''junk'', p_port = Some [], p_path = Some []\<rparr> ''http://a.b:x/c'' ''<a href=d>e</a>'' [no_link] 1
     = Some (1, [\<lparr>l_domain = ''junk'', l_port = [], l_path = ''/d'', l_text = ''e'', l_url = ''d''\<rparr>])"
proof -
  have l: "exrel_loop ''<a href=d>e</a>'' (tolower_loop ''<a href=d>e</a>'') [no_link] 0 1 = Some (1, [no_link\<lparr>l_url := ''d'', l_text := ''e''\<rparr>])"
    by code_simp
  have "\<not> MAX_PAGE_SIZE \<le> length ''<a href=d>e</a>''" by (simp add: MAX_PAGE_SIZE_def)
  then have x: "exrellink ''<a href=d>e</a>'' [no_link] 1 = Some (1, [no_link\<lparr>l_url := ''d'', l_text := ''e''\<rparr>])"
    unfolding exrellink_def l by simp
  have u: "is_url ''http://a.b:x/c''" "ul_get_static_part ''http://a.b:x/c'' = Some ''http://a.b:x/c''" "up_to_slash ''/c'' = Some ''/''"
    "ul_parse_url ''http://a.b:x/c'' \<lparr>p_site = Some ''junk'', p_port = Some [], p_path = Some []\<rparr>
       = (0, \<lparr>p_site = Some ''junk'', p_port = Some [], p_path = Some ''/c''\<rparr>)" by code_simp+
  have r: "exlink_loop ''junk'' [] ''/'' 0 1 [no_link\<lparr>l_url := ''d'', l_text := ''e''\<rparr>]
      = Some (1, [\<lparr>l_domain = ''junk'', l_port = [], l_path = ''/d'', l_text = ''e'', l_url = ''d''\<rparr>])" by code_simp
  show ?thesis using u r by (simp add: exlink_def x Let_def)
qed

end
