(* ===== verification/Ul_Circle.thy ===== *)
theory Ul_Circle
  imports Ul_Prelude
begin

text \<open>
  The byte ring buffer of \<^verbatim>\<open>ullib/src/ul_circle.cpp\<close>. The record \<open>circleB_t\<close> is the
  struct of the header; the storage \<open>pbyBuf\<close> is the list of its bytes. A null
  \<open>pstCB\<close> or data pointer is \<open>None\<close>. A \<open>memcpy\<close> outside the storage or past the data
  the caller supplies is undefined behaviour, the outer \<open>None\<close> of the operations.
  The ring is proved to implement a bounded first-in first-out byte queue, stated as
  the locale \<open>bounded_fifo\<close>.
\<close>

section \<open>The code\<close>

record circleB_t =
  pbyBuf :: "char list"
  sBufLen :: int
  sHead :: int
  sTail :: int

definition DEF_ERR_CQFULL :: int where "DEF_ERR_CQFULL = -2"
definition DEF_ERR_NOTINIT :: int where "DEF_ERR_NOTINIT = -3"
definition DEF_ERR_CQEMPTY :: int where "DEF_ERR_CQEMPTY = -4"
definition DEF_ERR_INVALID_PARAM :: int where "DEF_ERR_INVALID_PARAM = -8"

lemmas cb_err_defs = DEF_ERR_CQFULL_def DEF_ERR_NOTINIT_def DEF_ERR_CQEMPTY_def DEF_ERR_INVALID_PARAM_def

definition pstCBinit :: "int \<Rightarrow> bool \<Rightarrow> bool \<Rightarrow> circleB_t option" where
  \<comment> \<open>the two booleans: whether each \<open>ul_malloc\<close> succeeds; it fills what it returns with zeros\<close>
  "pstCBinit npmBufSize malloc1 malloc2 =
     (if npmBufSize < 2 then None
      else if \<not> malloc1 then None
      else if \<not> malloc2 then None
      else Some \<lparr>pbyBuf = replicate (nat (npmBufSize + 1)) NUL,
                 sBufLen = npmBufSize + 1, sHead = 0, sTail = 0\<rparr>)"

definition memcpy_to :: "char list \<Rightarrow> int \<Rightarrow> char list \<Rightarrow> char list option" where
  \<comment> \<open>\<open>memcpy(buf + off, src, len(src))\<close>; \<open>None\<close> when it writes outside \<open>buf\<close>\<close>
  "memcpy_to buf off src =
     (if 0 \<le> off \<and> nat off + length src \<le> length buf
      then Some (take (nat off) buf @ src @ drop (nat off + length src) buf) else None)"

definition memcpy_from :: "char list \<Rightarrow> int \<Rightarrow> int \<Rightarrow> char list option" where
  \<comment> \<open>the bytes \<open>memcpy(dst, buf + off, n)\<close> copies; \<open>None\<close> when it reads outside \<open>buf\<close>\<close>
  "memcpy_from buf off n =
     (if 0 \<le> off \<and> 0 \<le> n \<and> nat off + nat n \<le> length buf
      then Some (take (nat n) (drop (nat off) buf)) else None)"

definition nCBput :: "circleB_t option \<Rightarrow> char list option \<Rightarrow> int \<Rightarrow> (int \<times> circleB_t option) option" where
  "nCBput pstCB pbyPut nSize =
     (case pbyPut of
        None \<Rightarrow> Some (DEF_ERR_INVALID_PARAM, pstCB)
      | Some dat \<Rightarrow>
          if nSize \<le> 0 then Some (DEF_ERR_INVALID_PARAM, pstCB)
          else case pstCB of
            None \<Rightarrow> Some (DEF_ERR_NOTINIT, pstCB)
          | Some cb \<Rightarrow>
              if (sHead cb - 1 - sTail cb + sBufLen cb) smod sBufLen cb < nSize
              then Some (DEF_ERR_CQFULL, pstCB)
              else if sTail cb < sHead cb \<or> nSize \<le> sBufLen cb - sTail cb
              then do {
                src \<leftarrow> memcpy_from dat 0 nSize;
                buf \<leftarrow> memcpy_to (pbyBuf cb) (sTail cb) src;
                Some (0, Some (cb\<lparr>pbyBuf := buf, sTail := (sTail cb + nSize) smod sBufLen cb\<rparr>)) }
              else let sTmpLen = sBufLen cb - sTail cb in do {
                src1 \<leftarrow> memcpy_from dat 0 sTmpLen;
                buf1 \<leftarrow> memcpy_to (pbyBuf cb) (sTail cb) src1;
                src2 \<leftarrow> memcpy_from dat sTmpLen (nSize - sTmpLen);
                buf2 \<leftarrow> memcpy_to buf1 0 src2;
                Some (0, Some (cb\<lparr>pbyBuf := buf2, sTail := nSize - sTmpLen\<rparr>)) })"

definition nCBget :: "circleB_t option \<Rightarrow> bool \<Rightarrow> int \<Rightarrow> (int \<times> char list \<times> circleB_t option) option" where
  \<comment> \<open>the boolean: \<open>pbyGet\<close> is not null; the list: the bytes stored through \<open>pbyGet\<close>\<close>
  "nCBget pstCB pbyGet nSize =
     (if \<not> pbyGet \<or> nSize \<le> 0 then Some (DEF_ERR_INVALID_PARAM, [], pstCB)
      else case pstCB of
        None \<Rightarrow> Some (DEF_ERR_NOTINIT, [], pstCB)
      | Some cb \<Rightarrow>
          if (sTail cb - sHead cb + sBufLen cb) smod sBufLen cb < nSize
          then Some (DEF_ERR_CQEMPTY, [], pstCB)
          else if sHead cb < sTail cb \<or> nSize \<le> sBufLen cb - sHead cb
          then do {
            out \<leftarrow> memcpy_from (pbyBuf cb) (sHead cb) nSize;
            Some (0, out, Some (cb\<lparr>sHead := (sHead cb + nSize) smod sBufLen cb\<rparr>)) }
          else let sTmpLen = sBufLen cb - sHead cb in do {
            out1 \<leftarrow> memcpy_from (pbyBuf cb) (sHead cb) sTmpLen;
            out2 \<leftarrow> memcpy_from (pbyBuf cb) 0 (nSize - sTmpLen);
            Some (0, out1 @ out2, Some (cb\<lparr>sHead := nSize - sTmpLen\<rparr>)) })"

definition nCBlookup :: "circleB_t option \<Rightarrow> bool \<Rightarrow> int \<Rightarrow> (int \<times> char list \<times> circleB_t option) option" where
  "nCBlookup pstCB pbyGet nSize =
     (if \<not> pbyGet \<or> nSize \<le> 0 then Some (DEF_ERR_INVALID_PARAM, [], pstCB)
      else case pstCB of
        None \<Rightarrow> Some (DEF_ERR_NOTINIT, [], pstCB)
      | Some cb \<Rightarrow>
          if (sTail cb - sHead cb + sBufLen cb) smod sBufLen cb < nSize
          then Some (DEF_ERR_CQEMPTY, [], pstCB)
          else let sSaveHead = sHead cb in do {
            (out, cb') \<leftarrow>
              (if sHead cb < sTail cb \<or> nSize \<le> sBufLen cb - sHead cb
               then do {
                 out \<leftarrow> memcpy_from (pbyBuf cb) (sHead cb) nSize;
                 Some (out, cb\<lparr>sHead := (sHead cb + nSize) smod sBufLen cb\<rparr>) }
               else let sTmpLen = sBufLen cb - sHead cb in do {
                 out1 \<leftarrow> memcpy_from (pbyBuf cb) (sHead cb) sTmpLen;
                 out2 \<leftarrow> memcpy_from (pbyBuf cb) 0 (nSize - sTmpLen);
                 Some (out1 @ out2, cb\<lparr>sHead := nSize - sTmpLen\<rparr>) });
            Some (0, out, Some (cb'\<lparr>sHead := sSaveHead\<rparr>)) })"

definition nCBgetdatalen :: "circleB_t option \<Rightarrow> int" where
  "nCBgetdatalen pstCB =
     (case pstCB of
        None \<Rightarrow> DEF_ERR_NOTINIT
      | Some cb \<Rightarrow> if sTail cb = sHead cb then 0
                  else (sTail cb - sHead cb + sBufLen cb) smod sBufLen cb)"

definition nCBgetbufreelen :: "circleB_t option \<Rightarrow> int" where
  "nCBgetbufreelen pstCB =
     (case pstCB of
        None \<Rightarrow> DEF_ERR_NOTINIT
      | Some cb \<Rightarrow> (let freelen = sBufLen cb - nCBgetdatalen pstCB - 10
                   in if freelen < 0 then 0 else freelen))"

section \<open>The invariant and the abstract queue\<close>

definition cb_inv :: "circleB_t \<Rightarrow> bool" where
  "cb_inv cb \<longleftrightarrow> 3 \<le> sBufLen cb \<and> length (pbyBuf cb) = nat (sBufLen cb)
      \<and> 0 \<le> sHead cb \<and> sHead cb < sBufLen cb \<and> 0 \<le> sTail cb \<and> sTail cb < sBufLen cb"

definition cb_list :: "circleB_t \<Rightarrow> char list" where
  \<comment> \<open>the bytes in the ring, oldest first\<close>
  "cb_list cb =
     (let h = nat (sHead cb); t = nat (sTail cb)
      in if h \<le> t then take (t - h) (drop h (pbyBuf cb))
         else drop h (pbyBuf cb) @ take t (pbyBuf cb))"

definition cb_cap :: "circleB_t \<Rightarrow> nat" where
  "cb_cap cb = nat (sBufLen cb) - 1"

lemma smod_wrap: "0 \<le> (a::int) \<Longrightarrow> a < 2 * b \<Longrightarrow> a smod b = (if a < b then a else a - b)"
proof -
  assume a: "0 \<le> a" "a < 2 * b"
  then have "a smod b = a mod b" by (cases "a = 0") (auto simp: smod_int_alt_def)
  moreover have "a mod b = (if a < b then a else a - b)"
  proof (cases "a < b")
    case False
    have "a mod b = (a - b) mod b" by simp
    also have "\<dots> = a - b" using a False by (intro mod_pos_pos_trivial) auto
    finally show ?thesis using False by simp
  qed (use a in simp)
  ultimately show ?thesis by simp
qed

lemma length_cb_list: "cb_inv cb \<Longrightarrow>
   int (length (cb_list cb)) = (if sHead cb \<le> sTail cb then sTail cb - sHead cb else sTail cb - sHead cb + sBufLen cb)"
  by (auto simp: cb_inv_def cb_list_def Let_def)

lemma cb_datalen_smod: "cb_inv cb \<Longrightarrow>
   (sTail cb - sHead cb + sBufLen cb) smod sBufLen cb = int (length (cb_list cb))"
  by (subst length_cb_list) (auto simp: cb_inv_def smod_wrap)

lemma cb_freelen_smod: "cb_inv cb \<Longrightarrow>
   (sHead cb - 1 - sTail cb + sBufLen cb) smod sBufLen cb = int (cb_cap cb) - int (length (cb_list cb))"
  by (subst length_cb_list) (auto simp: cb_inv_def smod_wrap cb_cap_def)


subsection \<open>Copying into and out of the storage\<close>

lemma memcpy_from_Some [simp]:
  "0 \<le> off \<Longrightarrow> 0 \<le> n \<Longrightarrow> nat off + nat n \<le> length buf \<Longrightarrow>
   memcpy_from buf off n = Some (take (nat n) (drop (nat off) buf))"
  by (simp add: memcpy_from_def)

lemma memcpy_to_Some [simp]:
  "0 \<le> off \<Longrightarrow> nat off + length src \<le> length buf \<Longrightarrow>
   memcpy_to buf off src = Some (take (nat off) buf @ src @ drop (nat off + length src) buf)"
  by (simp add: memcpy_to_def)

lemma seg_write_after:
  \<comment> \<open>writing \<open>src\<close> at the end of the live segment \<open>[h, t)\<close>\<close>
  assumes "h \<le> t" "t + length src \<le> length buf"
  shows "take (t + length src - h) (drop h (take t buf @ src @ drop (t + length src) buf))
         = take (t - h) (drop h buf) @ src"
  using assms by (simp add: drop_take)

lemma seg_write_before:
  \<comment> \<open>writing \<open>src\<close> at \<open>t\<close>, below the part of the ring that starts at \<open>h\<close>\<close>
  assumes "t + length src \<le> h" "h \<le> length buf"
  shows "drop h (take t buf @ src @ drop (t + length src) buf) = drop h buf"
    and "take (t + length src) (take t buf @ src @ drop (t + length src) buf) = take t buf @ src"
  using assms by simp_all

subsection \<open>What each operation does\<close>

lemma pstCBinit_spec:
  "pstCBinit n m1 m2 = Some cb \<Longrightarrow> cb_inv cb \<and> cb_list cb = [] \<and> int (cb_cap cb) = n"
  by (auto simp: pstCBinit_def cb_inv_def cb_list_def cb_cap_def split: if_splits)

lemma put_full:
  "cb_inv cb \<Longrightarrow> 0 < n \<Longrightarrow> int (cb_cap cb) < int (length (cb_list cb)) + n \<Longrightarrow>
   nCBput (Some cb) (Some dat) n = Some (DEF_ERR_CQFULL, Some cb)"
  by (simp add: nCBput_def cb_freelen_smod)

lemma put_straight:
  assumes inv: "cb_inv cb" and n: "0 < n" "nat n \<le> length dat"
    and room: "int (length (cb_list cb)) + n \<le> int (cb_cap cb)"
    and straight: "sTail cb < sHead cb \<or> n \<le> sBufLen cb - sTail cb"
  shows "\<exists>cb'. nCBput (Some cb) (Some dat) n = Some (0, Some cb') \<and> cb_inv cb'
           \<and> cb_list cb' = cb_list cb @ take (nat n) dat \<and> cb_cap cb' = cb_cap cb"
proof -
  define buf where "buf = pbyBuf cb"
  define src where "src = take (nat n) dat"
  define h t L where "h = nat (sHead cb)" and "t = nat (sTail cb)" and "L = nat (sBufLen cb)"
  have src: "length src = nat n" using n by (simp add: src_def)
  have L: "length buf = L" "3 \<le> L" "h < L" "t < L"
    and ints: "sHead cb = int h" "sTail cb = int t" "sBufLen cb = int L"
    using inv by (auto simp: cb_inv_def h_def t_def L_def buf_def)
  have fit: "t + nat n \<le> L" and gap: "t < h \<Longrightarrow> t + nat n < h" and gap0: "h \<le> t \<Longrightarrow> t + nat n < L + h"
    using room straight n length_cb_list[OF inv] L by (auto simp: ints cb_cap_def split: if_splits)
  define new where "new = take t buf @ src @ drop (t + nat n) buf"
  define cb' where "cb' = cb\<lparr>pbyBuf := new, sTail := (sTail cb + n) smod sBufLen cb\<rparr>"
  have tail: "sTail cb' = (if t + nat n < L then int (t + nat n) else 0)"
    using n L fit by (auto simp: cb'_def ints smod_wrap)
  have "nCBput (Some cb) (Some dat) n = Some (0, Some cb')"
    using straight n room fit L src
    by (simp add: nCBput_def cb_freelen_smod[OF inv, unfolded ints] ints cb'_def new_def
        flip: src_def buf_def)
  moreover have "cb_inv cb'"
    using inv n fit L src by (auto simp: cb_inv_def tail) (auto simp: cb'_def new_def ints)
  moreover have "cb_list cb' = cb_list cb @ src"
  proof (cases "t < h")
    case True
    with gap have "t + nat n < h" by simp
    with seg_write_before[of t src h buf] src L True n show ?thesis
      by (simp add: cb_list_def tail Let_def ints) (simp add: cb'_def new_def ints flip: buf_def)
  next
    case False
    then have a: "take (t + nat n - h) (drop h new) = take (t - h) (drop h buf) @ src"
      using seg_write_after[of h t src buf] src L fit by (simp add: new_def)
    have l: "length new = L" using src L fit by (simp add: new_def)
    have c: "cb_list cb = take (t - h) (drop h buf)"
      using False by (simp add: cb_list_def Let_def ints flip: buf_def)
    have heads: "sHead cb' = int h" "pbyBuf cb' = new" by (simp_all add: cb'_def ints)
    show ?thesis
    proof (cases "t + nat n < L")
      case True
      moreover have "nat (int t + n) = t + nat n" using n by simp
      ultimately show ?thesis using False a c n by (simp add: cb_list_def[of cb'] tail Let_def heads)
    next
      case wrap0: False
      with fit gap0 False have "t + nat n = L" "0 < h" by auto
      with a c l False show ?thesis by (simp add: cb_list_def[of cb'] tail Let_def heads)
    qed
  qed
  ultimately show ?thesis by (intro exI[of _ cb']) (simp add: src_def cb_cap_def cb'_def)
qed

lemma put_wrap:
  assumes inv: "cb_inv cb" and n: "0 < n" "nat n \<le> length dat"
    and room: "int (length (cb_list cb)) + n \<le> int (cb_cap cb)"
    and wrap: "\<not> (sTail cb < sHead cb \<or> n \<le> sBufLen cb - sTail cb)"
  shows "\<exists>cb'. nCBput (Some cb) (Some dat) n = Some (0, Some cb') \<and> cb_inv cb'
           \<and> cb_list cb' = cb_list cb @ take (nat n) dat \<and> cb_cap cb' = cb_cap cb"
proof -
  define buf where "buf = pbyBuf cb"
  define h t L where "h = nat (sHead cb)" and "t = nat (sTail cb)" and "L = nat (sBufLen cb)"
  have L: "length buf = L" "3 \<le> L" "h < L" "t < L"
    and ints: "sHead cb = int h" "sTail cb = int t" "sBufLen cb = int L"
    using inv by (auto simp: cb_inv_def h_def t_def L_def buf_def)
  have ht: "h \<le> t" using wrap by (simp add: ints)
  define k where "k = L - t"
  define m where "m = nat n - k"
  have k: "0 < k" "t + k = L" "nat n = k + m" "0 < m" "m < h"
    using wrap room n length_cb_list[OF inv] L by (auto simp: k_def m_def ints cb_cap_def split: if_splits)
  define s1 s2 where "s1 = take k dat" and "s2 = take m (drop k dat)"
  have s: "length s1 = k" "length s2 = m" "take (nat n) dat = s1 @ s2"
    using n k by (auto simp: s1_def s2_def take_add)
  define b1 where "b1 = take t buf @ s1"
  define b2 where "b2 = s2 @ drop m b1"
  have b: "length b1 = L" "length b2 = L" using k s L by (auto simp: b1_def b2_def)
  define cb' where "cb' = cb\<lparr>pbyBuf := b2, sTail := int m\<rparr>"
  have "nCBput (Some cb) (Some dat) n = Some (0, Some cb')"
  proof -
    have "n = int k + int m" "int L - int t = int k" using k n by auto
    with wrap n room k L s b show ?thesis
      by (simp add: nCBput_def cb_freelen_smod[OF inv, unfolded ints] ints cb'_def Let_def b1_def b2_def
          flip: s1_def s2_def buf_def)
  qed
  moreover have "cb_inv cb'" using inv k L b by (auto simp: cb_inv_def cb'_def ints)
  moreover have "cb_list cb' = cb_list cb @ s1 @ s2"
  proof -
    have "drop h b2 = drop h b1" using k s b by (simp add: b2_def)
    also have "\<dots> = take (t - h) (drop h buf) @ s1" using ht L by (simp add: b1_def drop_take)
    finally show ?thesis
      using k s b ht L by (simp add: cb_list_def cb'_def ints Let_def b2_def flip: buf_def)
  qed
  ultimately show ?thesis by (intro exI[of _ cb']) (simp add: s(3) cb_cap_def cb'_def)
qed

lemma put_ok:
  assumes "cb_inv cb" "0 < n" "nat n \<le> length dat" "int (length (cb_list cb)) + n \<le> int (cb_cap cb)"
  shows "\<exists>cb'. nCBput (Some cb) (Some dat) n = Some (0, Some cb') \<and> cb_inv cb'
           \<and> cb_list cb' = cb_list cb @ take (nat n) dat \<and> cb_cap cb' = cb_cap cb"
  using put_straight[OF assms] put_wrap[OF assms] by blast

lemma get_empty:
  "cb_inv cb \<Longrightarrow> 0 < n \<Longrightarrow> int (length (cb_list cb)) < n \<Longrightarrow>
   nCBget (Some cb) True n = Some (DEF_ERR_CQEMPTY, [], Some cb)
   \<and> nCBlookup (Some cb) True n = Some (DEF_ERR_CQEMPTY, [], Some cb)"
  by (simp add: nCBget_def nCBlookup_def cb_datalen_smod)

lemma get_ok:
  assumes inv: "cb_inv cb" and n: "0 < n" "n \<le> int (length (cb_list cb))"
  shows "\<exists>cb'. nCBget (Some cb) True n = Some (0, take (nat n) (cb_list cb), Some cb') \<and> cb_inv cb'
           \<and> cb_list cb' = drop (nat n) (cb_list cb) \<and> cb_cap cb' = cb_cap cb \<and> pbyBuf cb' = pbyBuf cb"
proof -
  define buf where "buf = pbyBuf cb"
  define h t L where "h = nat (sHead cb)" and "t = nat (sTail cb)" and "L = nat (sBufLen cb)"
  have L: "length buf = L" "3 \<le> L" "h < L" "t < L"
    and ints: "sHead cb = int h" "sTail cb = int t" "sBufLen cb = int L"
    using inv by (auto simp: cb_inv_def h_def t_def L_def buf_def)
  define m where "m = nat n"
  have m: "n = int m" "0 < m" using n by (auto simp: m_def)
  have len: "length (cb_list cb) = (if h \<le> t then t - h else L - h + t)"
    using length_cb_list[OF inv] L by (auto simp: ints split: if_splits)
  note ls = cb_list_def Let_def ints buf_def[symmetric]
  show ?thesis
  proof (cases "sHead cb < sTail cb \<or> n \<le> sBufLen cb - sHead cb")
    case True
    define cb' where "cb' = cb\<lparr>sHead := (sHead cb + n) smod sBufLen cb\<rparr>"
    have fit: "h + m \<le> L" using True L n m len by (auto simp: ints split: if_splits)
    have head: "sHead cb' = (if h + m < L then int (h + m) else 0)"
      using fit L m by (auto simp: cb'_def ints smod_wrap)
    have o: "take m (drop h buf) = take m (cb_list cb)"
      using True n m len L by (auto simp: ls split: if_splits)
    have "nCBget (Some cb) True n = Some (0, take m (cb_list cb), Some cb')"
      using True n m fit L o by (simp add: nCBget_def cb_datalen_smod[OF inv, unfolded ints] ints cb'_def flip: buf_def)
    moreover have "cb_inv cb'" using inv fit L m by (auto simp: cb_inv_def head) (auto simp: cb'_def ints)
    moreover have "cb_list cb' = drop m (cb_list cb)"
    proof -
      have fields: "sTail cb' = int t" "pbyBuf cb' = buf" by (simp_all add: cb'_def ints buf_def)
      show ?thesis
      proof (cases "h + m < L")
        case lt: True
        then have hd: "sHead cb' = int (h + m)" by (simp add: head)
        show ?thesis
        proof (cases "h \<le> t")
          case True
          then have "h + m \<le> t" using len n m by simp
          with True show ?thesis
            by (simp add: cb_list_def Let_def ints hd fields drop_take add.commute flip: buf_def del: of_nat_add)
        next
          case False
          with lt L show ?thesis
            by (simp add: cb_list_def Let_def ints hd fields add.commute flip: buf_def del: of_nat_add)
        qed
      next
        case False
        with fit have e: "h + m = L" by simp
        moreover have "\<not> h \<le> t" using e True L len n m by (auto simp: ints)
        ultimately show ?thesis using L
          by (simp add: cb_list_def Let_def ints head fields flip: buf_def)
      qed
    qed
    ultimately show ?thesis by (intro exI[of _ cb']) (simp add: m_def cb_cap_def cb'_def)
  next
    case False
    define k where "k = L - h"
    define j where "j = m - k"
    have k: "t < h" "h + k = L" "m = k + j" "0 < j" "j \<le> t"
      using False L n m len by (auto simp: ints k_def j_def split: if_splits)
    define cb' where "cb' = cb\<lparr>sHead := int j\<rparr>"
    have e: "int L - int h = int k" "n - int k = int j" "k + j + h - L = j" "t + L - (k + j + h) = t - j" using k m by auto
    have lst: "cb_list cb = drop h buf @ take t buf" using k by (simp add: ls)
    have "nCBget (Some cb) True n = Some (0, take m (cb_list cb), Some cb')"
      using False n m k L lst
      by (simp add: nCBget_def cb_datalen_smod[OF inv, unfolded ints] ints cb'_def Let_def e min_absorb1 flip: buf_def)
    moreover have "cb_inv cb'" using inv k L by (auto simp: cb_inv_def cb'_def ints)
    moreover have "cb_list cb' = drop m (cb_list cb)"
      using k L lst e by (simp add: cb_list_def cb'_def Let_def ints drop_take flip: buf_def)
    ultimately show ?thesis by (intro exI[of _ cb']) (simp add: m_def cb_cap_def cb'_def)
  qed
qed

lemma lookup_ok:
  assumes "cb_inv cb" "0 < n" "n \<le> int (length (cb_list cb))"
  shows "nCBlookup (Some cb) True n = Some (0, take (nat n) (cb_list cb), Some cb)"
  using get_ok[OF assms] assms
  by (auto simp: nCBlookup_def nCBget_def Let_def bind_eq_Some_conv cb_datalen_smod split: if_splits)

lemma datalen_spec: "cb_inv cb \<Longrightarrow> nCBgetdatalen (Some cb) = int (length (cb_list cb))"
  by (auto simp: nCBgetdatalen_def cb_datalen_smod) (simp add: cb_list_def)

section \<open>The interface of a bounded byte queue\<close>

datatype fifo_op = Put "char list" | Get nat

fun fifo_run :: "('q \<Rightarrow> char list \<Rightarrow> 'q option) \<Rightarrow> ('q \<Rightarrow> nat \<Rightarrow> (char list \<times> 'q) option) \<Rightarrow>
    'q \<Rightarrow> fifo_op list \<Rightarrow> char list \<times> char list \<times> 'q" where
  \<comment> \<open>a sequence of calls: the bytes accepted, the bytes delivered, the final queue; a refused
      call changes nothing\<close>
  "fifo_run put get q [] = ([], [], q)"
| "fifo_run put get q (Put xs # ops) =
     (case put q xs of
        None \<Rightarrow> fifo_run put get q ops
      | Some q' \<Rightarrow> (let (acc, del, r) = fifo_run put get q' ops in (xs @ acc, del, r)))"
| "fifo_run put get q (Get n # ops) =
     (case get q n of
        None \<Rightarrow> fifo_run put get q ops
      | Some (ys, q') \<Rightarrow> (let (acc, del, r) = fifo_run put get q' ops in (acc, ys @ del, r)))"

locale bounded_fifo =
  fixes put :: "'q \<Rightarrow> char list \<Rightarrow> 'q option"
    and get :: "'q \<Rightarrow> nat \<Rightarrow> (char list \<times> 'q) option"
    and content :: "'q \<Rightarrow> char list"
    and cap :: "'q \<Rightarrow> nat"
    and inv :: "'q \<Rightarrow> bool"
  assumes put_refused: "inv q \<Longrightarrow> put q xs = None \<Longrightarrow> xs = [] \<or> cap q < length (content q) + length xs"
    and put_accepted: "inv q \<Longrightarrow> put q xs = Some q' \<Longrightarrow>
          inv q' \<and> content q' = content q @ xs \<and> cap q' = cap q"
    and content_bounded: "inv q \<Longrightarrow> length (content q) \<le> cap q"
    and get_refused: "inv q \<Longrightarrow> get q n = None \<Longrightarrow> n = 0 \<or> length (content q) < n"
    and get_delivered: "inv q \<Longrightarrow> get q n = Some (ys, q') \<Longrightarrow>
          inv q' \<and> content q = ys @ content q' \<and> length ys = n \<and> cap q' = cap q"
begin

lemma run_conserves:
  "inv q \<Longrightarrow> fifo_run put get q ops = (acc, del, r) \<Longrightarrow>
     inv r \<and> cap r = cap q \<and> content q @ acc = del @ content r"
proof (induction ops arbitrary: q acc del r)
  case Nil
  then show ?case by simp
next
  case (Cons op ops)
  show ?case
  proof (cases op)
    case (Put xs)
    show ?thesis
    proof (cases "put q xs")
      case None
      with Put Cons.prems show ?thesis by (intro Cons.IH) auto
    next
      case (Some q')
      obtain acc' del' r' where run: "fifo_run put get q' ops = (acc', del', r')" by (metis prod_cases3)
      from put_accepted[OF Cons.prems(1) Some] Cons.IH[OF _ run] Some Put run Cons.prems(2)
      show ?thesis by auto
    qed
  next
    case (Get n)
    show ?thesis
    proof (cases "get q n")
      case None
      with Get Cons.prems show ?thesis by (intro Cons.IH) auto
    next
      case (Some res)
      obtain ys q' where res: "res = (ys, q')" by fastforce
      obtain acc' del' r' where run: "fifo_run put get q' ops = (acc', del', r')" by (metis prod_cases3)
      from get_delivered[OF Cons.prems(1) Some[unfolded res]] Cons.IH[OF _ run] Some Get run res Cons.prems(2)
      show ?thesis by auto
    qed
  qed
qed

lemma run_from_empty:
  assumes "inv q" "content q = []" "fifo_run put get q ops = (acc, del, r)"
  shows "prefix del acc \<and> acc = del @ content r \<and> length acc \<le> length del + cap q"
  using run_conserves[OF assms(1,3)] assms(2) content_bounded[of r] by auto

end

definition cb_put :: "circleB_t \<Rightarrow> char list \<Rightarrow> circleB_t option" where
  "cb_put cb xs = (case nCBput (Some cb) (Some xs) (int (length xs)) of
      Some (r, cb') \<Rightarrow> if r = 0 then cb' else None | None \<Rightarrow> None)"

definition cb_get :: "circleB_t \<Rightarrow> nat \<Rightarrow> (char list \<times> circleB_t) option" where
  "cb_get cb n = (case nCBget (Some cb) True (int n) of
      Some (r, out, cb') \<Rightarrow> if r = 0 then map_option (Pair out) cb' else None | None \<Rightarrow> None)"

lemma nCBput_total:
  assumes "cb_inv cb" "0 < n" "nat n \<le> length dat"
  shows "\<exists>cb'. nCBput (Some cb) (Some dat) n
            = Some (if length (cb_list cb) + nat n \<le> cb_cap cb then 0 else DEF_ERR_CQFULL, Some cb')
          \<and> cb_inv cb' \<and> cb_cap cb' = cb_cap cb
          \<and> cb_list cb' = cb_list cb @ (if length (cb_list cb) + nat n \<le> cb_cap cb then take (nat n) dat else [])"
proof (cases "length (cb_list cb) + nat n \<le> cb_cap cb")
  case True
  then have "int (length (cb_list cb)) + n \<le> int (cb_cap cb)" using assms(2) by linarith
  from put_ok[OF assms this] True show ?thesis by auto
next
  case False
  then have "int (cb_cap cb) < int (length (cb_list cb)) + n" using assms(2) by linarith
  from put_full[OF assms(1,2) this] False assms(1) show ?thesis by auto
qed

lemma nCBget_total:
  assumes "cb_inv cb" "0 < n"
  shows "\<exists>cb'. nCBget (Some cb) True n
            = Some (if nat n \<le> length (cb_list cb) then (0, take (nat n) (cb_list cb), Some cb')
                    else (DEF_ERR_CQEMPTY, [], Some cb'))
          \<and> cb_inv cb' \<and> cb_cap cb' = cb_cap cb
          \<and> cb_list cb' = (if nat n \<le> length (cb_list cb) then drop (nat n) (cb_list cb) else cb_list cb)"
proof (cases "nat n \<le> length (cb_list cb)")
  case True
  then have "n \<le> int (length (cb_list cb))" by linarith
  from get_ok[OF assms this] True show ?thesis by auto
next
  case False
  then have "int (length (cb_list cb)) < n" by linarith
  from get_empty[OF assms this] False assms(1) show ?thesis by auto
qed

lemma cb_put_cases:
  assumes "cb_inv cb" "xs \<noteq> []"
  shows "\<exists>cb'. cb_put cb xs = (if length (cb_list cb) + length xs \<le> cb_cap cb then Some cb' else None)
          \<and> cb_inv cb' \<and> cb_cap cb' = cb_cap cb
          \<and> cb_list cb' = cb_list cb @ (if length (cb_list cb) + length xs \<le> cb_cap cb then xs else [])"
proof -
  have "0 < int (length xs)" using assms(2) by simp
  from nCBput_total[OF assms(1) this, of xs] show ?thesis
    by (auto simp: cb_put_def cb_err_defs)
qed

lemma cb_get_cases:
  assumes "cb_inv cb" "0 < n"
  shows "\<exists>cb'. cb_get cb n = (if n \<le> length (cb_list cb) then Some (take n (cb_list cb), cb') else None)
          \<and> cb_inv cb' \<and> cb_cap cb' = cb_cap cb
          \<and> cb_list cb' = (if n \<le> length (cb_list cb) then drop n (cb_list cb) else cb_list cb)"
proof -
  have "0 < int n" using assms(2) by simp
  from nCBget_total[OF assms(1) this] show ?thesis
    by (auto simp: cb_get_def cb_err_defs)
qed

lemma cb_put_Nil: "cb_put cb [] = None" and cb_get_0: "cb_get cb 0 = None"
  by (simp_all add: cb_put_def nCBput_def cb_get_def nCBget_def cb_err_defs)

lemma cb_list_bounded: "cb_inv cb \<Longrightarrow> length (cb_list cb) \<le> cb_cap cb"
  using length_cb_list[of cb] by (auto simp: cb_inv_def cb_cap_def split: if_splits)

interpretation cb: bounded_fifo cb_put cb_get cb_list cb_cap cb_inv
proof unfold_locales
  fix q xs assume "cb_inv q" "cb_put q xs = None"
  then show "xs = [] \<or> cb_cap q < length (cb_list q) + length xs"
    using cb_put_cases[of q xs] by (cases "xs = []") (auto split: if_splits)
next
  fix q q' xs assume a: "cb_inv q" "cb_put q xs = Some q'"
  then have "xs \<noteq> []" by (auto simp: cb_put_Nil)
  with cb_put_cases[of q xs] a show "cb_inv q' \<and> cb_list q' = cb_list q @ xs \<and> cb_cap q' = cb_cap q"
    by (auto split: if_splits)
next
  fix q n assume "cb_inv q" "cb_get q n = None"
  then show "n = 0 \<or> length (cb_list q) < n"
    using cb_get_cases[of q n] by (cases "n = 0") (auto split: if_splits)
next
  fix q n ys q' assume a: "cb_inv q" "cb_get q n = Some (ys, q')"
  then have "0 < n" by (cases n) (auto simp: cb_get_0)
  with cb_get_cases[of q n] a show "cb_inv q' \<and> cb_list q = ys @ cb_list q' \<and> length ys = n \<and> cb_cap q' = cb_cap q"
    by (auto split: if_splits)
qed (rule cb_list_bounded)

section \<open>Properties\<close>

text \<open>
  C8: From a freshly created ring of \<open>npmBufSize\<close> bytes, any sequence of calls of \<open>nCBput\<close> and
  \<open>nCBget\<close>, refused calls included, delivers exactly the accepted bytes in the order they were
  accepted: what was accepted is what was delivered followed by what the ring still holds, never more
  than \<open>npmBufSize\<close> bytes are undelivered, and the ring stays well formed.
\<close>

theorem ring_run_fifo:
  assumes "pstCBinit npmBufSize True True = Some cb"
    and "fifo_run cb_put cb_get cb ops = (acc, del, cb')"
  shows "acc = del @ cb_list cb' \<and> int (length acc) \<le> int (length del) + npmBufSize \<and> cb_inv cb'"
proof -
  from pstCBinit_spec[OF assms(1)] have i: "cb_inv cb" "cb_list cb = []" "int (cb_cap cb) = npmBufSize" by auto
  from cb.run_from_empty[OF i(1,2) assms(2)] cb.run_conserves[OF i(1) assms(2)] i(3)
  show ?thesis by auto
qed

theorem ring_run_fifo_witness:
  "\<exists>acc del cb'.
     fifo_run cb_put cb_get \<lparr>pbyBuf = replicate 5 NUL, sBufLen = 5, sHead = 0, sTail = 0\<rparr>
       [Put ''abc'', Get 2, Put ''defg'', Put ''def'', Get 3] = (acc, del, cb')
     \<and> acc = ''abcdef'' \<and> del = ''abcde'' \<and> acc = del @ cb_list cb' \<and> cb_inv cb'"
proof -
  have i: "pstCBinit 4 True True = Some \<lparr>pbyBuf = replicate 5 NUL, sBufLen = 5, sHead = 0, sTail = 0\<rparr>"
    by code_simp
  have r: "fifo_run cb_put cb_get \<lparr>pbyBuf = replicate 5 NUL, sBufLen = 5, sHead = 0, sTail = 0\<rparr>
       [Put ''abc'', Get 2, Put ''defg'', Put ''def'', Get 3]
     = (''abcdef'', ''abcde'', \<lparr>pbyBuf = ''fbcde'', sBufLen = 5, sHead = 0, sTail = 1\<rparr>)"
    by code_simp
  from ring_run_fifo[OF i r] r show ?thesis by auto
qed

text \<open>On a well-formed ring \<open>nCBput\<close> of \<open>nSize > 0\<close> bytes never touches memory outside the storage;
  it appends the bytes and returns 0 exactly when they fit in the free space, and otherwise returns
  \<open>DEF_ERR_CQFULL\<close> and leaves the contents alone. The null and size errors are returned without any change.
\<close>

theorem nCBput_spec:
  assumes "cb_inv cb" "nat nSize \<le> length dat"
  shows "\<exists>cb'. nCBput (Some cb) (Some dat) nSize =
      Some (if nSize \<le> 0 then DEF_ERR_INVALID_PARAM
            else if length (cb_list cb) + nat nSize \<le> cb_cap cb then 0 else DEF_ERR_CQFULL, Some cb')
     \<and> cb_inv cb' \<and> cb_cap cb' = cb_cap cb
     \<and> cb_list cb' = cb_list cb @ (if length (cb_list cb) + nat nSize \<le> cb_cap cb then take (nat nSize) dat else [])"
proof (cases "0 < nSize")
  case True
  from nCBput_total[OF assms(1) this assms(2)] True show ?thesis by auto
next
  case False
  then show ?thesis using assms(1) by (auto simp: nCBput_def)
qed

theorem nCBput_spec_witness:
  "\<exists>cb'. nCBput (Some \<lparr>pbyBuf = ''abcde'', sBufLen = 5, sHead = 3, sTail = 4\<rparr>) (Some ''xyz'') 3 = Some (0, Some cb')
     \<and> cb_list cb' = ''dxyz''"
proof -
  let ?cb = "\<lparr>pbyBuf = ''abcde'', sBufLen = 5, sHead = 3, sTail = 4\<rparr>"
  have i: "cb_inv ?cb" by code_simp
  have l: "nat 3 \<le> length ''xyz''" by simp
  have c: "cb_list ?cb = ''d''" "cb_cap ?cb = 4" by code_simp+
  from nCBput_spec[OF i l] show ?thesis by (auto simp: c)
qed

text \<open>
  On a well-formed ring \<open>nCBget\<close> of \<open>nSize > 0\<close> bytes returns the oldest \<open>nSize\<close> bytes and
  removes them when the ring holds that many, and otherwise returns \<open>DEF_ERR_CQEMPTY\<close> and changes
  nothing; \<open>nCBlookup\<close> returns the same code and bytes and leaves the ring exactly as it was;
  \<open>nCBgetdatalen\<close> is the number of bytes held.
\<close>

theorem nCBget_spec:
  assumes "cb_inv cb" "0 < nSize"
  shows "\<exists>rc out cb'. nCBget (Some cb) True nSize = Some (rc, out, Some cb')
      \<and> nCBlookup (Some cb) True nSize = Some (rc, out, Some cb)
      \<and> nCBgetdatalen (Some cb) = int (length (cb_list cb))
      \<and> (if nSize \<le> nCBgetdatalen (Some cb)
         then rc = 0 \<and> cb_list cb = out @ cb_list cb' \<and> length out = nat nSize
         else rc = DEF_ERR_CQEMPTY \<and> out = [] \<and> cb' = cb)
      \<and> cb_inv cb' \<and> cb_cap cb' = cb_cap cb"
proof (cases "nSize \<le> int (length (cb_list cb))")
  case True
  from get_ok[OF assms True] obtain cb' where
    g: "nCBget (Some cb) True nSize = Some (0, take (nat nSize) (cb_list cb), Some cb')" "cb_inv cb'"
       "cb_list cb' = drop (nat nSize) (cb_list cb)" "cb_cap cb' = cb_cap cb" by auto
  with lookup_ok[OF assms True] True assms show ?thesis
    by (intro exI[of _ 0] exI[of _ "take (nat nSize) (cb_list cb)"] exI[of _ cb']) (auto simp: datalen_spec)
next
  case False
  then have "int (length (cb_list cb)) < nSize" by simp
  from get_empty[OF assms this] False assms show ?thesis by (auto simp: datalen_spec)
qed

theorem nCBget_spec_witness:
  "\<exists>cb'. nCBget (Some \<lparr>pbyBuf = ''abcde'', sBufLen = 5, sHead = 3, sTail = 2\<rparr>) True 3 = Some (0, ''dea'', Some cb')
     \<and> cb_list cb' = ''b''"
proof -
  let ?cb = "\<lparr>pbyBuf = ''abcde'', sBufLen = 5, sHead = 3, sTail = 2\<rparr>"
  have i: "cb_inv ?cb" by code_simp
  have n: "(0::int) < 3" by simp
  have c: "cb_list ?cb = ''deab''" by code_simp
  from nCBget_spec[OF i n] obtain rc out cb' where
    r: "nCBget (Some ?cb) True 3 = Some (rc, out, Some cb')" "rc = 0" "''deab'' = out @ cb_list cb'" "length out = 3"
    by (auto simp: c datalen_spec[OF i])
  have "take 3 (out @ cb_list cb') = out" "drop 3 (out @ cb_list cb') = cb_list cb'" using r(4) by simp_all
  then have "out = ''dea''" "cb_list cb' = ''b''" by (simp_all flip: r(3))
  with r show ?thesis by auto
qed

text \<open>
  The free length \<open>nCBgetbufreelen\<close> reports is conservative: putting any non-empty block of at most
  that many bytes succeeds. It is also at least nine bytes below the real free space whenever it is positive.
\<close>

theorem nCBgetbufreelen_sound:
  assumes "cb_inv cb" "xs \<noteq> []" "int (length xs) \<le> nCBgetbufreelen (Some cb)"
  shows "\<exists>cb'. nCBput (Some cb) (Some xs) (int (length xs)) = Some (0, Some cb') \<and> cb_list cb' = cb_list cb @ xs
      \<and> nCBgetbufreelen (Some cb) + 9 = int (cb_cap cb) - int (length (cb_list cb))"
proof -
  have f: "int (length xs) \<le> sBufLen cb - int (length (cb_list cb)) - 10"
    "nCBgetbufreelen (Some cb) = sBufLen cb - int (length (cb_list cb)) - 10"
    using assms by (auto simp: nCBgetbufreelen_def datalen_spec Let_def split: if_splits)
  have "int (cb_cap cb) = sBufLen cb - 1" using assms(1) by (auto simp: cb_cap_def cb_inv_def)
  then have "int (length (cb_list cb)) + int (length xs) \<le> int (cb_cap cb)" using f by simp
  from put_ok[OF assms(1) _ _ this, of xs] assms(2) f \<open>int (cb_cap cb) = sBufLen cb - 1\<close>
  show ?thesis by auto
qed

theorem nCBgetbufreelen_sound_witness:
  "\<exists>cb'. nCBput (Some \<lparr>pbyBuf = replicate 20 NUL, sBufLen = 20, sHead = 3, sTail = 4\<rparr>) (Some ''xyz'') 3 = Some (0, Some cb')
     \<and> cb_list cb' = NUL # ''xyz''"
proof -
  let ?cb = "\<lparr>pbyBuf = replicate 20 NUL, sBufLen = 20, sHead = 3, sTail = 4\<rparr>"
  have i: "cb_inv ?cb" by code_simp
  have l: "int (length ''xyz'') \<le> nCBgetbufreelen (Some ?cb)" by code_simp
  have c: "cb_list ?cb = [NUL]" by code_simp
  from nCBgetbufreelen_sound[OF i _ l] show ?thesis by (auto simp: c)
qed

end
