(* ===== verification/Ul_Vectors.thy ===== *)
theory Ul_Vectors
  imports Ul_Prelude
begin

text \<open>
  Transfers with a time limit from \<^verbatim>\<open>ullib/src/ul_net1.cpp\<close>: \<open>ul_sreadv_ms\<close> and \<open>ul_swritev_ms\<close> move the bytes of
  several buffers, \<open>ul_sreado_ms_ex2\<close> and \<open>ul_swriteo_ms_ex2\<close> those of one. They try a call that does not wait, then
  make the socket blocking, set its time limit, and go on until everything is moved; before they return they put
  the mode and the limit back.

  A socket is its two queues, its mode, its time limits, and two scripts: what the successive transfers do, with the
  milliseconds each of them takes by the clock of the caller, and which of the calls that get or set an option
  succeed. A script of transfers that has ended is a failing call, one of options is a call that succeeds. Memory is
  one array; a buffer is an address and a length. \<open>None\<close> is an access outside an array.
\<close>

section \<open>Buffers\<close>

record iovec =
  iov_base :: nat
  iov_len :: nat

definition cells :: "iovec list \<Rightarrow> nat list" where
  \<comment> \<open>the addresses of the buffers in the order in which they are used\<close>
  "cells ve = concat (map (\<lambda>v. [iov_base v ..< iov_base v + iov_len v]) ve)"

fun iov_skip :: "iovec list \<Rightarrow> int \<Rightarrow> nat \<Rightarrow> (iovec list \<times> int \<times> nat) option" where
  \<comment> \<open>\<open>while (n >= sve[0].iov_len)\<close>\<close>
  "iov_skip [] count n = None"
| "iov_skip (v # ve) count n =
     (if iov_len v \<le> n then iov_skip ve (count - 1) (n - iov_len v) else Some (v # ve, count, n))"

definition iovec_offset :: "iovec list \<Rightarrow> int \<Rightarrow> nat \<Rightarrow> (iovec list option \<times> int) option" where
  \<comment> \<open>the array from \<open>sve\<close> on, or a null pointer, and \<open>*count\<close>\<close>
  "iovec_offset ve count offset =
     (if count \<le> 0 then Some (None, count)
      else case iov_skip ve count offset of
        Some (v # sve, c, n) \<Rightarrow>
          Some (Some ((if 0 < n then v\<lparr>iov_base := iov_base v + n, iov_len := iov_len v - n\<rparr> else v) # sve), c)
      | _ \<Rightarrow> None)"

section \<open>The socket\<close>

datatype msg_ev = Moves nat nat | WouldBlock | Interrupts | Breaks
datatype msg_res = Done nat nat | EAGAIN | EINTR | EOTHER

type_synonym timeval = "int \<times> int"

record sock =
  inq :: "char list"
  outq :: "char list"
  mem :: "char list"
  nonblock :: bool
  rcvtimeo :: timeval
  sndtimeo :: timeval
  msgs :: "msg_ev list"
  calls :: "bool list"

definition opt_call :: "sock \<Rightarrow> bool \<times> sock" where
  \<comment> \<open>whether the next \<open>getsockopt\<close>, \<open>setsockopt\<close> or \<open>fcntl\<close> succeeds\<close>
  "opt_call s = (case calls s of [] \<Rightarrow> (True, s) | b # bs \<Rightarrow> (b, s\<lparr>calls := bs\<rparr>))"

fun store :: "nat list \<Rightarrow> char list \<Rightarrow> char list \<Rightarrow> char list" where
  "store (a # as) (b # bs) m = store as bs (m[a := b])"
| "store _ _ m = m"

definition next_msg :: "(nat \<Rightarrow> sock \<Rightarrow> nat \<times> sock) \<Rightarrow> sock \<Rightarrow> msg_res \<times> sock" where
  \<comment> \<open>the next event of the script; \<open>move k\<close> moves at most \<open>k\<close> bytes and says how many\<close>
  "next_msg move s =
     (case msgs s of
        [] \<Rightarrow> (EOTHER, s)
      | Moves k t # es \<Rightarrow> (case move (Suc k) (s\<lparr>msgs := es\<rparr>) of (n, s') \<Rightarrow> (Done n t, s'))
      | WouldBlock # es \<Rightarrow> (EAGAIN, s\<lparr>msgs := es\<rparr>)
      | Interrupts # es \<Rightarrow> (EINTR, s\<lparr>msgs := es\<rparr>)
      | Breaks # es \<Rightarrow> (EOTHER, s\<lparr>msgs := es\<rparr>))"

definition move_out :: "nat list \<Rightarrow> nat \<Rightarrow> sock \<Rightarrow> nat \<times> sock" where
  "move_out as k s =
     (let n = min k (length as) in (n, s\<lparr>outq := outq s @ map (\<lambda>a. mem s ! a) (take n as)\<rparr>))"

definition move_in :: "nat list \<Rightarrow> nat \<Rightarrow> sock \<Rightarrow> nat \<times> sock" where
  \<comment> \<open>no byte is moved at the end of the stream\<close>
  "move_in as k s =
     (let n = min (min k (length as)) (length (inq s)) in
      (n, s\<lparr>mem := store (take n as) (take n (inq s)) (mem s), inq := drop n (inq s)\<rparr>))"

definition sendmsg :: "iovec list option \<Rightarrow> int \<Rightarrow> sock \<Rightarrow> msg_res \<times> sock" where
  \<comment> \<open>\<open>sendmsg\<close> with \<open>msg_iov\<close> and \<open>msg_iovlen\<close>; it refuses a null pointer and a negative number\<close>
  "sendmsg iov count s =
     (case iov of
        None \<Rightarrow> (EOTHER, s)
      | Some ve \<Rightarrow> if count < 0 then (EOTHER, s) else next_msg (move_out (cells (take (nat count) ve))) s)"

definition recvmsg :: "iovec list option \<Rightarrow> int \<Rightarrow> sock \<Rightarrow> msg_res \<times> sock" where
  "recvmsg iov count s =
     (case iov of
        None \<Rightarrow> (EOTHER, s)
      | Some ve \<Rightarrow> if count < 0 then (EOTHER, s) else next_msg (move_in (cells (take (nat count) ve))) s)"

definition INT_MAX :: int where "INT_MAX = 2 ^ 31 - 1"
definition UIO_MAXIOV :: int where "UIO_MAXIOV = 1024"

definition tv_of :: "int \<Rightarrow> timeval" where
  "tv_of msecs = (msecs div 1000, (msecs mod 1000) * 1000)"

datatype dir = Rcv | Snd
  \<comment> \<open>the reading and the writing functions differ in the system call and in the option they set\<close>

fun xfer :: "dir \<Rightarrow> iovec list option \<Rightarrow> int \<Rightarrow> sock \<Rightarrow> msg_res \<times> sock" where
  "xfer Rcv = recvmsg"
| "xfer Snd = sendmsg"

fun limit :: "dir \<Rightarrow> sock \<Rightarrow> timeval" where
  "limit Rcv s = rcvtimeo s"
| "limit Snd s = sndtimeo s"

fun set_limit :: "dir \<Rightarrow> timeval \<Rightarrow> sock \<Rightarrow> sock" where
  "set_limit Rcv tv s = s\<lparr>rcvtimeo := tv\<rparr>"
| "set_limit Snd tv s = s\<lparr>sndtimeo := tv\<rparr>"

definition setsockopt :: "dir \<Rightarrow> timeval \<Rightarrow> sock \<Rightarrow> bool \<times> sock" where
  "setsockopt d tv s = (case opt_call s of (ok, s') \<Rightarrow> (ok, if ok then set_limit d tv s' else s'))"

definition set_mode :: "bool \<Rightarrow> sock \<Rightarrow> bool \<times> sock" where
  \<comment> \<open>\<open>fcntl(sock, F_SETFL, ...)\<close>\<close>
  "set_mode b s = (case opt_call s of (ok, s') \<Rightarrow> (ok, if ok then s'\<lparr>nonblock := b\<rparr> else s'))"

lemma next_msg_shrinks:
  assumes "next_msg move s = (r, s')" and "r \<noteq> EOTHER" and "\<And>k t. msgs (snd (move k t)) = msgs t"
  shows "length (msgs s') < length (msgs s)"
proof -
  have m: "move k t = (n, t') \<Longrightarrow> msgs t' = msgs t" for k t n t' using assms(3)[of k t] by simp
  show ?thesis using assms(1,2) by (auto simp: next_msg_def dest!: m split: list.splits msg_ev.splits prod.splits)
qed

lemma xfer_shrinks: "xfer d iov count s = (r, s') \<Longrightarrow> r \<noteq> EOTHER \<Longrightarrow> length (msgs s') < length (msgs s)"
  by (cases d) (auto simp: sendmsg_def recvmsg_def move_in_def move_out_def Let_def
    elim!: next_msg_shrinks split: option.splits if_splits)

lemma setsockopt_msgs: "setsockopt d tv s = (ok, s') \<Longrightarrow> msgs s' = msgs s"
  by (cases d) (auto simp: setsockopt_def opt_call_def split: list.splits prod.splits if_splits)

section \<open>Several buffers\<close>

function retry :: "dir \<Rightarrow> iovec list option \<Rightarrow> int \<Rightarrow> sock \<Rightarrow> msg_res \<times> sock" where
  \<comment> \<open>\<open>do ... while (n < 0 && EINTR == errno)\<close>\<close>
  "retry d iov count s = (case xfer d iov count s of (r, s') \<Rightarrow> if r = EINTR then retry d iov count s' else (r, s'))"
  by pat_completeness auto
termination
  by (relation "measure (\<lambda>(d, iov, count, s). length (msgs s))") (auto dest: sym[THEN xfer_shrinks])

declare retry.simps [simp del]

lemma retry_shrinks: "retry d iov count s = (r, s') \<Longrightarrow> r \<noteq> EOTHER \<Longrightarrow> length (msgs s') < length (msgs s)"
proof (induction d iov count s arbitrary: r s' rule: retry.induct)
  case (1 d iov count s)
  obtain q t where q: "xfer d iov count s = (q, t)" by (cases "xfer d iov count s")
  show ?case
  proof (cases "q = EINTR")
    case True
    then have "retry d iov count t = (r, s')" using 1(2) q by (subst (asm) retry.simps) simp
    then show ?thesis using 1(1)[OF q[symmetric] True] 1(3) xfer_shrinks[OF q] True by simp
  next
    case False
    then show ?thesis using 1(2,3) q xfer_shrinks[OF q] by (subst (asm) retry.simps) simp
  qed
qed

function vec_loop ::
  "dir \<Rightarrow> iovec list option \<Rightarrow> int \<Rightarrow> int \<Rightarrow> int \<Rightarrow> sock \<Rightarrow> (sock + int \<times> int \<times> sock) option" where
  \<comment> \<open>\<open>do ... while (nleft > 0 && nread >= 0)\<close>: \<open>sve\<close>, \<open>scount\<close>, \<open>nleft\<close>, \<open>msecs\<close>. \<open>Inl\<close>: the function returns -1 at once;
      \<open>Inr\<close>: the last result and \<open>nleft\<close> behind the loop\<close>
  "vec_loop d sve scount nleft msecs s =
     (case setsockopt d (tv_of msecs) s of (ok, s1) \<Rightarrow>
        if \<not> ok then Some (Inl s1)
        else case retry d sve scount s1 of (r, s2) \<Rightarrow>
          (case r of
             Done n t \<Rightarrow>
               if n = 0 then Some (Inr (0, nleft, s2))
               else if 0 < nleft - int n then
                 (if msecs \<le> int t then Some (Inr (-1, nleft - int n, s2))
                  else case sve of
                    None \<Rightarrow> None
                  | Some ve \<Rightarrow>
                      (case iovec_offset ve scount n of
                         None \<Rightarrow> None
                       | Some (sve', scount') \<Rightarrow> vec_loop d sve' scount' (nleft - int n) (msecs - int t) s2))
               else Some (Inr (int n, nleft - int n, s2))
           | _ \<Rightarrow> Some (Inr (-1, nleft, s2))))"
  by pat_completeness auto
termination
  by (relation "measure (\<lambda>(d, sve, scount, nleft, msecs, s). length (msgs s))")
    (auto dest!: sym[THEN setsockopt_msgs] sym[THEN retry_shrinks])

declare vec_loop.simps [simp del]

definition moves_of :: "msg_res \<Rightarrow> nat" where
  \<comment> \<open>the result of the first call, after \<open>if (nread < 0) nread = 0\<close>\<close>
  "moves_of r = (case r of Done n t \<Rightarrow> n | _ \<Rightarrow> 0)"

definition restore :: "dir \<Rightarrow> bool \<Rightarrow> timeval \<Rightarrow> int \<Rightarrow> sock \<Rightarrow> int \<times> sock" where
  \<comment> \<open>the end of the four functions: the mode, then the time limit\<close>
  "restore d nb old_tv ret s =
     (case (if nb then set_mode True s else (True, s)) of (ok1, s1) \<Rightarrow>
        if \<not> ok1 then (-1, s1)
        else case setsockopt d old_tv s1 of (ok2, s2) \<Rightarrow> if \<not> ok2 then (-1, s2) else (ret, s2))"

definition prepare :: "sock \<Rightarrow> bool \<times> sock" where
  \<comment> \<open>\<open>getsockopt\<close>, \<open>fcntl(F_GETFL)\<close> and, for a socket that does not block, \<open>fcntl(F_SETFL)\<close>; false: one of them failed\<close>
  "prepare s =
     (case opt_call s of (ok1, s1) \<Rightarrow>
        if \<not> ok1 then (False, s1)
        else case opt_call s1 of (ok2, s2) \<Rightarrow>
          if \<not> ok2 then (False, s2) else if nonblock s2 then set_mode False s2 else (True, s2))"

definition vec_io :: "dir \<Rightarrow> iovec list \<Rightarrow> int \<Rightarrow> int \<Rightarrow> sock \<Rightarrow> (int \<times> sock) option" where
  "vec_io d ve count msecs0 s =
     (if msecs0 = 0 then Some (-1, s)
      else let msecs = (if msecs0 < 0 then INT_MAX else msecs0) in
        if UIO_MAXIOV \<le> count \<or> count = 0 then Some (-1, s)
        else if int (length ve) < count then None
        else let nbytes = sum_list (map iov_len (take (nat count) ve)) in
          case xfer d (Some ve) count s of (r, s1) \<Rightarrow>
            if r = EOTHER then Some (-1, s1)
            else let n = moves_of r in
              if (case r of Done n t \<Rightarrow> n = nbytes | _ \<Rightarrow> False) then Some (int n, s1)
              else case iovec_offset (take (nat count) ve) count n of
                None \<Rightarrow> None
              | Some (sve, scount) \<Rightarrow>
                  (case prepare s1 of (ok, s2) \<Rightarrow>
                     if \<not> ok then Some (-1, s2)
                     else case vec_loop d sve scount (int nbytes - int n) msecs s2 of
                       None \<Rightarrow> None
                     | Some (Inl s3) \<Rightarrow> Some (-1, s3)
                     | Some (Inr (last_n, nleft, s3)) \<Rightarrow>
                         Some (restore d (nonblock s1) (limit d s1)
                           (if 0 \<le> last_n then int nbytes - nleft else last_n) s3)))"

definition ul_sreadv_ms :: "iovec list \<Rightarrow> int \<Rightarrow> int \<Rightarrow> sock \<Rightarrow> (int \<times> sock) option" where
  "ul_sreadv_ms ve count msecs s = vec_io Rcv ve count msecs s"

definition ul_swritev_ms :: "iovec list \<Rightarrow> int \<Rightarrow> int \<Rightarrow> sock \<Rightarrow> (int \<times> sock) option" where
  "ul_swritev_ms ve count msecs s = vec_io Snd ve count msecs s"

section \<open>One buffer\<close>

definition one :: "nat \<Rightarrow> nat \<Rightarrow> iovec list option" where
  \<comment> \<open>\<open>recv\<close> and \<open>send\<close> are the calls with one buffer\<close>
  "one ptr n = Some [\<lparr>iov_base = ptr, iov_len = n\<rparr>]"

function one_loop :: "dir \<Rightarrow> nat \<Rightarrow> nat \<Rightarrow> nat \<Rightarrow> int \<Rightarrow> sock \<Rightarrow> sock + int \<times> sock" where
  \<comment> \<open>\<open>do ... while (ret > 0 && nbytes != (size_t)nread)\<close>: \<open>ptr\<close>, \<open>nbytes\<close>, \<open>nread\<close>, \<open>msecs\<close>. Only the writer takes the time
      that has passed off \<open>msecs\<close>\<close>
  "one_loop d ptr nbytes moved msecs s =
     (case setsockopt d (tv_of msecs) s of (ok, s1) \<Rightarrow>
        if \<not> ok then Inl s1
        else case retry d (one (ptr + moved) (nbytes - moved)) 1 s1 of (r, s2) \<Rightarrow>
          (case r of
             Done n t \<Rightarrow>
               if 0 < n \<and> moved + n \<noteq> nbytes then
                 (if msecs \<le> int t then Inr (-1, s2)
                  else one_loop d ptr nbytes (moved + n) (if d = Snd then msecs - int t else msecs) s2)
               else Inr (int (moved + n), s2)
           | _ \<Rightarrow> Inr (-1, s2)))"
  by pat_completeness auto
termination
  by (relation "measure (\<lambda>(d, ptr, nbytes, moved, msecs, s). length (msgs s))")
    (auto dest!: sym[THEN setsockopt_msgs] sym[THEN retry_shrinks])

declare one_loop.simps [simp del]

definition one_io :: "dir \<Rightarrow> nat \<Rightarrow> nat \<Rightarrow> int \<Rightarrow> sock \<Rightarrow> int \<times> sock" where
  "one_io d ptr nbytes msecs0 s =
     (case xfer d (one ptr nbytes) 1 s of (r, s1) \<Rightarrow>
        if r = EOTHER then (-1, s1)
        else let n = moves_of r in
          if (case r of Done n t \<Rightarrow> n = nbytes | _ \<Rightarrow> False) then (int n, s1)
          else if msecs0 = 0 then (-1, s1)
          else let msecs = (if msecs0 < 0 then INT_MAX else msecs0) in
            case prepare s1 of (ok, s2) \<Rightarrow>
              if \<not> ok then (-1, s2)
              else case one_loop d ptr nbytes n msecs s2 of
                Inl s3 \<Rightarrow> (-1, s3)
              | Inr (ret, s3) \<Rightarrow> restore d (nonblock s1) (limit d s1) ret s3)"

definition ul_sreado_ms_ex2 :: "nat \<Rightarrow> nat \<Rightarrow> int \<Rightarrow> sock \<Rightarrow> int \<times> sock" where
  "ul_sreado_ms_ex2 ptr nbytes msecs s = one_io Rcv ptr nbytes msecs s"

definition ul_swriteo_ms_ex2 :: "nat \<Rightarrow> nat \<Rightarrow> int \<Rightarrow> sock \<Rightarrow> int \<times> sock" where
  "ul_swriteo_ms_ex2 ptr nbytes msecs s = one_io Snd ptr nbytes msecs s"

section \<open>What a transfer moves\<close>

lemma cells_Nil [simp]: "cells [] = []"
  by (simp add: cells_def)

lemma cells_Cons [simp]: "cells (v # ve) = [iov_base v ..< iov_base v + iov_len v] @ cells ve"
  by (simp add: cells_def)

lemma length_cells: "length (cells ve) = sum_list (map iov_len ve)"
  by (induction ve) auto

lemma iov_skip_cells:
  assumes "n < length (cells ve)"
  shows "\<exists>v sve k. iov_skip ve (int (length ve)) n = Some (v # sve, int (length (v # sve)), k)
    \<and> k < iov_len v \<and> drop k (cells (v # sve)) = drop n (cells ve)"
  using assms
proof (induction ve arbitrary: n)
  case Nil
  then show ?case by simp
next
  case (Cons v ve)
  show ?case
  proof (cases "iov_len v \<le> n")
    case True
    then show ?thesis using Cons.IH[of "n - iov_len v"] Cons.prems by auto
  next
    case False
    then show ?thesis by simp
  qed
qed

text \<open>\<open>iovec_offset\<close> skips exactly the bytes that were moved: when some are left it does not run off the array, and
  the buffers it returns are the rest of the old ones.\<close>

lemma iovec_offset_drops:
  assumes "n < length (cells ve)"
  shows "\<exists>sve. iovec_offset ve (int (length ve)) n = Some (Some sve, int (length sve)) \<and> cells sve = drop n (cells ve)"
proof -
  obtain v sve k where k: "iov_skip ve (int (length ve)) n = Some (v # sve, int (length (v # sve)), k)" "k < iov_len v"
    "drop k (cells (v # sve)) = drop n (cells ve)" using iov_skip_cells[OF assms] by blast
  have "0 < int (length ve)" using assms by (cases ve) auto
  moreover have "cells (v\<lparr>iov_base := iov_base v + k, iov_len := iov_len v - k\<rparr> # sve) = drop n (cells ve)"
    using k(2,3) by (simp add: drop_upt)
  ultimately show ?thesis using k by (auto simp: iovec_offset_def)
qed

fun moved :: "dir \<Rightarrow> nat list \<Rightarrow> sock \<Rightarrow> sock \<Rightarrow> bool" where
  \<comment> \<open>what happens to memory and queues when the cells are moved\<close>
  "moved Snd as s s' \<longleftrightarrow> outq s' = outq s @ map (\<lambda>a. mem s ! a) as \<and> mem s' = mem s \<and> inq s' = inq s"
| "moved Rcv as s s' \<longleftrightarrow> (\<exists>bs. length bs = length as \<and> inq s = bs @ inq s' \<and> mem s' = store as bs (mem s)) \<and> outq s' = outq s"

lemma store_append: "length as = length bs \<Longrightarrow> store (as @ as') (bs @ bs') m = store as' bs' (store as bs m)"
  by (induction as bs m rule: store.induct) auto

lemma moved_refl [simp]: "moved d [] s s"
  by (cases d) auto

lemma moved_trans: "moved d as s t \<Longrightarrow> moved d bs t u \<Longrightarrow> moved d (as @ bs) s u"
proof (cases d)
  case Rcv
  assume "moved d as s t" "moved d bs t u"
  then obtain x y where "length x = length as" "inq s = x @ inq t" "mem t = store as x (mem s)" "outq t = outq s"
    "length y = length bs" "inq t = y @ inq u" "mem u = store bs y (mem t)" "outq u = outq t" using Rcv by auto
  then show ?thesis using Rcv by (auto intro!: exI[of _ "x @ y"] simp: store_append)
qed auto

lemma moved_options [simp]:
  "moved d as s (set_limit e tv s') = moved d as s s'" "moved d as s (s'\<lparr>nonblock := b\<rparr>) = moved d as s s'"
  "moved d as s (s'\<lparr>calls := cs\<rparr>) = moved d as s s'" "moved d as s (s'\<lparr>msgs := ms\<rparr>) = moved d as s s'"
  by (cases d; cases e; auto)+

definition same_options :: "sock \<Rightarrow> sock \<Rightarrow> bool" where
  "same_options s s' \<longleftrightarrow> nonblock s' = nonblock s \<and> rcvtimeo s' = rcvtimeo s \<and> sndtimeo s' = sndtimeo s \<and> calls s' = calls s"

lemma move_out_moves: "move_out as k s = (n, s') \<Longrightarrow> n = min k (length as) \<and> moved Snd (take n as) s s' \<and> same_options s s'"
  by (auto simp: move_out_def Let_def same_options_def)

lemma move_in_moves: "move_in as k s = (n, s') \<Longrightarrow> n \<le> k \<and> n \<le> length as \<and> moved Rcv (take n as) s s' \<and> same_options s s'"
proof -
  assume a: "move_in as k s = (n, s')"
  have n: "n = min (min k (length as)) (length (inq s))"
    and s': "s' = s\<lparr>mem := store (take n as) (take n (inq s)) (mem s), inq := drop n (inq s)\<rparr>"
    using a by (auto simp: move_in_def Let_def)
  have "moved Rcv (take n as) s s'" using n by (simp add: s') (rule exI[of _ "take n (inq s)"], simp)
  moreover have "n \<le> k" "n \<le> length as" using n by linarith+
  ultimately show ?thesis by (simp add: s' same_options_def)
qed

lemma next_msg_moves:
  assumes "next_msg move s = (r, s')"
    and "\<And>k t n t'. move k t = (n, t') \<Longrightarrow> n \<le> length as \<and> moved d (take n as) t t' \<and> same_options t t'"
  shows "moves_of r \<le> length as \<and> moved d (take (moves_of r) as) s s' \<and> same_options s s'"
proof (cases "\<exists>k t es. msgs s = Moves k t # es")
  case True
  then obtain k t es where e: "msgs s = Moves k t # es" by blast
  obtain n where n: "move (Suc k) (s\<lparr>msgs := es\<rparr>) = (n, s')" "r = Done n t"
    using assms(1) e by (auto simp: next_msg_def split: prod.splits)
  have "moved d (take n as) (s\<lparr>msgs := es\<rparr>) s' \<Longrightarrow> moved d (take n as) s s'" by (cases d) auto
  then show ?thesis using assms(2)[OF n(1)] n(2) by (simp add: moves_of_def same_options_def)
next
  case False
  then show ?thesis using assms(1)
    by (auto simp: next_msg_def moves_of_def same_options_def split: list.splits msg_ev.splits)
qed

lemma xfer_moves:
  assumes "xfer d (Some ve) (int (length ve)) s = (r, s')"
  shows "moves_of r \<le> length (cells ve) \<and> moved d (take (moves_of r) (cells ve)) s s' \<and> same_options s s'"
proof (cases d)
  case Rcv
  then have "next_msg (move_in (cells ve)) s = (r, s')" using assms by (simp add: recvmsg_def)
  then show ?thesis unfolding Rcv by (rule next_msg_moves) (auto dest: move_in_moves)
next
  case Snd
  then have "next_msg (move_out (cells ve)) s = (r, s')" using assms by (simp add: sendmsg_def)
  then show ?thesis unfolding Snd by (rule next_msg_moves) (auto dest: move_out_moves)
qed

lemma retry_moves:
  "retry d (Some ve) (int (length ve)) s = (r, s') \<Longrightarrow>
     moves_of r \<le> length (cells ve) \<and> moved d (take (moves_of r) (cells ve)) s s' \<and> same_options s s' \<and> r \<noteq> EINTR"
proof (induction d "Some ve" "int (length ve)" s arbitrary: r s' rule: retry.induct)
  case (1 d s)
  obtain q t where q: "xfer d (Some ve) (int (length ve)) s = (q, t)" by (cases "xfer d (Some ve) (int (length ve)) s")
  note m = xfer_moves[OF q]
  show ?case
  proof (cases "q = EINTR")
    case True
    then have "retry d (Some ve) (int (length ve)) t = (r, s')" using 1(2) q by (subst (asm) retry.simps) simp
    note i = 1(1)[OF q[symmetric] True this]
    have "moved d [] s t" using m True by (simp add: moves_of_def)
    from moved_trans[OF this] show ?thesis using i m by (auto simp: same_options_def)
  next
    case False
    then show ?thesis using 1(2) q m by (subst (asm) retry.simps) simp
  qed
qed

section \<open>The mode and the time limits are put back\<close>

fun other :: "dir \<Rightarrow> dir" where
  "other Rcv = Snd"
| "other Snd = Rcv"

definition frame :: "dir \<Rightarrow> sock \<Rightarrow> sock \<Rightarrow> bool" where
  \<comment> \<open>only the time limit of the direction may have changed\<close>
  "frame d s s' \<longleftrightarrow> nonblock s' = nonblock s \<and> limit (other d) s' = limit (other d) s \<and> (calls s = [] \<longrightarrow> calls s' = [])"

definition restored :: "sock \<Rightarrow> sock \<Rightarrow> bool" where
  "restored s s' \<longleftrightarrow> nonblock s' = nonblock s \<and> rcvtimeo s' = rcvtimeo s \<and> sndtimeo s' = sndtimeo s"

lemma frame_trans: "frame d s t \<Longrightarrow> frame d t u \<Longrightarrow> frame d s u"
  by (simp add: frame_def)

lemma same_options_frame: "same_options s s' \<Longrightarrow> frame d s s'"
  by (cases d) (auto simp: same_options_def frame_def)

lemma opt_call_Nil: "calls s = [] \<Longrightarrow> opt_call s = (True, s)"
  by (simp add: opt_call_def)

lemma opt_call_moved: "opt_call s = (ok, s') \<Longrightarrow> moved d as u s' = moved d as u s \<and> (nonblock s' = nonblock s \<and> limit e s' = limit e s)"
  by (cases e) (auto simp: opt_call_def split: list.splits)

lemma setsockopt_facts:
  assumes "setsockopt d tv s = (ok, s')"
  shows "moved e as u s' = moved e as u s" and "frame d s s'" and "calls s = [] \<Longrightarrow> ok" and "ok \<Longrightarrow> limit d s' = tv"
proof -
  obtain t where t: "opt_call s = (ok, t)" "s' = (if ok then set_limit d tv t else t)"
    using assms by (auto simp: setsockopt_def split: prod.splits)
  note o = opt_call_moved[OF t(1)]
  show "moved e as u s' = moved e as u s" using o t(2) by simp
  show "frame d s s'" using o[of _ _ _ "other d"] t opt_call_Nil[of s] by (cases d) (auto simp: frame_def)
  show "calls s = [] \<Longrightarrow> ok" using t(1) opt_call_Nil by simp
  show "ok \<Longrightarrow> limit d s' = tv" using t(2) by (cases d) auto
qed

lemma set_mode_facts:
  assumes "set_mode b s = (ok, s')"
  shows "moved e as u s' = moved e as u s" and "limit e s' = limit e s" and "calls s = [] \<Longrightarrow> ok \<and> calls s' = []"
    and "nonblock s' = (if ok then b else nonblock s)"
proof -
  obtain t where t: "opt_call s = (ok, t)" "s' = (if ok then t\<lparr>nonblock := b\<rparr> else t)"
    using assms by (auto simp: set_mode_def split: prod.splits)
  note o = opt_call_moved[OF t(1)]
  show "moved e as u s' = moved e as u s" "nonblock s' = (if ok then b else nonblock s)" using o t(2) by simp_all
  have "limit e t = limit e s" using o by blast
  then show "limit e s' = limit e s" using t(2) by (cases e) auto
  show "calls s = [] \<Longrightarrow> ok \<and> calls s' = []" using t opt_call_Nil by auto
qed

lemma prepare_facts:
  assumes "prepare s = (ok, s')"
  shows "moved e as u s' = moved e as u s" and "limit e s' = limit e s" and "calls s = [] \<Longrightarrow> ok \<and> calls s' = []"
    and "ok \<Longrightarrow> \<not> nonblock s'"
proof -
  obtain ok1 s1 where 1: "opt_call s = (ok1, s1)" by (cases "opt_call s")
  obtain ok2 s2 where 2: "opt_call s1 = (ok2, s2)" by (cases "opt_call s1")
  obtain ok3 s3 where 3: "set_mode False s2 = (ok3, s3)" by (cases "set_mode False s2")
  note f = opt_call_moved[OF 1] opt_call_moved[OF 2] set_mode_facts[OF 3]
  have p: "(ok, s') = (if \<not> ok1 then (False, s1) else if \<not> ok2 then (False, s2) else if nonblock s2 then (ok3, s3) else (True, s2))"
    using assms by (auto simp: prepare_def 1 2 3)
  show "moved e as u s' = moved e as u s" using p f by (auto split: if_splits)
  show "limit e s' = limit e s" using p f by (auto split: if_splits)
  show "ok \<Longrightarrow> \<not> nonblock s'" using p f by (auto split: if_splits)
  show "calls s = [] \<Longrightarrow> ok \<and> calls s' = []"
    using p f(5) 1 2 opt_call_Nil[of s] opt_call_Nil[of s1] by (auto split: if_splits)
qed

lemma restore_facts:
  assumes "restore d nb tv ret s = (r, s')"
  shows "moved e as u s' = moved e as u s" and "r = ret \<or> r = -1" and "calls s = [] \<Longrightarrow> r = ret"
    and "0 \<le> r \<or> calls s = [] \<Longrightarrow> \<not> nonblock s \<Longrightarrow> nonblock s' = nb \<and> limit d s' = tv \<and> limit (other d) s' = limit (other d) s"
proof -
  obtain ok1 s1 where 1: "(if nb then set_mode True s else (True, s)) = (ok1, s1)" by (cases "if nb then set_mode True s else (True, s)")
  obtain ok2 s2 where 2: "setsockopt d tv s1 = (ok2, s2)" by (cases "setsockopt d tv s1")
  have m: "moved e as u s1 = moved e as u s" "limit e' s1 = limit e' s" "calls s = [] \<Longrightarrow> ok1 \<and> calls s1 = []"
    "ok1 \<Longrightarrow> \<not> nonblock s \<Longrightarrow> nonblock s1 = nb" for e'
    using 1 set_mode_facts[of True s ok1 s1] by (auto split: if_splits)
  note f = setsockopt_facts[OF 2]
  have p: "(r, s') = (if \<not> ok1 then (-1, s1) else if \<not> ok2 then (-1, s2) else (ret, s2))"
    using assms by (auto simp: restore_def 1 2)
  show "moved e as u s' = moved e as u s" using p m(1) f(1) by (auto split: if_splits)
  show "r = ret \<or> r = -1" using p by (auto split: if_splits)
  show "calls s = [] \<Longrightarrow> r = ret" using p m(3) f(3) by (auto split: if_splits)
  assume "0 \<le> r \<or> calls s = []" "\<not> nonblock s"
  then show "nonblock s' = nb \<and> limit d s' = tv \<and> limit (other d) s' = limit (other d) s"
    using p m f(2,3,4) by (auto simp: frame_def split: if_splits)
qed

lemma restored_limits: "restored s s' \<longleftrightarrow> nonblock s' = nonblock s \<and> limit d s' = limit d s \<and> limit (other d) s' = limit (other d) s"
  by (cases d) (auto simp: restored_def)

section \<open>The loop over several buffers\<close>

definition loop_ok :: "dir \<Rightarrow> nat list \<Rightarrow> sock \<Rightarrow> sock + int \<times> int \<times> sock \<Rightarrow> bool" where
  \<comment> \<open>a part of the cells was moved, \<open>nleft\<close> is the length of the rest, and only the time limit changed\<close>
  "loop_ok d as s out \<longleftrightarrow>
     (\<exists>n\<le>length as. case out of
        Inl s' \<Rightarrow> calls s \<noteq> [] \<and> moved d (take n as) s s'
      | Inr (ret, nleft, s') \<Rightarrow>
          -1 \<le> ret \<and> frame d s s' \<and> moved d (take n as) s s' \<and> nleft = int (length as) - int n)"

lemma loop_ok_step:
  assumes "loop_ok d (drop n as) t out" and "n \<le> length as" and "moved d (take n as) s t" and "frame d s t"
  shows "loop_ok d as s out"
proof -
  obtain m where m: "m \<le> length (drop n as)" "case out of
        Inl s' \<Rightarrow> calls t \<noteq> [] \<and> moved d (take m (drop n as)) t s'
      | Inr (ret, nleft, s') \<Rightarrow> -1 \<le> ret \<and> frame d t s' \<and> moved d (take m (drop n as)) t s' \<and> nleft = int (length (drop n as)) - int m"
    using assms(1) unfolding loop_ok_def by blast
  have "moved d (take m (drop n as)) t u \<Longrightarrow> moved d (take (n + m) as) s u" for u
    using moved_trans[OF assms(3)] by (simp add: take_add)
  moreover have "calls t \<noteq> [] \<Longrightarrow> calls s \<noteq> []" using assms(4) by (auto simp: frame_def)
  ultimately show ?thesis using m assms(2) frame_trans[OF assms(4)]
    unfolding loop_ok_def by (intro exI[of _ "n + m"]) (auto split: sum.splits)
qed

lemma vec_loop_once:
  assumes "setsockopt d (tv_of msecs) s = (True, s1)" and "retry d (Some ve) count s1 = (r, s2)"
  shows "r = Done n t \<Longrightarrow> 0 < n \<Longrightarrow> 0 < nleft - int n \<Longrightarrow> int t < msecs \<Longrightarrow> iovec_offset ve count n = Some (sve', c') \<Longrightarrow>
      vec_loop d (Some ve) count nleft msecs s = vec_loop d sve' c' (nleft - int n) (msecs - int t) s2"
    and "r = Done n t \<Longrightarrow> n = 0 \<or> nleft - int n \<le> 0 \<Longrightarrow> vec_loop d (Some ve) count nleft msecs s = Some (Inr (int n, nleft - int n, s2))"
    and "r = Done n t \<Longrightarrow> 0 < n \<Longrightarrow> 0 < nleft - int n \<Longrightarrow> msecs \<le> int t \<Longrightarrow>
      vec_loop d (Some ve) count nleft msecs s = Some (Inr (-1, nleft - int n, s2))"
    and "(\<And>n t. r \<noteq> Done n t) \<Longrightarrow> vec_loop d (Some ve) count nleft msecs s = Some (Inr (-1, nleft, s2))"
  by (subst vec_loop.simps; auto simp: assms split: msg_res.splits)+

lemma vec_loop_moves:
  assumes "cells ve \<noteq> []"
  shows "\<exists>out. vec_loop d (Some ve) (int (length ve)) (int (length (cells ve))) msecs s = Some out \<and> loop_ok d (cells ve) s out"
  using assms
proof (induction "length (msgs s)" arbitrary: ve msecs s rule: less_induct)
  case less
  obtain ok s1 where o: "setsockopt d (tv_of msecs) s = (ok, s1)" by (cases "setsockopt d (tv_of msecs) s")
  note f = setsockopt_facts[OF o]
  have m1: "moved d [] s s1" using f(1) by simp
  show ?case
  proof (cases ok)
    case False
    then show ?thesis using o f m1 by (subst vec_loop.simps) (auto simp: loop_ok_def)
  next
    case True
    then have ok: "ok = True" by simp
    obtain r s2 where r: "retry d (Some ve) (int (length ve)) s1 = (r, s2)" by (cases "retry d (Some ve) (int (length ve)) s1")
    let ?n = "moves_of r"
    have m: "?n \<le> length (cells ve)" "moved d (take ?n (cells ve)) s s2" "frame d s s2"
      using retry_moves[OF r] moved_trans[OF m1, of "take ?n (cells ve)" s2] frame_trans[OF f(2) same_options_frame] by auto
    have stop: "-1 \<le> ret \<Longrightarrow> loop_ok d (cells ve) s (Inr (ret, int (length (cells ve)) - int ?n, s2))" for ret
      using m unfolding loop_ok_def by (intro exI[of _ ?n]) simp
    show ?thesis
    proof (cases "\<exists>t. r = Done ?n t \<and> ?n \<noteq> 0 \<and> ?n < length (cells ve) \<and> int t < msecs")
      case False
      then have "\<exists>ret\<ge>-1. vec_loop d (Some ve) (int (length ve)) (int (length (cells ve))) msecs s
          = Some (Inr (ret, int (length (cells ve)) - int ?n, s2))"
      proof (cases r)
        case (Done n t)
        then have n: "?n = n" by (simp add: moves_of_def)
        show ?thesis
        proof (cases "n = 0 \<or> length (cells ve) \<le> n")
          case True
          then show ?thesis using vec_loop_once(2)[OF o[unfolded ok] r Done, of "int (length (cells ve))"] n by auto
        next
          case more: False
          then have "msecs \<le> int t" using False Done n by auto
          then show ?thesis using vec_loop_once(3)[OF o[unfolded ok] r Done, of "int (length (cells ve))"] n more by auto
        qed
      qed (use vec_loop_once(4)[OF o[unfolded ok] r] in \<open>auto simp: moves_of_def\<close>)
      then show ?thesis using stop by blast
    next
      case True
      then obtain t where t: "r = Done ?n t" "?n \<noteq> 0" "?n < length (cells ve)" "int t < msecs" by blast
      obtain sve where sve: "iovec_offset ve (int (length ve)) ?n = Some (Some sve, int (length sve))" "cells sve = drop ?n (cells ve)"
        using iovec_offset_drops[OF t(3)] by blast
      have step: "vec_loop d (Some ve) (int (length ve)) (int (length (cells ve))) msecs s
          = vec_loop d (Some sve) (int (length sve)) (int (length (cells sve))) (msecs - int t) s2"
        using vec_loop_once(1)[OF o[unfolded ok] r t(1) _ _ t(4) sve(1)] t(2,3) by (simp add: sve(2) of_nat_diff m(1))
      have "length (msgs s2) < length (msgs s)"
        using retry_shrinks[OF r] t(1) setsockopt_msgs[OF o] by (metis msg_res.distinct(5))
      moreover have "cells sve \<noteq> []" using sve(2) t(3) by simp
      ultimately obtain out where "vec_loop d (Some sve) (int (length sve)) (int (length (cells sve))) (msecs - int t) s2 = Some out"
        "loop_ok d (cells sve) s2 out" using less.hyps[of s2 sve "msecs - int t"] by blast
      then show ?thesis using step loop_ok_step[OF _ m] sve(2) by auto
    qed
  qed
qed

lemma vec_io_steps:
  assumes "count = int (length ve)" and "count < UIO_MAXIOV" and "cells ve \<noteq> []" and "msecs0 \<noteq> 0"
    and "xfer d (Some ve) count s = (r, s1)" and "msecs = (if msecs0 < 0 then INT_MAX else msecs0)"
  shows "vec_io d ve count msecs0 s =
    (if r = EOTHER then Some (-1, s1)
     else if moves_of r = length (cells ve) then Some (int (length (cells ve)), s1)
     else case iovec_offset ve count (moves_of r) of
       None \<Rightarrow> None
     | Some (sve, scount) \<Rightarrow>
         (case prepare s1 of (ok, s2) \<Rightarrow>
            if \<not> ok then Some (-1, s2)
            else case vec_loop d sve scount (int (length (cells ve)) - int (moves_of r)) msecs s2 of
              None \<Rightarrow> None
            | Some (Inl s3) \<Rightarrow> Some (-1, s3)
            | Some (Inr (last_n, nleft, s3)) \<Rightarrow>
                Some (restore d (nonblock s1) (limit d s1)
                  (if 0 \<le> last_n then int (length (cells ve)) - nleft else last_n) s3)))"
proof -
  have ve: "\<not> (UIO_MAXIOV \<le> count \<or> count = 0)" "take (nat count) ve = ve" "\<not> int (length ve) < count"
    "sum_list (map iov_len ve) = length (cells ve)"
    using assms(1-3) by (auto simp: length_cells)
  have e: "(case r of Done n t \<Rightarrow> n = length (cells ve) | _ \<Rightarrow> False) \<longleftrightarrow> moves_of r = length (cells ve)"
    using assms(3) by (cases r) (auto simp: moves_of_def)
  show ?thesis
    by (simp only: vec_io_def Let_def ve if_False assms(4,5) assms(6)[symmetric] prod.case e)
      (simp split: if_splits)
qed

definition vec_ok :: "dir \<Rightarrow> nat list \<Rightarrow> sock \<Rightarrow> int \<times> sock \<Rightarrow> bool" where
  \<comment> \<open>what the caller of a transfer can rely on\<close>
  "vec_ok d as s out \<longleftrightarrow>
     (case out of (r, s') \<Rightarrow>
        \<exists>n\<le>length as. moved d (take n as) s s' \<and> (r = -1 \<or> r = int n) \<and> (0 \<le> r \<or> calls s = [] \<longrightarrow> restored s s'))"

lemma vec_rest:
  assumes "loop_ok d (drop n as) s2 (Inr (ret, nleft, s3))" and "n \<le> length as" and "moved d (take n as) s s1"
    and "same_options s s1" and "prepare s1 = (True, s2)"
  shows "vec_ok d as s (restore d (nonblock s1) (limit d s1) (if 0 \<le> ret then int (length as) - nleft else ret) s3)"
proof -
  let ?ret = "if 0 \<le> ret then int (length as) - nleft else ret"
  obtain k where k: "k \<le> length (drop n as)" "-1 \<le> ret" "frame d s2 s3" "moved d (take k (drop n as)) s2 s3"
    "nleft = int (length (drop n as)) - int k" using assms(1) unfolding loop_ok_def by auto
  obtain r s4 where r: "restore d (nonblock s1) (limit d s1) ?ret s3 = (r, s4)"
    by (cases "restore d (nonblock s1) (limit d s1) ?ret s3")
  note pf = prepare_facts[OF assms(5)] and rf = restore_facts[OF r]
  have "moved d (take n as) s s2" using assms(3) pf(1) by simp
  from moved_trans[OF this k(4)] have "moved d (take (n + k) as) s s4" using rf(1) by (simp add: take_add)
  moreover have "n + k \<le> length as" using k(1) assms(2) by simp
  moreover have "r = -1 \<or> r = int (n + k)" using rf(2) k(1,2,5) assms(2) by (auto simp: of_nat_diff)
  moreover have "restored s s4" if "0 \<le> r \<or> calls s = []"
  proof -
    have "0 \<le> r \<or> calls s3 = []" "\<not> nonblock s3"
      using that k(3) pf(3,4) assms(4) by (auto simp: frame_def same_options_def)
    from rf(4)[OF this] show ?thesis using k(3) pf(2)[of "other d"] assms(4)
      by (cases d) (auto simp: restored_def frame_def same_options_def)
  qed
  ultimately show ?thesis using r unfolding vec_ok_def by auto
qed

lemma vec_io_ok:
  assumes "count = int (length ve)" and "count < UIO_MAXIOV" and "cells ve \<noteq> []" and "msecs \<noteq> 0"
  shows "\<exists>out. vec_io d ve count msecs s = Some out \<and> vec_ok d (cells ve) s out"
proof -
  obtain r s1 where r: "xfer d (Some ve) count s = (r, s1)" by (cases "xfer d (Some ve) count s")
  note io = vec_io_steps[OF assms r refl]
  let ?n = "moves_of r"
  have m: "?n \<le> length (cells ve)" "moved d (take ?n (cells ve)) s s1" "same_options s s1"
    using xfer_moves[of d ve s r s1] r assms(1) by auto
  have s1: "restored s s1" using m(3) by (simp add: restored_def same_options_def)
  show ?thesis
  proof (cases "r = EOTHER \<or> ?n = length (cells ve)")
    case True
    then have "vec_ok d (cells ve) s (if r = EOTHER then -1 else int ?n, s1)"
      using m s1 unfolding vec_ok_def by auto
    then show ?thesis using io True by auto
  next
    case part: False
    then have lt: "?n < length (cells ve)" using m(1) by simp
    obtain sve where sve: "iovec_offset ve count ?n = Some (Some sve, int (length sve))" "cells sve = drop ?n (cells ve)"
      using iovec_offset_drops[OF lt] assms(1) by blast
    obtain ok s2 where p: "prepare s1 = (ok, s2)" by (cases "prepare s1")
    note pf = prepare_facts[OF p]
    have m2: "moved d (take ?n (cells ve)) s s2" using pf(1) m(2) by simp
    have l: "int (length (cells ve)) - int ?n = int (length (cells sve))" using sve(2) m(1) by (simp add: of_nat_diff)
    let ?ms = "if msecs < 0 then INT_MAX else msecs"
    have "cells sve \<noteq> []" using sve(2) lt by simp
    then obtain out where out: "vec_loop d (Some sve) (int (length sve)) (int (length (cells sve))) ?ms s2 = Some out"
      "loop_ok d (cells sve) s2 out" using vec_loop_moves by blast
    show ?thesis
    proof (cases "ok \<and> (\<exists>x. out = Inr x)")
      case False
      have "calls s = [] \<Longrightarrow> ok" using pf(3) m(3) by (simp add: same_options_def)
      then have "calls s \<noteq> []" using False out(2) pf(3) m(3) by (cases out) (auto simp: loop_ok_def same_options_def)
      moreover have "\<exists>k\<le>length (cells sve). moved d (take k (cells sve)) s2 u" if "out = Inl u" for u
        using out(2) that by (auto simp: loop_ok_def)
      then have "\<exists>k\<le>length (cells ve). moved d (take k (cells ve)) s u" if "out = Inl u" for u
        using that moved_trans[OF m2] sve(2) lt by (metis add_le_imp_le_diff le_diff_conv2 less_imp_le length_drop take_add add.commute)
      moreover have "\<exists>k\<le>length (cells ve). moved d (take k (cells ve)) s s2" using m(1) m2 by blast
      ultimately show ?thesis using io part sve(1) p l out(1) False
        by (cases ok; cases out) (auto simp: vec_ok_def)
    next
      case True
      then obtain ret nleft s3 where x: "out = Inr (ret, nleft, s3)" by auto
      have "vec_ok d (cells ve) s (restore d (nonblock s1) (limit d s1) (if 0 \<le> ret then int (length (cells ve)) - nleft else ret) s3)"
        using vec_rest[OF _ m] out(2) p True x sve(2) by simp
      then show ?thesis using io part sve(1) p l out(1) True x by auto
    qed
  qed
qed

section \<open>The loop over one buffer\<close>

lemma one_conv: "one p k = Some [\<lparr>iov_base = p, iov_len = k\<rparr>]" "cells [\<lparr>iov_base = p, iov_len = k\<rparr>] = [p ..< p + k]"
  by (simp_all add: one_def)

lemma one_loop_once:
  assumes "setsockopt d (tv_of msecs) s = (True, s1)" and "retry d (one (ptr + m) (nbytes - m)) 1 s1 = (r, s2)"
  shows "r = Done n t \<Longrightarrow> 0 < n \<Longrightarrow> m + n \<noteq> nbytes \<Longrightarrow> int t < msecs \<Longrightarrow>
      one_loop d ptr nbytes m msecs s = one_loop d ptr nbytes (m + n) (if d = Snd then msecs - int t else msecs) s2"
    and "r = Done n t \<Longrightarrow> n = 0 \<or> m + n = nbytes \<Longrightarrow> one_loop d ptr nbytes m msecs s = Inr (int (m + n), s2)"
    and "r = Done n t \<Longrightarrow> 0 < n \<Longrightarrow> m + n \<noteq> nbytes \<Longrightarrow> msecs \<le> int t \<Longrightarrow> one_loop d ptr nbytes m msecs s = Inr (-1, s2)"
    and "(\<And>n t. r \<noteq> Done n t) \<Longrightarrow> one_loop d ptr nbytes m msecs s = Inr (-1, s2)"
  by (subst one_loop.simps; auto simp: assms split: msg_res.splits)+

definition one_ok :: "dir \<Rightarrow> nat list \<Rightarrow> nat \<Rightarrow> sock \<Rightarrow> sock + int \<times> sock \<Rightarrow> bool" where
  \<comment> \<open>a part of the cells was moved, of which \<open>k\<close> are preceded\<close>
  "one_ok d as k s out \<longleftrightarrow>
     (\<exists>n\<le>length as. case out of
        Inl s' \<Rightarrow> calls s \<noteq> [] \<and> moved d (take n as) s s'
      | Inr (ret, s') \<Rightarrow> (ret = -1 \<or> ret = int (k + n)) \<and> frame d s s' \<and> moved d (take n as) s s')"

lemma one_ok_step:
  assumes "one_ok d (drop n as) (k + n) t out" and "n \<le> length as" and "moved d (take n as) s t" and "frame d s t"
  shows "one_ok d as k s out"
proof -
  obtain m where m: "m \<le> length (drop n as)" "case out of
        Inl s' \<Rightarrow> calls t \<noteq> [] \<and> moved d (take m (drop n as)) t s'
      | Inr (ret, s') \<Rightarrow> (ret = -1 \<or> ret = int (k + n + m)) \<and> frame d t s' \<and> moved d (take m (drop n as)) t s'"
    using assms(1) unfolding one_ok_def by blast
  have "moved d (take m (drop n as)) t u \<Longrightarrow> moved d (take (n + m) as) s u" for u
    using moved_trans[OF assms(3)] by (simp add: take_add)
  moreover have "calls t \<noteq> [] \<Longrightarrow> calls s \<noteq> []" using assms(4) by (auto simp: frame_def)
  ultimately show ?thesis using m assms(2) frame_trans[OF assms(4)]
    unfolding one_ok_def by (intro exI[of _ "n + m"]) (auto split: sum.splits)
qed

lemma one_loop_moves:
  assumes "m < nbytes"
  shows "one_ok d [ptr + m ..< ptr + nbytes] m s (one_loop d ptr nbytes m msecs s)"
  using assms
proof (induction "length (msgs s)" arbitrary: m msecs s rule: less_induct)
  case less
  let ?as = "[ptr + m ..< ptr + nbytes]"
  obtain ok s1 where o: "setsockopt d (tv_of msecs) s = (ok, s1)" by (cases "setsockopt d (tv_of msecs) s")
  note f = setsockopt_facts[OF o]
  have m1: "moved d [] s s1" using f(1) by simp
  show ?case
  proof (cases ok)
    case False
    then show ?thesis using o f m1 by (subst one_loop.simps) (auto simp: one_ok_def)
  next
    case True
    then have ok: "ok = True" by simp
    obtain r s2 where r: "retry d (one (ptr + m) (nbytes - m)) 1 s1 = (r, s2)"
      by (cases "retry d (one (ptr + m) (nbytes - m)) 1 s1")
    let ?n = "moves_of r"
    have c: "cells [\<lparr>iov_base = ptr + m, iov_len = nbytes - m\<rparr>] = ?as" using less.prems by simp
    have r': "retry d (Some [\<lparr>iov_base = ptr + m, iov_len = nbytes - m\<rparr>]) (int (length [\<lparr>iov_base = ptr + m, iov_len = nbytes - m\<rparr>])) s1 = (r, s2)"
      using r by (simp add: one_def)
    note q = retry_moves[OF r', unfolded c]
    have mv: "?n \<le> length ?as" "moved d (take ?n ?as) s s2" "frame d s s2"
      using q moved_trans[OF m1, of "take ?n ?as" s2] frame_trans[OF f(2) same_options_frame] by auto
    have stop: "ret = -1 \<or> ret = int (m + ?n) \<Longrightarrow> one_ok d ?as m s (Inr (ret, s2))" for ret
      using mv unfolding one_ok_def by (intro exI[of _ ?n]) simp
    note once = one_loop_once[OF o[unfolded ok] r]
    show ?thesis
    proof (cases "\<exists>n t. r = Done n t \<and> 0 < n \<and> m + n \<noteq> nbytes \<and> int t < msecs")
      case False
      then have "\<exists>ret. (ret = -1 \<or> ret = int (m + ?n)) \<and> one_loop d ptr nbytes m msecs s = Inr (ret, s2)"
        using once(2-4) by (cases r) (auto simp: moves_of_def linorder_not_less)
      then show ?thesis using stop by auto
    next
      case True
      then obtain n t where t: "r = Done n t" "0 < n" "m + n \<noteq> nbytes" "int t < msecs" by blast
      then have n: "?n = n" "m + n < nbytes" using mv(1) by (auto simp: moves_of_def)
      have d: "drop n ?as = [ptr + (m + n) ..< ptr + nbytes]" by (simp add: drop_upt ac_simps)
      have "length (msgs s2) < length (msgs s)"
        using retry_shrinks[OF r] t(1) setsockopt_msgs[OF o] by simp
      from less.hyps[OF this n(2)] show ?thesis
        using once(1)[OF t] one_ok_step[OF _ mv(1-3)[unfolded n(1)]] d by simp
    qed
  qed
qed

lemma one_io_steps:
  assumes "0 < nbytes" and "xfer d (one ptr nbytes) 1 s = (r, s1)" and "msecs = (if msecs0 < 0 then INT_MAX else msecs0)"
  shows "one_io d ptr nbytes msecs0 s =
    (if r = EOTHER then (-1, s1) else if moves_of r = nbytes then (int nbytes, s1) else if msecs0 = 0 then (-1, s1)
     else case prepare s1 of (ok, s2) \<Rightarrow>
       if \<not> ok then (-1, s2)
       else case one_loop d ptr nbytes (moves_of r) msecs s2 of
         Inl s3 \<Rightarrow> (-1, s3)
       | Inr (ret, s3) \<Rightarrow> restore d (nonblock s1) (limit d s1) ret s3)"
proof -
  have e: "(case r of Done n t \<Rightarrow> n = nbytes | _ \<Rightarrow> False) \<longleftrightarrow> moves_of r = nbytes"
    using assms(1) by (cases r) (auto simp: moves_of_def)
  show ?thesis
    by (simp only: one_io_def assms(2) assms(3)[symmetric] prod.case e Let_def) (simp split: if_splits)
qed

lemma one_io_ok:
  assumes "0 < nbytes"
  shows "vec_ok d [ptr ..< ptr + nbytes] s (one_io d ptr nbytes msecs s)"
proof -
  let ?as = "[ptr ..< ptr + nbytes]" and ?ms = "if msecs < 0 then INT_MAX else msecs"
  obtain r s1 where r: "xfer d (one ptr nbytes) 1 s = (r, s1)" by (cases "xfer d (one ptr nbytes) 1 s")
  let ?n = "moves_of r"
  have r': "xfer d (Some [\<lparr>iov_base = ptr, iov_len = nbytes\<rparr>]) (int (length [\<lparr>iov_base = ptr, iov_len = nbytes\<rparr>])) s = (r, s1)"
    using r by (simp add: one_def)
  note q = xfer_moves[OF r', unfolded one_conv(2)]
  have s1: "restored s s1" using q by (simp add: restored_def same_options_def)
  note io = one_io_steps[OF assms r refl, of msecs]
  show ?thesis
  proof (cases "r = EOTHER \<or> ?n = nbytes \<or> msecs = 0")
    case True
    then have "\<exists>ret. one_io d ptr nbytes msecs s = (ret, s1) \<and> (ret = -1 \<or> ret = int ?n)" using io by auto
    then show ?thesis using q s1 unfolding vec_ok_def by auto
  next
    case part: False
    obtain ok s2 where p: "prepare s1 = (ok, s2)" by (cases "prepare s1")
    note pf = prepare_facts[OF p]
    have m2: "moved d (take ?n ?as) s s2" unfolding pf(1) using q by blast
    have n: "?n < nbytes" using part q by simp
    define out where "out = one_loop d ptr nbytes ?n ?ms s2"
    have oo: "one_ok d (drop ?n ?as) ?n s2 out" using one_loop_moves[OF n, of d ptr s2 ?ms] by (simp add: drop_upt out_def)
    then obtain k where k: "k \<le> nbytes - ?n" "case out of
        Inl s' \<Rightarrow> calls s2 \<noteq> [] \<and> moved d (take k (drop ?n ?as)) s2 s'
      | Inr (ret, s') \<Rightarrow> (ret = -1 \<or> ret = int (?n + k)) \<and> frame d s2 s' \<and> moved d (take k (drop ?n ?as)) s2 s'"
      unfolding one_ok_def by auto
    have mk: "moved d (take k (drop ?n ?as)) s2 u \<Longrightarrow> moved d (take (?n + k) ?as) s u" for u
      using moved_trans[OF m2] by (simp add: take_add)
    have nk: "?n + k \<le> length ?as" using k(1) n by simp
    show ?thesis
    proof (cases "ok \<and> (\<exists>x. out = Inr x)")
      case False
      have "calls s = [] \<Longrightarrow> ok" using pf(3) q by (simp add: same_options_def)
      then have c: "calls s \<noteq> []" using False k(2) pf(3) q by (cases out) (auto simp: same_options_def)
      have "\<exists>s'. one_io d ptr nbytes msecs s = (-1, s') \<and> (s' = s2 \<or> out = Inl s')"
        using io part p False by (cases ok; cases out) (auto simp: out_def[symmetric])
      then obtain s' where s': "one_io d ptr nbytes msecs s = (-1, s')" "s' = s2 \<or> out = Inl s'" by blast
      have "\<exists>j\<le>length ?as. moved d (take j ?as) s s'"
      proof (cases "s' = s2")
        case True
        have "?n \<le> length ?as" using n by simp
        then show ?thesis using m2 True by blast
      next
        case False
        then have "moved d (take k (drop ?n ?as)) s2 s'" using s'(2) k(2) by simp
        then show ?thesis using mk nk by blast
      qed
      then show ?thesis using s'(1) c unfolding vec_ok_def by auto
    next
      case True
      then obtain ret s3 where x: "out = Inr (ret, s3)" by auto
      have "loop_ok d (drop ?n ?as) s2 (Inr (ret, int (length (drop ?n ?as)) - int k, s3))"
        using k x n unfolding loop_ok_def by auto
      moreover have "?n \<le> length ?as" "moved d (take ?n ?as) s s1" "same_options s s1" "prepare s1 = (True, s2)"
        using q p True by (blast, blast, blast, simp)
      ultimately have "vec_ok d ?as s (restore d (nonblock s1) (limit d s1)
          (if 0 \<le> ret then int (length ?as) - (int (length (drop ?n ?as)) - int k) else ret) s3)" by (rule vec_rest)
      moreover have "(if 0 \<le> ret then int (length ?as) - (int (length (drop ?n ?as)) - int k) else ret) = ret"
        using k(2) x n by (auto simp: of_nat_diff)
      ultimately show ?thesis using io part p True x by (simp add: out_def[symmetric])
    qed
  qed
qed

section \<open>What the callers can rely on\<close>


definition pair_sock :: "msg_ev list \<Rightarrow> sock" where
  "pair_sock es = \<lparr>inq = ''xyz'', outq = [], mem = ''abcd'', nonblock = True, rcvtimeo = (0, 0), sndtimeo = (7, 0), msgs = es, calls = []\<rparr>"

definition pair_vec :: "iovec list" where
  "pair_vec = [\<lparr>iov_base = 2, iov_len = 2\<rparr>, \<lparr>iov_base = 0, iov_len = 1\<rparr>]"

lemma pair_vec_facts: "cells pair_vec = [2, 3, 0]" "length pair_vec = 2" "cells pair_vec \<noteq> []" "int (length pair_vec) < UIO_MAXIOV"
  by (simp_all add: pair_vec_def upt_rec UIO_MAXIOV_def)


section \<open>A transfer completes\<close>

definition is_move :: "msg_ev \<Rightarrow> bool" where
  "is_move e = (case e of Moves k t \<Rightarrow> True | _ \<Rightarrow> False)"

definition took :: "msg_ev \<Rightarrow> int" where
  "took e = (case e of Moves k t \<Rightarrow> int t | _ \<Rightarrow> 0)"

definition prompt :: "dir \<Rightarrow> nat \<Rightarrow> int \<Rightarrow> sock \<Rightarrow> bool" where
  \<comment> \<open>calls are only interrupted, at least \<open>m\<close> of them move something, in less than \<open>msecs\<close> altogether; the peer
      sends at least \<open>m\<close> bytes; options can be got and set\<close>
  "prompt d m msecs s \<longleftrightarrow> list_all (\<lambda>e. is_move e \<or> e = Interrupts) (msgs s) \<and> m \<le> length (filter is_move (msgs s))
     \<and> sum_list (map took (msgs s)) < msecs \<and> (d = Rcv \<longrightarrow> m \<le> length (inq s)) \<and> calls s = []"

lemma prompt_options [simp]:
  "prompt d m msecs (set_limit e tv s) = prompt d m msecs s" "prompt d m msecs (s\<lparr>nonblock := b\<rparr>) = prompt d m msecs s"
  by (cases e; simp add: prompt_def)+

lemma prompt_setsockopt: "prompt d m ms s \<Longrightarrow> \<exists>s1. setsockopt d tv s = (True, s1) \<and> prompt d m ms s1"
  by (auto simp: setsockopt_def opt_call_def prompt_def[of d m ms s] split: prod.splits)

lemma took_nonneg: "0 \<le> sum_list (map took es)"
  by (intro sum_list_nonneg) (auto simp: took_def split: msg_ev.splits)

lemma move_prompt:
  assumes "prompt d m ms (s\<lparr>msgs := Moves k t # es\<rparr>)" and "0 < m" and "m = length (cells ve)"
  shows "\<exists>n s'. (case d of Rcv \<Rightarrow> move_in (cells ve) (Suc k) (s\<lparr>msgs := es\<rparr>) | Snd \<Rightarrow> move_out (cells ve) (Suc k) (s\<lparr>msgs := es\<rparr>)) = (n, s')
    \<and> 0 < n \<and> prompt d (m - n) (ms - int t) s'"
proof (cases d)
  case Rcv
  let ?n = "min (min (Suc k) (length (cells ve))) (length (inq s))"
  have "0 < ?n" using assms Rcv by (auto simp: prompt_def)
  then show ?thesis using assms Rcv by (auto simp: move_in_def Let_def prompt_def is_move_def took_def)
next
  case Snd
  then show ?thesis using assms by (auto simp: move_out_def Let_def prompt_def is_move_def took_def)
qed

lemma xfer_prompt:
  assumes "prompt d m ms s" and "0 < m" and "m = length (cells ve)"
  shows "(\<exists>s'. xfer d (Some ve) (int (length ve)) s = (EINTR, s') \<and> prompt d m ms s' \<and> length (msgs s') < length (msgs s))
    \<or> (\<exists>n t s'. xfer d (Some ve) (int (length ve)) s = (Done n t, s') \<and> 0 < n \<and> n \<le> m \<and> int t < ms \<and> prompt d (m - n) (ms - int t) s')"
proof -
  obtain e es where e: "msgs s = e # es" using assms by (cases "msgs s") (auto simp: prompt_def)
  have s: "s\<lparr>msgs := e # es\<rparr> = s" using e by simp
  show ?thesis
  proof (cases "is_move e")
    case False
    then have "e = Interrupts" using assms(1) e by (simp add: prompt_def)
    then show ?thesis using assms(1) e
      by (cases d) (auto simp: sendmsg_def recvmsg_def next_msg_def prompt_def is_move_def took_def)
  next
    case True
    then obtain k t where k: "e = Moves k t" by (auto simp: is_move_def split: msg_ev.splits)
    have t: "int t < ms" using assms(1) e k took_nonneg[of es] by (simp add: prompt_def took_def)
    obtain n s' where n: "(case d of Rcv \<Rightarrow> move_in (cells ve) (Suc k) (s\<lparr>msgs := es\<rparr>) | Snd \<Rightarrow> move_out (cells ve) (Suc k) (s\<lparr>msgs := es\<rparr>)) = (n, s')"
      "0 < n" "prompt d (m - n) (ms - int t) s'" using move_prompt[of d m ms k t es s ve] assms s k by auto
    have x: "xfer d (Some ve) (int (length ve)) s = (Done n t, s')"
      using n(1) e k by (cases d) (simp_all add: sendmsg_def recvmsg_def next_msg_def)
    then have "n \<le> m" using xfer_moves[OF x] assms(3) by (simp add: moves_of_def)
    then show ?thesis using x n t by blast
  qed
qed

lemma retry_prompt:
  assumes "prompt d m ms s" and "0 < m" and "m = length (cells ve)"
  shows "\<exists>n t s'. retry d (Some ve) (int (length ve)) s = (Done n t, s') \<and> 0 < n \<and> n \<le> m \<and> int t < ms \<and> prompt d (m - n) (ms - int t) s'"
  using assms
proof (induction "length (msgs s)" arbitrary: s rule: less_induct)
  case less
  from xfer_prompt[OF less.prems] show ?case
  proof
    assume "\<exists>s'. xfer d (Some ve) (int (length ve)) s = (EINTR, s') \<and> prompt d m ms s' \<and> length (msgs s') < length (msgs s)"
    then obtain s' where s': "xfer d (Some ve) (int (length ve)) s = (EINTR, s')" "prompt d m ms s'" "length (msgs s') < length (msgs s)"
      by blast
    then have "retry d (Some ve) (int (length ve)) s = retry d (Some ve) (int (length ve)) s'" by (subst retry.simps) simp
    then show ?thesis using less.hyps[OF s'(3,2) less.prems(2,3)] by simp
  next
    assume "\<exists>n t s'. xfer d (Some ve) (int (length ve)) s = (Done n t, s') \<and> 0 < n \<and> n \<le> m \<and> int t < ms \<and> prompt d (m - n) (ms - int t) s'"
    then show ?thesis by (subst retry.simps) auto
  qed
qed

lemma vec_loop_completes:
  assumes "prompt d (length (cells ve)) ms s" and "cells ve \<noteq> []"
  shows "\<exists>ret s'. vec_loop d (Some ve) (int (length ve)) (int (length (cells ve))) ms s = Some (Inr (ret, 0, s')) \<and> 0 < ret \<and> calls s' = []"
  using assms
proof (induction "length (cells ve)" arbitrary: ve ms s rule: less_induct)
  case less
  obtain s1 where o: "setsockopt d (tv_of ms) s = (True, s1)" "prompt d (length (cells ve)) ms s1"
    using prompt_setsockopt[OF less.prems(1)] by blast
  obtain n t s2 where r: "retry d (Some ve) (int (length ve)) s1 = (Done n t, s2)" "0 < n" "n \<le> length (cells ve)" "int t < ms"
    "prompt d (length (cells ve) - n) (ms - int t) s2" using retry_prompt[OF o(2) _ refl] less.prems(2) by auto
  note once = vec_loop_once[OF o(1) r(1)]
  show ?case
  proof (cases "n = length (cells ve)")
    case True
    then show ?thesis using once(2)[OF refl, of "int (length (cells ve))"] r by (simp add: prompt_def)
  next
    case False
    then have lt: "n < length (cells ve)" using r(3) by simp
    obtain sve where sve: "iovec_offset ve (int (length ve)) n = Some (Some sve, int (length sve))" "cells sve = drop n (cells ve)"
      using iovec_offset_drops[OF lt] by blast
    have "vec_loop d (Some ve) (int (length ve)) (int (length (cells ve))) ms s
        = vec_loop d (Some sve) (int (length sve)) (int (length (cells sve))) (ms - int t) s2"
      using once(1)[OF refl r(2) _ r(4) sve(1), of "int (length (cells ve))"] lt by (simp add: sve(2) of_nat_diff)
    then show ?thesis using less.hyps[of sve "ms - int t" s2] sve(2) lt r(2,5) by simp
  qed
qed

lemma restore_Nil:
  assumes "calls s = []"
  shows "\<exists>s'. restore d nb tv ret s = (ret, s')"
proof (cases "restore d nb tv ret s")
  case (Pair r s')
  then show ?thesis using restore_facts(3)[OF Pair assms] by simp
qed

lemma prepare_Nil: "calls s = [] \<Longrightarrow> \<exists>s'. prepare s = (True, s') \<and> (prompt d m ms s' = prompt d m ms s)"
  by (auto simp: prepare_def set_mode_def opt_call_def prompt_def)

lemma vec_io_after_first:
  assumes "count = int (length ve)" and "count < UIO_MAXIOV" and "cells ve \<noteq> []" and "0 < msecs"
    and x: "xfer d (Some ve) count s = (r, s1)" "r \<noteq> EOTHER" and "moves_of r \<le> length (cells ve)"
    and "prompt d (length (cells ve) - moves_of r) msecs s1"
  shows "\<exists>s'. vec_io d ve count msecs s = Some (int (length (cells ve)), s')"
proof (cases "moves_of r = length (cells ve)")
  case True
  then show ?thesis using vec_io_steps[OF assms(1-3) _ x(1) refl, of msecs] assms(4) x(2) by simp
next
  case False
  then have lt: "moves_of r < length (cells ve)" using assms(7) by simp
  obtain sve where sve: "iovec_offset ve count (moves_of r) = Some (Some sve, int (length sve))" "cells sve = drop (moves_of r) (cells ve)"
    using iovec_offset_drops[OF lt] assms(1) by blast
  have l: "int (length (cells ve)) - int (moves_of r) = int (length (cells sve))" using sve(2) lt by (simp add: of_nat_diff)
  have "calls s1 = []" using assms(8) by (simp add: prompt_def)
  then obtain s2 where s2: "prepare s1 = (True, s2)" "prompt d (length (cells sve)) msecs s2"
    using prepare_Nil[of s1 d "length (cells sve)" msecs] assms(8) sve(2) by auto
  obtain ret s3 where v: "vec_loop d (Some sve) (int (length sve)) (int (length (cells sve))) msecs s2 = Some (Inr (ret, 0, s3))"
    "0 < ret" "calls s3 = []" using vec_loop_completes[OF s2(2)] sve(2) lt by auto
  have "vec_io d ve count msecs s = Some (restore d (nonblock s1) (limit d s1) (int (length (cells ve))) s3)"
    using vec_io_steps[OF assms(1-3) _ x(1) refl, of msecs] assms(4) x(2) False sve(1) s2(1) l v(1,2) by simp
  then show ?thesis using restore_Nil[OF v(3)] by metis
qed

lemma vec_io_completes:
  assumes "count = int (length ve)" and "count < UIO_MAXIOV" and "cells ve \<noteq> []"
    and "prompt d (length (cells ve)) msecs (case msgs s of WouldBlock # es \<Rightarrow> s\<lparr>msgs := es\<rparr> | _ \<Rightarrow> s)"
  shows "\<exists>s'. vec_io d ve count msecs s = Some (int (length (cells ve)), s')"
proof -
  let ?s = "case msgs s of WouldBlock # es \<Rightarrow> s\<lparr>msgs := es\<rparr> | _ \<Rightarrow> s"
  have ms: "0 < msecs" using assms(4) took_nonneg[of "msgs ?s"] by (simp add: prompt_def)
  have ve: "0 < length (cells ve)" using assms(3) by simp
  show ?thesis
  proof (cases "\<exists>es. msgs s = WouldBlock # es")
    case True
    then obtain es where es: "msgs s = WouldBlock # es" by blast
    then have "xfer d (Some ve) count s = (EAGAIN, s\<lparr>msgs := es\<rparr>)"
      using assms(1) by (cases d) (simp_all add: sendmsg_def recvmsg_def next_msg_def)
    then show ?thesis using vec_io_after_first[OF assms(1-3) ms, of d s EAGAIN] assms(4) es by (simp add: moves_of_def)
  next
    case False
    then have "?s = s" by (auto split: list.splits msg_ev.splits)
    then have p: "prompt d (length (cells ve)) msecs s" using assms(4) by simp
    from xfer_prompt[OF p ve refl] show ?thesis
    proof
      assume "\<exists>s'. xfer d (Some ve) (int (length ve)) s = (EINTR, s') \<and> prompt d (length (cells ve)) msecs s' \<and> length (msgs s') < length (msgs s)"
      then show ?thesis using vec_io_after_first[OF assms(1-3) ms, of d s EINTR] assms(1) by (auto simp: moves_of_def)
    next
      assume "\<exists>n t s'. xfer d (Some ve) (int (length ve)) s = (Done n t, s') \<and> 0 < n \<and> n \<le> length (cells ve) \<and> int t < msecs
        \<and> prompt d (length (cells ve) - n) (msecs - int t) s'"
      then obtain n t s' where x: "xfer d (Some ve) (int (length ve)) s = (Done n t, s')" "n \<le> length (cells ve)"
        "prompt d (length (cells ve) - n) (msecs - int t) s'" by blast
      then have "prompt d (length (cells ve) - n) msecs s'" by (simp add: prompt_def)
      then show ?thesis using vec_io_after_first[OF assms(1-3) ms, of d s "Done n t" s'] x assms(1) by (simp add: moves_of_def)
    qed
  qed
qed

text \<open>C21: a vectored transfer completes. When the calls are only interrupted, or the first has nothing to do yet, the
  calls that move something make up the buffers within the time limit, however little each of them moves, and options
  can be set, both functions return the length of the buffers and everything was moved, in the order of the buffers:
  sent, or received and stored.\<close>

theorem vectors_complete:
  assumes "cells ve \<noteq> []" and "int (length ve) < UIO_MAXIOV"
    and "prompt d (length (cells ve)) msecs (case msgs s of WouldBlock # es \<Rightarrow> s\<lparr>msgs := es\<rparr> | _ \<Rightarrow> s)"
  shows "\<exists>s'. (case d of Rcv \<Rightarrow> ul_sreadv_ms | Snd \<Rightarrow> ul_swritev_ms) ve (int (length ve)) msecs s = Some (int (length (cells ve)), s')
    \<and> moved d (cells ve) s s' \<and> restored s s'"
proof -
  have "0 < msecs" using assms(3) took_nonneg unfolding prompt_def by (meson order_le_less_trans)
  then obtain out where out: "vec_io d ve (int (length ve)) msecs s = Some out" "vec_ok d (cells ve) s out"
    using vec_io_ok[OF refl assms(2,1), of msecs d s] by auto
  obtain s' where s': "vec_io d ve (int (length ve)) msecs s = Some (int (length (cells ve)), s')"
    using vec_io_completes[OF refl assms(2,1,3)] by blast
  then have "moved d (cells ve) s s' \<and> restored s s'" using out unfolding vec_ok_def by auto
  then show ?thesis using s' by (cases d) (auto simp: ul_sreadv_ms_def ul_swritev_ms_def)
qed

definition slow_sock :: sock where
  "slow_sock = pair_sock [WouldBlock, Moves 0 3, Interrupts, Moves 0 2, Moves 0 1]"

theorem vectors_complete_witness:
  "\<exists>s'. ul_sreadv_ms pair_vec 2 10 slow_sock = Some (3, s') \<and> moved Rcv [2, 3, 0] slow_sock s' \<and> restored slow_sock s'"
proof -
  have p: "prompt Rcv (length (cells pair_vec)) 10 (case msgs slow_sock of WouldBlock # es \<Rightarrow> slow_sock\<lparr>msgs := es\<rparr> | _ \<Rightarrow> slow_sock)"
    by (simp add: prompt_def slow_sock_def pair_sock_def is_move_def took_def pair_vec_facts(1))
  show ?thesis using vectors_complete[OF pair_vec_facts(3,4) p] pair_vec_facts(1,2) by (simp del: moved.simps)
qed

section \<open>One buffer is a vector of one\<close>

fun one_of :: "int \<Rightarrow> sock + int \<times> int \<times> sock \<Rightarrow> sock + int \<times> sock" where
  "one_of nbytes (Inl s) = Inl s"
| "one_of nbytes (Inr (ret, nleft, s)) = Inr (if 0 \<le> ret then nbytes - nleft else ret, s)"

lemma one_loop_vec_loop:
  assumes "m < nbytes"
  shows "\<exists>out. vec_loop Snd (one (ptr + m) (nbytes - m)) 1 (int (nbytes - m)) msecs s = Some out
    \<and> one_of (int nbytes) out = one_loop Snd ptr nbytes m msecs s"
  using assms
proof (induction "length (msgs s)" arbitrary: m msecs s rule: less_induct)
  case less
  let ?v = "[\<lparr>iov_base = ptr + m, iov_len = nbytes - m\<rparr>]"
  obtain ok s1 where o: "setsockopt Snd (tv_of msecs) s = (ok, s1)" by (cases "setsockopt Snd (tv_of msecs) s")
  show ?case
  proof (cases ok)
    case False
    then show ?thesis using o by (simp add: vec_loop.simps[of Snd _ 1] one_loop.simps[of Snd ptr nbytes m])
  next
    case True
    then have o: "setsockopt Snd (tv_of msecs) s = (True, s1)" using o by simp
    obtain r s2 where r: "retry Snd (one (ptr + m) (nbytes - m)) 1 s1 = (r, s2)"
      by (cases "retry Snd (one (ptr + m) (nbytes - m)) 1 s1")
    note a = one_loop_once[OF o r] and b = vec_loop_once[OF o r[unfolded one_def], folded one_def]
    show ?thesis
    proof (cases "\<exists>n t. r = Done n t \<and> 0 < n \<and> m + n < nbytes \<and> int t < msecs")
      case False
      have n: "r = Done n t \<Longrightarrow> m + n \<le> nbytes" for n t
        using retry_moves[of Snd ?v s1 r s2] r less.prems by (auto simp: one_def moves_of_def)
      show ?thesis
      proof (cases r)
        case (Done n t)
        then show ?thesis using False n[OF Done] a(2,3)[OF Done] b(2,3)[OF Done, of "int (nbytes - m)"] less.prems
          by (cases "n = 0 \<or> m + n = nbytes") (auto simp: of_nat_diff linorder_not_less)
      qed (use a(4) b(4) in auto)
    next
      case True
      then obtain n t where t: "r = Done n t" "0 < n" "m + n < nbytes" "int t < msecs" by blast
      have off: "iovec_offset ?v 1 n = Some (one (ptr + (m + n)) (nbytes - (m + n)), 1)"
        using t(2,3) by (simp add: iovec_offset_def one_def ac_simps)
      have "length (msgs s2) < length (msgs s)"
        using retry_shrinks[OF r] t(1) setsockopt_msgs[OF o] by simp
      from less.hyps[OF this t(3), of "msecs - int t"] show ?thesis
        using a(1)[OF t(1,2) _ t(4)] b(1)[OF t(1,2) _ t(4) off, of "int (nbytes - m)"] t(3) by (simp add: of_nat_diff algebra_simps)
    qed
  qed
qed

text \<open>C22: a vector of one buffer is a buffer. With a time limit other than 0, \<open>ul_swritev_ms\<close> of one buffer does what
  \<open>ul_swriteo_ms_ex2\<close> does: the same result, and the same calls, stream, mode and time limits, on every script.\<close>

theorem swritev_one:
  assumes "0 < nbytes" and "msecs \<noteq> 0"
  shows "ul_swritev_ms [\<lparr>iov_base = ptr, iov_len = nbytes\<rparr>] 1 msecs s = Some (ul_swriteo_ms_ex2 ptr nbytes msecs s)"
proof -
  let ?v = "[\<lparr>iov_base = ptr, iov_len = nbytes\<rparr>]"
  define ms where "ms = (if msecs < 0 then INT_MAX else msecs)"
  obtain r s1 where r: "xfer Snd (one ptr nbytes) 1 s = (r, s1)" by (cases "xfer Snd (one ptr nbytes) 1 s")
  let ?n = "moves_of r"
  have v: "(1::int) = int (length ?v)" "1 < UIO_MAXIOV" "cells ?v \<noteq> []" "length (cells ?v) = nbytes"
    using assms(1) by (simp_all add: UIO_MAXIOV_def)
  note steps = vec_io_steps[OF v(1-3) assms(2) r[unfolded one_def] ms_def, unfolded v(4)] one_io_steps[OF assms(1) r ms_def]
  show ?thesis
  proof (cases "r = EOTHER \<or> ?n = nbytes")
    case True
    then show ?thesis using steps by (auto simp: ul_swritev_ms_def ul_swriteo_ms_ex2_def)
  next
    case False
    then have lt: "?n < nbytes" using xfer_moves[of Snd ?v s r s1] r by (simp add: one_def)
    have off: "iovec_offset ?v 1 ?n = Some (one (ptr + ?n) (nbytes - ?n), 1)"
      using lt by (simp add: iovec_offset_def one_def)
    have l: "int nbytes - int ?n = int (nbytes - ?n)" using lt by (simp add: of_nat_diff)
    obtain ok s2 where p: "prepare s1 = (ok, s2)" by (cases "prepare s1")
    obtain out where out: "vec_loop Snd (one (ptr + ?n) (nbytes - ?n)) 1 (int (nbytes - ?n)) ms s2 = Some out"
      "one_of (int nbytes) out = one_loop Snd ptr nbytes ?n ms s2" using one_loop_vec_loop[OF lt] by blast
    show ?thesis unfolding ul_swritev_ms_def ul_swriteo_ms_ex2_def
      using False out(2)[symmetric] assms(2)
      by (cases ok; cases "(int nbytes, out)" rule: one_of.cases; simp add: steps off p out(1) l)
  qed
qed

theorem swritev_one_witness:
  "ul_swritev_ms [\<lparr>iov_base = 1, iov_len = 3\<rparr>] 1 10 slow_sock = Some (ul_swriteo_ms_ex2 1 3 10 slow_sock)"
  using swritev_one[of 3 10 1 slow_sock] by simp

section \<open>Where one buffer differs\<close>

lemmas one_io_eval = one_io_def one_loop.simps retry.simps one_def next_msg_def moves_of_def prepare_def set_mode_def
  opt_call_def setsockopt_def restore_def Let_def pair_sock_def

text \<open>The reader does not take the time that has passed off its limit, as the writer does: a peer that sends one byte
  within every limit keeps it for that long each time. Both start with three calls of 9 ms and a limit of 10 ms.\<close>

theorem reader_limit_restarts:
  "fst (ul_sreado_ms_ex2 0 3 10 (pair_sock [WouldBlock, Moves 0 9, Moves 0 9, Moves 0 9])) = 3"
  "fst (ul_swriteo_ms_ex2 0 3 10 (pair_sock [WouldBlock, Moves 0 9, Moves 0 9, Moves 0 9])) = -1"
  by (simp_all add: ul_sreado_ms_ex2_def ul_swriteo_ms_ex2_def one_io_eval recvmsg_def sendmsg_def move_in_def move_out_def)

text \<open>With a limit of 0 the bytes that the first call took from the stream are stored, but the result is -1, so that
  the caller cannot know how many they are.\<close>

theorem no_limit_hides_bytes:
  "\<exists>s'. ul_sreado_ms_ex2 0 3 0 (pair_sock [Moves 1 0]) = (-1, s') \<and> inq s' = ''z'' \<and> mem s' = ''xycd''"
  by (simp add: ul_sreado_ms_ex2_def one_io_eval recvmsg_def move_in_def eval_nat_numeral upt_rec)

end
