(* ===== verification/Ul_Access.thy ===== *)
theory Ul_Access
  imports Ul_Conf
begin

text \<open>
  The access list of a server, from \<^verbatim>\<open>ullib/src/ul_net1.cpp\<close>: \<open>ul_read_ipaccess_grant\<close> takes the list of address
  patterns from the configuration, \<open>ul_accept\<close> admits the connections whose peer is on it.

  The incoming connections are a script of what the successive calls of \<open>accept\<close> do; a script that has ended is a
  call that waits. The result of \<open>ul_accept\<close> comes with the descriptors that it closed, so that a leak shows. A
  peer address is its four bytes in network order. The texts written to the log are not modelled.
\<close>

section \<open>Numbers and pointers\<close>

definition strtoul10 :: "cstr \<Rightarrow> nat \<times> cstr" where
  \<comment> \<open>\<open>strtoul(s, &end, 10)\<close> with a 64-bit \<open>unsigned long\<close>: the value and the text at \<open>end\<close>, which is all of \<open>s\<close> when
      there is no number\<close>
  "strtoul10 s =
     (let t = dropWhile isspace s;
          neg = (t \<noteq> [] \<and> hd t = CHR ''-'');
          u = (if t \<noteq> [] \<and> (hd t = CHR ''-'' \<or> hd t = CHR ''+'') then tl t else t);
          ds = takeWhile isdigit u;
          v = digits_val 0 ds
      in if ds = [] then (0, s)
         else (if 2 ^ 64 \<le> v then 2 ^ 64 - 1 else if neg then (2 ^ 64 - v) mod 2 ^ 64 else v, dropWhile isdigit u))"

definition u32 :: "nat \<Rightarrow> nat" where
  \<comment> \<open>the conversion of an \<open>unsigned long\<close> to \<open>unsigned int\<close>\<close>
  "u32 v = v mod 2 ^ 32"

definition deref :: "cstr \<Rightarrow> char" where
  \<comment> \<open>\<open>*p\<close>\<close>
  "deref s = (case s of [] \<Rightarrow> NUL | c # _ \<Rightarrow> c)"

section \<open>Matching an address\<close>

definition is_onepart_fit :: "cstr option \<Rightarrow> cstr option \<Rightarrow> int" where
  \<comment> \<open>a pointer is the text from it on; two pointers into one text are equal when what they point to is\<close>
  "is_onepart_fit fromip part =
     (case (fromip, part) of
        (Some f, Some p) \<Rightarrow>
          if strncmp_eq p ''*'' 1 then 1
          else (case strtoul10 f of (from, e) \<Rightarrow>
            if deref e \<noteq> CHR ''.'' \<and> deref e \<noteq> NUL \<or> e = f then 2
            else case strtoul10 p of (low, e1) \<Rightarrow>
              if deref e1 \<noteq> CHR ''.'' \<and> deref e1 \<noteq> CHR ''-'' \<and> deref e1 \<noteq> NUL \<or> e1 = p then 2
              else if deref e1 = CHR ''-'' then
                (let tmp = tl e1 in
                 case strtoul10 tmp of (high, e2) \<Rightarrow>
                   if deref e2 \<noteq> CHR ''.'' \<and> deref e2 \<noteq> NUL \<or> e2 = tmp then 2
                   else if u32 low \<le> u32 from \<and> u32 from \<le> u32 high then 1 else 0)
              else if u32 low \<le> u32 from \<and> u32 from \<le> u32 low then 1 else 0)
      | _ \<Rightarrow> 2)"

definition next_part :: "cstr \<Rightarrow> cstr option" where
  \<comment> \<open>\<open>strchr(b, '.')\<close> and the step behind the dot\<close>
  "next_part b = map_option (\<lambda>i. drop (Suc i) b) (strchr b CHR ''.'')"

function subnet_loop :: "nat \<Rightarrow> cstr option \<Rightarrow> cstr option \<Rightarrow> int" where
  \<comment> \<open>\<open>for (i = 0; i < 4; i++)\<close>\<close>
  "subnet_loop i bip bsubnet =
     (if 4 \<le> i then 1
      else case (bip, bsubnet) of
        (Some b, Some s) \<Rightarrow>
          (let ret = is_onepart_fit (Some b) (Some s) in
           if ret = 0 then 0
           else if ret = 2 then 2
           else if i < 3 then subnet_loop (Suc i) (next_part b) (next_part s)
           else subnet_loop (Suc i) (Some b) (Some s))
      | _ \<Rightarrow> 2)"
  by pat_completeness auto
termination
  by (relation "measure (\<lambda>(i, _). 4 - i)") auto

definition is_in_subnet :: "cstr option \<Rightarrow> cstr option \<Rightarrow> int" where
  "is_in_subnet ip subnet = subnet_loop 0 ip subnet"

definition SUBNET_SIZE :: nat where "SUBNET_SIZE = 256"

function allowed_loop :: "cstr \<Rightarrow> cstr \<Rightarrow> int" where
  \<comment> \<open>\<open>while ((bsnet != NULL) && (bsnet[0] != 0))\<close>\<close>
  "allowed_loop ip bsnet =
     (if bsnet = [] then 0
      else case strchr bsnet CHR '';'' of
        Some n \<Rightarrow>
          if SUBNET_SIZE - 1 < n then allowed_loop ip (drop (Suc n) bsnet)
          else if is_in_subnet (Some ip) (Some (take n bsnet)) = 1 then 1
          else allowed_loop ip (drop (Suc n) bsnet)
      | None \<Rightarrow> if is_in_subnet (Some ip) (Some bsnet) = 1 then 1 else 0)"
  by pat_completeness auto
termination
  by (relation "measure (\<lambda>(ip, s). length s)") auto

definition is_ip_allowed :: "cstr \<Rightarrow> cstr option \<Rightarrow> int" where
  "is_ip_allowed ip pattern =
     (case pattern of
        None \<Rightarrow> 1
      | Some s \<Rightarrow> if s = [] then 1 else allowed_loop ip s)"

declare subnet_loop.simps [simp del] allowed_loop.simps [simp del]

section \<open>The list in the configuration\<close>

definition IPACCESS_GRANT_LEN :: nat where "IPACCESS_GRANT_LEN = 256"

definition ul_read_ipaccess_grant :: "ul_confdata_t option \<Rightarrow> char list option" where
  \<comment> \<open>what the global \<open>ul_ipaccess_grant[IPACCESS_GRANT_LEN + 1]\<close> holds afterwards; the function returns 0\<close>
  "ul_read_ipaccess_grant pd_conf =
     (let siz = IPACCESS_GRANT_LEN + 1; zero = replicate siz NUL in
      do {
        g \<leftarrow> (case pd_conf of
               None \<Rightarrow> Some zero
             | Some _ \<Rightarrow> Option.bind (ul_getconfnstr pd_conf (Some ''ip-access-grant'') (Some zero) siz) snd);
        if g ! 0 = NUL then map_option snd (ul_strlcpy g ''127.0.0.1;192.168.1.*'' siz) else Some g
      })"

section \<open>Accepting a connection\<close>

datatype accept_ev = AcceptAborted | AcceptFails | Accepts int "nat list option"
  \<comment> \<open>\<open>accept\<close> fails with \<open>EPROTO\<close> or \<open>ECONNABORTED\<close>, with another error, or gives a descriptor, for which
      \<open>getpeername\<close> gives the address of the peer or fails\<close>

fun join :: "char \<Rightarrow> cstr list \<Rightarrow> cstr" where
  "join c [] = []"
| "join c [s] = s"
| "join c (s # t # ss) = s @ c # join c (t # ss)"

definition inet_ntop :: "nat list \<Rightarrow> cstr" where
  \<comment> \<open>\<open>inet_ntop(AF_INET, ...)\<close>: the dotted decimal text, which has at most 15 bytes\<close>
  "inet_ntop a = join CHR ''.'' (map dec_nat a)"

definition text_of :: "char list \<Rightarrow> cstr" where
  \<comment> \<open>the string in a block of memory\<close>
  "text_of blk = takeWhile (\<lambda>c. c \<noteq> NUL) blk"

fun ul_accept :: "char list \<Rightarrow> accept_ev list \<Rightarrow> (int \<times> int list \<times> accept_ev list) option" where
  \<comment> \<open>the returned descriptor or -1, the descriptors it closed and the events after it; \<open>None\<close>: the call waits\<close>
  "ul_accept grant [] = None"
| "ul_accept grant (AcceptAborted # es) = ul_accept grant es"
| "ul_accept grant (AcceptFails # es) = Some (-1, [], es)"
| "ul_accept grant (Accepts connfd peer # es) =
     (if grant ! 0 = NUL then Some (connfd, [], es)
      else case peer of
        None \<Rightarrow> Some (-1, [connfd], es)
      | Some a \<Rightarrow>
          (let ip_net = inet_ntop a in
           if ip_net \<noteq> [] then
             (if is_ip_allowed ip_net (Some (text_of grant)) = 0 then Some (-1, [connfd], es)
              else Some (connfd, [], es))
           else Some (-1, [connfd], es)))"

section \<open>Patterns and what they admit\<close>

datatype part = Any | Only nat | Between nat nat

type_synonym subnet = "part list"

fun part_text :: "part \<Rightarrow> cstr" where
  "part_text Any = ''*''"
| "part_text (Only n) = dec_nat n"
| "part_text (Between a b) = dec_nat a @ CHR ''-'' # dec_nat b"

fun part_fits :: "part \<Rightarrow> nat \<Rightarrow> bool" where
  "part_fits Any n \<longleftrightarrow> True"
| "part_fits (Only m) n \<longleftrightarrow> n = m"
| "part_fits (Between a b) n \<longleftrightarrow> a \<le> n \<and> n \<le> b"

fun range_ok :: "part \<Rightarrow> bool" where
  "range_ok Any \<longleftrightarrow> True"
| "range_ok (Only n) \<longleftrightarrow> n < 2 ^ 32"
| "range_ok (Between a b) \<longleftrightarrow> a < 2 ^ 32 \<and> b < 2 ^ 32"

definition subnet_ok :: "subnet \<Rightarrow> bool" where
  "subnet_ok p \<longleftrightarrow> length p = 4 \<and> list_all range_ok p"

definition subnet_text :: "subnet \<Rightarrow> cstr" where
  "subnet_text p = join CHR ''.'' (map part_text p)"

definition address_ok :: "nat list \<Rightarrow> bool" where
  "address_ok a \<longleftrightarrow> length a = 4 \<and> list_all (\<lambda>n. n < 256) a"

definition admits :: "subnet list \<Rightarrow> nat list \<Rightarrow> bool" where
  \<comment> \<open>the address fits one of the patterns\<close>
  "admits ps a \<longleftrightarrow> list_ex (\<lambda>p. list_all2 part_fits p a) ps"

section \<open>The code decides it\<close>

lemma part_char:
  assumes "c \<in> set (part_text p)"
  shows "isdigit c \<or> c = CHR ''*'' \<or> c = CHR ''-''"
  using assms dec_nat_isdigit by (cases p) auto

lemma part_text_plain: "CHR ''.'' \<notin> set (part_text p)" "CHR '';'' \<notin> set (part_text p)" "NUL \<notin> set (part_text p)"
  by (auto dest: part_char simp: isdigit_def)

lemma dec_nat_plain: "CHR ''.'' \<notin> set (dec_nat n)"
  using part_text_plain(1)[of "Only n"] by simp

lemma join_Cons: "ss \<noteq> [] \<Longrightarrow> join c (s # ss) = s @ c # join c ss"
  by (cases ss) auto

lemma set_join: "set (join c ss) \<subseteq> insert c (\<Union>(set ` set ss))"
  by (induction c ss rule: join.induct) auto

lemma join_empty: "join c (s # ss) = [] \<Longrightarrow> s = []"
  by (cases ss) auto

lemma strtoul10_dec:
  assumes "n < 2 ^ 64" and "r = [] \<or> \<not> isdigit (hd r)"
  shows "strtoul10 (dec_nat n @ r) = (n, r)"
proof -
  obtain c cs where c: "dec_nat n = c # cs" using dec_nat_nonempty by (cases "dec_nat n") auto
  then have sp: "\<not> isspace c" "c \<noteq> CHR ''-''" "c \<noteq> CHR ''+''"
    using dec_nat_isdigit[of n] by (auto dest: isdigit_not_special)
  have tw: "takeWhile isdigit (dec_nat n @ r) = dec_nat n" "dropWhile isdigit (dec_nat n @ r) = r"
    using assms(2) dec_nat_isdigit[of n] by (cases r; simp add: takeWhile_append2 dropWhile_append2)+
  have "dropWhile isspace (dec_nat n @ r) = dec_nat n @ r" using sp by (simp add: c)
  moreover have "dec_nat n @ r \<noteq> []" "hd (dec_nat n @ r) = c" by (simp_all add: c)
  ultimately show ?thesis
    using sp tw assms(1) by (simp add: strtoul10_def Let_def del: takeWhile_append dropWhile_append)
qed

definition part_end :: "cstr \<Rightarrow> bool" where
  "part_end r \<longleftrightarrow> r = [] \<or> hd r = CHR ''.''"

lemma part_end_facts:
  assumes "part_end r"
  shows "deref r = CHR ''.'' \<or> deref r = NUL" and "r = [] \<or> \<not> isdigit (hd r)"
  using assms by (auto simp: part_end_def deref_def isdigit_def split: list.splits)

lemma star_not_digit: "isdigit c \<Longrightarrow> c \<noteq> CHR ''*''"
  by (auto simp: isdigit_def)

lemma dec_nat_not_star: "\<not> strncmp_eq (dec_nat n @ r) ''*'' 1"
proof -
  obtain c cs where c: "dec_nat n = c # cs" using dec_nat_nonempty by (cases "dec_nat n") auto
  then have "c \<noteq> CHR ''*''" using dec_nat_isdigit[of n] star_not_digit by auto
  then show ?thesis by (simp add: c strncmp_eq_def)
qed

lemma onepart_fit:
  assumes "range_ok p" and "n < 2 ^ 32" and r: "part_end r" "part_end r'"
  shows "is_onepart_fit (Some (dec_nat n @ r)) (Some (part_text p @ r')) = (if part_fits p n then 1 else 0)"
proof (cases p)
  case Any
  then show ?thesis by (simp add: is_onepart_fit_def strncmp_eq_def)
next
  case (Only m)
  then have m: "m < 2 ^ 32" using assms(1) by simp
  have "deref r' \<noteq> CHR ''-''" using part_end_facts(1)[OF r(2)] by auto
  moreover have "strtoul10 (dec_nat n @ r) = (n, r)" "strtoul10 (dec_nat m @ r') = (m, r')"
    using assms(2) m by (simp_all add: strtoul10_dec part_end_facts(2)[OF r(1)] part_end_facts(2)[OF r(2)])
  ultimately show ?thesis
    using Only assms(2) m part_end_facts(1)[OF r(1)] part_end_facts(1)[OF r(2)] dec_nat_not_star[of m r']
    by (auto simp: is_onepart_fit_def u32_def)
next
  case (Between a b)
  then have ab: "a < 2 ^ 32" "b < 2 ^ 32" using assms(1) by simp_all
  have "strtoul10 (dec_nat n @ r) = (n, r)" "strtoul10 (dec_nat b @ r') = (b, r')"
    using assms(2) ab by (simp_all add: strtoul10_dec part_end_facts(2)[OF r(1)] part_end_facts(2)[OF r(2)])
  moreover have "strtoul10 (dec_nat a @ CHR ''-'' # dec_nat b @ r') = (a, CHR ''-'' # dec_nat b @ r')"
    using ab by (simp add: strtoul10_dec isdigit_def)
  ultimately show ?thesis
    using Between assms(2) ab part_end_facts(1)[OF r(1)] part_end_facts(1)[OF r(2)]
      dec_nat_not_star[of a "CHR ''-'' # dec_nat b @ r'"]
    by (auto simp: is_onepart_fit_def u32_def deref_def[of "CHR ''-'' # _"] Let_def)
qed

lemma next_part_append: "CHR ''.'' \<notin> set s \<Longrightarrow> next_part (s @ CHR ''.'' # t) = Some t"
  by (simp add: next_part_def strchr_append)

lemma subnet_loop_join:
  assumes "length a = 4 - i" and "length p = 4 - i" and "i < 4" and "list_all (\<lambda>n. n < 256) a" and "list_all range_ok p"
  shows "subnet_loop i (Some (join CHR ''.'' (map dec_nat a))) (Some (join CHR ''.'' (map part_text p)))
    = (if list_all2 part_fits p a then 1 else 0)"
  using assms
proof (induction p arbitrary: i a)
  case Nil
  then show ?case by simp
next
  case (Cons q p)
  then obtain n a' where a: "a = n # a'" by (cases a) auto
  have n: "n < 2 ^ 32" "range_ok q" using Cons.prems a by auto
  show ?case
  proof (cases "i = 3")
    case True
    then have e: "a' = []" "p = []" using Cons.prems a by auto
    have "is_onepart_fit (Some (dec_nat n)) (Some (part_text q)) = (if part_fits q n then 1 else 0)"
      using onepart_fit[OF n(2,1), of "[]" "[]"] by (simp add: part_end_def)
    then show ?thesis using True by (simp add: e a subnet_loop.simps[of 3] subnet_loop.simps[of 4])
  next
    case False
    then have i: "i < 3" using Cons.prems by simp
    then have ne: "map dec_nat a' \<noteq> []" "map part_text p \<noteq> []" using Cons.prems a by auto
    have j: "join CHR ''.'' (map dec_nat a) = dec_nat n @ CHR ''.'' # join CHR ''.'' (map dec_nat a')"
      "join CHR ''.'' (map part_text (q # p)) = part_text q @ CHR ''.'' # join CHR ''.'' (map part_text p)"
      using ne by (simp_all add: a join_Cons)
    have fit: "is_onepart_fit (Some (join CHR ''.'' (map dec_nat a))) (Some (join CHR ''.'' (map part_text (q # p))))
        = (if part_fits q n then 1 else 0)"
      unfolding j by (rule onepart_fit[OF n(2,1)]) (simp_all add: part_end_def)
    have "subnet_loop (Suc i) (Some (join CHR ''.'' (map dec_nat a'))) (Some (join CHR ''.'' (map part_text p)))
        = (if list_all2 part_fits p a' then 1 else 0)"
      using Cons.prems i by (intro Cons.IH) (auto simp: a)
    moreover have "next_part (join CHR ''.'' (map dec_nat a)) = Some (join CHR ''.'' (map dec_nat a'))"
      "next_part (join CHR ''.'' (map part_text (q # p))) = Some (join CHR ''.'' (map part_text p))"
      unfolding j by (simp_all add: next_part_append dec_nat_plain part_text_plain)
    ultimately show ?thesis
      using i fit by (subst subnet_loop.simps) (simp add: a)
  qed
qed

lemma is_in_subnet_text:
  assumes "address_ok a" and "subnet_ok p"
  shows "is_in_subnet (Some (inet_ntop a)) (Some (subnet_text p)) = (if list_all2 part_fits p a then 1 else 0)"
  using subnet_loop_join[of a 0 p] assms by (simp add: is_in_subnet_def inet_ntop_def subnet_text_def address_ok_def subnet_ok_def)

lemma allowed_loop_join:
  assumes "list_all (\<lambda>e. e \<noteq> [] \<and> CHR '';'' \<notin> set e \<and> length e < SUBNET_SIZE) es"
  shows "allowed_loop ip (join CHR '';'' es) = (if list_ex (\<lambda>e. is_in_subnet (Some ip) (Some e) = 1) es then 1 else 0)"
  using assms
proof (induction es)
  case Nil
  then show ?case by (simp add: allowed_loop.simps)
next
  case (Cons e es)
  then have e: "e \<noteq> []" "CHR '';'' \<notin> set e" "length e < SUBNET_SIZE" by auto
  show ?case
  proof (cases "es = []")
    case True
    moreover have "strchr e CHR '';'' = None" using e by (simp add: strchr_None_iff)
    ultimately show ?thesis using e by (simp add: allowed_loop.simps[of ip e])
  next
    case False
    then have j: "join CHR '';'' (e # es) = e @ CHR '';'' # join CHR '';'' es" by (rule join_Cons)
    have "strchr (join CHR '';'' (e # es)) CHR '';'' = Some (length e)" using e by (simp add: j strchr_append)
    moreover have "\<not> SUBNET_SIZE - 1 < length e" using e by simp
    ultimately show ?thesis using e Cons by (subst allowed_loop.simps) (simp add: j)
  qed
qed

lemma length_dec_nat_less32: "n < 2 ^ 32 \<Longrightarrow> length (dec_nat n) \<le> 10"
  by (rule length_dec_nat_le) simp_all

lemma length_part_text:
  assumes "range_ok p"
  shows "length (part_text p) \<le> 21"
proof (cases p)
  case Any
  then show ?thesis by simp
next
  case (Only n)
  then show ?thesis using assms length_dec_nat_less32[of n] by simp
next
  case (Between a b)
  then show ?thesis using assms length_dec_nat_less32[of a] length_dec_nat_less32[of b] by simp
qed

lemma length_join: "length (join c ss) = sum_list (map length ss) + (length ss - 1)"
  by (induction c ss rule: join.induct) auto

lemma subnet_text_ok:
  assumes "subnet_ok p"
  shows "subnet_text p \<noteq> []" and "CHR '';'' \<notin> set (subnet_text p)" and "NUL \<notin> set (subnet_text p)"
    and "length (subnet_text p) < SUBNET_SIZE"
proof -
  obtain q ps where p: "p = q # ps" using assms by (cases p) (auto simp: subnet_ok_def)
  have "part_text q \<noteq> []" by (cases q) auto
  then show "subnet_text p \<noteq> []" using join_empty by (auto simp: subnet_text_def p)
  have sub: "set (subnet_text p) \<subseteq> insert CHR ''.'' (\<Union>q\<in>set p. set (part_text q))"
    using set_join[of "CHR ''.''" "map part_text p"] by (auto simp: subnet_text_def)
  show "CHR '';'' \<notin> set (subnet_text p)" "NUL \<notin> set (subnet_text p)"
    using subsetD[OF sub] part_text_plain by auto
  have "sum_list (map length (map part_text p)) \<le> sum_list (map (\<lambda>_. 21) p)"
    using assms length_part_text unfolding map_map by (intro sum_list_mono) (auto simp: subnet_ok_def list_all_iff)
  also have "\<dots> = 84" using assms by (simp add: subnet_ok_def sum_list_triv)
  finally show "length (subnet_text p) < SUBNET_SIZE"
    using assms by (simp add: subnet_text_def length_join subnet_ok_def SUBNET_SIZE_def)
qed

definition grant_text :: "subnet list \<Rightarrow> cstr" where
  "grant_text ps = join CHR '';'' (map subnet_text ps)"

lemma grant_text_nonempty: "list_all subnet_ok ps \<Longrightarrow> ps \<noteq> [] \<Longrightarrow> grant_text ps \<noteq> []"
  using subnet_text_ok(1) join_empty unfolding grant_text_def by (cases ps) fastforce+

lemma is_ip_allowed_text:
  assumes "address_ok a" and "list_all subnet_ok ps" and "ps \<noteq> []"
  shows "is_ip_allowed (inet_ntop a) (Some (grant_text ps)) = (if admits ps a then 1 else 0)"
proof -
  have "list_all (\<lambda>e. e \<noteq> [] \<and> CHR '';'' \<notin> set e \<and> length e < SUBNET_SIZE) (map subnet_text ps)"
    using assms(2) subnet_text_ok by (auto simp: list_all_iff)
  moreover have "list_ex (\<lambda>e. is_in_subnet (Some (inet_ntop a)) (Some e) = 1) (map subnet_text ps) = admits ps a"
    using assms(1,2) by (auto simp: admits_def list_ex_iff list_all_iff is_in_subnet_text split: if_splits)
  ultimately show ?thesis using allowed_loop_join[of "map subnet_text ps"] grant_text_nonempty[OF assms(2,3)]
    by (simp add: is_ip_allowed_def grant_text_def)
qed

section \<open>The server\<close>

lemma ul_accept_shrinks: "ul_accept grant es = Some (fd, closed, es') \<Longrightarrow> length es' < length es"
proof (induction grant es rule: ul_accept.induct)
  case (4 grant connfd peer es)
  then show ?case by (auto simp: Let_def split: if_splits option.splits)
qed auto

function serve :: "char list \<Rightarrow> accept_ev list \<Rightarrow> int list \<times> int list" where
  \<comment> \<open>a server that calls \<open>ul_accept\<close> until it waits: the descriptors it was given and those that were closed\<close>
  "serve grant es =
     (case ul_accept grant es of
        None \<Rightarrow> ([], [])
      | Some (fd, closed, es') \<Rightarrow>
          (case serve grant es' of (got, shut) \<Rightarrow> (if fd < 0 then got else fd # got, closed @ shut)))"
  by pat_completeness auto
termination
  by (relation "measure (\<lambda>(g, es). length es)") (auto dest: ul_accept_shrinks)

declare serve.simps [simp del]

definition event_ok :: "accept_ev \<Rightarrow> bool" where
  \<comment> \<open>what the system calls promise: descriptors are not negative, addresses are four bytes\<close>
  "event_ok e \<longleftrightarrow> (case e of Accepts fd peer \<Rightarrow> 0 \<le> fd \<and> pred_option address_ok peer | _ \<Rightarrow> True)"

fun admitted :: "subnet list \<Rightarrow> accept_ev list \<Rightarrow> int list \<times> int list" where
  \<comment> \<open>the connections that the patterns admit, and the others\<close>
  "admitted ps [] = ([], [])"
| "admitted ps (Accepts fd peer # es) =
     (case admitted ps es of (yes, no) \<Rightarrow>
        if peer \<noteq> None \<and> admits ps (the peer) then (fd # yes, no) else (yes, fd # no))"
| "admitted ps (_ # es) = admitted ps es"

lemma inet_ntop_nonempty: "address_ok a \<Longrightarrow> inet_ntop a \<noteq> []"
  unfolding inet_ntop_def by (cases a) (auto simp: address_ok_def dest: join_empty)

lemma serve_admitted:
  assumes "text_of grant = grant_text ps" and "list_all subnet_ok ps" and "ps \<noteq> []" and "list_all event_ok es"
  shows "serve grant es = admitted ps es"
  using assms
proof (induction ps es rule: admitted.induct)
  case (2 ps fd peer es)
  have "grant ! 0 \<noteq> NUL"
    using 2 grant_text_nonempty[of ps] by (cases grant) (auto simp: text_of_def split: if_splits)
  then show ?case using 2 inet_ntop_nonempty is_ip_allowed_text[of _ ps]
    by (subst serve.simps) (auto simp: Let_def event_ok_def split: option.splits prod.splits if_splits)
qed (subst serve.simps; simp add: serve.simps)+

section \<open>Access control from the configuration to the connection\<close>

definition default_grant :: "subnet list" where
  "default_grant = [[Only 127, Only 0, Only 0, Only 1], [Only 192, Only 168, Only 1, Any]]"

definition grant_item :: "ul_confdata_t option \<Rightarrow> cstr" where
  \<comment> \<open>the value of the first item with the name, empty when there is none\<close>
  "grant_item pd_conf =
     (case pd_conf of
        None \<Rightarrow> []
      | Some c \<Rightarrow> (case find_item (item c) (num c) ''ip-access-grant'' of None \<Rightarrow> [] | Some i \<Rightarrow> snd (item c ! i)))"

definition configures :: "ul_confdata_t option \<Rightarrow> subnet list \<Rightarrow> bool" where
  "configures pd_conf ps \<longleftrightarrow>
     (if grant_item pd_conf = [] then ps = default_grant else grant_item pd_conf = grant_text ps)"

lemma default_numbers: "dec_nat 127 = ''127''" "dec_nat 0 = ''0''" "dec_nat (Suc 0) = ''1''" "dec_nat 192 = ''192''" "dec_nat 168 = ''168''"
  by (simp add: dec_nat.simps, code_simp)+

lemma default_grant_text: "grant_text default_grant = ''127.0.0.1;192.168.1.*''" "list_all subnet_ok default_grant"
  by (simp_all add: default_grant_def grant_text_def subnet_text_def default_numbers subnet_ok_def)

lemma text_of_terminated: "NUL \<notin> set t \<Longrightarrow> text_of (t @ NUL # r) = t"
  by (induction t) (auto simp: text_of_def)

lemma read_grant_block:
  "\<exists>g r. ul_read_ipaccess_grant pd_conf = Some g
    \<and> g = take IPACCESS_GRANT_LEN (if grant_item pd_conf = [] \<or> hd (grant_item pd_conf) = NUL
        then ''127.0.0.1;192.168.1.*'' else grant_item pd_conf) @ NUL # r"
proof -
  let ?siz = "Suc IPACCESS_GRANT_LEN" and ?v = "grant_item pd_conf" and ?d = "''127.0.0.1;192.168.1.*''"
  have s: "0 < IPACCESS_GRANT_LEN" by (simp add: IPACCESS_GRANT_LEN_def)
  have z: "(replicate ?siz NUL)[0 := NUL] = replicate ?siz NUL" by simp
  define g where "g = take IPACCESS_GRANT_LEN ?v @ NUL # drop (Suc (min IPACCESS_GRANT_LEN (length ?v))) (replicate ?siz NUL)"
  have l: "length g = ?siz" by (auto simp: g_def min_def)
  have "(case pd_conf of None \<Rightarrow> Some (replicate ?siz NUL)
      | Some _ \<Rightarrow> Option.bind (ul_getconfnstr pd_conf (Some ''ip-access-grant'') (Some (replicate ?siz NUL)) ?siz) snd) = Some g"
    using strlcpy_spec[of ?siz "replicate ?siz NUL"]
    by (auto simp: g_def grant_item_def ul_getconfnstr_def replicate_append_same split: option.splits)
  then have r: "ul_read_ipaccess_grant pd_conf = (if g ! 0 = NUL then map_option snd (ul_strlcpy g ?d ?siz) else Some g)"
    by (simp add: ul_read_ipaccess_grant_def Let_def)
  have g0: "g ! 0 = NUL \<longleftrightarrow> ?v = [] \<or> hd ?v = NUL" using s by (cases ?v) (auto simp: g_def take_Cons')
  show ?thesis
  proof (cases "g ! 0 = NUL")
    case True
    then show ?thesis using r g0 l strlcpy_spec[of ?siz g ?d] by simp
  next
    case False
    then show ?thesis using r g0 by (auto simp: g_def)
  qed
qed

lemma read_grant_text:
  assumes "configures pd_conf ps" and "list_all subnet_ok ps" and "ps \<noteq> []" and "length (grant_text ps) \<le> IPACCESS_GRANT_LEN"
  obtains g where "ul_read_ipaccess_grant pd_conf = Some g" and "text_of g = grant_text ps"
proof -
  have "set (grant_text ps) \<subseteq> insert CHR '';'' (\<Union>p\<in>set ps. set (subnet_text p))"
    using set_join[of "CHR '';''" "map subnet_text ps"] by (auto simp: grant_text_def)
  then have nul: "NUL \<notin> set (grant_text ps)" using assms(2) subnet_text_ok(3) by (fastforce simp: list_all_iff)
  then have "grant_text ps \<noteq> [] \<Longrightarrow> hd (grant_text ps) \<noteq> NUL" by (cases "grant_text ps") auto
  then obtain g r where "ul_read_ipaccess_grant pd_conf = Some g" "g = grant_text ps @ NUL # r"
    using read_grant_block[of pd_conf] assms(1,4) by (auto simp: configures_def default_grant_text split: if_splits)
  then show thesis using that text_of_terminated[OF nul] by blast
qed

text \<open>C18: access control from the configuration to the connection. When the item \<open>ip-access-grant\<close> is a list of
  patterns that fits in the global array, or is missing or empty, the server that calls \<open>ul_accept\<close> after
  \<open>ul_read_ipaccess_grant\<close> gets exactly the connections whose peer fits one of the patterns, the local host and
  192.168.1.* by default, in their order. Every other accepted descriptor is closed, also when the peer cannot be
  determined, and none is both returned and closed, so none leaks.\<close>

theorem access_control:
  assumes "configures pd_conf ps" and "list_all subnet_ok ps" and "ps \<noteq> []"
    and "length (grant_text ps) \<le> IPACCESS_GRANT_LEN" and "list_all event_ok es"
  shows "\<exists>g. ul_read_ipaccess_grant pd_conf = Some g \<and> serve g es = admitted ps es"
  using read_grant_text[OF assms(1-4)] serve_admitted[OF _ assms(2,3,5)] by metis

theorem access_control_witness:
  "\<exists>g. ul_read_ipaccess_grant None = Some g
    \<and> serve g [Accepts 5 (Some [192, 168, 1, 77]), AcceptAborted, Accepts 6 (Some [10, 0, 0, 1]), AcceptFails,
        Accepts 7 None, Accepts 8 (Some [127, 0, 0, 1])] = ([5, 8], [6, 7])"
proof -
  let ?es = "[Accepts 5 (Some [192, 168, 1, 77]), AcceptAborted, Accepts 6 (Some [10, 0, 0, 1]), AcceptFails,
    Accepts 7 None, Accepts 8 (Some [127, 0, 0, 1])]"
  have "admitted default_grant ?es = ([5, 8], [6, 7])" by (simp add: admits_def default_grant_def)
  moreover have "configures None default_grant" by (simp add: configures_def grant_item_def)
  moreover have "list_all event_ok ?es" by (simp add: event_ok_def address_ok_def)
  moreover have "default_grant \<noteq> []" "length (grant_text default_grant) \<le> IPACCESS_GRANT_LEN"
    by (simp add: default_grant_def, simp add: default_grant_text IPACCESS_GRANT_LEN_def)
  ultimately show ?thesis
    using access_control[of None default_grant ?es] default_grant_text(2) by simp
qed

section \<open>Lists that are too long\<close>

text \<open>A list of more than 256 bytes is cut off without a warning. What is left of the pattern at the end may be the text
  of another one: 10.0.0.12 cut off before its last digit admits 10.0.0.1.\<close>

theorem long_list_cut_off:
  assumes "NUL \<notin> set (grant_item pd_conf)" and "IPACCESS_GRANT_LEN < length (grant_item pd_conf)"
  shows "\<exists>g. ul_read_ipaccess_grant pd_conf = Some g \<and> text_of g = take IPACCESS_GRANT_LEN (grant_item pd_conf)"
proof -
  have "grant_item pd_conf \<noteq> []" using assms(2) by auto
  then have "hd (grant_item pd_conf) \<noteq> NUL" using assms(1) by (cases "grant_item pd_conf") auto
  moreover have "NUL \<notin> set (take IPACCESS_GRANT_LEN (grant_item pd_conf))" using assms(1) by (meson in_set_takeD)
  ultimately show ?thesis using read_grant_block[of pd_conf] \<open>grant_item pd_conf \<noteq> []\<close> by (auto simp: text_of_terminated)
qed

end
