(* ===== verification/Ul_Conf_Files.thy ===== *)
theory Ul_Conf_Files
  imports Ul_Conf
begin

text \<open>
  What several reads and writes of configuration files do together: \<open>ul_readconf_ex\<close>, which reads a file and the files
  it includes, and the number files, to which \<open>ul_writenum_oneint\<close> appends and which \<open>ul_kreadnum_oneint\<close> reads.
\<close>

section \<open>Included files\<close>

lemma conf_lines_extends:
  "conf_lines sz n its s = (r, n', its') \<Longrightarrow> n \<le> sz \<Longrightarrow>
   n \<le> n' \<and> n' \<le> sz \<and> length its' = length its \<and> take n its' = take n its \<and> r \<in> {1, -1}"
proof (induction sz n its s rule: conf_lines.induct)
  case (1 sz n its s)
  show ?case
  proof (cases "s = [] \<or> sz \<le> n")
    case True
    then show ?thesis using 1(4,5) by (subst (asm) conf_lines.simps) (auto split: if_splits)
  next
    case False
    obtain l rest where f: "fgets (LINE_SIZE - 2) s = (l, rest)" by (cases "fgets (LINE_SIZE - 2) s")
    let ?t = "takeWhile (\<lambda>c. c \<noteq> NUL) l"
    have e: "conf_lines sz n its s = (if ?t = [] \<or> hd ?t = CHR ''#'' then conf_lines sz n its rest
         else (case line_loop 0 False [] [] [] (?t @ [NUL]) of
                 None \<Rightarrow> (-1, n, its)
               | Some (status, sep, t1, t2) \<Rightarrow>
                   if status = 4 \<and> sep
                   then conf_lines sz (n + 1) (its[n := (snprintf_buf WORD_SIZE t1, snprintf_buf WORD_SIZE t2)]) rest
                   else conf_lines sz n its rest))"
      using False by (subst conf_lines.simps) (simp add: f Let_def)
    show ?thesis
    proof (cases "?t = [] \<or> hd ?t = CHR ''#''")
      case True
      then show ?thesis using 1(1)[OF _ _ f[symmetric] refl True] 1(4,5) False e by simp
    next
      case item: False
      show ?thesis
      proof (cases "line_loop 0 False [] [] [] (?t @ [NUL])")
        case None
        then show ?thesis using 1(4,5) False e item by simp
      next
        case (Some x)
        obtain status sep t1 t2 where x: "x = (status, sep, t1, t2)" by (cases x)
        show ?thesis
        proof (cases "status = 4 \<and> sep")
          case True
          have "conf_lines sz (n + 1) (its[n := (snprintf_buf WORD_SIZE t1, snprintf_buf WORD_SIZE t2)]) rest = (r, n', its')"
            using 1(4) e item Some x True by simp
          from 1(2)[OF _ _ f[symmetric] refl item Some x[symmetric] refl refl True this] False
          have i: "n + 1 \<le> n'" "n' \<le> sz" "length its' = length its" "r \<in> {1, -1}"
            "take (n + 1) its' = take (n + 1) (its[n := (snprintf_buf WORD_SIZE t1, snprintf_buf WORD_SIZE t2)])" by auto
          have "take n (take (n + 1) its') = take n its" unfolding i(5) by simp
          then show ?thesis using i by simp
        next
          case skip: False
          then have c: "conf_lines sz n its rest = (r, n', its')" using 1(4) e item Some x by (auto split: if_splits)
          show ?thesis using 1(3)[OF _ _ f[symmetric] refl item Some x[symmetric] refl refl skip c 1(5)] False by simp
        qed
      qed
    qed
  qed
qed

definition extends :: "ul_confdata_t \<Rightarrow> ul_confdata_t \<Rightarrow> bool" where
  \<comment> \<open>the second table has the items of the first one in front\<close>
  "extends c d \<longleftrightarrow> csize d = csize c \<and> length (item d) = length (item c) \<and> num c \<le> num d \<and> num d \<le> csize c
     \<and> take (num c) (item d) = take (num c) (item c)"

lemma extends_refl: "conf_inv c \<Longrightarrow> extends c c"
  by (simp add: extends_def conf_inv_def)

lemma extends_inv: "extends c d \<Longrightarrow> conf_inv c \<Longrightarrow> conf_inv d"
  by (simp add: extends_def conf_inv_def)

lemma extends_trans: "extends c d \<Longrightarrow> extends d e \<Longrightarrow> extends c e"
  unfolding extends_def by (metis order_trans min.absorb1 take_take)

lemma readconf_extends: "conf_inv c \<Longrightarrow> extends c (snd (readconf_no_dir fs path c (num c)))"
proof (cases "fs path")
  case (Some content)
  assume "conf_inv c"
  obtain r n its where l: "conf_lines (csize c) (num c) (item c) content = (r, n, its)"
    by (cases "conf_lines (csize c) (num c) (item c) content") auto
  then show ?thesis
    using conf_lines_extends[OF l] \<open>conf_inv c\<close> Some by (auto simp: readconf_no_dir_def extends_def conf_inv_def)
qed (simp add: readconf_no_dir_def extends_refl)

lemma include_extends: "conf_inv c \<Longrightarrow> extends c (include_loop fs path i k c)"
proof (induction fs path i k c rule: include_loop.induct)
  case (2 fs path i k c)
  let ?c = "if map tolower (fst (item c ! i)) = ''$include'' then
          (case include_name (snd (item c ! i)) of
             None \<Rightarrow> c
           | Some incfile \<Rightarrow>
               snd (readconf_no_dir fs
                 (if abs_path incfile then incfile else snprintf_buf (PATH_SIZE * 2) (path @ ''/'' @ incfile)) c (num c)))
        else c"
  have "extends c ?c" using readconf_extends[OF 2(2)] extends_refl[OF 2(2)] by (simp split: option.split)
  then show ?case using 2(1)[OF extends_inv] 2(2) by (auto intro: extends_trans)
qed (simp add: extends_refl)

lemma extends_getconfnstr:
  assumes "extends c d" and "find_item (item c) (num c) nm \<noteq> None"
  shows "ul_getconfnstr (Some d) (Some nm) blk n = ul_getconfnstr (Some c) (Some nm) blk n"
proof -
  obtain i where i: "find_item (item c) (num c) nm = Some i" using assms(2) by auto
  then have "find_item (item d) (num d) nm = Some i \<and> item d ! i = item c ! i"
    using find_item_stays[of "item c" "num c" nm i "num d" "item d"] assms(1) by (simp add: extends_def)
  then show ?thesis using i by (simp add: ul_getconfnstr_def split: option.split)
qed


definition sample_fs :: fsys where
  "sample_fs = [''d/a.conf'' \<mapsto> ''x : 1'' @ [LF] @ ''$include : \"b.conf\"'' @ [LF], ''d/b.conf'' \<mapsto> ''x : 2'' @ [LF] @ ''y : 3'' @ [LF]]"

lemma sample_read: "ul_readconf sample_fs (Some ''d'') (Some ''a.conf'') (Some \<lparr>num = 0, csize = 4, item = replicate 4 ([], [])\<rparr>) =
  (1, Some \<lparr>num = 2, csize = 4, item = [(''x'', ''1''), (''$include'', ''\"b.conf\"''), ([], []), ([], [])]\<rparr>)"
  by code_simp


section \<open>Number files\<close>

fun writenums :: "(cstr \<Rightarrow> bool) \<Rightarrow> cstr \<Rightarrow> cstr \<Rightarrow> (cstr \<times> int) list \<Rightarrow> fsys \<Rightarrow> (int list \<times> fsys) option" where
  \<comment> \<open>calls of \<open>ul_writenum_oneint\<close> one after the other, with their return values\<close>
  "writenums open_ok w f [] fs = Some ([], fs)"
| "writenums open_ok w f ((nm, v) # nvs) fs =
     (case ul_writenum_oneint open_ok fs (Some w) (Some f) (Some nm) v of
        None \<Rightarrow> None
      | Some (r, fs') \<Rightarrow> map_option (\<lambda>(rs, fs''). (r # rs, fs'')) (writenums open_ok w f nvs fs'))"

definition num_item :: "cstr \<times> int \<Rightarrow> bool" where
  \<comment> \<open>a name that is a word of at most 2000 characters, and an \<open>int\<close>\<close>
  "num_item nv \<longleftrightarrow> name_ok (fst nv) \<and> list_all (\<lambda>c. \<not> isspace c \<and> c \<noteq> NUL) (fst nv) \<and> hd (fst nv) \<noteq> CHR ''#'' \<and> int_ok (snd nv)"

lemma dec_int_chars: "\<forall>c \<in> set (dec_int k). isdigit c \<or> c = CHR ''-''"
  using dec_nat_isdigit by (auto simp: dec_int_def)

lemma num_item_fits:
  assumes "num_item nv"
  shows "item_fits (fst nv, dec_int (snd nv))"
proof -
  let ?d = "dec_int (snd nv)"
  have k: "- (2 ^ 31) \<le> snd nv" "snd nv < 2 ^ 31" using assms by (simp_all add: num_item_def int_ok_def)
  then have "nat (snd nv) < 10 ^ 10" "nat (- snd nv) < 10 ^ 10" by simp_all
  then have l: "length ?d \<le> 11" using length_dec_nat_le[of "nat (snd nv)" 10] length_dec_nat_le[of "nat (- snd nv)" 10] by (simp add: dec_int_def)
  have ne: "?d \<noteq> []" by (simp add: dec_int_def)
  have c: "\<not> blank x \<and> \<not> line_end x \<and> x \<noteq> NUL" if "x \<in> set ?d" for x
    using dec_int_chars[of "snd nv"] that by (auto simp: isdigit_def)
  then have "value_ok ?d" using l hd_in_set[OF ne] last_in_set[OF ne] unfolding value_ok_def by (simp add: WORD_SIZE_def) blast
  moreover have "LF \<notin> set ?d" using c by blast
  moreover have "length (fst nv) < WORD_SIZE" using assms by (simp add: num_item_def name_ok_def)
  ultimately show ?thesis using assms l by (simp add: item_fits_def num_item_def conf_line_def LINE_SIZE_def WORD_SIZE_def)
qed

definition num_line :: "cstr \<times> int \<Rightarrow> cstr \<times> cstr" where
  "num_line nv = (fst nv, dec_int (snd nv))"

lemma num_item_word:
  assumes "num_item nv"
  shows "scan_word (fst nv) = (fst nv, [])"
proof -
  have n: "fst nv \<noteq> []" "\<forall>c \<in> set (fst nv). \<not> isspace c" using assms by (auto simp: num_item_def name_ok_def list_all_iff)
  then have d: "dropWhile isspace (fst nv) = fst nv" by (cases "fst nv") auto
  have tw: "takeWhile (\<lambda>c. \<not> isspace c) (fst nv) = fst nv" "dropWhile (\<lambda>c. \<not> isspace c) (fst nv) = []"
    using n(2) by (simp_all add: takeWhile_eq_all_conv dropWhile_eq_Nil_conv)
  show ?thesis by (simp add: scan_word_def d Let_def tw)
qed

lemma writenum_appends:
  assumes "num_item (nm, v)" and "open_ok (num_path w f)" and "fs (num_path w f) = Some old"
  shows "ul_writenum_oneint open_ok fs (Some w) (Some f) (Some nm) v = Some (1, fs(num_path w f \<mapsto> old @ conf_line (num_line (nm, v))))"
proof -
  have s: "scan_word nm = (nm, [])" "scan_word [] = ([], [])" using num_item_word[OF assms(1)] by (simp_all add: scan_word_def)
  have "nm \<noteq> []" "length nm < WORD_SIZE" using assms(1) by (simp_all add: num_item_def name_ok_def)
  then show ?thesis using assms(2,3) s
    by (simp add: ul_writenum_oneint_def writenum_one_def one_word_def num_line_def Let_def WORD_SIZE_def)
qed

lemma writenums_append:
  "\<lbrakk>list_all num_item nvs; open_ok (num_path w f); fs (num_path w f) = Some old\<rbrakk> \<Longrightarrow>
   writenums open_ok w f nvs fs = Some (replicate (length nvs) 1, fs(num_path w f \<mapsto> old @ concat (map conf_line (map num_line nvs))))"
proof (induction nvs arbitrary: fs old)
  case Nil
  then show ?case by (simp add: fun_upd_idem)
next
  case (Cons nv nvs)
  obtain nm v where nv: "nv = (nm, v)" by (cases nv)
  let ?fs = "fs(num_path w f \<mapsto> old @ conf_line (num_line (nm, v)))"
  have "writenums open_ok w f nvs ?fs = Some (replicate (length nvs) 1, ?fs(num_path w f \<mapsto>
      (old @ conf_line (num_line (nm, v))) @ concat (map conf_line (map num_line nvs))))"
    using Cons.prems by (intro Cons.IH) simp_all
  then show ?case using writenum_appends[of nm v open_ok w f fs old] Cons.prems by (simp add: nv fun_eq_iff)
qed

lemma fst_num_line [simp]: "fst (num_line nv) = fst nv"
  by (simp add: num_line_def)

lemma find_num_line:
  "map_of nvs nm = Some v \<Longrightarrow> \<exists>i. find_item (map num_line nvs @ r) (length nvs) nm = Some i \<and> (map num_line nvs @ r) ! i = (nm, dec_int v)"
proof (induction nvs)
  case (Cons nv nvs)
  show ?case
  proof (cases "fst nv = nm")
    case True
    then show ?thesis using Cons.prems by (cases nv) (auto simp: num_line_def)
  next
    case False
    then obtain i where "find_item (map num_line nvs @ r) (length nvs) nm = Some i" "(map num_line nvs @ r) ! i = (nm, dec_int v)"
      using Cons by (cases nv) auto
    then show ?thesis using False by (intro exI[of _ "Suc i"]) simp
  qed
qed simp

text \<open>A number file. After \<open>ul_writenum_init\<close>, numbers that are written one after the other by \<open>ul_writenum_oneint\<close> are all accepted, and
  \<open>ul_kreadnum_oneint\<close> returns 1 and the number that was written first under the name it asks for; for up to 1024 numbers and a file name that fits.\<close>

theorem number_file_roundtrip:
  assumes "open_ok (num_path w f)" and "length f + 2 < PATH_SIZE" and "list_all num_item nvs"
    and "length nvs \<le> LIMIT_CONF_ITEM_NUM" and "map_of nvs nm = Some v"
  shows "\<exists>fs1 fs2. ul_writenum_init open_ok fs w f = (1, fs1) \<and> writenums open_ok w f nvs fs1 = Some (replicate (length nvs) 1, fs2)
    \<and> ul_kreadnum_oneint fs2 w f nm = Some (1, Some v)"
proof -
  let ?p = "num_path w f"
  let ?new = "map num_line nvs"
  let ?fs = "fs(?p \<mapsto> concat (map conf_line ?new))"
  let ?b = "replicate LIMIT_CONF_ITEM_NUM ([], [])"
  have w: "writenums open_ok w f nvs (fs(?p \<mapsto> [])) = Some (replicate (length nvs) 1, ?fs)"
    using writenums_append[of nvs open_ok w f "fs(?p \<mapsto> [])" "[]"] assms(1,3) by simp
  have "list_all item_fits ?new" using assms(3) num_item_fits by (auto simp: list_all_iff num_line_def)
  then have c: "conf_lines LIMIT_CONF_ITEM_NUM 0 ?b (concat (map conf_line ?new)) = (1, length nvs, ?new @ drop (length nvs) ?b)"
    using conf_lines_items[of ?new "[]" LIMIT_CONF_ITEM_NUM ?b] assms(4) by simp
  let ?d = "\<lparr>num = length nvs, csize = LIMIT_CONF_ITEM_NUM, item = ?new @ drop (length nvs) ?b\<rparr>"
  have "conf_path w (snprintf_buf PATH_SIZE (f @ ''.n'')) = ?p" using assms(2) by (simp add: conf_path_def num_path_def)
  then have "ul_readconf ?fs (Some w) (Some (snprintf_buf PATH_SIZE (f @ ''.n''))) (ul_initconf True True (int LIMIT_CONF_ITEM_NUM)) = (1, Some ?d)"
    using c by (simp add: ul_readconf_def ul_readconf_no_dir_def readconf_no_dir_def ul_initconf_def)
  moreover have "ul_getconfint (Some ?d) (Some nm) = Some (1, Some v)"
  proof -
    obtain i where i: "find_item (item ?d) (num ?d) nm = Some i" "item ?d ! i = (nm, dec_int v)" using find_num_line[OF assms(5)] by auto
    have "(nm, v) \<in> set nvs" using assms(5) by (rule map_of_SomeD)
    then have "num_item (nm, v)" using assms(3) by (simp add: list_all_iff)
    then have k: "- (2 ^ 31) \<le> v" "v < 2 ^ 31" unfolding num_item_def int_ok_def by simp_all
    have "length (dec_int v) < WORD_SIZE" using k by (intro length_dec_int) simp_all
    then show ?thesis using i read_signed_dec[of 32 v] k by (simp add: ul_getconfint_def conf_word_def)
  qed
  ultimately have "ul_kreadnum_oneint ?fs w f nm = Some (1, Some v)" by (simp add: ul_kreadnum_oneint_def kreadnum_one_def)
  then show ?thesis using w assms(1) by (intro exI[of _ "fs(?p \<mapsto> [])"] exI[of _ ?fs]) (simp add: ul_writenum_init_def)
qed

theorem number_file_roundtrip_witness:
  "\<exists>fs1 fs2. ul_writenum_init (\<lambda>_. True) Map.empty ''d'' ''cnt'' = (1, fs1)
    \<and> writenums (\<lambda>_. True) ''d'' ''cnt'' [(''a'', 7), (''b'', -12), (''a'', 8)] fs1 = Some ([1, 1, 1], fs2)
    \<and> ul_kreadnum_oneint fs2 ''d'' ''cnt'' ''a'' = Some (1, Some 7)"
proof -
  have "list_all num_item [(''a'', 7), (''b'', -12), (''a'', 8)]"
    by (simp add: num_item_def name_ok_def int_ok_def isspace_def WORD_SIZE_def)
  then show ?thesis
    using number_file_roundtrip[of "\<lambda>_. True" "''d''" "''cnt''" "[(''a'', 7), (''b'', -12), (''a'', 8)]" "''a''" 7 Map.empty]
    by (simp add: PATH_SIZE_def LIMIT_CONF_ITEM_NUM_def eval_nat_numeral)
qed

end
