(* ===== verification/Ul_Argu.thy ===== *)
theory Ul_Argu
  imports Ul_String
begin

text \<open>
  Command line arguments, the last part of \<^verbatim>\<open>ullib/src/ul_conf.cpp\<close>: \<open>read_argument\<close> sorts the arguments of a program into
  options of one character, options with a name and basic arguments, each with the content that follows it, and three
  functions look them up.

  The three arrays of the structure are lists of the length they have in \<^verbatim>\<open>ul_conf.h\<close>. The content of an option is the text
  in front of its terminator. The name of an option is copied by \<open>strncpy\<close> into a field of 20 bytes: when it fills the field there is no
  terminator, and whoever reads the name reads on in the content, which is the next field. A result \<open>None\<close> is an access outside of an
  array or of a block the caller passed. The counters \<open>cur_mopt\<close> and \<open>cur_arg\<close> and the mark of a basic argument, which no
  function uses, are left out.
\<close>

section \<open>The structure\<close>

definition MAX_OPT_CONTENT :: nat where "MAX_OPT_CONTENT = 256"
definition MAX_OPTION_NUM :: nat where "MAX_OPTION_NUM = 20"
definition MAX_MUTI_OPT :: nat where "MAX_MUTI_OPT = 20"
definition MAX_MOPT_NUM :: nat where "MAX_MOPT_NUM = 10"
definition MAX_BASE_OPTLEN :: nat where "MAX_BASE_OPTLEN = 128"
definition MAX_BASE_OPTNUM :: nat where "MAX_BASE_OPTNUM = 10"

lemmas argu_consts = MAX_OPT_CONTENT_def MAX_OPTION_NUM_def MAX_MUTI_OPT_def MAX_MOPT_NUM_def MAX_BASE_OPTLEN_def MAX_BASE_OPTNUM_def

record arg_option_t =
  ao_out :: bool
  ao_option :: char
  ao_cont :: cstr

record muti_option_t =
  mo_out :: bool
  mo_name :: "char list"
  mo_cont :: cstr

record ul_argu_stru_t =
  opt_num :: nat
  cur_opt :: nat
  opt_tab :: "arg_option_t list"
  mopt_num :: nat
  mopt_tab :: "muti_option_t list"
  arg_num :: nat
  base_tab :: "cstr list"

definition no_option :: arg_option_t where "no_option = \<lparr>ao_out = False, ao_option = NUL, ao_cont = []\<rparr>"
definition no_moption :: muti_option_t where "no_moption = \<lparr>mo_out = False, mo_name = [], mo_cont = []\<rparr>"

definition argument_init :: "bool \<Rightarrow> ul_argu_stru_t option" where
  \<comment> \<open>the argument: \<open>calloc\<close> succeeds\<close>
  "argument_init ok =
     (if ok then Some \<lparr>opt_num = 0, cur_opt = 0, opt_tab = replicate MAX_OPTION_NUM no_option,
        mopt_num = 0, mopt_tab = replicate MAX_MOPT_NUM no_moption, arg_num = 0, base_tab = replicate MAX_BASE_OPTNUM []\<rparr>
      else None)"

definition mo_text :: "muti_option_t \<Rightarrow> cstr" where
  \<comment> \<open>what \<open>strlen\<close> and \<open>strcmp\<close> see at the name\<close>
  "mo_text m = (if length (mo_name m) < MAX_MUTI_OPT then mo_name m else mo_name m @ mo_cont m)"

section \<open>Sorting the arguments\<close>

record rd_state =
  argu :: ul_argu_stru_t
  l_option :: nat
  l_moption :: nat
  l_opt_num :: nat
  l_arg_num :: nat
  l_mopt_num :: nat

fun opt_chars :: "cstr \<Rightarrow> rd_state \<Rightarrow> (bool \<times> rd_state) option" where
  \<comment> \<open>\<open>while ((ch = *(++*argv)) != 0)\<close>; \<open>False\<close> is \<open>return -1\<close>\<close>
  "opt_chars [] st = Some (True, st)"
| "opt_chars (ch # s) st =
     (if ch = CHR ''-'' then
        (let i = l_mopt_num st; a = argu st in
         if length (mopt_tab a) \<le> i then None
         else let m = (mopt_tab a ! i)\<lparr>mo_name := take MAX_MUTI_OPT s\<rparr>;
                  a' = a\<lparr>mopt_tab := (mopt_tab a)[i := m]\<rparr> in
           if mo_text m = [] then Some (True, st\<lparr>argu := a', l_mopt_num := i + 1, l_moption := 0\<rparr>)
           else Some (True, st\<lparr>argu := a'\<lparr>mopt_num := mopt_num a + 1\<rparr>, l_mopt_num := i + 1, l_moption := l_moption st + 1\<rparr>))
      else (let i = l_opt_num st; a = argu st in
        if length (opt_tab a) \<le> i then None
        else let st' = st\<lparr>l_option := l_option st + 1, l_opt_num := i + 1,
               argu := a\<lparr>opt_num := opt_num a + 1, opt_tab := (opt_tab a)[i := (opt_tab a ! i)\<lparr>ao_option := ch\<rparr>]\<rparr>\<rparr> in
          if MAX_OPTION_NUM \<le> i + 1 then Some (False, st') else opt_chars s st'))"

definition strlcpy_text :: "cstr \<Rightarrow> nat \<Rightarrow> cstr" where
  \<comment> \<open>the text that \<open>ul_strlcpy(dst, src, siz)\<close> leaves in a field of \<open>siz\<close> bytes\<close>
  "strlcpy_text src siz = take (siz - 1) src"

definition plain_arg :: "cstr \<Rightarrow> rd_state \<Rightarrow> (bool \<times> rd_state) option" where
  \<comment> \<open>an argument that does not start with a hyphen\<close>
  "plain_arg arg st =
     (let a = argu st in
      if l_moption st = 1 then
        (if 0 < l_mopt_num st then
           (let i = l_mopt_num st - 1 in
            if length (mopt_tab a) \<le> i then None
            else Some (True, st\<lparr>l_moption := 0,
              argu := a\<lparr>mopt_tab := (mopt_tab a)[i := (mopt_tab a ! i)\<lparr>mo_cont := strlcpy_text arg MAX_OPT_CONTENT\<rparr>]\<rparr>\<rparr>))
         else Some (True, st\<lparr>l_moption := 0\<rparr>))
      else if l_option st = 1 then
        (if 0 < l_opt_num st then
           (let i = l_opt_num st - 1 in
            if length (opt_tab a) \<le> i then None
            else Some (True, st\<lparr>l_option := 0,
              argu := a\<lparr>opt_tab := (opt_tab a)[i := (opt_tab a ! i)\<lparr>ao_cont := strlcpy_text arg MAX_OPT_CONTENT\<rparr>]\<rparr>\<rparr>))
         else
           (let i = l_arg_num st in
            if length (base_tab a) \<le> i then None
            else let st' = st\<lparr>l_arg_num := i + 1,
                   argu := a\<lparr>arg_num := arg_num a + 1, base_tab := (base_tab a)[i := take MAX_BASE_OPTLEN arg]\<rparr>\<rparr> in
              if MAX_BASE_OPTNUM \<le> i + 1 then Some (False, st') else Some (True, st'\<lparr>l_option := 0\<rparr>)))
      else Some (True, st))"

fun read_args :: "cstr list \<Rightarrow> rd_state \<Rightarrow> (int \<times> rd_state) option" where
  \<comment> \<open>\<open>while (--argc)\<close>\<close>
  "read_args [] st = Some (0, st)"
| "read_args (arg # args) st =
     (case (if arg \<noteq> [] \<and> hd arg = CHR ''-'' then opt_chars (tl arg) (st\<lparr>l_moption := 0, l_option := 0\<rparr>) else plain_arg arg st) of
        None \<Rightarrow> None
      | Some (ok, st') \<Rightarrow> if ok then read_args args st' else Some (-1, st'))"

definition has_content :: "ul_argu_stru_t \<Rightarrow> char \<Rightarrow> bool" where
  "has_content a c \<longleftrightarrow> list_ex (\<lambda>m. ao_option m = c \<and> ao_cont m \<noteq> []) (take (opt_num a) (opt_tab a))"

definition read_argument :: "bool \<Rightarrow> ul_argu_stru_t \<Rightarrow> cstr list \<Rightarrow> (int \<times> ul_argu_stru_t) option" where
  \<comment> \<open>the first argument: the macro \<open>CHK_CONF_HOME\<close> is defined; the last one is \<open>argv\<close> behind the name of the program\<close>
  "read_argument chk_conf_home a args =
     (case read_args args \<lparr>argu = a, l_option = 0, l_moption = 0, l_opt_num = 0, l_arg_num = 0, l_mopt_num = 0\<rparr> of
        None \<Rightarrow> None
      | Some (r, st) \<Rightarrow>
          if r \<noteq> 0 then Some (r, argu st)
          else if chk_conf_home \<and> \<not> has_content (argu st) CHR ''c'' then Some (-1, argu st)
          else if chk_conf_home \<and> \<not> has_content (argu st) CHR ''d'' then Some (-1, argu st)
          else Some (0, argu st))"

section \<open>Looking them up\<close>

fun find_from :: "('a \<Rightarrow> bool) \<Rightarrow> 'a list \<Rightarrow> nat \<Rightarrow> nat option" where
  \<comment> \<open>the loops over the first \<open>n\<close> entries of an array\<close>
  "find_from p xs 0 = None"
| "find_from p [] (Suc n) = None"
| "find_from p (x # xs) (Suc n) = (if p x then Some 0 else map_option Suc (find_from p xs n))"

definition memset0 :: "char list \<Rightarrow> int \<Rightarrow> char list option" where
  \<comment> \<open>\<open>memset(blk, 0, (size_t) n)\<close>\<close>
  "memset0 blk n = (if n < 0 \<or> int (length blk) < n then None else Some (replicate (nat n) NUL @ drop (nat n) blk))"

definition take_out :: "cstr \<Rightarrow> char list option \<Rightarrow> int option \<Rightarrow> (int \<times> bool \<times> char list option \<times> int option) option" where
  \<comment> \<open>what the two functions do with the content of the option they found: the return value, whether the option
      is marked as taken, the block and the size\<close>
  "take_out cont opt_value opt_size =
     (case (opt_value, opt_size) of
        (Some blk, Some sz) \<Rightarrow>
          if cont = [] then Some (1, False, opt_value, opt_size)
          else (case memset0 blk sz of
             None \<Rightarrow> None
           | Some b \<Rightarrow>
               if sz < int (length cont) + 1 then
                 map_option (\<lambda>(_, b'). (0, False, Some b', opt_size)) (ul_strlcpy b cont (nat sz))
               else
                 map_option (\<lambda>(_, b'). (int (length cont), True, Some b', Some (int (length cont)))) (ul_strlcpy b cont (length cont + 1)))
      | _ \<Rightarrow> Some (1, False, opt_value, opt_size))"

definition not_found :: "char list option \<Rightarrow> int option \<Rightarrow> (int \<times> char list option \<times> int option) option" where
  "not_found opt_value opt_size =
     (case (opt_value, opt_size) of
        (Some blk, Some sz) \<Rightarrow> map_option (\<lambda>b. (0, Some b, Some 0)) (memset0 blk sz)
      | _ \<Rightarrow> Some (0, opt_value, opt_size))"

definition get_one_option ::
  "ul_argu_stru_t \<Rightarrow> char \<Rightarrow> char list option \<Rightarrow> int option \<Rightarrow> (int \<times> ul_argu_stru_t \<times> char list option \<times> int option) option" where
  "get_one_option a c opt_value opt_size =
     (case find_from (\<lambda>m. ao_option m = c) (opt_tab a) (opt_num a) of
        None \<Rightarrow> map_option (\<lambda>(r, v, z). (r, a, v, z)) (not_found opt_value opt_size)
      | Some i \<Rightarrow>
          map_option (\<lambda>(r, taken, v, z).
              (r, if taken \<and> \<not> ao_out (opt_tab a ! i)
                  then a\<lparr>cur_opt := cur_opt a + 1, opt_tab := (opt_tab a)[i := (opt_tab a ! i)\<lparr>ao_out := True\<rparr>]\<rparr> else a, v, z))
            (take_out (ao_cont (opt_tab a ! i)) opt_value opt_size))"

definition get_one_complex_option ::
  "ul_argu_stru_t \<Rightarrow> cstr \<Rightarrow> char list option \<Rightarrow> int option \<Rightarrow> (int \<times> ul_argu_stru_t \<times> char list option \<times> int option) option" where
  \<comment> \<open>this function, too, counts in \<open>cur_opt\<close>\<close>
  "get_one_complex_option a name opt_value opt_size =
     (case find_from (\<lambda>m. mo_text m = name) (mopt_tab a) (mopt_num a) of
        None \<Rightarrow> map_option (\<lambda>(r, v, z). (r, a, v, z)) (not_found opt_value opt_size)
      | Some i \<Rightarrow>
          map_option (\<lambda>(r, taken, v, z).
              (r, if taken \<and> \<not> mo_out (mopt_tab a ! i)
                  then a\<lparr>cur_opt := cur_opt a + 1, mopt_tab := (mopt_tab a)[i := (mopt_tab a ! i)\<lparr>mo_out := True\<rparr>]\<rparr> else a, v, z))
            (take_out (mo_cont (mopt_tab a ! i)) opt_value opt_size))"

definition get_base_argument ::
  "ul_argu_stru_t \<Rightarrow> int \<Rightarrow> char list \<Rightarrow> int \<Rightarrow> (int \<times> char list \<times> int) option" where
  \<comment> \<open>the return value, the block and \<open>*size\<close>\<close>
  "get_base_argument a serial b_argument sz =
     (if serial < 0 \<or> int (arg_num a) < serial then Some (0, b_argument, sz)
      else case memset0 b_argument sz of
        None \<Rightarrow> None
      | Some b \<Rightarrow>
          if length (base_tab a) \<le> nat serial \<or> MAX_BASE_OPTLEN \<le> length (base_tab a ! nat serial) then None
          else (let t = base_tab a ! nat serial in
            if t = [] \<or> sz \<le> int (length t) then Some (0, b, sz)
            else map_option (\<lambda>(_, b'). (int (length t), b', int (length t))) (ul_strlcpy b t (nat sz))))"

section \<open>What a command line means\<close>

datatype arg_item = Short char "cstr option" | Long cstr "cstr option"

definition val_of :: "cstr option \<Rightarrow> cstr" where
  "val_of v = (case v of None \<Rightarrow> [] | Some t \<Rightarrow> t)"

fun render :: "arg_item \<Rightarrow> cstr list" where
  \<comment> \<open>an option as the arguments that a user writes\<close>
  "render (Short c v) = [CHR ''-'', c] # (case v of None \<Rightarrow> [] | Some t \<Rightarrow> [t])"
| "render (Long n v) = (''--'' @ n) # (case v of None \<Rightarrow> [] | Some t \<Rightarrow> [t])"

definition val_ok :: "cstr option \<Rightarrow> bool" where
  "val_ok v \<longleftrightarrow> (case v of None \<Rightarrow> True | Some t \<Rightarrow> length t < MAX_OPT_CONTENT \<and> (t = [] \<or> hd t \<noteq> CHR ''-''))"

fun arg_ok :: "arg_item \<Rightarrow> bool" where
  "arg_ok (Short c v) \<longleftrightarrow> c \<noteq> CHR ''-'' \<and> val_ok v"
| "arg_ok (Long n v) \<longleftrightarrow> n \<noteq> [] \<and> length n < MAX_MUTI_OPT \<and> val_ok v"

fun shorts :: "arg_item list \<Rightarrow> (char \<times> cstr) list" where
  "shorts [] = []"
| "shorts (Short c v # is) = (c, val_of v) # shorts is"
| "shorts (Long n v # is) = shorts is"

fun longs :: "arg_item list \<Rightarrow> (cstr \<times> cstr) list" where
  "longs [] = []"
| "longs (Short c v # is) = longs is"
| "longs (Long n v # is) = (n, val_of v) # longs is"

definition opt_table :: "(char \<times> cstr) list \<Rightarrow> arg_option_t list" where
  "opt_table S = map (\<lambda>(c, v). \<lparr>ao_out = False, ao_option = c, ao_cont = v\<rparr>) S @ replicate (MAX_OPTION_NUM - length S) no_option"

definition mopt_table :: "(cstr \<times> cstr) list \<Rightarrow> muti_option_t list" where
  "mopt_table L = map (\<lambda>(n, v). \<lparr>mo_out = False, mo_name = n, mo_cont = v\<rparr>) L @ replicate (MAX_MOPT_NUM - length L) no_moption"

definition argu_of :: "(char \<times> cstr) list \<Rightarrow> (cstr \<times> cstr) list \<Rightarrow> ul_argu_stru_t" where
  \<comment> \<open>the structure that holds these options\<close>
  "argu_of S L = \<lparr>opt_num = length S, cur_opt = 0, opt_tab = opt_table S, mopt_num = length L, mopt_tab = mopt_table L,
     arg_num = 0, base_tab = replicate MAX_BASE_OPTNUM []\<rparr>"

definition st_of :: "nat \<Rightarrow> nat \<Rightarrow> (char \<times> cstr) list \<Rightarrow> (cstr \<times> cstr) list \<Rightarrow> rd_state" where
  \<comment> \<open>the state of \<open>read_argument\<close> when it has read them\<close>
  "st_of o1 m1 S L = \<lparr>argu = argu_of S L, l_option = o1, l_moption = m1, l_opt_num = length S, l_arg_num = 0, l_mopt_num = length L\<rparr>"

lemma opt_table_snoc:
  assumes "length S < MAX_OPTION_NUM"
  shows "(opt_table S)[length S := \<lparr>ao_out = False, ao_option = c, ao_cont = v\<rparr>] = opt_table (S @ [(c, v)])"
    and "opt_table S ! length S = no_option" and "length (opt_table S) = MAX_OPTION_NUM"
proof -
  obtain k where k: "MAX_OPTION_NUM = Suc (length S + k)" using assms less_imp_Suc_add by blast
  show "(opt_table S)[length S := \<lparr>ao_out = False, ao_option = c, ao_cont = v\<rparr>] = opt_table (S @ [(c, v)])"
    "opt_table S ! length S = no_option" "length (opt_table S) = MAX_OPTION_NUM"
    by (simp_all add: opt_table_def k list_update_append nth_append)
qed

lemma mopt_table_snoc:
  assumes "length L < MAX_MOPT_NUM"
  shows "(mopt_table L)[length L := \<lparr>mo_out = False, mo_name = n, mo_cont = v\<rparr>] = mopt_table (L @ [(n, v)])"
    and "mopt_table L ! length L = no_moption" and "length (mopt_table L) = MAX_MOPT_NUM"
proof -
  obtain k where k: "MAX_MOPT_NUM = Suc (length L + k)" using assms less_imp_Suc_add by blast
  show "(mopt_table L)[length L := \<lparr>mo_out = False, mo_name = n, mo_cont = v\<rparr>] = mopt_table (L @ [(n, v)])"
    "mopt_table L ! length L = no_moption" "length (mopt_table L) = MAX_MOPT_NUM"
    by (simp_all add: mopt_table_def k list_update_append nth_append)
qed

lemma opt_table_last:
  assumes "length S < MAX_OPTION_NUM"
  shows "(opt_table (S @ [(c, w)]))[length S := \<lparr>ao_out = False, ao_option = c, ao_cont = v\<rparr>] = opt_table (S @ [(c, v)])"
    and "opt_table (S @ [(c, w)]) ! length S = \<lparr>ao_out = False, ao_option = c, ao_cont = w\<rparr>"
    and "length (opt_table (S @ [(c, w)])) = MAX_OPTION_NUM"
  using assms by (simp_all add: opt_table_def nth_append list_update_append)

lemma mopt_table_last:
  assumes "length L < MAX_MOPT_NUM"
  shows "(mopt_table (L @ [(n, w)]))[length L := \<lparr>mo_out = False, mo_name = n, mo_cont = v\<rparr>] = mopt_table (L @ [(n, v)])"
    and "mopt_table (L @ [(n, w)]) ! length L = \<lparr>mo_out = False, mo_name = n, mo_cont = w\<rparr>"
    and "length (mopt_table (L @ [(n, w)])) = MAX_MOPT_NUM"
  using assms by (simp_all add: mopt_table_def nth_append list_update_append)

lemma read_short:
  assumes "length S + 1 < MAX_OPTION_NUM" and "c \<noteq> CHR ''-''"
  shows "read_args ([CHR ''-'', c] # args) (st_of o1 m1 S L) = read_args args (st_of 1 0 (S @ [(c, [])]) L)"
proof -
  have l: "length S < MAX_OPTION_NUM" using assms(1) by simp
  show ?thesis
    using assms opt_table_snoc[OF l] opt_table_snoc(1)[OF l, of c "[]"] by (simp add: st_of_def argu_of_def Let_def no_option_def)
qed

lemma read_long:
  assumes "length L < MAX_MOPT_NUM" and "n \<noteq> []" and "length n < MAX_MUTI_OPT"
  shows "read_args ((''--'' @ n) # args) (st_of o1 m1 S L) = read_args args (st_of 0 1 S (L @ [(n, [])]))"
  using assms mopt_table_snoc[OF assms(1)] mopt_table_snoc(1)[OF assms(1), of n "[]"]
  by (simp add: st_of_def argu_of_def Let_def no_moption_def mo_text_def)

lemma read_value:
  assumes "t = [] \<or> hd t \<noteq> CHR ''-''" and "length t < MAX_OPT_CONTENT"
  shows "length S < MAX_OPTION_NUM \<Longrightarrow> read_args (t # args) (st_of 1 0 (S @ [(c, [])]) L) = read_args args (st_of 0 0 (S @ [(c, t)]) L)"
    and "length L < MAX_MOPT_NUM \<Longrightarrow> read_args (t # args) (st_of o1 1 S (L @ [(n, [])])) = read_args args (st_of o1 0 S (L @ [(n, t)]))"
proof -
  have t: "strlcpy_text t MAX_OPT_CONTENT = t" using assms(2) by (simp add: strlcpy_text_def)
  show "length S < MAX_OPTION_NUM \<Longrightarrow> read_args (t # args) (st_of 1 0 (S @ [(c, [])]) L) = read_args args (st_of 0 0 (S @ [(c, t)]) L)"
    using assms(1) opt_table_last[of S c "[]"] opt_table_last(1)[of S c "[]" t] t
    by (auto simp: st_of_def argu_of_def Let_def plain_arg_def)
  show "length L < MAX_MOPT_NUM \<Longrightarrow> read_args (t # args) (st_of o1 1 S (L @ [(n, [])])) = read_args args (st_of o1 0 S (L @ [(n, t)]))"
    using assms(1) mopt_table_last[of L n "[]"] mopt_table_last(1)[of L n "[]" t] t
    by (auto simp: st_of_def argu_of_def Let_def plain_arg_def)
qed

lemma read_items:
  "list_all arg_ok is \<Longrightarrow> length (S @ shorts is) < MAX_OPTION_NUM \<Longrightarrow> length (L @ longs is) \<le> MAX_MOPT_NUM \<Longrightarrow>
   \<exists>o2 m2. read_args (concat (map render is)) (st_of o1 m1 S L) = Some (0, st_of o2 m2 (S @ shorts is) (L @ longs is))"
proof (induction "is" arbitrary: o1 m1 S L)
  case Nil
  then show ?case by auto
next
  case (Cons it "is")
  show ?case
  proof (cases it)
    case (Short c v)
    then have s: "c \<noteq> CHR ''-''" "length S + 1 < MAX_OPTION_NUM" using Cons.prems by simp_all
    have "\<exists>o2 m2. read_args (render it @ rest) (st_of o1 m1 S L) = read_args rest (st_of o2 m2 (S @ [(c, val_of v)]) L)" for rest
      using read_short[OF s(2,1), of _ o1 m1 L] read_value(1)[of "val_of v" S _ c L] s(2) Cons.prems(1) Short
      by (cases v) (auto simp: val_of_def val_ok_def)
    then obtain o2 m2 where "read_args (concat (map render (it # is))) (st_of o1 m1 S L)
        = read_args (concat (map render is)) (st_of o2 m2 (S @ [(c, val_of v)]) L)" by (metis concat.simps(2) list.simps(9))
    then show ?thesis using Cons.IH[of "S @ [(c, val_of v)]" L o2 m2] Cons.prems Short by simp
  next
    case (Long n v)
    then have s: "n \<noteq> []" "length n < MAX_MUTI_OPT" "length L < MAX_MOPT_NUM" using Cons.prems by simp_all
    have "\<exists>o2 m2. read_args (render it @ rest) (st_of o1 m1 S L) = read_args rest (st_of o2 m2 S (L @ [(n, val_of v)]))" for rest
      using read_long[OF s(3,1,2), of _ o1 m1 S] read_value(2)[of "val_of v" L _ _ S n] s(3) Cons.prems(1) Long
      by (cases v) (auto simp: val_of_def val_ok_def)
    then obtain o2 m2 where "read_args (concat (map render (it # is))) (st_of o1 m1 S L)
        = read_args (concat (map render is)) (st_of o2 m2 S (L @ [(n, val_of v)]))" by (metis concat.simps(2) list.simps(9))
    then show ?thesis using Cons.IH[of S "L @ [(n, val_of v)]" o2 m2] Cons.prems Long by simp
  qed
qed

lemma init_argu_of: "argument_init True = Some (argu_of [] [])"
  by (simp add: argument_init_def argu_of_def opt_table_def mopt_table_def)

lemma read_argument_items:
  assumes "list_all arg_ok is" and "length (shorts is) < MAX_OPTION_NUM" and "length (longs is) \<le> MAX_MOPT_NUM"
  shows "read_argument False (argu_of [] []) (concat (map render is)) = Some (0, argu_of (shorts is) (longs is))"
proof -
  obtain o2 m2 where "read_args (concat (map render is)) (st_of 0 0 [] []) = Some (0, st_of o2 m2 (shorts is) (longs is))"
    using read_items[of "is" "[]" "[]" 0 0] assms by auto
  then show ?thesis by (simp add: read_argument_def st_of_def)
qed

lemma find_from_assoc:
  assumes "\<forall>e \<in> set xs. key (f e) = fst e"
  shows "case find_from (\<lambda>m. key m = k) (map f xs @ ys) (length xs) of
      None \<Rightarrow> map_of xs k = None
    | Some i \<Rightarrow> i < length xs \<and> map_of xs k = Some (snd (xs ! i))"
  using assms
proof (induction xs)
  case (Cons e xs)
  then show ?case
    by (cases e; cases "find_from (\<lambda>m. key m = k) (map f xs @ ys) (length xs)") auto
qed simp

lemma find_option:
  "case find_from (\<lambda>m. ao_option m = c) (opt_table S) (length S) of
      None \<Rightarrow> map_of S c = None
    | Some i \<Rightarrow> i < length S \<and> map_of S c = Some (ao_cont (opt_table S ! i)) \<and> \<not> ao_out (opt_table S ! i)"
  using find_from_assoc[of S ao_option "\<lambda>(c, v). \<lparr>ao_out = False, ao_option = c, ao_cont = v\<rparr>" c
      "replicate (MAX_OPTION_NUM - length S) no_option"]
  by (auto simp: opt_table_def nth_append case_prod_beta split: option.splits)

lemma find_moption:
  assumes "\<forall>e \<in> set L. length (fst e) < MAX_MUTI_OPT"
  shows "case find_from (\<lambda>m. mo_text m = n) (mopt_table L) (length L) of
      None \<Rightarrow> map_of L n = None
    | Some i \<Rightarrow> i < length L \<and> map_of L n = Some (mo_cont (mopt_table L ! i)) \<and> \<not> mo_out (mopt_table L ! i)"
proof -
  have k: "\<forall>e \<in> set L. mo_text (case e of (n, v) \<Rightarrow> \<lparr>mo_out = False, mo_name = n, mo_cont = v\<rparr>) = fst e"
    using assms by (auto simp: mo_text_def)
  show ?thesis
    using find_from_assoc[of L mo_text "\<lambda>(n, v). \<lparr>mo_out = False, mo_name = n, mo_cont = v\<rparr>" n
        "replicate (MAX_MOPT_NUM - length L) no_moption", OF k]
    by (auto simp: mopt_table_def nth_append case_prod_beta split: option.splits)
qed

lemma longs_length: "list_all arg_ok is \<Longrightarrow> \<forall>e \<in> set (longs is). length (fst e) < MAX_MUTI_OPT"
  by (induction "is" rule: longs.induct) auto

definition lookup_result :: "cstr option \<Rightarrow> char list \<Rightarrow> nat \<Rightarrow> int \<times> char list option \<times> int option" where
  \<comment> \<open>what a look-up delivers for the content of the option in a block with \<open>sz\<close> bytes of room: the return value, the
      block and \<open>*opt_size\<close>\<close>
  "lookup_result v blk sz =
     (case v of
        None \<Rightarrow> (0, Some (replicate sz NUL @ drop sz blk), Some 0)
      | Some t \<Rightarrow>
          if t = [] then (1, Some blk, Some (int sz))
          else if length t < sz then (int (length t), Some (t @ replicate (sz - length t) NUL @ drop sz blk), Some (int (length t)))
          else (0, Some (if sz = 0 then blk else take (sz - 1) t @ NUL # drop sz blk), Some (int sz)))"

lemma take_out_result:
  assumes "sz \<le> length blk"
  shows "\<exists>taken. take_out t (Some blk) (Some (int sz)) = (case lookup_result (Some t) blk sz of (r, b, z) \<Rightarrow> Some (r, taken, b, z))"
proof (cases "t = []")
  case False
  let ?b = "replicate sz NUL @ drop sz blk"
  have b: "memset0 blk (int sz) = Some ?b" "length ?b = length blk" using assms by (simp_all add: memset0_def)
  show ?thesis
  proof (cases "length t < sz")
    case True
    then have "ul_strlcpy ?b t (length t + 1) = Some (length t, t @ NUL # drop (Suc (length t)) ?b)"
      using strlcpy_spec[of "length t + 1" ?b t] assms by simp
    moreover have "NUL # drop (Suc (length t)) ?b = replicate (sz - length t) NUL @ drop sz blk"
      using True by (simp add: Cons_replicate_eq[symmetric] append_Cons[symmetric] del: append_Cons) (metis Suc_diff_Suc replicate_Suc append_Cons)
    ultimately show ?thesis using True False b by (intro exI[of _ True]) (simp add: take_out_def lookup_result_def)
  next
    case no: False
    then have "ul_strlcpy ?b t sz = Some (length t, if sz = 0 then ?b else take (sz - 1) t @ NUL # drop (Suc (min (sz - 1) (length t))) ?b)"
      using strlcpy_spec[of sz ?b t] assms by simp
    moreover have "Suc (min (sz - 1) (length t)) = sz" if "sz \<noteq> 0" using no that by auto
    ultimately show ?thesis using no False b by (auto simp: take_out_def lookup_result_def)
  qed
qed (auto simp: take_out_def lookup_result_def)

lemma not_found_result: "sz \<le> length blk \<Longrightarrow> not_found (Some blk) (Some (int sz)) = Some (lookup_result None blk sz)"
  by (simp add: not_found_def memset0_def lookup_result_def)

lemma get_one_option_result:
  assumes "sz \<le> length blk"
  shows "\<exists>a'. get_one_option (argu_of S L) c (Some blk) (Some (int sz))
    = (case lookup_result (map_of S c) blk sz of (r, b, z) \<Rightarrow> Some (r, a', b, z))"
proof (cases "find_from (\<lambda>m. ao_option m = c) (opt_table S) (length S)")
  case None
  then have "map_of S c = None" using find_option[of S c] by simp
  then show ?thesis using None not_found_result[OF assms] by (simp add: get_one_option_def argu_of_def split: prod.split)
next
  case (Some i)
  then have "map_of S c = Some (ao_cont (opt_table S ! i))" using find_option[of S c] by simp
  moreover obtain taken where "take_out (ao_cont (opt_table S ! i)) (Some blk) (Some (int sz))
      = (case lookup_result (Some (ao_cont (opt_table S ! i))) blk sz of (r, b, z) \<Rightarrow> Some (r, taken, b, z))"
    using take_out_result[OF assms] by blast
  ultimately show ?thesis using Some by (simp add: get_one_option_def argu_of_def split: prod.split)
qed

lemma get_one_complex_option_result:
  assumes "sz \<le> length blk" and "\<forall>e \<in> set L. length (fst e) < MAX_MUTI_OPT"
  shows "\<exists>a'. get_one_complex_option (argu_of S L) n (Some blk) (Some (int sz))
    = (case lookup_result (map_of L n) blk sz of (r, b, z) \<Rightarrow> Some (r, a', b, z))"
proof (cases "find_from (\<lambda>m. mo_text m = n) (mopt_table L) (length L)")
  case None
  then have "map_of L n = None" using find_moption[OF assms(2), of n] by simp
  then show ?thesis using None not_found_result[OF assms(1)] by (simp add: get_one_complex_option_def argu_of_def split: prod.split)
next
  case (Some i)
  then have "map_of L n = Some (mo_cont (mopt_table L ! i))" using find_moption[OF assms(2), of n] by simp
  moreover obtain taken where "take_out (mo_cont (mopt_table L ! i)) (Some blk) (Some (int sz))
      = (case lookup_result (Some (mo_cont (mopt_table L ! i))) blk sz of (r, b, z) \<Rightarrow> Some (r, taken, b, z))"
    using take_out_result[OF assms(1)] by blast
  ultimately show ?thesis using Some by (simp add: get_one_complex_option_def argu_of_def split: prod.split)
qed

section \<open>Properties\<close>



section \<open>Where the code does not do what its comments say\<close>

definition rd_inv :: "rd_state \<Rightarrow> bool" where
  "rd_inv st \<longleftrightarrow> (l_option st \<noteq> 0 \<longrightarrow> 0 < l_opt_num st)"

lemma opt_chars_keeps:
  "opt_chars s st = Some (ok, st') \<Longrightarrow> rd_inv st \<Longrightarrow>
   rd_inv st' \<and> arg_num (argu st') = arg_num (argu st) \<and> base_tab (argu st') = base_tab (argu st)"
proof (induction s arbitrary: st)
  case (Cons ch s)
  show ?case
  proof (cases "ch = CHR ''-''")
    case True
    then show ?thesis using Cons.prems by (auto simp: rd_inv_def Let_def split: if_splits)
  next
    case False
    then show ?thesis using Cons.prems Cons.IH by (auto simp: rd_inv_def Let_def split: if_splits)
  qed
qed simp

lemma plain_arg_keeps:
  "plain_arg arg st = Some (ok, st') \<Longrightarrow> rd_inv st \<Longrightarrow>
   rd_inv st' \<and> arg_num (argu st') = arg_num (argu st) \<and> base_tab (argu st') = base_tab (argu st)"
  by (auto simp: plain_arg_def rd_inv_def Let_def split: if_splits)

lemma read_args_keeps:
  "read_args args st = Some (r, st') \<Longrightarrow> rd_inv st \<Longrightarrow> arg_num (argu st') = arg_num (argu st) \<and> base_tab (argu st') = base_tab (argu st)"
proof (induction args arbitrary: st)
  case (Cons arg args)
  let ?s = "st\<lparr>l_moption := 0, l_option := 0\<rparr>"
  from Cons.prems(1) obtain ok st1 where s: "(if arg \<noteq> [] \<and> hd arg = CHR ''-'' then opt_chars (tl arg) ?s else plain_arg arg st) = Some (ok, st1)"
    "if ok then read_args args st1 = Some (r, st') else st1 = st'"
    by (auto split: option.splits if_splits)
  have "rd_inv ?s" by (simp add: rd_inv_def)
  then have "rd_inv st1 \<and> arg_num (argu st1) = arg_num (argu st) \<and> base_tab (argu st1) = base_tab (argu st)"
    using s(1) Cons.prems(2) opt_chars_keeps[of "tl arg" ?s ok st1] plain_arg_keeps[of arg st ok st1] by (auto split: if_splits)
  then show ?case using s(2) Cons.IH[of st1] by (auto split: if_splits)
qed simp

text \<open>The branch for basic arguments is never taken, because it asks for an option in front of the argument and for no option at
  all: whatever the command line, no basic argument is stored.\<close>

lemma basic_arguments_ignored:
  assumes "read_argument chk a args = Some (r, a')"
  shows "arg_num a' = arg_num a \<and> base_tab a' = base_tab a"
proof -
  let ?st = "\<lparr>argu = a, l_option = 0, l_moption = 0, l_opt_num = 0, l_arg_num = 0, l_mopt_num = 0\<rparr>"
  obtain r' st where "read_args args ?st = Some (r', st)" "a' = argu st"
    using assms by (auto simp: read_argument_def split: option.splits if_splits)
  then show ?thesis using read_args_keeps[of args ?st] by (simp add: rd_inv_def)
qed

text \<open>The number of options with a name is not checked: the eleventh is written behind the array. Two hyphens alone take a place in
  the array that the counter does not count, so that the name behind them is not found.\<close>

lemma eleven_names_overrun: "read_argument False (argu_of [] []) (replicate 11 ''--x'') = None"
  by code_simp

lemma two_hyphens_hide_names:
  "map_option (\<lambda>(r, a). (r, map_option fst (get_one_complex_option a ''name'' (Some (replicate 10 NUL)) (Some 10))))
     (read_argument False (argu_of [] []) [''--'', ''--name'', ''x'']) = Some (0, Some 0)"
  by code_simp

end
