(* ===== verification/Url_Domain_Tables.thy ===== *)
theory Url_Domain_Tables
  imports Ul_Prelude
begin

text \<open>
  The default dictionary of domain suffixes: the arrays \<open>top_domain\<close>, \<open>top_country\<close> and \<open>general_2nd_domain\<close> of
  \<^verbatim>\<open>ullib/src/ul_url2.cpp\<close>, and the arrays of second-level suffixes of \<^verbatim>\<open>ullib/src/ul_url2_inl.cc\<close> with the table
  \<open>domain_map\<close> that lists them by their top-level suffix. As in the sources every suffix is written from its end to its start.
  The null pointer that ends an array is the end of the list.
\<close>

section \<open>Suffixes of one label\<close>

definition top_domain :: "cstr list" where
  "top_domain =
   [''orea.'', ''aisa.'', ''zib.'', ''tac.'', ''moc.'', ''pooc.'', ''ude.'', ''vog.'', ''ofni.'', ''tni.'', ''sboj.'',
    ''lim.'', ''ibom.'', ''muesum.'', ''eman.'', ''ten.'', ''gro.'', ''orp.'', ''let.'', ''levart.'', ''xxx.'']"

definition top_country :: "cstr list" where
  "top_country =
   [''ca.'', ''da.'', ''ea.'', ''fa.'', ''ga.'', ''ia.'', ''la.'', ''ma.'', ''na.'', ''oa.'', ''qa.'', ''ra.'', ''sa.'',
    ''ta.'', ''ua.'', ''wa.'', ''xa.'', ''za.'', ''ab.'', ''bb.'', ''db.'', ''eb.'', ''fb.'', ''gb.'', ''hb.'', ''ib.'',
    ''jb.'', ''mb.'', ''nb.'', ''ob.'', ''rb.'', ''sb.'', ''tb.'', ''vb.'', ''wb.'', ''yb.'', ''zb.'', ''ac.'', ''cc.'',
    ''dc.'', ''fc.'', ''gc.'', ''hc.'', ''ic.'', ''kc.'', ''lc.'', ''mc.'', ''nc.'', ''oc.'', ''rc.'', ''uc.'', ''vc.'',
    ''xc.'', ''yc.'', ''zc.'', ''ed.'', ''jd.'', ''kd.'', ''md.'', ''od.'', ''zd.'', ''ce.'', ''ee.'', ''ge.'', ''he.'',
    ''re.'', ''se.'', ''te.'', ''ue.'', ''if.'', ''jf.'', ''kf.'', ''mf.'', ''of.'', ''rf.'', ''ag.'', ''bg.'', ''dg.'',
    ''eg.'', ''fg.'', ''gg.'', ''hg.'', ''ig.'', ''lg.'', ''mg.'', ''ng.'', ''pg.'', ''qg.'', ''rg.'', ''sg.'', ''tg.'',
    ''ug.'', ''wg.'', ''yg.'', ''kh.'', ''mh.'', ''nh.'', ''rh.'', ''th.'', ''uh.'', ''di.'', ''ei.'', ''li.'', ''mi.'',
    ''ni.'', ''oi.'', ''qi.'', ''ri.'', ''si.'', ''ti.'', ''ej.'', ''mj.'', ''oj.'', ''pj.'', ''ek.'', ''gk.'', ''hk.'',
    ''ik.'', ''mk.'', ''nk.'', ''pk.'', ''rk.'', ''wk.'', ''yk.'', ''zk.'', ''al.'', ''bl.'', ''cl.'', ''il.'', ''kl.'',
    ''rl.'', ''sl.'', ''tl.'', ''ul.'', ''vl.'', ''yl.'', ''am.'', ''cm.'', ''dm.'', ''em.'', ''gm.'', ''hm.'', ''km.'',
    ''lm.'', ''mm.'', ''nm.'', ''om.'', ''pm.'', ''qm.'', ''rm.'', ''sm.'', ''tm.'', ''um.'', ''vm.'', ''wm.'', ''xm.'',
    ''ym.'', ''zm.'', ''an.'', ''cn.'', ''en.'', ''fn.'', ''gn.'', ''in.'', ''ln.'', ''on.'', ''pn.'', ''rn.'', ''un.'',
    ''zn.'', ''mo.'', ''ap.'', ''ep.'', ''fp.'', ''gp.'', ''hp.'', ''kp.'', ''lp.'', ''mp.'', ''np.'', ''rp.'', ''sp.'',
    ''tp.'', ''wp.'', ''yp.'', ''aq.'', ''er.'', ''or.'', ''sr.'', ''ur.'', ''wr.'', ''as.'', ''bs.'', ''cs.'', ''ds.'',
    ''es.'', ''gs.'', ''hs.'', ''is.'', ''js.'', ''ks.'', ''ls.'', ''ms.'', ''ns.'', ''os.'', ''rs.'', ''ts.'', ''us.'',
    ''vs.'', ''ys.'', ''zs.'', ''ct.'', ''dt.'', ''ft.'', ''gt.'', ''ht.'', ''jt.'', ''kt.'', ''lt.'', ''mt.'', ''nt.'',
    ''ot.'', ''pt.'', ''rt.'', ''tt.'', ''vt.'', ''wt.'', ''zt.'', ''au.'', ''gu.'', ''ku.'', ''mu.'', ''su.'', ''yu.'',
    ''zu.'', ''av.'', ''cv.'', ''ev.'', ''gv.'', ''iv.'', ''nv.'', ''uv.'', ''fw.'', ''sw.'', ''ey.'', ''ty.'', ''uy.'',
    ''ry.'', ''az.'', ''mz.'', ''wz.'']"

definition general_2nd_domain :: "cstr list" where
  "general_2nd_domain =
   [''moc.'', ''ten.'', ''gro.'', ''vog.'', ''ude.'', ''oc.'']"

section \<open>Suffixes of two labels, by their last label\<close>

definition gt_domain :: "cstr list" where
  "gt_domain =
   [''tg.bog.'', ''tg.dni.'']"

definition gp_domain :: "cstr list" where
  "gp_domain =
   [''pg.ossa.'']"

definition gg_domain :: "cstr list" where
  "gg_domain =
   [''gg.ca.'', ''gg.yenredla.'', ''gg.oc.'', ''gg.yesnreug.'', ''gg.dni.'', ''gg.dtl.'', ''gg.kras.'', ''gg.hcs.'']"

definition ge_domain :: "cstr list" where
  "ge_domain =
   [''eg.tvp.'']"

definition gn_domain :: "cstr list" where
  "gn_domain =
   [''ng.ca.'']"

definition gi_domain :: "cstr list" where
  "gi_domain =
   [''ig.dtl.'', ''ig.dom.'']"

definition tz_domain :: "cstr list" where
  "tz_domain =
   [''zt.ca.'', ''zt.oc.'', ''zt.og.'', ''zt.en.'', ''zt.ro.'']"

definition tn_domain :: "cstr list" where
  "tn_domain =
   [''nt.tenude.'', ''nt.sne.'', ''nt.nif.'', ''nt.dni.'', ''nt.ltni.'', ''nt.tan.'', ''nt.trnr.'', ''nt.snr.'',
    ''nt.unr.'', ''nt.msiruot.'']"

definition tv_domain :: "cstr list" where
  "tv_domain =
   [''vt.oc.'']"

definition tw_domain :: "cstr list" where
  "tw_domain =
   [''wt.bulc.'', ''wt.zibe.'', ''wt.emag.'', ''wt.vdi.'']"

definition tt_domain :: "cstr list" where
  "tt_domain =
   [''tt.ta.'', ''tt.ua.'', ''tt.eb.'', ''tt.ac.'', ''tt.oc.'', ''tt.ed.'', ''tt.kd.'', ''tt.se.'', ''tt.ue.'', ''tt.rf.'',
    ''tt.ti.'', ''tt.cin.'', ''tt.es.'', ''tt.ku.'', ''tt.su.'']"

definition arpa_domain :: "cstr list" where
  "arpa_domain =
   [''apra.461e.'', ''apra.rdda-ni.'', ''apra.6pi.'', ''apra.siri.'', ''apra.iru.'', ''apra.nru.'']"

definition lk_domain :: "cstr list" where
  "lk_domain =
   [''kl.nssa.'', ''kl.prg.'', ''kl.letoh.'', ''kl.dtl.'', ''kl.ogn.'', ''kl.hcs.'', ''kl.cos.'', ''kl.bew.'']"

definition lv_domain :: "cstr list" where
  "lv_domain =
   [''vl.nsa.'', ''vl.fnoc.'', ''vl.di.'']"

definition tj_domain :: "cstr list" where
  "tj_domain =
   [''jt.ca.'', ''jt.oc.'', ''jt.og.'', ''jt.bew.'']"

definition ls_domain :: "cstr list" where
  "ls_domain =
   [''sl.oc.'']"

definition th_domain :: "cstr list" where
  "th_domain =
   [''ht.ca.'', ''ht.oc.'', ''ht.og.'', ''ht.ni.'', ''ht.im.'', ''ht.ro.'']"

definition tf_domain :: "cstr list" where
  "tf_domain =
   [''ft.ta.'', ''ft.gb.'', ''ft.ac.'', ''ft.hc.'', ''ft.zc.'', ''ft.ed.'', ''ft.ue.'', ''ft.lp.'', ''ft.ur.'', ''ft.gs.'',
    ''ft.su.'']"

definition ly_domain :: "cstr list" where
  "ly_domain =
   [''yl.di.'', ''yl.dem.'', ''yl.clp.'', ''yl.hcs.'']"

definition do_domain :: "cstr list" where
  "do_domain =
   [''od.tra.'', ''od.bog.'', ''od.dls.'', ''od.bew.'']"

definition dk_domain :: "cstr list" where
  "dk_domain =
   [''kd.oc.'']"

definition dz_domain :: "cstr list" where
  "dz_domain =
   [''zd.tra.'', ''zd.ossa.'', ''zd.lop.'']"

definition uy_domain :: "cstr list" where
  "uy_domain =
   [''yu.bug.'']"

definition vu_domain :: "cstr list" where
  "vu_domain =
   [''uv.hc.'', ''uv.ed.'', ''uv.rf.'']"

definition zm_domain :: "cstr list" where
  "zm_domain =
   [''mz.ca.'', ''mz.oc.'', ''mz.hcs.'']"

definition ee_domain :: "cstr list" where
  "ee_domain =
   [''ee.oc.'', ''ee.eif.'', ''ee.dem.'', ''ee.irp.'']"

definition eg_domain :: "cstr list" where
  "eg_domain =
   [''ge.nue.'', ''ge.ics.'']"

definition za_domain :: "cstr list" where
  "za_domain =
   [''az.ca.'', ''az.tla.'', ''az.esruob.'', ''az.ytic.'', ''az.oc.'', ''az.wal.'', ''az.ogn.'', ''az.mon.'',
    ''az.loohcs.'', ''az.mt.'', ''az.bew.'']"

definition ec_domain :: "cstr list" where
  "ec_domain =
   [''ce.nif.'', ''ce.21k.'', ''ce.dem.'']"

definition zw_domain :: "cstr list" where
  "zw_domain =
   [''wz.ca.'', ''wz.oc.'']"

definition es_domain :: "cstr list" where
  "es_domain =
   [''se.bog.'', ''se.mon.'']"

definition er_domain :: "cstr list" where
  "er_domain =
   [''re.dni.'']"

definition ru_domain :: "cstr list" where
  "ru_domain =
   [''ur.ca.'', ''ur.ayegyda.'', ''ur.iatla.'', ''ur.ruma.'', ''ur.ksruma.'', ''ur.kslegnahkra.'', ''ur.nahkartsa.'',
    ''ur.lakiab.'', ''ur.airikhsab.'', ''ur.dorogleb.'', ''ur.rib.'', ''ur.ksnayrb.'', ''ur.aitayrub.'', ''ur.gbc.'',
    ''ur.lehc.'', ''ur.ksnibaylehc.'', ''ur.atihc.'', ''ur.aktokuhc.'', ''ur.aihsavuhc.'', ''ur.wmc.'', ''ur.natsegad.'',
    ''ur.aknidud.'', ''ur.grub-e.'', ''ur.tsaeraf.'', ''ur.ynzorg.'', ''ur.kstukri.'', ''ur.ovonavi.'', ''ur.ksvehzi.'',
    ''ur.lamaj.'', ''ur.raj.'', ''ur.alo-rakhsoj.'', ''ur.kslaru-k.'', ''ur.aikymlak.'', ''ur.agulak.'', ''ur.aktahcmak.'',
    ''ur.ailerak.'', ''ur.nazak.'', ''ur.rhck.'', ''ur.ovoremek.'', ''ur.ksvorabahk.'', ''ur.aissakahk.'', ''ur.vhk.'',
    ''ur.vorik.'', ''ur.smk.'', ''ur.gineok.'', ''ur.imok.'', ''ur.amortsok.'', ''ur.ksrayonsark.'', ''ur.nabuk.'',
    ''ur.nagruk.'', ''ur.ksruk.'', ''ur.ianatsuk.'', ''ur.ssabzuk.'', ''ur.kstepil.'', ''ur.nadagam.'', ''ur.aktingam.'',
    ''ur.le-iram.'', ''ur.iram.'', ''ur.eniram.'', ''ur.aivodrom.'', ''ur.gersom.'', ''ur.ksm.'', ''ur.ksnamrum.'',
    ''ur.sitym.'', ''ur.akdohkan.'', ''ur.kihclan.'', ''ur.zkn.'', ''ur.vonn.'', ''ur.ksliron.'', ''ur.von.'',
    ''ur.ksribisovon.'', ''ur.ksn.'', ''ur.ksmo.'', ''ur.grubnero.'', ''ur.loyro.'', ''ur.lokso.'', ''ur.analap.'',
    ''ur.aznep.'', ''ur.mrep.'', ''ur.pp.'', ''ur.voksp.'', ''ur.ztp.'', ''ur.ksrogitayp.'', ''ur.dnr.'', ''ur.ksvostbur.'',
    ''ur.nazayr.'', ''ur.nilahkas.'', ''ur.aramas.'', ''ur.votaras.'', ''ur.ksribmis.'', ''ur.ksneloms.'', ''ur.zns.'',
    ''ur.bps.'', ''ur.loporvats.'', ''ur.vts.'', ''ur.tugrus.'', ''ur.narzys.'', ''ur.vobmat.'', ''ur.natsratat.'',
    ''ur.tset.'', ''ur.mot.'', ''ur.ksmot.'', ''ur.nystirast.'', ''ur.kst.'', ''ur.alut.'', ''ur.avut.'', ''ur.revt.'',
    ''ur.nemuyt.'', ''ur.mdu.'', ''ur.aitrumdu.'', ''ur.edu-nalu.'', ''ur.ksnodv.'', ''ur.zakvakidalv.'', ''ur.rimidalv.'',
    ''ur.kotsovidalv.'', ''ur.dargoglov.'', ''ur.adgolov.'', ''ur.hzenorov.'', ''ur.nrv.'', ''ur.aktayv.'', ''ur.aitukay.'',
    ''ur.lamay.'', ''ur.lvalsoray.'', ''ur.grubniretakey.'', ''ur.ksnilahkas-onhzuy.'', ''ur.dargz.'']"

definition rw_domain :: "cstr list" where
  "rw_domain =
   [''wr.ca.'', ''wr.oc.'', ''wr.vuog.'']"

definition rs_domain :: "cstr list" where
  "rs_domain =
   [''sr.ca.'', ''sr.oc.'', ''sr.ni.'']"

definition re_domain :: "cstr list" where
  "re_domain =
   [''er.ossa.'', ''er.mon.'']"

definition net_domain :: "cstr list" where
  "net_domain =
   [''ten.ed.'', ''ten.bg.'', ''ten.ku.'']"

definition ro_domain :: "cstr list" where
  "ro_domain =
   [''or.stra.'', ''or.mrif.'', ''or.mon.'', ''or.tn.'', ''or.cer.'', ''or.erots.'', ''or.mt.'', ''or.www.'']"

definition bd_domain :: "cstr list" where
  "bd_domain =
   [''db.ca.'']"

definition be_domain :: "cstr list" where
  "be_domain =
   [''eb.ca.'', ''eb.eigleb.'', ''eb.snd.'', ''eb.vogf.'']"

definition ba_domain :: "cstr list" where
  "ba_domain =
   [''ab.oc.'', ''ab.sr.'', ''ab.ibnu.'', ''ab.asnu.'']"

definition bh_domain :: "cstr list" where
  "bh_domain =
   [''hb.cc.'']"

definition bo_domain :: "cstr list" where
  "bo_domain =
   [''ob.bog.'', ''ob.vt.'']"

definition jp_domain :: "cstr list" where
  "jp_domain =
   [''pj.ca.'', ''pj.da.'', ''pj.ihcia.'', ''pj.atika.'', ''pj.iromoa.'', ''pj.abihc.'', ''pj.oc.'', ''pj.de.'',
    ''pj.emihe.'', ''pj.iukuf.'', ''pj.akoukuf.'', ''pj.amihsukuf.'', ''pj.ufig.'', ''pj.og.'', ''pj.rg.'', ''pj.amnug.'',
    ''pj.amihsorih.'', ''pj.odiakkoh.'', ''pj.ogoyh.'', ''pj.ikarabi.'', ''pj.awakihsi.'', ''pj.etawi.'', ''pj.awagak.'',
    ''pj.amihsogak.'', ''pj.awaganak.'', ''pj.awazanak.'', ''pj.ikasawak.'', ''pj.uhsuykatik.'', ''pj.ebok.'',
    ''pj.ihcok.'', ''pj.otomamuk.'', ''pj.otoyk.'', ''pj.gl.'', ''pj.amayustam.'', ''pj.eim.'', ''pj.igayim.'',
    ''pj.ikazayim.'', ''pj.onagan.'', ''pj.ikasagan.'', ''pj.ayogan.'', ''pj.aran.'', ''pj.en.'', ''pj.atagiin.'',
    ''pj.atio.'', ''pj.amayako.'', ''pj.awaniko.'', ''pj.ro.'', ''pj.akaso.'', ''pj.agas.'', ''pj.amatias.'',
    ''pj.oroppas.'', ''pj.iadnes.'', ''pj.agihs.'', ''pj.enamihs.'', ''pj.akouzihs.'', ''pj.ustamakat.'', ''pj.igihcot.'',
    ''pj.amihsukot.'', ''pj.oykot.'', ''pj.irottot.'', ''pj.amayot.'', ''pj.ayimonustu.'', ''pj.amayakaw.'',
    ''pj.atagamay.'', ''pj.ihcugamay.'', ''pj.ihsanamay.'', ''pj.amahokoy.'']"

definition bw_domain :: "cstr list" where
  "bw_domain =
   [''wb.oc.'']"

definition br_domain :: "cstr list" where
  "br_domain =
   [''rb.mda.'', ''rb.vda.'', ''rb.rga.'', ''rb.ma.'', ''rb.qra.'', ''rb.tra.'', ''rb.ota.'', ''rb.oib.'', ''rb.dmb.'',
    ''rb.mic.'', ''rb.gnc.'', ''rb.tnc.'', ''rb.npd.'', ''rb.nce.'', ''rb.gne.'', ''rb.pse.'', ''rb.cte.'', ''rb.ite.'',
    ''rb.raf.'', ''rb.mf.'', ''rb.dnf.'', ''rb.tof.'', ''rb.tsf.'', ''rb.21g.'', ''rb.fgg.'', ''rb.bmi.'', ''rb.dni.'',
    ''rb.fni.'', ''rb.roj.'', ''rb.lel.'', ''rb.tam.'', ''rb.dem.'', ''rb.sum.'', ''rb.mon.'', ''rb.ton.'', ''rb.rtn.'',
    ''rb.odo.'', ''rb.gpp.'', ''rb.csp.'', ''rb.isp.'', ''rb.lsq.'', ''rb.cer.'', ''rb.gls.'', ''rb.vrs.'', ''rb.pmt.'',
    ''rb.drt.'', ''rb.rut.'', ''rb.vt.'', ''rb.tev.'', ''rb.glz.'']"

definition org_domain :: "cstr list" where
  "org_domain =
   [''gro.kd.'', ''gro.ue.'']"

definition om_domain :: "cstr list" where
  "om_domain =
   [''mo.ca.'', ''mo.oc.'', ''mo.dem.'', ''mo.dom.'', ''mo.hcs.'']"

definition ck_domain :: "cstr list" where
  "ck_domain =
   [''kc.oc.'']"

definition co_domain :: "cstr list" where
  "co_domain =
   [''oc.stra.'', ''oc.mrif.'', ''oc.mon.'', ''oc.cer.'', ''oc.erots.'', ''oc.bew.'', ''mi.oc.dkl.'', ''mi.oc.dtl.'',
    ''mi.oc.clp.'']"

definition cn_domain :: "cstr list" where
  "cn_domain =
   [''nc.ca.'', ''nc.ha.'', ''nc.jb.'', ''nc.qc.'', ''nc.jf.'', ''nc.dg.'', ''nc.sg.'', ''nc.xg.'', ''nc.zg.'', ''nc.ah.'',
    ''nc.bh.'', ''nc.eh.'', ''nc.ih.'', ''nc.kh.'', ''nc.lh.'', ''nc.nh.'', ''nc.lj.'', ''nc.sj.'', ''nc.xj.'', ''nc.nl.'',
    ''nc.om.'', ''nc.mn.'', ''nc.xn.'', ''nc.hq.'', ''nc.cs.'', ''nc.ds.'', ''nc.hs.'', ''nc.ns.'', ''nc.xs.'', ''nc.jt.'',
    ''nc.wt.'', ''nc.jx.'', ''nc.zx.'', ''nc.ny.'', ''nc.jz.'']"

definition tr_domain :: "cstr list" where
  "tr_domain =
   [''rt.va.'', ''rt.sbb.'', ''rt.leb.'', ''rt.rd.'', ''rt.neg.'', ''rt.21k.'', ''rt.lop.'', ''rt.bew.'']"

definition ca_domain :: "cstr list" where
  "ca_domain =
   [''ac.ba.'', ''ac.cb.'', ''ac.cg.'', ''ac.bm.'', ''ac.bn.'', ''ac.fn.'', ''ac.ln.'', ''ac.sn.'', ''ac.tn.'', ''ac.un.'',
    ''ac.no.'', ''ac.ep.'', ''ac.cq.'', ''ac.ks.'', ''ac.ky.'']"

definition cy_domain :: "cstr list" where
  "cy_domain =
   [''yc.ca.'', ''yc.segolke.'', ''yc.dtl.'', ''yc.tnemailrap.'', ''yc.sserp.'', ''yc.mt.'']"

definition je_domain :: "cstr list" where
  "je_domain =
   [''ej.ca.'', ''ej.oc.'', ''ej.dni.'', ''ej.yesrej.'', ''ej.dtl.'', ''ej.hcs.'']"

definition cr_domain :: "cstr list" where
  "cr_domain =
   [''rc.ca.'', ''rc.oc.'', ''rc.de.'', ''rc.if.'', ''rc.og.'', ''rc.ro.'', ''rc.as.'']"

definition cu_domain :: "cstr list" where
  "cu_domain =
   [''uc.fni.'']"

definition ve_domain :: "cstr list" where
  "ve_domain =
   [''ev.stra.'', ''ev.bib.'', ''ev.oc.'', ''ev.mrif.'', ''ev.mon.'', ''ev.cer.'', ''ev.erots.'', ''ev.cet.'', ''ev.bew.'']"

definition pr_domain :: "cstr list" where
  "pr_domain =
   [''rp.alsi.'']"

definition ps_domain :: "cstr list" where
  "ps_domain =
   [''sp.olp.'', ''sp.ces.'']"

definition pt_domain :: "cstr list" where
  "pt_domain =
   [''tp.emon.'', ''tp.lbup.'']"

definition pa_domain :: "cstr list" where
  "pa_domain =
   [''ap.oba.'', ''ap.ca.'', ''ap.bog.'', ''ap.gni.'', ''ap.dem.'', ''ap.mon.'', ''ap.dls.'']"

definition pg_domain :: "cstr list" where
  "pg_domain =
   [''gp.ca.'']"

definition pe_domain :: "cstr list" where
  "pe_domain =
   [''ep.bog.'', ''ep.mon.'']"

definition pk_domain :: "cstr list" where
  "pk_domain =
   [''kp.maf.'', ''kp.bog.'', ''kp.kog.'', ''kp.nog.'', ''kp.pog.'', ''kp.sog.'', ''kp.bew.'']"

definition ph_domain :: "cstr list" where
  "ph_domain =
   [''hp.ogn.'']"

definition pl_domain :: "cstr list" where
  "pl_domain =
   [''lp.orga.'', ''lp.dia.'', ''lp.tra.'', ''lp.mta.'', ''lp.otua.'', ''lp.kotsylaib.'', ''lp.adg.'', ''lp.ksnadg.'',
    ''lp.animg.'', ''lp.msg.'', ''lp.eciwotak.'', ''lp.wokark.'', ''lp.zdol.'', ''lp.nilbul.'', ''lp.liam.'', ''lp.aidem.'',
    ''lp.atsaim.'', ''lp.ogn.'', ''lp.icsomohcurein.'', ''lp.mon.'', ''lp.nytzslo.'', ''lp.elopo.'', ''lp.cp.'',
    ''lp.taiwop.'', ''lp.nanzop.'', ''lp.virp.'', ''lp.etatselaer.'', ''lp.ler.'', ''lp.xes.'', ''lp.pohs.'', ''lp.pelks.'',
    ''lp.kspuls.'', ''lp.sos.'', ''lp.nicezczs.'', ''lp.alokzs.'', ''lp.igrat.'', ''lp.mt.'', ''lp.nurot.'',
    ''lp.msiruot.'', ''lp.akytsyrut.'', ''lp.awazsraw.'', ''lp.waw.'', ''lp.corw.'', ''lp.walcorw.'', ''lp.az.'',
    ''lp.arogz.'']"

definition hr_domain :: "cstr list" where
  "hr_domain =
   [''rh.morf.'', ''rh.zi.'']"

definition ht_domain :: "cstr list" where
  "ht_domain =
   [''th.tluda.'', ''th.tra.'', ''th.ossa.'', ''th.mrif.'', ''th.vuog.'', ''th.dem.'', ''th.osrep.'', ''th.lop.'',
    ''th.ler.'', ''th.pohs.'']"

definition hu_domain :: "cstr list" where
  "hu_domain =
   [''uh.0002.'', ''uh.ca.'', ''uh.rarga.'', ''uh.tlob.'', ''uh.onisac.'', ''uh.ytic.'', ''uh.oc.'', ''uh.acitore.'',
    ''uh.akitore.'', ''uh.mlif.'', ''uh.murof.'', ''uh.semag.'', ''uh.letoh.'', ''uh.naltagni.'', ''uh.zsagoj.'',
    ''uh.olevynok.'', ''uh.sakal.'', ''uh.aidem.'', ''uh.swen.'', ''uh.virp.'', ''uh.malker.'', ''uh.xes.'', ''uh.pohs.'',
    ''uh.trops.'', ''uh.ilus.'', ''uh.xezs.'', ''uh.mt.'', ''uh.edszot.'', ''uh.sazatu.'', ''uh.oediv.'']"

definition hk_domain :: "cstr list" where
  "hk_domain =
   [''kh.vdi.'']"

definition hn_domain :: "cstr list" where
  "hn_domain =
   [''nh.bog.'']"

definition vn_domain :: "cstr list" where
  "vn_domain =
   [''nv.ca.'', ''nv.htlaeh.'']"

definition me_domain :: "cstr list" where
  "me_domain =
   [''em.ca.'', ''em.oc.'', ''em.sti.'', ''em.virp.'']"

definition mg_domain :: "cstr list" where
  "mg_domain =
   [''gm.mon.'', ''gm.drp.'', ''gm.mt.'']"

definition ma_domain :: "cstr list" where
  "ma_domain =
   [''am.ca.'', ''am.oc.'', ''am.sserp.'']"

definition mc_domain :: "cstr list" where
  "mc_domain =
   [''cm.ossa.'', ''cm.mt.'']"

definition us_domain :: "cstr list" where
  "us_domain =
   [''su.ka.'', ''su.la.'', ''su.ra.'', ''su.za.'', ''su.ac.'', ''su.oc.'', ''su.tc.'', ''su.cd.'', ''su.ed.'', ''su.ind.'',
    ''su.def.'', ''su.lf.'', ''su.ag.'', ''su.ih.'', ''su.ai.'', ''su.di.'', ''su.li.'', ''su.ni.'', ''su.asi.'',
    ''su.sdik.'', ''su.sk.'', ''su.yk.'', ''su.al.'', ''su.am.'', ''su.dm.'', ''su.em.'', ''su.im.'', ''su.nm.'',
    ''su.om.'', ''su.sm.'', ''su.tm.'', ''su.cn.'', ''su.dn.'', ''su.en.'', ''su.hn.'', ''su.jn.'', ''su.mn.'', ''su.nsn.'',
    ''su.vn.'', ''su.yn.'', ''su.ho.'', ''su.ko.'', ''su.ro.'', ''su.ap.'', ''su.ir.'', ''su.cs.'', ''su.ds.'', ''su.nt.'',
    ''su.xt.'', ''su.tu.'', ''su.av.'', ''su.tv.'', ''su.aw.'', ''su.iw.'', ''su.vw.'', ''su.yw.'']"

definition mu_domain :: "cstr list" where
  "mu_domain =
   [''um.oc.'']"

definition mt_domain :: "cstr list" where
  "mt_domain =
   [''tm.mt.'', ''tm.uu.'']"

definition mw_domain :: "cstr list" where
  "mw_domain =
   [''wm.ca.'', ''wm.oc.'']"

definition uk_domain :: "cstr list" where
  "uk_domain =
   [''ku.ca.'', ''ku.lb.'', ''ku.yrarbil-hsitirb.'', ''ku.oc.'', ''ku.tenci.'', ''ku.tej.'', ''ku.dtl.'', ''ku.em.'',
    ''ku.dom.'', ''ku.dnaltocs-yrarbil-lanoitan.'', ''ku.shn.'', ''ku.cin.'', ''ku.sln.'', ''ku.tnemailrap.'', ''ku.clp.'',
    ''ku.ecilop.'', ''ku.hcs.'']"

definition im_domain :: "cstr list" where
  "im_domain =
   [''mi.ca.'', ''mi.oc.'', ''mi.cin.'']"

definition ug_domain :: "cstr list" where
  "ug_domain =
   [''gu.ca.'', ''gu.oc.'', ''gu.og.'', ''gu.en.'', ''gu.ro.'', ''gu.cs.'']"

definition ua_domain :: "cstr list" where
  "ua_domain =
   [''au.yssakrehc.'', ''au.voginrehc.'', ''au.ystvonrehc.'', ''au.kc.'', ''au.nc.'', ''au.oc.'', ''au.aemirc.'',
    ''au.vc.'', ''au.nd.'', ''au.ksvorteporpend.'', ''au.kstenod.'', ''au.pd.'', ''au.fi.'', ''au.ni.'',
    ''au.ksviknarf-onavi.'', ''au.hk.'', ''au.vokrahk.'', ''au.nosrehk.'', ''au.yikstinlemhk.'', ''au.veik.'',
    ''au.dargovorik.'', ''au.mk.'', ''au.rk.'', ''au.sk.'', ''au.vk.'', ''au.gl.'', ''au.ksnagul.'', ''au.kstul.'',
    ''au.vivl.'', ''au.km.'', ''au.vealokin.'', ''au.do.'', ''au.assedo.'', ''au.lp.'', ''au.avatlop.'', ''au.onvor.'',
    ''au.vr.'', ''au.lopotsabes.'', ''au.ymus.'', ''au.et.'', ''au.liponret.'', ''au.doroghzu.'', ''au.acinniv.'',
    ''au.nv.'', ''au.ehzhziropaz.'', ''au.rimotihz.'', ''au.pz.'', ''au.tz.'']"

definition mx_domain :: "cstr list" where
  "mx_domain =
   [''xm.bog.'']"

definition il_domain :: "cstr list" where
  "il_domain =
   [''li.ca.'', ''li.oc.'', ''li.fdi.'', ''li.21k.'', ''li.inum.'']"

definition va_domain :: "cstr list" where
  "va_domain =
   [''av.nacitav.'']"

definition ae_domain :: "cstr list" where
  "ae_domain =
   [''ea.ca.'', ''ea.oc.'', ''ea.hcs.'']"

definition ad_domain :: "cstr list" where
  "ad_domain =
   [''da.mon.'']"

definition ag_domain :: "cstr list" where
  "ag_domain =
   [''ga.oc.'', ''ga.mon.'']"

definition ai_domain :: "cstr list" where
  "ai_domain =
   [''ia.ffo.'']"

definition vi_domain :: "cstr list" where
  "vi_domain =
   [''iv.oc.'']"

definition pro_domain :: "cstr list" where
  "pro_domain =
   [''orp.apc.'', ''orp.wal.'', ''orp.dem.'']"

definition ir_domain :: "cstr list" where
  "ir_domain =
   [''ri.ca.'', ''ri.oc.'', ''ri.di.'', ''ri.hcs.'']"

definition ao_domain :: "cstr list" where
  "ao_domain =
   [''oa.oc.'', ''oa.de.'', ''oa.vg.'', ''oa.ti.'', ''oa.go.'', ''oa.bp.'']"

definition au_domain :: "cstr list" where
  "au_domain =
   [''ua.tca.'', ''ua.nsa.'', ''ua.fnoc.'', ''ua.orisc.'', ''ua.di.'', ''ua.wsn.'', ''ua.tn.'', ''ua.cto.'', ''ua.zo.'',
    ''ua.dlq.'', ''ua.as.'', ''ua.sat.'', ''ua.omemelet.'', ''ua.civ.'', ''ua.aw.'']"

definition at_domain :: "cstr list" where
  "at_domain =
   [''ta.ca.'', ''ta.oc.'', ''ta.vg.'', ''ta.ro.'', ''ta.virp.'']"

definition in_domain :: "cstr list" where
  "in_domain =
   [''ni.ca.'', ''ni.oc.'', ''ni.tenre.'', ''ni.mrif.'', ''ni.neg.'', ''ni.dni.'', ''ni.cin.'', ''ni.ser.'']"

definition az_domain :: "cstr list" where
  "az_domain =
   [''za.pp.'']"

definition id_domain :: "cstr list" where
  "id_domain =
   [''di.ca.'', ''di.oc.'', ''di.og.'', ''di.ro.'', ''di.hcs.'', ''di.bew.'']"

definition ni_domain :: "cstr list" where
  "ni_domain =
   [''in.bog.'', ''in.mon.'']"

definition mil_domain :: "cstr list" where
  "mil_domain =
   [''lim.ymra.'', ''lim.yvan.'']"

definition no_domain :: "cstr list" where
  "no_domain =
   [''on.shf.'', ''on.lbibeklof.'', ''on.lbibseklyf.'', ''on.dareh.'', ''on.tterdi.'', ''on.enummok.'', ''on.virp.'',
    ''on.tats.'', ''on.sgv.'']"

definition na_domain :: "cstr list" where
  "na_domain =
   [''an.tla.'', ''an.luc.'', ''an.mocelet.'', ''an.manu.'']"

definition ng_domain :: "cstr list" where
  "ng_domain =
   [''gn.ca.'', ''gn.hcs.'']"

definition nz_domain :: "cstr list" where
  "nz_domain =
   [''zn.ca.'', ''zn.oc.'', ''zn.irc.'', ''zn.keeg.'', ''zn.neg.'', ''zn.tvog.'', ''zn.iwi.'', ''zn.iroam.'',
    ''zn.loohcs.'', ''zn.tnemailrap.'']"

definition nr_domain :: "cstr list" where
  "nr_domain =
   [''rn.oc.'', ''rn.xaf.'', ''rn.bom.'', ''rn.libom.'', ''rn.elibom.'', ''rn.flt.'']"

definition fr_domain :: "cstr list" where
  "fr_domain =
   [''rf.troporea.'', ''rf.cidessa.'', ''rf.ossa.'', ''rf.tacova.'', ''rf.seuova.'', ''rf.uaerrab.'', ''rf.icc.'',
    ''rf.irgabmahc.'', ''rf.setsitned-sneigrurihc.'', ''rf.selbatpmoc-strepxe.'', ''rf.trepxe-ertemoeg.'', ''rf.vuog.'',
    ''rf.aterg.'', ''rf.ecitsuj-reissiuh.'', ''rf.nicedem.'', ''rf.mon.'', ''rf.seriaton.'', ''rf.neicamrahp.'',
    ''rf.trop.'', ''rf.drp.'', ''rf.esserp.'', ''rf.mt.'', ''rf.erianiretev.'']"

definition fi_domain :: "cstr list" where
  "fi_domain =
   [''if.dnala.'']"

definition fj_domain :: "cstr list" where
  "fj_domain =
   [''jf.ca.'', ''jf.di.'', ''jf.loohcs.'']"

definition fk_domain :: "cstr list" where
  "fk_domain =
   [''kf.ca.'', ''kf.oc.'', ''kf.mon.'']"

definition mobi_domain :: "cstr list" where
  "mobi_domain =
   [''ibom.cisum.'', ''ibom.rehtaew.'']"

definition ke_domain :: "cstr list" where
  "ke_domain =
   [''ek.ca.'', ''ek.oc.'', ''ek.og.'', ''ek.en.'', ''ek.wen.'', ''ek.ro.'', ''ek.cs.'']"

definition kh_domain :: "cstr list" where
  "kh_domain =
   [''hk.rep.'']"

definition sv_domain :: "cstr list" where
  "sv_domain =
   [''vs.bog.'', ''vs.der.'']"

definition st_domain :: "cstr list" where
  "st_domain =
   [''ts.oc.'', ''ts.odalusnoc.'', ''ts.adaxiabme.'', ''ts.epicnirp.'', ''ts.emotoas.'', ''ts.erots.'']"

definition kr_domain :: "cstr list" where
  "kr_domain =
   [''rk.ca.'', ''rk.nasub.'', ''rk.kubgnuhc.'', ''rk.mangnuhc.'', ''rk.oc.'', ''rk.ugead.'', ''rk.noejead.'', ''rk.se.'',
    ''rk.nowgnag.'', ''rk.og.'', ''rk.ujgnawg.'', ''rk.kubgnoeyg.'', ''rk.iggnoeyg.'', ''rk.mangnoeyg.'', ''rk.sh.'',
    ''rk.noehcni.'', ''rk.ujej.'', ''rk.kubnoej.'', ''rk.mannoej.'', ''rk.gk.'', ''rk.iggnoyk.'', ''rk.sm.'', ''rk.en.'',
    ''rk.ro.'', ''rk.ep.'', ''rk.er.'', ''rk.cs.'', ''rk.luoes.'', ''rk.naslu.'']"

definition sa_domain :: "cstr list" where
  "sa_domain =
   [''as.dem.'', ''as.bup.'', ''as.hcs.'']"

definition sg_domain :: "cstr list" where
  "sg_domain =
   [''gs.ndi.'', ''gs.rep.'']"

definition se_domain :: "cstr list" where
  "se_domain =
   [''es.ba.'', ''es.ca.'', ''es.db.'', ''es.dnarb.'', ''es.c.'', ''es.d.'', ''es.e.'', ''es.f.'', ''es.hf.'', ''es.kshf.'',
    ''es.vhf.'', ''es.g.'', ''es.h.'', ''es.i.'', ''es.k.'', ''es.brofmok.'', ''es.dnubroflanummok.'', ''es.xuvmok.'',
    ''es.branal.'', ''es.bibnal.'', ''es.m.'', ''es.n.'', ''es.nmygskurbrutan.'', ''es.o.'', ''es.itrap.'', ''es.pp.'',
    ''es.sserp.'', ''es.s.'', ''es.nhss.'', ''es.t.'', ''es.mt.'', ''es.u.'', ''es.w.'', ''es.x.'', ''es.y.'', ''es.z.'']"

definition sd_domain :: "cstr list" where
  "sd_domain =
   [''ds.dem.'', ''ds.hcs.'', ''ds.vt.'']"

definition domain_map :: "(cstr \<times> cstr list) list" where
  "domain_map =
   [(''tg.'', gt_domain), (''pg.'', gp_domain), (''gg.'', gg_domain), (''eg.'', ge_domain), (''ng.'', gn_domain),
    (''ig.'', gi_domain), (''zt.'', tz_domain), (''nt.'', tn_domain), (''vt.'', tv_domain), (''wt.'', tw_domain),
    (''tt.'', tt_domain), (''apra.'', arpa_domain), (''kl.'', lk_domain), (''vl.'', lv_domain), (''jt.'', tj_domain),
    (''sl.'', ls_domain), (''ht.'', th_domain), (''ft.'', tf_domain), (''yl.'', ly_domain), (''od.'', do_domain),
    (''kd.'', dk_domain), (''zd.'', dz_domain), (''yu.'', uy_domain), (''uv.'', vu_domain), (''mz.'', zm_domain),
    (''ee.'', ee_domain), (''ge.'', eg_domain), (''az.'', za_domain), (''ce.'', ec_domain), (''wz.'', zw_domain),
    (''se.'', es_domain), (''re.'', er_domain), (''ur.'', ru_domain), (''wr.'', rw_domain), (''sr.'', rs_domain),
    (''er.'', re_domain), (''ten.'', net_domain), (''or.'', ro_domain), (''db.'', bd_domain), (''eb.'', be_domain),
    (''ab.'', ba_domain), (''hb.'', bh_domain), (''ob.'', bo_domain), (''pj.'', jp_domain), (''wb.'', bw_domain),
    (''rb.'', br_domain), (''gro.'', org_domain), (''mo.'', om_domain), (''kc.'', ck_domain), (''oc.'', co_domain),
    (''nc.'', cn_domain), (''rt.'', tr_domain), (''ac.'', ca_domain), (''yc.'', cy_domain), (''ej.'', je_domain),
    (''rc.'', cr_domain), (''uc.'', cu_domain), (''ev.'', ve_domain), (''rp.'', pr_domain), (''sp.'', ps_domain),
    (''tp.'', pt_domain), (''ap.'', pa_domain), (''gp.'', pg_domain), (''ep.'', pe_domain), (''kp.'', pk_domain),
    (''hp.'', ph_domain), (''lp.'', pl_domain), (''rh.'', hr_domain), (''th.'', ht_domain), (''uh.'', hu_domain),
    (''kh.'', hk_domain), (''nh.'', hn_domain), (''nv.'', vn_domain), (''em.'', me_domain), (''gm.'', mg_domain),
    (''am.'', ma_domain), (''cm.'', mc_domain), (''su.'', us_domain), (''um.'', mu_domain), (''tm.'', mt_domain),
    (''wm.'', mw_domain), (''ku.'', uk_domain), (''mi.'', im_domain), (''gu.'', ug_domain), (''au.'', ua_domain),
    (''xm.'', mx_domain), (''li.'', il_domain), (''av.'', va_domain), (''ea.'', ae_domain), (''da.'', ad_domain),
    (''ga.'', ag_domain), (''ia.'', ai_domain), (''iv.'', vi_domain), (''orp.'', pro_domain), (''ri.'', ir_domain),
    (''oa.'', ao_domain), (''ua.'', au_domain), (''ta.'', at_domain), (''ni.'', in_domain), (''za.'', az_domain),
    (''di.'', id_domain), (''in.'', ni_domain), (''lim.'', mil_domain), (''on.'', no_domain), (''an.'', na_domain),
    (''gn.'', ng_domain), (''zn.'', nz_domain), (''rn.'', nr_domain), (''rf.'', fr_domain), (''if.'', fi_domain),
    (''jf.'', fj_domain), (''kf.'', fk_domain), (''ibom.'', mobi_domain), (''ek.'', ke_domain), (''hk.'', kh_domain),
    (''vs.'', sv_domain), (''ts.'', st_domain), (''rk.'', kr_domain), (''as.'', sa_domain), (''gs.'', sg_domain),
    (''es.'', se_domain), (''ds.'', sd_domain)]"

lemmas second_domain_defs =
  gt_domain_def gp_domain_def gg_domain_def ge_domain_def gn_domain_def gi_domain_def tz_domain_def tn_domain_def
  tv_domain_def tw_domain_def tt_domain_def arpa_domain_def lk_domain_def lv_domain_def tj_domain_def ls_domain_def
  th_domain_def tf_domain_def ly_domain_def do_domain_def dk_domain_def dz_domain_def uy_domain_def vu_domain_def
  zm_domain_def ee_domain_def eg_domain_def za_domain_def ec_domain_def zw_domain_def es_domain_def er_domain_def
  ru_domain_def rw_domain_def rs_domain_def re_domain_def net_domain_def ro_domain_def bd_domain_def be_domain_def
  ba_domain_def bh_domain_def bo_domain_def jp_domain_def bw_domain_def br_domain_def org_domain_def om_domain_def
  ck_domain_def co_domain_def cn_domain_def tr_domain_def ca_domain_def cy_domain_def je_domain_def cr_domain_def
  cu_domain_def ve_domain_def pr_domain_def ps_domain_def pt_domain_def pa_domain_def pg_domain_def pe_domain_def
  pk_domain_def ph_domain_def pl_domain_def hr_domain_def ht_domain_def hu_domain_def hk_domain_def hn_domain_def
  vn_domain_def me_domain_def mg_domain_def ma_domain_def mc_domain_def us_domain_def mu_domain_def mt_domain_def
  mw_domain_def uk_domain_def im_domain_def ug_domain_def ua_domain_def mx_domain_def il_domain_def va_domain_def
  ae_domain_def ad_domain_def ag_domain_def ai_domain_def vi_domain_def pro_domain_def ir_domain_def ao_domain_def
  au_domain_def at_domain_def in_domain_def az_domain_def id_domain_def ni_domain_def mil_domain_def no_domain_def
  na_domain_def ng_domain_def nz_domain_def nr_domain_def fr_domain_def fi_domain_def fj_domain_def fk_domain_def
  mobi_domain_def ke_domain_def kh_domain_def sv_domain_def st_domain_def kr_domain_def sa_domain_def sg_domain_def
  se_domain_def sd_domain_def

end
