(* ===== verification/Url_Domain.thy ===== *)
theory Url_Domain
  imports Url_Domain_Tables Url_Site "HOL-Library.List_Lexorder"
begin

text \<open>
  Main domains of sites, \<^verbatim>\<open>ullib/src/ul_url2.cpp\<close>: the class \<open>DomainDict\<close> with its file format, the search for the main
  domain of a site in a dictionary, its first label, and the normal form of sites that are addresses of four numbers.

  A \<open>std::vector\<close> is a list, a \<open>std::map\<close> the list of its entries in the order of the keys, which is the order in
  which it is iterated. A pointer into the site is an index into it. A block that the caller passes for a result is a
  list of bytes as long as the block; a result \<open>None\<close> of a function that has such a block is an access outside of it.
\<close>

section \<open>The dictionary\<close>

definition SUCCESS :: int where "SUCCESS = 0"
definition ILLEGAL_IP :: int where "ILLEGAL_IP = -1"
definition SITE_BUFFER_SMALL :: int where "SITE_BUFFER_SMALL = -2"
definition ILLEGAL_DOMAIN :: int where "ILLEGAL_DOMAIN = -2"
definition TRUNK_BUFFER_SMALL :: int where "TRUNK_BUFFER_SMALL = -3"
definition ERROR_PARAM :: int where "ERROR_PARAM = -1"
definition OPEN_FILE_FAILED :: int where "OPEN_FILE_FAILED = -2"
definition FILE_FORMAT_ERROR :: int where "FILE_FORMAT_ERROR = -3"

lemmas url2_codes = SUCCESS_def ILLEGAL_IP_def SITE_BUFFER_SMALL_def ILLEGAL_DOMAIN_def TRUNK_BUFFER_SMALL_def
  ERROR_PARAM_def OPEN_FILE_FAILED_def FILE_FORMAT_ERROR_def

record DomainDict =
  get_top_domain :: "cstr list"
  get_top_country :: "cstr list"
  get_general_2nd_domain :: "cstr list"
  get_country_domain_map :: "(cstr \<times> cstr list) list"

fun map_push :: "(cstr \<times> cstr list) list \<Rightarrow> cstr \<Rightarrow> cstr \<Rightarrow> (cstr \<times> cstr list) list" where
  \<comment> \<open>\<open>country_domain_map_[k].push_back(v)\<close>: a new key gets its place in the order\<close>
  "map_push [] k v = [(k, [v])]"
| "map_push ((k', vs) # m) k v =
     (if k = k' then (k', vs @ [v]) # m
      else if k < k' then (k, [v]) # (k', vs) # m
      else (k', vs) # map_push m k v)"

definition add_top_domain :: "cstr \<Rightarrow> DomainDict \<Rightarrow> DomainDict" where
  "add_top_domain s d = d\<lparr>get_top_domain := get_top_domain d @ [rev s]\<rparr>"

definition add_top_country :: "cstr \<Rightarrow> DomainDict \<Rightarrow> DomainDict" where
  "add_top_country s d = d\<lparr>get_top_country := get_top_country d @ [rev s]\<rparr>"

definition add_general_2nd_domain :: "cstr \<Rightarrow> DomainDict \<Rightarrow> DomainDict" where
  "add_general_2nd_domain s d = d\<lparr>get_general_2nd_domain := get_general_2nd_domain d @ [rev s]\<rparr>"

definition add_country_domain :: "cstr \<Rightarrow> cstr \<Rightarrow> DomainDict \<Rightarrow> DomainDict" where
  "add_country_domain s w d = d\<lparr>get_country_domain_map := map_push (get_country_domain_map d) (rev s) (rev (w @ s))\<rparr>"

definition dict_clear :: "DomainDict \<Rightarrow> DomainDict" where
  "dict_clear d = \<lparr>get_top_domain = [], get_top_country = [], get_general_2nd_domain = [], get_country_domain_map = []\<rparr>"

definition new_dict :: DomainDict where
  "new_dict = \<lparr>get_top_domain = [], get_top_country = [], get_general_2nd_domain = [], get_country_domain_map = []\<rparr>"

definition push_all :: "cstr \<times> cstr list \<Rightarrow> (cstr \<times> cstr list) list \<Rightarrow> (cstr \<times> cstr list) list" where
  \<comment> \<open>the loop over \<open>j\<close>\<close>
  "push_all e m = fold (\<lambda>y m'. map_push m' (fst e) y) (snd e) m"

definition load_default :: "DomainDict \<Rightarrow> DomainDict" where
  "load_default d =
     \<lparr>get_top_domain = get_top_domain d @ top_domain,
      get_top_country = get_top_country d @ top_country,
      get_general_2nd_domain = get_general_2nd_domain d @ general_2nd_domain,
      get_country_domain_map = fold push_all domain_map (get_country_domain_map d)\<rparr>"

section \<open>The file of a dictionary\<close>

definition c_str :: "char list \<Rightarrow> cstr" where
  \<comment> \<open>what the callee sees of a \<open>std::string\<close>\<close>
  "c_str s = takeWhile (\<lambda>c. c \<noteq> NUL) s"

definition readline :: "char list \<Rightarrow> DomainDict \<Rightarrow> bool \<times> DomainDict" where
  \<comment> \<open>\<open>buf >> s\<close> reads a word and leaves \<open>s\<close> empty when there is none\<close>
  "readline str d =
     (case scan_word str of (type, r) \<Rightarrow> case scan_word r of (s, r') \<Rightarrow>
        if type = ''td'' then (if s \<noteq> [] then (True, add_top_domain (c_str s) d) else (False, d))
        else if type = ''tc'' then (if s \<noteq> [] then (True, add_top_country (c_str s) d) else (False, d))
        else if type = ''2nd'' then (if s \<noteq> [] then (True, add_general_2nd_domain (c_str s) d) else (False, d))
        else if type = ''cd'' then
          (case scan_word r' of (s2, _) \<Rightarrow>
             if s \<noteq> [] \<and> s2 \<noteq> [] then (True, add_country_domain (c_str s) (c_str s2) d) else (False, d))
        else if type = [] then (True, d)
        else if type = ''#'' then (True, d)
        else (False, d))"

function getlines :: "char list \<Rightarrow> char list list" where
  \<comment> \<open>the lines that the successive calls of \<open>getline(in, buf)\<close> deliver\<close>
  "getlines [] = []"
| "getlines (c # s) =
     (if c = LF then [] # getlines s
      else takeWhile (\<lambda>c. c \<noteq> LF) (c # s) # getlines (drop 1 (dropWhile (\<lambda>c. c \<noteq> LF) s)))"
  by pat_completeness auto
termination
  by (relation "measure length") (auto intro: le_imp_less_Suc le_trans[OF diff_le_self] length_dropWhile_le)

fun load_lines :: "char list list \<Rightarrow> DomainDict \<Rightarrow> int \<times> DomainDict" where
  \<comment> \<open>\<open>while(getline(in, buf))\<close>\<close>
  "load_lines [] d = (SUCCESS, d)"
| "load_lines (l # ls) d =
     (case readline l d of (ok, d') \<Rightarrow> if \<not> ok then (FILE_FORMAT_ERROR, d') else load_lines ls d')"

definition load_file :: "fsys \<Rightarrow> cstr option \<Rightarrow> cstr option \<Rightarrow> DomainDict \<Rightarrow> int \<times> DomainDict" where
  "load_file fs path file_name d =
     (case (path, file_name) of
        (Some p, Some f) \<Rightarrow>
          if f = [] then (ERROR_PARAM, d)
          else (case fs (if p = [] then f else p @ ''/'' @ f) of
                  None \<Rightarrow> (OPEN_FILE_FAILED, d)
                | Some content \<Rightarrow> load_lines (getlines content) d)
      | _ \<Rightarrow> (ERROR_PARAM, d))"

section \<open>The search for the main domain\<close>

fun rev_match :: "cstr \<Rightarrow> nat \<Rightarrow> cstr \<Rightarrow> nat option" where
  "rev_match str len [] = Some len"
| "rev_match str 0 (c # pattern) = None"
| "rev_match str (Suc len) (c # pattern) = (if str ! len \<noteq> c then None else rev_match str len pattern)"

fun rev_dot :: "cstr \<Rightarrow> nat \<Rightarrow> nat option" where
  "rev_dot str 0 = None"
| "rev_dot str (Suc k) = (if k = 0 then None else if str ! k = CHR ''.'' then Some (k + 1) else rev_dot str k)"

fun two_parts_loop :: "cstr \<Rightarrow> nat \<Rightarrow> nat \<Rightarrow> nat option" where
  \<comment> \<open>\<open>for(int i = urllen - 1; i >= 0; --i)\<close>, with \<open>i + 1\<close> as the argument\<close>
  "two_parts_loop url 0 dotcount = None"
| "two_parts_loop url (Suc i) dotcount =
     (let d = (if url ! i = CHR ''.'' then dotcount + 1 else dotcount) in
      if d = 2 then Some (i + 1) else two_parts_loop url i d)"

definition get_last_two_parts :: "cstr \<Rightarrow> nat option" where
  "get_last_two_parts url = two_parts_loop url (length url) 0"

definition dot_or_site :: "cstr \<Rightarrow> nat \<Rightarrow> nat" where
  \<comment> \<open>\<open>result = rev_dot(site, match); if(result == 0) return site; else return result;\<close>\<close>
  "dot_or_site site k = (case rev_dot site k of None \<Rightarrow> 0 | Some j \<Rightarrow> j)"

fun first_match :: "cstr \<Rightarrow> nat \<Rightarrow> cstr list \<Rightarrow> nat option" where
  \<comment> \<open>the loops over a list of suffixes up to the first one that matches\<close>
  "first_match site len [] = None"
| "first_match site len (x # xs) =
     (case rev_match site len x of None \<Rightarrow> first_match site len xs | Some k \<Rightarrow> Some k)"

fun country_loop :: "cstr \<Rightarrow> (cstr \<times> cstr list) list \<Rightarrow> nat option" where
  \<comment> \<open>the loop over the map: \<open>None\<close> is reaching \<open>next\<close>, also by the \<open>goto\<close>\<close>
  "country_loop site [] = None"
| "country_loop site ((k, seconds) # m) =
     (case rev_match site (length site) k of
        None \<Rightarrow> country_loop site m
      | Some _ \<Rightarrow> map_option (dot_or_site site) (first_match site (length site) seconds))"

fun top_country_loop :: "cstr \<Rightarrow> cstr list \<Rightarrow> cstr list \<Rightarrow> nat option" where
  "top_country_loop site generals [] = None"
| "top_country_loop site generals (c # cs) =
     (case rev_match site (length site) c of
        None \<Rightarrow> top_country_loop site generals cs
      | Some k \<Rightarrow>
          (case first_match site k generals of
             Some k2 \<Rightarrow> Some (dot_or_site site k2)
           | None \<Rightarrow> Some (dot_or_site site k)))"

definition get_domain_from_site :: "DomainDict \<Rightarrow> cstr \<Rightarrow> nat option" where
  "get_domain_from_site dict site =
     (if site = [] then None
      else case first_match site (length site) (get_top_domain dict) of
        Some k \<Rightarrow> Some (dot_or_site site k)
      | None \<Rightarrow>
          (case country_loop site (get_country_domain_map dict) of
             Some k \<Rightarrow> Some k
           | None \<Rightarrow>
               (case top_country_loop site (get_general_2nd_domain dict) (get_top_country dict) of
                  Some k \<Rightarrow> Some k
                | None \<Rightarrow> get_last_two_parts site)))"

definition get_trunk_from_domain :: "cstr \<Rightarrow> char list \<Rightarrow> int \<Rightarrow> (int \<times> char list) option" where
  "get_trunk_from_domain domain trunk trunk_size =
     (let label = takeWhile (\<lambda>c. c \<noteq> CHR ''.'') domain in
      if trunk_size \<le> int (length label) then Some (-1, trunk)
      else if length label < length domain then
        (if length label < length trunk then Some (0, label @ NUL # drop (Suc (length label)) trunk) else None)
      else if trunk = [] then None else Some (0, trunk[0 := NUL]))"

section \<open>Sites that are addresses\<close>

definition is_legal_char :: "char \<Rightarrow> bool" where
  "is_legal_char ch \<longleftrightarrow> isdigit ch \<or> ch = CHR ''.'' \<or> ch = CHR ''x'' \<or> ch = CHR ''X''
     \<or> (CHR ''a'' \<le> ch \<and> ch \<le> CHR ''f'') \<or> (CHR ''A'' \<le> ch \<and> ch \<le> CHR ''F'')"

definition is_legal_char2 :: "char \<Rightarrow> bool" where
  "is_legal_char2 ch \<longleftrightarrow> isdigit ch \<or> ch = CHR ''.''"

fun dotip_loop :: "(char \<Rightarrow> bool) \<Rightarrow> nat \<Rightarrow> cstr \<Rightarrow> int" where
  \<comment> \<open>\<open>while(*site)\<close> and what follows it\<close>
  "dotip_loop legal dot_count [] = (if dot_count = 3 then 1 else 0)"
| "dotip_loop legal dot_count (c # site) =
     (if \<not> legal c then 0 else dotip_loop legal (if c = CHR ''.'' then dot_count + 1 else dot_count) site)"

definition guess_is_dotip :: "cstr \<Rightarrow> int" where
  "guess_is_dotip site = dotip_loop is_legal_char 0 site"

definition guess_is_dotip2 :: "cstr \<Rightarrow> int" where
  "guess_is_dotip2 site = dotip_loop is_legal_char2 0 site"

definition digit_in :: "int \<Rightarrow> char \<Rightarrow> int option" where
  \<comment> \<open>the value of a digit in base 8, 10 or 16\<close>
  "digit_in base ch =
     (let n = int (of_char ch) in
      if 48 \<le> n \<and> n \<le> 57 \<and> n - 48 < base then Some (n - 48)
      else if base = 16 \<and> 97 \<le> n \<and> n \<le> 102 then Some (n - 87)
      else if base = 16 \<and> 65 \<le> n \<and> n \<le> 70 then Some (n - 55)
      else None)"

fun value_loop :: "int \<Rightarrow> char \<Rightarrow> int \<Rightarrow> cstr \<Rightarrow> int" where
  \<comment> \<open>the three loops \<open>while(*p != endc)\<close>; the terminator is no digit\<close>
  "value_loop base endc val [] = (if endc = NUL then val else -1)"
| "value_loop base endc val (ch # p) =
     (if ch = endc then val
      else case digit_in base ch of
        None \<Rightarrow> -1
      | Some dv \<Rightarrow>
          (let v = val * base + dv in if 256 \<le> v then ILLEGAL_IP else value_loop base endc v p))"

definition get_value :: "cstr \<Rightarrow> char \<Rightarrow> int" where
  "get_value p endc =
     (if p \<noteq> [] \<and> hd p = CHR ''0'' \<and> tl p \<noteq> [] \<and> (hd (tl p) = CHR ''x'' \<or> hd (tl p) = CHR ''X'')
      then value_loop 16 endc 0 (drop 2 p)
      else if p \<noteq> [] \<and> hd p = CHR ''0'' then value_loop 8 endc 0 (drop 1 p)
      else value_loop 10 endc 0 p)"

datatype ip_result = Return int | Not_ip | Is_ip cstr

function ip_loop :: "cstr \<Rightarrow> cstr \<Rightarrow> ip_result" where
  \<comment> \<open>\<open>while(1)\<close>; \<open>tmp\<close> has room for 256 bytes, and at most four numbers below 256 are printed\<close>
  "ip_loop tmp site =
     (case strchr site CHR ''.'' of
        None \<Rightarrow>
          (let val = get_value site NUL in
           if val = -1 then Not_ip else if val = ILLEGAL_IP then Return ILLEGAL_IP else Is_ip (tmp @ dec_int val))
      | Some p \<Rightarrow>
          (let val = get_value site CHR ''.'' in
           if val = -1 then Not_ip else if val = ILLEGAL_IP then Return ILLEGAL_IP
           else ip_loop (tmp @ dec_int val @ ''.'') (drop (Suc p) site)))"
  by pat_completeness auto
termination
  by (relation "measure (\<lambda>(tmp, site). length site)") (auto dest: strchr_Some)

declare ip_loop.simps [simp del]

definition print_site :: "cstr \<Rightarrow> char list \<Rightarrow> nat \<Rightarrow> (int \<times> char list) option" where
  \<comment> \<open>\<open>snprintf(result, result_size, "%s", saved_site)\<close> and the check of its value\<close>
  "print_site saved_site result result_size =
     map_option (\<lambda>b. (if result_size \<le> length saved_site then SITE_BUFFER_SMALL else SUCCESS, b))
       (snprintf_block result result_size saved_site)"

definition ul_normalize_site_ip :: "cstr \<Rightarrow> char list \<Rightarrow> nat \<Rightarrow> (int \<times> char list) option" where
  "ul_normalize_site_ip site result result_size =
     (if guess_is_dotip site \<noteq> 0 then
        (case ip_loop [] site of
           Return r \<Rightarrow> Some (r, result)
         | Not_ip \<Rightarrow> print_site site result result_size
         | Is_ip tmp \<Rightarrow> print_site tmp result result_size)
      else print_site site result result_size)"

section \<open>Trunk and main domain\<close>

definition skip_dots :: "cstr \<Rightarrow> nat \<Rightarrow> nat" where
  \<comment> \<open>\<open>while(tmp_domain && *tmp_domain=='.') tmp_domain++\<close>\<close>
  "skip_dots site k = k + length (takeWhile (\<lambda>c. c = CHR ''.'') (drop k site))"

definition ul_fetch_trunk_and_domain ::
  "DomainDict \<Rightarrow> cstr \<Rightarrow> char list option \<Rightarrow> nat \<Rightarrow> (int \<times> nat option \<times> char list option) option" where
  \<comment> \<open>the return value, what is stored in \<open>*domain\<close> and the block \<open>trunk\<close>\<close>
  "ul_fetch_trunk_and_domain dict site trunk trunk_size =
     (if guess_is_dotip2 site \<noteq> 0 then
        (case trunk of
           None \<Rightarrow> Some (SUCCESS, Some 0, None)
         | Some blk \<Rightarrow>
             map_option (\<lambda>b. (if trunk_size \<le> length site then TRUNK_BUFFER_SMALL else SUCCESS, Some 0, Some b))
               (snprintf_block blk trunk_size site))
      else (case get_domain_from_site dict site of
         None \<Rightarrow> Some (ILLEGAL_DOMAIN, None, trunk)
       | Some k \<Rightarrow>
           (let dm = skip_dots site k in
            case trunk of
              None \<Rightarrow> Some (SUCCESS, Some dm, None)
            | Some blk \<Rightarrow>
                map_option (\<lambda>(r, b). (if r \<noteq> 0 then TRUNK_BUFFER_SMALL else SUCCESS, Some dm, Some b))
                  (get_trunk_from_domain (drop dm site) blk (int trunk_size)))))"

definition recover :: "cstr \<Rightarrow> char list option \<Rightarrow> nat \<Rightarrow> (nat option \<times> char list option) option" where
  \<comment> \<open>\<open>strncpy(trunk, site, trunk_size - 1); trunk[trunk_size-1] = 0; return site;\<close>\<close>
  "recover site trunk trunk_size =
     (case trunk of
        None \<Rightarrow> None
      | Some blk \<Rightarrow>
          if trunk_size = 0 \<or> length blk < trunk_size then None
          else Some (Some 0, Some (take (trunk_size - 1) (site @ replicate (trunk_size - 1) NUL) @ NUL # drop trunk_size blk)))"

definition fetch_with :: "DomainDict \<Rightarrow> cstr \<Rightarrow> char list option \<Rightarrow> nat \<Rightarrow> bool \<Rightarrow> (nat option \<times> char list option) option" where
  \<comment> \<open>the body that the two functions share: the pointer returned and the block \<open>trunk\<close>\<close>
  "fetch_with dict site trunk trunk_size recoveryMode =
     (case ul_fetch_trunk_and_domain dict site trunk trunk_size of
        None \<Rightarrow> None
      | Some (r, domain, t) \<Rightarrow>
          if r \<noteq> SUCCESS then (if recoveryMode then recover site t trunk_size else Some (None, t)) else Some (domain, t))"

definition ul_fetch_maindomain_ex :: "cstr \<Rightarrow> char list option \<Rightarrow> nat \<Rightarrow> bool \<Rightarrow> (nat option \<times> char list option) option" where
  \<comment> \<open>the static dictionary is filled by the first call and never changed\<close>
  "ul_fetch_maindomain_ex site trunk trunk_size recoveryMode = fetch_with (load_default new_dict) site trunk trunk_size recoveryMode"

definition ul_fetch_maindomain_ex2 ::
  "cstr \<Rightarrow> char list option \<Rightarrow> nat \<Rightarrow> DomainDict option \<Rightarrow> bool \<Rightarrow> (nat option \<times> char list option) option" where
  \<comment> \<open>the call for the null pointer leaves the last argument at its default, \<open>true\<close>\<close>
  "ul_fetch_maindomain_ex2 site trunk trunk_size dict recoveryMode =
     (case dict of
        None \<Rightarrow> ul_fetch_maindomain_ex site trunk trunk_size True
      | Some d \<Rightarrow> fetch_with d site trunk trunk_size recoveryMode)"

section \<open>What the search finds\<close>

lemma rev_match_spec:
  "len \<le> length str \<Longrightarrow> rev_match str len p = (if suffix (rev p) (take len str) then Some (len - length p) else None)"
proof (induction str len p rule: rev_match.induct)
  case (3 str len c pattern)
  then show ?case by (simp add: take_Suc_conv_app_nth)
qed simp_all

lemma first_match_spec:
  "len \<le> length site \<Longrightarrow> first_match site len xs = map_option (\<lambda>p. len - length p) (find (\<lambda>p. suffix (rev p) (take len site)) xs)"
  by (induction xs) (simp_all add: rev_match_spec)

definition last_label :: "cstr \<Rightarrow> cstr" where
  "last_label a = rev (takeWhile (\<lambda>c. c \<noteq> CHR ''.'') (rev a))"

lemma last_label_snoc [simp]: "last_label (a @ [c]) = (if c = CHR ''.'' then [] else last_label a @ [c])"
  by (simp add: last_label_def)

lemma last_label_id [simp]: "CHR ''.'' \<notin> set x \<Longrightarrow> last_label x = x"
  by (induction x rule: rev_induct) (auto simp: last_label_def)

lemma last_label_append [simp]: "CHR ''.'' \<notin> set x \<Longrightarrow> last_label (a @ CHR ''.'' # x) = x"
proof (induction x rule: rev_induct)
  case (snoc c x)
  have "last_label ((a @ CHR ''.'' # x) @ [c]) = x @ [c]" using snoc by (subst last_label_snoc) auto
  then show ?case by simp
qed simp

lemma rev_dot_spec:
  "k \<le> length str \<Longrightarrow>
   (case rev_dot str k of
      Some j \<Rightarrow> j \<le> k \<and> drop j (take k str) = last_label (take k str)
    | None \<Rightarrow> take k str = last_label (take k str) \<or> take k str = CHR ''.'' # last_label (take k str))"
proof (induction str k rule: rev_dot.induct)
  case (2 str k)
  have t: "take (Suc k) str = take k str @ [str ! k]" using 2(2) by (simp add: take_Suc_conv_app_nth)
  show ?case
  proof (cases "k = 0 \<or> str ! k = CHR ''.''")
    case True
    then show ?thesis using 2(2) t by (auto simp: last_label_def)
  next
    case False
    then show ?thesis using 2 by (cases "rev_dot str k") (auto simp: t)
  qed
qed (simp add: last_label_def)

lemma dot_or_site_text:
  assumes "k \<le> length site"
  shows "drop (skip_dots site (dot_or_site site k)) site = dropWhile (\<lambda>c. c = CHR ''.'') (last_label (take k site) @ drop k site)"
proof -
  let ?j = "dot_or_site site k"
  have "drop (skip_dots site ?j) site = dropWhile (\<lambda>c. c = CHR ''.'') (drop ?j site)"
    by (metis skip_dots_def add.commute drop_drop dropWhile_eq_drop)
  also have "drop ?j site = drop ?j (take k site) @ drop (?j - k) (drop k site)"
    by (metis append_take_drop_id assms drop_append length_take min.absorb2)
  also have "dropWhile (\<lambda>c. c = CHR ''.'') \<dots> = dropWhile (\<lambda>c. c = CHR ''.'') (last_label (take k site) @ drop k site)"
  proof (cases "rev_dot site k")
    case None
    then consider "take k site = last_label (take k site)" | "take k site = CHR ''.'' # last_label (take k site)"
      using rev_dot_spec[OF assms] by auto
    then show ?thesis
    proof cases
      case 1
      then have "drop 0 (take k site) @ drop (0 - k) (drop k site) = last_label (take k site) @ drop k site"
        unfolding drop_0 diff_0_eq_0 by (rule arg_cong)
      then show ?thesis using None by (simp only: dot_or_site_def option.case)
    next
      case 2
      then have e: "drop 0 (take k site) @ drop (0 - k) (drop k site) = CHR ''.'' # last_label (take k site) @ drop k site"
        unfolding drop_0 diff_0_eq_0 by (metis append_Cons)
      show ?thesis unfolding dot_or_site_def None option.case e by simp
    qed
  next
    case (Some j)
    then show ?thesis using rev_dot_spec[OF assms] by (simp add: dot_or_site_def)
  qed
  finally show ?thesis .
qed

section \<open>Dictionaries of labels\<close>

abbreviation stored :: "cstr list \<Rightarrow> cstr" where
  \<comment> \<open>the form in which the suffix of the labels \<open>ls\<close> is stored: \<open>dotted ls\<close> from its end to its start\<close>
  "stored ls \<equiv> rev (dotted ls)"

definition dlabel :: "cstr \<Rightarrow> bool" where
  "dlabel l \<longleftrightarrow> l \<noteq> [] \<and> CHR ''.'' \<notin> set l"

definition one_label :: "cstr \<Rightarrow> bool" where
  \<comment> \<open>a stored suffix of one label\<close>
  "one_label p \<longleftrightarrow> p \<noteq> [] \<and> last p = CHR ''.'' \<and> dlabel (butlast p)"

definition entry_ok :: "cstr \<times> cstr list \<Rightarrow> bool" where
  \<comment> \<open>a suffix listed below a top-level suffix adds one label to it; one with another ending is never reached\<close>
  "entry_ok e \<longleftrightarrow> one_label (fst e) \<and> list_all (\<lambda>p. if prefix (fst e) p then one_label (drop (length (fst e)) p) else \<not> prefix p (fst e)) (snd e)"

definition dict_ok :: "DomainDict \<Rightarrow> bool" where
  "dict_ok d \<longleftrightarrow> list_all one_label (get_top_domain d) \<and> list_all one_label (get_top_country d)
     \<and> list_all one_label (get_general_2nd_domain d) \<and> list_all entry_ok (get_country_domain_map d)
     \<and> sorted_wrt (<) (map fst (get_country_domain_map d))"

lemma dlabel_rev [simp]: "dlabel (rev l) \<longleftrightarrow> dlabel l"
  by (simp add: dlabel_def)

lemma one_label_stored: "one_label p \<longleftrightarrow> (\<exists>l. dlabel l \<and> p = stored [l])"
proof
  assume "one_label p"
  then have "p = butlast p @ [CHR ''.'']" "dlabel (rev (butlast p))" by (auto simp: one_label_def) (metis append_butlast_last_id)
  then show "\<exists>l. dlabel l \<and> p = stored [l]" by (intro exI[of _ "rev (butlast p)"]) simp
qed (auto simp: one_label_def)

lemma suffix_last_label:
  assumes "CHR ''.'' \<notin> set y" and "CHR ''.'' \<notin> set l"
  shows "suffix (a' @ CHR ''.'' # l) (a @ CHR ''.'' # y) \<longleftrightarrow> l = y \<and> suffix a' a"
proof
  assume s: "suffix (a' @ CHR ''.'' # l) (a @ CHR ''.'' # y)"
  then obtain z where z: "a @ CHR ''.'' # y = (z @ a') @ CHR ''.'' # l" by (auto simp: suffix_def)
  from arg_cong[OF this, of last_label] have "l = y" using assms by (simp del: append_assoc)
  with z show "l = y \<and> suffix a' a" by (auto simp: suffix_def)
qed (auto simp: suffix_def)

lemma suffix_last_label1:
  assumes "CHR ''.'' \<notin> set y" and "CHR ''.'' \<notin> set l"
  shows "suffix (CHR ''.'' # l) (a @ CHR ''.'' # y) \<longleftrightarrow> l = y"
  using suffix_last_label[OF assms, of "[]"] by simp

lemma first_match_label:
  assumes "list_all one_label xs" and "CHR ''.'' \<notin> set y"
  shows "first_match (a @ CHR ''.'' # y @ r) (Suc (length a + length y)) xs = (if stored [y] \<in> set xs then Some (length a) else None)"
  using assms(1)
proof (induction xs)
  case (Cons p xs)
  then obtain l where l: "dlabel l" "p = stored [l]" by (auto simp: one_label_stored)
  have "rev_match (a @ CHR ''.'' # y @ r) (Suc (length a + length y)) p = (if l = y then Some (length a) else None)"
    using l assms(2) by (simp add: rev_match_spec suffix_last_label1 dlabel_def)
  then show ?case using Cons l by auto
qed simp

lemma first_match_end:
  assumes "list_all one_label xs" and "CHR ''.'' \<notin> set y" and "site = a @ CHR ''.'' # y"
  shows "first_match site (length site) xs = (if stored [y] \<in> set xs then Some (length a) else None)"
  using first_match_label[OF assms(1,2), of a "[]"] assms(3) by simp

lemma first_match_no_dot:
  assumes "list_all one_label xs" and "CHR ''.'' \<notin> set y" and "k = length y"
  shows "first_match (y @ r) k xs = None"
  using assms(1)
proof (induction xs)
  case (Cons p xs)
  then obtain l where l: "dlabel l" "p = stored [l]" by (auto simp: one_label_stored)
  have "\<not> suffix (CHR ''.'' # l) y" using assms(2) by (auto simp: suffix_def)
  then show ?case using Cons l assms(3) by (simp add: rev_match_spec)
qed simp

lemma second_match:
  assumes "entry_ok (stored [y], ss)" and "p \<in> set ss" and "CHR ''.'' \<notin> set y"
  shows "suffix (rev p) (a @ CHR ''.'' # y) \<longleftrightarrow> (\<exists>l. dlabel l \<and> p = stored [l, y] \<and> suffix (CHR ''.'' # l) a)"
proof (cases "prefix (stored [y]) p")
  case True
  then have "one_label (drop (length (stored [y])) p)" using assms(1,2) by (auto simp: entry_ok_def list_all_iff)
  then obtain l where l: "dlabel l" "p = stored [l, y]"
    using True by (auto simp: one_label_stored prefix_def)
  then have "suffix (rev p) (a @ CHR ''.'' # y) \<longleftrightarrow> suffix (CHR ''.'' # l) a"
    using suffix_last_label[of y y "CHR ''.'' # l" a] assms(3) by simp
  then show ?thesis using l by auto
next
  case False
  then have np: "\<not> prefix p (stored [y])" using assms(1,2) by (auto simp: entry_ok_def list_all_iff)
  have "\<not> suffix (rev p) (a @ CHR ''.'' # y)"
  proof
    assume "suffix (rev p) (a @ CHR ''.'' # y)"
    then have "prefix p (rev (a @ CHR ''.'' # y))" by (simp add: suffix_to_prefix)
    moreover have "prefix (stored [y]) (rev (a @ CHR ''.'' # y))" by simp
    ultimately show False using False np prefix_same_cases by blast
  qed
  moreover have "\<not> (\<exists>l. p = stored [l, y])" using False by auto
  ultimately show ?thesis by auto
qed

lemma first_second_label:
  assumes "entry_ok (stored [y], ss)" and "CHR ''.'' \<notin> set y" and "CHR ''.'' \<notin> set x"
  shows "first_match (b @ CHR ''.'' # x @ CHR ''.'' # y) (length (b @ CHR ''.'' # x @ CHR ''.'' # y)) ss
    = (if stored [x, y] \<in> set ss then Some (length b) else None)" (is "first_match ?s ?n ss = _")
proof -
  have s: "suffix (rev p) ?s \<longleftrightarrow> p = stored [x, y] \<and> dlabel x" if "p \<in> set ss" for p
  proof -
    have "suffix (rev p) ((b @ CHR ''.'' # x) @ CHR ''.'' # y) \<longleftrightarrow> (\<exists>l. dlabel l \<and> p = stored [l, y] \<and> suffix (CHR ''.'' # l) (b @ CHR ''.'' # x))"
      using second_match[OF assms(1) that assms(2)] .
    also have "\<dots> \<longleftrightarrow> (\<exists>l. dlabel l \<and> p = stored [l, y] \<and> l = x)"
      using suffix_last_label1[OF assms(3)] by (auto simp: dlabel_def)
    finally show ?thesis by auto
  qed
  have d: "stored [x, y] \<in> set ss \<Longrightarrow> dlabel x"
    using second_match[OF assms(1) _ assms(2), of "stored [x, y]" "b @ CHR ''.'' # x"] by (auto simp: suffix_def)
  have "find (\<lambda>p. suffix (rev p) ?s) ss = (if stored [x, y] \<in> set ss then Some (stored [x, y]) else None)"
    using s d by (cases "find (\<lambda>p. suffix (rev p) ?s) ss") (auto simp: find_None_iff find_Some_iff)
  then show ?thesis by (simp add: first_match_spec)
qed

lemma first_second_short:
  assumes "entry_ok (stored [y], ss)" and "CHR ''.'' \<notin> set y" and "CHR ''.'' \<notin> set x"
  shows "first_match (x @ CHR ''.'' # y) (length (x @ CHR ''.'' # y)) ss = None"
proof -
  have "\<not> suffix (CHR ''.'' # l) x" for l using assms(3) by (auto simp: suffix_def)
  then have "find (\<lambda>p. suffix (rev p) (x @ CHR ''.'' # y)) ss = None"
    using second_match[OF assms(1) _ assms(2)] by (auto simp: find_None_iff)
  then show ?thesis by (simp add: first_match_spec)
qed

lemma country_loop_label:
  assumes "list_all entry_ok m" and "CHR ''.'' \<notin> set y" and "site = a @ CHR ''.'' # y"
  shows "country_loop site m = (case map_of m (stored [y]) of
      None \<Rightarrow> None
    | Some ss \<Rightarrow> map_option (dot_or_site site) (first_match site (length site) ss))"
  using assms(1)
proof (induction m)
  case (Cons e m)
  obtain k ss where e: "e = (k, ss)" by (cases e)
  then obtain l where l: "dlabel l" "k = stored [l]" using Cons.prems by (auto simp: entry_ok_def one_label_stored)
  have "rev_match site (length site) k = (if l = y then Some (length a) else None)"
    using l assms(2,3) by (simp add: rev_match_spec suffix_last_label1 dlabel_def)
  then show ?case using Cons e l by auto
qed simp

lemma top_country_label:
  assumes "list_all one_label cs" and "CHR ''.'' \<notin> set y" and "site = a @ CHR ''.'' # y"
  shows "top_country_loop site gs cs = (if stored [y] \<in> set cs
    then Some (dot_or_site site (case first_match site (length a) gs of Some k \<Rightarrow> k | None \<Rightarrow> length a)) else None)"
  using assms(1)
proof (induction cs)
  case (Cons p cs)
  then obtain l where l: "dlabel l" "p = stored [l]" by (auto simp: one_label_stored)
  have "rev_match site (length site) p = (if l = y then Some (length a) else None)"
    using l assms(2,3) by (simp add: rev_match_spec suffix_last_label1 dlabel_def)
  then show ?case using Cons l by (auto split: option.splits)
qed simp

lemma two_parts_label:
  assumes "CHR ''.'' \<notin> set x" and "n \<noteq> 2" and "u = a @ x @ r"
  shows "two_parts_loop u (length (a @ x)) n = two_parts_loop u (length a) n"
  using assms(1,3)
proof (induction x arbitrary: r rule: rev_induct)
  case (snoc c x)
  then show ?case using assms(2) snoc.IH[of "c # r"] by (auto simp: nth_append Let_def)
qed simp

lemma two_parts_dot:
  "u = a @ CHR ''.'' # r \<Longrightarrow>
   two_parts_loop u (length (a @ ''.'')) n = (if n = 1 then Some (Suc (length a)) else two_parts_loop u (length a) (n + 1))"
  by (simp add: nth_append)

lemma last_two_parts_three:
  assumes "CHR ''.'' \<notin> set x" and "CHR ''.'' \<notin> set y"
  shows "get_last_two_parts (b @ CHR ''.'' # x @ CHR ''.'' # y) = Some (Suc (length b))"
proof -
  define s where "s = b @ CHR ''.'' # x @ CHR ''.'' # y"
  have "two_parts_loop s (length ((b @ ''.'' @ x @ ''.'') @ y)) 0 = two_parts_loop s (length ((b @ ''.'' @ x) @ ''.'')) 0"
    using two_parts_label[of y 0 s "b @ ''.'' @ x @ ''.''" "[]"] assms(2) by (simp add: s_def)
  also have "\<dots> = two_parts_loop s (length ((b @ ''.'') @ x)) 1"
    by (subst two_parts_dot[of _ _ y]) (simp_all add: s_def)
  also have "\<dots> = two_parts_loop s (length (b @ ''.'')) 1"
    by (rule two_parts_label[of _ _ _ _ "CHR ''.'' # y"]) (simp_all add: s_def assms(1))
  also have "\<dots> = Some (Suc (length b))" by (subst two_parts_dot[of _ _ "x @ CHR ''.'' # y"]) (simp_all add: s_def)
  finally show ?thesis by (simp add: get_last_two_parts_def s_def)
qed

lemma last_two_parts_two:
  assumes "CHR ''.'' \<notin> set x" and "CHR ''.'' \<notin> set y"
  shows "get_last_two_parts (x @ CHR ''.'' # y) = None"
proof -
  define s where "s = x @ CHR ''.'' # y"
  have "two_parts_loop s (length ((x @ ''.'') @ y)) 0 = two_parts_loop s (length (x @ ''.'')) 0"
    by (rule two_parts_label[of _ _ _ _ "[]"]) (simp_all add: s_def assms(2))
  also have "\<dots> = two_parts_loop s (length ([] @ x)) 1"
    by (subst two_parts_dot[of _ _ y]) (simp_all add: s_def)
  also have "\<dots> = two_parts_loop s (length ([] :: cstr)) 1"
    by (rule two_parts_label[of _ _ _ _ "CHR ''.'' # y"]) (simp_all add: s_def assms(1))
  finally show ?thesis by (simp add: get_last_two_parts_def s_def)
qed

definition listed1 :: "DomainDict \<Rightarrow> cstr \<Rightarrow> bool" where
  \<comment> \<open>the dictionary knows \<open>y\<close> as the last label of a site\<close>
  "listed1 d y \<longleftrightarrow> stored [y] \<in> set (get_top_domain d) \<or> stored [y] \<in> set (get_top_country d)"

definition listed2 :: "DomainDict \<Rightarrow> cstr \<Rightarrow> cstr \<Rightarrow> bool" where
  \<comment> \<open>the two labels form a suffix below which domains are registered\<close>
  "listed2 d x y \<longleftrightarrow> stored [y] \<notin> set (get_top_domain d)
     \<and> ((case map_of (get_country_domain_map d) (stored [y]) of None \<Rightarrow> False | Some ss \<Rightarrow> stored [x, y] \<in> set ss)
        \<or> stored [y] \<in> set (get_top_country d) \<and> stored [x] \<in> set (get_general_2nd_domain d))"

lemma entry_ok_lookup: "list_all entry_ok m \<Longrightarrow> map_of m k = Some ss \<Longrightarrow> entry_ok (k, ss)"
  by (auto simp: list_all_iff dest: map_of_SomeD)

lemma domain_three_labels:
  assumes "dict_ok d" and "dlabel x" and "dlabel y" and "s = b @ CHR ''.'' # x @ CHR ''.'' # y"
  shows "get_domain_from_site d s = Some (if listed2 d x y then dot_or_site s (length b)
    else if listed1 d y then dot_or_site s (length (b @ CHR ''.'' # x)) else Suc (length b))"
proof -
  have nd: "CHR ''.'' \<notin> set x" "CHR ''.'' \<notin> set y" using assms(2,3) by (simp_all add: dlabel_def)
  have ok: "list_all one_label (get_top_domain d)" "list_all one_label (get_top_country d)"
    "list_all one_label (get_general_2nd_domain d)" "list_all entry_ok (get_country_domain_map d)"
    using assms(1) by (simp_all add: dict_ok_def)
  have s: "s = (b @ CHR ''.'' # x) @ CHR ''.'' # y" using assms(4) by simp
  have top: "first_match s (length s) (get_top_domain d) = (if stored [y] \<in> set (get_top_domain d) then Some (length (b @ CHR ''.'' # x)) else None)"
    by (rule first_match_end[OF ok(1) nd(2) s])
  have gen: "first_match s (length (b @ CHR ''.'' # x)) (get_general_2nd_domain d) = (if stored [x] \<in> set (get_general_2nd_domain d) then Some (length b) else None)"
    using first_match_label[OF ok(3) nd(1), of b "CHR ''.'' # y"] assms(4) by simp
  have sec: "country_loop s (get_country_domain_map d) = (case map_of (get_country_domain_map d) (stored [y]) of None \<Rightarrow> None
    | Some ss \<Rightarrow> if stored [x, y] \<in> set ss then Some (dot_or_site s (length b)) else None)"
    using country_loop_label[OF ok(4) nd(2) s] first_second_label[OF entry_ok_lookup[OF ok(4)] nd(2) nd(1)] assms(4)
    by (auto split: option.splits)
  show ?thesis
    unfolding get_domain_from_site_def top sec top_country_label[OF ok(2) nd(2) s] gen listed1_def listed2_def
    using last_two_parts_three[OF nd, of b] s assms(4) by (auto split: option.splits)
qed

lemma domain_two_labels:
  assumes "dict_ok d" and "dlabel x" and "dlabel y" and "s = x @ CHR ''.'' # y"
  shows "get_domain_from_site d s = (if listed1 d y then Some (dot_or_site s (length x)) else None)"
proof -
  have nd: "CHR ''.'' \<notin> set x" "CHR ''.'' \<notin> set y" using assms(2,3) by (simp_all add: dlabel_def)
  have ok: "list_all one_label (get_top_domain d)" "list_all one_label (get_top_country d)"
    "list_all one_label (get_general_2nd_domain d)" "list_all entry_ok (get_country_domain_map d)"
    using assms(1) by (simp_all add: dict_ok_def)
  have "country_loop s (get_country_domain_map d) = None"
    using country_loop_label[OF ok(4) nd(2) assms(4)] first_second_short[OF entry_ok_lookup[OF ok(4)] nd(2) nd(1)] assms(4)
    by (auto split: option.splits)
  moreover have "first_match s (length x) (get_general_2nd_domain d) = None"
    using first_match_no_dot[OF ok(3) nd(1) refl] assms(4) by simp
  ultimately show ?thesis
    unfolding get_domain_from_site_def first_match_end[OF ok(1) nd(2) assms(4)] top_country_label[OF ok(2) nd(2) assms(4)] listed1_def
    using last_two_parts_two[OF nd] assms(4) by auto
qed

definition maindomain :: "DomainDict \<Rightarrow> cstr list \<Rightarrow> cstr list option" where
  \<comment> \<open>the main domain as labels: what is registered, and the one or two labels below which it is registered\<close>
  "maindomain d ls =
     (case rev ls of
        y # x # w # _ \<Rightarrow> Some (if listed2 d x y then [w, x, y] else [x, y])
      | [y, x] \<Rightarrow> (if listed1 d y then Some [x, y] else None)
      | _ \<Rightarrow> None)"

abbreviation site_of :: "cstr list \<Rightarrow> cstr" where
  \<comment> \<open>the labels with dots between them\<close>
  "site_of ls \<equiv> tl (dotted ls)"

lemma dotted_append [simp]: "dotted (ls @ ms) = dotted ls @ dotted ms"
  by (simp add: dotted_def)

lemma dropWhile_label [simp]: "dlabel x \<Longrightarrow> dropWhile (\<lambda>c. c = CHR ''.'') (x @ r) = x @ r"
  by (cases x) (auto simp: dlabel_def)

lemma takeWhile_label [simp]: "dlabel x \<Longrightarrow> takeWhile (\<lambda>c. c = CHR ''.'') (x @ r) = []"
  by (cases x) (auto simp: dlabel_def)

lemma last_label_site: "dlabel w \<Longrightarrow> last_label (tl (dotted ls @ CHR ''.'' # w)) = w"
  using last_label_append[of w "tl (dotted ls)"] by (cases ls) (simp_all add: dlabel_def)

lemma domain_text:
  assumes "dict_ok d" and "list_all dlabel ls" and "2 \<le> length ls"
  shows "map_option (\<lambda>k. drop (skip_dots (site_of ls) k) (site_of ls)) (get_domain_from_site d (site_of ls))
    = map_option site_of (maindomain d ls)"
proof -
  obtain x y ls0 where ls: "ls = ls0 @ [x, y]"
    using assms(3) by (cases ls rule: rev_cases; cases "butlast ls" rule: rev_cases) auto
  have xy: "dlabel x" "dlabel y" using assms(2) ls by simp_all
  then have nd: "CHR ''.'' \<notin> set x" "CHR ''.'' \<notin> set y" by (simp_all add: dlabel_def)
  show ?thesis
  proof (cases ls0 rule: rev_cases)
    case Nil
    let ?s = "x @ CHR ''.'' # y"
    have s: "site_of ls = ?s" using ls Nil by simp
    have "drop (skip_dots ?s (dot_or_site ?s (length x))) ?s = ?s"
      using dot_or_site_text[of "length x" ?s] xy nd by simp
    then show ?thesis unfolding s domain_two_labels[OF assms(1) xy refl] using ls Nil by (simp add: maindomain_def)
  next
    case (snoc ls1 w)
    have w: "dlabel w" using assms(2) ls snoc by simp
    obtain b where b: "b = tl (dotted ls1 @ CHR ''.'' # w)" "last_label b = w" using last_label_site[OF w] by blast
    let ?s = "b @ CHR ''.'' # x @ CHR ''.'' # y"
    have s: "site_of ls = ?s" using ls snoc b(1) by (cases ls1) simp_all
    have "drop (skip_dots ?s (dot_or_site ?s (length b))) ?s = site_of [w, x, y]"
      using dot_or_site_text[of "length b" ?s] w b(2) by simp
    moreover have "drop (skip_dots ?s (dot_or_site ?s (length (b @ CHR ''.'' # x)))) ?s = site_of [x, y]"
      using dot_or_site_text[of "length (b @ CHR ''.'' # x)" ?s] xy nd by simp
    moreover have "drop (skip_dots ?s (Suc (length b))) ?s = site_of [x, y]"
      using xy by (simp add: skip_dots_def)
    ultimately show ?thesis unfolding s domain_three_labels[OF assms(1) xy refl] using ls snoc by (simp add: maindomain_def)
  qed
qed

lemma maindomain_suffix:
  assumes "maindomain d ls = Some ms"
  shows "suffix ms ls \<and> (\<exists>l l' r. ms = l # l' # r)"
proof -
  obtain y x r where ls: "ls = rev r @ [x, y]"
    using assms by (auto simp: maindomain_def rev_swap split: list.splits)
  show ?thesis using assms by (cases r) (auto simp: ls maindomain_def suffix_def split: if_splits)
qed

lemma trunk_of_labels:
  assumes "dlabel l" and "sz \<le> length blk"
  shows "get_trunk_from_domain (site_of (l # l' # r)) blk (int sz) =
    (if length l < sz then Some (0, l @ NUL # drop (Suc (length l)) blk) else Some (-1, blk))"
proof -
  have "takeWhile (\<lambda>c. c \<noteq> CHR ''.'') (l @ CHR ''.'' # l' @ dotted r) = l" using assms(1) by (auto simp: dlabel_def takeWhile_append)
  then show ?thesis using assms(2) by (simp add: get_trunk_from_domain_def Let_def)
qed

lemma fetch_with_labels:
  assumes "dict_ok d" and "list_all dlabel ls" and "2 \<le> length ls" and "guess_is_dotip2 (site_of ls) = 0" and "sz \<le> length blk"
  shows "let r = fetch_with d (site_of ls) (Some blk) sz recoveryMode;
      failed = (r = (if recoveryMode then recover (site_of ls) (Some blk) sz else Some (None, Some blk)))
    in case maindomain d ls of
      None \<Rightarrow> failed
    | Some ms \<Rightarrow> if length (hd ms) < sz
        then \<exists>k. r = Some (Some k, Some (hd ms @ NUL # drop (Suc (length (hd ms))) blk)) \<and> drop k (site_of ls) = site_of ms
        else failed"
proof (cases "maindomain d ls")
  case None
  then have "get_domain_from_site d (site_of ls) = None" using domain_text[OF assms(1-3)] by simp
  then have "ul_fetch_trunk_and_domain d (site_of ls) (Some blk) sz = Some (ILLEGAL_DOMAIN, None, Some blk)"
    using assms(4) by (simp add: ul_fetch_trunk_and_domain_def)
  then show ?thesis using None by (simp add: fetch_with_def url2_codes)
next
  case (Some ms)
  then obtain k where k: "get_domain_from_site d (site_of ls) = Some k" "drop (skip_dots (site_of ls) k) (site_of ls) = site_of ms"
    using domain_text[OF assms(1-3)] by auto
  obtain l l' r where ms: "ms = l # l' # r" "dlabel l"
    using maindomain_suffix[OF Some] assms(2) by (auto simp: suffix_def)
  have "get_trunk_from_domain (drop (skip_dots (site_of ls) k) (site_of ls)) blk (int sz) =
      (if length l < sz then Some (0, l @ NUL # drop (Suc (length l)) blk) else Some (-1, blk))"
    unfolding k(2) ms(1) by (rule trunk_of_labels[OF ms(2) assms(5)])
  then have "ul_fetch_trunk_and_domain d (site_of ls) (Some blk) sz = Some (if length l < sz
      then (SUCCESS, Some (skip_dots (site_of ls) k), Some (l @ NUL # drop (Suc (length l)) blk))
      else (TRUNK_BUFFER_SMALL, Some (skip_dots (site_of ls) k), Some blk))"
    using assms(4) k(1) by (simp add: ul_fetch_trunk_and_domain_def Let_def)
  then show ?thesis using Some k(2) ms(1) by (simp add: fetch_with_def url2_codes)
qed

text \<open>C14: the main domain of a site. For a well-formed dictionary and a site of at least two labels that is not four
  numbers, the domain returned is the last two labels, or the last three when the last two form a listed suffix, and the
  trunk is its first label. A site of two labels whose last one is not listed has no main domain; then, and when the
  trunk does not fit, the site itself is returned in recovery mode and a null pointer otherwise.\<close>

theorem fetch_maindomain_labels:
  assumes "dict_ok d" and "list_all dlabel ls" and "2 \<le> length ls" and "guess_is_dotip2 (site_of ls) = 0" and "sz \<le> length blk"
  shows "let r = ul_fetch_maindomain_ex2 (site_of ls) (Some blk) sz (Some d) recoveryMode;
      failed = (r = (if recoveryMode then recover (site_of ls) (Some blk) sz else Some (None, Some blk)))
    in case maindomain d ls of
      None \<Rightarrow> failed
    | Some ms \<Rightarrow> if length (hd ms) < sz
        then \<exists>k. r = Some (Some k, Some (hd ms @ NUL # drop (Suc (length (hd ms))) blk)) \<and> drop k (site_of ls) = site_of ms
        else failed"
  using fetch_with_labels[OF assms] by (simp add: ul_fetch_maindomain_ex2_def)

section \<open>The operations keep a dictionary well-formed\<close>

lemma map_push_keys: "set (map fst (map_push m k v)) = insert k (set (map fst m))"
  by (induction m k v rule: map_push.induct) auto

lemma map_push_sorted: "sorted_wrt (<) (map fst m) \<Longrightarrow> sorted_wrt (<) (map fst (map_push m k v))"
proof (induction m k v rule: map_push.induct)
  case (2 k' vs m k v)
  have "\<forall>x \<in> set (map fst (map_push m k v)). k' < x" if "k' < k"
    using 2(2) that map_push_keys[of m k v] by auto
  then show ?case using 2 by (auto simp: not_less_iff_gr_or_eq dest: less_trans)
qed simp

lemma map_push_lookup:
  "sorted_wrt (<) (map fst m) \<Longrightarrow> map_of (map_push m k v) k' =
    (if k' = k then Some ((case map_of m k of None \<Rightarrow> [] | Some vs \<Rightarrow> vs) @ [v]) else map_of m k')"
proof (induction m k v rule: map_push.induct)
  case (2 k0 vs m k v)
  have "map_of m k = None" if "k < k0" using 2(2) that by (auto simp: map_of_eq_None_iff dest: less_trans)
  then show ?case using 2 by auto
qed simp

lemma entry_ok_snoc: "entry_ok (k, vs @ [v]) \<longleftrightarrow> entry_ok (k, vs) \<and> entry_ok (k, [v])"
  by (auto simp: entry_ok_def)

lemma map_push_ok: "list_all entry_ok m \<Longrightarrow> entry_ok (k, [v]) \<Longrightarrow> list_all entry_ok (map_push m k v)"
  by (induction m k v rule: map_push.induct) (auto simp: entry_ok_snoc)

lemma entry_ok_stored: "dlabel y \<Longrightarrow> dlabel x \<Longrightarrow> entry_ok (stored [y], [stored [x, y]])"
  by (simp add: entry_ok_def one_label_def)

lemma push_all_ok:
  assumes "entry_ok (k, ss)" and "list_all entry_ok m" and "sorted_wrt (<) (map fst m)"
  shows "list_all entry_ok (push_all (k, ss) m) \<and> sorted_wrt (<) (map fst (push_all (k, ss) m))
    \<and> (\<forall>k'. map_of (push_all (k, ss) m) k' =
        (if k' = k \<and> ss \<noteq> [] then Some ((case map_of m k of None \<Rightarrow> [] | Some vs \<Rightarrow> vs) @ ss) else map_of m k'))"
  using assms
proof (induction ss arbitrary: m)
  case Nil
  then show ?case by (simp add: push_all_def)
next
  case (Cons s ss)
  have e: "entry_ok (k, ss)" "entry_ok (k, [s])" using Cons.prems(1) by (auto simp: entry_ok_def list_all_iff)
  have p: "push_all (k, s # ss) m = push_all (k, ss) (map_push m k s)" by (simp add: push_all_def)
  from Cons.IH[OF e(1) map_push_ok[OF Cons.prems(2) e(2)] map_push_sorted[OF Cons.prems(3)]] show ?case
    unfolding p by (simp add: map_push_lookup[OF Cons.prems(3)])
qed

lemma fold_push_all:
  assumes "list_all entry_ok dm" and "list_all entry_ok m" and "sorted_wrt (<) (map fst m)"
    and "distinct (map fst dm)" and "list_all (\<lambda>e. snd e \<noteq> []) dm" and "set (map fst dm) \<inter> set (map fst m) = {}"
  shows "list_all entry_ok (fold push_all dm m) \<and> sorted_wrt (<) (map fst (fold push_all dm m))
    \<and> map_of (fold push_all dm m) = map_of m ++ map_of dm"
  using assms
proof (induction dm arbitrary: m)
  case Nil
  then show ?case by simp
next
  case (Cons e dm)
  obtain k ss where e: "e = (k, ss)" by (cases e)
  have ok: "entry_ok (k, ss)" "ss \<noteq> []" using Cons.prems(1,5) e by simp_all
  have "map_of m k = None" using Cons.prems(6) e by (auto simp: map_of_eq_None_iff)
  then have l: "map_of (push_all (k, ss) m) = (map_of m)(k \<mapsto> ss)"
    using push_all_ok[OF ok(1) Cons.prems(2,3)] ok(2) by (intro ext) simp
  have "fst ` set (push_all (k, ss) m) = insert k (fst ` set m)"
    using l by (metis dom_fun_upd dom_map_of_conv_image_fst option.distinct(1))
  then have "set (map fst dm) \<inter> set (map fst (push_all (k, ss) m)) = {}"
    using Cons.prems(4,6) e by auto
  then have "list_all entry_ok (fold push_all dm (push_all (k, ss) m)) \<and> sorted_wrt (<) (map fst (fold push_all dm (push_all (k, ss) m)))
    \<and> map_of (fold push_all dm (push_all (k, ss) m)) = map_of (push_all (k, ss) m) ++ map_of dm"
    using Cons push_all_ok[OF ok(1) Cons.prems(2,3)] by simp
  moreover have "map_of dm k = None" using Cons.prems(4) e by (auto simp: map_of_eq_None_iff)
  ultimately show ?case by (auto simp: e l map_add_def fun_eq_iff split: option.splits)
qed

lemma default_tables_ok:
  "list_all one_label top_domain" "list_all one_label top_country" "list_all one_label general_2nd_domain"
  by code_simp+

lemma domain_map_ok: "list_all entry_ok domain_map" "distinct (map fst domain_map)" "list_all (\<lambda>e. snd e \<noteq> []) domain_map"
  by code_simp+

lemma default_dict_ok: "dict_ok (load_default new_dict)"
  using fold_push_all[OF domain_map_ok(1) _ _ domain_map_ok(2,3), of "[]"] default_tables_ok
  by (simp add: dict_ok_def load_default_def new_dict_def)

lemma default_dict_lookup: "map_of (get_country_domain_map (load_default new_dict)) = map_of domain_map"
  using fold_push_all[OF domain_map_ok(1) _ _ domain_map_ok(2,3), of "[]"] by (simp add: load_default_def new_dict_def)

lemma default_maindomain_cn: "maindomain (load_default new_dict) [''www'', ''baidu'', ''com'', ''cn''] = Some [''baidu'', ''com'', ''cn'']"
proof -
  have t: "get_top_domain (load_default new_dict) = top_domain" "get_top_country (load_default new_dict) = top_country"
    "get_general_2nd_domain (load_default new_dict) = general_2nd_domain" by (simp_all add: load_default_def new_dict_def)
  have "stored [''cn''] \<notin> set top_domain" by code_simp
  moreover have "stored [''cn''] \<in> set top_country" "stored [''com''] \<in> set general_2nd_domain" by code_simp+
  ultimately have "listed2 (load_default new_dict) ''com'' ''cn''" unfolding listed2_def default_dict_lookup t by blast
  then show ?thesis by (simp add: maindomain_def)
qed

theorem fetch_maindomain_labels_witness:
  "\<exists>k. ul_fetch_maindomain_ex2 (site_of [''www'', ''baidu'', ''com'', ''cn'']) (Some (replicate 8 NUL)) 8 (Some (load_default new_dict)) True
      = Some (Some k, Some (''baidu'' @ NUL # replicate 2 NUL)) \<and> drop k ''www.baidu.com.cn'' = ''baidu.com.cn''"
proof -
  have "guess_is_dotip2 (site_of [''www'', ''baidu'', ''com'', ''cn'']) = 0" "list_all dlabel [''www'', ''baidu'', ''com'', ''cn'']"
    by code_simp+
  then show ?thesis
    using fetch_maindomain_labels[OF default_dict_ok, of "[''www'', ''baidu'', ''com'', ''cn'']" 8 "replicate 8 NUL" True] default_maindomain_cn
    by simp
qed

end
