(* ===== verification/Url_Domain_File.thy ===== *)
theory Url_Domain_File
  imports Url_Domain
begin

text \<open>
  The file format of domain dictionaries and the sites that are addresses, of \<^verbatim>\<open>ullib/src/ul_url2.cpp\<close>: a dictionary that
  is written as the driver at the end of the source writes it is read back, a file with a malformed line is loaded up to
  that line, and \<open>ul_normalize_site_ip\<close> prints the four numbers of an address, whatever the base they are written in.
\<close>

section \<open>Printing a dictionary\<close>

definition dict_lines :: "cstr list \<Rightarrow> cstr list \<Rightarrow> cstr list \<Rightarrow> (cstr \<times> cstr list) list \<Rightarrow> cstr list" where
  \<comment> \<open>the lines that the driver prints for the four tables\<close>
  "dict_lines tds tcs gds dm =
     ''# top domain'' # map (\<lambda>p. ''td '' @ rev p) tds @ []
     # ''# top country'' # map (\<lambda>p. ''tc '' @ rev p) tcs @ []
     # ''# general 2nd domain'' # map (\<lambda>p. ''2nd '' @ rev p) gds @ []
     # ''# country domain''
     # concat (map (\<lambda>e. map (\<lambda>p. ''cd '' @ rev (fst e) @ '' '' @ rev (drop (length (fst e)) p)) (snd e)) dm) @ [[]]"

definition dict_main :: "cstr list \<Rightarrow> cstr list \<Rightarrow> cstr list \<Rightarrow> (cstr \<times> cstr list) list \<Rightarrow> cstr" where
  "dict_main tds tcs gds dm = concat (map (\<lambda>l. l @ [LF]) (dict_lines tds tcs gds dm))"

section \<open>Reading it back\<close>

definition plain_word :: "cstr \<Rightarrow> bool" where
  "plain_word w \<longleftrightarrow> w \<noteq> [] \<and> list_all (\<lambda>c. \<not> isspace c \<and> c \<noteq> NUL) w"

lemma plain_word_rev [simp]: "plain_word (rev w) \<longleftrightarrow> plain_word w"
  by (simp add: plain_word_def list_all_iff)

lemma c_str_plain [simp]: "plain_word w \<Longrightarrow> c_str w = w"
  unfolding c_str_def by (rule takeWhile_eq_all_conv[THEN iffD2]) (auto simp: plain_word_def list_all_iff)

lemma scan_word_plain:
  assumes "plain_word w" and "r = [] \<or> isspace (hd r)"
  shows "scan_word (w @ r) = (w, r)"
proof -
  have "\<forall>c \<in> set w. \<not> isspace c" "w \<noteq> []" using assms(1) by (auto simp: plain_word_def list_all_iff)
  moreover have "dropWhile isspace (w @ r) = w @ r" using calculation by (cases w) auto
  ultimately show ?thesis using assms(2) by (cases r) (simp_all add: scan_word_def Let_def)
qed

lemma scan_word_space [simp]: "scan_word (CHR '' '' # s) = scan_word s" "scan_word [] = ([], [])"
  by (simp_all add: scan_word_def)

lemma plain_words [simp]: "plain_word ''td''" "plain_word ''tc''" "plain_word ''2nd''" "plain_word ''cd''" "plain_word ''#''"
  by code_simp+

lemma scan_key:
  "scan_word (''td '' @ r) = (''td'', CHR '' '' # r)" "scan_word (''tc '' @ r) = (''tc'', CHR '' '' # r)"
  "scan_word (''2nd '' @ r) = (''2nd'', CHR '' '' # r)" "scan_word (''cd '' @ r) = (''cd'', CHR '' '' # r)"
  "scan_word (''# '' @ r) = (''#'', CHR '' '' # r)"
  using scan_word_plain[of "''td''" "CHR '' '' # r"] scan_word_plain[of "''tc''" "CHR '' '' # r"]
    scan_word_plain[of "''2nd''" "CHR '' '' # r"] scan_word_plain[of "''cd''" "CHR '' '' # r"] scan_word_plain[of "''#''" "CHR '' '' # r"]
  by simp_all

lemma readline_entry:
  assumes "plain_word w"
  shows "readline (''td '' @ w) d = (True, add_top_domain w d)" "readline (''tc '' @ w) d = (True, add_top_country w d)"
    "readline (''2nd '' @ w) d = (True, add_general_2nd_domain w d)"
  unfolding readline_def scan_key prod.case scan_word_space scan_word_plain[OF assms, of "[]", simplified]
  using assms by (simp_all add: plain_word_def)

lemma readline_country:
  assumes "plain_word s" and "plain_word w"
  shows "readline (''cd '' @ s @ '' '' @ w) d = (True, add_country_domain s w d)"
proof -
  have "scan_word (s @ '' '' @ w) = (s, CHR '' '' # w)" using scan_word_plain[OF assms(1), of "CHR '' '' # w"] by simp
  moreover have "s \<noteq> []" "w \<noteq> []" using assms by (simp_all add: plain_word_def)
  ultimately show ?thesis
    using assms by (simp add: readline_def scan_key(4)[simplified] scan_word_plain[OF assms(2), of "[]", simplified])
qed

lemma readline_skip: "readline [] d = (True, d)" "readline (''# '' @ r) d = (True, d)"
  by (simp_all add: readline_def scan_key(5)[simplified] split: prod.split)

lemma load_lines_append:
  "load_lines (ls @ ms) d = (case load_lines ls d of (r, d') \<Rightarrow> if r = SUCCESS then load_lines ms d' else (r, d'))"
  by (induction ls arbitrary: d) (auto simp: url2_codes split: prod.splits)

lemma load_entries:
  assumes "list_all plain_word ps"
  shows "load_lines (map (\<lambda>p. ''td '' @ rev p) ps) d = (SUCCESS, d\<lparr>get_top_domain := get_top_domain d @ ps\<rparr>)"
    "load_lines (map (\<lambda>p. ''tc '' @ rev p) ps) d = (SUCCESS, d\<lparr>get_top_country := get_top_country d @ ps\<rparr>)"
    "load_lines (map (\<lambda>p. ''2nd '' @ rev p) ps) d = (SUCCESS, d\<lparr>get_general_2nd_domain := get_general_2nd_domain d @ ps\<rparr>)"
  using assms
  by (induction ps arbitrary: d)
    (simp_all add: readline_entry[simplified] add_top_domain_def add_top_country_def add_general_2nd_domain_def)

lemma map_push_new: "\<forall>x \<in> set (map fst m). x < k \<Longrightarrow> map_push m k v = m @ [(k, [v])]"
  by (induction m) (auto dest: less_asym)

lemma map_push_last: "\<forall>x \<in> set (map fst m). x < k \<Longrightarrow> map_push (m @ [(k, vs)]) k v = m @ [(k, vs @ [v])]"
  by (induction m) (auto dest: less_asym)

lemma push_all_last:
  "\<forall>x \<in> set (map fst m). x < k \<Longrightarrow> fold (\<lambda>y m'. map_push m' k y) ss (m @ [(k, vs)]) = m @ [(k, vs @ ss)]"
  by (induction ss arbitrary: vs) (simp_all add: map_push_last)

lemma push_all_new:
  assumes "\<forall>x \<in> set (map fst m). x < k" and "ss \<noteq> []"
  shows "push_all (k, ss) m = m @ [(k, ss)]"
  using assms by (cases ss) (simp_all add: push_all_def map_push_new push_all_last)

lemma fold_push_all_new:
  "sorted_wrt (<) (map fst (m @ dm)) \<Longrightarrow> list_all (\<lambda>e. snd e \<noteq> []) dm \<Longrightarrow> fold push_all dm m = m @ dm"
proof (induction dm arbitrary: m)
  case (Cons e dm)
  then have "push_all (fst e, snd e) m = m @ [(fst e, snd e)]" by (intro push_all_new) (auto simp: sorted_wrt_append)
  then show ?case using Cons.IH[of "m @ [e]"] Cons.prems by simp
qed simp

definition printable_entry :: "cstr \<times> cstr list \<Rightarrow> bool" where
  \<comment> \<open>what a line can hold: words, and the suffixes extend the key\<close>
  "printable_entry e \<longleftrightarrow> plain_word (fst e) \<and> snd e \<noteq> []
     \<and> list_all (\<lambda>p. prefix (fst e) p \<and> plain_word (drop (length (fst e)) p)) (snd e)"

lemma load_country:
  assumes "plain_word k" and "list_all (\<lambda>p. prefix k p \<and> plain_word (drop (length k) p)) ss"
  shows "load_lines (map (\<lambda>p. ''cd '' @ rev k @ '' '' @ rev (drop (length k) p)) ss) d
    = (SUCCESS, d\<lparr>get_country_domain_map := push_all (k, ss) (get_country_domain_map d)\<rparr>)"
  using assms(2)
proof (induction ss arbitrary: d)
  case Nil
  then show ?case by (simp add: push_all_def)
next
  case (Cons p ss)
  then obtain q where q: "p = k @ q" "plain_word q" by (auto simp: prefix_def)
  have "readline (''cd '' @ rev k @ '' '' @ rev (drop (length k) p)) d = (True, add_country_domain (rev k) (rev q) d)"
    using readline_country[of "rev k" "rev q" d] q assms(1) by simp
  then show ?case using Cons q by (simp add: add_country_domain_def push_all_def)
qed

lemma load_countries:
  "list_all printable_entry dm \<Longrightarrow>
   load_lines (concat (map (\<lambda>e. map (\<lambda>p. ''cd '' @ rev (fst e) @ '' '' @ rev (drop (length (fst e)) p)) (snd e)) dm)) d
    = (SUCCESS, d\<lparr>get_country_domain_map := fold push_all dm (get_country_domain_map d)\<rparr>)"
  by (induction dm arbitrary: d) (simp_all add: load_lines_append load_country[simplified] printable_entry_def)

lemma getlines_line:
  assumes "LF \<notin> set l"
  shows "getlines (l @ LF # s) = l # getlines s"
proof (cases l)
  case (Cons c t)
  have "takeWhile (\<lambda>c. c \<noteq> LF) (l @ LF # s) = l" using assms by (subst takeWhile_append2) auto
  moreover have "dropWhile (\<lambda>c. c \<noteq> LF) (t @ LF # s) = LF # s" using assms Cons by (subst dropWhile_append2) auto
  ultimately show ?thesis using assms Cons by (auto simp del: takeWhile.simps dropWhile.simps)
qed simp

lemma getlines_lines: "list_all (\<lambda>l. LF \<notin> set l) ls \<Longrightarrow> getlines (concat (map (\<lambda>l. l @ [LF]) ls)) = ls"
  by (induction ls) (simp_all add: getlines_line del: getlines.simps(2))

definition printable_dict :: "DomainDict \<Rightarrow> bool" where
  "printable_dict d \<longleftrightarrow> list_all plain_word (get_top_domain d) \<and> list_all plain_word (get_top_country d)
     \<and> list_all plain_word (get_general_2nd_domain d) \<and> list_all printable_entry (get_country_domain_map d)
     \<and> sorted_wrt (<) (map fst (get_country_domain_map d))"

lemma plain_word_LF: "plain_word w \<Longrightarrow> LF \<notin> set w"
proof -
  have "isspace LF" by (simp add: isspace_def)
  then show "plain_word w \<Longrightarrow> LF \<notin> set w" unfolding plain_word_def list_all_iff by blast
qed

lemma dict_lines_LF:
  assumes "printable_dict d"
  shows "list_all (\<lambda>l. LF \<notin> set l) (dict_lines (get_top_domain d) (get_top_country d) (get_general_2nd_domain d) (get_country_domain_map d))"
proof -
  have w: "\<forall>p \<in> set (get_top_domain d) \<union> set (get_top_country d) \<union> set (get_general_2nd_domain d). LF \<notin> set p"
    using assms by (auto simp: printable_dict_def list_all_iff dest: plain_word_LF)
  have e: "\<forall>e \<in> set (get_country_domain_map d). LF \<notin> set (fst e) \<and> (\<forall>p \<in> set (snd e). LF \<notin> set (drop (length (fst e)) p))"
    using assms plain_word_LF unfolding printable_dict_def printable_entry_def list_all_iff by blast
  have "\<forall>l \<in> set (concat (map (\<lambda>e. map (\<lambda>p. ''cd '' @ rev (fst e) @ '' '' @ rev (drop (length (fst e)) p)) (snd e)) (get_country_domain_map d))). LF \<notin> set l"
    using e by auto
  then show ?thesis using w by (auto simp: dict_lines_def list_all_iff)
qed

text \<open>A dictionary written in the format of the files, line by line as the driver prints it, is read back by
  \<open>load_file\<close>: it returns \<open>SUCCESS\<close> and the fresh dictionary then has the same suffixes in the same order.\<close>

theorem dict_file_roundtrip:
  assumes "printable_dict d" and "file_name \<noteq> []"
    and "fs (if path = [] then file_name else path @ ''/'' @ file_name)
      = Some (dict_main (get_top_domain d) (get_top_country d) (get_general_2nd_domain d) (get_country_domain_map d))"
  shows "load_file fs (Some path) (Some file_name) new_dict = (SUCCESS, d)"
proof -
  have ok: "list_all plain_word (get_top_domain d)" "list_all plain_word (get_top_country d)"
    "list_all plain_word (get_general_2nd_domain d)" "list_all printable_entry (get_country_domain_map d)"
    "sorted_wrt (<) (map fst (get_country_domain_map d))"
    using assms(1) by (simp_all add: printable_dict_def)
  have "list_all (\<lambda>e. snd e \<noteq> []) (get_country_domain_map d)"
    using ok(4) by (auto simp: list_all_iff printable_entry_def)
  then have m: "fold push_all (get_country_domain_map d) [] = get_country_domain_map d" using fold_push_all_new[of "[]"] ok(5) by simp
  have skip: "load_lines (l # ls) c = load_lines ls c" if "l = [] \<or> (\<exists>r. l = ''# '' @ r)" for l ls c
    using that by (auto simp: readline_skip[simplified])
  have "load_lines (dict_lines (get_top_domain d) (get_top_country d) (get_general_2nd_domain d) (get_country_domain_map d)) new_dict
    = (SUCCESS, d)"
    unfolding dict_lines_def
    by (simp del: load_lines.simps(2) map_append
        add: skip load_lines_append load_entries[OF ok(1), simplified] load_entries[OF ok(2), simplified]
          load_entries[OF ok(3), simplified] load_countries[OF ok(4), simplified])
      (simp add: new_dict_def m)
  then show ?thesis
    using assms(2,3) getlines_lines[OF dict_lines_LF[OF assms(1)]] by (simp add: load_file_def dict_main_def)
qed

definition sample_dict :: DomainDict where
  "sample_dict = \<lparr>get_top_domain = [rev ''.com'', rev ''.org''], get_top_country = [rev ''.cn''], get_general_2nd_domain = [rev ''.net''],
     get_country_domain_map = [(rev ''.cn'', [rev ''.bj.cn'', rev ''.jx.cn''])]\<rparr>"

theorem dict_file_roundtrip_witness:
  "load_file [''conf/dict'' \<mapsto> dict_main (get_top_domain sample_dict) (get_top_country sample_dict)
      (get_general_2nd_domain sample_dict) (get_country_domain_map sample_dict)] (Some ''conf'') (Some ''dict'') new_dict
    = (SUCCESS, sample_dict)"
proof -
  have "printable_dict sample_dict" by code_simp
  then show ?thesis using dict_file_roundtrip[of sample_dict "''dict''" _ "''conf''"] by simp
qed

section \<open>Addresses\<close>

fun horner :: "int \<Rightarrow> int \<Rightarrow> cstr \<Rightarrow> int" where
  "horner b v [] = v"
| "horner b v (c # cs) = horner b (v * b + the (digit_in b c)) cs"

definition part_digits :: "cstr \<Rightarrow> int \<times> cstr" where
  \<comment> \<open>the base and the digits of a number\<close>
  "part_digits p = (if prefix ''0x'' p \<or> prefix ''0X'' p then (16, drop 2 p) else if prefix ''0'' p then (8, drop 1 p) else (10, p))"

definition part_value :: "cstr \<Rightarrow> int option" where
  \<comment> \<open>the number that a part of an address denotes\<close>
  "part_value p = (case part_digits p of (b, ds) \<Rightarrow>
     if list_all (\<lambda>c. digit_in b c \<noteq> None) ds \<and> horner b 0 ds < 256 then Some (horner b 0 ds) else None)"

lemma digit_in_nonneg: "digit_in b c = Some v \<Longrightarrow> 0 \<le> v"
  by (auto simp: digit_in_def Let_def split: if_splits)

lemma horner_ge: "0 \<le> v \<Longrightarrow> 1 \<le> b \<Longrightarrow> list_all (\<lambda>c. digit_in b c \<noteq> None) cs \<Longrightarrow> v \<le> horner b v cs"
proof (induction cs arbitrary: v)
  case (Cons c cs)
  then obtain dv where dv: "digit_in b c = Some dv" "0 \<le> dv" using digit_in_nonneg by auto
  have "v \<le> v * b" using Cons.prems(1,2) by (simp add: mult_le_cancel_left1)
  then have "v \<le> v * b + dv" using dv(2) by simp
  also have "\<dots> \<le> horner b (v * b + dv) cs" using Cons dv by auto
  finally show ?case using dv by simp
qed simp

lemma value_loop_spec:
  assumes "endc \<notin> set cs" and "r = [] \<and> endc = NUL \<or> (\<exists>s. r = endc # s)" and "0 \<le> v" and "1 \<le> b" and "v < 256"
  shows "value_loop b endc v (cs @ r) = (if list_all (\<lambda>c. digit_in b c \<noteq> None) cs \<and> horner b v cs < 256 then horner b v cs else -1)"
  using assms(1,3,5)
proof (induction cs arbitrary: v)
  case Nil
  then show ?case using assms(2) by auto
next
  case (Cons c cs)
  show ?case
  proof (cases "digit_in b c")
    case None
    then show ?thesis using Cons by auto
  next
    case (Some dv)
    then have d: "0 \<le> v * b + dv" using digit_in_nonneg[OF Some] Cons.prems(2) assms(4) by simp
    show ?thesis
    proof (cases "256 \<le> v * b + dv")
      case True
      then have "\<not> (list_all (\<lambda>c. digit_in b c \<noteq> None) cs \<and> horner b (v * b + dv) cs < 256)"
        using horner_ge[OF d assms(4), of cs] by auto
      then show ?thesis using Cons.prems Some True by (auto simp: ILLEGAL_IP_def)
    next
      case False
      then show ?thesis using Cons Some d by auto
    qed
  qed
qed

lemma get_value_spec:
  assumes "endc \<notin> set p" and "r = [] \<and> endc = NUL \<or> r \<noteq> [] \<and> hd r = endc" and "endc \<notin> {CHR ''0'', CHR ''x'', CHR ''X''}"
  shows "get_value (p @ r) endc = (case part_value p of Some v \<Rightarrow> v | None \<Rightarrow> -1)"
proof -
  have r: "r = [] \<and> endc = NUL \<or> (\<exists>s. r = endc # s)" using assms(2) by (cases r) auto
  note loop = value_loop_spec[OF _ r, of _ 0]
  have x: "r \<noteq> [] \<Longrightarrow> hd r \<noteq> CHR ''0'' \<and> hd r \<noteq> CHR ''x'' \<and> hd r \<noteq> CHR ''X''" using assms(2,3) by auto
  consider (hex) q h where "p = CHR ''0'' # h # q" "h = CHR ''x'' \<or> h = CHR ''X''" | (oct) q where "p = CHR ''0'' # q" "\<not> (q \<noteq> [] \<and> (hd q = CHR ''x'' \<or> hd q = CHR ''X''))"
    | (dec) "p = [] \<or> hd p \<noteq> CHR ''0''"
    by (cases p; cases "tl p") auto
  then show ?thesis
  proof cases
    case hex
    then show ?thesis using loop[of q 16] assms(1) by (auto simp: get_value_def part_value_def part_digits_def)
  next
    case oct
    then show ?thesis using loop[of q 8] assms(1) x
      by (cases q; cases r) (auto simp: get_value_def part_value_def part_digits_def)
  next
    case dec
    then show ?thesis using loop[of p 10] assms(1) x
      by (cases p; cases r) (auto simp: get_value_def part_value_def part_digits_def)
  qed
qed

definition part_ok :: "cstr \<Rightarrow> bool" where
  \<comment> \<open>the characters that numbers in base 8, 10 and 16 are made of\<close>
  "part_ok p \<longleftrightarrow> list_all (\<lambda>c. is_legal_char c \<and> c \<noteq> CHR ''.'') p"

lemma part_ok_chars: "part_ok p \<Longrightarrow> CHR ''.'' \<notin> set p \<and> NUL \<notin> set p"
proof -
  have "\<not> is_legal_char NUL" by code_simp
  then show "part_ok p \<Longrightarrow> CHR ''.'' \<notin> set p \<and> NUL \<notin> set p" unfolding part_ok_def list_all_iff by blast
qed

lemma part_value_nonneg: "part_value p = Some v \<Longrightarrow> 0 \<le> v \<and> v < 256"
  using horner_ge[of 0 "fst (part_digits p)" "snd (part_digits p)"]
  by (auto simp: part_value_def part_digits_def split: if_splits prod.splits)

lemma dotip_loop_spec:
  "dotip_loop legal n s = (if list_all legal s \<and> n + length (filter (\<lambda>c. c = CHR ''.'') s) = 3 then 1 else 0)"
  by (induction legal n s rule: dotip_loop.induct) auto

lemma dots_of_parts:
  assumes "list_all part_ok ps"
  shows "list_all is_legal_char (dotted ps) \<and> length (filter (\<lambda>c. c = CHR ''.'') (dotted ps)) = length ps"
  using assms
proof (induction ps)
  case (Cons p ps)
  have "filter (\<lambda>c. c = CHR ''.'') p = []" using Cons.prems by (auto simp: part_ok_def list_all_iff filter_empty_conv)
  moreover have "is_legal_char CHR ''.''" by code_simp
  ultimately show ?case using Cons by (auto simp: part_ok_def list_all_iff)
qed simp

lemma guess_is_dotip_parts:
  assumes "list_all part_ok ps" and "length ps = 4"
  shows "guess_is_dotip (site_of ps) = 1"
proof -
  obtain p qs where ps: "ps = p # qs" using assms(2) by (cases ps) auto
  have "list_all is_legal_char (dotted ps)" "length (filter (\<lambda>c. c = CHR ''.'') (dotted ps)) = 4"
    using dots_of_parts[OF assms(1)] assms(2) by auto
  then show ?thesis by (simp add: guess_is_dotip_def dotip_loop_spec ps)
qed

lemma ip_loop_parts:
  assumes "list_all part_ok (p # ps)"
  shows "ip_loop tmp (p @ dotted ps) = (case those (map part_value (p # ps)) of
      None \<Rightarrow> Not_ip
    | Some vs \<Rightarrow> Is_ip (tmp @ site_of (map dec_int vs)))"
  using assms
proof (induction ps arbitrary: tmp p)
  case Nil
  then have c: "CHR ''.'' \<notin> set p" "NUL \<notin> set p" using part_ok_chars by auto
  then have "strchr p CHR ''.'' = None" "get_value (p @ []) NUL = (case part_value p of Some v \<Rightarrow> v | None \<Rightarrow> -1)"
    by (simp add: strchr_None_iff, intro get_value_spec) auto
  then show ?case
    by (subst ip_loop.simps) (auto simp: Let_def ILLEGAL_IP_def split: option.split dest: part_value_nonneg)
next
  case (Cons q ps)
  then have c: "CHR ''.'' \<notin> set p" using part_ok_chars by auto
  have "strchr (p @ dotted (q # ps)) CHR ''.'' = Some (length p)" using c by (simp add: strchr_append)
  moreover have "get_value (p @ dotted (q # ps)) CHR ''.'' = (case part_value p of Some v \<Rightarrow> v | None \<Rightarrow> -1)"
    using c by (intro get_value_spec) auto
  moreover have "drop (Suc (length p)) (p @ dotted (q # ps)) = q @ dotted ps" by simp
  ultimately show ?case using Cons.IH[of q] Cons.prems
    by (subst ip_loop.simps) (auto simp: Let_def ILLEGAL_IP_def split: option.split dest: part_value_nonneg)
qed

text \<open>\<open>ul_normalize_site_ip\<close> on four parts made of digits, hexadecimal digits and the letter x: when every part denotes a
  number below 256, decimal, octal behind 0 or hexadecimal behind 0x, the result is the four numbers in decimal;
  otherwise it is the site itself.\<close>

theorem normalize_site_ip_correct:
  assumes "list_all part_ok ps" and "length ps = 4"
  shows "ul_normalize_site_ip (site_of ps) result result_size =
    print_site (case those (map part_value ps) of Some vs \<Rightarrow> site_of (map dec_int vs) | None \<Rightarrow> site_of ps) result result_size"
proof -
  obtain p qs where ps: "ps = p # qs" using assms(2) by (cases ps) auto
  have "ip_loop [] (site_of ps) = (case those (map part_value ps) of None \<Rightarrow> Not_ip | Some vs \<Rightarrow> Is_ip (site_of (map dec_int vs)))"
    using ip_loop_parts[of p qs "[]"] assms(1) ps by (simp cong: option.case_cong)
  then show ?thesis using guess_is_dotip_parts[OF assms] by (simp add: ul_normalize_site_ip_def split: option.split)
qed

theorem normalize_site_ip_correct_witness:
  "ul_normalize_site_ip ''0x7F.0.012.1'' (replicate 16 NUL) 16 = Some (SUCCESS, ''127.0.10.1'' @ NUL # replicate 5 NUL)"
proof -
  have ok: "list_all part_ok [''0x7F'', ''0'', ''012'', ''1'']" by code_simp
  have v: "those (map part_value [''0x7F'', ''0'', ''012'', ''1'']) = Some [127, 0, 10, 1]" by code_simp
  have t: "site_of (map dec_int [127, 0, 10, 1]) = ''127.0.10.1''" by code_simp
  show ?thesis
    using normalize_site_ip_correct[OF ok, of "replicate 16 NUL" 16] unfolding v option.case t
    by (simp add: print_site_def snprintf_block_def url2_codes)
qed

text \<open>The value -1 of \<open>get_value\<close> is tested before \<open>ILLEGAL_IP\<close>, which is -1 too, so that it is never returned: a site of four
  numbers with one that is too large is passed on as if it was a name.\<close>

lemma illegal_ip_not_returned: "ul_normalize_site_ip site result result_size = Some (r, b) \<Longrightarrow> r \<noteq> ILLEGAL_IP"
proof -
  have ip: "ip_loop tmp s \<noteq> Return k" for tmp s k
    by (induction tmp s rule: ip_loop.induct) (subst ip_loop.simps, auto simp: Let_def ILLEGAL_IP_def split: option.split)
  assume "ul_normalize_site_ip site result result_size = Some (r, b)"
  then show "r \<noteq> ILLEGAL_IP"
    using ip[of "[]" site] by (auto simp: ul_normalize_site_ip_def print_site_def url2_codes split: if_splits ip_result.splits)
qed

end
