(* ===== verification/Spec2Isabelle.thy ===== *)
theory Spec2Isabelle
  imports Ul_Com_Category Ul_Htmltag Ul_Http_Item Ul_Links Ul_Circle Url_Normalize Ul_Lines Ul_Vectors Ul_Access Ul_Conf_Files Ul_Argu Url_Domain_File
begin

text \<open>
  A verification of ullib, the C++ base library under \<^verbatim>\<open>src/ullib\<close>.

  \<^bold>\<open>The program.\<close> ullib is a library of independent components that the programs of one company share: functions on URLs,
  strings, a ring buffer, packages of name and value pairs that are sent over sockets, configuration files, command line
  arguments, wrappers of sockets, threads and files, and logging. The components below are the ones that compute something of
  their own; the rest of the repository is exercises, scripts and copies of other projects.

  \<^bold>\<open>How the components depend on each other.\<close> The URL functions call each other: \<open>ul_normalize_url\<close> splits with \<open>ul_parse_url\<close>, then
  normalises the parts with \<open>ul_normalize_site\<close>, \<open>ul_normalize_port\<close>, \<open>ul_single_path\<close> and \<open>ul_normalize_path\<close>, and \<open>ul_isnormalized_url\<close>
  recognises the result. The site that comes out is what \<open>ul_fetch_maindomain_ex\<close> is called with. Packages in memory are the
  payload of packages on a socket, which use the read and write loops of \<open>ul_net1.cpp\<close>; the readers of lines run over the same
  model of a connection. The access list of a server is an item of its configuration file. Configuration files and command line
  arguments copy with \<open>ul_strlcpy\<close>. The links of a page are resolved with the functions on URLs. A page is fetched from the site and
  path that \<open>ul_parse_url\<close> finds, with the older readers of lines on a connection, and goes through the decoder of chunks.

  \<^bold>\<open>Theories and sources.\<close>

  \<^item> \<^verbatim>\<open>Ul_Prelude\<close>: C strings as the list of the bytes in front of the terminator, the functions of the C library that the sources
    call (\<open>strchr\<close>, \<open>strstr\<close>, \<open>strncmp\<close>, \<open>atoi\<close>, \<open>snprintf\<close>, \<open>sscanf\<close> and others), the conversions of integers, and the lemmas on them.
  \<^item> \<^verbatim>\<open>Url_Tables\<close>: the character tables and buffer sizes of \<^verbatim>\<open>ul_url.cpp\<close> and \<^verbatim>\<open>ul_url.h\<close>, all 256 entries of every table, and the
    classes of characters they describe.
  \<^item> \<^verbatim>\<open>Url_Path\<close>: the escapes of a path (\<open>ul_delete_inter\<close>, \<open>ul_space_escape\<close>, \<open>ul_to_char\<close>, the family of \<open>ul_single_path\<close>). Shown: what is
    accepted, that the octets a path stands for are kept, that the result is clean and fits in place, and when it is stable.
  \<^item> \<^verbatim>\<open>Url_Dots\<close>: dot segments (\<open>replace_slash\<close>, the family of \<open>ul_normalize_path\<close>). Shown: the loop over pointers implements the resolution
    of a list of segments; its result is clean, no longer than the path, and stable.
  \<^item> \<^verbatim>\<open>Url_Parse\<close>: splitting (\<open>ul_parse_url\<close> and its variants, the accessors, \<open>ul_get_static_part\<close>, \<open>ul_isdyn\<close>). Shown: the parts make up the
    URL again, and no buffer is overrun.
  \<^item> \<^verbatim>\<open>Url_Site\<close>: names of sites and ports (\<open>check_hostname\<close>, the ignore list, \<open>ul_fetch_trunk\<close>, \<open>ul_fetch_maindomain\<close>, \<open>ul_normalize_site\<close>,
    \<open>ul_normalize_port\<close>). \<open>inet_addr\<close> is a parameter. Shown: the form of the results, and that the binary search finds exactly the listed labels.
  \<^item> \<^verbatim>\<open>Url_Check\<close>: \<open>ul_check_url\<close> and \<open>ul_isnormalized_url\<close> with their variants. Shown: the language that \<open>ul_isnormalized_url\<close> accepts, the
    form of what \<open>ul_check_url\<close> leaves, and that it is stable.
  \<^item> \<^verbatim>\<open>Url_Normalize\<close>: the four \<open>ul_normalize_url\<close>. Shown: whatever the URL, they return without overrun, and what they accept is
    recognised by \<open>ul_isnormalized_url\<close>.
  \<^item> \<^verbatim>\<open>Url_Domain_Tables\<close>, \<^verbatim>\<open>Url_Domain\<close>, \<^verbatim>\<open>Url_Domain_File\<close>: \<^verbatim>\<open>ul_url2.cpp\<close> and \<^verbatim>\<open>ul_url2_inl.cc\<close>, the class \<open>DomainDict\<close>, the search for the main
    domain of a site and the normal form of addresses. Shown: the search on reversed suffixes finds the main domain in terms of labels,
    the built-in tables are well-formed and the operations keep a dictionary so, a dictionary comes back from its file, and
    addresses are printed in decimal.
  \<^item> \<^verbatim>\<open>Ul_Circle\<close>: the ring buffer of \<^verbatim>\<open>ul_circle.cpp\<close>. The contract of a bounded queue is a locale; its interpretation on the ring gives that
    any sequence of operations delivers the accepted bytes in their order.
  \<^item> \<^verbatim>\<open>Ul_String\<close>: \<^verbatim>\<open>ul_string.cpp\<close>. Shown: what is copied, that the buffers are respected, and how words are taken from a text.
  \<^item> \<^verbatim>\<open>Ul_Pack\<close>: packages of \<^verbatim>\<open>ul_pack.cpp\<close> and their text form in memory. The contract of a key-value store is a locale; its
    interpretation gives that a package represents a map. Shown: return codes, and that a serialised package is read back.
  \<^item> \<^verbatim>\<open>Ul_Pack_Io\<close>: packages on a socket, of \<^verbatim>\<open>ul_pack.cpp\<close>, \<^verbatim>\<open>dep/dep_pack.cpp\<close> and \<^verbatim>\<open>ul_net1.cpp\<close>. Two locales, a source and a sink of bytes, are
    interpreted on the blocking and on the polling loops. Shown: packages arrive in order however the stream is cut, the writers
    agree, and after a rejected package the reader stands behind an end mark.
  \<^item> \<^verbatim>\<open>Ul_Conf\<close>, \<^verbatim>\<open>Ul_Conf_Files\<close>: configuration files of \<^verbatim>\<open>ul_conf.cpp\<close>. Shown: items and numbers come back from the table and from files,
    and included files add items without overriding any.
  \<^item> \<^verbatim>\<open>Ul_Access\<close>: the access list of a server, of \<^verbatim>\<open>ul_net1.cpp\<close> (\<open>ul_read_ipaccess_grant\<close>, \<open>is_ip_allowed\<close>, \<open>ul_accept\<close>). Shown: from the
    configuration to the connection, exactly the peers that fit a pattern get in, and every other descriptor is closed.
  \<^item> \<^verbatim>\<open>Ul_Lines\<close>: reading a number of bytes and reading lines, of \<^verbatim>\<open>ul_net1.cpp\<close> (\<open>ul_sreado_ms_ex\<close>, \<open>ul_readlineo_ms\<close>,
    \<open>ul_readline_speedo_ms_ex\<close>). A locale states what a source of characters and a loop over it promise; it is interpreted on both readers. Shown:
    they deliver the same lines however the stream is cut.
  \<^item> \<^verbatim>\<open>Ul_Vectors\<close>: transfers with a time limit, of \<^verbatim>\<open>ul_net1.cpp\<close> (\<open>ul_sreadv_ms\<close>, \<open>ul_swritev_ms\<close>, \<open>ul_sreado_ms_ex2\<close>,
    \<open>ul_swriteo_ms_ex2\<close>). Shown: bounds, order and number of the bytes that move, the options of the socket afterwards, when a transfer
    completes, and that one buffer is a vector of one.
  \<^item> \<^verbatim>\<open>Ul_Htmltag\<close>: the tags of a page, of \<^verbatim>\<open>dep/dep_htmltag.cpp\<close>. Shown: a page of text and tags is read back tag by tag, and
    whatever the text, the structure stays within its arrays.
  \<^item> \<^verbatim>\<open>Ul_Links\<close>: the links of a page, of \<^verbatim>\<open>dep/dep_exlink.cpp\<close> (\<open>strlink\<close>, \<open>getlink\<close>, \<open>exrellink\<close>, \<open>exlink\<close>, \<open>extract_link\<close>,
    \<open>ul_absolute_url\<close>). Shown: on a page of words, tags and links exactly the links come out, on every page nothing outside the arrays is
    touched, a link is resolved to where its segments lead, and \<open>extract_link\<close> agrees with \<open>ul_absolute_url\<close>. The distance of the
    page from its copy, which the code keeps in an \<open>int\<close>, is taken to fit.
  \<^item> \<^verbatim>\<open>Ul_Net_Old\<close>: the readers and writers of \<^verbatim>\<open>dep/dep_net.cpp\<close> that \<^verbatim>\<open>ul_net1.cpp\<close> replaces. The locale of \<^verbatim>\<open>Ul_Lines\<close> is interpreted
    on \<open>ul_readline\<close> and \<open>ul_readline_speed\<close>. Shown: old and new readers deliver the same lines, and \<open>ul_swrite\<close> writes all or reports an error.
  \<^item> \<^verbatim>\<open>Ul_Chunk\<close>: the decoders of a page in chunks and the link of a \<^verbatim>\<open>meta\<close> tag, of \<^verbatim>\<open>dep/dep_http.cpp\<close> (\<open>chunkpage\<close>, \<open>chunkpage_new\<close>,
    \<open>isconredir\<close>). Shown: the decoder ends on every page and stays inside it, and a page sent in chunks is put together again.
  \<^item> \<^verbatim>\<open>Ul_Http\<close>: the rest of \<^verbatim>\<open>dep/dep_http.cpp\<close>, opening the connection, the request, head and body of the answer, in
    \<open>ul_gethttpcontent\<close>, \<open>ul_gethttpcontent_new\<close> and \<open>ul_gethttpcontent_new_notpt\<close>. \<^verbatim>\<open>Ul_Http_Facts\<close> states the contract of one line of the
    head as a locale, \<open>head_steps\<close>, whose interpretations on the step of the first function and, in \<^verbatim>\<open>Ul_Http_Item\<close>, on that of the other
    two give that each returns within the blocks of its caller, whatever the server sends. \<^verbatim>\<open>Ul_Http_Fetch\<close> has a second locale,
    \<open>head_run\<close>, for a server that answers. Shown: the head, the status and the body arrive as they were sent, in chunks or not.
  \<^item> \<^verbatim>\<open>Ul_Com_Layout\<close>: events and layouts of the log library, of \<^verbatim>\<open>comlog/event.cpp\<close> and \<^verbatim>\<open>comlog/layout.cpp\<close>. Shown: whatever the
    pattern and the event, a line is made inside its buffer, and it is what the pattern says as far as it fits.
  \<^item> \<^verbatim>\<open>Ul_Com_Names\<close>: the hash table of \<^verbatim>\<open>comlog/xhash.h\<close> and the registry of names over it, of \<^verbatim>\<open>comlog/namemg.cpp\<close>. The locale of
    key-value stores of \<^verbatim>\<open>Ul_Pack\<close> is interpreted on the table. Shown: the table represents a map, short names are found, and two longer
    names have one key.
  \<^item> \<^verbatim>\<open>Ul_Com_Category\<close>: levels, masks and categories, of \<^verbatim>\<open>comlog/logcore.cpp\<close>, \<^verbatim>\<open>logstat.cpp\<close>, \<^verbatim>\<open>category.cpp\<close> and
    \<^verbatim>\<open>appender/appender.cpp\<close>, with the appender that writes to the terminal. Shown: which levels a state accepts, what a message prints,
    where, and that \<open>getInstance\<close> keeps and extends the tree of categories.
  \<^item> \<^verbatim>\<open>Ul_Argu\<close>: the command line arguments of \<^verbatim>\<open>ul_conf.cpp\<close>. Shown: the look-up functions find what was written on the command
    line; and three inputs on which the code does not do what its comments say.
  \<^item> This theory: what \<open>ul_normalize_site\<close> accepts has a main domain.

  \<^bold>\<open>Conventions.\<close> State is passed explicitly: a structure of the source is a \<open>record\<close>, an array in it a list of its length, a pointer into a
  text the suffix it points to or an index. The functions keep the names of the source. Return codes are integers as in the source.
  A function whose code can leave an array, divide by zero or fail an assertion returns an \<open>option\<close>, and \<open>None\<close> is that case; theorems that say
  what such a function returns say with it that this case does not occur. Functions that differ from each other only in the size of
  their buffers share one body with the size as a parameter. Allocation, opening of files and sockets succeed or fail as an
  argument says; the file system is a map from names to contents; a connection carries the script of what its calls do. Integers are
  \<open>int\<close> or \<open>nat\<close> with the conversions to 32 bits written out where the code relies on them.

  \<^bold>\<open>Termination and bounds.\<close> No fuel is used. Every loop but two is a total function: most recurse on the text they read, the others have a
  measure, the number of bytes left or, for loops on a connection, the number of events left in its script. The loops of the
  chunk decoder and of the lines of a head are partial functions, for which not ending is \<open>None\<close>, and are shown to end. A script that
  ends makes the calls fail, and the theorems that claim success ask for a script that is long enough for the bytes to be moved.

  \<^bold>\<open>What is not modelled.\<close> The wrappers of system calls (sockets other than the loops and \<open>ul_accept\<close>, threads, files, time), because they
  call the system and log its failure; \<^verbatim>\<open>ul_log.cpp\<close>, and of \<^verbatim>\<open>comlog\<close> the appenders that write to files and sockets, with their threads,
  servers and configuration;
  the accessors for \<open>float\<close> of configuration files, because they go through \<open>printf\<close> and \<open>atof\<close>; \<open>ul_pack_write_m\<close>, because it
  passes the size of a pointer for the size of a buffer; the functions under \<^verbatim>\<open>dep\<close> that newer functions replace, apart from those named above.
  \<^verbatim>\<open>ul_file.cpp\<close>, \<^verbatim>\<open>ul_func.cpp\<close> and \<^verbatim>\<open>ul_thr.cpp\<close> hold such wrappers, and sequences of them, only. That a socket is closed when a page has been fetched is not
  part of the model of a connection. Log
  messages and error numbers of the modelled functions are left out. The two other extractors in \<^verbatim>\<open>dep_exlink.cpp\<close> are code of GNU Wget
  and parameters of \<open>extract_link\<close>. Outside \<^verbatim>\<open>src/ullib\<close> there are copies of third-party
  projects and single exercise programs.
\<close>

section \<open>Normalised sites and their main domains\<close>

lemma label_ok_dlabel: "label_ok t x \<Longrightarrow> dlabel x"
proof -
  have "\<not> low_host CHR ''.''" by (simp add: low_host_def char_class_defs)
  then show "label_ok t x \<Longrightarrow> dlabel x" by (auto simp: label_ok_def dlabel_def)
qed

lemma normalized_site_labels:
  assumes "ul_normalize_site raw = (1, site)"
  shows "\<exists>ls. site = site_of ls \<and> 2 \<le> length ls \<and> list_all dlabel ls"
proof -
  have "site_form UL_URL_LET_DIGIT site"
    using normalize_site_body_form(1)[OF assms[unfolded ul_normalize_site_def] dot_not_host(1)] .
  then obtain l ls where "site = l @ dotted ls" "ls \<noteq> []" "label_ok UL_URL_LET_DIGIT l" "\<forall>x \<in> set ls. label_ok UL_URL_LET_DIGIT x"
    by (auto simp: site_form_def)
  then show ?thesis
    by (intro exI[of _ "l # ls"]) (cases ls; auto simp: list_all_iff intro: label_ok_dlabel)
qed

lemma maindomain_length: "maindomain d ls = Some ms \<Longrightarrow> length ms \<in> {2, 3}"
  unfolding maindomain_def by (cases "rev ls" rule: remdups_adj.cases) (auto split: list.splits if_splits)

text \<open>C15: a site that \<open>ul_normalize_site\<close> accepts and that is not four numbers always has an answer in \<open>ul_fetch_maindomain_ex\<close>, with the
  dictionary built in and a trunk that has room for the site: either the last two or three labels of the site, with the first of
  them as the trunk, or, for two labels of which the last one is in no table, the site itself as domain and trunk.\<close>

theorem normalized_site_maindomain:
  assumes "ul_normalize_site raw = (1, site)" and "guess_is_dotip2 site = 0" and "length site < sz" and "sz \<le> length blk"
  shows "\<exists>ls. site = site_of ls \<and> 2 \<le> length ls \<and>
    (case maindomain (load_default new_dict) ls of
       Some ms \<Rightarrow> suffix ms ls \<and> length ms \<in> {2, 3} \<and>
         (\<exists>k. ul_fetch_maindomain_ex site (Some blk) sz True = Some (Some k, Some (hd ms @ NUL # drop (Suc (length (hd ms))) blk))
            \<and> drop k site = site_of ms)
     | None \<Rightarrow> length ls = 2 \<and>
         ul_fetch_maindomain_ex site (Some blk) sz True
           = Some (Some 0, Some (site @ replicate (sz - 1 - length site) NUL @ NUL # drop sz blk)))"
proof -
  obtain ls where ls: "site = site_of ls" "2 \<le> length ls" "list_all dlabel ls" using normalized_site_labels[OF assms(1)] by auto
  let ?d = "load_default new_dict"
  note labels = fetch_with_labels[OF default_dict_ok ls(3,2) assms(2)[unfolded ls(1)] assms(4), of True]
  have rec: "recover site (Some blk) sz = Some (Some 0, Some (site @ replicate (sz - 1 - length site) NUL @ NUL # drop sz blk))"
    using assms(3,4) by (simp add: recover_def)
  show ?thesis
  proof (cases "maindomain ?d ls")
    case None
    then have "length (rev ls) = 2" using ls(2) by (cases "rev ls" rule: remdups_adj.cases) (auto simp: maindomain_def split: list.splits)
    then have "length ls = 2" by simp
    then show ?thesis using labels None rec ls by (intro exI[of _ ls]) (simp add: ul_fetch_maindomain_ex_def)
  next
    case (Some ms)
    have m: "suffix ms ls" "length ms \<in> {2, 3}" using maindomain_suffix[OF Some] maindomain_length[OF Some] by simp_all
    obtain l l' r where ms: "ms = l # l' # r" using maindomain_suffix[OF Some] by auto
    have "length (site_of ms) \<le> length site" using m(1) ls(1) by (auto simp: suffix_def)
    then have "length (hd ms) < sz" using ms assms(3) by simp
    then show ?thesis using labels Some m ls by (intro exI[of _ ls]) (auto simp: ul_fetch_maindomain_ex_def)
  qed
qed

theorem normalized_site_maindomain_witness:
  "\<exists>k b. ul_fetch_maindomain_ex ''www.baidu.com.cn'' (Some (replicate 20 NUL)) 20 True = Some (Some k, Some b)"
proof -
  have "ul_normalize_site ''WWW.Baidu.com.cn'' = (1, ''www.baidu.com.cn'')" "guess_is_dotip2 ''www.baidu.com.cn'' = 0" by code_simp+
  from normalized_site_maindomain[OF this, of 20 "replicate 20 NUL"] show ?thesis by (auto split: option.splits)
qed

end
